(* ===== verification/Prelude.thy ===== *)
theory Prelude
  imports Complex_Main "HOL-Library.AList" "HOL-Library.Char_ord" "HOL-Library.List_Lexorder"
    "HOL-Library.Product_Lexorder" "HOL-Library.Sublist" "HOL-Library.Multiset"
begin

text \<open>
  Shared vocabulary of the development: the fragments of the JavaScript language and of its
  standard library that the modelled modules use, with the lemmas about them that several
  components need.

  \<^item> Strings are \<open>string\<close> values, i.e. lists of code units in the range 0..255. The
    ordinal comparison of JavaScript strings is the lexicographic order on code units, which
    is the order that \<open>List_Lexorder\<close> and \<open>Char_ord\<close> put on \<open>string\<close>.
  \<^item> Out-of-range reads are written out: \<open>charAt\<close> gives the empty string, \<open>indexOf\<close>
    gives -1.
  \<^item> A plain object or a \<open>Map\<close> used as a dictionary is an association list in insertion
    order: reading is \<open>map_of\<close>, writing is \<open>AList.update\<close> (in place when the key is
    there, at the end otherwise), \<open>delete\<close> is \<open>AList.delete\<close>.
\<close>

section \<open>Strings and arrays\<close>

definition charAt :: "string \<Rightarrow> int \<Rightarrow> string" where
  "charAt s i = (if 0 \<le> i \<and> i < int (length s) then [s ! nat i] else [])"

fun indexOf :: "'a list \<Rightarrow> 'a \<Rightarrow> int" where
  "indexOf [] c = -1"
| "indexOf (x # xs) c = (if x = c then 0 else (let i = indexOf xs c in if i = -1 then -1 else i + 1))"

lemma indexOf_ge: "-1 \<le> indexOf xs c"
  by (induction xs) (auto simp: Let_def)

lemma indexOf_absent [simp]: "c \<notin> set xs \<Longrightarrow> indexOf xs c = -1"
  by (induction xs) auto

lemma indexOf_present: "c \<in> set xs \<Longrightarrow> 0 \<le> indexOf xs c \<and> indexOf xs c < int (length xs)"
proof (induction xs)
  case (Cons x xs)
  then show ?case using indexOf_ge [of xs c] by (auto simp: Let_def)
qed simp

lemma nth_indexOf [simp]: "c \<in> set xs \<Longrightarrow> xs ! nat (indexOf xs c) = c"
proof (induction xs)
  case (Cons x xs)
  then show ?case
    using indexOf_present [of c xs] by (auto simp: Let_def nat_add_distrib)
qed simp

lemma indexOf_nth: "distinct xs \<Longrightarrow> i < length xs \<Longrightarrow> indexOf xs (xs ! i) = int i"
proof (induction xs arbitrary: i)
  case (Cons x xs)
  then show ?case by (cases i) (auto simp: Let_def)
qed simp

text \<open>The digits of an alphabet that is written in increasing order compare as their
  positions do.\<close>

lemma indexOf_mono:
  assumes "sorted_wrt (<) ds" "c \<in> set ds" "d \<in> set ds"
  shows "indexOf ds c < indexOf ds d \<longleftrightarrow> c < (d :: 'a :: linorder)"
proof -
  let ?i = "nat (indexOf ds c)" and ?j = "nat (indexOf ds d)"
  have lt: "?i < length ds" "?j < length ds" and ge: "0 \<le> indexOf ds c" "0 \<le> indexOf ds d"
    using assms(2,3) by (auto dest: indexOf_present)
  have "?i < ?j \<longleftrightarrow> ds ! ?i < ds ! ?j"
    using assms(1) lt by (metis linorder_neqE_nat not_less_iff_gr_or_eq sorted_wrt_nth_less)
  then show ?thesis using assms(2,3) ge by auto
qed

lemma filter_other_key: "x \<notin> f ` set xs \<Longrightarrow> filter (\<lambda>l. f l \<noteq> x) xs = xs"
  by (induction xs) auto

lemma find_in_set: "find P xs = Some x \<Longrightarrow> x \<in> set xs \<and> P x"
  by (induction xs) (auto split: if_splits)

lemma count_list_distinct: "distinct xs \<Longrightarrow> count_list xs x = (if x \<in> set xs then 1 else 0)"
  by (induction xs) auto

text \<open>\<open>[...new Set(xs)]\<close>: the first occurrences.\<close>

definition uniq :: "'a list \<Rightarrow> 'a list" where
  "uniq xs = rev (remdups (rev xs))"

lemma set_uniq [simp]: "set (uniq xs) = set xs"
  by (simp add: uniq_def)

lemma distinct_uniq [simp]: "distinct (uniq xs)"
  by (simp add: uniq_def)

lemma uniq_distinct [simp]: "distinct xs \<Longrightarrow> uniq xs = xs"
  by (simp add: uniq_def distinct_remdups_id)

lemma distinct_map_sort_key: "distinct (map f (sort_key g xs)) \<longleftrightarrow> distinct (map f xs)"
proof -
  have "mset (map f (sort_key g xs)) = mset (map f xs)" by simp
  then show ?thesis by (rule mset_eq_imp_distinct_iff)
qed

lemma sort_key_Nil_iff [simp]: "sort_key f xs = [] \<longleftrightarrow> xs = []"
  by (metis set_empty set_sort)

lemma fold_max_start: "w \<le> fold (\<lambda>l w. max w (f l)) ls (w :: 'a :: linorder)"
  by (induction ls arbitrary: w) (auto intro: order_trans [OF max.cobounded1])

lemma fold_max_ge: "l \<in> set ls \<Longrightarrow> f l \<le> fold (\<lambda>l w. max w (f l)) ls (w :: 'a :: linorder)"
proof (induction ls arbitrary: w)
  case (Cons x ls)
  then show ?case using order_trans [OF max.cobounded2 [of "f x" w] fold_max_start] by auto
qed simp

section \<open>Lexicographic comparison\<close>

lemma append_less_append [simp]: "p @ xs < p @ ys \<longleftrightarrow> xs < (ys :: 'a :: order list)"
  by (induction p) auto

lemma less_append_self [simp]: "xs < xs @ ys \<longleftrightarrow> ys \<noteq> ([] :: 'a :: order list)"
proof -
  have "xs @ [] < xs @ ys \<longleftrightarrow> [] < ys" by (rule append_less_append)
  also have "[] < ys \<longleftrightarrow> ys \<noteq> []" by (cases ys) auto
  finally show ?thesis by simp
qed

lemma Nil_less_iff [simp]: "[] < xs \<longleftrightarrow> xs \<noteq> ([] :: 'a :: order list)"
  by (cases xs) auto

text \<open>Two lists that differ before either ends stay in order whatever follows them.\<close>

lemma less_append_diff:
  fixes xs ys :: "'a :: linorder list"
  assumes "xs < ys" "\<not> prefix xs ys"
  shows "xs @ us < ys @ vs"
  using assms
proof (induction xs arbitrary: ys)
  case (Cons x xs)
  then show ?case by (cases ys) auto
qed simp

lemma prefix_same_length: "prefix xs ys \<Longrightarrow> length xs = length ys \<Longrightarrow> xs = ys"
  by (auto simp: prefix_def)

lemma less_append_same_length:
  fixes xs ys :: "'a :: linorder list"
  assumes "xs < ys" "length xs = length ys"
  shows "xs @ us < ys @ vs"
  by (rule less_append_diff [OF assms(1)])
     (use assms prefix_same_length [of xs ys] in blast)


section \<open>Standard string operations\<close>

text \<open>\<open>String.prototype.trim\<close>: the white space and line terminators among the code units 0..255.\<close>

definition isSpace :: "char \<Rightarrow> bool" where
  "isSpace c = (let n = (of_char c :: nat) in (9 \<le> n \<and> n \<le> 13) \<or> n = 32 \<or> n = 160)"

definition jsTrim :: "string \<Rightarrow> string" where
  "jsTrim s = rev (dropWhile isSpace (rev (dropWhile isSpace s)))"

text \<open>\<open>toLowerCase\<close> on one code unit: the ASCII capitals and those of the Latin-1 block
  (multiplication sign apart) move up by 32.\<close>

definition lowerChar :: "char \<Rightarrow> char" where
  "lowerChar c = (let n = (of_char c :: nat) in
     if (65 \<le> n \<and> n \<le> 90) \<or> (192 \<le> n \<and> n \<le> 222 \<and> n \<noteq> 215) then char_of (n + 32) else c)"

lemma of_char_int: "int (of_char c) = of_char c"
  by (simp add: of_nat_of_char)

lemma lowerChar_int [code]:
  "lowerChar c = (let n = (of_char c :: int) in
     if (65 \<le> n \<and> n \<le> 90) \<or> (192 \<le> n \<and> n \<le> 222 \<and> n \<noteq> 215) then char_of (n + 32) else c)"
proof -
  have "char_of (int (of_char c) + 32) = (char_of (of_char c + 32 :: nat) :: char)"
    by (metis char_of_nat of_nat_add of_nat_numeral)
  then show ?thesis unfolding lowerChar_def Let_def of_char_int [symmetric] by auto
qed

definition jsLower :: "string \<Rightarrow> string" where
  "jsLower s = map lowerChar s"

text \<open>\<open>toUpperCase\<close> on the code units 0..255: three characters leave that range.\<close>

definition upperCode :: "char \<Rightarrow> nat list" where
  "upperCode c = (let n = of_char c in
     if (97 \<le> n \<and> n \<le> 122) \<or> (224 \<le> n \<and> n \<le> 254 \<and> n \<noteq> 247) then [n - 32]
     else if n = 223 then [83, 83] else if n = 181 then [924] else if n = 255 then [376] else [n])"

definition jsUpper :: "string \<Rightarrow> nat list" where
  "jsUpper s = concat (map upperCode s)"

text \<open>A string option as a condition: \<open>undefined\<close> and the empty string are falsy.\<close>

definition truthyStr :: "string option \<Rightarrow> bool" where
  "truthyStr x = (case x of None \<Rightarrow> False | Some s \<Rightarrow> s \<noteq> [])"

lemma truthyStr_Some [simp]: "truthyStr (Some s) = (s \<noteq> [])" "\<not> truthyStr None"
  by (simp_all add: truthyStr_def)

text \<open>\<open>String.prototype.includes\<close>.\<close>

fun strIncludes :: "string \<Rightarrow> string \<Rightarrow> bool" where
  "strIncludes [] needle = (needle = [])"
| "strIncludes (c # s) needle = (prefix needle (c # s) \<or> strIncludes s needle)"

text \<open>The first occurrence of a separator splits a string in one way.\<close>

lemma first_split_unique:
  "c \<notin> set xs \<Longrightarrow> c \<notin> set ys \<Longrightarrow> xs @ c # as = ys @ c # bs \<Longrightarrow> xs = ys \<and> as = bs"
proof (induction xs arbitrary: ys)
  case Nil
  then show ?case by (cases ys) auto
next
  case (Cons x xs)
  then show ?case by (cases ys) auto
qed

section \<open>Dictionaries\<close>

text \<open>Storing a list of pairs one after the other.\<close>

definition setAll :: "('k \<times> 'v) list \<Rightarrow> ('k \<times> 'v) list \<Rightarrow> ('k \<times> 'v) list" where
  "setAll kvs m = fold (\<lambda>(k, v). AList.update k v) kvs m"

lemma setAll_Nil [simp]: "setAll [] m = m"
  by (simp add: setAll_def)

lemma setAll_Cons [simp]: "setAll ((k, v) # kvs) m = setAll kvs (AList.update k v m)"
  by (simp add: setAll_def)

lemma map_of_setAll_other:
  "x \<notin> fst ` set kvs \<Longrightarrow> map_of (setAll kvs m) x = map_of m x"
  by (induction kvs arbitrary: m) (auto simp: update_conv')

lemma map_of_setAll:
  "distinct (map fst kvs) \<Longrightarrow> (k, v) \<in> set kvs \<Longrightarrow> map_of (setAll kvs m) k = Some v"
proof (induction kvs arbitrary: m)
  case (Cons p kvs)
  obtain k' v' where p: "p = (k', v')" by fastforce
  show ?case
  proof (cases "k = k'")
    case True
    then have "k \<notin> fst ` set kvs" using Cons.prems(1) p by simp
    then have "v = v'" using Cons.prems(2) p True by force
    then show ?thesis using True \<open>k \<notin> fst ` set kvs\<close> p by (simp add: map_of_setAll_other update_conv')
  next
    case False
    then show ?thesis using Cons p by auto
  qed
qed simp

lemma distinct_setAll: "distinct (map fst m) \<Longrightarrow> distinct (map fst (setAll kvs m))"
  by (induction kvs arbitrary: m) (auto simp: distinct_update)

lemma setAll_new: "distinct (map fst (m @ kvs)) \<Longrightarrow> setAll kvs m = m @ kvs"
proof (induction kvs arbitrary: m)
  case (Cons p kvs)
  obtain k v where p: "p = (k, v)" by fastforce
  have new: "k \<notin> set (map fst m)" using Cons.prems p by auto
  have "AList.update k v m = m @ [(k, v)]" using new by (induction m) auto
  then show ?case using Cons p by simp
qed simp

text \<open>Deleting several keys.\<close>

definition delAll :: "'k list \<Rightarrow> ('k \<times> 'v) list \<Rightarrow> ('k \<times> 'v) list" where
  "delAll ks m = fold AList.delete ks m"

lemma map_of_delAll: "map_of (delAll ks m) k = (if k \<in> set ks then None else map_of m k)"
  by (induction ks arbitrary: m) (auto simp: delAll_def delete_conv')

lemma mapVal_map_of: "map_of (map (\<lambda>(k, v). (k, f k v)) m) k = map_option (f k) (map_of m k)"
  by (induction m) auto

section \<open>State machines\<close>

text \<open>A machine whose steps keep a property of its states keeps it along every run.\<close>

locale step_invariant =
  fixes step :: "'s \<Rightarrow> 's \<Rightarrow> bool" and inv :: "'s \<Rightarrow> bool"
  assumes step_inv: "step s t \<Longrightarrow> inv s \<Longrightarrow> inv t"
begin

lemma run_inv: "step\<^sup>*\<^sup>* s t \<Longrightarrow> inv s \<Longrightarrow> inv t"
  by (induction rule: rtranclp_induct) (auto intro: step_inv)

end

end
