(* ===== verification/Js_Values.thy ===== *)
theory Js_Values
  imports Prelude
begin

text \<open>
  JavaScript values of type \<open>unknown\<close>: what a stored view configuration or a property bag may
  hold. Objects keep their keys in insertion order.

  Numbers are exact rationals (every finite double is one) beside the four special values the
  code distinguishes.
\<close>

datatype jsnum = Fin rat | NegZero | NaN | PosInf | NegInf

datatype jsval =
    JUndefined
  | JNull
  | JBool bool
  | JNum jsnum
  | JStr string
  | JArr "jsval list"
  | JObj "(string \<times> jsval) list"

text \<open>Reading a key of an object: an absent key reads \<open>undefined\<close>.\<close>

definition objGet :: "(string \<times> jsval) list \<Rightarrow> string \<Rightarrow> jsval" where
  "objGet kvs k = (case map_of kvs k of None \<Rightarrow> JUndefined | Some v \<Rightarrow> v)"

text \<open>A string-keyed dictionary of values, and its \<open>k in b\<close> test.\<close>

type_synonym bag = "(string \<times> jsval) list"

definition hasKey :: "bag \<Rightarrow> string \<Rightarrow> bool" where
  "hasKey b k = (map_of b k \<noteq> None)"

lemma hasKey_iff: "hasKey b k \<longleftrightarrow> k \<in> fst ` set b"
  by (simp add: hasKey_def map_of_eq_None_iff)

lemma hasKey_append [simp]: "hasKey (a @ b) k \<longleftrightarrow> hasKey a k \<or> hasKey b k"
  by (auto simp: hasKey_iff)

lemma objGet_update: "objGet (AList.update k v d) j = (if k = j then v else objGet d j)"
  by (simp add: objGet_def update_conv')

text \<open>Truthiness.\<close>

fun truthy :: "jsval \<Rightarrow> bool" where
  "truthy JUndefined = False"
| "truthy JNull = False"
| "truthy (JBool b) = b"
| "truthy (JNum n) = (n \<noteq> Fin 0 \<and> n \<noteq> NegZero \<and> n \<noteq> NaN)"
| "truthy (JStr s) = (s \<noteq> [])"
| "truthy (JArr _) = True"
| "truthy (JObj _) = True"

text \<open>\<open>v ?? d\<close>.\<close>

definition nullish :: "jsval \<Rightarrow> bool" where
  "nullish v = (v = JUndefined \<or> v = JNull)"

definition orElse :: "jsval \<Rightarrow> jsval \<Rightarrow> jsval" where
  "orElse v d = (if nullish v then d else v)"

text \<open>\<open>String(v)\<close>, also the key a value is used as in \<open>obj[v]\<close>. The spelling of a
  number is an argument.\<close>

fun stringOf :: "(jsnum \<Rightarrow> string) \<Rightarrow> jsval \<Rightarrow> string" where
  "stringOf numStr (JStr s) = s"
| "stringOf numStr (JNum n) = numStr n"
| "stringOf numStr (JBool b) = (if b then ''true'' else ''false'')"
| "stringOf numStr JNull = ''null''"
| "stringOf numStr JUndefined = ''undefined''"
| "stringOf numStr (JArr vs) =
     concat (case map (\<lambda>v. if nullish v then [] else stringOf numStr v) vs of
        [] \<Rightarrow> [] | x # xs \<Rightarrow> x # map (\<lambda>s. CHR '','' # s) xs)"
| "stringOf numStr (JObj _) = ''[object Object]''"

text \<open>The decimal digits of a natural number, the spelling of an array index.\<close>

fun showNat :: "nat \<Rightarrow> string" where
  "showNat n = (if n < 10 then [char_of (48 + n)] else showNat (n div 10) @ [char_of (48 + n mod 10)])"

declare showNat.simps [simp del]

text \<open>
  Reading a property of an arbitrary value: of \<open>null\<close> and \<open>undefined\<close> it throws (None);
  primitives and arrays have none of the keys the code asks for. \<open>optProp\<close> is \<open>v?.k\<close>.
\<close>

definition optProp :: "jsval \<Rightarrow> string \<Rightarrow> jsval" where
  "optProp v k = (case v of JObj kvs \<Rightarrow> objGet kvs k | _ \<Rightarrow> JUndefined)"

definition getProp :: "jsval \<Rightarrow> string \<Rightarrow> jsval option" where
  "getProp v k = (if nullish v then None else Some (optProp v k))"

text \<open>\<open>v && typeof v === 'object'\<close>: objects and arrays.\<close>

fun objectLike :: "jsval \<Rightarrow> bool" where
  "objectLike (JObj _) = True"
| "objectLike (JArr _) = True"
| "objectLike _ = False"

text \<open>\<open>Object.entries\<close> of such a value.\<close>

fun objEntries :: "jsval \<Rightarrow> bag" where
  "objEntries (JObj kvs) = kvs"
| "objEntries (JArr vs) = zip (map showNat [0..<length vs]) vs"
| "objEntries _ = []"

text \<open>\<open>for (const x of v ?? [])\<close>: the elements it runs over; what is not iterable throws (None).\<close>

fun iterate :: "jsval \<Rightarrow> jsval list option" where
  "iterate JUndefined = Some []"
| "iterate JNull = Some []"
| "iterate (JArr vs) = Some vs"
| "iterate (JStr s) = Some (map (\<lambda>c. JStr [c]) s)"
| "iterate _ = None"

text \<open>A loop whose body may throw, threading a state.\<close>

fun foldM :: "('a \<Rightarrow> 's \<Rightarrow> 's option) \<Rightarrow> 'a list \<Rightarrow> 's \<Rightarrow> 's option" where
  "foldM f [] s = Some s"
| "foldM f (x # xs) s = (case f x s of None \<Rightarrow> None | Some s' \<Rightarrow> foldM f xs s')"

text \<open>\<open>===\<close> on values; two objects written down apart are never the same object.\<close>

fun strictEq :: "jsval \<Rightarrow> jsval \<Rightarrow> bool" where
  "strictEq (JObj _) _ = False"
| "strictEq (JArr _) _ = False"
| "strictEq (JNum NaN) _ = False"
| "strictEq v w = (v = w \<or> {v, w} = {JNum (Fin 0), JNum NegZero})"

text \<open>
  \<open>JSON.stringify\<close>, up to the spelling of the text: an undefined value has no text, inside an
  array it is written \<open>null\<close>, inside an object its key is left out; the non-finite numbers are
  written \<open>null\<close> and negative zero \<open>0\<close>. Two values have the same text exactly when these
  trees are equal.
\<close>

datatype json =
    JsonNull
  | JsonBool bool
  | JsonNum rat
  | JsonStr string
  | JsonArr "json list"
  | JsonObj "(string \<times> json) list"

fun stringify :: "jsval \<Rightarrow> json option" where
  "stringify JUndefined = None"
| "stringify JNull = Some JsonNull"
| "stringify (JBool b) = Some (JsonBool b)"
| "stringify (JNum n) =
     Some (case n of Fin q \<Rightarrow> JsonNum q | NegZero \<Rightarrow> JsonNum 0 | _ \<Rightarrow> JsonNull)"
| "stringify (JStr s) = Some (JsonStr s)"
| "stringify (JArr vs) =
     Some (JsonArr (map (\<lambda>v. case stringify v of None \<Rightarrow> JsonNull | Some j \<Rightarrow> j) vs))"
| "stringify (JObj kvs) =
     Some (JsonObj (concat (map (\<lambda>kv. case stringify (snd kv) of None \<Rightarrow> [] | Some j \<Rightarrow> [(fst kv, j)]) kvs)))"

definition sameJson :: "jsval \<Rightarrow> jsval \<Rightarrow> bool" where
  "sameJson a b = (stringify a = stringify b)"

lemma sameJson_refl [simp]: "sameJson a a"
  by (simp add: sameJson_def)

text \<open>\<open>JSON.parse\<close> of such a text.\<close>

fun unjson :: "json \<Rightarrow> jsval" where
  "unjson JsonNull = JNull"
| "unjson (JsonBool b) = JBool b"
| "unjson (JsonNum q) = JNum (Fin q)"
| "unjson (JsonStr s) = JStr s"
| "unjson (JsonArr js) = JArr (map unjson js)"
| "unjson (JsonObj kvs) = JObj (map (\<lambda>kv. (fst kv, unjson (snd kv))) kvs)"

lemma stringify_unjson [simp]: "stringify (unjson j) = Some j"
proof (induction j rule: unjson.induct)
  case (5 js)
  then show ?case by (auto intro: map_idI)
next
  case (6 kvs)
  have "concat (map (\<lambda>kv. case stringify (snd kv) of None \<Rightarrow> [] | Some j \<Rightarrow> [(fst kv, j)])
      (map (\<lambda>kv. (fst kv, unjson (snd kv))) kvs)) = kvs"
    using 6 by (induction kvs) auto
  then show ?case by simp
qed auto

end
