(* ===== verification/View_Layout.thy ===== *)
theory View_Layout
  imports Js_Values
begin

text \<open>
  The data of a view's reference layout as \<^verbatim>\<open>frontend/src/types/schema.ts\<close> and
  \<^verbatim>\<open>frontend/src/utils/referenceLayout.ts\<close> type it: layer columns, the tree of groups
  inside a layer, and the map from an entity's URN to its explicit assignment. Optional fields
  are \<open>option\<close> values.
\<close>

datatype node_sort = AlphaAsc | AlphaDesc | TypeAsc | CountDesc | CustomSort

datatype assigned_by = ByUser | ByRule | ByImport | ByQuery

record entry =
  e_layerId :: string
  e_logicalNodeId :: "string option"
  e_inheritsChildren :: bool
  e_assignedBy :: "assigned_by option"
  e_assignedAt :: "string option"
  e_orderKey :: "string option"

datatype group_type = ContainerType | SystemType | GroupType

text \<open>A group (\<open>LogicalNodeConfig\<close>): a view-only container in a layer, with groups inside it.\<close>

datatype group = Group
  (g_id: string) (g_name: string) (g_description: "string option") (g_type: group_type)
  (g_children: "group list option") (g_rules: jsval) (g_collapsed: "bool option")

record view_layer =
  vl_id :: string
  vl_name :: string
  vl_description :: "string option"
  vl_icon :: "string option"
  vl_color :: "string option"
  vl_entityTypes :: "string list"
  vl_order :: rat
  vl_sequence :: "rat option"
  vl_width :: "rat option"
  vl_nodeSortMode :: "node_sort option"
  vl_logicalNodes :: "group list option"
  vl_showUnassigned :: "bool option"
  vl_anchorUrn :: "string option"
  vl_properties :: "(string \<times> jsval) list option"
  vl_rules :: jsval
  vl_scopeEdges :: jsval
  vl_templateLayerId :: "string option"

type_synonym assignments = "(string \<times> entry) list"

record layout =
  lay_layers :: "view_layer list"
  lay_assignments :: assignments
  lay_defaultNodeSortMode :: "node_sort option"

section \<open>Groups as forests\<close>

definition kids :: "group \<Rightarrow> group list" where
  "kids g = (case g_children g of None \<Rightarrow> [] | Some gs \<Rightarrow> gs)"

definition setChildren :: "group list option \<Rightarrow> group \<Rightarrow> group" where
  "setChildren cs g =
     Group (g_id g) (g_name g) (g_description g) (g_type g) cs (g_rules g) (g_collapsed g)"

definition setGroupName :: "string \<Rightarrow> group \<Rightarrow> group" where
  "setGroupName n g =
     Group (g_id g) n (g_description g) (g_type g) (g_children g) (g_rules g) (g_collapsed g)"

lemma setChildren_sel [simp]:
  "g_id (setChildren cs g) = g_id g" "g_name (setChildren cs g) = g_name g"
  "g_children (setChildren cs g) = cs"
  by (simp_all add: setChildren_def)

lemma setGroupName_sel [simp]:
  "g_id (setGroupName n g) = g_id g" "g_name (setGroupName n g) = n"
  "g_children (setGroupName n g) = g_children g" "kids (setGroupName n g) = kids g"
  by (simp_all add: setGroupName_def kids_def)

lemma setChildren_same [simp]: "setChildren (g_children g) g = g"
  by (simp add: setChildren_def)

lemma kids_Some: "g_children g = Some cs \<Longrightarrow> kids g = cs \<and> setChildren (Some cs) g = g"
  by (metis kids_def option.simps(5) setChildren_same)

lemma kids_None: "g_children g = None \<Longrightarrow> kids g = []"
  by (simp add: kids_def)

lemma kids_setChildren [simp]:
  "kids (setChildren (Some gs) g) = gs" "kids (setChildren None g) = []"
  by (simp_all add: kids_def)

lemma size_kids [termination_simp]: "size_list size (kids g) < size g"
  by (cases g) (auto simp: kids_def split: option.splits)

lemma size_kids_Cons [termination_simp]:
  "size_list size (kids g) < Suc (size g + size_list size gs)"
  using size_kids [of g] by simp

text \<open>Every group id of a forest, in depth-first order.\<close>

fun forestIds :: "group list \<Rightarrow> string list" where
  "forestIds [] = []"
| "forestIds (g # gs) = g_id g # forestIds (kids g) @ forestIds gs"

lemma forestIds_append [simp]: "forestIds (xs @ ys) = forestIds xs @ forestIds ys"
  by (induction xs) auto

lemma forestIds_kids: "g \<in> set gs \<Longrightarrow> set (forestIds (kids g)) \<subseteq> set (forestIds gs)"
  by (induction gs) auto

lemma forestIds_roots: "g \<in> set gs \<Longrightarrow> g_id g \<in> set (forestIds gs)"
  by (induction gs) auto

text \<open>A bare column, for the concrete examples.\<close>

definition sampleLayer :: "string \<Rightarrow> rat \<Rightarrow> view_layer" where
  "sampleLayer i ord = \<lparr>vl_id = i, vl_name = i, vl_description = None, vl_icon = None, vl_color = None,
     vl_entityTypes = [], vl_order = ord, vl_sequence = None, vl_width = None, vl_nodeSortMode = None,
     vl_logicalNodes = None, vl_showUnassigned = None, vl_anchorUrn = None, vl_properties = None,
     vl_rules = JUndefined, vl_scopeEdges = JUndefined, vl_templateLayerId = None\<rparr>"

end
