(* ===== verification/Order_Keys.thy ===== *)
theory Order_Keys
  imports Prelude
begin

text \<open>
  The fractional order keys of \<^verbatim>\<open>frontend/src/utils/orderKeys.ts\<close>: base-62 strings
  whose ordinal order is the user's manual order of the nodes in a layer column. Every
  function of the module is modelled with its exceptions as values of \<open>order_key_error\<close>.
\<close>

section \<open>The module\<close>

definition DIGITS :: string where
  "DIGITS = ''0123456789ABCDEFGHIJKLMNOPQRSTUVWXYZabcdefghijklmnopqrstuvwxyz''"

definition SMALLEST_INTEGER :: string where
  "SMALLEST_INTEGER = ''A00000000000000000000000000''"

datatype order_key_error =
    InvalidHead string
  | InvalidKey string
  | InvalidIntegerPart string
  | TrailingZeroFraction string
  | MidpointGe string string
  | MidpointTrailingZero
  | KeysOutOfOrder string string
  | CannotDecrement
  | CannotIncrement

type_synonym 'a key_result = "order_key_error + 'a"

definition compareOrderKeys :: "string \<Rightarrow> string \<Rightarrow> int" where
  "compareOrderKeys a b = (if a < b then -1 else if a > b then 1 else 0)"

text \<open>\<open>head\<close> is the result of \<open>charAt(0)\<close>: one character, or empty for an empty key.\<close>

definition getIntegerLength :: "string \<Rightarrow> nat key_result" where
  "getIntegerLength head =
     (case head of
        [c] \<Rightarrow>
          (if CHR ''a'' \<le> c \<and> c \<le> CHR ''z''
           then Inr (of_char c - of_char (CHR ''a'') + 2)
           else if CHR ''A'' \<le> c \<and> c \<le> CHR ''Z''
           then Inr (of_char (CHR ''Z'') - of_char c + 2)
           else Inl (InvalidHead head))
      | _ \<Rightarrow> Inl (InvalidHead head))"

definition getIntegerPart :: "string \<Rightarrow> string key_result" where
  "getIntegerPart key =
     (case getIntegerLength (charAt key 0) of
        Inl e \<Rightarrow> Inl e
      | Inr integerLength \<Rightarrow>
          if integerLength > length key then Inl (InvalidKey key)
          else Inr (take integerLength key))"

definition validateInteger :: "string \<Rightarrow> unit key_result" where
  "validateInteger x =
     (case getIntegerLength (charAt x 0) of
        Inl e \<Rightarrow> Inl e
      | Inr n \<Rightarrow> if length x \<noteq> n then Inl (InvalidIntegerPart x) else Inr ())"

text \<open>\<open>s.slice(-1) === '0'\<close>.\<close>

definition endsZero :: "string \<Rightarrow> bool" where
  "endsZero s = (s \<noteq> [] \<and> last s = CHR ''0'')"

definition validateOrderKey :: "string \<Rightarrow> unit key_result" where
  "validateOrderKey key =
     (if key = SMALLEST_INTEGER then Inl (InvalidKey key)
      else case getIntegerPart key of
        Inl e \<Rightarrow> Inl e
      | Inr integerPart \<Rightarrow>
          if endsZero (drop (length integerPart) key) then Inl (TrailingZeroFraction key)
          else Inr ())"

text \<open>The loop of \<open>midpoint\<close>: how far \<open>a\<close>, padded with zeros, and \<open>b\<close> agree.\<close>

fun commonPrefix :: "string \<Rightarrow> string \<Rightarrow> nat" where
  "commonPrefix a [] = 0"
| "commonPrefix a (y # ys) =
     (if (case a of [] \<Rightarrow> CHR ''0'' | x # _ \<Rightarrow> x) = y then Suc (commonPrefix (tl a) ys) else 0)"

function midpoint :: "string \<Rightarrow> string option \<Rightarrow> string key_result" where
  "midpoint a b =
     (if (case b of None \<Rightarrow> False | Some b' \<Rightarrow> b' \<le> a)
      then Inl (MidpointGe a (the b))
      else if endsZero a \<or> (case b of None \<Rightarrow> False | Some b' \<Rightarrow> endsZero b')
      then Inl MidpointTrailingZero
      else
        let n = (case b of None \<Rightarrow> 0 | Some b' \<Rightarrow> commonPrefix a b')
        in if n > 0
           then map_sum id (\<lambda>m. take n (the b) @ m) (midpoint (drop n a) (Some (drop n (the b))))
           else
             let digitA = (if a = [] then 0 else indexOf DIGITS (hd a));
                 digitB = (case b of
                             None \<Rightarrow> int (length DIGITS)
                           | Some b' \<Rightarrow> (case b' of [] \<Rightarrow> 0 | y # _ \<Rightarrow> indexOf DIGITS y))
             in if digitB - digitA > 1 then Inr (charAt DIGITS ((digitA + digitB + 1) div 2))
                else if (case b of None \<Rightarrow> False | Some b' \<Rightarrow> length b' > 1)
                then Inr (take 1 (the b))
                else map_sum id (\<lambda>m. charAt DIGITS digitA @ m) (midpoint (drop 1 a) None))"
  by pat_completeness auto

lemma commonPrefix_le: "commonPrefix a b \<le> length b"
  by (induction a b rule: commonPrefix.induct) auto

termination midpoint
proof (relation "measures [\<lambda>(a, b). case b of None \<Rightarrow> 0 | Some b' \<Rightarrow> Suc (length b'), \<lambda>(a, b). length a]", goal_cases)
  case (2 a b n)
  then show ?case using commonPrefix_le [of a "the b"] by (auto split: option.splits)
next
  case (3 a b n dA dB)
  then show ?case by (cases a) (auto split: option.splits simp: DIGITS_def)
qed auto


declare midpoint.simps [simp del]

text \<open>
  The digit loop of \<open>incrementInteger\<close> runs from the last digit to the first while there is
  a carry; here it runs over the reversed digits. The second component is the carry left over.
\<close>

fun incDigits :: "string \<Rightarrow> string \<times> bool" where
  "incDigits [] = ([], True)"
| "incDigits (c # cs) =
     (let d = indexOf DIGITS c + 1
      in if d = int (length DIGITS)
         then (let (cs', carry) = incDigits cs in (CHR ''0'' # cs', carry))
         else (charAt DIGITS d @ cs, False))"

definition incrementInteger :: "string \<Rightarrow> string option key_result" where
  "incrementInteger x =
     (case validateInteger x of
        Inl e \<Rightarrow> Inl e
      | Inr _ \<Rightarrow>
          (let head = hd x; (rdigs, carry) = incDigits (rev (tl x)); digs = rev rdigs
           in if carry then
                if head = CHR ''Z'' then Inr (Some ''a0'')
                else if head = CHR ''z'' then Inr None
                else (let nextHead = char_of (of_char head + 1 :: nat)
                      in if nextHead > CHR ''a''
                         then Inr (Some (nextHead # digs @ ''0''))
                         else Inr (Some (nextHead # butlast digs)))
              else Inr (Some (head # digs))))"

fun decDigits :: "string \<Rightarrow> string \<times> bool" where
  "decDigits [] = ([], True)"
| "decDigits (c # cs) =
     (let d = indexOf DIGITS c - 1
      in if d = -1
         then (let (cs', borrow) = decDigits cs in (last DIGITS # cs', borrow))
         else (charAt DIGITS d @ cs, False))"

definition decrementInteger :: "string \<Rightarrow> string option key_result" where
  "decrementInteger x =
     (case validateInteger x of
        Inl e \<Rightarrow> Inl e
      | Inr _ \<Rightarrow>
          (let head = hd x; (rdigs, borrow) = decDigits (rev (tl x)); digs = rev rdigs
           in if borrow then
                if head = CHR ''a'' then Inr (Some (''Z'' @ [last DIGITS]))
                else if head = CHR ''A'' then Inr None
                else (let prevHead = char_of (of_char head - 1 :: nat)
                      in if prevHead < CHR ''Z''
                         then Inr (Some (prevHead # digs @ [last DIGITS]))
                         else Inr (Some (prevHead # butlast digs)))
              else Inr (Some (head # digs))))"

definition validateBound :: "string option \<Rightarrow> unit key_result" where
  "validateBound k = (case k of None \<Rightarrow> Inr () | Some key \<Rightarrow> validateOrderKey key)"

text \<open>The three cases of \<open>generateKeyBetween\<close> after its validation of the bounds.\<close>

definition keyBefore :: "string \<Rightarrow> string key_result" where
  "keyBefore b =
     (case getIntegerPart b of
        Inl e \<Rightarrow> Inl e
      | Inr ib \<Rightarrow>
          let fb = drop (length ib) b
          in if ib = SMALLEST_INTEGER then map_sum id (\<lambda>m. ib @ m) (midpoint [] (Some fb))
             else if ib < b then Inr ib
             else case decrementInteger ib of
                    Inl e \<Rightarrow> Inl e
                  | Inr None \<Rightarrow> Inl CannotDecrement
                  | Inr (Some res) \<Rightarrow> Inr res)"

definition keyAfter :: "string \<Rightarrow> string key_result" where
  "keyAfter a =
     (case getIntegerPart a of
        Inl e \<Rightarrow> Inl e
      | Inr ia \<Rightarrow>
          (case incrementInteger ia of
             Inl e \<Rightarrow> Inl e
           | Inr None \<Rightarrow> map_sum id (\<lambda>m. ia @ m) (midpoint (drop (length ia) a) None)
           | Inr (Some i) \<Rightarrow> Inr i))"

definition keyInside :: "string \<Rightarrow> string \<Rightarrow> string key_result" where
  "keyInside a b =
     (case getIntegerPart a of
        Inl e \<Rightarrow> Inl e
      | Inr ia \<Rightarrow>
          (case getIntegerPart b of
             Inl e \<Rightarrow> Inl e
           | Inr ib \<Rightarrow>
               let fa = drop (length ia) a; fb = drop (length ib) b
               in if ia = ib then map_sum id (\<lambda>m. ia @ m) (midpoint fa (Some fb))
                  else case incrementInteger ia of
                         Inl e \<Rightarrow> Inl e
                       | Inr None \<Rightarrow> Inl CannotIncrement
                       | Inr (Some i) \<Rightarrow>
                           if i < b then Inr i
                           else map_sum id (\<lambda>m. ia @ m) (midpoint fa None)))"

definition generateKeyBetween :: "string option \<Rightarrow> string option \<Rightarrow> string key_result" where
  "generateKeyBetween a b =
     (case validateBound a of
        Inl e \<Rightarrow> Inl e
      | Inr _ \<Rightarrow>
          (case validateBound b of
             Inl e \<Rightarrow> Inl e
           | Inr _ \<Rightarrow>
               (case (a, b) of
                  (Some a', Some b') \<Rightarrow>
                    if b' \<le> a' then Inl (KeysOutOfOrder a' b') else keyInside a' b'
                | (None, None) \<Rightarrow> Inr ''a0''
                | (None, Some b') \<Rightarrow> keyBefore b'
                | (Some a', None) \<Rightarrow> keyAfter a')))"

text \<open>The loops of \<open>generateNKeysBetween\<close> for one open bound: \<open>n\<close> further keys, each next to
  the one before.\<close>

fun appendKeys :: "nat \<Rightarrow> string \<Rightarrow> string list key_result" where
  "appendKeys 0 c = Inr []"
| "appendKeys (Suc n) c =
     (case generateKeyBetween (Some c) None of
        Inl e \<Rightarrow> Inl e
      | Inr c' \<Rightarrow> map_sum id (\<lambda>ks. c' # ks) (appendKeys n c'))"

fun prependKeys :: "nat \<Rightarrow> string \<Rightarrow> string list key_result" where
  "prependKeys 0 c = Inr []"
| "prependKeys (Suc n) c =
     (case generateKeyBetween None (Some c) of
        Inl e \<Rightarrow> Inl e
      | Inr c' \<Rightarrow> map_sum id (\<lambda>ks. c' # ks) (prependKeys n c'))"

fun generateNKeysBetween :: "string option \<Rightarrow> string option \<Rightarrow> nat \<Rightarrow> string list key_result" where
  "generateNKeysBetween a b n =
     (if n = 0 then Inr []
      else if n = 1 then map_sum id (\<lambda>k. [k]) (generateKeyBetween a b)
      else case generateKeyBetween a b of
             Inl e \<Rightarrow> Inl e
           | Inr c \<Rightarrow>
               if b = None then map_sum id (\<lambda>ks. c # ks) (appendKeys (n - 1) c)
               else if a = None then map_sum id (\<lambda>ks. rev (c # ks)) (prependKeys (n - 1) c)
               else (let mid = n div 2
                     in case generateNKeysBetween a (Some c) mid of
                          Inl e \<Rightarrow> Inl e
                        | Inr below \<Rightarrow>
                            map_sum id (\<lambda>above. below @ c # above)
                              (generateNKeysBetween (Some c) b (n - mid - 1))))"

declare generateNKeysBetween.simps [simp del]


section \<open>Digits\<close>

lemma length_DIGITS [simp]: "length DIGITS = 62"
  by (simp add: DIGITS_def)

lemma sorted_DIGITS: "sorted_wrt (<) DIGITS"
  by code_simp

lemma distinct_DIGITS [simp]: "distinct DIGITS"
  by code_simp

lemma zero_DIGITS [simp]: "CHR ''0'' \<in> set DIGITS" "indexOf DIGITS (CHR ''0'') = 0"
  by (simp_all add: DIGITS_def)

lemma last_DIGITS [simp]: "last DIGITS = CHR ''z''" "CHR ''z'' \<in> set DIGITS"
    "indexOf DIGITS (CHR ''z'') = 61"
  by (simp_all add: DIGITS_def)

lemma charAt_DIGITS: "0 \<le> i \<Longrightarrow> i < 62 \<Longrightarrow> charAt DIGITS i = [DIGITS ! nat i]"
  by (simp add: charAt_def)

lemma DIGITS_nth_mem: "0 \<le> i \<Longrightarrow> i < 62 \<Longrightarrow> DIGITS ! nat i \<in> set DIGITS"
  by simp

lemma indexOf_DIGITS_nth: "0 \<le> i \<Longrightarrow> i < 62 \<Longrightarrow> indexOf DIGITS (DIGITS ! nat i) = i"
  by (simp add: indexOf_nth)

lemma digit_bounds: "c \<in> set DIGITS \<Longrightarrow> 0 \<le> indexOf DIGITS c \<and> indexOf DIGITS c < 62"
  using indexOf_present [of c DIGITS] by simp

lemmas digit_less = indexOf_mono [OF sorted_DIGITS]

lemma digit_zero_iff: "c \<in> set DIGITS \<Longrightarrow> indexOf DIGITS c = 0 \<longleftrightarrow> c = CHR ''0''"
  by (metis nth_indexOf zero_DIGITS)

lemma digit_max_iff: "c \<in> set DIGITS \<Longrightarrow> indexOf DIGITS c = 61 \<longleftrightarrow> c = CHR ''z''"
  by (metis nth_indexOf last_DIGITS(2,3))

section \<open>Midpoints of fractions\<close>

text \<open>The fraction part of a key: digits, the last of them not \<open>0\<close>.\<close>

definition fraction :: "string \<Rightarrow> bool" where
  "fraction s = (set s \<subseteq> set DIGITS \<and> \<not> endsZero s)"

lemma fraction_Nil [simp]: "fraction []"
  by (simp add: fraction_def endsZero_def)

lemma endsZero_append: "m \<noteq> [] \<Longrightarrow> endsZero (p @ m) = endsZero m"
  by (simp add: endsZero_def)

lemma fraction_drop: "fraction s \<Longrightarrow> fraction (drop n s)"
  by (auto simp: fraction_def endsZero_def dest: in_set_dropD)

lemma fraction_append: "set p \<subseteq> set DIGITS \<Longrightarrow> fraction m \<Longrightarrow> m \<noteq> [] \<Longrightarrow> fraction (p @ m)"
  by (simp add: fraction_def endsZero_append)

lemma fraction_single: "0 < i \<Longrightarrow> i < 62 \<Longrightarrow> fraction [DIGITS ! nat i]"
  using digit_zero_iff [OF DIGITS_nth_mem, of i] indexOf_DIGITS_nth [of i]
  by (auto simp: fraction_def endsZero_def)

text \<open>What the prefix loop finds: the stripped prefix is \<open>a\<close>'s own beginning, padded with
  zeros when \<open>a\<close> is shorter.\<close>

lemma commonPrefix_take:
  "take (commonPrefix a b) b =
     take (commonPrefix a b) a @ replicate (commonPrefix a b - length a) (CHR ''0'')"
  by (induction a b rule: commonPrefix.induct) (auto split: list.splits)

lemma commonPrefix_0:
  "commonPrefix a (y # ys) = 0 \<Longrightarrow> (case a of [] \<Rightarrow> CHR ''0'' | x # _ \<Rightarrow> x) \<noteq> y"
  by (auto split: if_splits)

lemma commonPrefix_tails:
  assumes "a < b" "\<not> endsZero b" "n = commonPrefix a b"
  shows "drop n a < drop n b"
proof (cases "n \<le> length a")
  case True
  then have "take n b = take n a" using commonPrefix_take [of a b] assms(3) by simp
  then have "take n a @ drop n a < take n a @ drop n b"
    using assms(1) by (metis append_take_drop_id)
  then show ?thesis by (simp only: append_less_append)
next
  case False
  have "drop n b \<noteq> []"
  proof
    assume "drop n b = []"
    then have "b = take n b" by simp
    then have "b = take n a @ replicate (n - length a) (CHR ''0'')"
      using commonPrefix_take [of a b] assms(3) by simp
    then show False using False assms(2) by (simp add: endsZero_def)
  qed
  then show ?thesis using False by (cases "drop n b") auto
qed

lemma commonPrefix_above:
  assumes "n = commonPrefix a b" "drop n a < m"
  shows "a < take n b @ m"
proof -
  have m: "m \<noteq> []" using assms(2) by auto
  have t: "take n b = take n a @ replicate (n - length a) (CHR ''0'')"
    using commonPrefix_take [of a b] assms(1) by simp
  show ?thesis
  proof (cases "n \<le> length a")
    case True
    then have "take n a @ drop n a < take n a @ m" using assms(2) by (simp only: append_less_append)
    then show ?thesis using t True by simp
  next
    case False
    then have "a < a @ replicate (n - length a) (CHR ''0'') @ m" using m by simp
    then show ?thesis using t False by simp
  qed
qed

definition midpoint_ok :: "string \<Rightarrow> string option \<Rightarrow> string \<Rightarrow> bool" where
  "midpoint_ok a b m = (fraction m \<and> a < m \<and> (case b of None \<Rightarrow> True | Some b' \<Rightarrow> m < b'))"

lemma midpoint_single:
  assumes "fraction a" "dA = (if a = [] then 0 else indexOf DIGITS (hd a))" "dA < i" "i < 62"
  shows "fraction [DIGITS ! nat i] \<and> a < [DIGITS ! nat i]"
proof -
  have A: "0 \<le> dA" using assms(1,2) by (cases a) (auto simp: fraction_def dest: digit_bounds)
  have "a < [DIGITS ! nat i]"
  proof (cases a)
    case (Cons x xs)
    have "x < DIGITS ! nat i"
      using Cons assms A digit_less [of x "DIGITS ! nat i"] indexOf_DIGITS_nth [of i]
      by (auto simp: fraction_def)
    then show ?thesis using Cons by simp
  qed simp
  then show ?thesis using fraction_single [of i] assms A by simp
qed


text \<open>The case without a common prefix.\<close>

lemma midpoint_no_prefix:
  assumes fa: "fraction a"
    and fb: "case b of None \<Rightarrow> True | Some b' \<Rightarrow> fraction b' \<and> a < b' \<and> commonPrefix a b' = 0"
    and dA: "dA = (if a = [] then 0 else indexOf DIGITS (hd a))"
    and dB: "dB = (case b of None \<Rightarrow> int (length DIGITS)
                   | Some b' \<Rightarrow> (case b' of [] \<Rightarrow> 0 | y # _ \<Rightarrow> indexOf DIGITS y))"
  shows "0 \<le> dA" "dA < dB" "dB \<le> 62"
    and "dB - dA > 1 \<Longrightarrow> midpoint_ok a b (charAt DIGITS ((dA + dB + 1) div 2))"
    and "dB - dA \<le> 1 \<Longrightarrow> b = Some b' \<Longrightarrow> length b' > 1 \<Longrightarrow> midpoint_ok a b (take 1 b')"
    and "dB - dA \<le> 1 \<Longrightarrow> midpoint_ok (drop 1 a) None m \<Longrightarrow> midpoint_ok a b (charAt DIGITS dA @ m)"
proof -
  show A0: "0 \<le> dA" using fa dA by (cases a) (auto simp: fraction_def dest: digit_bounds)
  have A62: "dA < 62" using fa dA by (cases a) (auto simp: fraction_def dest: digit_bounds)
  have SomeB: "\<exists>y ys. b' = y # ys \<and> dA < indexOf DIGITS y \<and> dB = indexOf DIGITS y \<and> y \<in> set DIGITS"
    if "b = Some b'" for b'
  proof -
    have b': "a < b'" "fraction b'" "commonPrefix a b' = 0" using fb that by auto
    then obtain y ys where y: "b' = y # ys" by (cases b') auto
    have yd: "y \<in> set DIGITS" using b'(2) y by (auto simp: fraction_def)
    have "dA < indexOf DIGITS y"
    proof (cases a)
      case Nil
      then have "y \<noteq> CHR ''0''" using commonPrefix_0 b'(3) y by fastforce
      then show ?thesis using Nil dA digit_bounds [OF yd] digit_zero_iff [OF yd] by auto
    next
      case (Cons x xs)
      then have "x \<noteq> y" using commonPrefix_0 [of a y ys] b'(3) y by simp
      then have "x < y" using b'(1) y Cons by auto
      then show ?thesis using Cons dA fa digit_less [of x y] yd by (auto simp: fraction_def)
    qed
    then show ?thesis using y yd dB that by auto
  qed
  show AB: "dA < dB"
  proof (cases b)
    case None then show ?thesis using dB A62 by simp
  next
    case (Some b') then show ?thesis using SomeB [OF Some] by auto
  qed
  show B62: "dB \<le> 62"
  proof (cases b)
    case None then show ?thesis using dB by simp
  next
    case (Some b') then show ?thesis using SomeB [OF Some] digit_bounds by fastforce
  qed
  have below: "[DIGITS ! nat i] < b'" if b: "b = Some b'" and i: "0 \<le> i" "i < dB" for b' i
  proof -
    obtain y ys where y: "b' = y # ys" "dB = indexOf DIGITS y" "y \<in> set DIGITS"
      using SomeB [OF b] by auto
    have "DIGITS ! nat i < y"
      using y i B62 digit_less [of "DIGITS ! nat i" y] indexOf_DIGITS_nth [of i] by auto
    then show ?thesis using y by simp
  qed
  show "midpoint_ok a b (charAt DIGITS ((dA + dB + 1) div 2))" if "dB - dA > 1"
  proof -
    let ?i = "(dA + dB + 1) div 2"
    have i: "dA < ?i" "?i < dB" "?i < 62" "0 \<le> ?i" using that A0 B62 by auto
    show ?thesis
      using midpoint_single [OF fa dA i(1) i(3)] charAt_DIGITS [OF i(4) i(3)]
        below [of _ ?i] i
      by (auto simp: midpoint_ok_def split: option.splits)
  qed
  show "midpoint_ok a b (take 1 b')" if b: "dB - dA \<le> 1" "b = Some b'" "length b' > 1"
  proof -
    obtain y ys where y: "b' = y # ys" "dA < indexOf DIGITS y" "y \<in> set DIGITS"
      using SomeB [OF b(2)] by auto
    have "fraction [y] \<and> a < [y]"
      using midpoint_single [OF fa dA y(2)] digit_bounds [OF y(3)] y(3) by simp
    then show ?thesis using y b by (auto simp: midpoint_ok_def)
  qed
  show "midpoint_ok a b (charAt DIGITS dA @ m)" if "dB - dA \<le> 1" "midpoint_ok (drop 1 a) None m"
  proof -
    have c: "charAt DIGITS dA = [DIGITS ! nat dA]" by (rule charAt_DIGITS [OF A0 A62])
    have m: "fraction m" "m \<noteq> []" "drop 1 a < m" using that(2) by (auto simp: midpoint_ok_def)
    have "fraction (DIGITS ! nat dA # m)"
      using fraction_append [of "[DIGITS ! nat dA]" m] m A0 A62 by simp
    moreover have "a < DIGITS ! nat dA # m"
      using m dA fa by (cases a) (auto simp: fraction_def)
    moreover have "DIGITS ! nat dA # m < b'" if "b = Some b'" for b'
      using below [OF that A0 AB] SomeB [OF that] A0 A62 AB
      by (auto simp: digit_less [symmetric] indexOf_DIGITS_nth)
    ultimately show ?thesis using c by (auto simp: midpoint_ok_def split: option.splits)
  qed
qed

lemma midpoint_total:
  assumes "fraction a" "case b of None \<Rightarrow> True | Some b' \<Rightarrow> fraction b' \<and> a < b'"
  shows "\<exists>m. midpoint a b = Inr m \<and> midpoint_ok a b m"
  using assms
proof (induction a b rule: midpoint.induct)
  case (1 a b)
  define n where "n = (case b of None \<Rightarrow> 0 | Some b' \<Rightarrow> commonPrefix a b')"
  define dA where "dA = (if a = [] then 0 else indexOf DIGITS (hd a))"
  define dB where "dB = (case b of None \<Rightarrow> int (length DIGITS)
                   | Some b' \<Rightarrow> (case b' of [] \<Rightarrow> 0 | y # _ \<Rightarrow> indexOf DIGITS y))"
  have guards: "\<not> (case b of None \<Rightarrow> False | Some b' \<Rightarrow> b' \<le> a)"
      "\<not> (endsZero a \<or> (case b of None \<Rightarrow> False | Some b' \<Rightarrow> endsZero b'))"
    using "1.prems" by (auto simp: fraction_def split: option.splits)
  note unf = midpoint.simps [of a b, folded n_def dA_def dB_def, unfolded Let_def]
  show ?case
  proof (cases "n > 0")
    case True
    then obtain b' where b: "b = Some b'" "n = commonPrefix a b'"
      by (auto simp: n_def split: option.splits)
    have b': "fraction b'" "a < b'" using "1.prems" b by auto
    have "drop n a < drop n b'"
      using commonPrefix_tails [OF b'(2) _ b(2)] b'(1) by (simp add: fraction_def)
    then obtain m where m: "midpoint (drop n a) (Some (drop n b')) = Inr m"
        "midpoint_ok (drop n a) (Some (drop n b')) m"
      using "1.IH"(1) [OF guards n_def True] "1.prems"(1) b b' by (auto simp: fraction_drop)
    have mm: "fraction m" "drop n a < m" "m < drop n b'" "m \<noteq> []"
      using m(2) by (auto simp: midpoint_ok_def)
    have "take n b' @ m < take n b' @ drop n b'" using mm(3) by (simp only: append_less_append)
    moreover have "fraction (take n b' @ m)"
      using fraction_append [OF _ mm(1,4)] b'(1) by (auto simp: fraction_def dest: in_set_takeD)
    moreover have "midpoint a b = Inr (take n b' @ m)"
      using unf guards True b m(1) by (simp del: take_append)
    ultimately show ?thesis
      using commonPrefix_above [OF b(2) mm(2)] b by (simp add: midpoint_ok_def)
  next
    case False
    have fb: "case b of None \<Rightarrow> True | Some b' \<Rightarrow> fraction b' \<and> a < b' \<and> commonPrefix a b' = 0"
      using "1.prems" False by (auto simp: n_def split: option.splits)
    note np = midpoint_no_prefix [OF "1.prems"(1) fb dA_def dB_def]
    consider (gap) "dB - dA > 1" | (longer) b' where "dB - dA \<le> 1" "b = Some b'" "length b' > 1"
      | (close) "dB - dA \<le> 1" "\<not> (case b of None \<Rightarrow> False | Some b' \<Rightarrow> length b' > 1)"
      by (cases "dB - dA > 1"; cases b; cases "1 < length (the b)") (auto simp: not_less)
    then show ?thesis
    proof cases
      case gap
      then show ?thesis using unf guards False np(4) by simp
    next
      case longer
      then show ?thesis using unf guards False np(5) by simp
    next
      case close
      obtain m where m: "midpoint (drop 1 a) None = Inr m" "midpoint_ok (drop 1 a) None m"
        using "1.IH"(2) [OF guards n_def False dA_def dB_def] close "1.prems"(1)
        by (auto simp: fraction_drop)
      then show ?thesis using unf guards False close np(6) [OF close(1) m(2)] by simp
    qed
  qed
qed


section \<open>Integer parts\<close>

text \<open>A well-formed integer part: the length its head asks for, and digits after the head.
  \<open>validateInteger\<close> itself does not look at the digits.\<close>

definition isInteger :: "string \<Rightarrow> bool" where
  "isInteger x = (validateInteger x = Inr () \<and> set (tl x) \<subseteq> set DIGITS)"

lemma charAt_0: "charAt s 0 = take 1 s"
  by (cases s) (auto simp: charAt_def)

lemma isInteger_iff:
  "isInteger x \<longleftrightarrow>
     (\<exists>c ds. x = c # ds \<and> set ds \<subseteq> set DIGITS \<and> getIntegerLength [c] = Inr (Suc (length ds)))"
  by (cases x)
     (auto simp: isInteger_def validateInteger_def charAt_0 getIntegerLength_def split: if_splits)

lemma isInteger_Cons:
  "isInteger (c # ds) \<longleftrightarrow> set ds \<subseteq> set DIGITS \<and> getIntegerLength [c] = Inr (Suc (length ds))"
  by (simp add: isInteger_iff)

lemma getIntegerLength_Inr:
  "getIntegerLength [c] = Inr n \<longleftrightarrow>
     (97 \<le> (of_char c :: nat) \<and> (of_char c :: nat) \<le> 122 \<and> n = of_char c - 95) \<or>
     (65 \<le> (of_char c :: nat) \<and> (of_char c :: nat) \<le> 90 \<and> n = 92 - of_char c)"
  by (auto simp: getIntegerLength_def less_eq_char_def)

lemma char_eq_code: "c = d \<longleftrightarrow> (of_char c :: nat) = of_char d"
  by simp

lemma integer_head_cases:
  assumes "getIntegerLength [c] = Inr n"
  obtains "c = CHR ''z''" | "c = CHR ''Z''"
    | "97 \<le> (of_char c :: nat)" "(of_char c :: nat) < 122"
    | "65 \<le> (of_char c :: nat)" "(of_char c :: nat) < 90"
proof -
  have "(of_char c :: nat) = 122 \<or> (of_char c :: nat) = 90 \<or>
      97 \<le> (of_char c :: nat) \<and> (of_char c :: nat) < 122 \<or>
      65 \<le> (of_char c :: nat) \<and> (of_char c :: nat) < 90"
    using assms unfolding getIntegerLength_Inr by linarith
  moreover have "c = CHR ''z'' \<longleftrightarrow> (of_char c :: nat) = 122" "c = CHR ''Z'' \<longleftrightarrow> (of_char c :: nat) = 90"
    unfolding char_eq_code [of c] by simp_all
  ultimately show thesis using that by blast
qed

lemma integer_head_cases_down:
  assumes "getIntegerLength [c] = Inr n"
  obtains "c = CHR ''a''" | "c = CHR ''A''"
    | "97 < (of_char c :: nat)" "(of_char c :: nat) \<le> 122"
    | "65 < (of_char c :: nat)" "(of_char c :: nat) \<le> 90"
proof -
  have "(of_char c :: nat) = 97 \<or> (of_char c :: nat) = 65 \<or>
      97 < (of_char c :: nat) \<and> (of_char c :: nat) \<le> 122 \<or>
      65 < (of_char c :: nat) \<and> (of_char c :: nat) \<le> 90"
    using assms unfolding getIntegerLength_Inr by linarith
  moreover have "c = CHR ''a'' \<longleftrightarrow> (of_char c :: nat) = 97" "c = CHR ''A'' \<longleftrightarrow> (of_char c :: nat) = 65"
    unfolding char_eq_code [of c] by simp_all
  ultimately show thesis using that by blast
qed

lemma integer_same_head:
  "isInteger (c # ds) \<Longrightarrow> isInteger (c # es) \<Longrightarrow> length ds = length es"
  by (simp add: isInteger_Cons)

text \<open>No integer part is a proper prefix of another, so their order decides the order of
  any keys built on them.\<close>

lemma integer_less_append:
  assumes "isInteger x" "isInteger y" "x < y"
  shows "x @ us < y @ vs"
proof (rule less_append_diff [OF assms(3)])
  show "\<not> prefix x y"
  proof
    assume p: "prefix x y"
    obtain c ds where x: "x = c # ds" using assms(1) by (auto simp: isInteger_iff)
    obtain e es where y: "y = e # es" using assms(2) by (auto simp: isInteger_iff)
    have "c = e" using p x y by simp
    then have "length x = length y" using x y assms(1,2) integer_same_head [of c ds es] by simp
    then have "x = y" using p by (rule prefix_same_length [rotated])
    then show False using assms(3) by simp
  qed
qed

lemma replicate_z_max:
  "set ds \<subseteq> set DIGITS \<Longrightarrow> ds \<le> replicate (length ds) (CHR ''z'')"
proof (induction ds)
  case (Cons d ds)
  then have "indexOf DIGITS d \<le> 61" using digit_bounds [of d] by auto
  then have "d \<le> CHR ''z''" using Cons.prems digit_less [of "CHR ''z''" d] by auto
  then show ?case using Cons by auto
qed simp

lemma replicate_0_min:
  "set ds \<subseteq> set DIGITS \<Longrightarrow> replicate (length ds) (CHR ''0'') \<le> ds"
proof (induction ds)
  case (Cons d ds)
  then have "0 \<le> indexOf DIGITS d" using digit_bounds [of d] by auto
  then have "CHR ''0'' \<le> d" using Cons.prems digit_less [of d "CHR ''0''"] by auto
  then show ?case using Cons by auto
qed simp

lemma SMALLEST_INTEGER_min: "isInteger x \<Longrightarrow> SMALLEST_INTEGER \<le> x"
proof -
  assume "isInteger x"
  then obtain c ds where x: "x = c # ds" "set ds \<subseteq> set DIGITS" "getIntegerLength [c] = Inr (Suc (length ds))"
    by (auto simp: isInteger_iff)
  have S: "SMALLEST_INTEGER = CHR ''A'' # replicate 26 (CHR ''0'')"
    by (simp add: SMALLEST_INTEGER_def numeral_eq_Suc)
  have "CHR ''A'' \<le> c" using x(3) by (auto simp: getIntegerLength_Inr less_eq_char_def)
  moreover have "length ds = 26" if "c = CHR ''A''" using x(3) that by (simp add: getIntegerLength_Inr)
  ultimately show ?thesis
    using replicate_0_min [OF x(2)] x(1) by (cases "c = CHR ''A''") (auto simp: S)
qed

lemma isInteger_SMALLEST: "isInteger SMALLEST_INTEGER"
  by code_simp

lemma incDigits_spec:
  assumes "incDigits cs = (cs', carry)" "set cs \<subseteq> set DIGITS"
  shows "length cs' = length cs \<and> set cs' \<subseteq> set DIGITS \<and>
    (if carry then cs = replicate (length cs) (CHR ''z'') \<and> cs' = replicate (length cs) (CHR ''0'')
     else rev cs < rev cs')"
  using assms
proof (induction cs arbitrary: cs' carry)
  case (Cons c cs)
  have c: "c \<in> set DIGITS" using Cons.prems by simp
  show ?case
  proof (cases "indexOf DIGITS c + 1 = 62")
    case True
    then have z: "c = CHR ''z''" using digit_max_iff [OF c] by simp
    obtain es k where r: "incDigits cs = (es, k)" by fastforce
    have "rev cs @ [CHR ''z''] < rev es @ [CHR ''0'']" if "rev cs < rev es" "length cs = length es"
      using that by (simp add: less_append_same_length)
    then show ?thesis using Cons r z True by (auto simp: Let_def)
  next
    case False
    let ?d = "indexOf DIGITS c + 1"
    have d: "0 \<le> ?d" "?d < 62" using digit_bounds [OF c] False by auto
    have "c < DIGITS ! nat ?d" using digit_less [OF c DIGITS_nth_mem [OF d]] indexOf_DIGITS_nth [OF d] by simp
    then show ?thesis using Cons.prems False d DIGITS_nth_mem [OF d] by (auto simp: Let_def charAt_DIGITS)
  qed
qed auto

lemma decDigits_spec:
  assumes "decDigits cs = (cs', borrow)" "set cs \<subseteq> set DIGITS"
  shows "length cs' = length cs \<and> set cs' \<subseteq> set DIGITS \<and>
    (if borrow then cs = replicate (length cs) (CHR ''0'') \<and> cs' = replicate (length cs) (CHR ''z'')
     else rev cs' < rev cs)"
  using assms
proof (induction cs arbitrary: cs' borrow)
  case (Cons c cs)
  have c: "c \<in> set DIGITS" using Cons.prems by simp
  show ?case
  proof (cases "indexOf DIGITS c - 1 = -1")
    case True
    then have z: "c = CHR ''0''" using digit_zero_iff [OF c] by simp
    obtain es k where r: "decDigits cs = (es, k)" by fastforce
    have "rev es @ [CHR ''z''] < rev cs @ [CHR ''0'']" if "rev es < rev cs" "length cs = length es"
      using that by (simp add: less_append_same_length)
    then show ?thesis using Cons r z True by (auto simp: Let_def)
  next
    case False
    let ?d = "indexOf DIGITS c - 1"
    have d: "0 \<le> ?d" "?d < 62" using digit_bounds [OF c] False by auto
    have "DIGITS ! nat ?d < c" using digit_less [OF DIGITS_nth_mem [OF d] c] indexOf_DIGITS_nth [OF d] by simp
    then show ?thesis using Cons.prems False d DIGITS_nth_mem [OF d] by (auto simp: Let_def charAt_DIGITS)
  qed
qed auto


lemma head_char_of:
  "n < 256 \<Longrightarrow> (of_char (char_of (n :: nat)) :: nat) = n"
  by simp

lemma incrementInteger_spec:
  assumes "isInteger x"
  shows "(incrementInteger x = Inr None \<and> x = CHR ''z'' # replicate 26 (CHR ''z'')) \<or>
         (\<exists>i. incrementInteger x = Inr (Some i) \<and> isInteger i \<and> x < i)"
proof -
  obtain c ds where x: "x = c # ds" "set ds \<subseteq> set DIGITS"
      and len: "getIntegerLength [c] = Inr (Suc (length ds))"
    using assms by (auto simp: isInteger_iff)
  have v: "validateInteger x = Inr ()" using assms by (simp add: isInteger_def)
  obtain es carry where inc: "incDigits (rev ds) = (es, carry)" by fastforce
  have sp: "length es = length ds" "set es \<subseteq> set DIGITS"
     "carry \<Longrightarrow> ds = replicate (length ds) (CHR ''z'') \<and> es = replicate (length ds) (CHR ''0'')"
     "\<not> carry \<Longrightarrow> ds < rev es"
    using incDigits_spec [OF inc] x(2) by (auto split: if_splits) (metis rev_replicate rev_rev_ident)
  have defs: "incrementInteger x =
      (if carry then
         if c = CHR ''Z'' then Inr (Some ''a0'')
         else if c = CHR ''z'' then Inr None
         else if char_of (of_char c + 1 :: nat) > CHR ''a''
         then Inr (Some (char_of (of_char c + 1 :: nat) # rev es @ ''0''))
         else Inr (Some (char_of (of_char c + 1 :: nat) # butlast (rev es)))
       else Inr (Some (c # rev es)))"
    using v x(1) inc by (simp add: incrementInteger_def Let_def)
  consider (digit) "\<not> carry" | (wrap) "carry" "c = CHR ''Z''" | (full) "carry" "c = CHR ''z''"
    | (push) "carry" "97 \<le> (of_char c :: nat)" "(of_char c :: nat) < 122"
    | (drop) "carry" "65 \<le> (of_char c :: nat)" "(of_char c :: nat) < 90"
    by (rule integer_head_cases [OF len]; cases carry) auto
  then show ?thesis
  proof cases
    case digit
    then show ?thesis using sp len defs by (auto simp: x(1) isInteger_Cons)
  next
    case wrap
    then show ?thesis using defs by (auto simp: x(1) isInteger_Cons getIntegerLength_Inr less_char_def)
  next
    case full
    then have "length ds = 26" using len by (simp add: getIntegerLength_Inr)
    then show ?thesis using sp(3) full defs by (auto simp: x(1))
  next
    case push
    let ?h = "char_of (of_char c + 1 :: nat) :: char"
    have h: "(of_char ?h :: nat) = of_char c + 1" using push by simp
    have "c \<noteq> CHR ''Z''" "c \<noteq> CHR ''z''" "?h > CHR ''a''" "c < ?h"
      using push h by (auto simp: less_char_def simp del: of_char_of)
    moreover have "getIntegerLength [?h] = Inr (Suc (Suc (length ds)))"
      using push h len by (auto simp: getIntegerLength_Inr simp del: of_char_of)
    ultimately show ?thesis using sp push defs by (auto simp: x(1) isInteger_Cons)
  next
    case drop
    let ?h = "char_of (of_char c + 1 :: nat) :: char"
    have h: "(of_char ?h :: nat) = of_char c + 1" using drop by simp
    have "c \<noteq> CHR ''Z''" "c \<noteq> CHR ''z''" "\<not> ?h > CHR ''a''" "c < ?h"
      using drop h by (auto simp: less_char_def simp del: of_char_of)
    moreover have "getIntegerLength [?h] = Inr (length ds)"
      using drop h len by (auto simp: getIntegerLength_Inr simp del: of_char_of)
    moreover have "0 < length ds" using drop len by (auto simp: getIntegerLength_Inr)
    ultimately show ?thesis using sp drop defs by (auto simp: x(1) isInteger_Cons dest: in_set_butlastD)
  qed
qed


lemma decrementInteger_spec:
  assumes "isInteger x"
  shows "(decrementInteger x = Inr None \<and> x = SMALLEST_INTEGER) \<or>
         (\<exists>i. decrementInteger x = Inr (Some i) \<and> isInteger i \<and> i < x)"
proof -
  obtain c ds where x: "x = c # ds" "set ds \<subseteq> set DIGITS"
      and len: "getIntegerLength [c] = Inr (Suc (length ds))"
    using assms by (auto simp: isInteger_iff)
  have v: "validateInteger x = Inr ()" using assms by (simp add: isInteger_def)
  obtain es borrow where dec: "decDigits (rev ds) = (es, borrow)" by fastforce
  have sp: "length es = length ds" "set es \<subseteq> set DIGITS"
     "borrow \<Longrightarrow> ds = replicate (length ds) (CHR ''0'') \<and> es = replicate (length ds) (CHR ''z'')"
     "\<not> borrow \<Longrightarrow> rev es < ds"
    using decDigits_spec [OF dec] x(2) by (auto split: if_splits) (metis rev_replicate rev_rev_ident)
  have defs: "decrementInteger x =
      (if borrow then
         if c = CHR ''a'' then Inr (Some ''Zz'')
         else if c = CHR ''A'' then Inr None
         else if char_of (of_char c - 1 :: nat) < CHR ''Z''
         then Inr (Some (char_of (of_char c - 1 :: nat) # rev es @ ''z''))
         else Inr (Some (char_of (of_char c - 1 :: nat) # butlast (rev es)))
       else Inr (Some (c # rev es)))"
    using v x(1) dec by (simp add: decrementInteger_def Let_def)
  consider (digit) "\<not> borrow" | (wrap) "borrow" "c = CHR ''a''" | (empty) "borrow" "c = CHR ''A''"
    | (drop) "borrow" "97 < (of_char c :: nat)" "(of_char c :: nat) \<le> 122"
    | (push) "borrow" "65 < (of_char c :: nat)" "(of_char c :: nat) \<le> 90"
    by (rule integer_head_cases_down [OF len]; cases borrow) auto
  then show ?thesis
  proof cases
    case digit
    then show ?thesis using sp len defs by (auto simp: x(1) isInteger_Cons)
  next
    case wrap
    then show ?thesis using defs by (auto simp: x(1) isInteger_Cons getIntegerLength_Inr less_char_def)
  next
    case empty
    then have "length ds = 26" using len by (simp add: getIntegerLength_Inr)
    then show ?thesis using sp(3) empty defs by (auto simp: x(1) SMALLEST_INTEGER_def numeral_eq_Suc)
  next
    case push
    let ?h = "char_of (of_char c - 1 :: nat) :: char"
    have h: "(of_char ?h :: nat) = of_char c - 1" using push by simp
    have "c \<noteq> CHR ''a''" "c \<noteq> CHR ''A''" "?h < CHR ''Z''" "?h < c"
      using push h by (auto simp: less_char_def simp del: of_char_of)
    moreover have "getIntegerLength [?h] = Inr (Suc (Suc (length ds)))"
      using push h len by (auto simp: getIntegerLength_Inr simp del: of_char_of)
    ultimately show ?thesis using sp push defs by (auto simp: x(1) isInteger_Cons)
  next
    case drop
    let ?h = "char_of (of_char c - 1 :: nat) :: char"
    have h: "(of_char ?h :: nat) = of_char c - 1" using drop by simp
    have "c \<noteq> CHR ''a''" "c \<noteq> CHR ''A''" "\<not> ?h < CHR ''Z''" "?h < c"
      using drop h by (auto simp: less_char_def simp del: of_char_of)
    moreover have "getIntegerLength [?h] = Inr (length ds)"
      using drop h len by (auto simp: getIntegerLength_Inr simp del: of_char_of)
    moreover have "0 < length ds" using drop len by (auto simp: getIntegerLength_Inr)
    ultimately show ?thesis using sp drop defs by (auto simp: x(1) isInteger_Cons dest: in_set_butlastD)
  qed
qed

section \<open>Valid keys\<close>

text \<open>A valid key: one \<open>validateOrderKey\<close> accepts and that is written in the digits.\<close>

definition validKey :: "string \<Rightarrow> bool" where
  "validKey k = (validateOrderKey k = Inr () \<and> set (tl k) \<subseteq> set DIGITS)"

lemma getIntegerPart_append:
  "isInteger i \<Longrightarrow> getIntegerPart (i @ f) = Inr i"
  by (auto simp: isInteger_iff getIntegerPart_def charAt_0)

lemma validKey_parts:
  assumes "validKey k"
  obtains i f where "k = i @ f" "isInteger i" "fraction f" "getIntegerPart k = Inr i"
    "drop (length i) k = f" "i = SMALLEST_INTEGER \<longrightarrow> f \<noteq> []"
proof -
  obtain i where i: "getIntegerPart k = Inr i" and z: "\<not> endsZero (drop (length i) k)"
      and ne: "k \<noteq> SMALLEST_INTEGER"
    using assms by (auto simp: validKey_def validateOrderKey_def split: if_splits sum.splits)
  then obtain n where n: "getIntegerLength (take 1 k) = Inr n" "n \<le> length k" "i = take n k"
    by (auto simp: getIntegerPart_def charAt_0 split: if_splits sum.splits)
  obtain c ks where k: "k = c # ks" using n(1) by (cases k) (auto simp: getIntegerLength_def)
  have "0 < n" using n(1) k by (auto simp: getIntegerLength_Inr)
  then obtain m where m: "n = Suc m" using gr0_implies_Suc by blast
  have ks: "set ks \<subseteq> set DIGITS" using assms k by (simp add: validKey_def)
  have "isInteger i" using n k m ks by (auto simp: isInteger_Cons min_def dest: in_set_takeD)
  moreover have "fraction (drop (length i) k)"
    using z ks k n m by (auto simp: fraction_def min_def dest: in_set_dropD)
  moreover have "i = SMALLEST_INTEGER \<Longrightarrow> drop (length i) k \<noteq> []"
    using ne n by (metis append_Nil2 append_take_drop_id length_take min.absorb2)
  ultimately show thesis using that [of i "drop (length i) k"] i n by (auto simp: min_def)
qed

lemma validKey_append:
  assumes "isInteger i" "fraction f" "i \<noteq> SMALLEST_INTEGER \<or> f \<noteq> []"
  shows "validKey (i @ f)"
proof -
  obtain c ds where i: "i = c # ds" "set ds \<subseteq> set DIGITS" using assms(1) by (auto simp: isInteger_iff)
  have "i @ f \<noteq> SMALLEST_INTEGER"
  proof
    assume e: "i @ f = SMALLEST_INTEGER"
    then have "getIntegerPart SMALLEST_INTEGER = Inr i" using getIntegerPart_append [OF assms(1)] by metis
    then have "i = SMALLEST_INTEGER" using getIntegerPart_append [OF isInteger_SMALLEST, of "[]"] by simp
    then show False using e assms(3) by simp
  qed
  then show ?thesis
    using getIntegerPart_append [OF assms(1), of f] assms(2) i
    by (auto simp: validKey_def validateOrderKey_def fraction_def)
qed


lemma validateBound_Some: "validKey k \<Longrightarrow> validateBound (Some k) = Inr ()"
  by (simp add: validateBound_def validKey_def)

lemma validateBound_None [simp]: "validateBound None = Inr ()"
  by (simp add: validateBound_def)

lemma validKey_fraction:
  assumes "isInteger i" "midpoint_ok a b m"
  shows "validKey (i @ m)"
  using assms by (auto simp: midpoint_ok_def intro: validKey_append)

lemma validKey_above:
  assumes "isInteger x" "isInteger i" "x < i"
  shows "validKey i"
proof -
  have "i \<noteq> SMALLEST_INTEGER" using SMALLEST_INTEGER_min [OF assms(1)] assms(3) by auto
  then show ?thesis using validKey_append [of i "[]"] assms(2) by simp
qed

lemma keyAfter_ok:
  assumes "validKey a"
  shows "\<exists>k. keyAfter a = Inr k \<and> validKey k \<and> a < k"
proof -
  obtain i f where a: "a = i @ f" "isInteger i" "fraction f" "getIntegerPart a = Inr i"
      "drop (length i) a = f"
    using assms by (rule validKey_parts)
  obtain m where m: "midpoint f None = Inr m" "midpoint_ok f None m"
    using midpoint_total [of f None] a(3) by auto
  show ?thesis
    using incrementInteger_spec [OF a(2)]
  proof (elim disjE exE conjE)
    assume "incrementInteger i = Inr None"
    then show ?thesis
      using a m validKey_fraction [OF a(2) m(2)] by (auto simp: keyAfter_def midpoint_ok_def)
  next
    fix j assume j: "incrementInteger i = Inr (Some j)" "isInteger j" "i < j"
    have "i @ f < j @ []" by (rule integer_less_append [OF a(2) j(2,3)])
    then show ?thesis using a j validKey_above [OF a(2) j(2,3)] by (auto simp: keyAfter_def)
  qed
qed

lemma keyInside_ok:
  assumes "validKey a" "validKey b" "a < b"
  shows "\<exists>k. keyInside a b = Inr k \<and> validKey k \<and> a < k \<and> k < b"
proof -
  obtain i f where a: "a = i @ f" "isInteger i" "fraction f" "getIntegerPart a = Inr i"
      "drop (length i) a = f"
    using assms(1) by (rule validKey_parts)
  obtain j g where b: "b = j @ g" "isInteger j" "fraction g" "getIntegerPart b = Inr j"
      "drop (length j) b = g"
    using assms(2) by (rule validKey_parts)
  show ?thesis
  proof (cases "i = j")
    case True
    then have "f < g" using assms(3) a(1) b(1) by simp
    then obtain m where m: "midpoint f (Some g) = Inr m" "midpoint_ok f (Some g) m"
      using midpoint_total [of f "Some g"] a(3) b(3) by auto
    then show ?thesis
      using True a b validKey_fraction [OF a(2) m(2)] by (auto simp: keyInside_def midpoint_ok_def Let_def)
  next
    case False
    have ij: "i < j"
      using False integer_less_append [OF b(2) a(2), of g f] assms(3) a(1) b(1)
      by (metis linorder_less_linear order_less_asym)
    obtain m where m: "midpoint f None = Inr m" "midpoint_ok f None m"
      using midpoint_total [of f None] a(3) by auto
    have im: "validKey (i @ m)" "a < i @ m" "i @ m < b"
      using validKey_fraction [OF a(2) m(2)] m(2) a(1) integer_less_append [OF a(2) b(2) ij] b(1)
      by (auto simp: midpoint_ok_def)
    have "incrementInteger i \<noteq> Inr None"
    proof
      assume "incrementInteger i = Inr None"
      then have i: "i = CHR ''z'' # replicate 26 (CHR ''z'')" using incrementInteger_spec [OF a(2)] by auto
      obtain c ds where j: "j = c # ds" "set ds \<subseteq> set DIGITS" "getIntegerLength [c] = Inr (Suc (length ds))"
        using b(2) by (auto simp: isInteger_iff)
      have "c \<le> CHR ''z''" using j(3) by (auto simp: getIntegerLength_Inr less_eq_char_def)
      moreover have "c = CHR ''z'' \<Longrightarrow> length ds = 26" using j(3) by (simp add: getIntegerLength_Inr)
      ultimately show False using ij i j(1) replicate_z_max [OF j(2)] by auto
    qed
    then obtain k where k: "incrementInteger i = Inr (Some k)" "isInteger k" "i < k"
      using incrementInteger_spec [OF a(2)] by auto
    have "i @ f < k @ []" by (rule integer_less_append [OF a(2) k(2,3)])
    then show ?thesis
      using False a b m k im validKey_above [OF a(2) k(2,3)]
      by (cases "k < b") (auto simp: keyInside_def Let_def)
  qed
qed

lemma keyBefore_ok:
  assumes "validKey b"
  shows "\<exists>k. keyBefore b = Inr k \<and> k < b \<and> (validKey k \<or> k = SMALLEST_INTEGER)"
proof -
  obtain i f where b: "b = i @ f" "isInteger i" "fraction f" "getIntegerPart b = Inr i"
      "drop (length i) b = f" "i = SMALLEST_INTEGER \<longrightarrow> f \<noteq> []"
    using assms by (rule validKey_parts)
  consider (least) "i = SMALLEST_INTEGER" | (bare) "i \<noteq> SMALLEST_INTEGER" "f \<noteq> []"
    | (int) "i \<noteq> SMALLEST_INTEGER" "f = []" by blast
  then show ?thesis
  proof cases
    case least
    then obtain m where m: "midpoint [] (Some f) = Inr m" "midpoint_ok [] (Some f) m"
      using midpoint_total [of "[]" "Some f"] b(3,6) by auto
    then show ?thesis
      using least b validKey_fraction [OF b(2) m(2)] by (auto simp: keyBefore_def midpoint_ok_def Let_def)
  next
    case bare
    then show ?thesis using b validKey_append [OF b(2), of "[]"] by (auto simp: keyBefore_def Let_def)
  next
    case int
    then obtain j where j: "decrementInteger i = Inr (Some j)" "isInteger j" "j < i"
      using decrementInteger_spec [OF b(2)] by auto
    then show ?thesis
      using int b validKey_append [OF j(2), of "[]"] by (auto simp: keyBefore_def Let_def)
  qed
qed

lemma generateKeyBetween_after:
  "validKey a \<Longrightarrow> \<exists>k. generateKeyBetween (Some a) None = Inr k \<and> validKey k \<and> a < k"
  using keyAfter_ok [of a] by (auto simp: generateKeyBetween_def validateBound_Some)

lemma generateKeyBetween_inside:
  "validKey a \<Longrightarrow> validKey b \<Longrightarrow> a < b \<Longrightarrow>
     \<exists>k. generateKeyBetween (Some a) (Some b) = Inr k \<and> validKey k \<and> a < k \<and> k < b"
  using keyInside_ok [of a b] by (auto simp: generateKeyBetween_def validateBound_Some)

lemma generateKeyBetween_before:
  "validKey b \<Longrightarrow> \<exists>k. generateKeyBetween None (Some b) = Inr k \<and> k < b \<and>
     (validKey k \<or> k = SMALLEST_INTEGER)"
  using keyBefore_ok [of b] by (auto simp: generateKeyBetween_def validateBound_Some)

lemma validKey_a0: "validKey ''a0''"
  by code_simp

section \<open>Many keys at once\<close>

lemma generateNKeysBetween_0 [simp]: "generateNKeysBetween a b 0 = Inr []"
  by (simp add: generateNKeysBetween.simps)

lemma generateNKeysBetween_1 [simp]:
  "generateNKeysBetween a b (Suc 0) = map_sum id (\<lambda>k. [k]) (generateKeyBetween a b)"
  by (simp add: generateNKeysBetween.simps)

text \<open>What a caller may rely on: \<open>n\<close> valid keys in strictly increasing order inside the bounds.\<close>

definition keys_within :: "string option \<Rightarrow> string option \<Rightarrow> string list \<Rightarrow> bool" where
  "keys_within a b ks =
     (sorted_wrt (<) ks \<and>
      (\<forall>k \<in> set ks. validKey k \<and> (case a of None \<Rightarrow> True | Some a' \<Rightarrow> a' < k) \<and>
                    (case b of None \<Rightarrow> True | Some b' \<Rightarrow> k < b')))"

lemma appendKeys_ok:
  "validKey c \<Longrightarrow> \<exists>ks. appendKeys n c = Inr ks \<and> length ks = n \<and> keys_within (Some c) None ks"
proof (induction n arbitrary: c)
  case (Suc n)
  obtain k where k: "generateKeyBetween (Some c) None = Inr k" "validKey k" "c < k"
    using generateKeyBetween_after [OF Suc.prems] by auto
  obtain ks where ks: "appendKeys n k = Inr ks" "length ks = n" "keys_within (Some k) None ks"
    using Suc.IH [OF k(2)] by auto
  then show ?case using k by (auto simp: keys_within_def)
qed (simp add: keys_within_def)

lemma generateNKeysBetween_inside:
  "validKey a \<Longrightarrow> validKey b \<Longrightarrow> a < b \<Longrightarrow>
     \<exists>ks. generateNKeysBetween (Some a) (Some b) n = Inr ks \<and> length ks = n \<and>
          keys_within (Some a) (Some b) ks"
proof (induction n arbitrary: a b rule: less_induct)
  case (less n)
  obtain c where c: "generateKeyBetween (Some a) (Some b) = Inr c" "validKey c" "a < c" "c < b"
    using generateKeyBetween_inside [OF less.prems] by auto
  show ?case
  proof (cases "n \<le> 1")
    case True
    then consider "n = 0" | "n = 1" by linarith
    then show ?thesis using c
      by cases (auto simp: keys_within_def)
  next
    case False
    then have n: "n div 2 < n" "n - n div 2 - 1 < n" by auto
    obtain ls where ls: "generateNKeysBetween (Some a) (Some c) (n div 2) = Inr ls"
        "length ls = n div 2" "keys_within (Some a) (Some c) ls"
      using less.IH [OF n(1) less.prems(1) c(2,3)] by auto
    obtain us where us: "generateNKeysBetween (Some c) (Some b) (n - n div 2 - 1) = Inr us"
        "length us = n - n div 2 - 1" "keys_within (Some c) (Some b) us"
      using less.IH [OF n(2) c(2) less.prems(2) c(4)] by auto
    have "generateNKeysBetween (Some a) (Some b) n = Inr (ls @ c # us)"
      using False c ls us by (simp add: generateNKeysBetween.simps [of _ _ n] Let_def)
    moreover have "length (ls @ c # us) = n" using ls us False by simp
    moreover have "keys_within (Some a) (Some b) (ls @ c # us)"
      using ls(3) us(3) c by (auto simp: keys_within_def sorted_wrt_append) (meson less_trans)+
    ultimately show ?thesis by blast
  qed
qed

lemma generateNKeysBetween_above:
  assumes "case a of None \<Rightarrow> True | Some a' \<Rightarrow> validKey a'"
  shows "\<exists>ks. generateNKeysBetween a None n = Inr ks \<and> length ks = n \<and> keys_within a None ks"
proof -
  obtain c where c: "generateKeyBetween a None = Inr c" "validKey c"
      "case a of None \<Rightarrow> True | Some a' \<Rightarrow> a' < c"
    using assms generateKeyBetween_after validKey_a0
    by (cases a) (auto simp: generateKeyBetween_def)
  obtain ks where ks: "appendKeys (n - 1) c = Inr ks" "length ks = n - 1" "keys_within (Some c) None ks"
    using appendKeys_ok [OF c(2)] by blast
  have w: "keys_within a None (c # ks)"
    using c ks(3) by (auto simp: keys_within_def split: option.splits)
  consider "n = 0" | "n = 1" | "n > 1" by linarith
  then show ?thesis using c ks w
    by cases (auto simp: keys_within_def generateNKeysBetween.simps [of _ _ n])
qed


section \<open>The interface the layout operations rely on\<close>

text \<open>
  A source of order keys: a set of valid keys and an operation that makes any number of new
  ones strictly between two bounds. The layout operations only use these laws.
\<close>

locale order_key_space =
  fixes valid :: "string \<Rightarrow> bool"
    and nkeys :: "string option \<Rightarrow> string option \<Rightarrow> nat \<Rightarrow> 'e + string list"
  assumes nkeys_above:
      "(\<And>x. a = Some x \<Longrightarrow> valid x) \<Longrightarrow>
         \<exists>ks. nkeys a None n = Inr ks \<and> length ks = n \<and> sorted_wrt (<) ks \<and>
              (\<forall>k \<in> set ks. valid k \<and> (\<forall>x. a = Some x \<longrightarrow> x < k))"
    and nkeys_inside:
      "valid x \<Longrightarrow> valid y \<Longrightarrow> x < y \<Longrightarrow>
         \<exists>ks. nkeys (Some x) (Some y) n = Inr ks \<and> length ks = n \<and> sorted_wrt (<) ks \<and>
              (\<forall>k \<in> set ks. valid k \<and> x < k \<and> k < y)"
begin

text \<open>Appending new keys to an ordered run of keys keeps it ordered.\<close>

lemma append_run:
  assumes "sorted_wrt (<) xs" "\<forall>x \<in> set xs. valid x"
  shows "\<exists>ks. nkeys (if xs = [] then None else Some (last xs)) None n = Inr ks \<and> length ks = n \<and>
    sorted_wrt (<) (xs @ ks) \<and> (\<forall>k \<in> set ks. valid k)"
proof -
  let ?a = "if xs = [] then None else Some (last xs)"
  have v: "valid x" if "?a = Some x" for x using assms(2) that by (auto split: if_splits)
  obtain ks where ks: "nkeys ?a None n = Inr ks" "length ks = n" "sorted_wrt (<) ks"
      "\<forall>k \<in> set ks. valid k \<and> (\<forall>x. ?a = Some x \<longrightarrow> x < k)"
    using nkeys_above [of ?a n] v by blast
  have "x < k" if "x \<in> set xs" "k \<in> set ks" for x k
  proof -
    have "x \<le> last xs"
      using assms(1) that(1) by (cases xs rule: rev_cases) (auto simp: sorted_wrt_append)
    then show ?thesis using ks(4) that by (auto split: if_splits)
  qed
  then show ?thesis using ks assms(1) by (auto simp: sorted_wrt_append)
qed

text \<open>New keys made between two neighbours keep the whole run ordered: no other key changes.\<close>

lemma insert_run:
  assumes "sorted_wrt (<) (xs @ x # y # ys)" "\<forall>k \<in> set (xs @ x # y # ys). valid k"
  shows "\<exists>ks. nkeys (Some x) (Some y) n = Inr ks \<and> length ks = n \<and>
    sorted_wrt (<) (xs @ x # ks @ y # ys) \<and> (\<forall>k \<in> set ks. valid k)"
proof -
  have xy: "valid x" "valid y" "x < y" using assms by (auto simp: sorted_wrt_append)
  obtain ks where ks: "nkeys (Some x) (Some y) n = Inr ks" "length ks = n" "sorted_wrt (<) ks"
      "\<forall>k \<in> set ks. valid k \<and> x < k \<and> k < y"
    using nkeys_inside [OF xy, of n] by blast
  have "sorted_wrt (<) (xs @ x # ks @ y # ys)"
    using assms(1) ks(3,4) by (fastforce simp: sorted_wrt_append)
  then show ?thesis using ks by blast
qed

end

interpretation orderKeys: order_key_space validKey generateNKeysBetween
proof unfold_locales
  fix a n assume "\<And>x. a = Some x \<Longrightarrow> validKey x"
  then have "case a of None \<Rightarrow> True | Some a' \<Rightarrow> validKey a'" by (cases a) auto
  then show "\<exists>ks. generateNKeysBetween a None n = Inr ks \<and> length ks = n \<and> sorted_wrt (<) ks \<and>
      (\<forall>k \<in> set ks. validKey k \<and> (\<forall>x. a = Some x \<longrightarrow> x < k))"
    using generateNKeysBetween_above [of a n] by (auto simp: keys_within_def)
next
  fix x y n assume "validKey x" "validKey y" "x < y"
  then show "\<exists>ks. generateNKeysBetween (Some x) (Some y) n = Inr ks \<and> length ks = n \<and>
      sorted_wrt (<) ks \<and> (\<forall>k \<in> set ks. validKey k \<and> x < k \<and> k < y)"
    using generateNKeysBetween_inside [of x y n] by (auto simp: keys_within_def)
qed

section \<open>Properties\<close>

text \<open>
  C16. Between any two valid keys in order, \<open>generateKeyBetween\<close> returns (it neither throws
  nor runs forever) a valid key strictly between them in the ordinal string order.
\<close>

theorem key_strictly_between:
  assumes "validKey a" "validKey b" "a < b"
  shows "\<exists>k. generateKeyBetween (Some a) (Some b) = Inr k \<and> validKey k \<and> a < k \<and> k < b"
  using assms by (rule generateKeyBetween_inside)

theorem key_strictly_between_witness:
  "\<exists>k. generateKeyBetween (Some ''Zz'') (Some ''a0V'') = Inr k \<and> validKey k \<and> ''Zz'' < k \<and> k < ''a0V''"
proof -
  have "validKey ''Zz''" "validKey ''a0V''" "''Zz'' < ''a0V''" by code_simp+
  then show ?thesis by (rule key_strictly_between)
qed

text \<open>
  With one bound open: a key can always be appended after a valid key; a key can always
  be made before a valid key, and it is valid itself unless it is the reserved smallest
  integer.
\<close>

lemma key_past_either_end:
  assumes "validKey a"
  shows "(\<exists>k. generateKeyBetween (Some a) None = Inr k \<and> validKey k \<and> a < k) \<and>
    (\<exists>k. generateKeyBetween None (Some a) = Inr k \<and> k < a \<and> (validKey k \<or> k = SMALLEST_INTEGER))"
  using assms generateKeyBetween_after generateKeyBetween_before by blast

text \<open>
  \<open>generateNKeysBetween\<close> makes exactly \<open>n\<close> valid keys, strictly increasing and strictly
  inside the bounds, for two valid bounds in order.
\<close>

lemma n_keys_between:
  assumes "validKey a" "validKey b" "a < b"
  shows "\<exists>ks. generateNKeysBetween (Some a) (Some b) n = Inr ks \<and> length ks = n \<and>
    sorted_wrt (<) ks \<and> (\<forall>k \<in> set ks. validKey k \<and> a < k \<and> k < b)"
  using assms by (rule orderKeys.nkeys_inside)

text \<open>
  A run of keys that is in order stays in order when any number of new keys is made
  between two neighbours: an insertion never renumbers the other entries.
\<close>

lemma insertion_never_renumbers:
  assumes "sorted_wrt (<) (xs @ x # y # ys)" "\<forall>k \<in> set (xs @ x # y # ys). validKey k"
  shows "\<exists>ks. generateNKeysBetween (Some x) (Some y) n = Inr ks \<and> length ks = n \<and>
    sorted_wrt (<) (xs @ x # ks @ y # ys) \<and> (\<forall>k \<in> set ks. validKey k)"
  using assms by (rule orderKeys.insert_run)

text \<open>
  A bound that \<open>validateOrderKey\<close> refuses, and bounds that are not in order, are
  reported and never yield a key.
\<close>

lemma bad_bounds_refused:
  "(validateOrderKey a = Inl e \<longrightarrow> generateKeyBetween (Some a) b = Inl e) \<and>
   (validateBound b = Inr () \<and> validateOrderKey a = Inl e \<longrightarrow> generateKeyBetween b (Some a) = Inl e) \<and>
   (validateOrderKey x = Inr () \<and> validateOrderKey y = Inr () \<and> y \<le> x \<longrightarrow>
     generateKeyBetween (Some x) (Some y) = Inl (KeysOutOfOrder x y))"
  by (auto simp: generateKeyBetween_def validateBound_def split: option.splits)

text \<open>
  Prepending is not unlimited: before the key one above the smallest integer the module
  returns the smallest integer itself, which its own validation then refuses as a bound.
\<close>

lemma prepend_reaches_reserved_key:
  "generateKeyBetween None (Some ''A00000000000000000000000001'') = Inr SMALLEST_INTEGER \<and>
   generateKeyBetween None (Some SMALLEST_INTEGER) = Inl (InvalidKey SMALLEST_INTEGER)"
  by code_simp

end
