(* ===== verification/Layer_Mutations.thy ===== *)
theory Layer_Mutations
  imports View_Layout Order_Keys
begin

text \<open>
  \<^verbatim>\<open>frontend/src/components/canvas/context-view/layerMutations.ts\<close>: the transforms of a
  view's layer columns and of the group trees inside them. An operation that refuses returns
  its input. The group edits run over trees with \<open>editTree\<close>, which descends into the node its
  callback returned, so it need not terminate for every callback; \<open>None\<close> is a call that does
  not return.
\<close>

section \<open>Layers\<close>

definition renumber :: "view_layer list \<Rightarrow> view_layer list" where
  "renumber layers =
     map (\<lambda>(l, i). if vl_order l = of_nat i then l else l\<lparr>vl_order := of_nat i\<rparr>)
         (zip layers [0..<length layers])"

definition appendLayer :: "view_layer list \<Rightarrow> view_layer \<Rightarrow> view_layer list" where
  "appendLayer layers newLayer = layers @ [newLayer\<lparr>vl_order := of_nat (length layers)\<rparr>]"

definition mathTrunc :: "rat \<Rightarrow> int" where
  "mathTrunc q = (if q < 0 then \<lceil>q\<rceil> else \<lfloor>q\<rfloor>)"

definition insertLayer :: "view_layer list \<Rightarrow> view_layer \<Rightarrow> rat \<Rightarrow> view_layer list" where
  "insertLayer layers newLayer index =
     (let pos = nat (max 0 (min (mathTrunc index) (int (length layers))))
      in renumber (take pos layers @ [newLayer] @ drop pos layers))"

definition findLayer :: "view_layer list \<Rightarrow> string \<Rightarrow> view_layer option" where
  "findLayer layers i = find (\<lambda>l. vl_id l = i) layers"

definition recolorLayer :: "view_layer list \<Rightarrow> string \<Rightarrow> string \<Rightarrow> view_layer list" where
  "recolorLayer layers i color =
     (case findLayer layers i of
        None \<Rightarrow> layers
      | Some target \<Rightarrow>
          if vl_color target = Some color then layers
          else map (\<lambda>l. if vl_id l = i then l\<lparr>vl_color := Some color\<rparr> else l) layers)"

text \<open>A patch of one layer: the keys it has, in order, each with its new value.\<close>

datatype layer_field =
    PName string
  | PDescription "string option"
  | PColor "string option"
  | PIcon "string option"
  | PProperties "(string \<times> jsval) list option"
  | PShowUnassigned "bool option"

definition bagJson :: "(string \<times> jsval) list option \<Rightarrow> jsval" where
  "bagJson b = (case b of None \<Rightarrow> JUndefined | Some kvs \<Rightarrow> JObj kvs)"

fun fieldChanged :: "view_layer \<Rightarrow> layer_field \<Rightarrow> bool" where
  "fieldChanged l (PName v) = (vl_name l \<noteq> v)"
| "fieldChanged l (PDescription v) = (vl_description l \<noteq> v)"
| "fieldChanged l (PColor v) = (vl_color l \<noteq> v)"
| "fieldChanged l (PIcon v) = (vl_icon l \<noteq> v)"
| "fieldChanged l (PProperties v) = (\<not> sameJson (bagJson (vl_properties l)) (bagJson v))"
| "fieldChanged l (PShowUnassigned v) = (vl_showUnassigned l \<noteq> v)"

fun setField :: "layer_field \<Rightarrow> view_layer \<Rightarrow> view_layer" where
  "setField (PName v) l = l\<lparr>vl_name := v\<rparr>"
| "setField (PDescription v) l = l\<lparr>vl_description := v\<rparr>"
| "setField (PColor v) l = l\<lparr>vl_color := v\<rparr>"
| "setField (PIcon v) l = l\<lparr>vl_icon := v\<rparr>"
| "setField (PProperties v) l = l\<lparr>vl_properties := v\<rparr>"
| "setField (PShowUnassigned v) l = l\<lparr>vl_showUnassigned := v\<rparr>"

definition updateLayer :: "view_layer list \<Rightarrow> string \<Rightarrow> layer_field list \<Rightarrow> view_layer list" where
  "updateLayer layers i patch =
     (case findLayer layers i of
        None \<Rightarrow> layers
      | Some target \<Rightarrow>
          if list_ex (fieldChanged target) patch
          then map (\<lambda>l. if vl_id l = i then fold setField patch l else l) layers
          else layers)"

definition renameLayer :: "view_layer list \<Rightarrow> string \<Rightarrow> string \<Rightarrow> view_layer list" where
  "renameLayer layers i name = map (\<lambda>l. if vl_id l = i then l\<lparr>vl_name := name\<rparr> else l) layers"

definition setLayerWidth :: "view_layer list \<Rightarrow> string \<Rightarrow> rat option \<Rightarrow> view_layer list" where
  "setLayerWidth layers i width = map (\<lambda>l. if vl_id l = i then l\<lparr>vl_width := width\<rparr> else l) layers"

definition removeLayer :: "view_layer list \<Rightarrow> string \<Rightarrow> view_layer list" where
  "removeLayer layers i =
     (if \<not> list_ex (\<lambda>l. vl_id l = i) layers then layers
      else renumber (filter (\<lambda>l. vl_id l \<noteq> i) layers))"

definition reorderLayer :: "view_layer list \<Rightarrow> string \<Rightarrow> string \<Rightarrow> view_layer list" where
  "reorderLayer layers draggedId targetId =
     (if draggedId = targetId then layers
      else
        let fromIdx = indexOf (map vl_id layers) draggedId;
            toIdx = indexOf (map vl_id layers) targetId
        in if fromIdx < 0 \<or> toIdx < 0 then layers
           else
             let dragged = layers ! nat fromIdx;
                 without = filter (\<lambda>l. vl_id l \<noteq> draggedId) layers;
                 targetPos = indexOf (map vl_id without) targetId;
                 insertAt = nat (if fromIdx < toIdx then targetPos + 1 else targetPos)
             in renumber (take insertAt without @ [dragged] @ drop insertAt without))"

section \<open>Node order inside a layer\<close>

text \<open>Writing order keys on entries, one after the other. The entries exist: the caller has
  just read them.\<close>

definition stampOrderKeys :: "(string \<times> string) list \<Rightarrow> assignments \<Rightarrow> assignments" where
  "stampOrderKeys pairs m =
     fold (\<lambda>(urn, k) a. case map_of a urn of
             None \<Rightarrow> a
           | Some e \<Rightarrow> AList.update urn (e\<lparr>e_orderKey := Some k\<rparr>) a) pairs m"

definition layerKeys :: "layout \<Rightarrow> string \<Rightarrow> string list" where
  "layerKeys layout layerId =
     sort (map (\<lambda>e. the (e_orderKey e))
       (filter (\<lambda>e. e_layerId e = layerId \<and> truthyStr (e_orderKey e))
         (map snd (lay_assignments layout))))"

definition unkeyedIn :: "layout \<Rightarrow> string \<Rightarrow> string \<Rightarrow> bool" where
  "unkeyedIn layout layerId urn =
     (case map_of (lay_assignments layout) urn of
        None \<Rightarrow> False
      | Some e \<Rightarrow> e_layerId e = layerId \<and> \<not> truthyStr (e_orderKey e))"

definition setLayerNodeSortMode ::
    "layout \<Rightarrow> string \<Rightarrow> node_sort option \<Rightarrow> string list option \<Rightarrow> layout key_result" where
  "setLayerNodeSortMode layout layerId mode seedOrder =
     (case findLayer (lay_layers layout) layerId of
        None \<Rightarrow> Inr layout
      | Some target \<Rightarrow>
          if vl_nodeSortMode target = mode \<and> mode \<noteq> Some CustomSort then Inr layout
          else
            let layers = map (\<lambda>l. if vl_id l \<noteq> layerId then l else l\<lparr>vl_nodeSortMode := mode\<rparr>)
                             (lay_layers layout);
                keyed = layerKeys layout layerId;
                lastKey = (if keyed = [] then None else Some (last keyed));
                toSeed = filter (unkeyedIn layout layerId)
                           (case seedOrder of None \<Rightarrow> [] | Some s \<Rightarrow> s)
            in if mode = Some CustomSort \<and> toSeed \<noteq> []
               then (case generateNKeysBetween lastKey None (length toSeed) of
                       Inl e \<Rightarrow> Inl e
                     | Inr keys \<Rightarrow>
                         Inr (layout\<lparr>lay_layers := layers,
                           lay_assignments := stampOrderKeys (zip toSeed keys) (lay_assignments layout)\<rparr>))
               else Inr (layout\<lparr>lay_layers := layers\<rparr>))"

definition setViewDefaultSortMode :: "layout \<Rightarrow> node_sort \<Rightarrow> layout" where
  "setViewDefaultSortMode layout mode =
     layout\<lparr>lay_layers :=
         map (\<lambda>l. if vl_nodeSortMode l = None \<or> vl_nodeSortMode l = Some CustomSort then l
                   else l\<lparr>vl_nodeSortMode := None\<rparr>) (lay_layers layout),
       lay_defaultNodeSortMode := Some mode\<rparr>"

definition clearLayerOrderKeys :: "layout \<Rightarrow> string \<Rightarrow> layout" where
  "clearLayerOrderKeys layout layerId =
     (let target = findLayer (lay_layers layout) layerId;
          keyed = (\<lambda>e. e_layerId e = layerId \<and> truthyStr (e_orderKey e));
          hasKeys = list_ex (\<lambda>(u, e). keyed e) (lay_assignments layout)
      in if \<not> hasKeys \<and> (case target of None \<Rightarrow> True | Some t \<Rightarrow> vl_nodeSortMode t = None) then layout
         else layout\<lparr>lay_layers :=
                  map (\<lambda>l. if vl_id l \<noteq> layerId then l else l\<lparr>vl_nodeSortMode := None\<rparr>) (lay_layers layout),
                lay_assignments :=
                  (if hasKeys
                   then map (\<lambda>(u, e). (u, if keyed e then e\<lparr>e_orderKey := None\<rparr> else e)) (lay_assignments layout)
                   else lay_assignments layout)\<rparr>)"

section \<open>Groups\<close>

definition layerGroups :: "view_layer list \<Rightarrow> string \<Rightarrow> group list" where
  "layerGroups layers layerId =
     (case findLayer layers layerId of
        None \<Rightarrow> []
      | Some l \<Rightarrow> (case vl_logicalNodes l of None \<Rightarrow> [] | Some gs \<Rightarrow> gs))"

text \<open>\<open>mapGroups\<close> with a callback that may not return.\<close>

fun mapGroups ::
    "view_layer list \<Rightarrow> string \<Rightarrow> (group list \<Rightarrow> group list option) \<Rightarrow> view_layer list option" where
  "mapGroups [] layerId fn = Some []"
| "mapGroups (l # ls) layerId fn =
     (if vl_id l = layerId
      then Option.bind (fn (case vl_logicalNodes l of None \<Rightarrow> [] | Some gs \<Rightarrow> gs)) (\<lambda>gs.
             map_option (\<lambda>ls'. l\<lparr>vl_logicalNodes := Some gs\<rparr> # ls') (mapGroups ls layerId fn))
      else map_option (\<lambda>ls'. l # ls') (mapGroups ls layerId fn))"

partial_function (option) editTree ::
    "(group \<Rightarrow> group option) \<Rightarrow> group list \<Rightarrow> group list option" where
  "editTree fn gs =
     (case gs of
        [] \<Rightarrow> Some []
      | g # rest \<Rightarrow>
          (case fn g of
             None \<Rightarrow> editTree fn rest
           | Some nxt \<Rightarrow>
               (case g_children nxt of
                  None \<Rightarrow> Option.bind (editTree fn rest) (\<lambda>rest'. Some (nxt # rest'))
                | Some cs \<Rightarrow>
                    Option.bind (editTree fn cs) (\<lambda>cs'.
                      Option.bind (editTree fn rest) (\<lambda>rest'.
                        Some (setChildren (Some cs') nxt # rest'))))))"

definition sameName :: "string \<Rightarrow> string \<Rightarrow> bool" where
  "sameName a b = (jsLower (jsTrim a) = jsLower (jsTrim b))"

fun findGroup :: "group list \<Rightarrow> string \<Rightarrow> group option" where
  "findGroup [] i = None"
| "findGroup (g # gs) i =
     (if g_id g = i then Some g
      else case findGroup (kids g) i of
             Some inner \<Rightarrow> Some inner
           | None \<Rightarrow> findGroup gs i)"

definition groupNameClash ::
    "view_layer list \<Rightarrow> string \<Rightarrow> string option \<Rightarrow> string list \<Rightarrow> string list \<Rightarrow> string option" where
  "groupNameClash layers layerId parentId names ignoreIds =
     (let roots = layerGroups layers layerId;
          siblings = (if truthyStr parentId
                      then (case findGroup roots (the parentId) of None \<Rightarrow> [] | Some p \<Rightarrow> kids p)
                      else roots);
          taken = filter (\<lambda>g. g_id g \<notin> set ignoreIds) siblings
      in find (\<lambda>n. list_ex (\<lambda>g. sameName (g_name g) n) taken) names)"

definition addGroup ::
    "view_layer list \<Rightarrow> string \<Rightarrow> group \<Rightarrow> string option \<Rightarrow> view_layer list option" where
  "addGroup layers layerId grp parentGroupId =
     (if truthyStr (groupNameClash layers layerId parentGroupId [g_name grp] []) then Some layers
      else if \<not> truthyStr parentGroupId
      then mapGroups layers layerId (\<lambda>gs. Some (gs @ [grp]))
      else mapGroups layers layerId
             (editTree (\<lambda>g. if g_id g = the parentGroupId
                             then Some (setChildren (Some (kids g @ [grp])) g) else Some g)))"

fun parentWalk :: "string \<Rightarrow> string option \<Rightarrow> group list \<Rightarrow> string option option \<Rightarrow> string option option" where
  "parentWalk i parent [] found = found"
| "parentWalk i parent (g # gs) found =
     parentWalk i parent gs
       (parentWalk i (Some (g_id g)) (kids g) (if g_id g = i then Some parent else found))"

text \<open>\<open>None\<close> is \<open>undefined\<close> (not found), \<open>Some None\<close> is \<open>null\<close> (top level).\<close>

definition parentGroupOf :: "view_layer list \<Rightarrow> string \<Rightarrow> string \<Rightarrow> string option option" where
  "parentGroupOf layers layerId groupId = parentWalk groupId None (layerGroups layers layerId) None"

definition orNull :: "string option option \<Rightarrow> string option" where
  "orNull x = (case x of None \<Rightarrow> None | Some p \<Rightarrow> p)"

definition renameGroup ::
    "view_layer list \<Rightarrow> string \<Rightarrow> string \<Rightarrow> string \<Rightarrow> view_layer list option" where
  "renameGroup layers layerId groupId name =
     (if truthyStr (groupNameClash layers layerId (orNull (parentGroupOf layers layerId groupId)) [name] [groupId])
      then Some layers
      else mapGroups layers layerId
             (editTree (\<lambda>g. Some (if g_id g = groupId then setGroupName name g else g))))"

fun subtreeWalk :: "string \<Rightarrow> group list \<Rightarrow> bool \<Rightarrow> string list" where
  "subtreeWalk i [] inside = []"
| "subtreeWalk i (g # gs) inside =
     (let here = inside \<or> g_id g = i
      in (if here then [g_id g] else []) @ subtreeWalk i (kids g) here @ subtreeWalk i gs inside)"

definition groupSubtreeIds :: "view_layer list \<Rightarrow> string \<Rightarrow> string \<Rightarrow> string list" where
  "groupSubtreeIds layers layerId groupId = subtreeWalk groupId (layerGroups layers layerId) False"

definition removeGroup :: "view_layer list \<Rightarrow> string \<Rightarrow> string \<Rightarrow> view_layer list option" where
  "removeGroup layers layerId groupId =
     mapGroups layers layerId (editTree (\<lambda>g. if g_id g = groupId then None else Some g))"

text \<open>The path of names is kept as a list; the code joins it with a separator for display.\<close>

fun listWalk :: "group list \<Rightarrow> string list \<Rightarrow> (string \<times> string \<times> string list) list" where
  "listWalk [] trail = []"
| "listWalk (g # gs) trail =
     (let path = trail @ [g_name g]
      in (g_id g, g_name g, path) # listWalk (kids g) path @ listWalk gs trail)"

definition listGroups :: "view_layer list \<Rightarrow> string \<Rightarrow> (string \<times> string \<times> string list) list" where
  "listGroups layers layerId = listWalk (layerGroups layers layerId) []"

definition moveGroup ::
    "view_layer list \<Rightarrow> string \<Rightarrow> string \<Rightarrow> string option \<Rightarrow> view_layer list option" where
  "moveGroup layers layerId groupId newParentId =
     (if truthyStr newParentId \<and> the newParentId \<in> set (groupSubtreeIds layers layerId groupId)
      then Some layers
      else case findGroup (layerGroups layers layerId) groupId of
        None \<Rightarrow> Some layers
      | Some moving \<Rightarrow>
          if truthyStr (groupNameClash layers layerId newParentId [g_name moving] [groupId]) then Some layers
          else Option.bind (removeGroup layers layerId groupId)
                 (\<lambda>ls. addGroup ls layerId moving newParentId))"

fun lift :: "string \<Rightarrow> group list \<Rightarrow> group list" where
  "lift i [] = []"
| "lift i (g # gs) =
     (if g_id g = i then kids g
      else [case g_children g of None \<Rightarrow> g | Some cs \<Rightarrow> setChildren (Some (lift i (kids g))) g])
     @ lift i gs"

definition childGroupNames :: "view_layer list \<Rightarrow> string \<Rightarrow> string \<Rightarrow> string list" where
  "childGroupNames layers layerId groupId =
     (case findGroup (layerGroups layers layerId) groupId of
        None \<Rightarrow> []
      | Some g \<Rightarrow> map g_name (kids g))"

definition ungroup :: "view_layer list \<Rightarrow> string \<Rightarrow> string \<Rightarrow> view_layer list option" where
  "ungroup layers layerId groupId =
     (let lifted = childGroupNames layers layerId groupId
      in if truthyStr (groupNameClash layers layerId (orNull (parentGroupOf layers layerId groupId)) lifted [groupId])
         then Some layers
         else mapGroups layers layerId (\<lambda>gs. Some (lift groupId gs)))"

definition moveGroupContents ::
    "view_layer list \<Rightarrow> string \<Rightarrow> string \<Rightarrow> string \<Rightarrow> view_layer list option" where
  "moveGroupContents layers layerId fromId toId =
     (if fromId = toId \<or> toId \<in> set (groupSubtreeIds layers layerId fromId) then Some layers
      else
        let subs = (case findGroup (layerGroups layers layerId) fromId of None \<Rightarrow> [] | Some g \<Rightarrow> kids g)
        in if subs = [] \<or> truthyStr (groupNameClash layers layerId (Some toId) (map g_name subs) [])
           then Some layers
           else Option.bind
                  (mapGroups layers layerId
                     (editTree (\<lambda>g. Some (if g_id g = fromId then setChildren (Some []) g else g))))
                  (\<lambda>emptied. mapGroups emptied layerId
                     (editTree (\<lambda>g. Some (if g_id g = toId
                        then setChildren (Some (kids g @ subs)) g else g)))))"

definition moveGroupToLayer ::
    "layout \<Rightarrow> string \<Rightarrow> string \<Rightarrow> string \<Rightarrow> string option \<Rightarrow> layout option" where
  "moveGroupToLayer layout fromLayerId groupId toLayerId newParentId =
     (if fromLayerId = toLayerId
      then map_option (\<lambda>ls. layout\<lparr>lay_layers := ls\<rparr>)
             (moveGroup (lay_layers layout) fromLayerId groupId newParentId)
      else case findGroup (layerGroups (lay_layers layout) fromLayerId) groupId of
        None \<Rightarrow> Some layout
      | Some moving \<Rightarrow>
          if \<not> list_ex (\<lambda>l. vl_id l = toLayerId) (lay_layers layout) then Some layout
          else if truthyStr newParentId \<and>
              findGroup (layerGroups (lay_layers layout) toLayerId) (the newParentId) = None
          then Some layout
          else if truthyStr (groupNameClash (lay_layers layout) toLayerId newParentId [g_name moving] [])
          then Some layout
          else
            let carried = groupSubtreeIds (lay_layers layout) fromLayerId groupId;
                follow = (\<lambda>(u, e).
                  (u, if truthyStr (e_logicalNodeId e) \<and> the (e_logicalNodeId e) \<in> set carried \<and>
                         e_layerId e = fromLayerId
                      then e\<lparr>e_orderKey := None, e_layerId := toLayerId\<rparr> else e))
            in Option.bind (removeGroup (lay_layers layout) fromLayerId groupId) (\<lambda>ls.
                 map_option (\<lambda>ls'. layout\<lparr>lay_layers := ls',
                     lay_assignments := map follow (lay_assignments layout)\<rparr>)
                   (addGroup ls toLayerId moving newParentId)))"

end
