(* ===== verification/Layer_Order.thy ===== *)
theory Layer_Order
  imports Layer_Mutations
begin

text \<open>
  Layer columns: every operation leaves the columns numbered 0..n-1 with distinct ids, and a
  drag lands the column exactly beside its target. The operations on whole layers form a step
  relation; its invariant is proved by rule induction.
\<close>

section \<open>Renumbering\<close>

lemma length_renumber [simp]: "length (renumber ls) = length ls"
  by (simp add: renumber_def)

lemma renumber_nth:
  "i < length ls \<Longrightarrow> renumber ls ! i = (ls ! i)\<lparr>vl_order := of_nat i\<rparr>"
  by (simp add: renumber_def)

lemma map_renumber [simp]: "map vl_id (renumber ls) = map vl_id ls"
  by (rule nth_equalityI) (simp_all add: renumber_nth)

definition numbered :: "view_layer list \<Rightarrow> bool" where
  "numbered ls = (map vl_order ls = map of_nat [0..<length ls])"

lemma numbered_nth: "numbered ls \<longleftrightarrow> (\<forall>i < length ls. vl_order (ls ! i) = of_nat i)"
  unfolding numbered_def by (subst list_eq_iff_nth_eq) simp

lemma numbered_renumber [simp]: "numbered (renumber ls)"
  by (simp add: numbered_nth renumber_nth)

lemma renumber_numbered [simp]: "numbered ls \<Longrightarrow> renumber ls = ls"
  by (rule nth_equalityI) (auto simp: numbered_nth renumber_nth)

lemma numbered_map:
  "(\<And>l. vl_order (f l) = vl_order l) \<Longrightarrow> numbered (map f ls) = numbered ls"
  by (simp add: numbered_nth)

lemma setFields_keep [simp]:
  "vl_id (fold setField patch l) = vl_id l" "vl_order (fold setField patch l) = vl_order l"
proof (induction patch arbitrary: l)
  case (Cons f patch)
  have k: "vl_id (setField f l) = vl_id l" "vl_order (setField f l) = vl_order l" for l
    by (cases f; simp)+
  case 1 show ?case using Cons k by simp
  case 2 show ?case using Cons k by simp
qed simp_all

section \<open>Well-formed columns\<close>

definition wfColumns :: "view_layer list \<Rightarrow> bool" where
  "wfColumns ls = (numbered ls \<and> distinct (map vl_id ls))"

lemma wfColumns_map:
  assumes "\<And>l. vl_order (f l) = vl_order l" "\<And>l. vl_id (f l) = vl_id l"
  shows "wfColumns (map f ls) = wfColumns ls"
proof -
  have "vl_id \<circ> f = vl_id" using assms(2) by auto
  then show ?thesis using assms(1) by (simp add: wfColumns_def numbered_map)
qed

lemma numbered_appendLayer: "numbered ls \<Longrightarrow> numbered (appendLayer ls l)"
  by (auto simp: appendLayer_def numbered_def)

inductive layer_step :: "view_layer list \<Rightarrow> view_layer list \<Rightarrow> bool" where
  append: "vl_id l \<notin> vl_id ` set ls \<Longrightarrow> layer_step ls (appendLayer ls l)"
| insert: "vl_id l \<notin> vl_id ` set ls \<Longrightarrow> layer_step ls (insertLayer ls l index)"
| recolor: "layer_step ls (recolorLayer ls i color)"
| update: "layer_step ls (updateLayer ls i patch)"
| rename: "layer_step ls (renameLayer ls i name)"
| width: "layer_step ls (setLayerWidth ls i w)"
| remove: "layer_step ls (removeLayer ls i)"
| reorder: "layer_step ls (reorderLayer ls d t)"

section \<open>Reordering\<close>

lemma indexOf_append_Cons: "x \<notin> set xs \<Longrightarrow> indexOf (xs @ x # ys) x = int (length xs)"
  by (induction xs) (auto simp: Let_def)

lemma reorderLayer_right:
  assumes "distinct (map vl_id (as @ d # bs @ t # cs))"
  shows "reorderLayer (as @ d # bs @ t # cs) (vl_id d) (vl_id t) = renumber (as @ bs @ t # d # cs)"
proof -
  let ?ls = "as @ d # bs @ t # cs"
  have 1: "indexOf (map vl_id ?ls) (vl_id d) = int (length as)"
    using assms indexOf_append_Cons [of "vl_id d" "map vl_id as"] by auto
  have 2: "indexOf (map vl_id ?ls) (vl_id t) = int (length as + 1 + length bs)"
    using assms indexOf_append_Cons [of "vl_id t" "map vl_id (as @ d # bs)"] by auto
  have w: "filter (\<lambda>l. vl_id l \<noteq> vl_id d) ?ls = as @ bs @ t # cs"
    using assms by (auto simp: filter_other_key)
  have 3: "indexOf (map vl_id (as @ bs @ t # cs)) (vl_id t) = int (length as + length bs)"
    using assms indexOf_append_Cons [of "vl_id t" "map vl_id (as @ bs)"] by auto
  have n: "nat (int (length as + length bs) + 1) = Suc (length as + length bs)" by simp
  have ne: "vl_id d \<noteq> vl_id t" using assms by auto
  show ?thesis
    unfolding reorderLayer_def Let_def 1 2 w 3 using ne by (simp add: n nat_add_distrib)
qed

lemma reorderLayer_left:
  assumes "distinct (map vl_id (as @ t # bs @ d # cs))"
  shows "reorderLayer (as @ t # bs @ d # cs) (vl_id d) (vl_id t) = renumber (as @ d # t # bs @ cs)"
proof -
  let ?ls = "as @ t # bs @ d # cs"
  have 1: "indexOf (map vl_id ?ls) (vl_id t) = int (length as)"
    using assms indexOf_append_Cons [of "vl_id t" "map vl_id as"] by auto
  have 2: "indexOf (map vl_id ?ls) (vl_id d) = int (length as + 1 + length bs)"
    using assms indexOf_append_Cons [of "vl_id d" "map vl_id (as @ t # bs)"] by auto
  have w: "filter (\<lambda>l. vl_id l \<noteq> vl_id d) ?ls = as @ t # bs @ cs"
    using assms by (auto simp: filter_other_key)
  have 3: "indexOf (map vl_id (as @ t # bs @ cs)) (vl_id t) = int (length as)"
    using assms indexOf_append_Cons [of "vl_id t" "map vl_id as"] by auto
  have n: "nat (int (length as) + 1 + int (length bs)) = Suc (length as + length bs)" by simp
  have ne: "vl_id d \<noteq> vl_id t" using assms by auto
  show ?thesis
    unfolding reorderLayer_def Let_def 1 2 w 3 using ne by (simp add: nth_append n)
qed

text \<open>Any two distinct columns stand in one of these two ways.\<close>

lemma two_columns:
  assumes "a \<in> set ls" "b \<in> set ls" "a \<noteq> b"
  obtains as bs cs where "ls = as @ a # bs @ b # cs" | as bs cs where "ls = as @ b # bs @ a # cs"
proof -
  obtain xs ys where l: "ls = xs @ a # ys" using assms(1) by (auto dest: split_list)
  then have "b \<in> set xs \<or> b \<in> set ys" using assms(2,3) by auto
  then show thesis
  proof
    assume "b \<in> set xs"
    then obtain us vs where "xs = us @ b # vs" by (auto dest: split_list)
    then show thesis using that(2) l by auto
  next
    assume "b \<in> set ys"
    then obtain us vs where "ys = us @ b # vs" by (auto dest: split_list)
    then show thesis using that(1) l by auto
  qed
qed

lemma indexOf_nonneg: "0 \<le> indexOf xs x \<longleftrightarrow> x \<in> set xs"
  using indexOf_present [of x xs] by (cases "x \<in> set xs") auto

lemma reorderLayer_cases:
  assumes "distinct (map vl_id ls)"
  obtains "reorderLayer ls i j = ls"
    | d xs ys where "mset (xs @ d # ys) = mset ls" "reorderLayer ls i j = renumber (xs @ d # ys)"
proof (cases "i \<noteq> j \<and> i \<in> vl_id ` set ls \<and> j \<in> vl_id ` set ls")
  case True
  then obtain d t where dt: "d \<in> set ls" "t \<in> set ls" "i = vl_id d" "j = vl_id t" "d \<noteq> t" by auto
  show thesis using dt(1,2,5)
  proof (cases rule: two_columns)
    case (1 as bs cs)
    then show thesis
      using that(2) [of "as @ bs @ [t]" d cs] reorderLayer_right [of as d bs t cs] assms dt by simp
  next
    case (2 as bs cs)
    then show thesis
      using that(2) [of as d "t # bs @ cs"] reorderLayer_left [of as t bs d cs] assms dt by simp
  qed
next
  case False
  then have "reorderLayer ls i j = ls"
    using indexOf_nonneg [of "map vl_id ls" i] indexOf_nonneg [of "map vl_id ls" j]
    by (auto simp: reorderLayer_def Let_def)
  then show thesis by (rule that(1))
qed

lemma wfColumns_reorder: "wfColumns ls \<Longrightarrow> wfColumns (reorderLayer ls i j)"
proof -
  assume w: "wfColumns ls"
  then have "distinct (map vl_id ls)" by (simp add: wfColumns_def)
  then show ?thesis
  proof (cases rule: reorderLayer_cases [of ls i j])
    case 1 then show ?thesis using w by simp
  next
    case (2 d xs ys)
    have "mset (map vl_id (xs @ d # ys)) = mset (map vl_id ls)"
      using 2(1) by (metis mset_map)
    then have "distinct (map vl_id (xs @ d # ys))"
      using w mset_eq_imp_distinct_iff wfColumns_def by blast
    then show ?thesis using 2(2) by (simp add: wfColumns_def)
  qed
qed

section \<open>The invariant\<close>

lemma wfColumns_step: "layer_step ls ls' \<Longrightarrow> wfColumns ls \<Longrightarrow> wfColumns ls'"
proof (induction rule: layer_step.induct)
  case (append l ls)
  then show ?case by (simp add: wfColumns_def numbered_appendLayer) (simp add: appendLayer_def)
next
  case (insert l ls index)
  let ?n = "nat (max 0 (min (mathTrunc index) (int (length ls))))"
  have "mset (take ?n ls @ [l] @ drop ?n ls) = add_mset l (mset ls)"
    using arg_cong [OF append_take_drop_id [of ?n ls], of mset] by (simp add: ac_simps del: append_take_drop_id)
  then have "mset (map vl_id (take ?n ls @ [l] @ drop ?n ls)) = mset (vl_id l # map vl_id ls)"
    by (metis image_mset_add_mset mset.simps(2) mset_map)
  then have "distinct (map vl_id (take ?n ls @ [l] @ drop ?n ls)) = distinct (vl_id l # map vl_id ls)"
    by (rule mset_eq_imp_distinct_iff)
  then show ?case using insert by (simp add: insertLayer_def wfColumns_def Let_def del: map_append)
next
  case (recolor ls i color)
  then show ?case by (auto simp: recolorLayer_def wfColumns_map split: option.splits)
next
  case (update ls i patch)
  then show ?case by (auto simp: updateLayer_def wfColumns_map split: option.splits)
next
  case (rename ls i name)
  then show ?case by (simp add: renameLayer_def wfColumns_map)
next
  case (width ls i w)
  then show ?case by (simp add: setLayerWidth_def wfColumns_map)
next
  case (remove ls i)
  then show ?case by (auto simp: removeLayer_def wfColumns_def distinct_map_filter)
next
  case (reorder ls d t)
  then show ?case by (simp add: wfColumns_reorder)
qed

section \<open>Properties\<close>

text \<open>
  C35. Whatever sequence of add, insert, recolour, edit, rename, resize, remove and reorder is
  applied to a view's columns, they stay numbered 0..n-1 in array order with distinct ids.
\<close>

theorem columns_stay_numbered:
  assumes "layer_step\<^sup>*\<^sup>* ls ls'" "wfColumns ls"
  shows "wfColumns ls'"
  using assms by (induction rule: rtranclp_induct) (auto intro: wfColumns_step)

theorem columns_stay_numbered_witness:
  "wfColumns (reorderLayer (insertLayer [sampleLayer ''a'' 0, sampleLayer ''b'' 1] (sampleLayer ''c'' 7) 1) ''c'' ''b'')"
proof -
  let ?l0 = "[sampleLayer ''a'' 0, sampleLayer ''b'' 1]"
  have "layer_step ?l0 (insertLayer ?l0 (sampleLayer ''c'' 7) 1)"
    by (rule layer_step.insert) (simp add: sampleLayer_def)
  then have "layer_step\<^sup>*\<^sup>* ?l0 (reorderLayer (insertLayer ?l0 (sampleLayer ''c'' 7) 1) ''c'' ''b'')"
    using layer_step.reorder by (meson converse_rtranclp_into_rtranclp rtranclp.rtrancl_refl)
  moreover have "wfColumns ?l0" by (simp add: wfColumns_def numbered_def sampleLayer_def)
  ultimately show ?thesis by (rule columns_stay_numbered)
qed

text \<open>
  A drag lands the column beside its target: after it when dragged rightward, before it
  when dragged leftward; the other columns keep their order, and all are renumbered.
\<close>

lemma reorder_lands_beside_target:
  "(distinct (map vl_id (as @ d # bs @ t # cs)) \<longrightarrow>
      reorderLayer (as @ d # bs @ t # cs) (vl_id d) (vl_id t) = renumber (as @ bs @ t # d # cs)) \<and>
   (distinct (map vl_id (as @ t # bs @ d # cs)) \<longrightarrow>
      reorderLayer (as @ t # bs @ d # cs) (vl_id d) (vl_id t) = renumber (as @ d # t # bs @ cs))"
  using reorderLayer_left reorderLayer_right by blast

end
