(* ===== verification/Layer_Groups.thy ===== *)
theory Layer_Groups
  imports Layer_Mutations
begin

text \<open>
  The groups inside a layer: the tree editor returns on every callback the module gives it,
  every operation keeps the names of the groups that stand side by side distinct, and moving a
  group keeps every group of the layer.
\<close>

section \<open>The tree editor returns\<close>

lemma editTree_Nil [simp]: "editTree fn [] = Some []"
  by (subst editTree.simps) simp

lemma editTree_Cons:
  "editTree fn (g # gs) =
     (case fn g of
        None \<Rightarrow> editTree fn gs
      | Some nxt \<Rightarrow>
          (case g_children nxt of
             None \<Rightarrow> map_option (\<lambda>gs'. nxt # gs') (editTree fn gs)
           | Some cs \<Rightarrow> Option.bind (editTree fn cs) (\<lambda>cs'.
               map_option (\<lambda>gs'. setChildren (Some cs') nxt # gs') (editTree fn gs))))"
  by (subst editTree.simps) (auto split: option.splits simp: map_option_case Option.bind_def)

lemma editTree_append:
  "editTree fn xs = Some xs' \<Longrightarrow> editTree fn ys = Some ys' \<Longrightarrow> editTree fn (xs @ ys) = Some (xs' @ ys')"
proof (induction xs arbitrary: xs')
  case (Cons x xs)
  then show ?case
    by (fastforce simp: editTree_Cons Option.bind_eq_Some_conv split: option.splits)
qed simp

text \<open>The result for a callback that drops nodes or edits them without touching their children.\<close>

fun mapForest :: "(group \<Rightarrow> group option) \<Rightarrow> group list \<Rightarrow> group list" where
  "mapForest fn [] = []"
| "mapForest fn (g # gs) =
     (case fn g of
        None \<Rightarrow> []
      | Some n \<Rightarrow> [case g_children g of None \<Rightarrow> n | Some _ \<Rightarrow> setChildren (Some (mapForest fn (kids g))) n])
     @ mapForest fn gs"

lemma editTree_mapForest:
  assumes keep: "\<And>g n. fn g = Some n \<Longrightarrow> g_children n = g_children g"
  shows "editTree fn gs = Some (mapForest fn gs)"
proof (induction gs rule: forestIds.induct)
  case (2 g gs)
  show ?case
  proof (cases "fn g")
    case None
    then show ?thesis using 2 by (simp add: editTree_Cons)
  next
    case (Some n)
    then show ?thesis
      using 2 keep [OF Some] by (cases "g_children g") (auto simp: editTree_Cons dest: kids_Some)
  qed
qed simp

text \<open>The result for the callback that adds groups under one node.\<close>

fun addUnder :: "string \<Rightarrow> group list \<Rightarrow> group list \<Rightarrow> group list" where
  "addUnder p new [] = []"
| "addUnder p new (g # gs) =
     (if g_id g = p then setChildren (Some (addUnder p new (kids g) @ new)) g
      else case g_children g of None \<Rightarrow> g | Some _ \<Rightarrow> setChildren (Some (addUnder p new (kids g))) g)
     # addUnder p new gs"

lemma addUnder_absent: "p \<notin> set (forestIds gs) \<Longrightarrow> addUnder p new gs = gs"
proof (induction gs rule: forestIds.induct)
  case (2 g gs)
  then show ?case by (cases "g_children g") (auto dest: kids_Some)
qed simp

definition addFn :: "string \<Rightarrow> group list \<Rightarrow> group \<Rightarrow> group option" where
  "addFn p new g = (if g_id g = p then Some (setChildren (Some (kids g @ new)) g) else Some g)"

lemma editTree_addFn_absent:
  "p \<notin> set (forestIds gs) \<Longrightarrow> editTree (addFn p new) gs = Some gs"
proof (induction gs rule: forestIds.induct)
  case (2 g gs)
  then show ?case
    by (cases "g_children g") (auto simp: editTree_Cons addFn_def [of p new g] dest: kids_Some)
qed simp

lemma editTree_addUnder:
  assumes "p \<notin> set (forestIds new)"
  shows "editTree (addFn p new) gs = Some (addUnder p new gs)"
proof (induction gs rule: forestIds.induct)
  case (2 g gs)
  show ?case
  proof (cases "g_id g = p")
    case True
    have "editTree (addFn p new) (kids g @ new) = Some (addUnder p new (kids g) @ new)"
      using editTree_append editTree_addFn_absent [OF assms] 2 by blast
    then show ?thesis using 2 True by (simp add: editTree_Cons addFn_def [of p new g] setChildren_def)
  next
    case False
    then show ?thesis using 2
      by (cases "g_children g") (auto simp: editTree_Cons addFn_def [of p new g] dest: kids_Some)
  qed
qed simp

section \<open>Layers around a forest\<close>

definition groupsOf :: "view_layer \<Rightarrow> group list" where
  "groupsOf l = (case vl_logicalNodes l of None \<Rightarrow> [] | Some gs \<Rightarrow> gs)"

definition onGroups :: "string \<Rightarrow> (group list \<Rightarrow> group list) \<Rightarrow> view_layer list \<Rightarrow> view_layer list" where
  "onGroups i h ls =
     map (\<lambda>l. if vl_id l = i then l\<lparr>vl_logicalNodes := Some (h (groupsOf l))\<rparr> else l) ls"

lemma mapGroups_total: "(\<And>gs. fn gs = Some (h gs)) \<Longrightarrow> mapGroups ls i fn = Some (onGroups i h ls)"
  by (induction ls) (auto simp: onGroups_def groupsOf_def)

lemma layerGroups_groupsOf:
  "layerGroups ls i = (case findLayer ls i of None \<Rightarrow> [] | Some l \<Rightarrow> groupsOf l)"
  by (auto simp: layerGroups_def groupsOf_def split: option.splits)

lemma findLayer_onGroups:
  "findLayer (onGroups i h ls) j =
     map_option (\<lambda>l. if vl_id l = i then l\<lparr>vl_logicalNodes := Some (h (groupsOf l))\<rparr> else l) (findLayer ls j)"
  by (induction ls) (auto simp: onGroups_def findLayer_def)

lemma findLayer_id: "findLayer ls i = Some l \<Longrightarrow> vl_id l = i \<and> l \<in> set ls"
  by (auto simp: findLayer_def find_Some_iff)

lemma layerGroups_onGroups:
  "layerGroups (onGroups i h ls) j =
     (if i = j \<and> i \<in> vl_id ` set ls then h (layerGroups ls i) else layerGroups ls j)"
proof (cases "findLayer ls j")
  case None
  then have "j \<notin> vl_id ` set ls" by (auto simp: findLayer_def find_None_iff)
  then show ?thesis using None by (auto simp: layerGroups_groupsOf findLayer_onGroups)
next
  case (Some l)
  then show ?thesis using findLayer_id [OF Some]
    by (auto simp: layerGroups_groupsOf findLayer_onGroups groupsOf_def)
qed

lemma onGroups_onGroups: "onGroups i h (onGroups i k ls) = onGroups i (\<lambda>gs. h (k gs)) ls"
  by (simp add: onGroups_def groupsOf_def)

lemma ids_onGroups [simp]: "map vl_id (onGroups i h ls) = map vl_id ls"
  by (auto simp: onGroups_def)

text \<open>Every group operation is a total edit of one layer's forest.\<close>

lemma removeGroup_total:
  "removeGroup ls i g = Some (onGroups i (mapForest (\<lambda>x. if g_id x = g then None else Some x)) ls)"
  unfolding removeGroup_def by (rule mapGroups_total, rule editTree_mapForest) (auto split: if_splits)

lemma renameEdit_total:
  "mapGroups ls i (editTree (\<lambda>g. Some (if g_id g = gid then setGroupName name g else g))) =
     Some (onGroups i (mapForest (\<lambda>g. Some (if g_id g = gid then setGroupName name g else g))) ls)"
  by (rule mapGroups_total, rule editTree_mapForest) (auto split: if_splits)

lemma addEdit_total:
  "p \<notin> set (forestIds new) \<Longrightarrow>
     mapGroups ls i (editTree (\<lambda>g. if g_id g = p then Some (setChildren (Some (kids g @ new)) g) else Some g)) =
       Some (onGroups i (addUnder p new) ls)"
  by (rule mapGroups_total) (simp add: editTree_addUnder [unfolded addFn_def [abs_def]])


section \<open>Nodes and sibling names\<close>

fun forestNodes :: "group list \<Rightarrow> group list" where
  "forestNodes [] = []"
| "forestNodes (g # gs) = g # forestNodes (kids g) @ forestNodes gs"

lemma forestIds_nodes: "forestIds gs = map g_id (forestNodes gs)"
  by (induction gs rule: forestIds.induct) auto

lemma forestNodes_append [simp]: "forestNodes (xs @ ys) = forestNodes xs @ forestNodes ys"
  by (induction xs) auto

lemma forestNodes_roots: "g \<in> set gs \<Longrightarrow> g \<in> set (forestNodes gs)"
  by (induction gs) auto

lemma forestNodes_kids: "g \<in> set (forestNodes gs) \<Longrightarrow> set (forestNodes (kids g)) \<subseteq> set (forestNodes gs)"
  by (induction gs rule: forestIds.induct) auto

lemma findGroup_Some: "findGroup gs i = Some g \<Longrightarrow> g \<in> set (forestNodes gs) \<and> g_id g = i"
  by (induction gs i rule: findGroup.induct) (auto split: if_splits option.splits)

lemma findGroup_None: "findGroup gs i = None \<longleftrightarrow> i \<notin> set (forestIds gs)"
  by (induction gs i rule: findGroup.induct) (auto split: if_splits option.splits)

lemma forest_node_unique:
  "distinct (forestIds gs) \<Longrightarrow> g \<in> set (forestNodes gs) \<Longrightarrow> h \<in> set (forestNodes gs) \<Longrightarrow>
     g_id g = g_id h \<Longrightarrow> g = h"
  by (metis (mono_tags) distinct_map forestIds_nodes inj_onD)

definition nameKey :: "group \<Rightarrow> string" where
  "nameKey g = jsLower (jsTrim (g_name g))"

lemma sameName_nameKey: "sameName (g_name g) (g_name h) \<longleftrightarrow> nameKey g = nameKey h"
  by (simp add: sameName_def nameKey_def)

text \<open>The names of the groups side by side under each node of a forest.\<close>

fun nameRows :: "group list \<Rightarrow> string list list" where
  "nameRows [] = []"
| "nameRows (g # gs) = map nameKey (kids g) # nameRows (kids g) @ nameRows gs"

lemma nameRows_append [simp]: "nameRows (xs @ ys) = nameRows xs @ nameRows ys"
  by (induction xs) auto

lemma nameRows_nodes: "nameRows gs = map (\<lambda>g. map nameKey (kids g)) (forestNodes gs)"
  by (induction gs rule: forestIds.induct) auto

definition uniqueNames :: "group list \<Rightarrow> bool" where
  "uniqueNames gs = (distinct (map nameKey gs) \<and> list_all distinct (nameRows gs))"

text \<open>A well-formed forest: distinct, non-empty ids, no blank name, and no two groups side by
  side with the same name.\<close>

definition wfForest :: "group list \<Rightarrow> bool" where
  "wfForest gs =
     (distinct (forestIds gs) \<and> [] \<notin> set (forestIds gs) \<and>
      list_all (\<lambda>g. g_name g \<noteq> []) (forestNodes gs) \<and> uniqueNames gs)"

lemma wfForest_node:
  assumes "wfForest gs" "g \<in> set (forestNodes gs)"
  shows "g_name g \<noteq> []" "distinct (map nameKey (kids g))" "g_id g \<noteq> []"
  using assms
  by (auto simp: wfForest_def uniqueNames_def list_all_iff nameRows_nodes forestIds_nodes) (metis image_eqI)

lemma subset_nodes_wf:
  assumes "wfForest gs" "set (forestNodes hs) \<subseteq> set (forestNodes gs)"
    "distinct (forestIds hs)" "distinct (map nameKey hs)"
  shows "wfForest hs"
  using assms by (auto simp: wfForest_def uniqueNames_def list_all_iff nameRows_nodes forestIds_nodes)

lemma forestIds_subforest:
  "distinct (forestIds gs) \<Longrightarrow> g \<in> set (forestNodes gs) \<Longrightarrow> distinct (g_id g # forestIds (kids g))"
  by (induction gs rule: forestIds.induct) auto

lemma wfForest_single:
  assumes "wfForest gs" "g \<in> set (forestNodes gs)"
  shows "wfForest [g]"
proof (rule subset_nodes_wf [OF assms(1)])
  show "set (forestNodes [g]) \<subseteq> set (forestNodes gs)"
    using assms(2) forestNodes_kids [OF assms(2)] by auto
  show "distinct (forestIds [g])"
    using forestIds_subforest assms by (auto simp: wfForest_def)
qed simp

section \<open>The clash check\<close>

definition siblingsAt :: "group list \<Rightarrow> string option \<Rightarrow> group list" where
  "siblingsAt roots parentId =
     (if truthyStr parentId
      then (case findGroup roots (the parentId) of None \<Rightarrow> [] | Some p \<Rightarrow> kids p) else roots)"

lemma groupNameClash_find:
  "groupNameClash ls i p names ign =
     find (\<lambda>n. \<exists>g \<in> set (siblingsAt (layerGroups ls i) p). g_id g \<notin> set ign \<and> sameName (g_name g) n) names"
  by (simp add: groupNameClash_def siblingsAt_def Let_def list_ex_iff Bex_def conj_ac)

lemma no_clash:
  assumes "\<not> truthyStr (groupNameClash ls i p names ign)" "[] \<notin> set names"
    "n \<in> set names" "g \<in> set (siblingsAt (layerGroups ls i) p)" "g_id g \<notin> set ign"
  shows "\<not> sameName (g_name g) n"
proof -
  have "groupNameClash ls i p names ign = None"
  proof (cases "groupNameClash ls i p names ign")
    case (Some n)
    then have "n \<in> set names" by (auto simp: groupNameClash_find find_Some_iff)
    then show ?thesis using Some assms(1,2) by auto
  qed simp
  then show ?thesis using assms(3-5) unfolding groupNameClash_find find_None_iff by blast
qed

lemma clash_free:
  assumes "\<And>n g. n \<in> set names \<Longrightarrow> g \<in> set (siblingsAt (layerGroups ls i) p) \<Longrightarrow> g_id g \<notin> set ign \<Longrightarrow>
    \<not> sameName (g_name g) n"
  shows "groupNameClash ls i p names ign = None"
  unfolding groupNameClash_find find_None_iff using assms by blast

section \<open>Adding under a node\<close>

lemma nameKey_addUnder [simp]: "map nameKey (addUnder p new gs) = map nameKey gs"
  by (induction p new gs rule: addUnder.induct) (auto simp: nameKey_def split: option.splits)

lemma names_addUnder:
  "list_all (\<lambda>g. g_name g \<noteq> []) (forestNodes gs) \<Longrightarrow> list_all (\<lambda>g. g_name g \<noteq> []) (forestNodes new) \<Longrightarrow>
     list_all (\<lambda>g. g_name g \<noteq> []) (forestNodes (addUnder p new gs))"
proof (induction gs rule: forestIds.induct)
  case (2 g gs)
  then show ?case by (cases "g_children g") (auto simp: kids_None)
qed simp

lemma ids_addUnder:
  "mset (forestIds (addUnder p new gs)) =
     mset (forestIds gs) + repeat_mset (count_list (forestIds gs) p) (mset (forestIds new))"
proof (induction gs rule: forestIds.induct)
  case (2 g gs)
  then show ?case
    by (cases "g_children g") (auto simp: kids_None algebra_simps)
qed simp

lemma rows_addUnder:
  assumes "list_all distinct (nameRows gs)" "list_all distinct (nameRows new)"
    "\<forall>g \<in> set (forestNodes gs). g_id g = p \<longrightarrow> distinct (map nameKey (kids g @ new))"
  shows "list_all distinct (nameRows (addUnder p new gs))"
  using assms
proof (induction gs rule: forestIds.induct)
  case (2 g gs)
  then show ?case by (cases "g_children g") (auto simp: kids_None)
qed simp

lemma wfForest_addUnder:
  assumes gs: "wfForest gs" and new: "wfForest new"
    and disj: "set (forestIds gs) \<inter> set (forestIds new) = {}"
    and names: "\<And>g. findGroup gs p = Some g \<Longrightarrow> nameKey ` set (kids g) \<inter> nameKey ` set new = {}"
  shows "wfForest (addUnder p new gs)"
proof -
  have "distinct (map nameKey (kids g @ new))" if g: "g \<in> set (forestNodes gs)" "g_id g = p" for g
  proof -
    obtain h where h: "findGroup gs p = Some h"
      using g findGroup_None [of gs p] by (auto simp: forestIds_nodes)
    then have "g = h"
      using forest_node_unique [of gs g h] findGroup_Some [OF h] g gs by (auto simp: wfForest_def)
    then show ?thesis
      using names [OF h] wfForest_node [OF gs g(1)] new by (auto simp: wfForest_def uniqueNames_def)
  qed
  then have "list_all distinct (nameRows (addUnder p new gs))"
    using rows_addUnder [of gs new p] gs new by (auto simp: wfForest_def uniqueNames_def)
  moreover have "count_list (forestIds gs) p = 0 \<or> count_list (forestIds gs) p = 1"
    using gs by (auto simp: wfForest_def count_list_distinct)
  then have "distinct (forestIds (addUnder p new gs)) \<and> [] \<notin> set (forestIds (addUnder p new gs))"
  proof
    assume "count_list (forestIds gs) p = 0"
    then show ?thesis using gs by (simp add: count_list_0_iff addUnder_absent wfForest_def)
  next
    assume "count_list (forestIds gs) p = 1"
    then have m: "mset (forestIds (addUnder p new gs)) = mset (forestIds gs @ forestIds new)"
      using ids_addUnder [of p new gs] by simp
    then have "set (forestIds (addUnder p new gs)) = set (forestIds gs @ forestIds new)"
      by (rule mset_eq_setD)
    then show ?thesis
      using mset_eq_imp_distinct_iff [OF m] gs new disj by (auto simp: wfForest_def)
  qed
  ultimately show ?thesis
    using gs new names_addUnder [of gs new p] by (auto simp: wfForest_def uniqueNames_def)
qed


section \<open>Removing a group\<close>

definition dropGroup :: "string \<Rightarrow> group \<Rightarrow> group option" where
  "dropGroup i g = (if g_id g = i then None else Some g)"

lemma roots_drop: "map nameKey (mapForest (dropGroup i) gs) = map nameKey (filter (\<lambda>g. g_id g \<noteq> i) gs)"
  by (induction gs) (auto simp: dropGroup_def nameKey_def split: option.splits)

lemma rows_drop: "list_all distinct (nameRows gs) \<Longrightarrow> list_all distinct (nameRows (mapForest (dropGroup i) gs))"
proof (induction gs rule: forestIds.induct)
  case (2 g gs)
  then show ?case
    by (cases "g_children g") (auto simp: dropGroup_def [of i g] kids_None roots_drop distinct_map_filter)
qed simp

lemma names_drop:
  "list_all (\<lambda>g. g_name g \<noteq> []) (forestNodes gs) \<Longrightarrow>
     list_all (\<lambda>g. g_name g \<noteq> []) (forestNodes (mapForest (dropGroup i) gs))"
proof (induction gs rule: forestIds.induct)
  case (2 g gs)
  then show ?case by (cases "g_children g") (auto simp: dropGroup_def [of i g] kids_None)
qed simp

text \<open>What is left and what was taken make up the forest.\<close>

lemma ids_drop_absent: "i \<notin> set (forestIds gs) \<Longrightarrow> forestIds (mapForest (dropGroup i) gs) = forestIds gs"
proof (induction gs rule: forestIds.induct)
  case (2 g gs)
  then show ?case by (cases "g_children g") (auto simp: dropGroup_def [of i g] kids_None)
qed simp

lemma ids_drop:
  "distinct (forestIds gs) \<Longrightarrow> findGroup gs i = Some m \<Longrightarrow>
     mset (forestIds gs) = mset (forestIds (mapForest (dropGroup i) gs)) + mset (forestIds [m])"
proof (induction gs rule: forestIds.induct)
  case (2 g gs)
  consider (here) "g_id g = i" | (inside) "g_id g \<noteq> i" "findGroup (kids g) i = Some m"
    | (rest) "g_id g \<noteq> i" "findGroup (kids g) i = None" "findGroup gs i = Some m"
    using "2.prems"(2) by (auto split: if_splits option.splits)
  then show ?case
  proof cases
    case here
    then have "i \<notin> set (forestIds gs)" using "2.prems"(1) by auto
    then have "forestIds (mapForest (dropGroup i) gs) = forestIds gs" by (rule ids_drop_absent)
    moreover have "dropGroup i g = None" using here by (simp add: dropGroup_def)
    ultimately show ?thesis using here "2.prems"(2) by simp
  next
    case inside
    then have "i \<notin> set (forestIds gs)"
      using "2.prems"(1) findGroup_None [of "kids g" i] by auto
    moreover obtain cs where "g_children g = Some cs" using inside by (cases "g_children g") (auto simp: kids_None)
    ultimately show ?thesis
      using inside "2.IH"(1) "2.prems"(1) ids_drop_absent by (simp add: dropGroup_def [of i g])
  next
    case rest
    then show ?thesis
      using "2.IH"(2) "2.prems"(1) ids_drop_absent [of i "kids g"] findGroup_None [of "kids g" i]
      by (cases "g_children g") (auto simp: dropGroup_def [of i g] kids_None)
  qed
qed simp

lemma ids_drop_subset: "set (forestIds (mapForest (dropGroup i) gs)) \<subseteq> set (forestIds gs)"
proof (induction gs rule: forestIds.induct)
  case (2 g gs)
  then show ?case by (cases "g_children g") (auto simp: dropGroup_def [of i g] kids_None)
qed simp

lemma ids_drop_distinct:
  "distinct (forestIds gs) \<Longrightarrow> distinct (forestIds (mapForest (dropGroup i) gs))"
proof (cases "findGroup gs i")
  case None
  then show "distinct (forestIds gs) \<Longrightarrow> ?thesis" by (simp add: findGroup_None ids_drop_absent)
next
  case (Some m)
  assume d: "distinct (forestIds gs)"
  then have "distinct (forestIds (mapForest (dropGroup i) gs) @ forestIds [m])"
    using ids_drop [OF d Some] mset_eq_imp_distinct_iff [of "forestIds gs"] by (metis mset_append)
  then show ?thesis by simp
qed

lemma wfForest_drop: "wfForest gs \<Longrightarrow> wfForest (mapForest (dropGroup i) gs)"
  using ids_drop_subset [of i gs]
  by (auto simp: wfForest_def uniqueNames_def roots_drop rows_drop names_drop ids_drop_distinct distinct_map_filter)

section \<open>Renaming a group\<close>

definition renamed :: "string \<Rightarrow> string \<Rightarrow> group \<Rightarrow> group" where
  "renamed i name g = (if g_id g = i then setGroupName name g else g)"

lemma renamed_sel [simp]: "g_id (renamed i name g) = g_id g" "g_children (renamed i name g) = g_children g"
    "kids (renamed i name g) = kids g"
  by (simp_all add: renamed_def)

abbreviation renameForest :: "string \<Rightarrow> string \<Rightarrow> group list \<Rightarrow> group list" where
  "renameForest i name \<equiv> mapForest (\<lambda>g. Some (renamed i name g))"

lemma ids_rename [simp]: "forestIds (renameForest i name gs) = forestIds gs"
proof (induction gs rule: forestIds.induct)
  case (2 g gs)
  then show ?case by (cases "g_children g") (auto simp: kids_None)
qed simp

lemma roots_rename: "map nameKey (renameForest i name gs) = map (\<lambda>g. nameKey (renamed i name g)) gs"
  by (induction gs) (auto simp: nameKey_def split: option.splits)

lemma rows_rename:
  "\<forall>g \<in> set (forestNodes gs). distinct (map (\<lambda>h. nameKey (renamed i name h)) (kids g)) \<Longrightarrow>
     list_all distinct (nameRows (renameForest i name gs))"
proof (induction gs rule: forestIds.induct)
  case (2 g gs)
  then show ?case by (cases "g_children g") (auto simp: kids_None roots_rename)
qed simp

lemma names_rename:
  "list_all (\<lambda>g. g_name g \<noteq> []) (forestNodes gs) \<Longrightarrow> name \<noteq> [] \<Longrightarrow>
     list_all (\<lambda>g. g_name g \<noteq> []) (forestNodes (renameForest i name gs))"
proof (induction gs rule: forestIds.induct)
  case (2 g gs)
  then show ?case by (cases "g_children g") (auto simp: kids_None renamed_def)
qed simp

lemma distinct_renamed_row:
  assumes "distinct (map nameKey S)" "distinct (map g_id S)"
    "\<And>g h. g \<in> set S \<Longrightarrow> g_id g = i \<Longrightarrow> h \<in> set S \<Longrightarrow> g_id h \<noteq> i \<Longrightarrow> \<not> sameName (g_name h) name"
  shows "distinct (map (\<lambda>g. nameKey (renamed i name g)) S)"
  unfolding distinct_map
proof
  show "distinct S" using assms(1) by (simp add: distinct_map)
  have k: "nameKey (setGroupName name g) = jsLower (jsTrim name)" for g by (simp add: nameKey_def)
  show "inj_on (\<lambda>g. nameKey (renamed i name g)) (set S)"
  proof (rule inj_onI)
    fix g h assume gh: "g \<in> set S" "h \<in> set S" "nameKey (renamed i name g) = nameKey (renamed i name h)"
    show "g = h"
    proof (cases "g_id g = i"; cases "g_id h = i")
      assume "g_id g = i" "g_id h = i"
      then show ?thesis using assms(2) gh(1,2) by (auto simp: distinct_map dest: inj_onD)
    next
      assume "g_id g \<noteq> i" "g_id h \<noteq> i"
      then show ?thesis using assms(1) gh by (auto simp: renamed_def distinct_map dest: inj_onD)
    next
      assume a: "g_id g = i" "g_id h \<noteq> i"
      show ?thesis using assms(3) [OF gh(1) a(1) gh(2) a(2)] gh(3) a
        by (simp add: renamed_def k sameName_def nameKey_def)
    next
      assume a: "g_id g \<noteq> i" "g_id h = i"
      show ?thesis using assms(3) [OF gh(2) a(2) gh(1) a(1)] gh(3) a
        by (simp add: renamed_def k sameName_def nameKey_def)
    qed
  qed
qed


section \<open>The row a group stands in\<close>

lemma parentWalk_absent: "i \<notin> set (forestIds gs) \<Longrightarrow> parentWalk i q gs found = found"
  by (induction i q gs found rule: parentWalk.induct) auto

lemma parentWalk_root:
  "distinct (forestIds gs) \<Longrightarrow> i \<in> g_id ` set gs \<Longrightarrow> parentWalk i q gs found = Some q"
proof (induction i q gs found rule: parentWalk.induct)
  case (2 i q g gs found)
  show ?case
  proof (cases "g_id g = i")
    case True
    then show ?thesis using 2 by (auto simp: parentWalk_absent)
  next
    case False
    then have "i \<in> g_id ` set gs" using 2 by auto
    then show ?thesis using 2 False by auto
  qed
qed simp

lemma parentWalk_inner:
  "distinct (forestIds gs) \<Longrightarrow> h \<in> set (forestNodes gs) \<Longrightarrow> i \<in> g_id ` set (kids h) \<Longrightarrow>
     parentWalk i q gs found = Some (Some (g_id h))"
proof (induction i q gs found rule: parentWalk.induct)
  case (2 i q g gs found)
  have kid: "i \<in> set (forestIds (kids h))" using "2.prems"(3) forestIds_roots by auto
  have up: "i \<in> set (forestIds xs)" if "h \<in> set (forestNodes xs)" for xs
    using kid forestNodes_kids [OF that] by (auto simp: forestIds_nodes)
  consider "h = g" | "h \<in> set (forestNodes (kids g))" | "h \<in> set (forestNodes gs)"
    using "2.prems"(2) by auto
  then show ?case
  proof cases
    case 1
    then have "i \<notin> set (forestIds gs)" "g_id g \<noteq> i" using "2.prems"(1) kid by auto
    then show ?thesis using 1 "2.prems" parentWalk_root [of "kids g" i] by (simp add: parentWalk_absent)
  next
    case 2
    then have "i \<notin> set (forestIds gs)" "g_id g \<noteq> i" using "2.prems"(1) up by auto
    then show ?thesis using 2 "2.prems" "2.IH"(1) by (simp add: parentWalk_absent)
  next
    case 3
    then show ?thesis using "2.prems" "2.IH"(2) by simp
  qed
qed simp

lemma siblingsAt_root:
  assumes "wfForest gs" "i \<in> g_id ` set gs"
  shows "siblingsAt gs (orNull (parentWalk i None gs None)) = gs"
  using assms parentWalk_root [of gs i None None] by (simp add: siblingsAt_def orNull_def wfForest_def)

lemma siblingsAt_inner:
  assumes "wfForest gs" "h \<in> set (forestNodes gs)" "i \<in> g_id ` set (kids h)"
  shows "siblingsAt gs (orNull (parentWalk i None gs None)) = kids h"
proof -
  have d: "distinct (forestIds gs)" using assms(1) by (simp add: wfForest_def)
  have "findGroup gs (g_id h) \<noteq> None" using assms(2) by (auto simp: findGroup_None forestIds_nodes)
  then obtain x where x: "findGroup gs (g_id h) = Some x" by auto
  then have "x = h" using forest_node_unique [OF d _ assms(2)] findGroup_Some [OF x] by auto
  then show ?thesis
    using parentWalk_inner [OF d assms(2,3), of None None] wfForest_node [OF assms(1,2)] x
    by (simp add: siblingsAt_def orNull_def)
qed

text \<open>A row is the roots, or the groups inside one node; its ids are distinct.\<close>

lemma row_ids_distinct: "distinct (forestIds gs) \<Longrightarrow> distinct (map g_id gs)"
  by (induction gs) (auto dest: forestIds_roots)

lemma kids_ids_distinct:
  "distinct (forestIds gs) \<Longrightarrow> h \<in> set (forestNodes gs) \<Longrightarrow> distinct (map g_id (kids h))"
  using forestIds_subforest [of gs h] row_ids_distinct [of "kids h"] by simp

lemma wfForest_rename:
  assumes wf: "wfForest gs" and name: "name \<noteq> []"
    and clash: "\<And>h. h \<in> set (siblingsAt gs (orNull (parentWalk i None gs None))) \<Longrightarrow> g_id h \<noteq> i \<Longrightarrow>
                  \<not> sameName (g_name h) name"
  shows "wfForest (renameForest i name gs)"
proof -
  have d: "distinct (forestIds gs)" using wf by (simp add: wfForest_def)
  have roots: "distinct (map (\<lambda>g. nameKey (renamed i name g)) gs)"
  proof (rule distinct_renamed_row)
    show "distinct (map nameKey gs)" using wf by (simp add: wfForest_def uniqueNames_def)
    show "distinct (map g_id gs)" using row_ids_distinct [OF d] .
    show "\<not> sameName (g_name h) name"
      if "g \<in> set gs" "g_id g = i" "h \<in> set gs" "g_id h \<noteq> i" for g h
      using clash [of h] siblingsAt_root [OF wf, of i] that by force
  qed
  have inner: "distinct (map (\<lambda>g. nameKey (renamed i name g)) (kids p))" if p: "p \<in> set (forestNodes gs)" for p
  proof (rule distinct_renamed_row)
    show "distinct (map nameKey (kids p))" using wfForest_node [OF wf p] by simp
    show "distinct (map g_id (kids p))" using kids_ids_distinct [OF d p] .
    show "\<not> sameName (g_name h) name"
      if "g \<in> set (kids p)" "g_id g = i" "h \<in> set (kids p)" "g_id h \<noteq> i" for g h
      using clash [of h] siblingsAt_inner [OF wf p, of i] that by force
  qed
  show ?thesis
    using wf name roots inner rows_rename names_rename
    by (simp add: wfForest_def uniqueNames_def roots_rename)
qed

section \<open>Dismantling a group\<close>

definition liftedRow :: "string \<Rightarrow> group list \<Rightarrow> string list" where
  "liftedRow i S = concat (map (\<lambda>g. if g_id g = i then map nameKey (kids g) else [nameKey g]) S)"

lemma roots_lift: "map nameKey (lift i gs) = liftedRow i gs"
  by (induction gs) (auto simp: liftedRow_def nameKey_def split: option.splits)

lemma liftedRow_absent: "i \<notin> g_id ` set S \<Longrightarrow> liftedRow i S = map nameKey S"
  by (induction S) (auto simp: liftedRow_def)

lemma set_liftedRow:
  "set (liftedRow i S) =
     nameKey ` {g \<in> set S. g_id g \<noteq> i} \<union> (\<Union>g \<in> {g \<in> set S. g_id g = i}. nameKey ` set (kids g))"
  by (auto simp: liftedRow_def split: if_splits)

lemma distinct_liftedRow:
  assumes "distinct (map nameKey S)" "distinct (map g_id S)"
    "\<And>g. g \<in> set S \<Longrightarrow> g_id g = i \<Longrightarrow> distinct (map nameKey (kids g))"
    "\<And>g k h. g \<in> set S \<Longrightarrow> g_id g = i \<Longrightarrow> k \<in> set (kids g) \<Longrightarrow> h \<in> set S \<Longrightarrow> g_id h \<noteq> i \<Longrightarrow>
       nameKey h \<noteq> nameKey k"
  shows "distinct (liftedRow i S)"
  using assms
proof (induction S)
  case (Cons g S)
  show ?case
  proof (cases "g_id g = i")
    case True
    then have "i \<notin> g_id ` set S" using Cons.prems(2) by auto
    moreover have "nameKey k \<noteq> nameKey h" if "k \<in> set (kids g)" "h \<in> set S" for k h
      using Cons.prems(4) [of g k h] True that calculation by (auto simp: image_iff)
    then have "nameKey ` set (kids g) \<inter> nameKey ` set S = {}" by blast
    ultimately show ?thesis
      using True Cons.prems(1,3) liftedRow_absent [of i S] by (simp add: liftedRow_def [of i "g # S"] flip: liftedRow_def)
  next
    case False
    have "distinct (liftedRow i S)" using Cons.prems by (intro Cons.IH) auto
    moreover have "nameKey g \<notin> set (liftedRow i S)"
      using Cons.prems(1,4) False by (fastforce simp: set_liftedRow)
    ultimately show ?thesis using False by (simp add: liftedRow_def)
  qed
qed (simp add: liftedRow_def)

lemma rows_lift:
  "list_all distinct (nameRows gs) \<Longrightarrow> \<forall>g \<in> set (forestNodes gs). distinct (liftedRow i (kids g)) \<Longrightarrow>
     list_all distinct (nameRows (lift i gs))"
proof (induction gs rule: forestIds.induct)
  case (2 g gs)
  then show ?case by (cases "g_children g") (auto simp: kids_None roots_lift)
qed simp

lemma names_lift:
  "list_all (\<lambda>g. g_name g \<noteq> []) (forestNodes gs) \<Longrightarrow> list_all (\<lambda>g. g_name g \<noteq> []) (forestNodes (lift i gs))"
proof (induction gs rule: forestIds.induct)
  case (2 g gs)
  then show ?case by (cases "g_children g") (auto simp: kids_None)
qed simp

lemma ids_lift: "distinct (forestIds gs) \<Longrightarrow> mset (forestIds (lift i gs)) = mset (removeAll i (forestIds gs))"
proof (induction gs rule: forestIds.induct)
  case (2 g gs)
  then show ?case by (cases "g_children g") (auto simp: kids_None)
qed simp

lemma wfForest_lift:
  assumes wf: "wfForest gs"
    and clash: "\<And>m k h. findGroup gs i = Some m \<Longrightarrow> k \<in> set (kids m) \<Longrightarrow>
        h \<in> set (siblingsAt gs (orNull (parentWalk i None gs None))) \<Longrightarrow> g_id h \<noteq> i \<Longrightarrow> \<not> sameName (g_name h) (g_name k)"
  shows "wfForest (lift i gs)"
proof -
  have d: "distinct (forestIds gs)" using wf by (simp add: wfForest_def)
  have found: "findGroup gs i = Some g" if "g \<in> set (forestNodes gs)" "g_id g = i" for g
  proof -
    have "findGroup gs i \<noteq> None" using that by (auto simp: findGroup_None forestIds_nodes)
    then obtain m where m: "findGroup gs i = Some m" by blast
    then have "g = m" using forest_node_unique [OF d that(1)] findGroup_Some [OF m] that(2) by simp
    then show ?thesis using m by simp
  qed
  have roots: "distinct (liftedRow i gs)"
  proof (rule distinct_liftedRow)
    show "distinct (map nameKey gs)" using wf by (simp add: wfForest_def uniqueNames_def)
    show "distinct (map g_id gs)" using row_ids_distinct [OF d] .
    show "distinct (map nameKey (kids g))" if "g \<in> set gs" for g
      using wfForest_node [OF wf forestNodes_roots [OF that]] by simp
    show "nameKey h \<noteq> nameKey k"
      if g: "g \<in> set gs" "g_id g = i" "k \<in> set (kids g)" "h \<in> set gs" "g_id h \<noteq> i" for g k h
      using clash [OF found [OF forestNodes_roots [OF g(1)] g(2)] g(3), of h] siblingsAt_root [OF wf, of i] g
      by (force simp: sameName_nameKey)
  qed
  have inner: "distinct (liftedRow i (kids p))" if p: "p \<in> set (forestNodes gs)" for p
  proof (rule distinct_liftedRow)
    have sub: "g \<in> set (forestNodes gs)" if "g \<in> set (kids p)" for g
      using forestNodes_kids [OF p] forestNodes_roots [OF that] by auto
    show "distinct (map nameKey (kids p))" using wfForest_node [OF wf p] by simp
    show "distinct (map g_id (kids p))" using kids_ids_distinct [OF d p] .
    show "distinct (map nameKey (kids g))" if "g \<in> set (kids p)" for g
      using wfForest_node [OF wf sub [OF that]] by simp
    show "nameKey h \<noteq> nameKey k"
      if g: "g \<in> set (kids p)" "g_id g = i" "k \<in> set (kids g)" "h \<in> set (kids p)" "g_id h \<noteq> i" for g k h
      using clash [OF found [OF sub [OF g(1)] g(2)] g(3), of h] siblingsAt_inner [OF wf p, of i] g
      by (force simp: sameName_nameKey)
  qed
  have "set (forestIds (lift i gs)) \<subseteq> set (forestIds gs)"
    using mset_eq_setD [OF ids_lift [OF d, of i]] by auto
  moreover have "distinct (forestIds (lift i gs))"
    using mset_eq_imp_distinct_iff [OF ids_lift [OF d, of i]] d by (simp add: distinct_removeAll)
  ultimately show ?thesis
    using wf roots inner rows_lift names_lift by (auto simp: wfForest_def uniqueNames_def roots_lift)
qed


section \<open>The operations keep layers well-formed\<close>

definition wfLayers :: "view_layer list \<Rightarrow> bool" where
  "wfLayers ls = (distinct (map vl_id ls) \<and> list_all (\<lambda>l. wfForest (groupsOf l)) ls)"

lemma wfForest_Nil [simp]: "wfForest []"
  by (simp add: wfForest_def uniqueNames_def)

lemma wfForest_layerGroups: "wfLayers ls \<Longrightarrow> wfForest (layerGroups ls i)"
  by (auto simp: wfLayers_def layerGroups_groupsOf list_all_iff split: option.splits dest: findLayer_id)

lemma layerGroups_of_member:
  "wfLayers ls \<Longrightarrow> l \<in> set ls \<Longrightarrow> layerGroups ls (vl_id l) = groupsOf l"
proof -
  assume w: "wfLayers ls" "l \<in> set ls"
  then obtain m where m: "findLayer ls (vl_id l) = Some m"
    by (cases "findLayer ls (vl_id l)") (auto simp: findLayer_def find_None_iff)
  then have "m = l"
    using findLayer_id [OF m] w by (auto simp: wfLayers_def distinct_map dest: inj_onD)
  then show ?thesis using m by (simp add: layerGroups_groupsOf)
qed

lemma wfLayers_onGroups:
  assumes "wfLayers ls" "wfForest (h (layerGroups ls i))"
  shows "wfLayers (onGroups i h ls)"
proof -
  have "wfForest (groupsOf l')" if l': "l' \<in> set (onGroups i h ls)" for l'
  proof -
    obtain l where l: "l \<in> set ls"
        "l' = (if vl_id l = i then l\<lparr>vl_logicalNodes := Some (h (groupsOf l))\<rparr> else l)"
      using l' by (auto simp: onGroups_def)
    show ?thesis
    proof (cases "vl_id l = i")
      case True
      then have "groupsOf l' = h (groupsOf l)" using l(2) by (simp add: groupsOf_def)
      then show ?thesis using assms layerGroups_of_member [OF assms(1) l(1)] True by simp
    next
      case False
      then show ?thesis using assms(1) l by (simp add: wfLayers_def list_all_iff)
    qed
  qed
  then show ?thesis using assms(1) by (simp add: wfLayers_def list_all_iff)
qed

lemma wfLayers_remove:
  "wfLayers ls \<Longrightarrow> removeGroup ls i g = Some ls' \<Longrightarrow> wfLayers ls'"
  using removeGroup_total [of ls i g] wfForest_drop [of "layerGroups ls i" g] wfForest_layerGroups [of ls i]
  by (auto simp: dropGroup_def [abs_def] intro: wfLayers_onGroups)

text \<open>Adding several groups at once at the top or under a node, as the callers do after their
  clash check.\<close>

lemma wfForest_append:
  assumes "wfForest gs" "wfForest new" "set (forestIds gs) \<inter> set (forestIds new) = {}"
    "nameKey ` set gs \<inter> nameKey ` set new = {}"
  shows "wfForest (gs @ new)"
  using assms by (auto simp: wfForest_def uniqueNames_def)

lemma addGroup_result:
  assumes "wfLayers ls" "wfForest [grp]" "set (forestIds (layerGroups ls i)) \<inter> set (forestIds [grp]) = {}"
    and p: "\<not> truthyStr p \<or> the p \<notin> set (forestIds [grp])"
  shows "\<exists>ls'. addGroup ls i grp p = Some ls' \<and> wfLayers ls'"
proof (cases "truthyStr (groupNameClash ls i p [g_name grp] [])")
  case True
  then show ?thesis using assms(1) by (simp add: addGroup_def)
next
  case False
  let ?gs = "layerGroups ls i"
  have nm: "g_name grp \<noteq> []" using assms(2) by (simp add: wfForest_def)
  have free: "nameKey g \<noteq> nameKey grp" if "g \<in> set (siblingsAt ?gs p)" for g
    using no_clash [OF False _ _ that, of "g_name grp"] nm by (simp add: sameName_nameKey)
  show ?thesis
  proof (cases "truthyStr p")
    case F: False
    then have "nameKey ` set ?gs \<inter> nameKey ` set [grp] = {}"
      using free by (force simp: siblingsAt_def)
    then have "wfForest (?gs @ [grp])"
      by (rule wfForest_append [OF wfForest_layerGroups [OF assms(1)] assms(2,3)])
    then show ?thesis
      using False F wfLayers_onGroups [OF assms(1), of "\<lambda>gs. gs @ [grp]" i]
        mapGroups_total [of "\<lambda>gs. Some (gs @ [grp])" "\<lambda>gs. gs @ [grp]" ls i]
      by (simp add: addGroup_def)
  next
    case T: True
    then obtain q where q: "p = Some q" "q \<noteq> []" "q \<notin> set (forestIds [grp])" using p by (cases p) auto
    have "nameKey ` set (kids g) \<inter> nameKey ` set [grp] = {}" if "findGroup ?gs q = Some g" for g
      using free q that by (force simp: siblingsAt_def)
    then have "wfForest (addUnder q [grp] ?gs)"
      by (rule wfForest_addUnder [OF wfForest_layerGroups [OF assms(1)] assms(2,3)])
    then show ?thesis
      using False T q wfLayers_onGroups [OF assms(1), of "addUnder q [grp]" i] addEdit_total [of q "[grp]" ls i]
      by (simp add: addGroup_def)
  qed
qed

lemma wfLayers_rename:
  assumes "wfLayers ls" "name \<noteq> []" "renameGroup ls i g name = Some ls'"
  shows "wfLayers ls'"
proof (cases "truthyStr (groupNameClash ls i (orNull (parentGroupOf ls i g)) [name] [g])")
  case True
  then show ?thesis using assms by (simp add: renameGroup_def)
next
  case False
  have "wfForest (renameForest g name (layerGroups ls i))"
    using no_clash [OF False] assms(2)
    by (intro wfForest_rename wfForest_layerGroups [OF assms(1)]) (auto simp: parentGroupOf_def)
  then have "wfLayers (onGroups i (renameForest g name) ls)" by (rule wfLayers_onGroups [OF assms(1)])
  then show ?thesis
    using assms(3) False renameEdit_total [of ls i g name] by (auto simp: renameGroup_def renamed_def [abs_def])
qed

lemma wfLayers_ungroup:
  assumes "wfLayers ls" "ungroup ls i g = Some ls'"
  shows "wfLayers ls'"
proof (cases "truthyStr (groupNameClash ls i (orNull (parentGroupOf ls i g)) (childGroupNames ls i g) [g])")
  case True
  then show ?thesis using assms by (simp add: ungroup_def Let_def)
next
  case False
  let ?gs = "layerGroups ls i"
  have wf: "wfForest ?gs" by (rule wfForest_layerGroups [OF assms(1)])
  have "wfForest (lift g ?gs)"
  proof (rule wfForest_lift [OF wf])
    fix m k h
    assume m: "findGroup ?gs g = Some m" and k: "k \<in> set (kids m)"
      and h: "h \<in> set (siblingsAt ?gs (orNull (parentWalk g None ?gs None)))" "g_id h \<noteq> g"
    have node: "x \<in> set (forestNodes ?gs)" if "x \<in> set (kids m)" for x
      using forestNodes_kids findGroup_Some [OF m] forestNodes_roots [OF that] by blast
    have "[] \<notin> set (map g_name (kids m))" using node wfForest_node(1) [OF wf] by fastforce
    then show "\<not> sameName (g_name h) (g_name k)"
      using no_clash [OF False _ _ h(1) [folded parentGroupOf_def], of "g_name k"] m k h(2)
      by (simp add: childGroupNames_def)
  qed
  then have "wfLayers (onGroups i (lift g) ls)" by (rule wfLayers_onGroups [OF assms(1)])
  then show ?thesis
    using assms(2) False mapGroups_total [of "\<lambda>gs. Some (lift g gs)" "lift g" ls i]
    by (simp add: ungroup_def Let_def)
qed


lemma subtreeWalk_inside: "subtreeWalk i gs True = forestIds gs"
  by (induction gs rule: forestIds.induct) auto

lemma subtreeWalk_absent: "i \<notin> set (forestIds gs) \<Longrightarrow> subtreeWalk i gs False = []"
  by (induction gs rule: forestIds.induct) auto

lemma subtreeWalk_found:
  "distinct (forestIds gs) \<Longrightarrow> findGroup gs i = Some m \<Longrightarrow> subtreeWalk i gs False = forestIds [m]"
proof (induction gs rule: forestIds.induct)
  case (2 g gs)
  show ?case
  proof (cases "g_id g = i")
    case True
    then have "i \<notin> set (forestIds gs)" using "2.prems"(1) by auto
    then show ?thesis using True "2.prems"(2) by (simp add: subtreeWalk_inside subtreeWalk_absent)
  next
    case False
    show ?thesis
    proof (cases "findGroup (kids g) i")
      case None
      then show ?thesis
        using False 2 findGroup_None [of "kids g" i] subtreeWalk_absent [of i "kids g"] by simp
    next
      case (Some n)
      then have "i \<notin> set (forestIds gs)"
        using "2.prems"(1) findGroup_None [of "kids g" i] by auto
      then show ?thesis using Some False 2 subtreeWalk_absent [of i gs] by simp
    qed
  qed
qed simp

lemma groupSubtreeIds_found:
  "wfLayers ls \<Longrightarrow> findGroup (layerGroups ls i) g = Some m \<Longrightarrow> groupSubtreeIds ls i g = forestIds [m]"
  using wfForest_layerGroups [of ls i] by (simp add: groupSubtreeIds_def subtreeWalk_found wfForest_def)

text \<open>What a moved group leaves behind.\<close>

lemma removed_forest:
  assumes "wfLayers ls" "findGroup (layerGroups ls i) g = Some m" "i \<in> vl_id ` set ls"
  shows "\<exists>ls1. removeGroup ls i g = Some ls1 \<and> wfLayers ls1 \<and> map vl_id ls1 = map vl_id ls \<and>
    layerGroups ls1 i = mapForest (dropGroup g) (layerGroups ls i) \<and>
    (\<forall>j. j \<noteq> i \<longrightarrow> layerGroups ls1 j = layerGroups ls j) \<and>
    mset (forestIds (layerGroups ls i)) = mset (forestIds (layerGroups ls1 i)) + mset (forestIds [m]) \<and>
    set (forestIds (layerGroups ls1 i)) \<inter> set (forestIds [m]) = {} \<and> wfForest [m]"
proof -
  let ?gs = "layerGroups ls i"
  have wf: "wfForest ?gs" by (rule wfForest_layerGroups [OF assms(1)])
  have d: "distinct (forestIds ?gs)" using wf by (simp add: wfForest_def)
  have r: "removeGroup ls i g = Some (onGroups i (mapForest (dropGroup g)) ls)"
    using removeGroup_total [of ls i g] by (simp add: dropGroup_def [abs_def])
  have ms: "mset (forestIds ?gs) = mset (forestIds (mapForest (dropGroup g) ?gs) @ forestIds [m])"
    using ids_drop [OF d assms(2)] by simp
  then have "distinct (forestIds (mapForest (dropGroup g) ?gs) @ forestIds [m])"
    using d mset_eq_imp_distinct_iff by blast
  then show ?thesis
    using r ms assms wfLayers_remove [OF assms(1) r] wfForest_single [OF wf] findGroup_Some [OF assms(2)]
    by (auto simp: layerGroups_onGroups)
qed

lemma layer_of_group: "findGroup (layerGroups ls i) g = Some m \<Longrightarrow> i \<in> vl_id ` set ls"
  by (cases "findLayer ls i") (auto simp: layerGroups_groupsOf dest!: findLayer_id)

lemma wfLayers_moveGroup:
  assumes "wfLayers ls"
  shows "\<exists>ls'. moveGroup ls i g q = Some ls' \<and> wfLayers ls'"
proof (cases "(truthyStr q \<and> the q \<in> set (groupSubtreeIds ls i g)) \<or> findGroup (layerGroups ls i) g = None")
  case True
  then show ?thesis using assms by (auto simp: moveGroup_def)
next
  case False
  then obtain m where m: "findGroup (layerGroups ls i) g = Some m" by auto
  obtain ls1 where ls1: "removeGroup ls i g = Some ls1" "wfLayers ls1" "wfForest [m]"
      "set (forestIds (layerGroups ls1 i)) \<inter> set (forestIds [m]) = {}"
    using removed_forest [OF assms m layer_of_group [OF m]] by blast
  have q: "\<not> truthyStr q \<or> the q \<notin> set (forestIds [m])"
    using False groupSubtreeIds_found [OF assms m] by auto
  obtain ls2 where "addGroup ls1 i m q = Some ls2" "wfLayers ls2"
    using addGroup_result [OF ls1(2,3,4) q] by blast
  then show ?thesis using False m ls1 assms by (auto simp: moveGroup_def)
qed

end
