(* ===== verification/Group_Moves.thy ===== *)
theory Group_Moves
  imports Layer_Groups
begin

text \<open>
  Moving groups: their contents into another group, a group under another parent, and a group
  to another layer.  The step relation \<open>group_step\<close> collects every group edit of one view, and
  its invariant is that no two groups side by side ever share a name.
\<close>

section \<open>Moving a group's contents\<close>

fun emptyAt :: "string \<Rightarrow> group list \<Rightarrow> group list" where
  "emptyAt i [] = []"
| "emptyAt i (g # gs) =
     (if g_id g = i then setChildren (Some []) g
      else case g_children g of None \<Rightarrow> g | Some _ \<Rightarrow> setChildren (Some (emptyAt i (kids g))) g)
     # emptyAt i gs"

lemma editTree_emptyAt:
  "editTree (\<lambda>g. Some (if g_id g = i then setChildren (Some []) g else g)) gs = Some (emptyAt i gs)"
proof (induction gs rule: forestIds.induct)
  case (2 g gs)
  then show ?case
    by (cases "g_children g") (auto simp: editTree_Cons setChildren_def dest: kids_Some)
qed simp

lemma nameKey_emptyAt [simp]: "map nameKey (emptyAt i gs) = map nameKey gs"
  by (induction i gs rule: emptyAt.induct) (auto simp: nameKey_def split: option.splits)

lemma emptyAt_nodes:
  "g' \<in> set (forestNodes (emptyAt i gs)) \<Longrightarrow>
     \<exists>g \<in> set (forestNodes gs). g_id g = g_id g' \<and> g_name g = g_name g' \<and>
        (map nameKey (kids g') = map nameKey (kids g) \<or> kids g' = [])"
proof (induction gs rule: forestIds.induct)
  case (2 g gs)
  then show ?case by (cases "g_children g") (auto simp: kids_None split: if_splits)
qed simp

lemma emptyAt_absent: "i \<notin> set (forestIds gs) \<Longrightarrow> emptyAt i gs = gs"
proof (induction gs rule: forestIds.induct)
  case (2 g gs)
  then show ?case by (cases "g_children g") (auto dest: kids_Some)
qed simp

lemma ids_emptyAt:
  "distinct (forestIds gs) \<Longrightarrow> findGroup gs i = Some m \<Longrightarrow>
     mset (forestIds gs) = mset (forestIds (emptyAt i gs)) + mset (forestIds (kids m))"
proof (induction gs rule: forestIds.induct)
  case (2 g gs)
  consider (here) "g_id g = i" | (inside) "g_id g \<noteq> i" "findGroup (kids g) i = Some m"
    | (rest) "g_id g \<noteq> i" "findGroup (kids g) i = None" "findGroup gs i = Some m"
    using "2.prems"(2) by (auto split: if_splits option.splits)
  then show ?case
  proof cases
    case here
    then have "i \<notin> set (forestIds gs)" using "2.prems"(1) by auto
    then show ?thesis using here "2.prems"(2) by (simp add: emptyAt_absent)
  next
    case inside
    then have "i \<notin> set (forestIds gs)"
      using "2.prems"(1) findGroup_None [of "kids g" i] by auto
    moreover obtain cs where "g_children g = Some cs" using inside by (cases "g_children g") (auto simp: kids_None)
    ultimately show ?thesis using inside "2.IH"(1) "2.prems"(1) by (simp add: emptyAt_absent)
  next
    case rest
    then show ?thesis
      using "2.IH"(2) "2.prems"(1) emptyAt_absent [of i "kids g"] findGroup_None [of "kids g" i]
      by (cases "g_children g") (auto simp: kids_None)
  qed
qed simp

lemma wfForest_emptyAt:
  assumes "wfForest gs" "findGroup gs i = Some m"
  shows "wfForest (emptyAt i gs) \<and> wfForest (kids m) \<and>
    set (forestIds (emptyAt i gs)) \<inter> set (forestIds (kids m)) = {}"
proof -
  have d: "distinct (forestIds gs)" using assms(1) by (simp add: wfForest_def)
  have mn: "m \<in> set (forestNodes gs)" using findGroup_Some [OF assms(2)] by simp
  have "mset (forestIds gs) = mset (forestIds (emptyAt i gs) @ forestIds (kids m))"
    using ids_emptyAt [OF d assms(2)] by simp
  then have dis: "distinct (forestIds (emptyAt i gs) @ forestIds (kids m))"
    using d mset_eq_imp_distinct_iff by blast
  have nodes: "g_name g' \<noteq> [] \<and> g_id g' \<noteq> [] \<and> distinct (map nameKey (kids g'))"
    if "g' \<in> set (forestNodes (emptyAt i gs))" for g'
    using emptyAt_nodes [OF that] wfForest_node [OF assms(1)] by (metis distinct.simps(1) list.simps(8))
  have "[] \<notin> set (forestIds (emptyAt i gs))"
    using nodes by (auto simp: forestIds_nodes dest!: nodes)
  then have "wfForest (emptyAt i gs)"
    using nodes dis assms(1)
    by (simp add: wfForest_def uniqueNames_def list_all_iff nameRows_nodes)
  moreover have "wfForest (kids m)"
    using dis forestNodes_kids [OF mn] wfForest_node(2) [OF assms(1) mn]
    by (intro subset_nodes_wf [OF assms(1)]) auto
  ultimately show ?thesis using dis by simp
qed

lemma emptied_row:
  assumes "wfForest gs" "findGroup (emptyAt i gs) j = Some g'" "findGroup gs j = Some g"
  shows "nameKey ` set (kids g') \<subseteq> nameKey ` set (kids g)"
proof -
  obtain h where h: "h \<in> set (forestNodes gs)" "g_id h = g_id g'"
      "map nameKey (kids g') = map nameKey (kids h) \<or> kids g' = []"
    using emptyAt_nodes findGroup_Some [OF assms(2)] by blast
  then have "h = g"
    using forest_node_unique [of gs h g] assms(1) findGroup_Some [OF assms(2)] findGroup_Some [OF assms(3)]
    by (simp add: wfForest_def)
  then show ?thesis using h(3) by (metis empty_subsetI image_empty list.set(1) list.set_map order_refl)
qed

lemma moveContents_forest:
  assumes wf: "wfForest gs" and src: "findGroup gs i = Some m" and dest: "j \<notin> set (forestIds [m])"
    and clash: "\<And>k h. k \<in> set (kids m) \<Longrightarrow> h \<in> set (siblingsAt gs (Some j)) \<Longrightarrow> nameKey h \<noteq> nameKey k"
  shows "wfForest (addUnder j (kids m) (emptyAt i gs))"
proof (rule wfForest_addUnder)
  show "wfForest (emptyAt i gs)" "wfForest (kids m)"
      "set (forestIds (emptyAt i gs)) \<inter> set (forestIds (kids m)) = {}"
    using wfForest_emptyAt [OF wf src] by auto
next
  fix g' assume g': "findGroup (emptyAt i gs) j = Some g'"
  then have "g' \<in> set (forestNodes (emptyAt i gs))" "g_id g' = j" using findGroup_Some by blast+
  then obtain h where h: "h \<in> set (forestNodes gs)" "g_id h = j" using emptyAt_nodes by blast
  then have j: "j \<noteq> []" using wfForest_node(3) [OF wf] by auto
  obtain g where g: "findGroup gs j = Some g"
    using h findGroup_None [of gs j] by (cases "findGroup gs j") (auto simp: forestIds_nodes)
  then have "siblingsAt gs (Some j) = kids g" using j by (simp add: siblingsAt_def)
  then show "nameKey ` set (kids g') \<inter> nameKey ` set (kids m) = {}"
    using clash emptied_row [OF wf g' g] by auto
qed

lemma moveGroupContents_cases:
  assumes "wfLayers ls"
  obtains "moveGroupContents ls i f t = Some ls"
    | m where "findGroup (layerGroups ls i) f = Some m" "t \<notin> set (forestIds [m])"
        "\<not> truthyStr (groupNameClash ls i (Some t) (map g_name (kids m)) [])"
        "moveGroupContents ls i f t = Some (onGroups i (\<lambda>gs. addUnder t (kids m) (emptyAt f gs)) ls)"
proof (cases "\<exists>m. findGroup (layerGroups ls i) f = Some m \<and> kids m \<noteq> [] \<and> f \<noteq> t \<and>
    t \<notin> set (groupSubtreeIds ls i f) \<and>
    \<not> truthyStr (groupNameClash ls i (Some t) (map g_name (kids m)) [])")
  case False
  then have "moveGroupContents ls i f t = Some ls"
    by (auto simp: moveGroupContents_def Let_def split: option.splits)
  then show thesis by (rule that(1))
next
  case True
  then obtain m where m: "findGroup (layerGroups ls i) f = Some m" "kids m \<noteq> []" "f \<noteq> t"
      "t \<notin> set (groupSubtreeIds ls i f)"
      "\<not> truthyStr (groupNameClash ls i (Some t) (map g_name (kids m)) [])" by blast
  have dest: "t \<notin> set (forestIds [m])" using m(4) groupSubtreeIds_found [OF assms m(1)] by simp
  have "mapGroups ls i (editTree (\<lambda>g. Some (if g_id g = f then setChildren (Some []) g else g)))
      = Some (onGroups i (emptyAt f) ls)"
    by (rule mapGroups_total) (rule editTree_emptyAt)
  moreover have "mapGroups (onGroups i (emptyAt f) ls) i
      (editTree (\<lambda>g. Some (if g_id g = t then setChildren (Some (kids g @ kids m)) g else g)))
      = Some (onGroups i (addUnder t (kids m)) (onGroups i (emptyAt f) ls))"
    using addEdit_total [of t "kids m" "onGroups i (emptyAt f) ls" i] dest by (simp add: if_distrib [of Some])
  ultimately have "moveGroupContents ls i f t = Some (onGroups i (\<lambda>gs. addUnder t (kids m) (emptyAt f gs)) ls)"
    using m by (simp add: moveGroupContents_def Let_def onGroups_onGroups)
  then show thesis by (rule that(2) [OF m(1) dest m(5)])
qed

lemma wfLayers_moveGroupContents:
  assumes "wfLayers ls"
  shows "\<exists>ls'. moveGroupContents ls i f t = Some ls' \<and> wfLayers ls'"
  using assms
proof (cases rule: moveGroupContents_cases [of ls i f t])
  case 1
  then show ?thesis using assms by simp
next
  case (2 m)
  let ?gs = "layerGroups ls i"
  have wf: "wfForest ?gs" by (rule wfForest_layerGroups [OF assms])
  have mn: "m \<in> set (forestNodes ?gs)" using findGroup_Some [OF 2(1)] by simp
  have named: "[] \<notin> set (map g_name (kids m))"
    using wfForest_node(1) [OF wf] forestNodes_kids [OF mn] forestNodes_roots by fastforce
  have "nameKey h \<noteq> nameKey k" if "k \<in> set (kids m)" "h \<in> set (siblingsAt ?gs (Some t))" for k h
    using no_clash [OF 2(3) named _ that(2), of "g_name k"] that(1) by (simp add: sameName_nameKey)
  then have "wfForest (addUnder t (kids m) (emptyAt f ?gs))" by (rule moveContents_forest [OF wf 2(1,2)])
  then show ?thesis
    using 2(4) wfLayers_onGroups [OF assms, of "\<lambda>gs. addUnder t (kids m) (emptyAt f gs)" i] by simp
qed

section \<open>Moving a group keeps it\<close>

lemma drop_nodes:
  "g' \<in> set (forestNodes (mapForest (dropGroup i) gs)) \<Longrightarrow>
     \<exists>g \<in> set (forestNodes gs). g_id g = g_id g' \<and> kids g' = mapForest (dropGroup i) (kids g)"
proof (induction gs rule: forestIds.induct)
  case (2 g gs)
  then show ?case by (cases "g_children g") (auto simp: dropGroup_def [of i g] kids_None split: if_splits)
qed simp

lemma siblingsAt_drop:
  assumes wf: "wfForest gs" and m: "findGroup gs i = Some m"
    and q: "truthyStr q \<Longrightarrow> the q \<in> set (forestIds gs) - set (forestIds [m])"
  shows "nameKey ` set (siblingsAt (mapForest (dropGroup i) gs) q) =
    nameKey ` {h \<in> set (siblingsAt gs q). g_id h \<noteq> i}"
proof (cases "truthyStr q")
  case False
  then show ?thesis using arg_cong [OF roots_drop, of set i gs] by (simp add: siblingsAt_def)
next
  case True
  let ?q = "the q"
  have d: "distinct (forestIds gs)" using wf by (simp add: wfForest_def)
  have "set (forestIds gs) = set (forestIds (mapForest (dropGroup i) gs) @ forestIds [m])"
    using ids_drop [OF d m] by (intro mset_eq_setD) simp
  then obtain p' where p': "findGroup (mapForest (dropGroup i) gs) ?q = Some p'"
    using q [OF True] findGroup_None [of "mapForest (dropGroup i) gs" ?q] by fastforce
  obtain p where p: "p \<in> set (forestNodes gs)" "g_id p = ?q" "kids p' = mapForest (dropGroup i) (kids p)"
    using drop_nodes findGroup_Some [OF p'] by metis
  obtain p0 where p0: "findGroup gs ?q = Some p0"
    using q [OF True] findGroup_None [of gs ?q] by fastforce
  then have "p0 = p" using forest_node_unique [OF d, of p0 p] p findGroup_Some [OF p0] by simp
  then show ?thesis
    using True p' p0 p(3) arg_cong [OF roots_drop, of set i "kids p"] by (simp add: siblingsAt_def)
qed

text \<open>The effect of an add that is not refused.\<close>

lemma addGroup_effect:
  assumes "\<not> truthyStr (groupNameClash ls i q [g_name grp] [])" "\<not> truthyStr q \<or> the q \<notin> set (forestIds [grp])"
  shows "addGroup ls i grp q =
    Some (onGroups i (if truthyStr q then addUnder (the q) [grp] else (\<lambda>gs. gs @ [grp])) ls)"
  using assms addEdit_total [of "the q" "[grp]" ls i] mapGroups_total [of "\<lambda>gs. Some (gs @ [grp])" "\<lambda>gs. gs @ [grp]" ls i]
  by (simp add: addGroup_def)

lemma ids_addAt:
  assumes "distinct (forestIds gs)" "truthyStr q \<longrightarrow> the q \<in> set (forestIds gs)"
  shows "mset (forestIds ((if truthyStr q then addUnder (the q) [grp] else (\<lambda>gs. gs @ [grp])) gs)) =
    mset (forestIds gs) + mset (forestIds [grp])"
  using assms ids_addUnder [of "the q" "[grp]" gs] by (auto simp: count_list_distinct)

lemma addUnder_node:
  "p \<in> set (forestIds gs) \<Longrightarrow>
     \<exists>h \<in> set (forestNodes (addUnder p [m] gs)). g_id h = p \<and> m \<in> set (kids h)"
proof (induction gs rule: forestIds.induct)
  case (2 g gs)
  then show ?case by (cases "g_children g") (auto simp: kids_None)
qed simp

lemma parent_addAt:
  assumes "wfForest ((if truthyStr q then addUnder (the q) [m] else (\<lambda>gs. gs @ [m])) gs)" (is "wfForest ?gs")
    "truthyStr q \<longrightarrow> the q \<in> set (forestIds gs)"
  shows "parentWalk (g_id m) None ?gs None = Some (if truthyStr q then q else None)"
proof (cases "truthyStr q")
  case True
  then obtain h where "h \<in> set (forestNodes ?gs)" "g_id h = the q" "m \<in> set (kids h)"
    using addUnder_node assms(2) by force
  then show ?thesis
    using parentWalk_inner [of ?gs h "g_id m"] assms(1) True
    by (cases q) (auto simp: wfForest_def)
next
  case False
  then show ?thesis using parentWalk_root [of ?gs "g_id m"] assms(1) by (simp add: wfForest_def)
qed

text \<open>A move that its guards let through: the group leaves its place and arrives whole.\<close>

lemma moveGroup_effect:
  assumes wf: "wfLayers ls" and m: "findGroup (layerGroups ls i) g = Some m"
    and q: "truthyStr q \<longrightarrow> the q \<in> set (forestIds (layerGroups ls i)) - set (groupSubtreeIds ls i g)"
    and clash: "\<not> truthyStr (groupNameClash ls i q [g_name m] [g])"
  shows "\<exists>ls'. moveGroup ls i g q = Some ls' \<and> wfLayers ls' \<and>
    (\<forall>j. mset (forestIds (layerGroups ls' j)) = mset (forestIds (layerGroups ls j))) \<and>
    parentGroupOf ls' i g = Some (if truthyStr q then q else None)"
proof -
  let ?gs = "layerGroups ls i" and ?at = "if truthyStr q then addUnder (the q) [m] else (\<lambda>gs. gs @ [m])"
  have i: "i \<in> vl_id ` set ls" by (rule layer_of_group [OF m])
  obtain ls1 where ls1: "removeGroup ls i g = Some ls1" "wfLayers ls1" "map vl_id ls1 = map vl_id ls"
      "layerGroups ls1 i = mapForest (dropGroup g) ?gs" "\<forall>j. j \<noteq> i \<longrightarrow> layerGroups ls1 j = layerGroups ls j"
      "mset (forestIds ?gs) = mset (forestIds (layerGroups ls1 i)) + mset (forestIds [m])"
      "set (forestIds (layerGroups ls1 i)) \<inter> set (forestIds [m]) = {}" "wfForest [m]"
    using removed_forest [OF wf m i] by blast
  have sub: "groupSubtreeIds ls i g = forestIds [m]" by (rule groupSubtreeIds_found [OF wf m])
  have gid: "g_id m = g" using findGroup_Some [OF m] by simp
  have nm: "g_name m \<noteq> []" using ls1(8) by (simp add: wfForest_def)
  have "nameKey h \<noteq> nameKey m" if h: "h \<in> set (siblingsAt (layerGroups ls1 i) q)" for h
  proof -
    have "nameKey h \<in> nameKey ` {k \<in> set (siblingsAt ?gs q). g_id k \<noteq> g}"
      using siblingsAt_drop [OF wfForest_layerGroups [OF wf] m, of q] q sub h ls1(4) by auto
    then show ?thesis using no_clash [OF clash, of "g_name m"] nm by (auto simp: sameName_nameKey) blast
  qed
  then have free: "groupNameClash ls1 i q [g_name m] [] = None"
    by (intro clash_free) (auto simp: sameName_nameKey)
  have dest: "\<not> truthyStr q \<or> the q \<notin> set (forestIds [m])" using q sub by auto
  have add: "addGroup ls1 i m q = Some (onGroups i ?at ls1)" using addGroup_effect [OF _ dest] free by simp
  have wf2: "wfLayers (onGroups i ?at ls1)" using addGroup_result [OF ls1(2,8,7) dest] add by simp
  have i1: "i \<in> vl_id ` set ls1" using i ls1(3) by (metis list.set_map)
  have mem: "truthyStr q \<longrightarrow> the q \<in> set (forestIds (layerGroups ls1 i))"
    using q sub mset_eq_setD [of "forestIds ?gs" "forestIds (layerGroups ls1 i) @ forestIds [m]"] ls1(6) by auto
  have d1: "distinct (forestIds (layerGroups ls1 i))"
    using wfForest_layerGroups [OF ls1(2), of i] by (simp add: wfForest_def)
  have at: "layerGroups (onGroups i ?at ls1) i = ?at (layerGroups ls1 i)" using i1 by (simp add: layerGroups_onGroups)
  have "moveGroup ls i g q = Some (onGroups i ?at ls1)"
    using m q clash ls1(1) add by (auto simp: moveGroup_def)
  moreover have "parentGroupOf (onGroups i ?at ls1) i g = Some (if truthyStr q then q else None)"
    using parent_addAt [of q m "layerGroups ls1 i"] mem gid at wfForest_layerGroups [OF wf2, of i]
    unfolding parentGroupOf_def at by simp
  moreover have "mset (forestIds (layerGroups (onGroups i ?at ls1) j)) = mset (forestIds (layerGroups ls j))" for j
  proof (cases "j = i")
    case True
    then show ?thesis using ids_addAt [OF d1 mem, of m] ls1(6) unfolding True at by simp
  next
    case False
    then show ?thesis using ls1(5) by (simp add: layerGroups_onGroups)
  qed
  ultimately show ?thesis using wf2 by blast
qed

section \<open>Every group edit of a layer stack\<close>

inductive group_step :: "view_layer list \<Rightarrow> view_layer list \<Rightarrow> bool" where
  add: "wfForest [grp] \<Longrightarrow> set (forestIds (layerGroups ls i)) \<inter> set (forestIds [grp]) = {} \<Longrightarrow>
    \<not> truthyStr p \<or> the p \<notin> set (forestIds [grp]) \<Longrightarrow>
    addGroup ls i grp p = Some ls' \<Longrightarrow> group_step ls ls'"
| rename: "name \<noteq> [] \<Longrightarrow> renameGroup ls i g name = Some ls' \<Longrightarrow> group_step ls ls'"
| remove: "removeGroup ls i g = Some ls' \<Longrightarrow> group_step ls ls'"
| move: "moveGroup ls i g p = Some ls' \<Longrightarrow> group_step ls ls'"
| ungroup: "ungroup ls i g = Some ls' \<Longrightarrow> group_step ls ls'"
| contents: "moveGroupContents ls i f t = Some ls' \<Longrightarrow> group_step ls ls'"

lemma wfLayers_step: "group_step ls ls' \<Longrightarrow> wfLayers ls \<Longrightarrow> wfLayers ls'"
proof (induction rule: group_step.induct)
  case (add grp ls i p ls')
  then show ?case using addGroup_result [of ls grp i p] by auto
next
  case (move ls i g p ls')
  then show ?case using wfLayers_moveGroup [of ls i g p] by auto
next
  case (contents ls i f t ls')
  then show ?case using wfLayers_moveGroupContents [of ls i f t] by auto
qed (auto intro: wfLayers_rename wfLayers_remove wfLayers_ungroup)

text \<open>
  C19. Whatever sequence of group adds, renames, removals, moves, ungroupings and content moves is
  applied to a view's layers, two groups side by side (at the top of a layer or under one parent)
  never share a name, up to case and surrounding blanks, and group ids stay distinct.
\<close>

theorem sibling_names_stay_unique:
  assumes "group_step\<^sup>*\<^sup>* ls ls'" "wfLayers ls"
  shows "wfLayers ls'"
  using assms by (induction rule: rtranclp_induct) (auto intro: wfLayers_step)

definition sampleGroup :: "string \<Rightarrow> string \<Rightarrow> group list \<Rightarrow> group" where
  "sampleGroup i name subs = Group i name None GroupType (Some subs) JUndefined None"

definition sampleStack :: "view_layer list" where
  "sampleStack =
     [(sampleLayer ''L'' 0)\<lparr>vl_logicalNodes :=
         Some [sampleGroup ''a'' ''Sales'' [sampleGroup ''b'' ''EU'' []], sampleGroup ''c'' ''Ops'' []]\<rparr>,
      (sampleLayer ''M'' 1)\<lparr>vl_logicalNodes := Some [sampleGroup ''d'' ''Core'' []]\<rparr>]"

lemma wf_sampleStack: "wfLayers sampleStack"
  by code_simp

theorem sibling_names_stay_unique_witness:
  "wfLayers (the (renameGroup (the (moveGroup sampleStack ''L'' ''b'' None)) ''L'' ''b'' ''Ops''))"
proof -
  let ?l1 = "the (moveGroup sampleStack ''L'' ''b'' None)"
  have "group_step sampleStack ?l1"
    using wfLayers_moveGroup [OF wf_sampleStack, of "''L''" "''b''" None] group_step.move by force
  moreover have "renameGroup ?l1 ''L'' ''b'' ''Ops'' \<noteq> None"
    using renameEdit_total [of ?l1 "''L''" "''b''" "''Ops''"] by (simp add: renameGroup_def)
  then have "group_step ?l1 (the (renameGroup ?l1 ''L'' ''b'' ''Ops''))"
    using group_step.rename [of "''Ops''"] by force
  ultimately have "group_step\<^sup>*\<^sup>* sampleStack (the (renameGroup ?l1 ''L'' ''b'' ''Ops''))"
    by (meson converse_rtranclp_into_rtranclp rtranclp.rtrancl_refl)
  then show ?thesis by (rule sibling_names_stay_unique) (rule wf_sampleStack)
qed

text \<open>
  Moving a group under a parent that exists (or to the top of its layer) never loses or
  duplicates a group, and unless it is refused (into its own subtree, or a name already taken
  there) the group ends up under that parent.
\<close>

lemma move_keeps_every_group:
  assumes "wfLayers ls" "findGroup (layerGroups ls i) g = Some m"
    "truthyStr q \<longrightarrow> the q \<in> set (forestIds (layerGroups ls i))"
  shows "\<exists>ls'. moveGroup ls i g q = Some ls' \<and>
    (\<forall>j. mset (forestIds (layerGroups ls' j)) = mset (forestIds (layerGroups ls j))) \<and>
    (ls' = ls \<or> parentGroupOf ls' i g = Some (if truthyStr q then q else None)) \<and>
    ((truthyStr q \<longrightarrow> the q \<notin> set (forestIds [m])) \<and> groupNameClash ls i q [g_name m] [g] = None \<longrightarrow>
       parentGroupOf ls' i g = Some (if truthyStr q then q else None))"
proof (cases "(truthyStr q \<longrightarrow> the q \<notin> set (groupSubtreeIds ls i g)) \<and>
    \<not> truthyStr (groupNameClash ls i q [g_name m] [g])")
  case True
  then show ?thesis using moveGroup_effect [OF assms(1,2), of q] assms(3) by blast
next
  case False
  then have "moveGroup ls i g q = Some ls" using assms(2) by (auto simp: moveGroup_def)
  then show ?thesis using False groupSubtreeIds_found [OF assms(1,2)] by auto
qed

text \<open>
  The parent named by a move is not checked: when no group of the layer has that id, the
  move still removes the group from where it was and adds it nowhere, so the group and all the
  groups inside it are lost.
\<close>

lemma move_to_unknown_parent_loses_group:
  assumes "wfLayers ls" "findGroup (layerGroups ls i) g = Some m"
    "truthyStr q" "the q \<notin> set (forestIds (layerGroups ls i))"
  shows "\<exists>ls'. moveGroup ls i g q = Some ls' \<and>
    mset (forestIds (layerGroups ls' i)) = mset (forestIds (layerGroups ls i)) - mset (forestIds [m])"
proof -
  let ?gs = "layerGroups ls i"
  have i: "i \<in> vl_id ` set ls" by (rule layer_of_group [OF assms(2)])
  obtain ls1 where ls1: "removeGroup ls i g = Some ls1" "map vl_id ls1 = map vl_id ls"
      "mset (forestIds ?gs) = mset (forestIds (layerGroups ls1 i)) + mset (forestIds [m])"
    using removed_forest [OF assms(1,2) i] by blast
  have ids: "set (forestIds ?gs) = set (forestIds (layerGroups ls1 i) @ forestIds [m])"
    using ls1(3) by (intro mset_eq_setD) simp
  have i1: "i \<in> vl_id ` set ls1" using i ls1(2) by (metis list.set_map)
  have none: "groupNameClash ls i q [g_name m] [g] = None" "groupNameClash ls1 i q [g_name m] [] = None"
    using assms(3,4) ids findGroup_None [of ?gs "the q"] findGroup_None [of "layerGroups ls1 i" "the q"]
    by (intro clash_free; simp add: siblingsAt_def)+
  have "moveGroup ls i g q = Some (onGroups i (addUnder (the q) [m]) ls1)"
    using assms ls1 none addGroup_effect [of ls1 i q m] groupSubtreeIds_found [OF assms(1,2)] ids
    by (auto simp: moveGroup_def)
  moreover have "layerGroups (onGroups i (addUnder (the q) [m]) ls1) i = layerGroups ls1 i"
    using i1 assms(4) ids by (simp add: layerGroups_onGroups addUnder_absent)
  ultimately show ?thesis using ls1(3) by simp
qed

section \<open>Moving a group to another layer\<close>

text \<open>An assignment is housed when the group it names is a group of the layer it names.\<close>

definition housed :: "view_layer list \<Rightarrow> entry \<Rightarrow> bool" where
  "housed ls e \<longleftrightarrow> (truthyStr (e_logicalNodeId e) \<longrightarrow>
     the (e_logicalNodeId e) \<in> set (forestIds (layerGroups ls (e_layerId e))))"

lemma housed_follow:
  assumes "housed ls e" "set (forestIds (layerGroups ls2 t)) = set (forestIds (layerGroups ls t) @ ms)"
    "set (forestIds (layerGroups ls f)) = set (forestIds (layerGroups ls1 f) @ ms)"
    "\<forall>j. j \<noteq> t \<longrightarrow> layerGroups ls2 j = layerGroups ls1 j"
    "\<forall>j. j \<noteq> f \<longrightarrow> layerGroups ls1 j = layerGroups ls j"
  shows "housed ls2 (if truthyStr (e_logicalNodeId e) \<and> the (e_logicalNodeId e) \<in> set ms \<and> e_layerId e = f
      then e\<lparr>e_orderKey := None, e_layerId := t\<rparr> else e)"
  using assms by (cases "e_layerId e = t"; cases "e_layerId e = f") (auto simp: housed_def)

lemma cross_move_forests:
  assumes wf: "wfLayers ls" and ft: "f \<noteq> t"
    and disj: "set (forestIds (layerGroups ls f)) \<inter> set (forestIds (layerGroups ls t)) = {}"
    and m: "findGroup (layerGroups ls f) g = Some m" and t: "t \<in> vl_id ` set ls"
    and q: "truthyStr q \<longrightarrow> the q \<in> set (forestIds (layerGroups ls t))"
    and clash: "\<not> truthyStr (groupNameClash ls t q [g_name m] [])"
  shows "\<exists>ls1 ls2. removeGroup ls f g = Some ls1 \<and> addGroup ls1 t m q = Some ls2 \<and> wfLayers ls2 \<and>
    (\<forall>j. j \<noteq> f \<longrightarrow> layerGroups ls1 j = layerGroups ls j) \<and> (\<forall>j. j \<noteq> t \<longrightarrow> layerGroups ls2 j = layerGroups ls1 j) \<and>
    mset (forestIds (layerGroups ls f)) = mset (forestIds (layerGroups ls1 f) @ forestIds [m]) \<and>
    mset (forestIds (layerGroups ls2 t)) = mset (forestIds (layerGroups ls t) @ forestIds [m])"
proof -
  let ?at = "if truthyStr q then addUnder (the q) [m] else (\<lambda>gs. gs @ [m])"
  obtain ls1 where ls1: "removeGroup ls f g = Some ls1" "wfLayers ls1" "map vl_id ls1 = map vl_id ls"
      "\<forall>j. j \<noteq> f \<longrightarrow> layerGroups ls1 j = layerGroups ls j"
      "mset (forestIds (layerGroups ls f)) = mset (forestIds (layerGroups ls1 f)) + mset (forestIds [m])"
      "wfForest [m]"
    using removed_forest [OF wf m layer_of_group [OF m]] by blast
  have split: "set (forestIds (layerGroups ls f)) = set (forestIds (layerGroups ls1 f) @ forestIds [m])"
    using ls1(5) by (intro mset_eq_setD) simp
  have t1: "layerGroups ls1 t = layerGroups ls t" using ls1(4) ft by simp
  have dis1: "set (forestIds (layerGroups ls1 t)) \<inter> set (forestIds [m]) = {}" using disj split t1 by auto
  have dest: "\<not> truthyStr q \<or> the q \<notin> set (forestIds [m])" using q dis1 t1 by auto
  have "\<not> truthyStr (groupNameClash ls1 t q [g_name m] [])" using clash t1 by (simp add: groupNameClash_def)
  then have add: "addGroup ls1 t m q = Some (onGroups t ?at ls1)" by (rule addGroup_effect [OF _ dest])
  have wf2: "wfLayers (onGroups t ?at ls1)" using addGroup_result [OF ls1(2,6) dis1 dest] add by simp
  have tin: "t \<in> vl_id ` set ls1" using t ls1(3) by (metis list.set_map)
  have d: "distinct (forestIds (layerGroups ls1 t))"
    using wfForest_layerGroups [OF ls1(2), of t] by (simp add: wfForest_def)
  have at: "layerGroups (onGroups t ?at ls1) t = ?at (layerGroups ls1 t)" using tin by (simp add: layerGroups_onGroups)
  have "mset (forestIds (layerGroups (onGroups t ?at ls1) t)) = mset (forestIds (layerGroups ls t) @ forestIds [m])"
    unfolding at using ids_addAt [OF d, of q m] q t1 by simp
  moreover have "\<forall>j. j \<noteq> t \<longrightarrow> layerGroups (onGroups t ?at ls1) j = layerGroups ls1 j"
    by (simp add: layerGroups_onGroups)
  ultimately show ?thesis using ls1 add wf2 by auto
qed

lemma cross_move_result:
  assumes wf: "wfLayers (lay_layers L)" and ft: "f \<noteq> t"
    and disj: "set (forestIds (layerGroups (lay_layers L) f)) \<inter> set (forestIds (layerGroups (lay_layers L) t)) = {}"
    and home: "list_all (housed (lay_layers L)) (map snd (lay_assignments L))"
  shows "\<exists>L'. moveGroupToLayer L f g t q = Some L' \<and> wfLayers (lay_layers L') \<and>
    list_all (housed (lay_layers L')) (map snd (lay_assignments L')) \<and>
    map fst (lay_assignments L') = map fst (lay_assignments L) \<and>
    mset (forestIds (layerGroups (lay_layers L') f)) + mset (forestIds (layerGroups (lay_layers L') t)) =
      mset (forestIds (layerGroups (lay_layers L) f)) + mset (forestIds (layerGroups (lay_layers L) t)) \<and>
    (\<forall>j. j \<noteq> f \<and> j \<noteq> t \<longrightarrow> layerGroups (lay_layers L') j = layerGroups (lay_layers L) j)"
proof (cases "\<exists>m. findGroup (layerGroups (lay_layers L) f) g = Some m \<and> t \<in> vl_id ` set (lay_layers L) \<and>
    (truthyStr q \<longrightarrow> the q \<in> set (forestIds (layerGroups (lay_layers L) t))) \<and>
    \<not> truthyStr (groupNameClash (lay_layers L) t q [g_name m] [])")
  case False
  then have "moveGroupToLayer L f g t q = Some L"
    using ft by (auto simp: moveGroupToLayer_def list_ex_iff findGroup_None split: option.splits)
  then show ?thesis using wf home by simp
next
  case True
  let ?ls = "lay_layers L"
  obtain m where m: "findGroup (layerGroups ?ls f) g = Some m" and t: "t \<in> vl_id ` set ?ls"
    and q: "truthyStr q \<longrightarrow> the q \<in> set (forestIds (layerGroups ?ls t))"
    and clash: "\<not> truthyStr (groupNameClash ?ls t q [g_name m] [])" using True by blast
  obtain ls1 ls2 where r: "removeGroup ?ls f g = Some ls1" "addGroup ls1 t m q = Some ls2" "wfLayers ls2"
      "\<forall>j. j \<noteq> f \<longrightarrow> layerGroups ls1 j = layerGroups ?ls j" "\<forall>j. j \<noteq> t \<longrightarrow> layerGroups ls2 j = layerGroups ls1 j"
      "mset (forestIds (layerGroups ?ls f)) = mset (forestIds (layerGroups ls1 f) @ forestIds [m])"
      "mset (forestIds (layerGroups ls2 t)) = mset (forestIds (layerGroups ?ls t) @ forestIds [m])"
    using cross_move_forests [OF wf ft disj m t q clash] by blast
  have sub: "groupSubtreeIds ?ls f g = forestIds [m]" by (rule groupSubtreeIds_found [OF wf m])
  have guard: "list_ex (\<lambda>l. vl_id l = t) ?ls" using t by (auto simp: list_ex_iff)
  let ?e = "\<lambda>e. if truthyStr (e_logicalNodeId e) \<and> the (e_logicalNodeId e) \<in> set (forestIds [m]) \<and> e_layerId e = f
      then e\<lparr>e_orderKey := None, e_layerId := t\<rparr> else e"
  let ?L = "L\<lparr>lay_layers := ls2, lay_assignments := map (\<lambda>(u, e). (u, ?e e)) (lay_assignments L)\<rparr>"
  have move: "moveGroupToLayer L f g t q = Some ?L"
    using ft m guard q clash r(1,2) sub by (auto simp: moveGroupToLayer_def Let_def findGroup_None)
  have "housed ls2 (?e e)" if "housed ?ls e" for e
    using that mset_eq_setD [OF r(7)] mset_eq_setD [OF r(6)] r(5) r(4) by (rule housed_follow)
  then have "list_all (housed ls2) (map snd (lay_assignments ?L))"
    using home by (auto simp: list_all_iff)
  moreover have "map fst (lay_assignments ?L) = map fst (lay_assignments L)" by (simp add: case_prod_unfold comp_def)
  moreover have "mset (forestIds (layerGroups ls2 f)) + mset (forestIds (layerGroups ls2 t)) =
      mset (forestIds (layerGroups ?ls f)) + mset (forestIds (layerGroups ?ls t))"
    using r(6,7) r(5) ft by simp
  moreover have "\<forall>j. j \<noteq> f \<and> j \<noteq> t \<longrightarrow> layerGroups ls2 j = layerGroups ?ls j" using r(4,5) by simp
  moreover have "lay_layers ?L = ls2" by simp
  ultimately show ?thesis using r(3) by (intro exI [of _ ?L] conjI move) (simp_all only:)
qed

text \<open>
  Moving a group to another layer takes the groups inside it along, loses and duplicates
  none, leaves every other layer alone, and its member assignments follow: an assignment that
  named a group of its layer still does.
\<close>

lemma move_to_layer_keeps_members_housed:
  assumes wf: "wfLayers (lay_layers L)" and ft: "f \<noteq> t"
    and disj: "set (forestIds (layerGroups (lay_layers L) f)) \<inter> set (forestIds (layerGroups (lay_layers L) t)) = {}"
    and home: "list_all (housed (lay_layers L)) (map snd (lay_assignments L))"
  shows "\<exists>L'. moveGroupToLayer L f g t q = Some L' \<and> wfLayers (lay_layers L') \<and>
    list_all (housed (lay_layers L')) (map snd (lay_assignments L')) \<and>
    map fst (lay_assignments L') = map fst (lay_assignments L) \<and>
    mset (forestIds (layerGroups (lay_layers L') f)) + mset (forestIds (layerGroups (lay_layers L') t)) =
      mset (forestIds (layerGroups (lay_layers L) f)) + mset (forestIds (layerGroups (lay_layers L) t)) \<and>
    (\<forall>j. j \<noteq> f \<and> j \<noteq> t \<longrightarrow> layerGroups (lay_layers L') j = layerGroups (lay_layers L) j)"
  using assms by (rule cross_move_result)

end
