(* ===== verification/Assignment_Mutations.thy ===== *)
theory Assignment_Mutations
  imports Order_Keys Layer_Mutations
begin

text \<open>
  \<^verbatim>\<open>components/canvas/context-view/assignmentMutations.ts\<close>: the transforms of a view's
  explicit assignments (which entity sits in which layer, in which group, at which position
  key). The clock is the parameter \<open>now\<close>. The properties are about position keys
  (an insertion lands where it is dropped; seeding keys every sibling in visual order) and about
  the re-keying of assignments when a save replaces temporary URNs by real ones.
\<close>

section \<open>Operations\<close>

record assign_options =
  opt_logicalNodeId :: "string option"
  opt_inheritsChildren :: "bool option"
  opt_assignedBy :: "assigned_by option"
  opt_clearDescendants :: "string list option"
  opt_orderKey :: "string option"

definition freshEntry ::
    "layout \<Rightarrow> string \<Rightarrow> assign_options \<Rightarrow> string \<Rightarrow> string \<Rightarrow> entry" where
  "freshEntry layout layerId opts now urn =
     (let prior = map_of (lay_assignments layout) urn;
          key = (case opt_orderKey opts of
                   Some k \<Rightarrow> Some k
                 | None \<Rightarrow> (case prior of
                     Some p \<Rightarrow> if e_layerId p = layerId then e_orderKey p else None
                   | None \<Rightarrow> None))
      in \<lparr>e_layerId = layerId,
          e_logicalNodeId = (if truthyStr (opt_logicalNodeId opts) then opt_logicalNodeId opts else None),
          e_inheritsChildren = (case opt_inheritsChildren opts of None \<Rightarrow> True | Some b \<Rightarrow> b),
          e_assignedBy = Some (case opt_assignedBy opts of None \<Rightarrow> ByUser | Some b \<Rightarrow> b),
          e_assignedAt = Some now,
          e_orderKey = (if truthyStr key then key else None)\<rparr>)"

definition assignEntities ::
    "layout \<Rightarrow> string list \<Rightarrow> string \<Rightarrow> assign_options \<Rightarrow> string \<Rightarrow> layout" where
  "assignEntities layout urns layerId opts now =
     layout\<lparr>lay_assignments :=
       delAll (case opt_clearDescendants opts of None \<Rightarrow> [] | Some ds \<Rightarrow> ds)
         (setAll (map (\<lambda>u. (u, freshEntry layout layerId opts now u)) urns) (lay_assignments layout))\<rparr>"

definition setAssignmentOrderKey :: "layout \<Rightarrow> string \<Rightarrow> string option \<Rightarrow> layout" where
  "setAssignmentOrderKey layout urn orderKey =
     (case map_of (lay_assignments layout) urn of
        None \<Rightarrow> layout
      | Some entry \<Rightarrow>
          layout\<lparr>lay_assignments := AList.update urn (entry\<lparr>e_orderKey := orderKey\<rparr>) (lay_assignments layout)\<rparr>)"

definition maxKey :: "string option \<Rightarrow> string \<Rightarrow> string option" where
  "maxKey acc key = (case acc of None \<Rightarrow> Some key | Some k \<Rightarrow> if key > k then Some key else acc)"

definition lastOrderKeyInLayer :: "layout \<Rightarrow> string \<Rightarrow> string option" where
  "lastOrderKeyInLayer layout layerId =
     fold (\<lambda>entry acc. if e_layerId entry \<noteq> layerId \<or> \<not> truthyStr (e_orderKey entry) then acc
                         else maxKey acc (the (e_orderKey entry)))
       (map snd (lay_assignments layout)) None"

text \<open>\<open>layout.assignments[id]?.orderKey\<close>, with a missing or empty key as \<open>None\<close>.\<close>

definition orderKeyOf :: "layout \<Rightarrow> string \<Rightarrow> string option" where
  "orderKeyOf layout urn =
     (case map_of (lay_assignments layout) urn of
        None \<Rightarrow> None
      | Some e \<Rightarrow> if truthyStr (e_orderKey e) then e_orderKey e else None)"

definition seedEntry :: "string \<Rightarrow> string \<Rightarrow> string \<Rightarrow> entry option \<Rightarrow> entry" where
  "seedEntry layerId now key prev =
     (case prev of
        Some p \<Rightarrow> p\<lparr>e_orderKey := Some key\<rparr>
      | None \<Rightarrow> \<lparr>e_layerId = layerId, e_logicalNodeId = None, e_inheritsChildren = True,
                 e_assignedBy = Some ByUser, e_assignedAt = Some now, e_orderKey = Some key\<rparr>)"

definition ensureSiblingOrderKeys :: "layout \<Rightarrow> string \<Rightarrow> string list \<Rightarrow> string \<Rightarrow> layout" where
  "ensureSiblingOrderKeys layout layerId siblingIds now =
     (let toSeed = filter (\<lambda>i. orderKeyOf layout i = None) siblingIds
      in if toSeed = [] then layout
         else
           let last = fold (\<lambda>i acc. case orderKeyOf layout i of None \<Rightarrow> acc | Some k \<Rightarrow> maxKey acc k)
                        siblingIds None
           in case generateNKeysBetween last None (length toSeed) of
                Inl _ \<Rightarrow> layout
              | Inr keys \<Rightarrow>
                  layout\<lparr>lay_assignments :=
                    fold (\<lambda>(i, k) m. AList.update i (seedEntry layerId now k (map_of m i)) m)
                      (zip toSeed keys) (lay_assignments layout)\<rparr>)"

text \<open>An index outside the list reads \<open>undefined\<close>, which as a property name is the string
  \<open>undefined\<close>.\<close>

definition idAt :: "string list \<Rightarrow> int \<Rightarrow> string" where
  "idAt order i = (if 0 \<le> i \<and> i < int (length order) then order ! nat i else ''undefined'')"

fun firstKey :: "layout \<Rightarrow> string list \<Rightarrow> string option" where
  "firstKey layout [] = None"
| "firstKey layout (i # ids) =
     (case orderKeyOf layout i of Some k \<Rightarrow> Some k | None \<Rightarrow> firstKey layout ids)"

definition keysForInsertion ::
    "layout \<Rightarrow> string \<Rightarrow> string list \<Rightarrow> int \<Rightarrow> nat \<Rightarrow> string list option" where
  "keysForInsertion layout layerId order insertIdx n =
     (let prevKey = firstKey layout (map (idAt order) (rev [0..insertIdx - 1]));
          nextKey = firstKey layout (map (idAt order) [insertIdx..int (length order) - 1]);
          prevKey' = (if prevKey = None \<and> nextKey = None
                      then lastOrderKeyInLayer layout layerId else prevKey)
      in case generateNKeysBetween prevKey' nextKey n of
           Inl _ \<Rightarrow> None
         | Inr keys \<Rightarrow> Some keys)"

definition keyForInsertion :: "layout \<Rightarrow> string \<Rightarrow> string list \<Rightarrow> int \<Rightarrow> string option" where
  "keyForInsertion layout layerId order insertIdx =
     map_option hd (keysForInsertion layout layerId order insertIdx 1)"

definition unassignEntities :: "layout \<Rightarrow> string list \<Rightarrow> layout" where
  "unassignEntities layout urns = layout\<lparr>lay_assignments := delAll urns (lay_assignments layout)\<rparr>"

definition TEMP_URN_PREFIX :: string where
  "TEMP_URN_PREFIX = ''urn:staged:''"

definition isTempUrn :: "string \<Rightarrow> bool" where
  "isTempUrn urn = prefix TEMP_URN_PREFIX urn"

definition pruneTempAssignments :: "layout \<Rightarrow> layout" where
  "pruneTempAssignments layout =
     (let tempKeys = filter isTempUrn (map fst (lay_assignments layout))
      in if tempKeys = [] then layout
         else layout\<lparr>lay_assignments := delAll tempKeys (lay_assignments layout)\<rparr>)"

text \<open>The copy is made at the first re-keyed URN; whether a URN is assigned is read from the
  original layout, its entry from the copy. The keys of \<open>ids\<close> are distinct, so the copy still
  has it.\<close>

definition remapAssignmentUrns :: "layout \<Rightarrow> (string \<times> string) list \<Rightarrow> layout" where
  "remapAssignmentUrns layout ids =
     (let step = (\<lambda>(oldUrn, newUrn) acc.
            if oldUrn = newUrn \<or> map_of (lay_assignments layout) oldUrn = None then acc
            else
              let m = (case acc of None \<Rightarrow> lay_assignments layout | Some m \<Rightarrow> m)
              in case map_of m oldUrn of
                   None \<Rightarrow> Some (AList.delete oldUrn m)
                 | Some e \<Rightarrow> Some (AList.delete oldUrn (AList.update newUrn e m)))
      in case fold step ids None of
           None \<Rightarrow> layout
         | Some m \<Rightarrow> layout\<lparr>lay_assignments := m\<rparr>)"

definition releaseGroupMembers :: "layout \<Rightarrow> string list \<Rightarrow> layout" where
  "releaseGroupMembers layout groupIds =
     (let member = (\<lambda>e. truthyStr (e_logicalNodeId e) \<and> the (e_logicalNodeId e) \<in> set groupIds)
      in if list_ex (\<lambda>(u, e). member e) (lay_assignments layout)
         then layout\<lparr>lay_assignments :=
           map (\<lambda>(u, e). (u, if member e then e\<lparr>e_logicalNodeId := None\<rparr> else e)) (lay_assignments layout)\<rparr>
         else layout)"

definition reassignGroupMembers :: "layout \<Rightarrow> string list \<Rightarrow> string option \<Rightarrow> layout" where
  "reassignGroupMembers layout fromIds toId =
     (case toId of
        None \<Rightarrow> releaseGroupMembers layout fromIds
      | Some t \<Rightarrow>
          (let member = (\<lambda>e. truthyStr (e_logicalNodeId e) \<and> the (e_logicalNodeId e) \<in> set fromIds \<and>
                             the (e_logicalNodeId e) \<noteq> t)
           in if list_ex (\<lambda>(u, e). member e) (lay_assignments layout)
              then layout\<lparr>lay_assignments :=
                map (\<lambda>(u, e). (u, if member e then e\<lparr>e_logicalNodeId := Some t\<rparr> else e)) (lay_assignments layout)\<rparr>
              else layout))"

section \<open>Position keys\<close>

text \<open>The largest key met so far.\<close>

lemma fold_some_keys:
  "fold (\<lambda>x acc. case f x of None \<Rightarrow> acc | Some k \<Rightarrow> maxKey acc k) xs a =
     fold (\<lambda>k acc. maxKey acc k) (map (\<lambda>x. the (f x)) (filter (\<lambda>x. f x \<noteq> None) xs)) a"
  by (induction xs arbitrary: a) (auto split: option.splits)

lemma fold_maxKey_Some: "fold (\<lambda>k acc. maxKey acc k) ks (Some b) = Some (fold max ks b)"
  by (induction ks arbitrary: b) (auto simp: maxKey_def max_def)

lemma fold_maxKey: "fold (\<lambda>k acc. maxKey acc k) ks None = (if ks = [] then None else Some (Max (set ks)))"
proof (cases ks)
  case (Cons k ks')
  moreover have "maxKey None k = Some k" by (simp add: maxKey_def)
  ultimately have "fold (\<lambda>k acc. maxKey acc k) ks None = Some (fold max ks' k)"
    by (simp add: fold_maxKey_Some)
  then show ?thesis using Cons Max.set_eq_fold [of k ks'] by simp
qed simp

definition keysAlong :: "layout \<Rightarrow> string list \<Rightarrow> string list" where
  "keysAlong L ids = map (\<lambda>i. the (orderKeyOf L i)) (filter (\<lambda>i. orderKeyOf L i \<noteq> None) ids)"

lemma keysAlong_append [simp]: "keysAlong L (xs @ ys) = keysAlong L xs @ keysAlong L ys"
  by (simp add: keysAlong_def)

lemma keysAlong_rev: "keysAlong L (rev xs) = rev (keysAlong L xs)"
  by (simp add: keysAlong_def rev_map rev_filter)

lemma firstKey_keysAlong: "firstKey L ids = (case keysAlong L ids of [] \<Rightarrow> None | k # _ \<Rightarrow> Some k)"
  by (induction ids) (auto simp: keysAlong_def split: option.splits)

lemma idAt_upto:
  assumes "0 \<le> i" "i \<le> int (length xs)"
  shows "map (idAt xs) (rev [0..i - 1]) = rev (take (nat i) xs)"
    "map (idAt xs) [i..int (length xs) - 1] = drop (nat i) xs"
proof -
  have "map (idAt xs) [0..i - 1] = take (nat i) xs"
    using assms by (intro nth_equalityI) (auto simp: idAt_def)
  then show "map (idAt xs) (rev [0..i - 1]) = rev (take (nat i) xs)" by (simp add: rev_map [symmetric])
  show "map (idAt xs) [i..int (length xs) - 1] = drop (nat i) xs"
    using assms by (intro nth_equalityI) (auto simp: idAt_def nat_add_distrib)
qed

definition layerPositions :: "layout \<Rightarrow> string \<Rightarrow> string list" where
  "layerPositions L layerId =
     map (\<lambda>e. the (e_orderKey e)) (filter (\<lambda>e. e_layerId e = layerId \<and> truthyStr (e_orderKey e))
       (map snd (lay_assignments L)))"

lemma fold_layer_keys:
  "fold (\<lambda>e acc. if e_layerId e \<noteq> i \<or> \<not> truthyStr (e_orderKey e) then acc else maxKey acc (the (e_orderKey e))) es a =
     fold (\<lambda>k acc. maxKey acc k)
       (map (\<lambda>e. the (e_orderKey e)) (filter (\<lambda>e. e_layerId e = i \<and> truthyStr (e_orderKey e)) es)) a"
  by (induction es arbitrary: a) auto

lemma lastOrderKeyInLayer_Max:
  "lastOrderKeyInLayer L i = (if layerPositions L i = [] then None else Some (Max (set (layerPositions L i))))"
  unfolding lastOrderKeyInLayer_def fold_layer_keys fold_maxKey layerPositions_def [symmetric] by (rule refl)

text \<open>Where the two outward walks of an insertion stop.\<close>

lemma keysForInsertion_bounds:
  assumes "0 \<le> i" "i \<le> int (length order)"
    and xs_def: "xs = keysAlong L (take (nat i) order)" and ys_def: "ys = keysAlong L (drop (nat i) order)"
  shows "keysForInsertion L layerId order i n =
    (case generateNKeysBetween
        (if xs = [] then (if ys = [] then lastOrderKeyInLayer L layerId else None) else Some (last xs))
        (if ys = [] then None else Some (hd ys)) n of
       Inl _ \<Rightarrow> None | Inr ks \<Rightarrow> Some ks)"
proof -
  have "firstKey L (map (idAt order) (rev [0..i - 1])) = (if xs = [] then None else Some (last xs))"
    unfolding xs_def idAt_upto [OF assms(1,2)] firstKey_keysAlong keysAlong_rev
    by (cases "keysAlong L (take (nat i) order)" rule: rev_cases) auto
  moreover have "firstKey L (map (idAt order) [i..int (length order) - 1]) = (if ys = [] then None else Some (hd ys))"
    unfolding ys_def idAt_upto [OF assms(1,2)] firstKey_keysAlong by (auto split: list.splits)
  ultimately show ?thesis unfolding keysForInsertion_def Let_def by simp
qed

lemma insertion_in_place:
  assumes "0 \<le> i" "i \<le> int (length order)"
    and sorted: "sorted_wrt (<) (keysAlong L order)" and valid: "\<forall>k \<in> set (keysAlong L order). validKey k"
    and layer: "\<forall>k \<in> set (layerPositions L layerId). validKey k"
    and inner: "keysAlong L (take (nat i) order) \<noteq> [] \<or> keysAlong L (drop (nat i) order) = []"
  shows "\<exists>ks. keysForInsertion L layerId order i n = Some ks \<and> length ks = n \<and>
    (\<forall>k \<in> set ks. validKey k) \<and>
    sorted_wrt (<) (keysAlong L (take (nat i) order) @ ks @ keysAlong L (drop (nat i) order)) \<and>
    (keysAlong L order = [] \<longrightarrow> (\<forall>p \<in> set (layerPositions L layerId). \<forall>k \<in> set ks. p < k))"
proof -
  define xs ys where xy: "xs = keysAlong L (take (nat i) order)" "ys = keysAlong L (drop (nat i) order)"
  have all: "keysAlong L order = xs @ ys" unfolding xy by (metis append_take_drop_id keysAlong_append)
  note bounds = keysForInsertion_bounds [OF assms(1,2) xy, of layerId n]
  consider (none) "xs = []" "ys = []" | (tail) "xs \<noteq> []" "ys = []"
    | (mid) as x y bs where "xs = as @ [x]" "ys = y # bs"
    using inner unfolding xy [symmetric] by (metis list.exhaust rev_exhaust)
  then show ?thesis
  proof cases
    case none
    let ?a = "lastOrderKeyInLayer L layerId"
    have "validKey x" if "?a = Some x" for x
      using that layer Max_in [of "set (layerPositions L layerId)"]
      by (auto simp: lastOrderKeyInLayer_Max split: if_splits)
    then obtain ks where ks: "generateNKeysBetween ?a None n = Inr ks" "length ks = n" "sorted_wrt (<) ks"
        "\<forall>k \<in> set ks. validKey k \<and> (\<forall>x. ?a = Some x \<longrightarrow> x < k)"
      using orderKeys.nkeys_above [of ?a n] by blast
    have "p < k" if "p \<in> set (layerPositions L layerId)" "k \<in> set ks" for p k
    proof -
      have "p \<le> Max (set (layerPositions L layerId))" using that(1) by simp
      moreover have "Max (set (layerPositions L layerId)) < k"
        using that ks(4) by (cases "layerPositions L layerId = []") (auto simp: lastOrderKeyInLayer_Max)
      ultimately show ?thesis by order
    qed
    then show ?thesis using none ks bounds unfolding xy [symmetric] by simp
  next
    case tail
    then show ?thesis
      using orderKeys.append_run [of xs n] bounds sorted valid unfolding xy [symmetric] all by auto
  next
    case (mid as x y bs)
    then show ?thesis
      using orderKeys.insert_run [of as x y bs n] bounds sorted valid unfolding xy [symmetric] all by auto
  qed
qed

text \<open>
  Dropping a block of entities between siblings mints as many keys as it holds, and the keys
  of the siblings before the drop, the new keys and the keys of the siblings after it are strictly
  ascending; when no sibling is keyed the new keys come after every key of the layer. (A drop
  in front of every keyed sibling is the next property.)
\<close>

lemma insertion_lands_in_place:
  assumes "0 \<le> i" "i \<le> int (length order)"
    and sorted: "sorted_wrt (<) (keysAlong L order)" and valid: "\<forall>k \<in> set (keysAlong L order). validKey k"
    and layer: "\<forall>k \<in> set (layerPositions L layerId). validKey k"
    and inner: "keysAlong L (take (nat i) order) \<noteq> [] \<or> keysAlong L (drop (nat i) order) = []"
  shows "\<exists>ks. keysForInsertion L layerId order i n = Some ks \<and> length ks = n \<and>
    (\<forall>k \<in> set ks. validKey k) \<and>
    sorted_wrt (<) (keysAlong L (take (nat i) order) @ ks @ keysAlong L (drop (nat i) order)) \<and>
    (keysAlong L order = [] \<longrightarrow> (\<forall>p \<in> set (layerPositions L layerId). \<forall>k \<in> set ks. p < k))"
  using assms by (rule insertion_in_place)

definition sampleEntry :: "string \<Rightarrow> string option \<Rightarrow> string option \<Rightarrow> entry" where
  "sampleEntry layerId grp key = \<lparr>e_layerId = layerId, e_logicalNodeId = grp, e_inheritsChildren = True,
     e_assignedBy = Some ByUser, e_assignedAt = None, e_orderKey = key\<rparr>"

definition samplePlaced :: layout where
  "samplePlaced = \<lparr>lay_layers = [sampleLayer ''L'' 0],
     lay_assignments = [(''x'', sampleEntry ''L'' None (Some ''a0'')), (''y'', sampleEntry ''L'' None None),
       (''z'', sampleEntry ''L'' None (Some ''a1''))], lay_defaultNodeSortMode = None\<rparr>"

text \<open>
  A single drop always gets a key, also in front of every keyed sibling, and the siblings
  stay strictly ascending with it in place.
\<close>

lemma drop_gets_a_key_in_place:
  assumes "0 \<le> i" "i \<le> int (length order)"
    and sorted: "sorted_wrt (<) (keysAlong L order)" and valid: "\<forall>k \<in> set (keysAlong L order). validKey k"
    and layer: "\<forall>k \<in> set (layerPositions L layerId). validKey k"
  shows "\<exists>k. keyForInsertion L layerId order i = Some k \<and>
    sorted_wrt (<) (keysAlong L (take (nat i) order) @ k # keysAlong L (drop (nat i) order))"
proof (cases "keysAlong L (take (nat i) order) \<noteq> [] \<or> keysAlong L (drop (nat i) order) = []")
  case True
  obtain ks where "keysForInsertion L layerId order i 1 = Some ks" "length ks = 1"
      "sorted_wrt (<) (keysAlong L (take (nat i) order) @ ks @ keysAlong L (drop (nat i) order))"
    using insertion_in_place [OF assms True] by blast
  then show ?thesis by (cases ks) (auto simp: keyForInsertion_def)
next
  case False
  define ys where ys: "ys = keysAlong L (drop (nat i) order)"
  have xs: "keysAlong L (take (nat i) order) = []" using False by simp
  then have all: "keysAlong L order = ys" unfolding ys by (metis append_Nil append_take_drop_id keysAlong_append)
  obtain y zs where y: "ys = y # zs" using False ys by (metis neq_Nil_conv)
  then have vy: "validKey y" using valid all by simp
  obtain k where k: "generateKeyBetween None (Some y) = Inr k" "k < y"
    using generateKeyBetween_before [OF vy] by blast
  have "keyForInsertion L layerId order i = Some k"
    using keysForInsertion_bounds [OF assms(1,2) xs [symmetric] ys, of layerId 1] y k
    by (simp add: keyForInsertion_def)
  moreover have "sorted_wrt (<) (k # ys)" using sorted k(2) y unfolding all by auto
  ultimately show ?thesis using xs ys by auto
qed

section \<open>Seeding position keys\<close>

lemma map_of_seedAll:
  "distinct (map fst ps) \<Longrightarrow>
     map_of (fold (\<lambda>(i, k) m. AList.update i (g k (map_of m i)) m) ps m) u =
       (case map_of ps u of None \<Rightarrow> map_of m u | Some k \<Rightarrow> Some (g k (map_of m u)))"
proof (induction ps arbitrary: m)
  case (Cons p ps)
  obtain i k where p: "p = (i, k)" by fastforce
  then have "map_of ps i = None" using Cons.prems by (simp add: map_of_eq_None_iff)
  then show ?case using Cons p by (auto simp: update_conv' split: option.splits)
qed simp

lemma map_of_stamp:
  "distinct (map fst ps) \<Longrightarrow>
     map_of (stampOrderKeys ps m) u =
       (case map_of ps u of
          None \<Rightarrow> map_of m u | Some k \<Rightarrow> map_option (\<lambda>e. e\<lparr>e_orderKey := Some k\<rparr>) (map_of m u))"
proof (induction ps arbitrary: m)
  case (Cons p ps)
  obtain i k where p: "p = (i, k)" by fastforce
  then have "map_of ps i = None" using Cons.prems by (simp add: map_of_eq_None_iff)
  then show ?case using Cons p
    by (auto simp: stampOrderKeys_def update_conv' split: option.splits)
qed (simp add: stampOrderKeys_def)

text \<open>Keys given one by one to a list of entities come back in that order.\<close>

lemma zip_keys_ascending:
  assumes "distinct xs" "length ks = length xs" "sorted_wrt (<) ks"
    and "\<And>x k. map_of (zip xs ks) x = Some k \<Longrightarrow> pos x = k"
  shows "sorted_wrt (\<lambda>x y. pos x < pos y) xs" "pos ` set xs = set ks"
proof -
  have nth: "pos (xs ! i) = ks ! i" if "i < length xs" for i
    using assms that by (metis map_of_zip_nth)
  then show "sorted_wrt (\<lambda>x y. pos x < pos y) xs"
    using assms(2,3) by (auto simp: sorted_wrt_iff_nth_less)
  have "map pos xs = ks" using nth assms(2) by (intro nth_equalityI) auto
  then show "pos ` set xs = set ks" by (metis list.set_map)
qed

lemma keys_never_empty: "validKey k \<Longrightarrow> k \<noteq> []"
  by (auto simp: validKey_def) (auto simp: validateOrderKey_def SMALLEST_INTEGER_def getIntegerPart_def getIntegerLength_def charAt_def)

text \<open>
  Making a set of siblings orderable gives a key to every one of them; the siblings that had
  a key and every other entity keep their entry; the new keys ascend in the siblings' visual order
  and come after all the old keys.
\<close>

lemma seeding_keys_every_sibling:
  assumes "distinct ids" and valid: "\<forall>k \<in> set (keysAlong L ids). validKey k"
    and L'_def: "L' = ensureSiblingOrderKeys L layerId ids now"
  shows "(\<forall>i \<in> set ids. orderKeyOf L' i \<noteq> None) \<and>
    (\<forall>u. u \<notin> set ids \<or> orderKeyOf L u \<noteq> None \<longrightarrow>
       map_of (lay_assignments L') u = map_of (lay_assignments L) u) \<and>
    sorted_wrt (\<lambda>x y. the (orderKeyOf L' x) < the (orderKeyOf L' y)) (filter (\<lambda>i. orderKeyOf L i = None) ids) \<and>
    (\<forall>x \<in> set ids. \<forall>y \<in> set ids. orderKeyOf L x \<noteq> None \<and> orderKeyOf L y = None \<longrightarrow>
       the (orderKeyOf L' x) < the (orderKeyOf L' y))"
proof (cases "filter (\<lambda>i. orderKeyOf L i = None) ids = []")
  case True
  then have "L' = L" by (simp add: L'_def ensureSiblingOrderKeys_def)
  then show ?thesis using True by (auto simp: filter_empty_conv)
next
  case False
  let ?seed = "filter (\<lambda>i. orderKeyOf L i = None) ids" and ?old = "keysAlong L ids"
  let ?last = "if ?old = [] then None else Some (Max (set ?old))"
  have "validKey x" if "?last = Some x" for x using that valid Max_in [of "set ?old"] by (auto split: if_splits)
  then obtain ks where ks: "generateNKeysBetween ?last None (length ?seed) = Inr ks" "length ks = length ?seed"
      "sorted_wrt (<) ks" "\<forall>k \<in> set ks. validKey k \<and> (\<forall>x. ?last = Some x \<longrightarrow> x < k)"
    using orderKeys.nkeys_above [of ?last "length ?seed"] by blast
  have last: "fold (\<lambda>i acc. case orderKeyOf L i of None \<Rightarrow> acc | Some k \<Rightarrow> maxKey acc k) ids None = ?last"
    unfolding fold_some_keys fold_maxKey keysAlong_def ..
  have L': "lay_assignments L' = fold (\<lambda>(i, k) m. AList.update i (seedEntry layerId now k (map_of m i)) m)
      (zip ?seed ks) (lay_assignments L)"
    using False unfolding L'_def ensureSiblingOrderKeys_def Let_def last ks(1) by simp
  have dist: "distinct (map fst (zip ?seed ks))" using assms(1) ks(2) by simp
  note look = map_of_seedAll [OF dist, of "seedEntry layerId now" "lay_assignments L", folded L']
  have keep: "map_of (lay_assignments L') u = map_of (lay_assignments L) u" if "u \<notin> set ?seed" for u
  proof -
    have "map_of (zip ?seed ks) u = None" using that ks(2) map_of_zip_is_None [of ?seed ks u] by simp
    then show ?thesis by (simp add: look)
  qed
  have new: "orderKeyOf L' x = Some k" if k: "map_of (zip ?seed ks) x = Some k" for x k
  proof -
    have "validKey k" using ks(4) map_of_SomeD [OF k] by (auto dest: set_zip_rightD)
    then show ?thesis using keys_never_empty k
      by (simp add: orderKeyOf_def look seedEntry_def split: option.split)
  qed
  have asc: "sorted_wrt (\<lambda>x y. the (orderKeyOf L' x) < the (orderKeyOf L' y)) ?seed"
      "(\<lambda>x. the (orderKeyOf L' x)) ` set ?seed = set ks"
    using zip_keys_ascending [of ?seed ks "\<lambda>x. the (orderKeyOf L' x)"] assms(1) ks(2,3) new by auto
  have some: "orderKeyOf L' i \<noteq> None" if "i \<in> set ids" for i
  proof (cases "i \<in> set ?seed")
    case True
    then obtain k where "map_of (zip ?seed ks) i = Some k" using ks(2) by (metis map_of_zip_is_Some)
    then show ?thesis using new by simp
  next
    case False
    then show ?thesis using keep [OF False] that by (auto simp: orderKeyOf_def)
  qed
  have "the (orderKeyOf L' x) < the (orderKeyOf L' y)"
    if "x \<in> set ids" "y \<in> set ids" "orderKeyOf L x \<noteq> None" "orderKeyOf L y = None" for x y
  proof -
    have x: "the (orderKeyOf L' x) \<in> set ?old" using keep [of x] that by (auto simp: keysAlong_def orderKeyOf_def)
    then have "the (orderKeyOf L' x) \<le> Max (set ?old)" by simp
    moreover have "the (orderKeyOf L' y) \<in> set ks" using asc(2) that by auto
    then have "Max (set ?old) < the (orderKeyOf L' y)" using ks(4) x by (cases "?old = []") auto
    ultimately show ?thesis by order
  qed
  then show ?thesis using some keep asc(1) by auto
qed

text \<open>The key the layer's custom order is continued after.\<close>

lemma last_layerKeys:
  "(if layerKeys L i = [] then None else Some (last (layerKeys L i))) =
     (if layerPositions L i = [] then None else Some (Max (set (layerPositions L i))))"
proof -
  have "layerKeys L i = sort (layerPositions L i)" by (simp add: layerKeys_def layerPositions_def)
  moreover have "last (sort xs) = Max (set xs)" if "xs \<noteq> []" for xs :: "string list"
  proof (rule Max_eqI [symmetric])
    have ne: "sort xs \<noteq> []" using that by simp
    from last_in_set [OF this] show "last (sort xs) \<in> set xs" by simp
    show "y \<le> last (sort xs)" if "y \<in> set xs" for y
    proof -
      have "y \<in> set (sort xs)" "sorted (sort xs)" using that by simp_all
      then show ?thesis using ne by (cases "sort xs" rule: rev_cases) (auto simp: sorted_append)
    qed
  qed simp
  ultimately show ?thesis by (metis set_empty set_sort)
qed

text \<open>
  Switching a layer to custom order returns, keys every listed entity of the layer, with
  ascending keys in the order listed and after every key the layer already had, and touches no
  other entry.
\<close>

lemma custom_sort_seeds_in_order:
  assumes "findLayer (lay_layers L) i = Some target" "distinct order"
    and valid: "\<forall>k \<in> set (layerPositions L i). validKey k"
  shows "\<exists>L'. setLayerNodeSortMode L i (Some CustomSort) (Some order) = Inr L' \<and>
    sorted_wrt (\<lambda>x y. the (orderKeyOf L' x) < the (orderKeyOf L' y)) (filter (unkeyedIn L i) order) \<and>
    (\<forall>u \<in> set order. unkeyedIn L i u \<longrightarrow>
       orderKeyOf L' u \<noteq> None \<and> (\<forall>p \<in> set (layerPositions L i). p < the (orderKeyOf L' u))) \<and>
    (\<forall>u. u \<notin> set order \<or> \<not> unkeyedIn L i u \<longrightarrow>
       map_of (lay_assignments L') u = map_of (lay_assignments L) u)"
proof (cases "filter (unkeyedIn L i) order = []")
  case True
  then show ?thesis using assms(1) by (auto simp: setLayerNodeSortMode_def Let_def filter_empty_conv)
next
  case False
  let ?seed = "filter (unkeyedIn L i) order" and ?old = "layerPositions L i"
  let ?last = "if ?old = [] then None else Some (Max (set ?old))"
  have "validKey x" if "?last = Some x" for x using that valid Max_in [of "set ?old"] by (auto split: if_splits)
  then obtain ks where ks: "generateNKeysBetween ?last None (length ?seed) = Inr ks" "length ks = length ?seed"
      "sorted_wrt (<) ks" "\<forall>k \<in> set ks. validKey k \<and> (\<forall>x. ?last = Some x \<longrightarrow> x < k)"
    using orderKeys.nkeys_above [of ?last "length ?seed"] by blast
  obtain L' where L': "setLayerNodeSortMode L i (Some CustomSort) (Some order) = Inr L'"
      "lay_assignments L' = stampOrderKeys (zip ?seed ks) (lay_assignments L)"
    using assms(1) False unfolding setLayerNodeSortMode_def Let_def last_layerKeys option.case ks(1) by simp
  have dist: "distinct (map fst (zip ?seed ks))" using assms(2) ks(2) by simp
  note look = map_of_stamp [OF dist, of "lay_assignments L", folded L'(2)]
  have new: "orderKeyOf L' x = Some k" if k: "map_of (zip ?seed ks) x = Some k" for x k
  proof -
    have "validKey k" "unkeyedIn L i x"
      using ks(4) map_of_SomeD [OF k] by (auto dest: set_zip_rightD set_zip_leftD)
    then show ?thesis using keys_never_empty k
      by (auto simp: orderKeyOf_def look unkeyedIn_def split: option.splits)
  qed
  have asc: "sorted_wrt (\<lambda>x y. the (orderKeyOf L' x) < the (orderKeyOf L' y)) ?seed"
      "(\<lambda>x. the (orderKeyOf L' x)) ` set ?seed = set ks"
    using zip_keys_ascending [of ?seed ks "\<lambda>x. the (orderKeyOf L' x)"] assms(2) ks(2,3) new by auto
  have "orderKeyOf L' u \<noteq> None" if "u \<in> set ?seed" for u
    using that ks(2) new by (metis map_of_zip_is_Some option.distinct(1))
  moreover have "p < the (orderKeyOf L' u)" if "u \<in> set ?seed" "p \<in> set ?old" for u p
  proof -
    have "p \<le> Max (set ?old)" using that(2) by simp
    moreover have "the (orderKeyOf L' u) \<in> set ks" using asc(2) that(1) by auto
    then have "Max (set ?old) < the (orderKeyOf L' u)" using ks(4) that(2) by (cases "?old = []") auto
    ultimately show ?thesis by order
  qed
  moreover have "map_of (lay_assignments L') u = map_of (lay_assignments L) u" if "u \<notin> set ?seed" for u
  proof -
    have "map_of (zip ?seed ks) u = None" using that ks(2) map_of_zip_is_None [of ?seed ks u] by simp
    then show ?thesis by (simp add: look)
  qed
  ultimately show ?thesis using L'(1) asc(1) by auto
qed

section \<open>Temporary URNs\<close>

text \<open>One pass over the ids of a save, as a plain fold on the assignments.\<close>

definition rekey :: "(string \<times> string) list \<Rightarrow> assignments \<Rightarrow> assignments" where
  "rekey ids m = fold (\<lambda>(u, v) m. if u = v then m else
     case map_of m u of None \<Rightarrow> m | Some e \<Rightarrow> AList.delete u (AList.update v e m)) ids m"

lemma rekey_simps [simp]:
  "rekey [] m = m"
  "rekey ((u, v) # ids) m = rekey ids (if u = v then m else
     case map_of m u of None \<Rightarrow> m | Some e \<Rightarrow> AList.delete u (AList.update v e m))"
  by (simp_all add: rekey_def)

lemma map_of_rekey:
  assumes "distinct (map fst ids)" "distinct (map snd ids)" "fst ` set ids \<inter> snd ` set ids = {}"
  shows "map_of (rekey ids m) x =
    (if x \<in> fst ` set ids then None
     else case map_of (map prod.swap ids) x of
       None \<Rightarrow> map_of m x
     | Some old \<Rightarrow> (case map_of m old of None \<Rightarrow> map_of m x | Some e \<Rightarrow> Some e))"
  using assms
proof (induction ids arbitrary: m)
  case (Cons p ids)
  obtain u v where p: "p = (u, v)" by fastforce
  let ?m = "if u = v then m else case map_of m u of None \<Rightarrow> m | Some e \<Rightarrow> AList.delete u (AList.update v e m)"
  have fresh: "u \<noteq> v" "u \<notin> fst ` set ids" "v \<notin> snd ` set ids" "v \<notin> fst ` set ids" "u \<notin> snd ` set ids"
    using Cons.prems p by auto
  have IH: "map_of (rekey ids ?m) x =
    (if x \<in> fst ` set ids then None
     else case map_of (map prod.swap ids) x of
       None \<Rightarrow> map_of ?m x
     | Some old \<Rightarrow> (case map_of ?m old of None \<Rightarrow> map_of ?m x | Some e \<Rightarrow> Some e))"
    using Cons.prems p by (intro Cons.IH) auto
  have look: "map_of ?m y = (if y = u then None else if y = v \<and> map_of m u \<noteq> None then map_of m u else map_of m y)" for y
    using fresh(1) by (auto simp: update_conv' delete_conv' split: option.splits)
  have uv: "map_of (map prod.swap ids) u = None" "map_of (map prod.swap ids) v = None"
    using fresh by (auto simp: map_of_eq_None_iff image_iff)
  have old: "old \<noteq> u \<and> old \<noteq> v" if "map_of (map prod.swap ids) x = Some old" for old
    using map_of_SomeD [OF that] fresh by force
  show ?case
    unfolding p rekey_simps IH look
    using uv old fresh by (auto split: option.splits)
qed simp

lemma remap_rekey:
  assumes "distinct (map fst ids)" "fst ` set ids \<inter> snd ` set ids = {}"
  shows "remapAssignmentUrns L ids = L\<lparr>lay_assignments := rekey ids (lay_assignments L)\<rparr>"
proof -
  let ?o = "lay_assignments L"
  let ?step = "\<lambda>(u, v) acc.
     if u = v \<or> map_of ?o u = None then acc
     else let m = (case acc of None \<Rightarrow> ?o | Some m \<Rightarrow> m)
       in case map_of m u of None \<Rightarrow> Some (AList.delete u m) | Some e \<Rightarrow> Some (AList.delete u (AList.update v e m))"
  let ?cur = "\<lambda>acc. case acc of None \<Rightarrow> ?o | Some m \<Rightarrow> m"
  have "?cur (fold ?step ids acc) = rekey ids (?cur acc)"
    if "\<forall>u \<in> fst ` set ids. map_of (?cur acc) u = map_of ?o u" for acc
    using assms that
  proof (induction ids arbitrary: acc)
    case (Cons p ids)
    obtain u v where p: "p = (u, v)" by fastforce
    have cur: "?cur (?step p acc) = (if u = v then ?cur acc else
        case map_of (?cur acc) u of None \<Rightarrow> ?cur acc | Some e \<Rightarrow> AList.delete u (AList.update v e (?cur acc)))"
      using Cons.prems(3) p by (auto simp: Let_def split: option.splits)
    have "map_of (?cur (?step p acc)) w = map_of ?o w" if "w \<in> fst ` set ids" for w
      using that Cons.prems p unfolding cur by (auto simp: update_conv' delete_conv' split: option.splits)
    then have "?cur (fold ?step ids (?step p acc)) = rekey ids (?cur (?step p acc))"
      using Cons.prems by (intro Cons.IH) auto
    moreover have "rekey ids (?cur (?step p acc)) = rekey (p # ids) (?cur acc)"
      unfolding cur unfolding p rekey_simps ..
    ultimately show ?case by (simp only: fold_simps)
  qed simp
  from this [of None] show ?thesis
    unfolding remapAssignmentUrns_def Let_def by (auto split: option.splits)
qed

lemma map_of_prune:
  "map_of (lay_assignments (pruneTempAssignments L)) u =
     (if isTempUrn u then None else map_of (lay_assignments L) u)"
proof (cases "filter isTempUrn (map fst (lay_assignments L)) = []")
  case True
  then have "map_of (lay_assignments L) u = None" if "isTempUrn u"
    using that by (auto simp: filter_empty_conv map_of_eq_None_iff)
  then show ?thesis using True by (simp add: pruneTempAssignments_def)
next
  case False
  have "u \<in> set (filter isTempUrn (map fst (lay_assignments L))) \<longleftrightarrow>
      isTempUrn u \<and> map_of (lay_assignments L) u \<noteq> None"
    by (auto simp: map_of_eq_None_iff)
  then show ?thesis using False by (auto simp: pruneTempAssignments_def map_of_delAll)
qed

text \<open>
  Saving replaces temporary URNs by real ones and then drops what is left on a temporary URN:
  afterwards no assignment has a temporary URN, each created entity's assignment is found
  under its real URN unchanged, and every other assignment is as it was.
\<close>

lemma save_rekeys_assignments:
  assumes "distinct (map fst ids)" "distinct (map snd ids)"
    "\<forall>(u, v) \<in> set ids. isTempUrn u \<and> \<not> isTempUrn v"
  shows "map_of (lay_assignments (pruneTempAssignments (remapAssignmentUrns L ids))) x =
    (if isTempUrn x then None
     else case map_of (map prod.swap ids) x of
       None \<Rightarrow> map_of (lay_assignments L) x
     | Some old \<Rightarrow> (case map_of (lay_assignments L) old of
                       None \<Rightarrow> map_of (lay_assignments L) x | Some e \<Rightarrow> Some e))"
proof -
  have temp: "isTempUrn u" if "u \<in> fst ` set ids" for u using that assms(3) by auto
  have real: "\<not> isTempUrn v" if "v \<in> snd ` set ids" for v using that assms(3) by auto
  have disj: "fst ` set ids \<inter> snd ` set ids = {}" using temp real by blast
  have "x \<notin> fst ` set ids" if "\<not> isTempUrn x" using that temp by blast
  then show ?thesis
    using map_of_rekey [OF assms(1,2) disj, of "lay_assignments L" x]
    by (simp add: map_of_prune remap_rekey [OF assms(1) disj])
qed

end
