(* ===== verification/Logical_Nodes.thy ===== *)
theory Logical_Nodes
  imports Group_Moves Assignment_Mutations
begin

text \<open>
  \<^verbatim>\<open>hooks/useLogicalNodes.ts\<close>: the group handlers of the view wizard. Each composes a tree edit
  of \<open>Layer_Mutations\<close> with the matching edit of the assignments of
  \<open>Assignment_Mutations\<close>, so that the layout as a whole stays consistent: this is the contract
  the file's header states, and the invariant \<open>layoutOk\<close> below. A handler returns the layout
  it commits (the same layout when it commits nothing), and \<open>None\<close> if a tree edit did not return.
  \<open>generateId\<close> is the parameter \<open>newId\<close>.
\<close>

section \<open>Handlers\<close>

abbreviation withLayers :: "layout \<Rightarrow> view_layer list \<Rightarrow> layout" where
  "withLayers layout layers \<equiv> layout\<lparr>lay_layers := layers\<rparr>"

definition addNode :: "layout \<Rightarrow> string \<Rightarrow> string \<Rightarrow> string \<Rightarrow> string option \<Rightarrow> (group \<times> layout) option" where
  "addNode layout newId layerId name parentId =
     (let trimmed = jsTrim name;
          node = Group newId (if trimmed = [] then ''New Group'' else trimmed) None GroupType (Some []) JUndefined None
      in map_option (\<lambda>ls. (node, withLayers layout ls)) (addGroup (lay_layers layout) layerId node parentId))"

definition renameNode :: "layout \<Rightarrow> string \<Rightarrow> string \<Rightarrow> string \<Rightarrow> layout option" where
  "renameNode layout layerId nodeId name =
     (let trimmed = jsTrim name
      in if trimmed = [] then Some layout
         else map_option (withLayers layout) (renameGroup (lay_layers layout) layerId nodeId trimmed))"

definition deleteNode :: "layout \<Rightarrow> string \<Rightarrow> string \<Rightarrow> layout option" where
  "deleteNode layout layerId nodeId =
     (let removed = groupSubtreeIds (lay_layers layout) layerId nodeId
      in map_option (\<lambda>ls. releaseGroupMembers (withLayers layout ls) removed)
           (removeGroup (lay_layers layout) layerId nodeId))"

definition moveNode :: "layout \<Rightarrow> string \<Rightarrow> string \<Rightarrow> string option \<Rightarrow> layout option" where
  "moveNode layout layerId nodeId newParentId =
     map_option (withLayers layout) (moveGroup (lay_layers layout) layerId nodeId newParentId)"

text \<open>The value a move returns to its caller: the clashing name when nothing changed.\<close>

definition moveNodeToLayer ::
    "layout \<Rightarrow> string \<Rightarrow> string \<Rightarrow> string \<Rightarrow> string option \<Rightarrow> (layout \<times> string option) option" where
  "moveNodeToLayer layout fromLayerId nodeId toLayerId newParentId =
     map_option (\<lambda>next.
       if next \<noteq> layout then (next, None)
       else
         let name = map_option (\<lambda>(i, n, p). n)
               (find (\<lambda>(i, n, p). i = nodeId) (listGroups (lay_layers layout) fromLayerId))
         in (layout, if truthyStr name
                     then groupNameClash (lay_layers layout) toLayerId newParentId [the name] [nodeId]
                     else None))
       (moveGroupToLayer layout fromLayerId nodeId toLayerId newParentId)"

definition layerChoices :: "layout \<Rightarrow> (string \<times> string \<times> (string \<times> string \<times> string list) list) list" where
  "layerChoices layout =
     map (\<lambda>l. (vl_id l, vl_name l, listGroups (lay_layers layout) (vl_id l))) (lay_layers layout)"

definition ungroupNode :: "layout \<Rightarrow> string \<Rightarrow> string \<Rightarrow> (layout \<times> string option) option" where
  "ungroupNode layout layerId nodeId =
     (let parent = orNull (parentGroupOf (lay_layers layout) layerId nodeId);
          clash = groupNameClash (lay_layers layout) layerId parent
                    (childGroupNames (lay_layers layout) layerId nodeId) [nodeId]
      in if truthyStr clash then Some (layout, clash)
         else map_option (\<lambda>ls. (reassignGroupMembers (withLayers layout ls) [nodeId] parent, None))
                (ungroup (lay_layers layout) layerId nodeId))"

definition moveContents :: "layout \<Rightarrow> string \<Rightarrow> string \<Rightarrow> string \<Rightarrow> (layout \<times> string option) option" where
  "moveContents layout layerId fromId toId =
     (let clash = groupNameClash (lay_layers layout) layerId (Some toId)
                    (childGroupNames (lay_layers layout) layerId fromId) []
      in if truthyStr clash then Some (layout, clash)
         else map_option (\<lambda>ls. (reassignGroupMembers (withLayers layout ls) [fromId] (Some toId), None))
                (moveGroupContents (lay_layers layout) layerId fromId toId))"

definition nameTaken :: "layout \<Rightarrow> string \<Rightarrow> string \<Rightarrow> string option \<Rightarrow> string option \<Rightarrow> bool" where
  "nameTaken layout layerId name parentId exceptId =
     truthyStr (groupNameClash (lay_layers layout) layerId parentId [name]
       (if truthyStr exceptId then [the exceptId] else []))"

definition parentOf :: "layout \<Rightarrow> string \<Rightarrow> string \<Rightarrow> string option" where
  "parentOf layout layerId nodeId = orNull (parentGroupOf (lay_layers layout) layerId nodeId)"

definition setCollapsed :: "bool option \<Rightarrow> group \<Rightarrow> group" where
  "setCollapsed c g = Group (g_id g) (g_name g) (g_description g) (g_type g) (g_children g) (g_rules g) c"

fun toggle :: "string \<Rightarrow> group list \<Rightarrow> group list" where
  "toggle nodeId [] = []"
| "toggle nodeId (g # gs) =
     (let g' = (if g_id g = nodeId then setCollapsed (Some (g_collapsed g \<noteq> Some True)) g else g)
      in case g_children g of
           None \<Rightarrow> g'
         | Some _ \<Rightarrow> setChildren (Some (toggle nodeId (kids g))) g') # toggle nodeId gs"

definition toggleCollapse :: "layout \<Rightarrow> string \<Rightarrow> string \<Rightarrow> layout" where
  "toggleCollapse layout layerId nodeId =
     withLayers layout
       (map (\<lambda>l. if vl_id l = layerId
                  then l\<lparr>vl_logicalNodes :=
                    Some (toggle nodeId (case vl_logicalNodes l of None \<Rightarrow> [] | Some gs \<Rightarrow> gs))\<rparr>
                  else l) (lay_layers layout))"

definition nodesForLayer :: "layout \<Rightarrow> string \<Rightarrow> group list" where
  "nodesForLayer layout layerId =
     (case findLayer (lay_layers layout) layerId of
        None \<Rightarrow> []
      | Some l \<Rightarrow> (case vl_logicalNodes l of None \<Rightarrow> [] | Some gs \<Rightarrow> gs))"

text \<open>The path is the list of names that the code joins by a separator outside Latin-1.\<close>

definition nodePathLabel :: "layout \<Rightarrow> string \<Rightarrow> string \<Rightarrow> string list" where
  "nodePathLabel layout layerId nodeId =
     (case find (\<lambda>(i, n, p). i = nodeId) (listGroups (lay_layers layout) layerId) of
        None \<Rightarrow> []
      | Some (i, n, p) \<Rightarrow> p)"

section \<open>Consistent layouts\<close>

abbreviation idsAt :: "view_layer list \<Rightarrow> string \<Rightarrow> string set" where
  "idsAt ls j \<equiv> set (forestIds (layerGroups ls j))"

text \<open>Sibling names are unique, no group id occurs in two layers, and every assignment that
  names a group names one of its own layer.\<close>

definition layoutOk :: "layout \<Rightarrow> bool" where
  "layoutOk L \<longleftrightarrow> wfLayers (lay_layers L) \<and>
     (\<forall>i j. i \<noteq> j \<longrightarrow> idsAt (lay_layers L) i \<inter> idsAt (lay_layers L) j = {}) \<and>
     list_all (housed (lay_layers L)) (map snd (lay_assignments L))"

lemma housed_sub:
  "housed ls e \<Longrightarrow> idsAt ls (e_layerId e) \<subseteq> idsAt ls' (e_layerId e) \<Longrightarrow> housed ls' e"
  by (auto simp: housed_def)

text \<open>An edit that gives every layer the same groups as before, or more of its own.\<close>

lemma layoutOk_layers:
  assumes "layoutOk L" "wfLayers ls"
    "\<forall>j. idsAt (lay_layers L) j \<subseteq> idsAt ls j"
    "\<forall>i j. i \<noteq> j \<longrightarrow> idsAt ls i \<inter> idsAt ls j = {}"
  shows "layoutOk (withLayers L ls)"
  using assms housed_sub [of "lay_layers L" _ ls] by (auto simp: layoutOk_def list_all_iff)

lemma layoutOk_same:
  "layoutOk L \<Longrightarrow> wfLayers ls \<Longrightarrow> \<forall>j. idsAt ls j = idsAt (lay_layers L) j \<Longrightarrow> layoutOk (withLayers L ls)"
  by (intro layoutOk_layers) (auto simp: layoutOk_def)

lemma layoutOk_disjoint: "layoutOk L \<Longrightarrow> i \<noteq> j \<Longrightarrow> idsAt (lay_layers L) i \<inter> idsAt (lay_layers L) j = {}"
  by (simp add: layoutOk_def)

text \<open>The assignments after a release or a reassignment.\<close>

definition rehomed :: "string list \<Rightarrow> string option \<Rightarrow> entry \<Rightarrow> entry" where
  "rehomed from t e =
     (if truthyStr (e_logicalNodeId e) \<and> the (e_logicalNodeId e) \<in> set from then e\<lparr>e_logicalNodeId := t\<rparr> else e)"

lemma unchanged_entries:
  "\<not> list_ex (\<lambda>(u, e). P e) m \<Longrightarrow> map (\<lambda>(u, e). (u, if P e then f e else e)) m = m"
  by (induction m) auto

lemma edit_entries:
  "(if list_ex (\<lambda>(u, e). P e) (lay_assignments L)
    then L\<lparr>lay_assignments := map (\<lambda>(u, e). (u, if P e then f e else e)) (lay_assignments L)\<rparr> else L) =
   L\<lparr>lay_assignments := map (\<lambda>(u, e). (u, if P e then f e else e)) (lay_assignments L)\<rparr>"
  using unchanged_entries [of P "lay_assignments L" f] by simp

lemma releaseGroupMembers_eq:
  "releaseGroupMembers L ids = L\<lparr>lay_assignments := map (\<lambda>(u, e). (u, rehomed ids None e)) (lay_assignments L)\<rparr>"
  unfolding releaseGroupMembers_def Let_def rehomed_def by (rule edit_entries)

lemma reassignGroupMembers_eq:
  "reassignGroupMembers L ids t = L\<lparr>lay_assignments := map (\<lambda>(u, e). (u, rehomed ids t e)) (lay_assignments L)\<rparr>"
proof (cases t)
  case None
  then show ?thesis by (simp add: reassignGroupMembers_def releaseGroupMembers_eq)
next
  case (Some x)
  let ?P = "\<lambda>e. truthyStr (e_logicalNodeId e) \<and> the (e_logicalNodeId e) \<in> set ids \<and> the (e_logicalNodeId e) \<noteq> x"
  have eq: "rehomed ids (Some x) = (\<lambda>e. if ?P e then e\<lparr>e_logicalNodeId := Some x\<rparr> else e)"
  proof
    fix e show "rehomed ids (Some x) e = (if ?P e then e\<lparr>e_logicalNodeId := Some x\<rparr> else e)"
      by (cases "e_logicalNodeId e") (auto simp: rehomed_def)
  qed
  show ?thesis unfolding Some reassignGroupMembers_def Let_def option.case eq by (rule edit_entries)
qed

lemma layoutOk_rehome:
  assumes "layoutOk L" "wfLayers ls" "\<forall>i j. i \<noteq> j \<longrightarrow> idsAt ls i \<inter> idsAt ls j = {}"
    and "\<And>e. e \<in> set (map snd (lay_assignments L)) \<Longrightarrow> housed (lay_layers L) e \<Longrightarrow> housed ls (rehomed from t e)"
  shows "layoutOk ((withLayers L ls)\<lparr>lay_assignments := map (\<lambda>(u, e). (u, rehomed from t e)) (lay_assignments L)\<rparr>)"
proof -
  have "housed ls (rehomed from t (snd x))" if "x \<in> set (lay_assignments L)" for x
    using that assms(1) by (intro assms(4)) (auto simp: layoutOk_def list_all_iff)
  then show ?thesis using assms(2,3) by (simp add: layoutOk_def list_all_iff case_prod_unfold)
qed

section \<open>Each handler keeps the layout consistent\<close>

lemma repeat_mset_subset: "set_mset (repeat_mset n M) \<subseteq> set_mset M"
  by (auto simp flip: count_greater_zero_iff)

lemma addGroup_ids:
  assumes "addGroup ls i grp p = Some ls'" "\<not> truthyStr p \<or> the p \<notin> set (forestIds [grp])"
  shows "idsAt ls j \<subseteq> idsAt ls' j" "idsAt ls' j \<subseteq> idsAt ls j \<union> (if j = i then set (forestIds [grp]) else {})"
proof -
  let ?h = "if truthyStr p then addUnder (the p) [grp] else (\<lambda>gs. gs @ [grp])"
  consider "ls' = ls" | "ls' = onGroups i ?h ls"
    using assms addGroup_effect [of ls i p grp] by (cases "truthyStr (groupNameClash ls i p [g_name grp] [])") (auto simp: addGroup_def)
  moreover have "set (forestIds gs) \<subseteq> set (forestIds (?h gs)) \<and>
      set (forestIds (?h gs)) \<subseteq> set (forestIds gs) \<union> set (forestIds [grp])" for gs
  proof (cases "truthyStr p")
    case True
    have "set (forestIds (addUnder (the p) [grp] gs)) = set_mset (mset (forestIds (addUnder (the p) [grp] gs)))" by simp
    also have "\<dots> = set (forestIds gs) \<union>
        set_mset (repeat_mset (count_list (forestIds gs) (the p)) (mset (forestIds [grp])))"
      unfolding ids_addUnder by simp
    finally show ?thesis using True repeat_mset_subset [of _ "mset (forestIds [grp])"] by fastforce
  qed auto
  ultimately show "idsAt ls j \<subseteq> idsAt ls' j" "idsAt ls' j \<subseteq> idsAt ls j \<union> (if j = i then set (forestIds [grp]) else {})"
    by (cases; auto simp: layerGroups_onGroups)+
qed

lemma addNode_ok:
  assumes ok: "layoutOk L" and new: "newId \<noteq> []" "\<forall>j. newId \<notin> idsAt (lay_layers L) j" and p: "p \<noteq> Some newId"
  shows "\<exists>g L'. addNode L newId i name p = Some (g, L') \<and> layoutOk L'"
proof -
  let ?n = "if jsTrim name = [] then ''New Group'' else jsTrim name"
  let ?g = "Group newId ?n None GroupType (Some []) JUndefined None"
  have ids: "forestIds [?g] = [newId]" by (simp add: kids_def)
  have wf: "wfForest [?g]" using new(1) by (simp add: wfForest_def uniqueNames_def kids_def)
  have p': "\<not> truthyStr p \<or> the p \<notin> set (forestIds [?g])" using p ids by (cases p) auto
  have wl: "wfLayers (lay_layers L)" using ok by (simp add: layoutOk_def)
  obtain ls where ls: "addGroup (lay_layers L) i ?g p = Some ls" "wfLayers ls"
    using addGroup_result [OF wl wf _ p'] new(2) ids by auto
  have "layoutOk (withLayers L ls)"
  proof (rule layoutOk_layers [OF ok ls(2)])
    show "\<forall>j. idsAt (lay_layers L) j \<subseteq> idsAt ls j" using addGroup_ids(1) [OF ls(1) p'] by blast
    show "\<forall>a b. a \<noteq> b \<longrightarrow> idsAt ls a \<inter> idsAt ls b = {}"
    proof (intro allI impI)
      fix a b :: string assume "a \<noteq> b"
      then show "idsAt ls a \<inter> idsAt ls b = {}"
        using addGroup_ids(2) [OF ls(1) p', of a] addGroup_ids(2) [OF ls(1) p', of b] ids new(2)
          layoutOk_disjoint [OF ok \<open>a \<noteq> b\<close>] by (fastforce split: if_splits)
    qed
  qed
  then show ?thesis using ls(1) by (auto simp: addNode_def Let_def)
qed

lemma renameNode_ok:
  assumes ok: "layoutOk L"
  shows "\<exists>L'. renameNode L i g name = Some L' \<and> layoutOk L'"
proof (cases "jsTrim name = []")
  case False
  let ?ls = "lay_layers L" and ?n = "jsTrim name"
  have wl: "wfLayers ?ls" using ok by (simp add: layoutOk_def)
  obtain ls where ls: "renameGroup ?ls i g ?n = Some ls" "ls = ?ls \<or> ls = onGroups i (renameForest g ?n) ?ls"
    using renameEdit_total [of ?ls i g ?n]
    by (cases "truthyStr (groupNameClash ?ls i (orNull (parentGroupOf ?ls i g)) [?n] [g])")
       (simp_all add: renameGroup_def renamed_def [abs_def])
  then have "\<forall>j. idsAt ls j = idsAt ?ls j" by (elim disjE) (simp_all add: layerGroups_onGroups)
  then show ?thesis using layoutOk_same [OF ok wfLayers_rename [OF wl False ls(1)]] ls(1) False by (simp add: renameNode_def)
qed (use ok in \<open>simp add: renameNode_def\<close>)

lemma deleteNode_ok:
  assumes ok: "layoutOk L"
  shows "\<exists>L'. deleteNode L i g = Some L' \<and> layoutOk L'"
proof -
  let ?ls = "lay_layers L"
  have wl: "wfLayers ?ls" using ok by (simp add: layoutOk_def)
  obtain ls where ls: "removeGroup ?ls i g = Some ls" "wfLayers ls"
      "\<forall>j. idsAt ls j \<subseteq> idsAt ?ls j \<and> idsAt ?ls j \<subseteq> idsAt ls j \<union> set (groupSubtreeIds ?ls i g)"
  proof (cases "findGroup (layerGroups ?ls i) g")
    case None
    let ?ls1 = "onGroups i (mapForest (dropGroup g)) ?ls"
    have r: "removeGroup ?ls i g = Some ?ls1"
      using removeGroup_total [of ?ls i g] by (simp add: dropGroup_def [abs_def])
    moreover have "forestIds (layerGroups ?ls1 j) = forestIds (layerGroups ?ls j)" for j
      using None ids_drop_absent by (auto simp: layerGroups_onGroups findGroup_None)
    ultimately show thesis using that wfLayers_remove [OF wl r] by simp
  next
    case (Some m)
    obtain ls1 where "removeGroup ?ls i g = Some ls1" "wfLayers ls1" "\<forall>j. j \<noteq> i \<longrightarrow> layerGroups ls1 j = layerGroups ?ls j"
        "mset (forestIds (layerGroups ?ls i)) = mset (forestIds (layerGroups ls1 i)) + mset (forestIds [m])"
      using removed_forest [OF wl Some layer_of_group [OF Some]] by blast
    moreover from this have "idsAt ?ls i = set (forestIds (layerGroups ls1 i) @ forestIds [m])"
      by (intro mset_eq_setD) simp
    ultimately show thesis
      using that groupSubtreeIds_found [OF wl Some] by (metis Un_upper1 order_refl set_append sup_ge1)
  qed
  have "layoutOk ((withLayers L ls)\<lparr>lay_assignments :=
      map (\<lambda>(u, e). (u, rehomed (groupSubtreeIds ?ls i g) None e)) (lay_assignments L)\<rparr>)"
  proof (rule layoutOk_rehome [OF ok ls(2)])
    show "\<forall>a b. a \<noteq> b \<longrightarrow> idsAt ls a \<inter> idsAt ls b = {}" using ls(3) layoutOk_disjoint [OF ok] by blast
    show "housed ls (rehomed (groupSubtreeIds ?ls i g) None e)" if "housed ?ls e" for e
      using that ls(3) by (auto simp: housed_def rehomed_def)
  qed
  then show ?thesis using ls(1) by (simp add: deleteNode_def Let_def releaseGroupMembers_eq)
qed

lemma moveGroup_conserves:
  assumes "wfLayers ls" "truthyStr q \<longrightarrow> the q \<in> idsAt ls i"
  shows "\<exists>ls'. moveGroup ls i g q = Some ls' \<and> wfLayers ls' \<and> (\<forall>j. idsAt ls' j = idsAt ls j)"
proof (cases "\<exists>m. findGroup (layerGroups ls i) g = Some m \<and>
    (truthyStr q \<longrightarrow> the q \<notin> set (groupSubtreeIds ls i g)) \<and> \<not> truthyStr (groupNameClash ls i q [g_name m] [g])")
  case True
  then show ?thesis using moveGroup_effect [OF assms(1)] assms(2) by (metis DiffI mset_eq_setD)
next
  case False
  then have "moveGroup ls i g q = Some ls" by (auto simp: moveGroup_def split: option.splits)
  then show ?thesis using assms(1) by simp
qed

lemma moveNode_ok:
  assumes ok: "layoutOk L" and "truthyStr q \<longrightarrow> the q \<in> idsAt (lay_layers L) i"
  shows "\<exists>L'. moveNode L i g q = Some L' \<and> layoutOk L'"
  using moveGroup_conserves [of "lay_layers L" q i g] layoutOk_same [OF ok] assms
  by (auto simp: moveNode_def layoutOk_def)

text \<open>Two members of a disjoint family exchange elements.\<close>

lemma disjoint_exchange:
  assumes "S f \<inter> S t = {}" "S f \<union> S t = T f \<union> T t" "\<And>j. j \<noteq> f \<Longrightarrow> j \<noteq> t \<Longrightarrow> S j = T j"
    "\<And>i j. i \<noteq> j \<Longrightarrow> T i \<inter> T j = {}" "a \<noteq> b"
  shows "S a \<inter> S b = {}"
proof -
  have out: "S j \<inter> (S f \<union> S t) = {}" if "j \<noteq> f" "j \<noteq> t" for j
    using assms(2) assms(3) [OF that] assms(4) [OF that(1)] assms(4) [OF that(2)] by blast
  show ?thesis
  proof (cases "a = f \<or> a = t")
    case True
    then show ?thesis using out [of b] assms(1,5) by (cases "b = f \<or> b = t") blast+
  next
    case False
    then show ?thesis using out [of a] assms(3) [of a] assms(3) [of b] assms(4) [OF assms(5)]
      by (cases "b = f \<or> b = t") blast+
  qed
qed

lemma moveGroupToLayer_ok:
  assumes ok: "layoutOk L" and same: "f = t \<Longrightarrow> truthyStr q \<longrightarrow> the q \<in> idsAt (lay_layers L) f"
  shows "\<exists>L'. moveGroupToLayer L f g t q = Some L' \<and> layoutOk L'"
proof (cases "f = t")
  case True
  then show ?thesis using moveNode_ok [OF ok same [OF True], of g] by (simp add: moveGroupToLayer_def moveNode_def)
next
  case False
  let ?ls = "lay_layers L"
  have wl: "wfLayers ?ls" and hs: "list_all (housed ?ls) (map snd (lay_assignments L))" using ok by (simp_all add: layoutOk_def)
  obtain L' where L': "moveGroupToLayer L f g t q = Some L'" "wfLayers (lay_layers L')"
      "list_all (housed (lay_layers L')) (map snd (lay_assignments L'))"
      "mset (forestIds (layerGroups (lay_layers L') f)) + mset (forestIds (layerGroups (lay_layers L') t)) =
        mset (forestIds (layerGroups ?ls f)) + mset (forestIds (layerGroups ?ls t))"
      "\<forall>j. j \<noteq> f \<and> j \<noteq> t \<longrightarrow> layerGroups (lay_layers L') j = layerGroups ?ls j"
    using cross_move_result [OF wl False layoutOk_disjoint [OF ok False] hs] by blast
  have eq: "mset (forestIds (layerGroups (lay_layers L') f) @ forestIds (layerGroups (lay_layers L') t)) =
      mset (forestIds (layerGroups ?ls f) @ forestIds (layerGroups ?ls t))" using L'(4) by simp
  have "distinct (forestIds (layerGroups ?ls f) @ forestIds (layerGroups ?ls t))"
    using wfForest_layerGroups [OF wl] layoutOk_disjoint [OF ok False] by (simp add: wfForest_def)
  then have ft: "idsAt (lay_layers L') f \<inter> idsAt (lay_layers L') t = {}"
    using mset_eq_imp_distinct_iff [OF eq] by simp
  have sub: "idsAt (lay_layers L') f \<union> idsAt (lay_layers L') t = idsAt ?ls f \<union> idsAt ?ls t"
    using mset_eq_setD [OF eq] by simp
  have "idsAt (lay_layers L') a \<inter> idsAt (lay_layers L') b = {}" if "a \<noteq> b" for a b
    by (rule disjoint_exchange [of "idsAt (lay_layers L')" f t "idsAt ?ls", OF ft sub _ _ that])
       (simp add: L'(5), rule layoutOk_disjoint [OF ok])
  then show ?thesis using L'(1-3) by (auto simp: layoutOk_def)
qed

lemma forest_place:
  "i \<in> set (forestIds gs) \<Longrightarrow> i \<in> g_id ` set gs \<or> (\<exists>h \<in> set (forestNodes gs). i \<in> g_id ` set (kids h))"
  by (induction gs rule: forestIds.induct) auto

lemma parent_is_a_group:
  assumes "distinct (forestIds gs)" "i \<in> set (forestIds gs)" "parentWalk i None gs None = Some (Some p)"
  shows "p \<in> set (forestIds gs) \<and> p \<noteq> i"
proof -
  have "i \<notin> g_id ` set gs" using parentWalk_root [OF assms(1)] assms(3) by force
  then obtain h where h: "h \<in> set (forestNodes gs)" "i \<in> g_id ` set (kids h)" using forest_place [OF assms(2)] by blast
  then have p: "p = g_id h" using parentWalk_inner [OF assms(1) h] assms(3) by simp
  moreover have "g_id h \<notin> set (forestIds (kids h))" using forestIds_subforest [OF assms(1) h(1)] by simp
  moreover have "i \<in> set (forestIds (kids h))" using h(2) forestIds_roots by auto
  moreover have "g_id h \<in> set (forestIds gs)" using h(1) by (simp add: forestIds_nodes)
  ultimately show ?thesis by auto
qed

lemma ungroupNode_ok:
  assumes ok: "layoutOk L"
  shows "\<exists>L' r. ungroupNode L i g = Some (L', r) \<and> layoutOk L'"
proof -
  let ?ls = "lay_layers L" and ?p = "orNull (parentGroupOf (lay_layers L) i g)"
  let ?clash = "groupNameClash ?ls i ?p (childGroupNames ?ls i g) [g]" and ?ls1 = "onGroups i (lift g) ?ls"
  have wl: "wfLayers ?ls" using ok by (simp add: layoutOk_def)
  show ?thesis
  proof (cases "truthyStr ?clash")
    case True
    then show ?thesis using ok by (simp add: ungroupNode_def Let_def)
  next
    case False
    then have u: "ungroup ?ls i g = Some ?ls1"
      using mapGroups_total [of "\<lambda>gs. Some (lift g gs)" "lift g" ?ls i] by (simp add: ungroup_def Let_def)
    have d: "distinct (forestIds (layerGroups ?ls i))" using wfForest_layerGroups [OF wl, of i] by (simp add: wfForest_def)
    have lift: "set (forestIds (lift g (layerGroups ?ls i))) = idsAt ?ls i - {g}"
      using mset_eq_setD [OF ids_lift [OF d, of g]] by simp
    have ids: "idsAt ?ls1 j \<subseteq> idsAt ?ls j" "idsAt ?ls j - {g} \<subseteq> idsAt ?ls1 j" "j \<noteq> i \<Longrightarrow> idsAt ?ls1 j = idsAt ?ls j" for j
      using lift by (auto simp: layerGroups_onGroups)
    have "housed ?ls1 (rehomed [g] ?p e)" if e: "housed ?ls e" for e
    proof (cases "e_logicalNodeId e = Some g \<and> g \<noteq> []")
      case False
      then have "rehomed [g] ?p e = e" by (cases "e_logicalNodeId e") (auto simp: rehomed_def)
      then show ?thesis using e ids(2) [of "e_layerId e"] False by (cases "e_logicalNodeId e") (auto simp: housed_def)
    next
      case True
      then have r: "rehomed [g] ?p e = e\<lparr>e_logicalNodeId := ?p\<rparr>" by (simp add: rehomed_def)
      show ?thesis
      proof (cases ?p)
        case (Some p)
        then have pw: "parentWalk g None (layerGroups ?ls i) None = Some (Some p)"
          by (auto simp: orNull_def parentGroupOf_def split: option.splits)
        then have gi: "g \<in> idsAt ?ls i" using parentWalk_absent by fastforce
        moreover have "g \<in> idsAt ?ls (e_layerId e)" using e True by (simp add: housed_def)
        ultimately have "e_layerId e = i" using layoutOk_disjoint [OF ok, of "e_layerId e" i] by blast
        then show ?thesis using r Some ids(2) [of i] parent_is_a_group [OF d gi pw] by (auto simp: housed_def)
      qed (use r in \<open>simp add: housed_def\<close>)
    qed
    then have "layoutOk ((withLayers L ?ls1)\<lparr>lay_assignments := map (\<lambda>(u, e). (u, rehomed [g] ?p e)) (lay_assignments L)\<rparr>)"
      using wfLayers_ungroup [OF wl u] ids(1) layoutOk_disjoint [OF ok]
      by (intro layoutOk_rehome [OF ok]) blast+
    then show ?thesis using False u by (simp add: ungroupNode_def Let_def reassignGroupMembers_eq)
  qed
qed

lemma moveGroupContents_ids:
  assumes wl: "wfLayers ls" and t: "t \<in> idsAt ls i"
  shows "\<exists>ls'. moveGroupContents ls i f t = Some ls' \<and> wfLayers ls' \<and> (\<forall>j. idsAt ls' j = idsAt ls j)"
  using wl
proof (cases rule: moveGroupContents_cases [of ls i f t])
  case 1
  then show ?thesis using wl by simp
next
  case (2 m)
  let ?gs = "layerGroups ls i"
  have d: "distinct (forestIds ?gs)" using wfForest_layerGroups [OF wl, of i] by (simp add: wfForest_def)
  have e: "mset (forestIds ?gs) = mset (forestIds (emptyAt f ?gs) @ forestIds (kids m))"
    using ids_emptyAt [OF d 2(1)] by simp
  have "distinct (forestIds (emptyAt f ?gs))" using mset_eq_imp_distinct_iff [OF e] d by simp
  moreover have "t \<in> set (forestIds (emptyAt f ?gs))" using mset_eq_setD [OF e] t 2(2) by auto
  ultimately have "count_list (forestIds (emptyAt f ?gs)) t = 1" by (simp add: count_list_distinct)
  then have "mset (forestIds (addUnder t (kids m) (emptyAt f ?gs))) = mset (forestIds ?gs)"
    using ids_addUnder [of t "kids m" "emptyAt f ?gs"] e by simp
  then have "set (forestIds (addUnder t (kids m) (emptyAt f ?gs))) = set (forestIds ?gs)" by (rule mset_eq_setD)
  then show ?thesis using 2(4) wfLayers_moveGroupContents [OF wl, of i f t] by (auto simp: layerGroups_onGroups)
qed

lemma moveContents_ok:
  assumes ok: "layoutOk L" and f: "f \<in> idsAt (lay_layers L) i" and t: "t \<in> idsAt (lay_layers L) i"
  shows "\<exists>L' r. moveContents L i f t = Some (L', r) \<and> layoutOk L'"
proof -
  let ?ls = "lay_layers L"
  have wl: "wfLayers ?ls" using ok by (simp add: layoutOk_def)
  obtain ls where ls: "moveGroupContents ?ls i f t = Some ls" "wfLayers ls" "\<forall>j. idsAt ls j = idsAt ?ls j"
    using moveGroupContents_ids [OF wl t] by blast
  have "housed ls (rehomed [f] (Some t) e)" if e: "housed ?ls e" for e
  proof (cases "e_logicalNodeId e = Some f \<and> f \<noteq> []")
    case True
    then have "f \<in> idsAt ?ls (e_layerId e)" using e by (simp add: housed_def)
    then have "e_layerId e = i" using f layoutOk_disjoint [OF ok, of "e_layerId e" i] by blast
    then show ?thesis using True t ls(3) by (simp add: rehomed_def housed_def)
  next
    case False
    then have "rehomed [f] (Some t) e = e" by (cases "e_logicalNodeId e") (auto simp: rehomed_def)
    then show ?thesis using e ls(3) by (simp add: housed_def)
  qed
  then have "layoutOk ((withLayers L ls)\<lparr>lay_assignments := map (\<lambda>(u, e). (u, rehomed [f] (Some t) e)) (lay_assignments L)\<rparr>)"
    using ls layoutOk_disjoint [OF ok] by (intro layoutOk_rehome [OF ok]) auto
  then show ?thesis using ls(1) ok by (auto simp: moveContents_def Let_def reassignGroupMembers_eq)
qed

lemma setCollapsed_sel [simp]: "g_id (setCollapsed c g) = g_id g" "g_name (setCollapsed c g) = g_name g"
    "g_children (setCollapsed c g) = g_children g" "kids (setCollapsed c g) = kids g"
  by (simp_all add: setCollapsed_def kids_def)

lemma toggle_ids [simp]: "forestIds (toggle i gs) = forestIds gs"
proof (induction gs rule: forestIds.induct)
  case (2 g gs)
  then show ?case by (cases "g_children g") (auto simp: kids_None Let_def)
qed simp

lemma toggle_roots [simp]: "map nameKey (toggle i gs) = map nameKey gs"
proof (induction gs)
  case (Cons g gs)
  have "nameKey (hd (toggle i (g # gs))) = nameKey g"
    by (cases "g_children g") (auto simp: nameKey_def Let_def)
  then show ?case using Cons by (cases "g_children g") auto
qed simp

lemma toggle_rows [simp]: "nameRows (toggle i gs) = nameRows gs"
proof (induction gs rule: forestIds.induct)
  case (2 g gs)
  then show ?case by (cases "g_children g") (auto simp: kids_None Let_def)
qed simp

lemma toggle_names [simp]: "map g_name (forestNodes (toggle i gs)) = map g_name (forestNodes gs)"
proof (induction gs rule: forestIds.induct)
  case (2 g gs)
  then show ?case by (cases "g_children g") (auto simp: kids_None Let_def)
qed simp

lemma wfForest_toggle: "wfForest gs \<Longrightarrow> wfForest (toggle i gs)"
proof -
  assume w: "wfForest gs"
  have "list_all (\<lambda>g. g_name g \<noteq> []) (forestNodes (toggle i gs)) = list_all (\<lambda>n. n \<noteq> []) (map g_name (forestNodes (toggle i gs)))"
    by (simp only: comp_def list.pred_map)
  also have "\<dots> = list_all (\<lambda>g. g_name g \<noteq> []) (forestNodes gs)" by (simp add: list.pred_map comp_def)
  finally show ?thesis using w by (simp add: wfForest_def uniqueNames_def)
qed

lemma toggleCollapse_ok:
  assumes ok: "layoutOk L"
  shows "layoutOk (toggleCollapse L i g)"
proof -
  have eq: "toggleCollapse L i g = withLayers L (onGroups i (toggle g) (lay_layers L))"
    by (simp add: toggleCollapse_def onGroups_def groupsOf_def)
  have wl: "wfLayers (lay_layers L)" using ok by (simp add: layoutOk_def)
  show ?thesis unfolding eq
    using wfLayers_onGroups [OF wl, of "toggle g" i] wfForest_toggle wfForest_layerGroups [OF wl, of i]
    by (intro layoutOk_same [OF ok]) (auto simp: layerGroups_onGroups)
qed

section \<open>Every session of the group editor\<close>

inductive node_step :: "layout \<Rightarrow> layout \<Rightarrow> bool" where
  add: "newId \<noteq> [] \<Longrightarrow> \<forall>j. newId \<notin> idsAt (lay_layers L) j \<Longrightarrow> p \<noteq> Some newId \<Longrightarrow>
    addNode L newId i name p = Some (g, L') \<Longrightarrow> node_step L L'"
| rename: "renameNode L i g name = Some L' \<Longrightarrow> node_step L L'"
| delete: "deleteNode L i g = Some L' \<Longrightarrow> node_step L L'"
| move: "truthyStr q \<longrightarrow> the q \<in> idsAt (lay_layers L) i \<Longrightarrow> moveNode L i g q = Some L' \<Longrightarrow> node_step L L'"
| to_layer: "f = t \<Longrightarrow> truthyStr q \<longrightarrow> the q \<in> idsAt (lay_layers L) f \<Longrightarrow>
    moveNodeToLayer L f g t q = Some (L', r) \<Longrightarrow> node_step L L'"
| across: "f \<noteq> t \<Longrightarrow> moveNodeToLayer L f g t q = Some (L', r) \<Longrightarrow> node_step L L'"
| ungroup: "ungroupNode L i g = Some (L', r) \<Longrightarrow> node_step L L'"
| contents: "f \<in> idsAt (lay_layers L) i \<Longrightarrow> t \<in> idsAt (lay_layers L) i \<Longrightarrow>
    moveContents L i f t = Some (L', r) \<Longrightarrow> node_step L L'"
| collapse: "node_step L (toggleCollapse L i g)"

lemma moveNodeToLayer_fst:
  "moveNodeToLayer L f g t q = Some (L', r) \<Longrightarrow> moveGroupToLayer L f g t q = Some L'"
  by (auto simp: moveNodeToLayer_def Let_def split: if_splits)

lemma layoutOk_step: "node_step L L' \<Longrightarrow> layoutOk L \<Longrightarrow> layoutOk L'"
proof (induction rule: node_step.induct)
  case (add newId L p i name g L')
  then show ?case using addNode_ok [of L newId p i name] by auto
next
  case (rename L i g name L')
  then show ?case using renameNode_ok [of L i g name] by auto
next
  case (delete L i g L')
  then show ?case using deleteNode_ok [of L i g] by auto
next
  case (move q L i g L')
  then show ?case using moveNode_ok [of L q i g] by auto
next
  case (to_layer f t q L g L' r)
  then show ?case using moveGroupToLayer_ok [of L f t q g] moveNodeToLayer_fst [of L f g t q L' r] by auto
next
  case (across f t L g q L' r)
  then show ?case using moveGroupToLayer_ok [of L f t q g] moveNodeToLayer_fst [of L f g t q L' r] by auto
next
  case (ungroup L i g L' r)
  then show ?case using ungroupNode_ok [of L i g] by auto
next
  case (contents f L i t L' r)
  then show ?case using moveContents_ok [of L f i t] by auto
next
  case (collapse L i g)
  then show ?case by (rule toggleCollapse_ok)
qed

text \<open>
  C21. Whatever sequence of group operations the wizard applies (adding, renaming, deleting, moving
  inside a layer or to another, ungrouping, moving contents, collapsing), the layout stays consistent:
  sibling group names are unique, no group id occurs in two layers, and no assignment is left pointing at a
  group that is not a group of its layer.
\<close>

theorem group_editing_keeps_layout_consistent:
  assumes "node_step\<^sup>*\<^sup>* L L'" "layoutOk L"
  shows "layoutOk L'"
  using assms by (induction rule: rtranclp_induct) (auto intro: layoutOk_step)

definition sampleGrouped :: layout where
  "sampleGrouped = \<lparr>lay_layers = sampleStack,
     lay_assignments = [(''urn:x'', sampleEntry ''L'' (Some ''b'') None), (''urn:y'', sampleEntry ''M'' (Some ''d'') None)],
     lay_defaultNodeSortMode = None\<rparr>"

lemma sampleGrouped_ok: "layoutOk sampleGrouped"
proof -
  have "forestIds (layerGroups sampleStack j) =
      (if j = ''L'' then [''a'', ''b'', ''c''] else if j = ''M'' then [''d''] else [])" for j
    by (simp add: layerGroups_def sampleStack_def findLayer_def sampleLayer_def sampleGroup_def kids_def)
  then show ?thesis
    using wf_sampleStack by (auto simp: layoutOk_def sampleGrouped_def sampleEntry_def housed_def)
qed

theorem group_editing_keeps_layout_consistent_witness:
  "layoutOk (the (deleteNode (toggleCollapse sampleGrouped ''L'' ''c'') ''L'' ''a''))"
proof -
  let ?L = "toggleCollapse sampleGrouped ''L'' ''c''"
  have "deleteNode ?L ''L'' ''a'' \<noteq> None"
    using deleteNode_ok [OF toggleCollapse_ok [OF sampleGrouped_ok], of "''L''" "''c''" "''L''" "''a''"] by auto
  then have "node_step ?L (the (deleteNode ?L ''L'' ''a''))" using node_step.delete by force
  then have "node_step\<^sup>*\<^sup>* sampleGrouped (the (deleteNode ?L ''L'' ''a''))"
    using node_step.collapse by (meson converse_rtranclp_into_rtranclp rtranclp.rtrancl_refl)
  then show ?thesis by (rule group_editing_keeps_layout_consistent) (rule sampleGrouped_ok)
qed

text \<open>
  C36. None of the group operations gets stuck. On a consistent layout each of them returns: adding a
  group (with an id that is new), renaming, deleting, ungrouping, moving a group inside its layer (to the top
  level, or under a group of the layer), moving it to another layer (to the top level or under any parent, known
  or not), and moving the contents of one group into another.
\<close>

theorem group_operations_return:
  assumes "layoutOk L" "newId \<noteq> []" "\<forall>j. newId \<notin> idsAt (lay_layers L) j" "p \<noteq> Some newId"
    "truthyStr q \<longrightarrow> the q \<in> idsAt (lay_layers L) i" "i \<noteq> j"
    "f \<in> idsAt (lay_layers L) i" "t \<in> idsAt (lay_layers L) i"
  shows "addNode L newId i name p \<noteq> None \<and> renameNode L i g name \<noteq> None \<and> deleteNode L i g \<noteq> None \<and>
    moveNode L i g q \<noteq> None \<and> moveNodeToLayer L i g i q \<noteq> None \<and> moveNodeToLayer L i g j r \<noteq> None \<and>
    ungroupNode L i g \<noteq> None \<and> moveContents L i f t \<noteq> None"
  using addNode_ok [OF assms(1-4), of i name] renameNode_ok [OF assms(1), of i g name]
    deleteNode_ok [OF assms(1), of i g] moveNode_ok [OF assms(1,5), of g]
    moveGroupToLayer_ok [OF assms(1), of i i q g] assms(5) moveGroupToLayer_ok [OF assms(1), of i j r g] assms(6)
    ungroupNode_ok [OF assms(1), of i g] moveContents_ok [OF assms(1,7,8)]
  by (auto simp: moveNodeToLayer_def)

text \<open>A group moved to the top level of its layer, and one moved under a group of another layer.\<close>

theorem group_operations_return_witness:
  "addNode sampleGrouped ''n'' ''L'' ''  '' None \<noteq> None \<and> moveContents sampleGrouped ''L'' ''a'' ''c'' \<noteq> None \<and>
   moveNode sampleGrouped ''L'' ''b'' None \<noteq> None \<and>
   (\<exists>L' r. moveNodeToLayer sampleGrouped ''L'' ''a'' ''M'' (Some ''d'') = Some (L', r) \<and> ''a'' \<in> idsAt (lay_layers L') ''M'')"
proof -
  have i: "forestIds (layerGroups (lay_layers sampleGrouped) j) =
      (if j = ''L'' then [''a'', ''b'', ''c''] else if j = ''M'' then [''d''] else [])" for j
    by (simp add: sampleGrouped_def layerGroups_def sampleStack_def findLayer_def sampleLayer_def sampleGroup_def kids_def)
  have "(case moveNodeToLayer sampleGrouped ''L'' ''a'' ''M'' (Some ''d'') of
      Some (L', r) \<Rightarrow> ''a'' \<in> idsAt (lay_layers L') ''M'' | None \<Rightarrow> True)"
    by (simp add: moveNodeToLayer_def moveGroupToLayer_def sampleGrouped_def sampleStack_def sampleLayer_def sampleGroup_def
        layerGroups_def findLayer_def groupNameClash_def sameName_def removeGroup_def addGroup_def editTree_Cons kids_def setChildren_def
        Let_def jsTrim_def jsLower_def)
  moreover have new: "\<forall>j. ''n'' \<notin> idsAt (lay_layers sampleGrouped) j" by (simp add: i)
  moreover have "''a'' \<in> idsAt (lay_layers sampleGrouped) ''L''" "''c'' \<in> idsAt (lay_layers sampleGrouped) ''L''" by (simp_all add: i)
  ultimately show ?thesis
    using group_operations_return [OF sampleGrouped_ok _ new, of None None "''L''" "''M''" "''a''" "''c''" "''  ''" "''b''"]
      group_operations_return [OF sampleGrouped_ok _ new, of None None "''L''" "''M''" "''a''" "''c''" "''  ''" "''a''" "Some ''d''"]
    by (auto split: option.splits prod.splits)
qed

end
