(* ===== verification/Trace_History.thy ===== *)
theory Trace_History
  imports Js_Values
begin

text \<open>
  \<^verbatim>\<open>hooks/lib/traceHistoryStack.ts\<close>: the back/forward history of lineage traces. An entry
  is a traced seed set with the view it was looked at; the history is a list of entries with a cursor.
  Numbers are rationals (the cursor too: a stored cursor is any number). A stored text is
  represented by its parse: \<open>None\<close> is a text \<open>JSON.parse\<close> throws on.
\<close>

section \<open>Data\<close>

record trace_view =
  showUpstream :: bool
  showDownstream :: bool
  depthUp :: rat
  depthDown :: rat
  traceExpansion :: "string list"

record trace_entry =
  te_urn :: string
  te_urns :: "string list option"
  te_focusId :: string
  te_view :: trace_view
  te_timestamp :: rat

record trace_history =
  th_entries :: "trace_entry list"
  th_cursor :: rat

definition TRACE_HISTORY_CAP :: nat where
  "TRACE_HISTORY_CAP = 50"

definition STORAGE_VERSION :: rat where
  "STORAGE_VERSION = 1"

section \<open>Operations\<close>

text \<open>\<open>[...new Set(ids)].sort()\<close>: ordinal order, first occurrences kept.\<close>

definition sortedSet :: "string list \<Rightarrow> string list" where
  "sortedSet ids = sort (rev (remdups (rev ids)))"

definition normalizeTraceExpansion :: "string list option \<Rightarrow> string list" where
  "normalizeTraceExpansion ids =
     (case ids of None \<Rightarrow> [] | Some xs \<Rightarrow> if length xs > 0 then sortedSet xs else [])"

definition normalizeView :: "trace_view \<Rightarrow> trace_view" where
  "normalizeView v = v\<lparr>traceExpansion := normalizeTraceExpansion (Some (traceExpansion v))\<rparr>"

definition emptyTraceHistory :: trace_history where
  "emptyTraceHistory = \<lparr>th_entries = [], th_cursor = -1\<rparr>"

text \<open>An index that is not an integer in range reads \<open>undefined\<close>.\<close>

definition currentTraceEntry :: "trace_history \<Rightarrow> trace_entry option" where
  "currentTraceEntry h =
     (let c = th_cursor h
      in if 0 \<le> c \<and> of_int \<lfloor>c\<rfloor> = c \<and> nat \<lfloor>c\<rfloor> < length (th_entries h)
         then Some (th_entries h ! nat \<lfloor>c\<rfloor>) else None)"

definition traceEntrySeeds :: "trace_entry \<Rightarrow> string list" where
  "traceEntrySeeds e =
     (case te_urns e of None \<Rightarrow> [te_urn e] | Some us \<Rightarrow> if length us > 0 then us else [te_urn e])"

fun joinLines :: "string list \<Rightarrow> string" where
  "joinLines [] = []"
| "joinLines [s] = s"
| "joinLines (s # t # ss) = s @ CHR 0x0A # joinLines (t # ss)"

definition traceSeedKey :: "string list \<Rightarrow> string" where
  "traceSeedKey urns = joinLines (sortedSet urns)"

text \<open>\<open>slice(0, n)\<close>: the end is truncated towards zero and counts from the back when negative.\<close>

definition sliceTo :: "'a list \<Rightarrow> rat \<Rightarrow> 'a list" where
  "sliceTo xs n =
     (let e = (if n \<ge> 0 then \<lfloor>n\<rfloor> else \<lceil>n\<rceil>)
      in take (nat (if e \<ge> 0 then e else max 0 (int (length xs) + e))) xs)"

definition setCurrent :: "trace_history \<Rightarrow> trace_entry \<Rightarrow> trace_history" where
  "setCurrent h e = h\<lparr>th_entries := (th_entries h)[nat \<lfloor>th_cursor h\<rfloor> := e]\<rparr>"

definition pushTraceFocal :: "trace_history \<Rightarrow> trace_entry \<Rightarrow> trace_history" where
  "pushTraceFocal h e =
     (let fresh = (let entries = sliceTo (th_entries h) (th_cursor h + 1) @ [e\<lparr>te_view := normalizeView (te_view e)\<rparr>]
                   in \<lparr>th_entries = entries, th_cursor = of_nat (length entries) - 1\<rparr>)
      in case currentTraceEntry h of
           None \<Rightarrow> fresh
         | Some current \<Rightarrow>
             if traceSeedKey (traceEntrySeeds current) = traceSeedKey (traceEntrySeeds e)
             then setCurrent h (current\<lparr>te_view := normalizeView (te_view e), te_timestamp := te_timestamp e\<rparr>)
             else fresh)"

definition updateCurrentTraceView :: "trace_history \<Rightarrow> trace_view \<Rightarrow> trace_history" where
  "updateCurrentTraceView h v =
     (case currentTraceEntry h of
        None \<Rightarrow> h
      | Some current \<Rightarrow> setCurrent h (current\<lparr>te_view := normalizeView v\<rparr>))"

definition updateCurrentTraceSeeds ::
    "trace_history \<Rightarrow> string list \<Rightarrow> (string \<Rightarrow> string) \<Rightarrow> trace_history" where
  "updateCurrentTraceSeeds h urns focusIdOf =
     (let seeds = rev (remdups (rev urns))
      in case currentTraceEntry h of
           None \<Rightarrow> h
         | Some current \<Rightarrow>
             if seeds = [] then h
             else setCurrent h
               \<lparr>te_urn = hd seeds,
                te_urns = (if length seeds > 1 then Some seeds else None),
                te_focusId = (if hd seeds = te_urn current then te_focusId current else focusIdOf (hd seeds)),
                te_view = te_view current,
                te_timestamp = te_timestamp current\<rparr>)"

definition traceHistoryBack :: "trace_history \<Rightarrow> trace_history" where
  "traceHistoryBack h = (if th_cursor h > 0 then h\<lparr>th_cursor := th_cursor h - 1\<rparr> else h)"

definition traceHistoryForward :: "trace_history \<Rightarrow> trace_history" where
  "traceHistoryForward h =
     (if th_cursor h < of_nat (length (th_entries h)) - 1 then h\<lparr>th_cursor := th_cursor h + 1\<rparr> else h)"

definition traceHistoryJump :: "trace_history \<Rightarrow> rat \<Rightarrow> trace_history" where
  "traceHistoryJump h index =
     (if index \<ge> 0 \<and> index < of_nat (length (th_entries h)) \<and> index \<noteq> th_cursor h
      then h\<lparr>th_cursor := index\<rparr> else h)"

section \<open>Storage\<close>

definition viewJs :: "trace_view \<Rightarrow> jsval" where
  "viewJs v = JObj
     [(''showUpstream'', JBool (showUpstream v)), (''showDownstream'', JBool (showDownstream v)),
      (''depthUp'', JNum (Fin (depthUp v))), (''depthDown'', JNum (Fin (depthDown v))),
      (''traceExpansion'', JArr (map JStr (traceExpansion v)))]"

definition entryJs :: "trace_entry \<Rightarrow> jsval" where
  "entryJs e = JObj
     ([(''urn'', JStr (te_urn e))] @
      (case te_urns e of None \<Rightarrow> [] | Some us \<Rightarrow> [(''urns'', JArr (map JStr us))]) @
      [(''focusId'', JStr (te_focusId e)), (''view'', viewJs (te_view e)),
       (''timestamp'', JNum (Fin (te_timestamp e)))])"

definition serializeTraceHistory :: "trace_history \<Rightarrow> json option" where
  "serializeTraceHistory h =
     (let len = length (th_entries h);
          overflow = len - TRACE_HISTORY_CAP;
          entries = (if overflow > 0 then drop overflow (th_entries h) else th_entries h);
          cursor = max 0 (min (th_cursor h - of_nat overflow) (of_nat (length entries) - 1))
      in stringify (JObj
           [(''v'', JNum (Fin STORAGE_VERSION)), (''entries'', JArr (map entryJs entries)),
            (''cursor'', JNum (Fin (if length entries = 0 then -1 else cursor)))]))"

fun isStr :: "jsval \<Rightarrow> bool" where
  "isStr (JStr _) = True" | "isStr _ = False"

fun isNum :: "jsval \<Rightarrow> bool" where
  "isNum (JNum _) = True" | "isNum _ = False"

fun isBool :: "jsval \<Rightarrow> bool" where
  "isBool (JBool _) = True" | "isBool _ = False"

text \<open>Reading a property of a value of type \<open>object\<close>: an array has none of these names.\<close>

fun field :: "jsval \<Rightarrow> string \<Rightarrow> jsval" where
  "field (JObj kvs) k = objGet kvs k"
| "field _ k = JUndefined"

fun isObject :: "jsval \<Rightarrow> bool" where
  "isObject (JObj _) = True" | "isObject (JArr _) = True" | "isObject _ = False"

fun strsOrAbsent :: "bool \<Rightarrow> jsval \<Rightarrow> bool" where
  "strsOrAbsent ne JUndefined = True"
| "strsOrAbsent ne (JArr vs) = ((ne \<longrightarrow> length vs > 0) \<and> list_all isStr vs)"
| "strsOrAbsent ne _ = False"

definition isValidEntry :: "jsval \<Rightarrow> bool" where
  "isValidEntry e =
     (if \<not> isObject e then False
      else
        let v = field e ''view''
        in isStr (field e ''urn'') \<and> strsOrAbsent True (field e ''urns'') \<and>
           isStr (field e ''focusId'') \<and> isNum (field e ''timestamp'') \<and> isObject v \<and>
           isBool (field v ''showUpstream'') \<and> isBool (field v ''showDownstream'') \<and>
           isNum (field v ''depthUp'') \<and> isNum (field v ''depthDown'') \<and>
           strsOrAbsent False (field v ''traceExpansion''))"

text \<open>A valid entry read at its type.\<close>

fun unStr :: "jsval \<Rightarrow> string" where
  "unStr (JStr s) = s" | "unStr _ = []"

fun unNum :: "jsval \<Rightarrow> rat" where
  "unNum (JNum (Fin q)) = q" | "unNum _ = 0"

fun unStrs :: "jsval \<Rightarrow> string list option" where
  "unStrs (JArr vs) = Some (map unStr vs)" | "unStrs _ = None"

definition entryOf :: "jsval \<Rightarrow> trace_entry" where
  "entryOf e =
     (let v = field e ''view''
      in \<lparr>te_urn = unStr (field e ''urn''), te_urns = unStrs (field e ''urns''),
          te_focusId = unStr (field e ''focusId''),
          te_view = \<lparr>showUpstream = (field v ''showUpstream'' = JBool True),
                     showDownstream = (field v ''showDownstream'' = JBool True),
                     depthUp = unNum (field v ''depthUp''), depthDown = unNum (field v ''depthDown''),
                     traceExpansion = normalizeTraceExpansion (unStrs (field v ''traceExpansion''))\<rparr>,
          te_timestamp = unNum (field e ''timestamp'')\<rparr>)"

text \<open>The stored text is absent, unparsable (\<open>Some None\<close>) or the text of a JSON value.\<close>

definition hydrateTraceHistory :: "json option option \<Rightarrow> trace_history" where
  "hydrateTraceHistory raw =
     (case raw of
        None \<Rightarrow> emptyTraceHistory
      | Some None \<Rightarrow> emptyTraceHistory
      | Some (Some j) \<Rightarrow>
          let parsed = unjson j
          in if field parsed ''v'' \<noteq> JNum (Fin STORAGE_VERSION) then emptyTraceHistory
             else case field parsed ''entries'' of
               JArr raws \<Rightarrow>
                 if length (filter isValidEntry raws) \<noteq> length raws then emptyTraceHistory
                 else
                   let entries = map entryOf (filter isValidEntry raws);
                       cursor = (case field parsed ''cursor'' of JNum (Fin q) \<Rightarrow> q | _ \<Rightarrow> -1)
                   in if length entries = 0 then emptyTraceHistory
                      else \<lparr>th_entries = entries,
                            th_cursor = max 0 (min cursor (of_nat (length entries) - 1))\<rparr>
             | _ \<Rightarrow> emptyTraceHistory)"

section \<open>The cursor\<close>

definition histOk :: "trace_history \<Rightarrow> bool" where
  "histOk h \<longleftrightarrow> (if th_entries h = [] then th_cursor h = -1
     else (\<exists>n < length (th_entries h). th_cursor h = of_nat n))"

text \<open>A picture is written in one way, and a combined trace names its seeds.\<close>

definition entryOk :: "trace_entry \<Rightarrow> bool" where
  "entryOk e \<longleftrightarrow> sorted (traceExpansion (te_view e)) \<and> distinct (traceExpansion (te_view e)) \<and> te_urns e \<noteq> Some []"

definition traceOk :: "trace_history \<Rightarrow> bool" where
  "traceOk h \<longleftrightarrow> histOk h \<and> list_all entryOk (th_entries h)"

lemma sortedSet_props [simp]: "sorted (sortedSet xs)" "distinct (sortedSet xs)" "set (sortedSet xs) = set xs"
  by (simp_all add: sortedSet_def)

lemma sortedSet_eq_iff: "sortedSet xs = sortedSet ys \<longleftrightarrow> set xs = set ys"
proof
  assume "set xs = set ys"
  then show "sortedSet xs = sortedSet ys"
    using sorted_distinct_set_unique [of "sortedSet xs" "sortedSet ys"] by simp
qed (metis sortedSet_props(3))

lemma sortedSet_id: "sorted xs \<Longrightarrow> distinct xs \<Longrightarrow> sortedSet xs = xs"
  using sorted_distinct_set_unique [of "sortedSet xs" xs] by simp

lemma normalize_ok: "sorted (normalizeTraceExpansion xs)" "distinct (normalizeTraceExpansion xs)"
  by (simp_all add: normalizeTraceExpansion_def split: option.split)

lemma normalize_id: "sorted xs \<Longrightarrow> distinct xs \<Longrightarrow> normalizeTraceExpansion (Some xs) = xs"
  by (simp add: normalizeTraceExpansion_def sortedSet_id)

lemma normalizeView_ok [simp]: "sorted (traceExpansion (normalizeView v))" "distinct (traceExpansion (normalizeView v))"
  by (simp_all add: normalizeView_def normalize_ok)

lemma current_at: "th_cursor h = of_nat n \<Longrightarrow> n < length (th_entries h) \<Longrightarrow> currentTraceEntry h = Some (th_entries h ! n)"
  by (auto simp: currentTraceEntry_def Let_def intro: exI [of _ "int n"])

lemma current_Some:
  assumes "currentTraceEntry h = Some e"
  obtains n where "th_cursor h = of_nat n" "n < length (th_entries h)" "e = th_entries h ! n"
proof -
  have "of_nat (nat \<lfloor>th_cursor h\<rfloor>) = th_cursor h" "nat \<lfloor>th_cursor h\<rfloor> < length (th_entries h)" "e = th_entries h ! nat \<lfloor>th_cursor h\<rfloor>"
    using assms by (auto simp: currentTraceEntry_def Let_def split: if_splits)
  then show thesis by (metis that)
qed

lemma histOk_current: "histOk h \<Longrightarrow> currentTraceEntry h = None \<longleftrightarrow> th_entries h = []"
  using current_at [of h] by (auto simp: histOk_def currentTraceEntry_def split: if_splits)

lemma setCurrent_at: "th_cursor h = of_nat n \<Longrightarrow> setCurrent h e = h\<lparr>th_entries := (th_entries h)[n := e]\<rparr>"
  by (simp add: setCurrent_def)

lemma traceOk_setCurrent:
  assumes "traceOk h" "currentTraceEntry h = Some c" "entryOk e"
  shows "traceOk (setCurrent h e)"
proof -
  obtain n where n: "th_cursor h = of_nat n" "n < length (th_entries h)" using assms(2) by (rule current_Some)
  then show ?thesis
    using assms(1,3) set_update_subset_insert [of "th_entries h" n e]
    by (auto simp: traceOk_def histOk_def setCurrent_at list_all_iff)
qed

lemma current_ok: "traceOk h \<Longrightarrow> currentTraceEntry h = Some c \<Longrightarrow> entryOk c"
  by (auto simp: traceOk_def list_all_iff elim!: current_Some)

lemma sliceTo_nat: "sliceTo xs (of_nat n) = take n xs"
  by (simp add: sliceTo_def Let_def)

text \<open>What a push of another focal leaves: the entries up to the current one, then the new one.\<close>

definition keptEntries :: "trace_history \<Rightarrow> trace_entry list" where
  "keptEntries h = take (nat (\<lfloor>th_cursor h\<rfloor> + 1)) (th_entries h)"

lemma kept_slice: "histOk h \<Longrightarrow> sliceTo (th_entries h) (th_cursor h + 1) = keptEntries h"
  using sliceTo_nat [of "th_entries h" "Suc n" for n]
  by (auto simp: histOk_def keptEntries_def sliceTo_def Let_def add.commute nat_add_distrib split: if_splits)

lemma push_other:
  assumes "histOk h"
    "\<And>c. currentTraceEntry h = Some c \<Longrightarrow> traceSeedKey (traceEntrySeeds c) \<noteq> traceSeedKey (traceEntrySeeds e)"
  shows "pushTraceFocal h e = \<lparr>th_entries = keptEntries h @ [e\<lparr>te_view := normalizeView (te_view e)\<rparr>],
    th_cursor = of_nat (length (keptEntries h))\<rparr>"
  using assms(2) kept_slice [OF assms(1)] by (auto simp: pushTraceFocal_def Let_def split: option.split)

lemma traceOk_push:
  assumes "traceOk h" "te_urns e \<noteq> Some []"
  shows "traceOk (pushTraceFocal h e)"
proof (cases "\<exists>c. currentTraceEntry h = Some c \<and> traceSeedKey (traceEntrySeeds c) = traceSeedKey (traceEntrySeeds e)")
  case True
  then obtain c where c: "currentTraceEntry h = Some c" "traceSeedKey (traceEntrySeeds c) = traceSeedKey (traceEntrySeeds e)" by blast
  then show ?thesis
    using traceOk_setCurrent [OF assms(1) c(1)] current_ok [OF assms(1) c(1)]
    by (simp add: pushTraceFocal_def Let_def entryOk_def)
next
  case False
  have "set (keptEntries h) \<subseteq> set (th_entries h)" by (auto simp: keptEntries_def dest: in_set_takeD)
  then show ?thesis
    using push_other [of h e] False assms
    by (auto simp: traceOk_def histOk_def list_all_iff entryOk_def)
qed

lemma traceOk_view: "traceOk h \<Longrightarrow> traceOk (updateCurrentTraceView h v)"
  using traceOk_setCurrent [of h] current_ok [of h]
  by (auto simp: updateCurrentTraceView_def entryOk_def split: option.splits)

lemma traceOk_seeds: "traceOk h \<Longrightarrow> traceOk (updateCurrentTraceSeeds h urns focusIdOf)"
  using traceOk_setCurrent [of h] current_ok [of h]
  by (auto simp: updateCurrentTraceSeeds_def Let_def entryOk_def split: option.splits)

lemma histOk_cursor:
  assumes "histOk h" "th_entries h \<noteq> []"
  obtains n where "th_cursor h = of_nat n" "n < length (th_entries h)"
  using assms by (auto simp: histOk_def)

lemma back_at: "th_cursor h = of_nat n \<Longrightarrow> traceHistoryBack h = h\<lparr>th_cursor := of_nat (n - 1)\<rparr>"
  by (cases n) (auto simp: traceHistoryBack_def)

lemma forward_at:
  "th_cursor h = of_nat n \<Longrightarrow> n < length (th_entries h) \<Longrightarrow>
     traceHistoryForward h = h\<lparr>th_cursor := of_nat (if Suc n < length (th_entries h) then Suc n else n)\<rparr>"
proof -
  assume n: "th_cursor h = of_nat n" "n < length (th_entries h)"
  have "(of_nat n :: rat) < of_nat (length (th_entries h)) - 1 \<longleftrightarrow> of_nat (Suc n) < (of_nat (length (th_entries h)) :: rat)" by auto
  moreover have "h\<lparr>th_cursor := of_nat n\<rparr> = h" using n(1) by (cases h) simp
  ultimately show ?thesis using n unfolding traceHistoryForward_def of_nat_less_iff n(1) by (auto simp: add.commute)
qed

lemma traceOk_back: "traceOk h \<Longrightarrow> traceOk (traceHistoryBack h)"
proof (cases "th_entries h = []")
  case False
  assume ok: "traceOk h"
  then obtain n where "th_cursor h = of_nat n" "n < length (th_entries h)" using False histOk_cursor traceOk_def by blast
  then show ?thesis using ok False back_at [of h n] by (auto simp: traceOk_def histOk_def intro!: exI [of _ "n - 1"])
qed (auto simp: traceOk_def histOk_def traceHistoryBack_def)

lemma traceOk_forward: "traceOk h \<Longrightarrow> traceOk (traceHistoryForward h)"
proof (cases "th_entries h = []")
  case False
  assume ok: "traceOk h"
  then obtain n where "th_cursor h = of_nat n" "n < length (th_entries h)" using False histOk_cursor traceOk_def by blast
  then show ?thesis using ok False forward_at [of h n] by (auto simp: traceOk_def histOk_def)
qed (auto simp: traceOk_def histOk_def traceHistoryForward_def)

lemma traceOk_jump: "traceOk h \<Longrightarrow> traceOk (traceHistoryJump h (of_nat n))"
  by (auto simp: traceOk_def histOk_def traceHistoryJump_def)

section \<open>Storing and loading\<close>

text \<open>What storage keeps: the newest entries up to the cap, the cursor on the same entry.\<close>

definition prunedHistory :: "trace_history \<Rightarrow> trace_history" where
  "prunedHistory h =
     (let k = length (th_entries h) - TRACE_HISTORY_CAP
      in if th_entries h = [] then emptyTraceHistory
         else \<lparr>th_entries = drop k (th_entries h), th_cursor = max 0 (th_cursor h - of_nat k)\<rparr>)"

lemma stringify_entry:
  "(case stringify (entryJs e) of None \<Rightarrow> JsonNull | Some j \<Rightarrow> j) = the (stringify (entryJs e))"
  by (simp add: entryJs_def)

lemma entry_text: "unjson (the (stringify (entryJs e))) = entryJs e"
  by (cases "te_urns e") (simp_all add: entryJs_def viewJs_def comp_def)

lemma isValidEntry_entryJs: "te_urns e \<noteq> Some [] \<Longrightarrow> isValidEntry (entryJs e)"
  by (cases "te_urns e") (auto simp: isValidEntry_def entryJs_def viewJs_def objGet_def Let_def list_all_iff)

lemma entryOf_entryJs: "entryOk e \<Longrightarrow> entryOf (entryJs e) = e"
  by (cases "te_urns e")
     (auto simp: entryOf_def entryJs_def viewJs_def objGet_def Let_def entryOk_def normalize_id comp_def)

lemma hydrate_text:
  assumes "\<forall>e \<in> set es. entryOk e" "es \<noteq> []"
  shows "hydrateTraceHistory (Some (Some (JsonObj
      [(''v'', JsonNum STORAGE_VERSION), (''entries'', JsonArr (map (\<lambda>e. the (stringify (entryJs e))) es)),
       (''cursor'', JsonNum q)]))) =
    \<lparr>th_entries = es, th_cursor = max 0 (min q (of_nat (length es) - 1))\<rparr>"
proof -
  let ?p = "JObj [(''v'', JNum (Fin STORAGE_VERSION)), (''entries'', JArr (map entryJs es)), (''cursor'', JNum (Fin q))]"
  have valid: "filter isValidEntry (map entryJs es) = map entryJs es"
    using assms(1) by (auto simp: filter_id_conv entryOk_def intro!: isValidEntry_entryJs)
  have same: "map entryOf (map entryJs es) = es" using assms(1) entryOf_entryJs by (auto intro!: map_idI)
  have parsed: "unjson (JsonObj
      [(''v'', JsonNum STORAGE_VERSION), (''entries'', JsonArr (map (\<lambda>e. the (stringify (entryJs e))) es)),
       (''cursor'', JsonNum q)]) = ?p" by (simp add: entry_text)
  have fields: "field ?p ''v'' = JNum (Fin STORAGE_VERSION)" "field ?p ''entries'' = JArr (map entryJs es)"
    "field ?p ''cursor'' = JNum (Fin q)" by (simp_all add: objGet_def)
  show ?thesis
    using assms(2)
    unfolding hydrateTraceHistory_def option.case Let_def parsed fields jsval.case jsnum.case valid same by simp
qed

lemma hydrate_serialize:
  assumes "traceOk h"
  shows "hydrateTraceHistory (Some (serializeTraceHistory h)) = prunedHistory h"
proof -
  let ?k = "length (th_entries h) - TRACE_HISTORY_CAP"
  let ?es = "drop ?k (th_entries h)"
  let ?c = "max 0 (min (th_cursor h - of_nat ?k) (of_nat (length ?es) - 1))"
  have ok: "\<forall>e \<in> set ?es. entryOk e" using assms by (auto simp: traceOk_def list_all_iff dest: in_set_dropD)
  have es: "(if ?k > 0 then ?es else th_entries h) = ?es" by simp
  have stored: "serializeTraceHistory h = Some (JsonObj
      [(''v'', JsonNum STORAGE_VERSION), (''entries'', JsonArr (map (\<lambda>e. the (stringify (entryJs e))) ?es)),
       (''cursor'', JsonNum (if length ?es = 0 then -1 else ?c))])"
    unfolding serializeTraceHistory_def Let_def es
    by (simp add: comp_def stringify_entry)
  show ?thesis
  proof (cases "th_entries h = []")
    case True
    then show ?thesis unfolding stored hydrateTraceHistory_def by (simp add: objGet_def prunedHistory_def)
  next
    case False
    then obtain n where n: "th_cursor h = of_nat n" "n < length (th_entries h)"
      using assms histOk_cursor traceOk_def by blast
    have ne: "?es \<noteq> []" using n(2) by (cases "th_entries h") (simp_all add: TRACE_HISTORY_CAP_def)
    have "(of_nat (length ?es) :: rat) = of_nat (length (th_entries h)) - of_nat ?k" by (simp add: of_nat_diff)
    moreover have "th_cursor h \<le> of_nat (length (th_entries h)) - 1"
      using n of_nat_le_iff [of "Suc n", where 'a = rat] by fastforce
    moreover have "(0::rat) \<le> of_nat (length ?es) - 1" using ne by (cases ?es) auto
    ultimately have "max 0 (min ?c (of_nat (length ?es) - 1)) = max 0 (th_cursor h - of_nat ?k)" by linarith
    moreover have "(if length ?es = 0 then -1 else ?c) = ?c" using ne by (simp only: length_0_conv if_False)
    ultimately show ?thesis
      unfolding stored hydrate_text [OF ok ne] prunedHistory_def Let_def using False by (simp only: if_False)
  qed
qed

lemma traceOk_pruned: "traceOk h \<Longrightarrow> traceOk (prunedHistory h)"
proof (cases "th_entries h = []")
  case True
  then show ?thesis by (simp add: prunedHistory_def traceOk_def histOk_def emptyTraceHistory_def)
next
  case False
  assume ok: "traceOk h"
  let ?k = "length (th_entries h) - TRACE_HISTORY_CAP"
  obtain n where n: "th_cursor h = of_nat n" "n < length (th_entries h)"
    using ok False histOk_cursor traceOk_def by blast
  have "max 0 (th_cursor h - of_nat ?k) = of_nat (n - ?k)" unfolding n(1) by (cases "?k \<le> n") (auto simp: of_nat_diff)
  moreover have "n - ?k < length (drop ?k (th_entries h))" using n(2) by (simp add: TRACE_HISTORY_CAP_def)
  ultimately show ?thesis
    using ok False by (auto simp: prunedHistory_def Let_def traceOk_def histOk_def list_all_iff dest: in_set_dropD)
qed

inductive trace_step :: "trace_history \<Rightarrow> trace_history \<Rightarrow> bool" where
  push: "te_urns e \<noteq> Some [] \<Longrightarrow> trace_step h (pushTraceFocal h e)"
| view: "trace_step h (updateCurrentTraceView h v)"
| seeds: "trace_step h (updateCurrentTraceSeeds h urns focusIdOf)"
| step_back: "trace_step h (traceHistoryBack h)"
| step_forward: "trace_step h (traceHistoryForward h)"
| jump: "trace_step h (traceHistoryJump h (of_nat n))"
| reload: "trace_step h (hydrateTraceHistory (Some (serializeTraceHistory h)))"

lemma traceOk_step: "trace_step h h' \<Longrightarrow> traceOk h \<Longrightarrow> traceOk h'"
  by (induction rule: trace_step.induct)
     (auto simp: hydrate_serialize intro: traceOk_push traceOk_view traceOk_seeds traceOk_back traceOk_forward
        traceOk_jump traceOk_pruned)

text \<open>
  From the empty history, whatever the reader does (tracing, changing the view, dropping seeds, going back,
  forward or to an entry, reloading the page), the cursor is on an entry whenever there is one, every
  stored picture is sorted without repeats, and no entry names an empty seed set.
\<close>

lemma history_cursor_always_on_an_entry:
  assumes "trace_step\<^sup>*\<^sup>* emptyTraceHistory h"
  shows "traceOk h \<and> (currentTraceEntry h = None \<longleftrightarrow> th_entries h = [])"
proof -
  have "traceOk h"
    using assms
  proof (induction rule: rtranclp_induct)
    case base
    then show ?case by (simp add: traceOk_def histOk_def emptyTraceHistory_def)
  next
    case (step h1 h2)
    then show ?case using traceOk_step by blast
  qed
  then show ?thesis by (simp add: histOk_current traceOk_def)
qed

definition sampleTrace :: "string \<Rightarrow> trace_entry" where
  "sampleTrace u = \<lparr>te_urn = u, te_urns = None, te_focusId = u,
     te_view = \<lparr>showUpstream = True, showDownstream = False, depthUp = 3, depthDown = 2, traceExpansion = [''b'', ''a'', ''b'']\<rparr>,
     te_timestamp = 7\<rparr>"

text \<open>
  C37. A history written to storage and read back is the same history; past the cap only the oldest
  entries are lost and the cursor stays on its entry (or on the oldest one kept).
\<close>

theorem history_round_trip:
  assumes "traceOk h"
  shows "hydrateTraceHistory (Some (serializeTraceHistory h)) = prunedHistory h \<and>
    (length (th_entries h) \<le> TRACE_HISTORY_CAP \<longrightarrow>
       hydrateTraceHistory (Some (serializeTraceHistory h)) = h) \<and>
    (of_nat (length (th_entries h) - TRACE_HISTORY_CAP) \<le> th_cursor h \<longrightarrow>
       currentTraceEntry (hydrateTraceHistory (Some (serializeTraceHistory h))) = currentTraceEntry h)"
proof -
  let ?k = "length (th_entries h) - TRACE_HISTORY_CAP"
  have h: "histOk h" using assms by (simp add: traceOk_def)
  have "prunedHistory h = h" if "length (th_entries h) \<le> TRACE_HISTORY_CAP"
    using that h by (cases h) (auto simp: prunedHistory_def histOk_def emptyTraceHistory_def split: if_splits)
  moreover have "currentTraceEntry (prunedHistory h) = currentTraceEntry h" if k: "of_nat ?k \<le> th_cursor h"
  proof (cases "th_entries h = []")
    case True
    then show ?thesis by (simp add: prunedHistory_def currentTraceEntry_def emptyTraceHistory_def)
  next
    case False
    then obtain n where n: "th_cursor h = of_nat n" "n < length (th_entries h)" using h histOk_cursor by blast
    then have "?k \<le> n" using k by simp
    then have "prunedHistory h = \<lparr>th_entries = drop ?k (th_entries h), th_cursor = of_nat (n - ?k)\<rparr>"
      using False n(1) by (simp add: prunedHistory_def Let_def of_nat_diff)
    then show ?thesis
      using current_at [of "prunedHistory h" "n - ?k"] current_at [OF n] n(2) \<open>?k \<le> n\<close> by simp
  qed
  ultimately show ?thesis by (simp add: hydrate_serialize [OF assms])
qed

theorem history_round_trip_witness:
  "hydrateTraceHistory (Some (serializeTraceHistory (pushTraceFocal emptyTraceHistory (sampleTrace ''u'')))) =
     pushTraceFocal emptyTraceHistory (sampleTrace ''u'')"
proof -
  have "traceOk (pushTraceFocal emptyTraceHistory (sampleTrace ''u''))"
    by (rule traceOk_push) (simp_all add: traceOk_def histOk_def emptyTraceHistory_def sampleTrace_def)
  moreover have "length (th_entries (pushTraceFocal emptyTraceHistory (sampleTrace ''u''))) \<le> TRACE_HISTORY_CAP"
    by code_simp
  ultimately show ?thesis using history_round_trip by blast
qed

text \<open>
  Tracing another focal and going back shows the trace that was left, and going forward again
  shows the new one; tracing the same seed set again adds no entry.
\<close>

lemma push_then_back_restores:
  assumes "traceOk h" "currentTraceEntry h = Some c"
  shows "(traceSeedKey (traceEntrySeeds c) \<noteq> traceSeedKey (traceEntrySeeds e) \<longrightarrow>
      currentTraceEntry (traceHistoryBack (pushTraceFocal h e)) = Some c \<and>
      currentTraceEntry (traceHistoryForward (traceHistoryBack (pushTraceFocal h e))) =
        Some (e\<lparr>te_view := normalizeView (te_view e)\<rparr>)) \<and>
    (traceSeedKey (traceEntrySeeds c) = traceSeedKey (traceEntrySeeds e) \<longrightarrow>
      length (th_entries (pushTraceFocal h e)) = length (th_entries h) \<and>
      currentTraceEntry (pushTraceFocal h e) =
        Some (c\<lparr>te_view := normalizeView (te_view e), te_timestamp := te_timestamp e\<rparr>))"
proof -
  obtain n where n: "th_cursor h = of_nat n" "n < length (th_entries h)" "c = th_entries h ! n"
    using assms(2) by (rule current_Some)
  have kept: "keptEntries h = take n (th_entries h) @ [c]"
    using n by (simp add: keptEntries_def take_Suc_conv_app_nth nat_add_distrib)
  let ?e = "e\<lparr>te_view := normalizeView (te_view e)\<rparr>"
  show ?thesis
  proof (cases "traceSeedKey (traceEntrySeeds c) = traceSeedKey (traceEntrySeeds e)")
    case True
    then show ?thesis using assms(2) n
      by (simp add: pushTraceFocal_def Let_def setCurrent_at current_at [where n = n])
  next
    case False
    let ?p = "\<lparr>th_entries = take n (th_entries h) @ [c, ?e], th_cursor = of_nat (Suc n)\<rparr>"
    have p: "pushTraceFocal h e = ?p"
      using push_other [of h e] False assms n kept by (simp add: traceOk_def)
    have b: "traceHistoryBack ?p = ?p\<lparr>th_cursor := of_nat n\<rparr>" using back_at [of ?p "Suc n"] by simp
    have f: "traceHistoryForward (?p\<lparr>th_cursor := of_nat n\<rparr>) = ?p"
      using forward_at [of "?p\<lparr>th_cursor := of_nat n\<rparr>" n] n(2) by simp
    show ?thesis
      using False n(2) current_at [of ?p "Suc n"] current_at [of "?p\<lparr>th_cursor := of_nat n\<rparr>" n]
      unfolding p b f by (simp add: nth_append)
  qed
qed

section \<open>Seed sets\<close>

lemma joinLines_inj:
  assumes "\<forall>s \<in> set xs \<union> set ys. CHR 0x0A \<notin> set s" "xs \<noteq> []" "ys \<noteq> []" "joinLines xs = joinLines ys"
  shows "xs = ys"
  using assms
proof (induction xs arbitrary: ys rule: joinLines.induct)
  case (2 s)
  show ?case
  proof (cases ys rule: joinLines.cases)
    case (3 t u us)
    then have "CHR 0x0A \<in> set s" using "2.prems"(4) by simp
    then show ?thesis using "2.prems"(1) by simp
  qed (use "2.prems" in auto)
next
  case (3 s t ss)
  show ?case
  proof (cases ys rule: joinLines.cases)
    case (2 u)
    then have "CHR 0x0A \<in> set u" using "3.prems"(4) [symmetric] by simp
    then show ?thesis using "3.prems"(1) 2 by simp
  next
    case y: (3 u v vs)
    have "s @ CHR 0x0A # joinLines (t # ss) = u @ CHR 0x0A # joinLines (v # vs)" using "3.prems"(4) y by simp
    then have "s = u \<and> joinLines (t # ss) = joinLines (v # vs)"
      using "3.prems"(1) y by (intro first_split_unique) auto
    then show ?thesis using "3.IH" [of "v # vs"] "3.prems"(1) y by simp
  qed (use "3.prems" in auto)
qed simp

text \<open>
  Two traces have the same seed key exactly when they trace the same set of entities: order and
  repeats do not matter (URNs have no line feed, which is the separator).
\<close>

lemma seed_key_is_the_seed_set:
  assumes "xs \<noteq> []" "ys \<noteq> []" "\<forall>u \<in> set xs \<union> set ys. CHR 0x0A \<notin> set u"
  shows "traceSeedKey xs = traceSeedKey ys \<longleftrightarrow> set xs = set ys"
proof
  assume "traceSeedKey xs = traceSeedKey ys"
  moreover have "sortedSet zs \<noteq> []" if "zs \<noteq> []" for zs
    using that by (metis set_empty sortedSet_props(3))
  ultimately have "sortedSet xs = sortedSet ys"
    using joinLines_inj [of "sortedSet xs" "sortedSet ys"] assms by (simp add: traceSeedKey_def)
  then show "set xs = set ys" by (simp add: sortedSet_eq_iff)
next
  assume "set xs = set ys"
  then show "traceSeedKey xs = traceSeedKey ys" using sortedSet_eq_iff [of xs ys] by (simp add: traceSeedKey_def)
qed

text \<open>
  The stored cursor is only clamped, not checked to be an index: a history stored with one entry more
  and the cursor 1/2 loads with two entries and no current one, although malformed storage is meant to start
  empty.
\<close>

lemma fractional_cursor_is_loaded:
  "\<exists>j. th_entries (hydrateTraceHistory (Some (Some j))) \<noteq> [] \<and>
     currentTraceEntry (hydrateTraceHistory (Some (Some j))) = None"
proof -
  let ?e = "the (stringify (entryJs (sampleTrace ''u'')))"
  let ?j = "JsonObj [(''v'', JsonNum 1), (''entries'', JsonArr [?e, ?e]), (''cursor'', JsonNum (1/2))]"
  have "th_entries (hydrateTraceHistory (Some (Some ?j))) \<noteq> [] \<and>
      currentTraceEntry (hydrateTraceHistory (Some (Some ?j))) = None" by code_simp
  then show ?thesis by blast
qed

end
