(* ===== verification/Circuit_Breaker.thy ===== *)
theory Circuit_Breaker
  imports Prelude
begin

text \<open>
  \<^verbatim>\<open>services/circuitBreaker.ts\<close>: the breaker that refuses requests to a provider known to be
  down, and the registry of one breaker per workspace, data source and class of endpoint. Times are
  rational milliseconds; every operation that reads the clock takes the time \<open>now\<close>. A breaker
  object is its record of fields, an operation returns the record after it.
\<close>

section \<open>One breaker\<close>

datatype circuit_state = Closed | Open | HalfOpen

definition CIRCUIT_RESET_MS :: rat where
  "CIRCUIT_RESET_MS = 15000"

record breaker =
  cb_state :: circuit_state
  cb_consecutiveFailures :: nat
  cb_lastFailureTime :: rat
  cb_halfOpenPending :: bool
  cb_dynamicResetMs :: "rat option"
  cb_failureThreshold :: nat
  cb_resetTimeoutMs :: rat

definition newBreaker :: "nat \<Rightarrow> rat \<Rightarrow> breaker" where
  "newBreaker threshold resetMs =
     \<lparr>cb_state = Closed, cb_consecutiveFailures = 0, cb_lastFailureTime = 0, cb_halfOpenPending = False,
      cb_dynamicResetMs = None, cb_failureThreshold = threshold, cb_resetTimeoutMs = resetMs\<rparr>"

definition effectiveReset :: "breaker \<Rightarrow> rat" where
  "effectiveReset cb = (case cb_dynamicResetMs cb of None \<Rightarrow> cb_resetTimeoutMs cb | Some d \<Rightarrow> d)"

text \<open>An open breaker whose time is up turns half-open.\<close>

definition reopenIfDue :: "rat \<Rightarrow> breaker \<Rightarrow> breaker" where
  "reopenIfDue now cb =
     (if cb_state cb = Open \<and> now - cb_lastFailureTime cb \<ge> effectiveReset cb
      then cb\<lparr>cb_state := HalfOpen, cb_halfOpenPending := False, cb_dynamicResetMs := None\<rparr> else cb)"

definition canRequest :: "rat \<Rightarrow> breaker \<Rightarrow> bool \<times> breaker" where
  "canRequest now cb =
     (if cb_state cb = Closed then (True, cb)
      else
        let cb' = reopenIfDue now cb
        in if cb_state cb' = Open then (False, cb')
           else if cb_state cb' = HalfOpen
           then (if cb_halfOpenPending cb' then (False, cb')
                 else (True, cb'\<lparr>cb_halfOpenPending := True\<rparr>))
           else (True, cb'))"

definition recordSuccess :: "breaker \<Rightarrow> breaker" where
  "recordSuccess cb = cb\<lparr>cb_state := Closed, cb_consecutiveFailures := 0, cb_halfOpenPending := False\<rparr>"

definition recordFailure :: "rat \<Rightarrow> rat option \<Rightarrow> breaker \<Rightarrow> breaker" where
  "recordFailure now retryAfterMs cb =
     (let cb1 = cb\<lparr>cb_consecutiveFailures := cb_consecutiveFailures cb + 1, cb_lastFailureTime := now,
                   cb_halfOpenPending := False\<rparr>
      in if cb_consecutiveFailures cb1 \<ge> cb_failureThreshold cb1
         then
           let cb2 = cb1\<lparr>cb_state := Open\<rparr>
           in case retryAfterMs of
                Some r \<Rightarrow> if r \<noteq> 0 \<and> r > cb_resetTimeoutMs cb2 then cb2\<lparr>cb_dynamicResetMs := Some r\<rparr> else cb2
              | None \<Rightarrow> cb2
         else cb1)"

definition resetBreaker :: "breaker \<Rightarrow> breaker" where
  "resetBreaker cb = cb\<lparr>cb_state := Closed, cb_consecutiveFailures := 0, cb_halfOpenPending := False\<rparr>"

definition getState :: "rat \<Rightarrow> breaker \<Rightarrow> circuit_state \<times> breaker" where
  "getState now cb = (let cb' = reopenIfDue now cb in (cb_state cb', cb'))"

section \<open>The registry\<close>

datatype endpoint_class = TraceClass | AggregatedClass | ChildrenClass | CanvasClass | DefaultClass

fun className :: "endpoint_class \<Rightarrow> string" where
  "className TraceClass = ''trace''"
| "className AggregatedClass = ''aggregated''"
| "className ChildrenClass = ''children''"
| "className CanvasClass = ''canvas''"
| "className DefaultClass = ''default''"

definition classifyEndpoint :: "string \<Rightarrow> endpoint_class" where
  "classifyEndpoint url =
     (if strIncludes url ''/trace'' \<or> strIncludes url ''/graph/members'' then TraceClass
      else if strIncludes url ''/canvas/'' then CanvasClass
      else if strIncludes url ''/edges/aggregated'' then AggregatedClass
      else if strIncludes url ''/children-with-edges'' \<or> strIncludes url ''/edges/between'' then ChildrenClass
      else DefaultClass)"

type_synonym registry = "(string \<times> breaker) list"

definition orEmpty :: "string option \<Rightarrow> string" where
  "orEmpty x = (case x of None \<Rightarrow> [] | Some s \<Rightarrow> s)"

definition scopePrefix :: "string option \<Rightarrow> string option \<Rightarrow> string" where
  "scopePrefix workspaceId dataSourceId = orEmpty workspaceId @ '':'' @ orEmpty dataSourceId @ '':''"

definition breakerKey :: "string option \<Rightarrow> string option \<Rightarrow> endpoint_class \<Rightarrow> string" where
  "breakerKey workspaceId dataSourceId c = scopePrefix workspaceId dataSourceId @ className c"

text \<open>The breaker object a caller holds is its key in the registry.\<close>

definition getCircuitBreaker ::
    "registry \<Rightarrow> string option \<Rightarrow> string option \<Rightarrow> endpoint_class \<Rightarrow> string \<times> registry" where
  "getCircuitBreaker circuits workspaceId dataSourceId c =
     (let key = breakerKey workspaceId dataSourceId c
      in case map_of circuits key of
           Some cb \<Rightarrow> (key, circuits)
         | None \<Rightarrow> (key, AList.update key (newBreaker 3 CIRCUIT_RESET_MS) circuits))"

text \<open>Calling a method on a held breaker.\<close>

definition onBreaker :: "string \<Rightarrow> (breaker \<Rightarrow> breaker) \<Rightarrow> registry \<Rightarrow> registry" where
  "onBreaker key f circuits = map (\<lambda>(k, cb). (k, if k = key then f cb else cb)) circuits"

definition resetAllCircuitBreakers :: "registry \<Rightarrow> registry" where
  "resetAllCircuitBreakers circuits = map (\<lambda>(k, cb). (k, resetBreaker cb)) circuits"

definition resetCircuitBreakers :: "string option \<Rightarrow> string option \<Rightarrow> registry \<Rightarrow> registry" where
  "resetCircuitBreakers workspaceId dataSourceId circuits =
     (let p = scopePrefix workspaceId dataSourceId
      in map (\<lambda>(k, cb). (k, if prefix p k then resetBreaker cb else cb)) circuits)"

section \<open>Behaviour of one breaker\<close>

text \<open>Everything that can happen to a breaker: it is asked, read, told of an outcome, or reset.\<close>

inductive cb_step :: "breaker \<Rightarrow> breaker \<Rightarrow> bool" where
  ask: "cb_step cb (snd (canRequest now cb))"
| read: "cb_step cb (snd (getState now cb))"
| success: "cb_step cb (recordSuccess cb)"
| failure: "cb_step cb (recordFailure now retry cb)"
| reset: "cb_step cb (resetBreaker cb)"

definition breakerOk :: "nat \<Rightarrow> rat \<Rightarrow> breaker \<Rightarrow> bool" where
  "breakerOk k r cb \<longleftrightarrow> cb_failureThreshold cb = k \<and> cb_resetTimeoutMs cb = r \<and>
     (cb_state cb \<noteq> Closed \<longrightarrow> cb_consecutiveFailures cb \<ge> k) \<and>
     (cb_state cb = Open \<longrightarrow> \<not> cb_halfOpenPending cb) \<and>
     effectiveReset cb \<ge> r"

lemmas breaker_defs = canRequest_def getState_def reopenIfDue_def recordSuccess_def recordFailure_def
  resetBreaker_def effectiveReset_def breakerOk_def Let_def

lemma breakerOk_step: "cb_step cb cb' \<Longrightarrow> breakerOk k r cb \<Longrightarrow> breakerOk k r cb'"
  by (induction rule: cb_step.induct) (auto simp: breaker_defs split: option.splits if_splits)

lemma breakerOk_reachable: "cb_step\<^sup>*\<^sup>* (newBreaker k r) cb \<Longrightarrow> breakerOk k r cb"
proof (induction rule: rtranclp_induct)
  case base
  then show ?case by (simp add: breakerOk_def newBreaker_def effectiveReset_def)
next
  case (step cb1 cb2)
  then show ?case using breakerOk_step by blast
qed

text \<open>
  In every state the breaker can reach: a closed breaker lets every request through; once the
  consecutive failures reach the threshold a further failure opens it, and it then refuses every request until
  the reset time has passed (at least the configured one); after that it lets a request through.
\<close>

lemma breaker_fails_fast_then_probes:
  assumes "cb_step\<^sup>*\<^sup>* (newBreaker k r) cb" "cb_consecutiveFailures cb + 1 \<ge> k"
  shows "(cb_state cb = Closed \<longrightarrow> fst (canRequest now cb)) \<and>
    cb_state (recordFailure t retry cb) = Open \<and> r \<le> effectiveReset (recordFailure t retry cb) \<and>
    fst (canRequest now (recordFailure t retry cb)) =
      (now - t \<ge> effectiveReset (recordFailure t retry cb))"
proof -
  have ok: "breakerOk k r cb" by (rule breakerOk_reachable [OF assms(1)])
  then have "breakerOk k r (recordFailure t retry cb)" using breakerOk_step cb_step.failure by blast
  moreover have "cb_state (recordFailure t retry cb) = Open" "cb_lastFailureTime (recordFailure t retry cb) = t"
    using ok assms(2) by (auto simp: breaker_defs split: option.splits)
  ultimately show ?thesis
    by (simp add: canRequest_def reopenIfDue_def breakerOk_def Let_def)
qed

section \<open>One probe at a time\<close>

fun askAll :: "rat list \<Rightarrow> breaker \<Rightarrow> bool list \<times> breaker" where
  "askAll [] cb = ([], cb)"
| "askAll (t # ts) cb =
     (let (b, cb1) = canRequest t cb; (bs, cb2) = askAll ts cb1 in (b # bs, cb2))"

lemma pending_refuses: "cb_state cb = HalfOpen \<Longrightarrow> cb_halfOpenPending cb \<Longrightarrow> canRequest t cb = (False, cb)"
  by (simp add: breaker_defs)

lemma pending_refuses_all:
  "cb_state cb = HalfOpen \<Longrightarrow> cb_halfOpenPending cb \<Longrightarrow> askAll ts cb = (replicate (length ts) False, cb)"
  by (induction ts) (auto simp: pending_refuses)

lemma probe_once:
  assumes "cb_state cb \<noteq> Closed"
  shows "length (filter id (fst (askAll ts cb))) \<le> 1"
  using assms
proof (induction ts arbitrary: cb)
  case (Cons t ts)
  obtain b cb1 where q: "canRequest t cb = (b, cb1)" by fastforce
  have "cb_state cb1 \<noteq> Closed" using q Cons.prems by (auto simp: breaker_defs split: if_splits)
  moreover have "cb_state cb1 = HalfOpen \<and> cb_halfOpenPending cb1" if b
    using q Cons.prems that by (cases "cb_state cb") (auto simp: breaker_defs split: if_splits)
  ultimately show ?case
    using Cons.IH [of cb1] pending_refuses_all [of cb1 ts] q by (cases b) (auto simp: Let_def split: prod.splits)
qed simp

text \<open>
  C23. A breaker that is not closed lets at most one request through, however many are asked for and at
  whatever times, until an outcome is recorded.
\<close>

theorem one_probe_in_flight:
  assumes "cb_state cb \<noteq> Closed"
  shows "length (filter id (fst (askAll ts cb))) \<le> 1"
  using assms by (rule probe_once)

theorem one_probe_in_flight_witness:
  "length (filter id (fst (askAll [20000, 20001, 90000] (recordFailure 0 None (newBreaker 1 15000))))) \<le> 1"
proof -
  have "cb_state (recordFailure 0 None (newBreaker 1 15000)) \<noteq> Closed" by code_simp
  then show ?thesis by (rule one_probe_in_flight)
qed

text \<open>
  The outcome of the probe decides: a success closes the breaker, and every request passes again; a failure
  opens it again for at least the reset time, in every state the breaker can reach.
\<close>

lemma probe_outcome_decides:
  assumes "cb_step\<^sup>*\<^sup>* (newBreaker k r) cb" "cb_state cb = HalfOpen"
  shows "(list_all id (fst (askAll ts (recordSuccess cb)))) \<and>
    (now - t < r \<longrightarrow> \<not> fst (canRequest now (recordFailure t retry cb)))"
proof -
  have ok: "breakerOk k r cb" by (rule breakerOk_reachable [OF assms(1)])
  have "fst (askAll ts cb') = replicate (length ts) True \<and> snd (askAll ts cb') = cb'" if "cb_state cb' = Closed" for cb'
    using that by (induction ts) (auto simp: canRequest_def Let_def split: prod.splits)
  moreover have "cb_state (recordSuccess cb) = Closed" by (simp add: recordSuccess_def)
  moreover have f: "breakerOk k r (recordFailure t retry cb)" using ok breakerOk_step cb_step.failure by blast
  moreover have "cb_state (recordFailure t retry cb) = Open" "cb_lastFailureTime (recordFailure t retry cb) = t"
    using ok assms(2) by (auto simp: breaker_defs split: option.splits)
  ultimately show ?thesis
    by (auto simp: canRequest_def reopenIfDue_def breakerOk_def Let_def list_all_iff)
qed

text \<open>
  Closing the breaker does not forget the server's Retry-After hint: after a hint of a minute, a success
  and three new failures without a hint, the breaker still refuses for a minute instead of 15 seconds.
\<close>

lemma stale_retry_hint_survives_success:
  "let f = recordFailure; cb = f 3 (Some 60000) (f 2 None (f 1 None (newBreaker 3 CIRCUIT_RESET_MS)));
       cb' = f 103 None (f 102 None (f 101 None (recordSuccess cb)))
   in cb_state cb' = Open \<and> \<not> fst (canRequest (103 + CIRCUIT_RESET_MS) cb') \<and> effectiveReset cb' = 60000"
  by code_simp

section \<open>Isolation\<close>

lemma className_inj: "className c = className d \<Longrightarrow> c = d"
  by (cases c; cases d) simp_all

lemma breakerKey_inj:
  assumes "CHR '':'' \<notin> set (orEmpty w)" "CHR '':'' \<notin> set (orEmpty w')"
    "CHR '':'' \<notin> set (orEmpty d)" "CHR '':'' \<notin> set (orEmpty d')"
    "breakerKey w d c = breakerKey w' d' c'"
  shows "orEmpty w = orEmpty w' \<and> orEmpty d = orEmpty d' \<and> c = c'"
proof -
  have "orEmpty w @ CHR '':'' # (orEmpty d @ CHR '':'' # className c) =
      orEmpty w' @ CHR '':'' # (orEmpty d' @ CHR '':'' # className c')"
    using assms(5) by (simp add: breakerKey_def scopePrefix_def)
  note w = first_split_unique [OF assms(1,2) this]
  note d = first_split_unique [OF assms(3,4) conjunct2 [OF w]]
  show ?thesis using w d className_inj [of c c'] by simp
qed

lemma map_of_onBreaker:
  "map_of (onBreaker key f circuits) k = map_option (\<lambda>cb. if k = key then f cb else cb) (map_of circuits k)"
  unfolding onBreaker_def using mapVal_map_of [of "\<lambda>k cb. if k = key then f cb else cb" circuits k] by simp

text \<open>
  Breakers are isolated: whatever is done to the breaker of one workspace, data source and endpoint
  class, the breaker of any other is unchanged (the ids have no colon, which separates the key's parts).
\<close>

lemma breakers_are_isolated:
  assumes "CHR '':'' \<notin> set (orEmpty w)" "CHR '':'' \<notin> set (orEmpty w')"
    "CHR '':'' \<notin> set (orEmpty d)" "CHR '':'' \<notin> set (orEmpty d')"
    "(orEmpty w, orEmpty d, c) \<noteq> (orEmpty w', orEmpty d', c')"
  shows "map_of (onBreaker (fst (getCircuitBreaker circuits w d c)) f (snd (getCircuitBreaker circuits w d c)))
      (breakerKey w' d' c') = map_of circuits (breakerKey w' d' c')"
proof -
  have "breakerKey w' d' c' \<noteq> breakerKey w d c" using breakerKey_inj [OF assms(1-4)] assms(5) by metis
  then have "map_of (snd (getCircuitBreaker circuits w d c)) (breakerKey w' d' c') = map_of circuits (breakerKey w' d' c')"
    by (simp add: getCircuitBreaker_def Let_def update_conv' split: option.split)
  moreover have "fst (getCircuitBreaker circuits w d c) = breakerKey w d c"
    by (simp add: getCircuitBreaker_def Let_def split: option.split)
  ultimately show ?thesis using \<open>breakerKey w' d' c' \<noteq> breakerKey w d c\<close>
    by (simp add: map_of_onBreaker option.map_ident)
qed

end
