(* ===== verification/Graph_Requests.thy ===== *)
theory Graph_Requests
  imports Circuit_Breaker Js_Values
begin

text \<open>
  \<^verbatim>\<open>services/graphRequestFailure.ts\<close> (how a failed graph request is read) and the request
  loop \<^verbatim>\<open>_doFetch\<close> of \<^verbatim>\<open>providers/RemoteGraphProvider.ts\<close>, which asks the circuit
  breaker, retries idempotent reads and reports outcomes to the breaker.

  What the network does is an input: the replies, one per attempt, with the times at which the loop
  looks at the clock. An error message is compared after \<open>toLowerCase\<close>; a response body is
  represented by its JSON parse, if it has one.
\<close>

section \<open>Failures\<close>

datatype error_class = PlainError | TypeErr | RangeErr | ReferenceErr | SyntaxErr

record js_error =
  er_class :: error_class
  er_message :: string
  er_status :: "rat option"
  er_code :: "string option"
  er_retryAfterMs :: "rat option"

text \<open>A thrown value: an \<open>Error\<close>, or anything else by the string it converts to.\<close>

datatype thrown = Thrown js_error | ThrownOther string

definition isApiStatusError :: "thrown \<Rightarrow> bool" where
  "isApiStatusError err = (case err of Thrown e \<Rightarrow> er_status e \<noteq> None | ThrownOther _ \<Rightarrow> False)"

definition httpStatusOf :: "thrown \<Rightarrow> rat option" where
  "httpStatusOf err = (case err of Thrown e \<Rightarrow> er_status e | ThrownOther _ \<Rightarrow> None)"

definition codeOf :: "thrown \<Rightarrow> string option" where
  "codeOf err = (case err of
     Thrown e \<Rightarrow> if er_status e \<noteq> None then er_code e else None | ThrownOther _ \<Rightarrow> None)"

definition messageOf :: "thrown \<Rightarrow> string" where
  "messageOf err = (case err of Thrown e \<Rightarrow> er_message e | ThrownOther s \<Rightarrow> s)"

definition isNetworkError :: "thrown \<Rightarrow> bool" where
  "isNetworkError err = (case err of
     ThrownOther _ \<Rightarrow> False
   | Thrown e \<Rightarrow>
       if er_class e \<noteq> TypeErr then False
       else let msg = jsLower (er_message e)
            in strIncludes msg ''failed to fetch'' \<or> strIncludes msg ''networkerror'' \<or>
               strIncludes msg ''network request failed'' \<or> strIncludes msg ''load failed'')"

definition isClientTimeout :: "thrown \<Rightarrow> bool" where
  "isClientTimeout err = (case err of
     ThrownOther _ \<Rightarrow> False | Thrown e \<Rightarrow> strIncludes (jsLower (er_message e)) ''timed out'')"

definition isApplicationError :: "thrown \<Rightarrow> bool" where
  "isApplicationError err =
     (if isApiStatusError err \<or> isNetworkError err \<or> isClientTimeout err then False
      else case err of ThrownOther _ \<Rightarrow> False | Thrown e \<Rightarrow> er_class e \<noteq> PlainError)"

definition extractCode :: "json option \<Rightarrow> string option" where
  "extractCode body =
     (case body of
        None \<Rightarrow> None
      | Some j \<Rightarrow>
          let get = (\<lambda>v k. case v of JObj kvs \<Rightarrow> objGet kvs k | _ \<Rightarrow> JUndefined);
              str = (\<lambda>v. case v of JStr s \<Rightarrow> Some s | _ \<Rightarrow> None);
              parsed = unjson j; detail = get parsed ''detail'';
              inner = (case detail of JObj _ \<Rightarrow> True | JArr _ \<Rightarrow> True | _ \<Rightarrow> False)
          in if inner \<and> str (get detail ''code'') \<noteq> None then str (get detail ''code'')
             else if inner \<and> str (get detail ''error'') \<noteq> None then str (get detail ''error'')
             else str (get parsed ''code''))"

definition isFailoverFailure :: "thrown \<Rightarrow> bool" where
  "isFailoverFailure err =
     (if isApiStatusError err \<and> codeOf err = Some ''PROVIDER_FAILING_OVER'' then True
      else strIncludes (messageOf err) ''PROVIDER_FAILING_OVER'')"

datatype failure_kind = Warming | Unavailable | Session | Transient | AppError

definition classifyGraphFailure :: "thrown \<Rightarrow> failure_kind" where
  "classifyGraphFailure err =
     (let message = messageOf err; code = codeOf err; status = httpStatusOf err
      in if code = Some ''PROVIDER_LOADING'' \<or> strIncludes message ''PROVIDER_LOADING'' then Warming
         else if code = Some ''PROVIDER_FAILING_OVER'' \<or> strIncludes message ''PROVIDER_FAILING_OVER'' then Warming
         else if code = Some ''PROVIDER_UNAVAILABLE'' then Unavailable
         else if strIncludes message ''circuit open'' then Unavailable
         else if isApiStatusError err \<and> (status = Some 401 \<or> (status = Some 403 \<and> code = Some ''csrf_failed''))
         then Session
         else if isNetworkError err then Unavailable
         else if isApplicationError err then AppError
         else Transient)"

definition isProviderOutageSignal :: "thrown \<Rightarrow> bool" where
  "isProviderOutageSignal err =
     (if isApiStatusError err then codeOf err = Some ''PROVIDER_UNAVAILABLE'' else isNetworkError err)"

definition MAX_READ_RETRIES :: nat where
  "MAX_READ_RETRIES = 2"

definition readRetryBudget :: "thrown \<Rightarrow> nat" where
  "readRetryBudget err =
     (if isClientTimeout err \<or> (isApiStatusError err \<and> httpStatusOf err = Some 504) then 1
      else MAX_READ_RETRIES)"

definition isRetryableGraphFailure :: "thrown \<Rightarrow> bool" where
  "isRetryableGraphFailure err =
     (if isApiStatusError err
      then (if httpStatusOf err \<in> {Some 429, Some 502, Some 504} then True
            else httpStatusOf err = Some 503 \<and> codeOf err \<noteq> Some ''PROVIDER_UNAVAILABLE'')
      else isClientTimeout err \<or> isNetworkError err)"

definition RETRY_AFTER_CAP_MS :: rat where
  "RETRY_AFTER_CAP_MS = 5000"

definition RETRY_BACKOFF_MS :: "rat list" where
  "RETRY_BACKOFF_MS = [500, 1500]"

text \<open>\<open>random\<close> is the value of \<open>Math.random()\<close>.\<close>

definition retryDelayMs :: "rat \<Rightarrow> thrown \<Rightarrow> nat \<Rightarrow> rat" where
  "retryDelayMs random err attempt =
     (let hinted = (case err of Thrown e \<Rightarrow> if er_status e \<noteq> None then er_retryAfterMs e else None | _ \<Rightarrow> None);
          base = (case hinted of
                    Some h \<Rightarrow> min RETRY_AFTER_CAP_MS h
                  | None \<Rightarrow> RETRY_BACKOFF_MS ! min attempt (length RETRY_BACKOFF_MS - 1))
      in base + of_int \<lfloor>random * 250\<rfloor>)"

text \<open>The read-only POST paths: the strings the anchored patterns match.\<close>

definition READ_ONLY_POST_PATHS :: "string list" where
  "READ_ONLY_POST_PATHS =
     [''/nodes/query'', ''/nodes/page'', ''/nodes/degree'', ''/nodes/ancestor-chains'',
      ''/edges/query'', ''/edges/between'', ''/edges/aggregated'',
      ''/search'', ''/search/advanced'', ''/search/explain'', ''/search/membership'', ''/search/counts'',
      ''/search/ancestor-counts'', ''/search/catalog'', ''/search/exports'', ''/search/view-feed'',
      ''/members'', ''/members/plan'',
      ''/trace'', ''/trace/v2'', ''/trace/closure'', ''/trace/expand'', ''/trace/expand-batch'',
      ''/assignments/compute'']"

definition isDigitChar :: "char \<Rightarrow> bool" where
  "isDigitChar c = (48 \<le> (of_char c :: nat) \<and> (of_char c :: nat) \<le> 57)"

text \<open>\<open>replace(/^\/api\/v\d+(\/[^/]+)?\/graph/, '')\<close>: the optional segment is tried first.\<close>

definition stripGraph :: "string \<Rightarrow> string" where
  "stripGraph path =
     (if \<not> prefix ''/api/v'' path then path
      else
        let r0 = drop 6 path; r = dropWhile isDigitChar r0
        in if length r = length r0 then path
           else
             let seg = takeWhile (\<lambda>c. c \<noteq> CHR ''/'') (drop 1 r);
                 r1 = drop (length seg) (drop 1 r)
             in if prefix ''/'' r \<and> seg \<noteq> [] \<and> prefix ''/graph'' r1 then drop 6 r1
                else if prefix ''/graph'' r then drop 6 r
                else path)"

definition upperChar :: "char \<Rightarrow> char" where
  "upperChar c = (let n = (of_char c :: nat) in if 97 \<le> n \<and> n \<le> 122 then char_of (n - 32) else c)"

text \<open>HTTP method names are ASCII.\<close>

definition isIdempotentGraphRead :: "string \<Rightarrow> string \<Rightarrow> bool" where
  "isIdempotentGraphRead meth url =
     (let m = map upperChar meth
      in if m = ''GET'' \<or> m = ''HEAD'' then True
         else if m \<noteq> ''POST'' then False
         else stripGraph (takeWhile (\<lambda>c. c \<noteq> CHR ''?'') url) \<in> set READ_ONLY_POST_PATHS)"

section \<open>The request loop\<close>

text \<open>One attempt as the network plays it: the fetch rejects, a non-OK response becomes an error, or an OK
  response has a body that reads or not.\<close>

datatype 'd reply = Rejects thrown | NotOk thrown | OkBody "thrown + 'd"

record 'd attempt =
  at_ask :: rat
  at_reply :: "'d reply"
  at_aborted :: bool
  at_settle :: rat
  at_pauseRejects :: "thrown option"

definition plainError :: "string \<Rightarrow> thrown" where
  "plainError msg = Thrown \<lparr>er_class = PlainError, er_message = msg, er_status = None, er_code = None, er_retryAfterMs = None\<rparr>"

text \<open>What the loop does with the reply of attempt \<open>k\<close>: a result, or \<open>None\<close> to try again; and the
  breaker after it.\<close>

definition settleReply ::
    "string \<Rightarrow> string \<Rightarrow> 'd attempt \<Rightarrow> nat \<Rightarrow> breaker \<Rightarrow> (thrown + 'd) option \<times> breaker" where
  "settleReply meth url a k cb =
     (let retryable = isIdempotentGraphRead meth url
      in case at_reply a of
           Rejects err \<Rightarrow>
             if at_aborted a \<or> \<not> (case err of Thrown e \<Rightarrow> er_class e = TypeErr | _ \<Rightarrow> False)
             then (Some (Inl err), cb)
             else if retryable \<and> k < readRetryBudget err \<and> isRetryableGraphFailure err then (None, cb)
             else (Some (Inl (if isClientTimeout err then plainError (''Request timed out: '' @ meth @ '' '' @ url) else err)),
                   if isNetworkError err then recordFailure (at_settle a) None cb else cb)
         | NotOk err \<Rightarrow>
             let cb2 = (if isProviderOutageSignal err
                        then recordFailure (at_settle a) (case err of Thrown e \<Rightarrow> er_retryAfterMs e | _ \<Rightarrow> None) cb
                        else cb)
             in if retryable \<and> k < readRetryBudget err \<and> isRetryableGraphFailure err then (None, cb2)
                else (Some (Inl err), cb2)
         | OkBody (Inl err) \<Rightarrow> (Some (Inl err), cb)
         | OkBody (Inr data) \<Rightarrow> (Some (Inr data), recordSuccess cb))"

lemma settleReply_retry:
  "settleReply meth url a k cb = (None, cb') \<Longrightarrow> isIdempotentGraphRead meth url \<and> k < MAX_READ_RETRIES"
  by (auto simp: settleReply_def readRetryBudget_def MAX_READ_RETRIES_def Let_def
      split: reply.splits sum.splits if_splits)

text \<open>The outcome, the breaker afterwards, and how many times the fetch wrapper was called: the requests a
  call sends are the subject of \<open>Fetch_Timeout\<close>.\<close>

function doFetch ::
    "string \<Rightarrow> string \<Rightarrow> (nat \<Rightarrow> 'd attempt) \<Rightarrow> nat \<Rightarrow> breaker \<Rightarrow> (thrown + 'd) \<times> breaker \<times> nat" where
  "doFetch meth url net k cb =
     (let a = net k; (allowed, cb1) = canRequest (at_ask a) cb
      in if \<not> allowed then (Inl (plainError ''Provider unavailable (circuit open)''), cb1, 0)
         else case settleReply meth url a k cb1 of
           (Some r, cb2) \<Rightarrow> (r, cb2, 1)
         | (None, cb2) \<Rightarrow>
             (case at_pauseRejects a of
                Some e \<Rightarrow> (Inl e, cb2, 1)
              | None \<Rightarrow> (let (r, cb3, n) = doFetch meth url net (Suc k) cb2 in (r, cb3, Suc n))))"
  by pat_completeness auto

termination doFetch
  by (relation "measure (\<lambda>(meth, url, net, k, cb). MAX_READ_RETRIES - k)")
     (auto dest!: settleReply_retry [OF sym])

declare doFetch.simps [simp del]

section \<open>Properties\<close>

lemma doFetch_sends:
  "snd (snd (doFetch meth url net k cb)) \<le>
     (if isIdempotentGraphRead meth url then Suc (MAX_READ_RETRIES - k) else 1)"
proof (induction meth url net k cb rule: doFetch.induct)
  case (1 meth url net k cb)
  obtain b cb1 where ask: "canRequest (at_ask (net k)) cb = (b, cb1)" by fastforce
  obtain r cb2 where st: "settleReply meth url (net k) k cb1 = (r, cb2)" by fastforce
  show ?case
  proof (cases "b \<and> r = None \<and> at_pauseRejects (net k) = None")
    case True
    then have i: "isIdempotentGraphRead meth url" "k < MAX_READ_RETRIES" using settleReply_retry st by blast+
    have "snd (snd (doFetch meth url net (Suc k) cb2)) \<le> Suc (MAX_READ_RETRIES - Suc k)"
      using 1 [OF refl ask [symmetric] refl] True st i by simp
    then show ?thesis
      using True ask st i by (subst doFetch.simps) (auto simp: Let_def split: prod.splits)
  next
    case False
    then show ?thesis using ask st
      by (subst doFetch.simps) (auto simp: Let_def split: prod.splits option.splits)
  qed
qed

text \<open>A reply that confirms an outage.\<close>

definition outageReply :: "'d attempt \<Rightarrow> bool" where
  "outageReply a = (case at_reply a of
     Rejects err \<Rightarrow> isNetworkError err | NotOk err \<Rightarrow> isProviderOutageSignal err | OkBody _ \<Rightarrow> False)"

lemma settleReply_quiet:
  "\<not> outageReply a \<Longrightarrow> settleReply meth url a k cb = (r, cb') \<Longrightarrow> cb' = cb \<or> (\<exists>d. r = Some (Inr d)) \<and> cb' = recordSuccess cb"
  by (auto simp: settleReply_def outageReply_def Let_def split: reply.splits sum.splits if_splits)

lemma doFetch_quiet:
  "\<forall>j. \<not> outageReply (net j) \<Longrightarrow> cb_state cb = Closed \<Longrightarrow>
     fst (snd (doFetch meth url net k cb)) \<in> {cb, recordSuccess cb}"
proof (induction meth url net k cb rule: doFetch.induct)
  case (1 meth url net k cb)
  have ask: "canRequest (at_ask (net k)) cb = (True, cb)" using "1.prems"(2) by (simp add: canRequest_def)
  obtain r cb2 where st: "settleReply meth url (net k) k cb = (r, cb2)" by fastforce
  have q: "cb2 = cb \<or> (\<exists>d. r = Some (Inr d)) \<and> cb2 = recordSuccess cb"
    using settleReply_quiet st "1.prems"(1) by blast
  show ?case
  proof (cases "r = None \<and> at_pauseRejects (net k) = None")
    case True
    then have "fst (snd (doFetch meth url net (Suc k) cb2)) \<in> {cb, recordSuccess cb}"
      using "1.IH" [OF refl ask [symmetric] refl] st q "1.prems" by simp
    then show ?thesis
      using True ask st by (subst doFetch.simps) (auto simp: Let_def split: prod.splits)
  next
    case False
    then show ?thesis using ask st q
      by (subst doFetch.simps) (auto simp: Let_def split: prod.splits option.splits)
  qed
qed

text \<open>
  A slow, shed, rejected or aborted request never opens the breaker: with no confirmed
  outage among the replies, a closed breaker stays closed and its failure count does not grow.
\<close>

lemma only_outages_count:
  assumes "\<forall>j. \<not> outageReply (net j)" "cb_state cb = Closed"
  shows "cb_state (fst (snd (doFetch meth url net 0 cb))) = Closed \<and>
    cb_consecutiveFailures (fst (snd (doFetch meth url net 0 cb))) \<le> cb_consecutiveFailures cb"
  using doFetch_quiet [OF assms, of meth url 0] assms(2) by (auto simp: recordSuccess_def)









text \<open>
  What the overlay says agrees with what the breaker counts: a failure shown as a session problem, as
  slowness or as an application error is never counted as an outage, and a counted one is shown as
  unavailable unless its text says that the provider is loading or failing over.
\<close>

lemma shown_kind_agrees_with_breaker:
  "(classifyGraphFailure err \<in> {Session, Transient, AppError} \<longrightarrow> \<not> isProviderOutageSignal err) \<and>
   (isProviderOutageSignal err \<and> \<not> strIncludes (messageOf err) ''PROVIDER_LOADING'' \<and>
      \<not> strIncludes (messageOf err) ''PROVIDER_FAILING_OVER'' \<longrightarrow> classifyGraphFailure err = Unavailable)"
proof (cases "isApiStatusError err")
  case True
  then show ?thesis by (auto simp: classifyGraphFailure_def isProviderOutageSignal_def Let_def)
next
  case False
  then have "codeOf err = None" by (cases err) (auto simp: codeOf_def isApiStatusError_def)
  then show ?thesis using False by (auto simp: classifyGraphFailure_def isProviderOutageSignal_def Let_def)
qed

end
