(* ===== verification/Staged_Changes.thy ===== *)
theory Staged_Changes
  imports Js_Values
begin

text \<open>
  \<^verbatim>\<open>store/stagedChangesStore.ts\<close>: the edits of a canvas that await Save, per branch, with
  undo and redo, discarding with its cascade, and the run that applies them.

  A change carries closures (hooks) that act on the rest of the application: its state is the type
  variable \<open>'w\<close>, a hook is a function on it. An exception in a discard or reapply hook is caught, so
  such a hook is just its effect on \<open>'w\<close>; an apply hook also gives the message it threw, if any, and
  may register the real id of a temporary one. New ids and the clock are arguments.
\<close>

section \<open>Data\<close>

datatype change_type =
    CreateEntity | RenameEntity | UpdateEntity | DeleteEntity | AssignLayer | MoveToLayer
  | CreateEdge | EditEdge | DeleteEdge | ReverseEdge | MoveEntity | LayerConfig | ReorderNodes

type_synonym temp_ids = "(string \<times> string) list"

record 'w change =
  ch_id :: string
  ch_type :: change_type
  ch_targetId :: string
  ch_targetUrn :: "string option"
  ch_before :: jsval
  ch_after :: jsval
  ch_summary :: string
  ch_apply :: "(temp_ids \<times> 'w \<Rightarrow> string option \<times> temp_ids \<times> 'w) option"
  ch_discard :: "('w \<Rightarrow> 'w) option"
  ch_reapply :: "('w \<Rightarrow> 'w) option"
  ch_timestamp :: rat
  ch_error :: "string option"
  ch_conflict :: "jsval option"

datatype apply_status = Idle | Applying | PartialError

record 'w staged =
  sg_changes :: "'w change list"
  sg_reviewOpen :: bool
  sg_applyStatus :: apply_status
  sg_lastApplyResult :: "(nat \<times> nat) option"
  sg_redoStack :: "'w change list"
  sg_scopeKey :: "string option"
  sg_byScope :: "(string \<times> ('w change list \<times> 'w change list)) list"

definition initialStaged :: "'w staged" where
  "initialStaged = \<lparr>sg_changes = [], sg_reviewOpen = False, sg_applyStatus = Idle, sg_lastApplyResult = None,
     sg_redoStack = [], sg_scopeKey = None, sg_byScope = []\<rparr>"

fun APPLY_ORDER_GROUP :: "change_type \<Rightarrow> nat" where
  "APPLY_ORDER_GROUP DeleteEdge = 1"
| "APPLY_ORDER_GROUP DeleteEntity = 2"
| "APPLY_ORDER_GROUP RenameEntity = 3"
| "APPLY_ORDER_GROUP UpdateEntity = 3"
| "APPLY_ORDER_GROUP EditEdge = 3"
| "APPLY_ORDER_GROUP ReverseEdge = 3"
| "APPLY_ORDER_GROUP AssignLayer = 3"
| "APPLY_ORDER_GROUP MoveToLayer = 3"
| "APPLY_ORDER_GROUP LayerConfig = 3"
| "APPLY_ORDER_GROUP ReorderNodes = 3"
| "APPLY_ORDER_GROUP CreateEntity = 4"
| "APPLY_ORDER_GROUP CreateEdge = 5"
| "APPLY_ORDER_GROUP MoveEntity = 5"

definition GRAPH_DATA_CHANGE_TYPES :: "change_type list" where
  "GRAPH_DATA_CHANGE_TYPES =
     [CreateEntity, RenameEntity, UpdateEntity, DeleteEntity, MoveEntity, CreateEdge, EditEdge, DeleteEdge, ReverseEdge]"

text \<open>The dash of the message is outside Latin-1 and written as a hyphen.\<close>

definition PUBLISHED_READ_ONLY :: string where
  "PUBLISHED_READ_ONLY = ''The published graph is read-only - open a draft to save this change.''"

definition SCOPE_NULL :: string where
  "SCOPE_NULL = ''__none__''"

section \<open>The staged subtree of a change\<close>

fun strField :: "jsval \<Rightarrow> string \<Rightarrow> string option" where
  "strField (JObj kvs) k = (case objGet kvs k of JStr s \<Rightarrow> Some s | _ \<Rightarrow> None)"
| "strField _ k = None"

text \<open>The collected changes with their depths, and the depth of each temporary URN among them. The ids of the
  collected changes are the keys of \<open>depthById\<close>.\<close>

record 'w subtree =
  su_victims :: "'w change list"
  su_depthById :: "(string \<times> nat) list"
  su_urnDepth :: "(string \<times> nat) list"

definition addVictim :: "'w change \<Rightarrow> nat \<Rightarrow> 'w subtree \<Rightarrow> 'w subtree" where
  "addVictim c d su =
     su\<lparr>su_victims := su_victims su @ [c], su_depthById := AList.update (ch_id c) d (su_depthById su)\<rparr>"

definition collectEntity :: "'w change \<Rightarrow> 'w subtree \<Rightarrow> 'w subtree" where
  "collectEntity c su =
     (if ch_type c \<noteq> CreateEntity \<or> map_of (su_depthById su) (ch_id c) \<noteq> None then su
      else
        let pu = strField (ch_after c) ''parentUrn''
        in if truthyStr pu \<and> map_of (su_urnDepth su) (the pu) \<noteq> None
           then
             let d = the (map_of (su_urnDepth su) (the pu)) + 1; su' = addVictim c d su
             in if truthyStr (ch_targetUrn c)
                then su'\<lparr>su_urnDepth := AList.update (the (ch_targetUrn c)) d (su_urnDepth su')\<rparr> else su'
           else su)"

text \<open>The loop runs whole passes over the changes until one collects nothing.\<close>

lemma collectEntity_victims:
  "su_victims (collectEntity c su) = su_victims su \<or>
     su_victims (collectEntity c su) = su_victims su @ [c] \<and>
     map_of (su_depthById su) (ch_id c) = None \<and> map_of (su_depthById (collectEntity c su)) (ch_id c) \<noteq> None"
  by (auto simp: collectEntity_def addVictim_def Let_def update_conv')

lemma collectEntity_known:
  "map_of (su_depthById su) i \<noteq> None \<Longrightarrow> map_of (su_depthById (collectEntity c su)) i \<noteq> None"
  by (auto simp: collectEntity_def addVictim_def Let_def update_conv')

lemma collectPass_known:
  "map_of (su_depthById su) i \<noteq> None \<Longrightarrow> map_of (su_depthById (fold collectEntity cs su)) i \<noteq> None"
  by (induction cs arbitrary: su) (auto simp: collectEntity_known simp del: not_None_eq)

lemma collectPass_grows:
  "length (su_victims (fold collectEntity cs su)) \<noteq> length (su_victims su) \<Longrightarrow>
     \<exists>c \<in> set cs. map_of (su_depthById su) (ch_id c) = None \<and> map_of (su_depthById (fold collectEntity cs su)) (ch_id c) \<noteq> None"
proof (induction cs arbitrary: su)
  case (Cons c cs)
  let ?su = "collectEntity c su"
  show ?case
  proof (cases "su_victims ?su = su_victims su")
    case True
    then obtain e where e: "e \<in> set cs" "map_of (su_depthById ?su) (ch_id e) = None"
        "map_of (su_depthById (fold collectEntity cs ?su)) (ch_id e) \<noteq> None"
      using Cons.IH [of ?su] Cons.prems by auto
    then have "map_of (su_depthById su) (ch_id e) = None" using collectEntity_known [of su "ch_id e" c] by blast
    then show ?thesis using e by auto
  next
    case False
    then have "map_of (su_depthById su) (ch_id c) = None" "map_of (su_depthById ?su) (ch_id c) \<noteq> None"
      using collectEntity_victims [of c su] by auto
    then show ?thesis using collectPass_known [of ?su "ch_id c" cs] by auto
  qed
qed simp

function collectEntities :: "'w change list \<Rightarrow> 'w subtree \<Rightarrow> 'w subtree" where
  "collectEntities cs su =
     (let su' = fold collectEntity cs su
      in if length (su_victims su') \<noteq> length (su_victims su) then collectEntities cs su' else su')"
  by pat_completeness auto

termination collectEntities
proof (relation "measure (\<lambda>(cs, su). length (filter (\<lambda>c. map_of (su_depthById su) (ch_id c) = None) cs))", goal_cases)
  case (2 cs su su')
  obtain e where e: "e \<in> set cs" "map_of (su_depthById su) (ch_id e) = None" "map_of (su_depthById su') (ch_id e) \<noteq> None"
    using collectPass_grows [of cs su] 2 by auto
  have known: "map_of (su_depthById su) i = None" if "map_of (su_depthById su') i = None" for i
    using collectPass_known [of su i cs] 2 that by (cases "map_of (su_depthById su) i") auto
  have "length (filter (\<lambda>c. map_of (su_depthById su') (ch_id c) = None) xs) \<le>
      length (filter (\<lambda>c. map_of (su_depthById su) (ch_id c) = None) xs)" for xs
    using known by (induction xs) (auto simp: le_Suc_eq)
  note le = this
  obtain xs ys where "cs = xs @ e # ys" using e(1) by (meson split_list)
  then show ?case using e(2,3) le [of xs] le [of ys] by auto
qed auto

declare collectEntities.simps [simp del]

definition collectEdge :: "nat \<Rightarrow> 'w change \<Rightarrow> 'w subtree \<Rightarrow> 'w subtree" where
  "collectEdge d c su =
     (if ch_type c \<noteq> CreateEdge \<or> map_of (su_depthById su) (ch_id c) \<noteq> None then su
      else
        let end_of = (\<lambda>k. case strField (ch_after c) k of None \<Rightarrow> [] | Some s \<Rightarrow> s)
        in if ch_after c \<noteq> JUndefined \<and> truthy (ch_after c) \<and>
              (map_of (su_urnDepth su) (end_of ''source'') \<noteq> None \<or> map_of (su_urnDepth su) (end_of ''target'') \<noteq> None)
           then addVictim c d su else su)"

definition startSubtree :: "'w change \<Rightarrow> 'w subtree" where
  "startSubtree rt =
     \<lparr>su_victims = [rt], su_depthById = [(ch_id rt, 0)],
      su_urnDepth = (if ch_type rt = CreateEntity \<and> truthyStr (ch_targetUrn rt)
                     then [(the (ch_targetUrn rt), 0)] else [])\<rparr>"

definition subtreeOf :: "'w change list \<Rightarrow> 'w change \<Rightarrow> 'w subtree" where
  "subtreeOf cs rt =
     (let su0 = startSubtree rt;
          su1 = (if su_urnDepth su0 \<noteq> [] then collectEntities cs su0 else su0);
          maxDepth = fold max (map snd (su_depthById su1)) 0
      in fold (collectEdge (maxDepth + 1)) cs su1)"

definition collectStagedSubtree :: "'w change list \<Rightarrow> 'w change \<Rightarrow> 'w change list" where
  "collectStagedSubtree cs rt =
     (let su = subtreeOf cs rt
      in sort_key (\<lambda>c. - int (case map_of (su_depthById su) (ch_id c) of None \<Rightarrow> 0 | Some d \<Rightarrow> d)) (su_victims su))"

section \<open>Operations\<close>

definition scopeName :: "string option \<Rightarrow> string" where
  "scopeName k = (case k of None \<Rightarrow> SCOPE_NULL | Some s \<Rightarrow> s)"

definition setScope :: "string option \<Rightarrow> 'w staged \<Rightarrow> 'w staged" where
  "setScope key s =
     (if sg_scopeKey s = key then s
      else
        let byScope = AList.update (scopeName (sg_scopeKey s)) (sg_changes s, sg_redoStack s) (sg_byScope s);
            next = (case map_of byScope (scopeName key) of None \<Rightarrow> ([], []) | Some slice \<Rightarrow> slice)
        in s\<lparr>sg_scopeKey := key, sg_byScope := AList.delete (scopeName key) byScope,
             sg_changes := fst next, sg_redoStack := snd next,
             sg_applyStatus := Idle, sg_lastApplyResult := None\<rparr>)"

definition stage :: "string \<Rightarrow> rat \<Rightarrow> 'w change \<Rightarrow> 'w staged \<Rightarrow> 'w staged" where
  "stage newId now input s =
     s\<lparr>sg_changes := sg_changes s @ [input\<lparr>ch_id := newId, ch_timestamp := now\<rparr>], sg_redoStack := []\<rparr>"

definition stageMany :: "'w change list \<Rightarrow> 'w staged \<Rightarrow> 'w staged" where
  "stageMany batch s = s\<lparr>sg_changes := sg_changes s @ batch, sg_redoStack := []\<rparr>"

text \<open>\<open>{ ...c, ...input, before, id, timestamp }\<close>: an optional field the input leaves out is kept.\<close>

definition keepSome :: "'a option \<Rightarrow> 'a option \<Rightarrow> 'a option" where
  "keepSome new old = (case new of None \<Rightarrow> old | Some x \<Rightarrow> Some x)"

definition overlay :: "'w change \<Rightarrow> 'w change \<Rightarrow> 'w change" where
  "overlay input c =
     input\<lparr>ch_id := ch_id c, ch_before := ch_before c,
           ch_targetUrn := keepSome (ch_targetUrn input) (ch_targetUrn c),
           ch_apply := keepSome (ch_apply input) (ch_apply c),
           ch_discard := keepSome (ch_discard input) (ch_discard c),
           ch_reapply := keepSome (ch_reapply input) (ch_reapply c),
           ch_error := keepSome (ch_error input) (ch_error c),
           ch_conflict := keepSome (ch_conflict input) (ch_conflict c)\<rparr>"

definition stageOrReplace ::
    "string \<Rightarrow> rat \<Rightarrow> ('w change \<Rightarrow> bool) \<Rightarrow> 'w change \<Rightarrow> 'w staged \<Rightarrow> string \<times> 'w staged" where
  "stageOrReplace newId now matcher input s =
     (case find matcher (sg_changes s) of
        Some existing \<Rightarrow>
          (ch_id existing,
           s\<lparr>sg_changes := map (\<lambda>c. if ch_id c = ch_id existing
                then (overlay input c)\<lparr>ch_before := ch_before existing, ch_timestamp := now\<rparr> else c) (sg_changes s)\<rparr>)
      | None \<Rightarrow> (newId, stage newId now input s))"

text \<open>\<open>Object.assign\<close> on the \<open>after\<close> object; on \<open>undefined\<close> or \<open>null\<close> it throws (\<open>None\<close>), on another
  primitive it has no effect that can be read back.\<close>

definition patchAfter :: "string \<Rightarrow> (string \<times> jsval) list \<Rightarrow> string option \<Rightarrow> 'w staged \<Rightarrow> 'w staged option" where
  "patchAfter changeId patch summary s =
     (case find (\<lambda>c. ch_id c = changeId) (sg_changes s) of
        None \<Rightarrow> Some s
      | Some change \<Rightarrow>
          if nullish (ch_after change) then None
          else
            let patched = (case ch_after change of JObj kvs \<Rightarrow> JObj (setAll patch kvs) | v \<Rightarrow> v)
            in Some (s\<lparr>sg_changes := map (\<lambda>c. if ch_id c = changeId
                 then c\<lparr>ch_after := patched, ch_summary := (case summary of None \<Rightarrow> ch_summary c | Some t \<Rightarrow> t)\<rparr>
                 else c) (sg_changes s)\<rparr>))"

definition runHook :: "('w \<Rightarrow> 'w) option \<Rightarrow> 'w \<Rightarrow> 'w" where
  "runHook h w = (case h of None \<Rightarrow> w | Some f \<Rightarrow> f w)"

definition discard :: "string \<Rightarrow> 'w staged \<times> 'w \<Rightarrow> 'w staged \<times> 'w" where
  "discard changeId = (\<lambda>(s, w).
     case find (\<lambda>c. ch_id c = changeId) (sg_changes s) of
       None \<Rightarrow> (s, w)
     | Some rt \<Rightarrow>
         let ordered = collectStagedSubtree (sg_changes s) rt;
             w' = fold (\<lambda>v. runHook (ch_discard v)) ordered w
         in (s\<lparr>sg_changes := filter (\<lambda>c. ch_id c \<notin> ch_id ` set ordered) (sg_changes s),
               sg_redoStack := (if ch_type rt = CreateEntity then sg_redoStack s else sg_redoStack s @ ordered)\<rparr>, w'))"

definition discardAll :: "'w staged \<times> 'w \<Rightarrow> 'w staged \<times> 'w" where
  "discardAll = (\<lambda>(s, w).
     (s\<lparr>sg_changes := [], sg_redoStack := [], sg_applyStatus := Idle, sg_lastApplyResult := None\<rparr>,
      fold (\<lambda>c. runHook (ch_discard c)) (rev (sg_changes s)) w))"

definition clearSaved :: "string list \<Rightarrow> 'w staged \<Rightarrow> 'w staged" where
  "clearSaved ids s =
     s\<lparr>sg_changes := filter (\<lambda>c. ch_id c \<notin> set ids) (sg_changes s), sg_redoStack := [], sg_lastApplyResult := None\<rparr>"

definition undo :: "'w staged \<times> 'w \<Rightarrow> bool \<times> 'w staged \<times> 'w" where
  "undo = (\<lambda>(s, w).
     if sg_changes s = [] then (False, s, w)
     else let c = last (sg_changes s)
          in (True, s\<lparr>sg_changes := butlast (sg_changes s), sg_redoStack := sg_redoStack s @ [c]\<rparr>,
              runHook (ch_discard c) w))"

definition redo :: "'w staged \<times> 'w \<Rightarrow> bool \<times> 'w staged \<times> 'w" where
  "redo = (\<lambda>(s, w).
     if sg_redoStack s = [] then (False, s, w)
     else let c = last (sg_redoStack s)
          in (True, s\<lparr>sg_changes := sg_changes s @ [c], sg_redoStack := butlast (sg_redoStack s)\<rparr>,
              runHook (ch_reapply c) w))"

definition canUndo :: "'w staged \<Rightarrow> bool" where
  "canUndo s = (length (sg_changes s) > 0)"

definition canRedo :: "'w staged \<Rightarrow> bool" where
  "canRedo s = (length (sg_redoStack s) > 0)"

text \<open>The run over the sorted changes: how many succeeded and failed, which ones remain, the temporary ids
  resolved so far, and the rest of the application.\<close>

record 'w apply_run =
  ar_ok :: nat
  ar_failed :: nat
  ar_remaining :: "'w change list"
  ar_tempIds :: temp_ids
  ar_world :: 'w

definition applyOne :: "bool option \<Rightarrow> 'w change \<Rightarrow> 'w apply_run \<Rightarrow> 'w apply_run" where
  "applyOne graphWrites c r =
     (if graphWrites = Some False \<and> ch_type c \<in> set GRAPH_DATA_CHANGE_TYPES
      then r\<lparr>ar_failed := ar_failed r + 1, ar_remaining := ar_remaining r @ [c\<lparr>ch_error := Some PUBLISHED_READ_ONLY\<rparr>]\<rparr>
      else case ch_apply c of
        None \<Rightarrow> r\<lparr>ar_ok := ar_ok r + 1\<rparr>
      | Some f \<Rightarrow>
          (case f (ar_tempIds r, ar_world r) of
             (None, ids, w) \<Rightarrow> r\<lparr>ar_ok := ar_ok r + 1, ar_tempIds := ids, ar_world := w\<rparr>
           | (Some err, ids, w) \<Rightarrow>
               r\<lparr>ar_failed := ar_failed r + 1, ar_remaining := ar_remaining r @ [c\<lparr>ch_error := Some err\<rparr>],
                 ar_tempIds := ids, ar_world := w\<rparr>))"

definition applyOrder :: "'w change list \<Rightarrow> 'w change list" where
  "applyOrder changes = sort_key (\<lambda>c. (APPLY_ORDER_GROUP (ch_type c), ch_timestamp c)) changes"

text \<open>The hooks are awaited, so the store may change while they run: \<open>meanwhile\<close> is what happened to it.\<close>

definition applyAll ::
    "bool option \<Rightarrow> ('w staged \<Rightarrow> 'w staged) \<Rightarrow> 'w staged \<times> 'w \<Rightarrow> (nat \<times> nat) \<times> 'w staged \<times> 'w" where
  "applyAll graphWrites meanwhile = (\<lambda>(s, w).
     if sg_changes s = [] then ((0, 0), s, w)
     else
       let s1 = meanwhile (s\<lparr>sg_applyStatus := Applying\<rparr>);
           sorted = applyOrder (sg_changes s);
           r = fold (applyOne graphWrites) sorted
                 \<lparr>ar_ok = 0, ar_failed = 0, ar_remaining = [], ar_tempIds = [], ar_world = w\<rparr>
       in ((ar_ok r, ar_failed r),
           s1\<lparr>sg_changes := ar_remaining r @ filter (\<lambda>c. ch_id c \<notin> ch_id ` set sorted) (sg_changes s1),
              sg_applyStatus := (if ar_failed r > 0 then PartialError else Idle),
              sg_lastApplyResult := Some (ar_ok r, ar_failed r)\<rparr>,
           ar_world r))"

definition hasChange :: "string \<Rightarrow> 'w staged \<Rightarrow> bool" where
  "hasChange targetId s = list_ex (\<lambda>c. ch_targetId c = targetId) (sg_changes s)"

definition getChangesForTarget :: "string \<Rightarrow> 'w staged \<Rightarrow> 'w change list" where
  "getChangesForTarget targetId s = filter (\<lambda>c. ch_targetId c = targetId) (sg_changes s)"

definition countByType :: "'w staged \<Rightarrow> change_type \<Rightarrow> nat" where
  "countByType s t = length (filter (\<lambda>c. ch_type c = t) (sg_changes s))"

definition useLatestStagedChange :: "string \<Rightarrow> 'w staged \<Rightarrow> 'w change option" where
  "useLatestStagedChange targetId s =
     (let matches = filter (\<lambda>c. ch_targetId c = targetId) (sg_changes s)
      in if length matches > 0 then Some (last matches) else None)"

text \<open>\<open>key.split('::')[2]\<close>.\<close>

fun splitScope :: "string \<Rightarrow> string \<Rightarrow> string list" where
  "splitScope acc [] = [acc]"
| "splitScope acc [c] = [acc @ [c]]"
| "splitScope acc (c # d # s) =
     (if c = CHR '':'' \<and> d = CHR '':'' then acc # splitScope [] s else splitScope (acc @ [c]) (d # s))"

definition unsavedCountOnBranch :: "'w staged \<Rightarrow> string option \<Rightarrow> nat" where
  "unsavedCountOnBranch s branchId =
     (if \<not> truthyStr branchId then 0
      else
        let onBranch = (\<lambda>key. let parts = splitScope [] key in length parts > 2 \<and> parts ! 2 = the branchId)
        in (case sg_scopeKey s of None \<Rightarrow> 0 | Some k \<Rightarrow> if onBranch k then length (sg_changes s) else 0) +
           sum_list (map (\<lambda>(k, slice). if onBranch k then length (fst slice) else 0) (sg_byScope s)))"

datatype badge_color = Green | Amber | Red

fun stagedChangeColor :: "change_type \<Rightarrow> badge_color" where
  "stagedChangeColor CreateEntity = Green"
| "stagedChangeColor CreateEdge = Green"
| "stagedChangeColor DeleteEntity = Red"
| "stagedChangeColor DeleteEdge = Red"
| "stagedChangeColor _ = Amber"

section \<open>Undo and redo\<close>

fun undoN :: "nat \<Rightarrow> 'w staged \<times> 'w \<Rightarrow> 'w staged \<times> 'w" where
  "undoN 0 p = p"
| "undoN (Suc n) p = undoN n (snd (undo p))"

fun redoN :: "nat \<Rightarrow> 'w staged \<times> 'w \<Rightarrow> 'w staged \<times> 'w" where
  "redoN 0 p = p"
| "redoN (Suc n) p = redoN n (snd (redo p))"

lemma redoN_Suc_outer: "redoN (Suc n) p = snd (redo (redoN n p))"
  by (induction n arbitrary: p) simp_all

lemma undo_redo_one:
  assumes "sg_changes s \<noteq> []" "\<And>w. runHook (ch_reapply (last (sg_changes s))) (runHook (ch_discard (last (sg_changes s))) w) = w"
  shows "snd (redo (snd (undo (s, w)))) = (s, w)"
  using assms by (simp add: undo_def redo_def Let_def append_butlast_last_id)

lemma undo_redo_n:
  assumes "n \<le> length (sg_changes s)"
    "\<forall>c \<in> set (sg_changes s). \<forall>w. runHook (ch_reapply c) (runHook (ch_discard c) w) = w"
  shows "redoN n (undoN n (s, w)) = (s, w)"
  using assms
proof (induction n arbitrary: s w)
  case (Suc n)
  have ne: "sg_changes s \<noteq> []" using Suc.prems(1) by auto
  obtain s1 w1 where u: "snd (undo (s, w)) = (s1, w1)" by fastforce
  have s1: "sg_changes s1 = butlast (sg_changes s)" using u ne by (auto simp: undo_def Let_def)
  then have "redoN n (undoN n (s1, w1)) = (s1, w1)"
    using Suc.prems by (intro Suc.IH) (auto dest: in_set_butlastD)
  then have "redoN (Suc n) (undoN (Suc n) (s, w)) = snd (redo (snd (undo (s, w))))"
    unfolding redoN_Suc_outer by (simp add: u)
  then show ?case using undo_redo_one [OF ne, of w] Suc.prems(2) ne by simp
qed simp

section \<open>Scopes\<close>

definition sliceOf :: "'w staged \<Rightarrow> string option \<Rightarrow> 'w change list \<times> 'w change list" where
  "sliceOf s key =
     (if sg_scopeKey s = key then (sg_changes s, sg_redoStack s)
      else case map_of (sg_byScope s) (scopeName key) of None \<Rightarrow> ([], []) | Some x \<Rightarrow> x)"

text \<open>Everything a session does to the active scope.\<close>

inductive edit_step :: "'w staged \<times> 'w \<Rightarrow> 'w staged \<times> 'w \<Rightarrow> bool" where
  stage: "edit_step (s, w) (stage i now input s, w)"
| many: "edit_step (s, w) (stageMany batch s, w)"
| replace: "edit_step (s, w) (snd (stageOrReplace i now matcher input s), w)"
| patch: "patchAfter i p t s = Some s' \<Longrightarrow> edit_step (s, w) (s', w)"
| discard: "edit_step (s, w) (discard i (s, w))"
| discard_all: "edit_step (s, w) (discardAll (s, w))"
| clear: "edit_step (s, w) (clearSaved ids s, w)"
| undo: "edit_step (s, w) (snd (undo (s, w)))"
| redo: "edit_step (s, w) (snd (redo (s, w)))"
| apply_all: "edit_step (s, w) (snd (applyAll gw (\<lambda>s. s) (s, w)))"

lemmas staged_defs = stage_def stageMany_def stageOrReplace_def patchAfter_def discard_def discardAll_def
  clearSaved_def undo_def redo_def applyAll_def Let_def

lemma edit_keeps_scope:
  "edit_step p q \<Longrightarrow> sg_scopeKey (fst q) = sg_scopeKey (fst p) \<and> sg_byScope (fst q) = sg_byScope (fst p)"
  by (induction rule: edit_step.induct) (auto simp: staged_defs split: option.splits if_splits)

lemma scopeName_inj: "a \<noteq> Some SCOPE_NULL \<Longrightarrow> b \<noteq> Some SCOPE_NULL \<Longrightarrow> scopeName a = scopeName b \<Longrightarrow> a = b"
  by (auto simp: scopeName_def split: option.splits)

lemma setScope_slices:
  assumes "sg_scopeKey s \<noteq> Some SCOPE_NULL" "key \<noteq> Some SCOPE_NULL" "j \<noteq> Some SCOPE_NULL"
  shows "sliceOf (setScope key s) j = sliceOf s j"
proof (cases "sg_scopeKey s = key")
  case False
  have names: "scopeName j = scopeName (sg_scopeKey s) \<longleftrightarrow> j = sg_scopeKey s" "scopeName j = scopeName key \<longleftrightarrow> j = key"
      "scopeName key \<noteq> scopeName (sg_scopeKey s)"
    using scopeName_inj assms False by metis+
  then show ?thesis
    using False by (auto simp: setScope_def sliceOf_def Let_def update_conv' delete_conv' split: option.splits)
qed (simp add: setScope_def)

text \<open>
  A branch's staged edits are its own: switching scope changes no scope's edits or redo stack, and an
  edit of any kind changes those of the active scope only (no scope is named like the sentinel).
\<close>

lemma scopes_are_isolated:
  assumes "sg_scopeKey s \<noteq> Some SCOPE_NULL" "key \<noteq> Some SCOPE_NULL" "j \<noteq> Some SCOPE_NULL"
  shows "sliceOf (setScope key s) j = sliceOf s j \<and>
    (edit_step (s, w) (s', w') \<and> j \<noteq> sg_scopeKey s \<longrightarrow> sliceOf s' j = sliceOf s j)"
  using setScope_slices [OF assms] edit_keeps_scope [of "(s, w)" "(s', w')"] by (auto simp: sliceOf_def)

definition sampleChange :: "string \<Rightarrow> change_type \<Rightarrow> nat change" where
  "sampleChange i t = \<lparr>ch_id = i, ch_type = t, ch_targetId = i, ch_targetUrn = Some (''urn:staged:'' @ i), ch_before = JUndefined,
     ch_after = JObj [(''name'', JStr i)], ch_summary = i, ch_apply = Some (\<lambda>(ids, w). (Some ''offline'', ids, w)),
     ch_discard = Some (\<lambda>w. w + 1), ch_reapply = Some (\<lambda>w. w - 1), ch_timestamp = 0, ch_error = None, ch_conflict = None\<rparr>"

text \<open>
  C28. Undoing any number of staged changes and redoing as many gives back exactly the store and
  the application as they were, when each change's reapply hook undoes its discard hook.
\<close>

theorem redo_undoes_undo:
  assumes "n \<le> length (sg_changes s)"
    "\<forall>c \<in> set (sg_changes s). \<forall>w. runHook (ch_reapply c) (runHook (ch_discard c) w) = w"
  shows "redoN n (undoN n (s, w)) = (s, w)"
  using assms by (rule undo_redo_n)

theorem redo_undoes_undo_witness:
  "redoN 2 (undoN 2 (stageMany [sampleChange ''x'' CreateEntity, sampleChange ''y'' RenameEntity] initialStaged, 5)) =
     (stageMany [sampleChange ''x'' CreateEntity, sampleChange ''y'' RenameEntity] initialStaged, 5)"
  by (rule redo_undoes_undo) (auto simp: stageMany_def initialStaged_def sampleChange_def runHook_def)

text \<open>
  Switching the branch while changes are being applied leaks them: the run ends by writing its failed
  changes into whichever scope is active then. Here the only change of the null scope fails while the user
  switches to scope b, and ends up among the changes of b.
\<close>

lemma apply_during_switch_leaks:
  "\<exists>(s :: nat staged) w c.
     sg_scopeKey s = None \<and> sliceOf s (Some ''b'') = ([], []) \<and>
     (let s' = fst (snd (applyAll None (setScope (Some ''b'')) (s, w)))
      in map ch_id (fst (sliceOf s' (Some ''b''))) = [ch_id c] \<and> c \<in> set (sg_changes s))"
proof -
  let ?s = "stageMany [sampleChange ''x'' CreateEntity] initialStaged"
  have "sg_scopeKey ?s = None \<and> sliceOf ?s (Some ''b'') = ([], []) \<and>
      map ch_id (fst (sliceOf (fst (snd (applyAll None (setScope (Some ''b'')) (?s, 0)))) (Some ''b''))) = [''x'']"
    by (simp add: stageMany_def initialStaged_def sliceOf_def applyAll_def setScope_def applyOrder_def applyOne_def
        sampleChange_def scopeName_def SCOPE_NULL_def Let_def)
  then show ?thesis
    by (intro exI [of _ ?s] exI [of _ 0] exI [of _ "sampleChange ''x'' CreateEntity"])
       (simp add: Let_def stageMany_def initialStaged_def sampleChange_def)
qed

section \<open>Applying\<close>

text \<open>What running the hooks one after the other comes to: the error of each change, if it has one, and the temporary ids
  and the world the last one leaves. On the published graph no hook of a graph edit is run.\<close>

definition hookResult :: "bool option \<Rightarrow> 'w change \<Rightarrow> (string \<times> string) list \<times> 'w \<Rightarrow> string option \<times> (string \<times> string) list \<times> 'w" where
  "hookResult graphWrites c st =
     (if graphWrites = Some False \<and> ch_type c \<in> set GRAPH_DATA_CHANGE_TYPES then (Some PUBLISHED_READ_ONLY, st)
      else case ch_apply c of None \<Rightarrow> (None, st) | Some hook \<Rightarrow> hook st)"

fun hookResults :: "bool option \<Rightarrow> 'w change list \<Rightarrow> (string \<times> string) list \<times> 'w \<Rightarrow> ('w change \<times> string option) list \<times> (string \<times> string) list \<times> 'w" where
  "hookResults graphWrites [] st = ([], st)"
| "hookResults graphWrites (c # cs) st =
     (let (err, st1) = hookResult graphWrites c st; (rest, st2) = hookResults graphWrites cs st1 in ((c, err) # rest, st2))"

definition withErrors :: "('w change \<times> string option) list \<Rightarrow> 'w change list" where
  "withErrors rs = map (\<lambda>(c, err). c\<lparr>ch_error := err\<rparr>) (filter (\<lambda>(c, err). err \<noteq> None) rs)"

lemma hookResults_changes: "map fst (fst (hookResults gw cs st)) = cs"
  by (induction cs arbitrary: st) (simp_all add: Let_def case_prod_beta)

lemma applyOne_result:
  "applyOne gw c r = (let (err, ids, w) = hookResult gw c (ar_tempIds r, ar_world r)
     in r\<lparr>ar_ok := ar_ok r + (if err = None then 1 else 0), ar_failed := ar_failed r + (if err = None then 0 else 1),
          ar_remaining := ar_remaining r @ withErrors [(c, err)], ar_tempIds := ids, ar_world := w\<rparr>)"
  by (auto simp: applyOne_def hookResult_def withErrors_def split: option.splits prod.splits)

lemma applyRun_results:
  "fold (applyOne gw) cs r =
     (let (rs, ids, w) = hookResults gw cs (ar_tempIds r, ar_world r)
      in r\<lparr>ar_ok := ar_ok r + length (filter (\<lambda>(c, err). err = None) rs), ar_failed := ar_failed r + length (filter (\<lambda>(c, err). err \<noteq> None) rs),
           ar_remaining := ar_remaining r @ withErrors rs, ar_tempIds := ids, ar_world := w\<rparr>)"
proof (induction cs arbitrary: r)
  case (Cons c cs)
  obtain err ids w where one: "hookResult gw c (ar_tempIds r, ar_world r) = (err, ids, w)" by (metis prod_cases3)
  obtain rs ids' w' where rest: "hookResults gw cs (ids, w) = (rs, ids', w')" by (metis prod_cases3)
  define r1 where "r1 = applyOne gw c r"
  have r1: "r1 = r\<lparr>ar_ok := ar_ok r + (if err = None then 1 else 0), ar_failed := ar_failed r + (if err = None then 0 else 1),
      ar_remaining := ar_remaining r @ withErrors [(c, err)], ar_tempIds := ids, ar_world := w\<rparr>"
    unfolding r1_def applyOne_result one by simp
  have "fold (applyOne gw) (c # cs) r = fold (applyOne gw) cs r1" by (simp add: r1_def)
  also have "\<dots> = (let (rs, ids, w) = hookResults gw cs (ar_tempIds r1, ar_world r1)
      in r1\<lparr>ar_ok := ar_ok r1 + length (filter (\<lambda>(c, err). err = None) rs), ar_failed := ar_failed r1 + length (filter (\<lambda>(c, err). err \<noteq> None) rs),
           ar_remaining := ar_remaining r1 @ withErrors rs, ar_tempIds := ids, ar_world := w\<rparr>)" by (rule Cons.IH)
  finally show ?case using rest unfolding r1 by (simp add: one withErrors_def)
qed (simp add: withErrors_def)

lemma published_edit_fails:
  "gw = Some False \<Longrightarrow> ch_type c \<in> set GRAPH_DATA_CHANGE_TYPES \<Longrightarrow> c \<in> set cs
     \<Longrightarrow> c\<lparr>ch_error := Some PUBLISHED_READ_ONLY\<rparr> \<in> set (withErrors (fst (hookResults gw cs st)))"
proof (induction cs arbitrary: st)
  case (Cons d cs)
  obtain err st1 where one: "hookResult gw d st = (err, st1)" by (metis surj_pair)
  obtain rs st2 where rest: "hookResults gw cs st1 = (rs, st2)" by (metis surj_pair)
  have "withErrors (fst (hookResults gw (d # cs) st)) = withErrors [(d, err)] @ withErrors rs" by (simp add: one rest withErrors_def)
  moreover have "err = Some PUBLISHED_READ_ONLY" if "c = d" using one Cons.prems that by (simp add: hookResult_def)
  ultimately show ?case using Cons.IH [of st1] Cons.prems rest by (cases "c = d") (auto simp: withErrors_def)
qed simp

text \<open>
  C11. Saving loses no edit: every staged change is tried once, edges deleted before entities, those before updates,
  and creations last, each group by its time of staging; a change leaves the staged ones exactly when its hook succeeded, those
  whose hook failed stay in that order, each with the error of its hook, before what was staged while the save ran; the counts
  are those of the hooks' outcomes; and on the published graph no hook of a graph edit runs and every one of them stays.
\<close>

theorem save_loses_no_edit:
  assumes "sg_changes s \<noteq> []"
  shows "let sorted = applyOrder (sg_changes s);
             (results, ids, wEnd) = hookResults gw sorted ([], w);
             (counts, s', w') = applyAll gw meanwhile (s, w);
             s1 = meanwhile (s\<lparr>sg_applyStatus := Applying\<rparr>)
    in mset sorted = mset (sg_changes s)
       \<and> sorted_wrt (\<lambda>c d. (APPLY_ORDER_GROUP (ch_type c), ch_timestamp c) \<le> (APPLY_ORDER_GROUP (ch_type d), ch_timestamp d)) sorted
       \<and> map fst results = sorted
       \<and> sg_changes s' = withErrors results @ filter (\<lambda>c. ch_id c \<notin> ch_id ` set (sg_changes s)) (sg_changes s1)
       \<and> counts = (length (filter (\<lambda>(c, err). err = None) results), length (filter (\<lambda>(c, err). err \<noteq> None) results))
       \<and> w' = wEnd
       \<and> (gw = Some False \<longrightarrow> (\<forall>c \<in> set (sg_changes s). ch_type c \<in> set GRAPH_DATA_CHANGE_TYPES \<longrightarrow>
            c\<lparr>ch_error := Some PUBLISHED_READ_ONLY\<rparr> \<in> set (sg_changes s')))"
proof -
  let ?sorted = "applyOrder (sg_changes s)"
  obtain rs ids w1 where run: "hookResults gw ?sorted ([], w) = (rs, ids, w1)" by (metis prod_cases3)
  have set: "set ?sorted = set (sg_changes s)" "mset ?sorted = mset (sg_changes s)" by (simp_all add: applyOrder_def)
  have order: "sorted_wrt (\<lambda>c d. (APPLY_ORDER_GROUP (ch_type c), ch_timestamp c) \<le> (APPLY_ORDER_GROUP (ch_type d), ch_timestamp d)) ?sorted"
    using sorted_sort_key [of "\<lambda>c. (APPLY_ORDER_GROUP (ch_type c), ch_timestamp c)" "sg_changes s"]
    by (simp add: applyOrder_def sorted_map)
  have kept: "c\<lparr>ch_error := Some PUBLISHED_READ_ONLY\<rparr> \<in> set (withErrors rs)"
    if "gw = Some False" "c \<in> set (sg_changes s)" "ch_type c \<in> set GRAPH_DATA_CHANGE_TYPES" for c
    using published_edit_fails [of gw c ?sorted "([], w)"] that run set by simp
  show ?thesis using assms run set order kept hookResults_changes [of gw ?sorted "([], w)"]
    by (simp add: applyAll_def Let_def applyRun_results)
qed

text \<open>Two changes, of which the hook of one fails and is the only one that stays.\<close>

definition failing_pair :: "nat change list" where
  "failing_pair = [(sampleChange ''x'' CreateEntity)\<lparr>ch_apply := Some (\<lambda>(ids, w). (None, ids, w))\<rparr>,
     (sampleChange ''y'' DeleteEdge)\<lparr>ch_apply := Some (\<lambda>(ids, w). (Some ''refused'', ids, w))\<rparr>]"

theorem save_loses_no_edit_witness:
  "map (\<lambda>c. (ch_id c, ch_error c)) (sg_changes (fst (snd (applyAll None (\<lambda>s. s) (initialStaged\<lparr>sg_changes := failing_pair\<rparr>, 0)))))
     = [(''y'', Some ''refused'')]
   \<and> fst (applyAll None (\<lambda>s. s) (initialStaged\<lparr>sg_changes := failing_pair\<rparr>, 0)) = (1, 1)"
proof -
  let ?s = "initialStaged\<lparr>sg_changes := failing_pair\<rparr>"
  have run: "applyOrder failing_pair = rev failing_pair"
    by (simp add: failing_pair_def applyOrder_def sampleChange_def)
  have "sg_changes ?s \<noteq> []" by (simp add: failing_pair_def)
  note save = save_loses_no_edit [OF this, of None 0 "\<lambda>s. s"]
  let ?x = "failing_pair ! 0" and ?y = "failing_pair ! 1"
  have "hookResults None (rev failing_pair) ([], 0) = ([(?y, Some ''refused''), (?x, None)], [], 0)"
    by (simp add: failing_pair_def hookResult_def sampleChange_def)
  then have results: "hookResults None (applyOrder failing_pair) ([], 0) = ([(?y, Some ''refused''), (?x, None)], [], 0)"
    by (simp add: run)
  have none: "filter (\<lambda>c. ch_id c \<notin> ch_id ` set failing_pair) failing_pair = []" by (simp add: filter_empty_conv)
  obtain counts s' w' where all: "applyAll None (\<lambda>s. s) (?s, 0) = (counts, s', w')" by (metis prod_cases3)
  have "counts = (1, 1)" "sg_changes s' = [?y\<lparr>ch_error := Some ''refused''\<rparr>]"
    using save unfolding all by (simp_all add: Let_def results withErrors_def none)
  then show ?thesis using all by (simp add: failing_pair_def sampleChange_def)
qed

end
