(* ===== verification/Staged_Discard.thy ===== *)
theory Staged_Discard
  imports Staged_Changes
begin

text \<open>
  Discarding a staged change (\<open>discard\<close> and \<open>collectStagedSubtree\<close> of \<^verbatim>\<open>store/stagedChangesStore.ts\<close>)
  takes along what depends on it: the staged entities under it and the staged edges at any of them, in an
  order that runs a child's hook before its parent's, and nothing else.
\<close>

section \<open>What depends on a staged change\<close>

definition entityUrn :: "'w change \<Rightarrow> string \<Rightarrow> bool" where
  "entityUrn c u \<longleftrightarrow> ch_type c = CreateEntity \<and> ch_targetUrn c = Some u \<and> u \<noteq> []"

definition stagedUnder :: "'w change \<Rightarrow> string \<Rightarrow> bool" where
  "stagedUnder c u \<longleftrightarrow> ch_type c = CreateEntity \<and> strField (ch_after c) ''parentUrn'' = Some u"

definition edgeAt :: "'w change \<Rightarrow> string \<Rightarrow> bool" where
  "edgeAt c u \<longleftrightarrow> ch_type c = CreateEdge \<and>
     (strField (ch_after c) ''source'' = Some u \<or> strField (ch_after c) ''target'' = Some u)"

inductive descends :: "'w change list \<Rightarrow> 'w change \<Rightarrow> 'w change \<Rightarrow> bool" for cs rt where
  self: "descends cs rt rt"
| under: "descends cs rt v \<Longrightarrow> entityUrn v u \<Longrightarrow> c \<in> set cs \<Longrightarrow> stagedUnder c u \<Longrightarrow> descends cs rt c"

section \<open>The collecting passes\<close>

definition candidate :: "'w change \<Rightarrow> 'w subtree \<Rightarrow> bool" where
  "candidate c su \<longleftrightarrow> map_of (su_depthById su) (ch_id c) = None \<and>
     (\<exists>u d. stagedUnder c u \<and> u \<noteq> [] \<and> map_of (su_urnDepth su) u = Some d)"

lemma collectEntity_cases:
  obtains "\<not> candidate c su" "collectEntity c su = su"
  | u d where "map_of (su_depthById su) (ch_id c) = None" "stagedUnder c u" "u \<noteq> []" "map_of (su_urnDepth su) u = Some d"
      "collectEntity c su = su\<lparr>su_victims := su_victims su @ [c],
         su_depthById := AList.update (ch_id c) (d + 1) (su_depthById su),
         su_urnDepth := (if truthyStr (ch_targetUrn c) then AList.update (the (ch_targetUrn c)) (d + 1) (su_urnDepth su)
                         else su_urnDepth su)\<rparr>"
proof (cases "candidate c su")
  case True
  then obtain u d where u: "map_of (su_depthById su) (ch_id c) = None" "stagedUnder c u" "u \<noteq> []" "map_of (su_urnDepth su) u = Some d"
    by (auto simp: candidate_def)
  then show thesis
    by (intro that(2) [OF u]) (simp add: collectEntity_def addVictim_def stagedUnder_def Let_def)
next
  case False
  then have "collectEntity c su = su"
    by (cases "strField (ch_after c) ''parentUrn''")
       (auto simp: collectEntity_def candidate_def stagedUnder_def Let_def)
  then show thesis using False that(1) by blast
qed

lemma pass_length: "length (su_victims su) \<le> length (su_victims (fold collectEntity cs su))"
proof (induction cs arbitrary: su)
  case (Cons c cs)
  have "length (su_victims su) \<le> length (su_victims (collectEntity c su))"
    by (cases rule: collectEntity_cases [of c su]) auto
  then show ?case using Cons [of "collectEntity c su"] by simp
qed simp

lemma pass_fixed:
  "length (su_victims (fold collectEntity cs su)) = length (su_victims su) \<Longrightarrow>
     fold collectEntity cs su = su \<and> (\<forall>c \<in> set cs. \<not> candidate c su)"
proof (induction cs arbitrary: su)
  case (Cons c cs)
  show ?case
  proof (cases rule: collectEntity_cases [of c su])
    case 1
    then show ?thesis using Cons by simp
  next
    case (2 u d)
    then have "length (su_victims (collectEntity c su)) = Suc (length (su_victims su))" by simp
    then show ?thesis using Cons.prems pass_length [of "collectEntity c su" cs] by simp
  qed
qed simp

lemma collectEntities_closed: "c \<in> set cs \<Longrightarrow> \<not> candidate c (collectEntities cs su)"
proof (induction cs su rule: collectEntities.induct)
  case (1 cs su)
  show ?case
  proof (cases "length (su_victims (fold collectEntity cs su)) = length (su_victims su)")
    case True
    then have "collectEntities cs su = su"
      using pass_fixed [OF True] by (subst collectEntities.simps) (simp add: Let_def)
    then show ?thesis using pass_fixed [OF True] "1.prems" by simp
  next
    case False
    then have "collectEntities cs su = collectEntities cs (fold collectEntity cs su)"
      by (subst collectEntities.simps) (simp add: Let_def)
    then show ?thesis using "1.IH" [OF refl False "1.prems"] by simp
  qed
qed

text \<open>What the passes keep: the depth table has exactly the collected changes, the URN table exactly the
  temporary URNs of the collected entities, and every collected change descends from the first.\<close>

definition treeInv :: "'w change list \<Rightarrow> 'w change \<Rightarrow> 'w subtree \<Rightarrow> bool" where
  "treeInv cs rt su \<longleftrightarrow>
     (\<forall>i. map_of (su_depthById su) i \<noteq> None \<longleftrightarrow> i \<in> ch_id ` set (su_victims su)) \<and>
     (\<forall>u. map_of (su_urnDepth su) u \<noteq> None \<longleftrightarrow> (\<exists>v \<in> set (su_victims su). entityUrn v u)) \<and>
     (\<forall>v \<in> set (su_victims su). descends cs rt v) \<and> rt \<in> set (su_victims su)"

lemma treeInv_known: "treeInv cs rt su \<Longrightarrow> map_of (su_depthById su) i \<noteq> None \<longleftrightarrow> i \<in> ch_id ` set (su_victims su)"
  by (simp only: treeInv_def)

lemma treeInv_urn: "treeInv cs rt su \<Longrightarrow> map_of (su_urnDepth su) u \<noteq> None \<longleftrightarrow> (\<exists>v \<in> set (su_victims su). entityUrn v u)"
  by (simp only: treeInv_def)

lemma treeInv_descends: "treeInv cs rt su \<Longrightarrow> v \<in> set (su_victims su) \<Longrightarrow> descends cs rt v"
  by (simp add: treeInv_def)

text \<open>And the depths: a collected entity's URN has its depth, and lies one below its parent's.\<close>

definition depthInv :: "'w change \<Rightarrow> 'w subtree \<Rightarrow> bool" where
  "depthInv rt su \<longleftrightarrow>
     (\<forall>v \<in> set (su_victims su). \<forall>u. entityUrn v u \<longrightarrow> map_of (su_urnDepth su) u = map_of (su_depthById su) (ch_id v)) \<and>
     (\<forall>v \<in> set (su_victims su). v = rt \<or> (\<exists>u d. stagedUnder v u \<and> map_of (su_urnDepth su) u = Some d \<and>
        map_of (su_depthById su) (ch_id v) = Some (d + 1)))"

lemma treeInv_step:
  assumes inv: "treeInv cs rt su" and c: "c \<in> set cs"
  shows "treeInv cs rt (collectEntity c su)"
proof (cases rule: collectEntity_cases [of c su])
  case (2 u d)
  let ?su = "collectEntity c su"
  have v: "su_victims ?su = su_victims su @ [c]" using 2 by simp
  have "map_of (su_depthById ?su) i \<noteq> None \<longleftrightarrow> i \<in> ch_id ` set (su_victims ?su)" for i
  proof -
    have "map_of (su_depthById ?su) i = (if i = ch_id c then Some (d + 1) else map_of (su_depthById su) i)"
      using 2(5) by (simp add: update_conv')
    then show ?thesis using inv v by (auto simp: treeInv_def)
  qed
  moreover have "map_of (su_urnDepth ?su) x \<noteq> None \<longleftrightarrow> (\<exists>v \<in> set (su_victims ?su). entityUrn v x)" for x
  proof -
    have "map_of (su_urnDepth ?su) x = (if ch_targetUrn c = Some x \<and> x \<noteq> [] then Some (d + 1) else map_of (su_urnDepth su) x)"
      using 2(5) by (cases "ch_targetUrn c") (auto simp: update_conv')
    moreover have "entityUrn c x \<longleftrightarrow> ch_targetUrn c = Some x \<and> x \<noteq> []" using 2(2) by (auto simp: entityUrn_def stagedUnder_def)
    ultimately show ?thesis using inv v by (auto simp: treeInv_def)
  qed
  moreover have "descends cs rt c"
  proof -
    obtain p where "p \<in> set (su_victims su)" "entityUrn p u" using 2(4) inv unfolding treeInv_def by (metis option.distinct(1))
    then show ?thesis using descends.under [of cs rt p u c] inv c 2(2) by (auto simp: treeInv_def)
  qed
  ultimately show ?thesis using inv v by (auto simp: treeInv_def)
qed (use inv in simp)

lemma pass_inv:
  assumes "\<And>c su. c \<in> set cs \<Longrightarrow> P su \<Longrightarrow> P (collectEntity c su)" "P su"
  shows "P (fold collectEntity cs su)"
  using assms by (induction cs arbitrary: su) auto

lemma collectEntities_inv:
  assumes "\<And>c su. c \<in> set cs \<Longrightarrow> P su \<Longrightarrow> P (collectEntity c su)" "P su"
  shows "P (collectEntities cs su)"
  using assms
proof (induction cs su rule: collectEntities.induct)
  case (1 cs su)
  have "P (fold collectEntity cs su)" using pass_inv [of cs P su] "1.prems" by blast
  then show ?case using "1.IH" "1.prems"(1) by (subst collectEntities.simps) (auto simp: Let_def)
qed

text \<open>The changes of a store have distinct ids, and no two entities are staged under one temporary URN.\<close>

definition stagedOk :: "'w change list \<Rightarrow> bool" where
  "stagedOk cs \<longleftrightarrow> distinct (map ch_id cs) \<and>
     (\<forall>a \<in> set cs. \<forall>b \<in> set cs. \<forall>u. entityUrn a u \<and> entityUrn b u \<longrightarrow> a = b)"

lemma descends_in: "descends cs rt c \<Longrightarrow> rt \<in> set cs \<Longrightarrow> c \<in> set cs"
  by (induction rule: descends.induct) auto

lemma depthInv_step:
  assumes inv: "depthInv rt su" "treeInv cs rt su" and c: "c \<in> set cs" and ok: "stagedOk cs" "rt \<in> set cs"
  shows "depthInv rt (collectEntity c su)"
proof (cases rule: collectEntity_cases [of c su])
  case (2 u d)
  let ?su = "collectEntity c su"
  have v: "su_victims ?su = su_victims su @ [c]" using 2 by simp
  have fresh: "ch_id c \<notin> ch_id ` set (su_victims su)" using 2(1) treeInv_known [OF inv(2), of "ch_id c"] by simp
  have dep: "map_of (su_depthById ?su) i = (if i = ch_id c then Some (d + 1) else map_of (su_depthById su) i)" for i
    using 2(5) by (simp add: update_conv')
  have urn: "map_of (su_urnDepth ?su) x = (if entityUrn c x then Some (d + 1) else map_of (su_urnDepth su) x)" for x
    using 2(2,5) by (cases "ch_targetUrn c") (auto simp: update_conv' entityUrn_def stagedUnder_def)
  have new: "\<not> entityUrn c x" if "map_of (su_urnDepth su) x \<noteq> None" for x
  proof
    assume e: "entityUrn c x"
    from iffD1 [OF treeInv_urn [OF inv(2)] that]
    obtain v where v': "v \<in> set (su_victims su)" "entityUrn v x" by blast
    then have "v \<in> set cs" using treeInv_descends [OF inv(2)] descends_in ok(2) by blast
    then have "v = c" using e v'(2) ok(1) c by (auto simp: stagedOk_def)
    then show False using fresh v'(1) by blast
  qed
  have "map_of (su_urnDepth ?su) x = map_of (su_depthById ?su) (ch_id w)"
    if w: "w \<in> set (su_victims ?su)" "entityUrn w x" for w x
  proof (cases "w = c")
    case True
    then show ?thesis using w urn dep by simp
  next
    case False
    then have "w \<in> set (su_victims su)" using w v by simp
    moreover from this have "map_of (su_urnDepth su) x \<noteq> None" using inv(2) w(2) by (auto simp: treeInv_def)
    moreover have "ch_id w \<noteq> ch_id c" using fresh \<open>w \<in> set (su_victims su)\<close> by (metis image_eqI)
    ultimately show ?thesis using inv(1) w(2) new urn dep by (auto simp: depthInv_def)
  qed
  moreover have "w = rt \<or> (\<exists>x e. stagedUnder w x \<and> map_of (su_urnDepth ?su) x = Some e \<and> map_of (su_depthById ?su) (ch_id w) = Some (e + 1))"
    if w: "w \<in> set (su_victims ?su)" for w
  proof (cases "w = c")
    case True
    then show ?thesis using 2(2,4) new urn dep by auto
  next
    case False
    then have w': "w \<in> set (su_victims su)" using w v by simp
    then have "ch_id w \<noteq> ch_id c" using fresh by (metis image_eqI)
    moreover have "w = rt \<or> (\<exists>x e. stagedUnder w x \<and> map_of (su_urnDepth su) x = Some e \<and> map_of (su_depthById su) (ch_id w) = Some (e + 1))"
      using inv(1) w' by (auto simp: depthInv_def)
    ultimately show ?thesis using new urn dep by (metis option.distinct(1))
  qed
  ultimately show ?thesis unfolding depthInv_def by blast
qed (use inv in simp)

lemma start_inv:
  "treeInv cs rt (startSubtree rt) \<and> depthInv rt (startSubtree rt)"
  by (cases "ch_targetUrn rt") (auto simp: treeInv_def depthInv_def startSubtree_def entityUrn_def intro: descends.self)

lemma entities_inv:
  assumes "stagedOk cs" "rt \<in> set cs"
  shows "treeInv cs rt (collectEntities cs (startSubtree rt)) \<and> depthInv rt (collectEntities cs (startSubtree rt))"
  by (rule collectEntities_inv) (use start_inv treeInv_step depthInv_step assms in blast)+

section \<open>The edges\<close>

definition atVictim :: "'w change \<Rightarrow> 'w subtree \<Rightarrow> bool" where
  "atVictim c su \<longleftrightarrow> (\<exists>u. edgeAt c u \<and> map_of (su_urnDepth su) u \<noteq> None)"

lemma collectEdge_eq:
  assumes "map_of (su_urnDepth su) [] = None"
  shows "collectEdge d c su =
    (if map_of (su_depthById su) (ch_id c) = None \<and> atVictim c su then addVictim c d su else su)"
proof (cases "ch_after c")
  case (JObj kvs)
  then show ?thesis using assms
    by (auto simp: collectEdge_def atVictim_def edgeAt_def Let_def split: option.splits)
qed (use assms in \<open>auto simp: collectEdge_def atVictim_def edgeAt_def Let_def\<close>)

lemma edges_fold:
  assumes "map_of (su_urnDepth su) [] = None"
    "\<forall>i. map_of (su_depthById su) i \<noteq> None \<longleftrightarrow> i \<in> ch_id ` set (su_victims su)"
  shows "\<exists>es. su_victims (fold (collectEdge d) cs su) = su_victims su @ es \<and>
    su_urnDepth (fold (collectEdge d) cs su) = su_urnDepth su \<and>
    (\<forall>i. map_of (su_depthById (fold (collectEdge d) cs su)) i =
       (if map_of (su_depthById su) i = None \<and> i \<in> ch_id ` set es then Some d else map_of (su_depthById su) i)) \<and>
    (\<forall>e \<in> set es. e \<in> set cs \<and> atVictim e su \<and> map_of (su_depthById su) (ch_id e) = None) \<and>
    (\<forall>c \<in> set cs. atVictim c su \<longrightarrow> ch_id c \<in> ch_id ` set (su_victims su @ es))"
  using assms
proof (induction cs arbitrary: su)
  case (Cons c cs)
  let ?su = "collectEdge d c su"
  have urn: "su_urnDepth ?su = su_urnDepth su" by (simp add: collectEdge_eq [OF Cons.prems(1)] addVictim_def)
  have at: "atVictim x ?su = atVictim x su" for x by (simp add: atVictim_def urn)
  have known: "\<forall>i. map_of (su_depthById ?su) i \<noteq> None \<longleftrightarrow> i \<in> ch_id ` set (su_victims ?su)"
    using Cons.prems(2) by (auto simp: collectEdge_eq [OF Cons.prems(1)] addVictim_def update_conv')
  obtain es where es: "su_victims (fold (collectEdge d) cs ?su) = su_victims ?su @ es"
      "su_urnDepth (fold (collectEdge d) cs ?su) = su_urnDepth ?su"
      "\<forall>i. map_of (su_depthById (fold (collectEdge d) cs ?su)) i =
         (if map_of (su_depthById ?su) i = None \<and> i \<in> ch_id ` set es then Some d else map_of (su_depthById ?su) i)"
      "\<forall>e \<in> set es. e \<in> set cs \<and> atVictim e ?su \<and> map_of (su_depthById ?su) (ch_id e) = None"
      "\<forall>c \<in> set cs. atVictim c ?su \<longrightarrow> ch_id c \<in> ch_id ` set (su_victims ?su @ es)"
    using Cons.IH [of ?su] Cons.prems(1) urn known by auto
  show ?case
  proof (cases "map_of (su_depthById su) (ch_id c) = None \<and> atVictim c su")
    case True
    then have e: "?su = addVictim c d su" by (simp add: collectEdge_eq [OF Cons.prems(1)])
    have dep: "map_of (su_depthById ?su) i = (if i = ch_id c then Some d else map_of (su_depthById su) i)" for i
      by (simp add: e addVictim_def update_conv')
    show ?thesis
    proof (intro exI [of _ "c # es"] conjI)
      show "su_victims (fold (collectEdge d) (c # cs) su) = su_victims su @ c # es" using es(1) by (simp add: e addVictim_def)
      show "su_urnDepth (fold (collectEdge d) (c # cs) su) = su_urnDepth su" using es(2) urn by simp
      show "\<forall>i. map_of (su_depthById (fold (collectEdge d) (c # cs) su)) i =
          (if map_of (su_depthById su) i = None \<and> i \<in> ch_id ` set (c # es) then Some d else map_of (su_depthById su) i)"
        using es(3) dep True by auto
      show "\<forall>x \<in> set (c # es). x \<in> set (c # cs) \<and> atVictim x su \<and> map_of (su_depthById su) (ch_id x) = None"
        using es(4) at dep True by (auto split: if_splits)
      show "\<forall>x \<in> set (c # cs). atVictim x su \<longrightarrow> ch_id x \<in> ch_id ` set (su_victims su @ c # es)"
        using es(5) at e by (auto simp: addVictim_def)
    qed
  next
    case False
    then have e: "?su = su" unfolding collectEdge_eq [OF Cons.prems(1)] by (rule if_not_P)
    have "atVictim c su \<longrightarrow> ch_id c \<in> ch_id ` set (su_victims su)" using False Cons.prems(2) by blast
    then show ?thesis using es unfolding e by (intro exI [of _ es]) (auto simp: e)
  qed
qed simp

section \<open>The collected subtree\<close>

lemma le_fold_max: "x \<in> set xs \<Longrightarrow> x \<le> fold max xs (a::nat)"
proof (induction xs arbitrary: a)
  case (Cons y ys)
  have "b \<le> fold max ys b" for b :: nat
    by (induction ys arbitrary: b) (auto intro: order_trans [OF max.cobounded2])
  then have "y \<le> fold max ys (max y a)" by (metis max.bounded_iff)
  then show ?case using Cons by auto
qed simp

definition depthOf :: "'w subtree \<Rightarrow> 'w change \<Rightarrow> nat" where
  "depthOf su c = (case map_of (su_depthById su) (ch_id c) of None \<Rightarrow> 0 | Some d \<Rightarrow> d)"

text \<open>A change that must be undone before another.\<close>

definition dependsOn :: "'w change \<Rightarrow> 'w change \<Rightarrow> 'w change \<Rightarrow> bool" where
  "dependsOn rt c p \<longleftrightarrow> c \<noteq> rt \<and> (\<exists>u. entityUrn p u \<and> (stagedUnder c u \<or> edgeAt c u))"

lemma subtree_props:
  assumes ok: "stagedOk cs" "rt \<in> set cs"
  shows "set (su_victims (subtreeOf cs rt)) \<subseteq> {c. descends cs rt c \<or> (\<exists>v u. descends cs rt v \<and> entityUrn v u \<and> edgeAt c u)} \<and>
    (\<forall>v \<in> set (su_victims (subtreeOf cs rt)). \<forall>c \<in> set cs. dependsOn rt c v \<longrightarrow> ch_id c \<in> ch_id ` set (su_victims (subtreeOf cs rt))) \<and>
    (\<forall>v \<in> set (su_victims (subtreeOf cs rt)). \<forall>c \<in> set (su_victims (subtreeOf cs rt)). dependsOn rt c v \<longrightarrow>
       depthOf (subtreeOf cs rt) v < depthOf (subtreeOf cs rt) c) \<and>
    rt \<in> set (su_victims (subtreeOf cs rt))"
proof -
  let ?su0 = "startSubtree rt"
  define su1 where "su1 = (if su_urnDepth ?su0 \<noteq> [] then collectEntities cs ?su0 else ?su0)"
  define d where "d = fold max (map snd (su_depthById su1)) 0 + 1"
  have inv: "treeInv cs rt su1" "depthInv rt su1"
    using start_inv [of cs rt] entities_inv [OF ok] by (auto simp: su1_def)
  have closed: "\<not> candidate c su1" if "c \<in> set cs" for c
    using collectEntities_closed [OF that] by (auto simp: su1_def candidate_def)
  have noEmpty: "map_of (su_urnDepth su1) [] = None" using treeInv_urn [OF inv(1), of "[]"] by (auto simp: entityUrn_def)
  have su: "subtreeOf cs rt = fold (collectEdge d) cs su1" by (simp add: subtreeOf_def su1_def d_def Let_def)
  obtain es where es: "su_victims (subtreeOf cs rt) = su_victims su1 @ es"
      "\<forall>i. map_of (su_depthById (subtreeOf cs rt)) i =
         (if map_of (su_depthById su1) i = None \<and> i \<in> ch_id ` set es then Some d else map_of (su_depthById su1) i)"
      "\<forall>e \<in> set es. e \<in> set cs \<and> atVictim e su1 \<and> map_of (su_depthById su1) (ch_id e) = None"
      "\<forall>c \<in> set cs. atVictim c su1 \<longrightarrow> ch_id c \<in> ch_id ` set (su_victims su1 @ es)"
    using edges_fold [OF noEmpty, of d cs] treeInv_known [OF inv(1)] unfolding su by blast
  have edge: "ch_type e = CreateEdge" if "e \<in> set es" for e using es(3) that by (auto simp: atVictim_def edgeAt_def)
  have ent: "v \<in> set (su_victims su1)" if "v \<in> set (su_victims (subtreeOf cs rt))" "entityUrn v u" for v u
    using that es(1) edge [of v] by (auto simp: entityUrn_def)
  have small: "depthOf (subtreeOf cs rt) v < d \<and> depthOf (subtreeOf cs rt) v = depthOf su1 v" if v: "v \<in> set (su_victims su1)" for v
  proof -
    obtain k where k: "map_of (su_depthById su1) (ch_id v) = Some k" using treeInv_known [OF inv(1), of "ch_id v"] v by auto
    then have "k \<in> set (map snd (su_depthById su1))" using map_of_SomeD [OF k] by force
    then have "k \<le> fold max (map snd (su_depthById su1)) 0" by (rule le_fold_max)
    then have "k < d" by (simp add: d_def)
    then show ?thesis using k es(2) by (simp add: depthOf_def)
  qed
  have sub: "descends cs rt c \<or> (\<exists>v u. descends cs rt v \<and> entityUrn v u \<and> edgeAt c u)" if c: "c \<in> set (su_victims (subtreeOf cs rt))" for c
  proof (cases "c \<in> set (su_victims su1)")
    case True
    then show ?thesis using treeInv_descends [OF inv(1)] by blast
  next
    case False
    then obtain u where "edgeAt c u" "map_of (su_urnDepth su1) u \<noteq> None" using c es(1,3) by (auto simp: atVictim_def)
    then show ?thesis using treeInv_urn [OF inv(1)] treeInv_descends [OF inv(1)] by blast
  qed
  have taken: "ch_id c \<in> ch_id ` set (su_victims (subtreeOf cs rt))"
    if v: "v \<in> set (su_victims (subtreeOf cs rt))" and c: "c \<in> set cs" and dep: "dependsOn rt c v" for v c
  proof -
    obtain u where u: "entityUrn v u" "stagedUnder c u \<or> edgeAt c u" using dep by (auto simp: dependsOn_def)
    have m: "map_of (su_urnDepth su1) u \<noteq> None" using treeInv_urn [OF inv(1)] ent [OF v u(1)] u(1) by blast
    show ?thesis
    proof (cases "edgeAt c u")
      case True
      then show ?thesis using es(1,4) m c by (auto simp: atVictim_def)
    next
      case False
      then have "map_of (su_depthById su1) (ch_id c) \<noteq> None"
        using closed [OF c] m u by (auto simp: candidate_def entityUrn_def)
      then show ?thesis using treeInv_known [OF inv(1)] es(1) by auto
    qed
  qed
  have deeper: "depthOf (subtreeOf cs rt) v < depthOf (subtreeOf cs rt) c"
    if v: "v \<in> set (su_victims (subtreeOf cs rt))" and c: "c \<in> set (su_victims (subtreeOf cs rt))" and dep: "dependsOn rt c v" for v c
  proof -
    obtain u where u: "entityUrn v u" "stagedUnder c u \<or> edgeAt c u" and ne: "c \<noteq> rt" using dep by (auto simp: dependsOn_def)
    have v1: "v \<in> set (su_victims su1)" by (rule ent [OF v u(1)])
    show ?thesis
    proof (cases "c \<in> set (su_victims su1)")
      case True
      then obtain x k where x: "stagedUnder c x" "map_of (su_urnDepth su1) x = Some k" "map_of (su_depthById su1) (ch_id c) = Some (k + 1)"
        using inv(2) ne by (auto simp: depthInv_def)
      then have "x = u" using u(2) by (auto simp: stagedUnder_def edgeAt_def)
      then have "map_of (su_depthById su1) (ch_id v) = Some k" using inv(2) v1 u(1) x(2) by (auto simp: depthInv_def)
      then show ?thesis using small [OF v1] small [OF True] x(3) by (simp add: depthOf_def)
    next
      case False
      then have "c \<in> set es" using c es(1) by simp
      then have "depthOf (subtreeOf cs rt) c = d" using es(2,3) by (simp add: depthOf_def)
      then show ?thesis using small [OF v1] by simp
    qed
  qed
  show ?thesis using sub taken deeper inv(1) es(1) by (auto simp: treeInv_def)
qed

section \<open>Discarding\<close>

lemma sorted_depth:
  "sorted_wrt (\<lambda>a b. depthOf su b \<le> depthOf su a)
     (sort_key (\<lambda>c. - int (case map_of (su_depthById su) (ch_id c) of None \<Rightarrow> 0 | Some d \<Rightarrow> d)) xs)"
proof -
  have "sorted (map (\<lambda>c. - int (depthOf su c)) (sort_key (\<lambda>c. - int (depthOf su c)) xs))" by (rule sorted_sort_key)
  then show ?thesis by (simp add: sorted_map depthOf_def)
qed

text \<open>
  C39. Discarding a staged change takes along exactly what depends on it: afterwards no staged entity is left
  under a discarded one and no staged edge at one; everything discarded is the change itself, an entity staged
  under it (at any depth) or an edge at one of those; the other changes stay in their order; and the discard
  hooks run leaf-first, no change before one that depends on it.
\<close>

theorem discard_takes_dependents_leaf_first:
  assumes "stagedOk (sg_changes s)" "find (\<lambda>c. ch_id c = i) (sg_changes s) = Some rt"
  shows "let gone = collectStagedSubtree (sg_changes s) rt; s' = fst (discard i (s, w))
    in sg_changes s' = filter (\<lambda>c. ch_id c \<notin> ch_id ` set gone) (sg_changes s) \<and> rt \<in> set gone \<and>
       snd (discard i (s, w)) = fold (\<lambda>v. runHook (ch_discard v)) gone w \<and>
       (\<forall>v \<in> set gone. \<forall>c \<in> set (sg_changes s'). \<not> dependsOn rt c v) \<and>
       (\<forall>c \<in> set gone. descends (sg_changes s) rt c \<or>
          (\<exists>v u. descends (sg_changes s) rt v \<and> entityUrn v u \<and> edgeAt c u)) \<and>
       sorted_wrt (\<lambda>a b. \<not> dependsOn rt b a) gone"
proof -
  let ?cs = "sg_changes s" and ?su = "subtreeOf (sg_changes s) rt"
  have rt: "rt \<in> set ?cs" using assms(2) by (auto simp: find_Some_iff)
  note props = subtree_props [OF assms(1) rt]
  have gone: "set (collectStagedSubtree ?cs rt) = set (su_victims ?su)" by (simp add: collectStagedSubtree_def Let_def)
  have res: "sg_changes (fst (discard i (s, w))) = filter (\<lambda>c. ch_id c \<notin> ch_id ` set (collectStagedSubtree ?cs rt)) ?cs"
      "snd (discard i (s, w)) = fold (\<lambda>v. runHook (ch_discard v)) (collectStagedSubtree ?cs rt) w"
    using assms(2) by (simp_all add: discard_def Let_def)
  have "sorted_wrt (\<lambda>a b. depthOf ?su b \<le> depthOf ?su a) (collectStagedSubtree ?cs rt)"
    unfolding collectStagedSubtree_def Let_def by (rule sorted_depth)
  then have "sorted_wrt (\<lambda>a b. \<not> dependsOn rt b a) (collectStagedSubtree ?cs rt)"
  proof (rule sorted_wrt_mono_rel [rotated])
    fix a b assume "a \<in> set (collectStagedSubtree ?cs rt)" "b \<in> set (collectStagedSubtree ?cs rt)" "depthOf ?su b \<le> depthOf ?su a"
    then show "\<not> dependsOn rt b a" using props gone by (metis not_less)
  qed
  then show ?thesis using props gone res by (auto simp: Let_def)
qed

definition sampleChild :: "string \<Rightarrow> string \<Rightarrow> nat change" where
  "sampleChild i p = (sampleChange i CreateEntity)\<lparr>ch_after := JObj [(''parentUrn'', JStr (''urn:staged:'' @ p))]\<rparr>"

theorem discard_takes_dependents_leaf_first_witness:
  "sampleChild ''b'' ''a'' \<notin> set (sg_changes (fst (discard ''a''
     (stageMany [sampleChild ''b'' ''a'', sampleChange ''a'' CreateEntity] initialStaged, 0))))"
proof -
  let ?a = "sampleChange ''a'' CreateEntity" and ?b = "sampleChild ''b'' ''a''"
  let ?s = "stageMany [?b, ?a] initialStaged"
  have cs: "sg_changes ?s = [?b, ?a]" by (simp add: stageMany_def initialStaged_def)
  have ok: "stagedOk (sg_changes ?s)"
    unfolding cs by (auto simp: stagedOk_def entityUrn_def sampleChild_def sampleChange_def)
  have f: "find (\<lambda>c. ch_id c = ''a'') (sg_changes ?s) = Some ?a"
    unfolding cs by (simp add: sampleChild_def sampleChange_def)
  have "dependsOn ?a ?b ?a"
    by (auto simp: dependsOn_def entityUrn_def stagedUnder_def sampleChild_def sampleChange_def objGet_def)
  then show ?thesis using discard_takes_dependents_leaf_first [OF ok f, of 0] unfolding Let_def by metis
qed

end
