(* ===== verification/Staged_Ops.thy ===== *)
theory Staged_Ops
  imports Staged_Changes
begin

text \<open>
  \<^verbatim>\<open>lib/nodeFields.ts\<close> (where a node's fields live) and
  \<^verbatim>\<open>features/versioning/model/stagedChangesToOps.ts\<close> (staged edits as the operations of one atomic
  \<^verbatim>\<open>/graph/changes\<close> commit). A plain object is an association list in insertion order. The text of a
  number (\<open>String(n)\<close>) is the argument \<open>numStr\<close>.
\<close>

section \<open>Node fields\<close>

definition RESERVED_PROPERTY_KEYS :: "string list" where
  "RESERVED_PROPERTY_KEYS =
     [''urn'', ''entityType'', ''displayName'', ''qualifiedName'', ''description'',
      ''tags'', ''layerAssignment'', ''childCount'', ''sourceSystem'', ''lastSyncedAt'',
      ''level'', ''levelDigest'', ''entityId'', ''searchableText'', ''properties'', ''propertiesRaw'',
      ''urnSource'', ''nameSource'', ''gvHash'']"

definition asBag :: "jsval \<Rightarrow> bag" where
  "asBag v = (case v of JObj kvs \<Rightarrow> kvs | _ \<Rightarrow> [])"

definition userProperties :: "jsval \<Rightarrow> bag" where
  "userProperties props =
     (let bag = asBag props
      in if \<not> list_ex (\<lambda>(k, v). k \<in> set RESERVED_PROPERTY_KEYS) bag then bag
         else filter (\<lambda>(k, v). k \<notin> set RESERVED_PROPERTY_KEYS) bag)"

definition withReserved :: "jsval \<Rightarrow> bag \<Rightarrow> bag" where
  "withReserved original edited =
     (let reserved = filter (\<lambda>(k, v). k \<in> set RESERVED_PROPERTY_KEYS) (asBag original)
      in if length reserved > 0 then setAll reserved edited else edited)"

definition CANVAS_KEY :: "string \<Rightarrow> string option" where
  "CANVAS_KEY f = map_of [(''displayName'', ''label''), (''entityType'', ''type''), (''tags'', ''classifications'')] f"

definition canvasName :: "string \<Rightarrow> string" where
  "canvasName f = (case CANVAS_KEY f of None \<Rightarrow> f | Some k \<Rightarrow> k)"

definition readSchemaField :: "bag \<Rightarrow> string \<Rightarrow> jsval" where
  "readSchemaField data i =
     (if i \<in> set RESERVED_PROPERTY_KEYS then objGet data (canvasName i)
      else objGet (asBag (objGet data ''properties'')) i)"

definition writeSchemaField :: "bag \<Rightarrow> string \<Rightarrow> jsval \<Rightarrow> bag" where
  "writeSchemaField data i v =
     (if i \<in> set RESERVED_PROPERTY_KEYS then AList.update (canvasName i) v data
      else AList.update ''properties'' (JObj (AList.update i v (asBag (objGet data ''properties'')))) data)"

definition writeBusinessLabel :: "bag \<Rightarrow> string \<Rightarrow> bag" where
  "writeBusinessLabel data v =
     (let bag = asBag (objGet data ''properties'');
          properties = (if jsTrim v \<noteq> [] then AList.update ''businessLabel'' (JStr v) bag
                        else AList.delete ''businessLabel'' bag)
      in AList.update ''businessLabel'' (if jsTrim v \<noteq> [] then JStr v else JUndefined)
           (AList.update ''properties'' (JObj properties) data))"

definition LIFTED_FIELDS :: "string list" where
  "LIFTED_FIELDS = [''description'', ''qualifiedName'', ''sourceSystem'']"

definition splitNodeFields :: "bag \<Rightarrow> bag \<times> bag" where
  "splitNodeFields flat =
     (filter (\<lambda>(k, v). k \<in> set LIFTED_FIELDS) flat,
      filter (\<lambda>(k, v). k \<notin> set LIFTED_FIELDS \<and> k \<notin> set RESERVED_PROPERTY_KEYS) flat)"

definition EDITABLE_NODE_FIELDS :: "string list" where
  "EDITABLE_NODE_FIELDS =
     [''displayName'', ''entityType'', ''tags'', ''description'', ''qualifiedName'', ''sourceSystem'']"

record payload_shape =
  ps_fields :: bag
  ps_properties :: "bag option"

definition toPayloadShape :: "jsval \<Rightarrow> payload_shape" where
  "toPayloadShape data =
     (let d = asBag data
      in \<lparr>ps_fields = concat (map (\<lambda>f.
             if hasKey d f then [(f, objGet d f)]
             else case CANVAS_KEY f of
               Some c \<Rightarrow> if hasKey d c then [(f, objGet d c)] else []
             | None \<Rightarrow> []) EDITABLE_NODE_FIELDS),
          ps_properties = (if hasKey d ''properties'' then Some (userProperties (objGet d ''properties'')) else None)\<rparr>)"

definition applyNodePatch :: "bag \<Rightarrow> bag \<Rightarrow> string list \<Rightarrow> bag" where
  "applyNodePatch data payload unset =
     (let out = setAll (map (\<lambda>(f, v). (canvasName f, v)) (filter (\<lambda>(f, v). f \<noteq> ''properties'') payload)) data;
          properties = delAll unset (setAll (asBag (objGet payload ''properties'')) (asBag (objGet data ''properties'')))
      in AList.update ''businessLabel''
           (case objGet properties ''businessLabel'' of JStr s \<Rightarrow> JStr s | _ \<Rightarrow> JUndefined)
           (AList.update ''properties'' (JObj properties) out))"

section \<open>Patches\<close>

definition IMMUTABLE_EDGE_KEYS :: "string list" where
  "IMMUTABLE_EDGE_KEYS =
     [''edgeType'', ''relationship'', ''isAggregated'', ''sourceEdgeCount'', ''sourceEdges'', ''animated'']"

definition propertiesPatch :: "bag \<Rightarrow> bag \<Rightarrow> bag \<times> string list" where
  "propertiesPatch before after =
     (filter (\<lambda>(k, v). \<not> hasKey before k \<or> \<not> sameJson (objGet before k) v) after,
      filter (\<lambda>k. \<not> hasKey after k) (map fst before))"

definition versionOf :: "jsval \<Rightarrow> string option" where
  "versionOf before =
     (let b = asBag before;
          v = orElse (objGet b ''version'')
                (orElse (objGet (asBag (objGet b ''edge'')) ''version'') (objGet (asBag (objGet b ''node'')) ''version''))
      in case v of JStr s \<Rightarrow> Some s | _ \<Rightarrow> None)"

definition blank :: "jsval \<Rightarrow> bool" where
  "blank v = (v = JUndefined \<or> v = JNull \<or> v = JStr [] \<or> v = JArr [])"

definition payloadShape :: "jsval \<Rightarrow> payload_shape" where
  "payloadShape data =
     (let d = asBag data; shape = toPayloadShape (JObj d)
      in case objGet d ''businessLabel'' of
           JStr s \<Rightarrow> if \<not> hasKey d ''properties'' \<and> jsTrim s \<noteq> []
                     then shape\<lparr>ps_properties := Some [(''businessLabel'', JStr s)]\<rparr> else shape
         | _ \<Rightarrow> shape)"

definition nodeUpdatePatch :: "jsval \<Rightarrow> jsval \<Rightarrow> bag \<times> string list" where
  "nodeUpdatePatch before after =
     (let b = payloadShape before; a = payloadShape after;
          changed = concat (map (\<lambda>f.
             if \<not> hasKey (ps_fields a) f then []
             else if blank (objGet (ps_fields a) f) \<and> blank (objGet (ps_fields b) f) then []
             else if \<not> sameJson (objGet (ps_fields a) f) (objGet (ps_fields b) f) then [(f, objGet (ps_fields a) f)]
             else []) EDITABLE_NODE_FIELDS)
      in case ps_properties a of
           None \<Rightarrow> (changed, [])
         | Some ap \<Rightarrow>
             let (chg, unset) = propertiesPatch (case ps_properties b of None \<Rightarrow> [] | Some bp \<Rightarrow> bp) ap
             in (if length chg > 0 then changed @ [(''properties'', JObj chg)] else changed, unset))"

definition MAPPED_NODE_KEYS :: "string list" where
  "MAPPED_NODE_KEYS =
     [''displayName'', ''label'', ''entityType'', ''type'', ''tags'', ''classifications'',
      ''description'', ''qualifiedName'', ''sourceSystem'', ''properties'']"

definition UNSENT_NODE_KEYS :: "string list" where
  "UNSENT_NODE_KEYS = [''urn'', ''version'', ''childCount'', ''lastSyncedAt'', ''layerAssignment'']"

definition unsavedNodeFields :: "'w change \<Rightarrow> string list" where
  "unsavedNodeFields c =
     (if ch_type c \<noteq> UpdateEntity \<and> ch_type c \<noteq> RenameEntity then []
      else
        let before = asBag (ch_before c); after = asBag (ch_after c);
            own = (case ps_properties (payloadShape (JObj after)) of
                     None \<Rightarrow> JUndefined | Some p \<Rightarrow> objGet p ''businessLabel'');
            labelCarried = strictEq (orElse own (JStr [])) (orElse (objGet after ''businessLabel'') (JStr []))
        in sort (filter (\<lambda>k. k \<notin> set MAPPED_NODE_KEYS \<and> k \<notin> set UNSENT_NODE_KEYS \<and>
                   \<not> (k = ''businessLabel'' \<and> labelCarried) \<and> \<not> sameJson (objGet before k) (objGet after k))
             (remdups (map fst before @ map fst after))))"

section \<open>Operations of a commit\<close>

datatype op_kind = NodeKind | EdgeKind

datatype change_op =
    UpdateOp op_kind string bag "string list" "string option"
  | DeleteOp op_kind string
  | CreateOp op_kind string bag
  | MoveOp string "string option" bag

definition resolved :: "(jsnum \<Rightarrow> string) \<Rightarrow> (string \<Rightarrow> string) \<Rightarrow> jsval \<Rightarrow> jsval" where
  "resolved numStr resolveId v = (if nullish v then v else JStr (resolveId (stringOf numStr v)))"

definition CONTAINMENT_HINT_FIELDS :: "string list" where
  "CONTAINMENT_HINT_FIELDS = [''parentUrn'', ''containmentEdgeType'', ''parentLabel'']"

definition targetOf :: "'w change \<Rightarrow> string" where
  "targetOf c = (case ch_targetUrn c of None \<Rightarrow> ch_targetId c | Some u \<Rightarrow> u)"

definition opsOf :: "(jsnum \<Rightarrow> string) \<Rightarrow> (string \<Rightarrow> string) \<Rightarrow> 'w change \<Rightarrow> change_op list" where
  "opsOf numStr resolveId c =
     (let after = asBag (ch_after c); before = asBag (ch_before c);
          nodeUpdate =
            (let (payload, unset) = nodeUpdatePatch (ch_before c) (ch_after c)
             in if length payload > 0 \<or> length unset > 0
                then [UpdateOp NodeKind (targetOf c) payload unset (versionOf (ch_before c))] else [])
      in case ch_type c of
           RenameEntity \<Rightarrow> nodeUpdate
         | UpdateEntity \<Rightarrow> nodeUpdate
         | DeleteEntity \<Rightarrow> [DeleteOp NodeKind (targetOf c)]
         | EditEdge \<Rightarrow>
             (let plain = filter (\<lambda>(k, v). k \<notin> set IMMUTABLE_EDGE_KEYS \<and> k \<noteq> ''properties'') after;
                  (chg, unset) = (if hasKey after ''properties''
                    then propertiesPatch (asBag (objGet before ''properties'')) (asBag (objGet after ''properties''))
                    else ([], []));
                  payload = (if length chg > 0 then plain @ [(''properties'', JObj chg)] else plain)
              in if length payload > 0 \<or> length unset > 0
                 then [UpdateOp EdgeKind (ch_targetId c) payload unset (versionOf (ch_before c))] else [])
         | DeleteEdge \<Rightarrow> [DeleteOp EdgeKind (ch_targetId c)]
         | CreateEdge \<Rightarrow>
             (let src = orElse (objGet after ''source'') (objGet after ''sourceEntityId'');
                  tgt = orElse (objGet after ''target'') (objGet after ''targetEntityId'')
              in [CreateOp EdgeKind (ch_targetId c)
                    [(''edgeType'', orElse (objGet after ''edgeType'') (objGet (asBag (objGet after ''data'')) ''edgeType'')),
                     (''sourceEntityId'', resolved numStr resolveId src),
                     (''targetEntityId'', resolved numStr resolveId tgt)]])
         | ReverseEdge \<Rightarrow>
             (let old = asBag (objGet before ''edge''); new = asBag (objGet after ''edge'')
              in (if truthy (objGet old ''id'') then [DeleteOp EdgeKind (stringOf numStr (objGet old ''id''))] else []) @
                 [CreateOp EdgeKind (ch_targetId c)
                    [(''edgeType'', orElse (objGet new ''edgeType'') (objGet (asBag (objGet new ''data'')) ''edgeType'')),
                     (''sourceEntityId'', resolved numStr resolveId (objGet new ''source'')),
                     (''targetEntityId'', resolved numStr resolveId (objGet new ''target''))]])
         | CreateEntity \<Rightarrow>
             CreateOp NodeKind (targetOf c)
               (filter (\<lambda>(k, v). v \<noteq> JUndefined \<and> k \<notin> set CONTAINMENT_HINT_FIELDS) after) #
             (if \<not> nullish (objGet after ''parentUrn'') \<and> truthy (objGet after ''containmentEdgeType'')
              then [CreateOp EdgeKind (''contains-'' @ targetOf c)
                      [(''edgeType'', objGet after ''containmentEdgeType''),
                       (''sourceEntityId'', JStr (resolveId (stringOf numStr (objGet after ''parentUrn'')))),
                       (''targetEntityId'', JStr (targetOf c))]]
              else [])
         | MoveEntity \<Rightarrow>
             [MoveOp (resolveId (stringOf numStr (objGet after ''childId'')))
                (if nullish (objGet after ''edgeId'') then None else Some (stringOf numStr (objGet after ''edgeId'')))
                [(''parentEntityId'', if nullish (objGet after ''parentId'') then JNull
                                      else JStr (resolveId (stringOf numStr (objGet after ''parentId'')))),
                 (''edgeType'', orElse (objGet after ''edgeType'') JNull)]]
         | _ \<Rightarrow> [])"

definition stagedChangesToOps :: "(jsnum \<Rightarrow> string) \<Rightarrow> (string \<Rightarrow> string) \<Rightarrow> 'w change list \<Rightarrow> change_op list" where
  "stagedChangesToOps numStr resolveId changes = concat (map (opsOf numStr resolveId) changes)"

section \<open>Properties\<close>

lemma map_of_filter_val:
  "distinct (map fst xs) \<Longrightarrow>
     map_of (filter (\<lambda>(k, v). P k v) xs) k = (case map_of xs k of None \<Rightarrow> None | Some v \<Rightarrow> if P k v then Some v else None)"
proof (induction xs)
  case (Cons x xs)
  obtain a v where x: "x = (a, v)" by fastforce
  have no: "map_of xs a = None" using Cons.prems x by (simp add: map_of_eq_None_iff)
  have "map_of (filter (\<lambda>(k, v). P k v) xs) a = None"
    using Cons.prems x unfolding map_of_eq_None_iff by auto
  then show ?case using Cons x no by simp
qed simp

lemma map_of_setAll_distinct:
  assumes "distinct (map fst xs)"
  shows "map_of (setAll xs m) k = (case map_of xs k of None \<Rightarrow> map_of m k | Some v \<Rightarrow> Some v)"
proof (cases "map_of xs k")
  case None
  then have "k \<notin> fst ` set xs" by (simp only: map_of_eq_None_iff not_False_eq_True)
  then show ?thesis unfolding None by (simp add: map_of_setAll_other)
next
  case (Some v)
  then show ?thesis using map_of_setAll [OF assms map_of_SomeD [OF Some]] by simp
qed

lemma patch_lookup:
  assumes "distinct (map fst after)"
  shows "map_of (delAll (snd (propertiesPatch before after)) (setAll (fst (propertiesPatch before after)) cur)) k =
    (case map_of after k of
       Some v \<Rightarrow> if \<not> hasKey before k \<or> \<not> sameJson (objGet before k) v then Some v else map_of cur k
     | None \<Rightarrow> if hasKey before k then None else map_of cur k)"
proof -
  let ?P = "\<lambda>k v. \<not> hasKey before k \<or> \<not> sameJson (objGet before k) v"
  have d: "distinct (map fst (filter (\<lambda>(k, v). ?P k v) after))" using assms by (rule distinct_map_filter)
  have "k \<in> set (filter (\<lambda>k. \<not> hasKey after k) (map fst before)) \<longleftrightarrow> map_of after k = None \<and> hasKey before k"
    by (auto simp: hasKey_def map_of_eq_None_iff)
  then show ?thesis
    unfolding propertiesPatch_def fst_conv snd_conv map_of_delAll map_of_setAll_distinct [OF d] map_of_filter_val [OF assms]
    by (auto split: option.splits)
qed

text \<open>
  C18. An edit of a property bag is sent as a patch that does exactly that edit: merged on the backend onto any
  current bag, the edited keys get the new values, the removed keys disappear, and a key the edit left alone keeps
  whatever value it has there by now; merged onto the bag that was read, it gives the edited bag.
\<close>

theorem property_patch_is_the_edit:
  assumes "distinct (map fst before)" "distinct (map fst after)"
  shows "(let merge = (\<lambda>cur. delAll (snd (propertiesPatch before after)) (setAll (fst (propertiesPatch before after)) cur))
    in (\<forall>cur k v. map_of after k = Some v \<and> \<not> (hasKey before k \<and> sameJson (objGet before k) v) \<longrightarrow> map_of (merge cur) k = Some v) \<and>
       (\<forall>cur k. hasKey before k \<and> \<not> hasKey after k \<longrightarrow> map_of (merge cur) k = None) \<and>
       (\<forall>cur k. (hasKey before k \<longleftrightarrow> hasKey after k) \<and> sameJson (objGet before k) (objGet after k) \<longrightarrow>
          map_of (merge cur) k = map_of cur k) \<and>
       (\<forall>k. hasKey (merge before) k = hasKey after k \<and> sameJson (objGet (merge before) k) (objGet after k)))"
  unfolding Let_def patch_lookup [OF assms(2)] hasKey_def objGet_def
  by (auto simp: patch_lookup [OF assms(2)] hasKey_def objGet_def split: option.splits)

theorem property_patch_is_the_edit_witness:
  "fst (propertiesPatch [(''a'', JStr ''1''), (''b'', JStr ''2'')] [(''a'', JStr ''1''), (''c'', JNull)]) = [(''c'', JNull)] \<and>
   map_of (delAll [''b''] (setAll [(''c'', JNull)] [(''a'', JStr ''9''), (''b'', JStr ''2'')])) ''a'' = Some (JStr ''9'')"
proof -
  let ?b = "[(''a'', JStr ''1''), (''b'', JStr ''2'')]" and ?a = "[(''a'', JStr ''1''), (''c'', JNull)]"
  have p: "propertiesPatch ?b ?a = ([(''c'', JNull)], [''b''])" by code_simp
  have "hasKey ?b ''a'' \<and> hasKey ?a ''a'' \<and> sameJson (objGet ?b ''a'') (objGet ?a ''a'')" by code_simp
  moreover have "distinct (map fst ?b)" "distinct (map fst ?a)" by simp_all
  note property_patch_is_the_edit [OF this, unfolded p Let_def fst_conv snd_conv, THEN conjunct2, THEN conjunct2,
      THEN conjunct1, rule_format, of "''a''" "[(''a'', JStr ''9''), (''b'', JStr ''2'')]"]
  ultimately show ?thesis unfolding p fst_conv by fastforce
qed

lemma asBag_JObj: "asBag (JObj m) = m"
  by (simp add: asBag_def)

lemma canvasName_table:
  "list_all (\<lambda>i. list_all (\<lambda>j. canvasName i = canvasName j \<longrightarrow> i = j) RESERVED_PROPERTY_KEYS \<and>
     (canvasName i = ''properties'' \<longleftrightarrow> i = ''properties'')) RESERVED_PROPERTY_KEYS"
  by code_simp

lemma canvasName_inj:
  "i \<in> set RESERVED_PROPERTY_KEYS \<Longrightarrow> j \<in> set RESERVED_PROPERTY_KEYS \<Longrightarrow> canvasName i = canvasName j \<longleftrightarrow> i = j"
  using canvasName_table unfolding list_all_iff by metis

lemma canvasName_properties:
  "i \<in> set RESERVED_PROPERTY_KEYS \<Longrightarrow> canvasName i = ''properties'' \<longleftrightarrow> i = ''properties''"
  using canvasName_table unfolding list_all_iff by metis

text \<open>
  A schema field is read from where it is written: after writing a field it reads back as written, and every
  other field reads as before (the bag itself, the reserved name properties, is not written as a field).
\<close>

lemma schema_field_reads_back:
  assumes "i \<noteq> ''properties''" "j \<noteq> ''properties''"
  shows "readSchemaField (writeSchemaField data i v) j = (if i = j then v else readSchemaField data j)"
proof (cases "i \<in> set RESERVED_PROPERTY_KEYS"; cases "j \<in> set RESERVED_PROPERTY_KEYS")
  assume i: "i \<in> set RESERVED_PROPERTY_KEYS" and j: "j \<in> set RESERVED_PROPERTY_KEYS"
  then show ?thesis
    unfolding readSchemaField_def writeSchemaField_def by (simp only: objGet_update canvasName_inj if_True)
next
  assume i: "i \<in> set RESERVED_PROPERTY_KEYS" and j: "j \<notin> set RESERVED_PROPERTY_KEYS"
  then have "i \<noteq> j" by blast
  then show ?thesis
    using i j assms canvasName_properties [OF i] unfolding readSchemaField_def writeSchemaField_def
    by (simp only: objGet_update if_True if_False)
next
  assume i: "i \<notin> set RESERVED_PROPERTY_KEYS" and j: "j \<in> set RESERVED_PROPERTY_KEYS"
  then have "i \<noteq> j" by blast
  moreover have "''properties'' \<noteq> canvasName j" using canvasName_properties [OF j] assms by simp
  ultimately show ?thesis
    using i j unfolding readSchemaField_def writeSchemaField_def
    by (simp only: objGet_update if_True if_False)
next
  assume i: "i \<notin> set RESERVED_PROPERTY_KEYS" and j: "j \<notin> set RESERVED_PROPERTY_KEYS"
  then show ?thesis
    unfolding readSchemaField_def writeSchemaField_def
    by (simp only: objGet_update if_True if_False asBag_JObj refl simp_thms)
qed

end
