(* ===== verification/Reference_Layout.thy ===== *)
theory Reference_Layout
  imports Js_Values
begin

text \<open>
  Reading a stored reference layout: \<^verbatim>\<open>frontend/src/utils/referenceLayout.ts\<close>.

  A stored configuration is an arbitrary JSON value, so the definitions work on \<open>jsval\<close>. None
  stands for the TypeError that the code throws when a value that is not iterable is iterated or
  a property of \<open>null\<close> is read. The spelling of a number used as a key is an argument.
\<close>

section \<open>Definitions\<close>

record normalized_layout =
  nl_layers :: "jsval list"
  nl_assignments :: bag
  nl_defaultNodeSortMode :: "string option"

definition isExactUrnPattern :: "jsval \<Rightarrow> bool" where
  "isExactUrnPattern p = (case p of JStr s \<Rightarrow> length s > 0 \<and> CHR ''*'' \<notin> set s \<and> CHR ''?'' \<notin> set s | _ \<Rightarrow> False)"

text \<open>An assignment is only written under a key that has none: the values are objects, so a
  present key is truthy.\<close>

definition claim :: "string \<Rightarrow> jsval \<Rightarrow> bag \<Rightarrow> bag" where
  "claim k e asg = (if hasKey asg k then asg else asg @ [(k, e)])"

definition claimRule :: "bag \<Rightarrow> jsval \<Rightarrow> bag \<Rightarrow> bag option" where
  "claimRule e rule asg =
     (case getProp rule ''urnPattern'' of
        None \<Rightarrow> None
      | Some p \<Rightarrow> Some (case p of JStr s \<Rightarrow> if isExactUrnPattern p then claim s (JObj e) asg else asg | _ \<Rightarrow> asg))"

definition groupRuleEntry :: "jsval \<Rightarrow> jsval \<Rightarrow> bag" where
  "groupRuleEntry layerId node =
     [(''layerId'', layerId), (''logicalNodeId'', optProp node ''id''), (''inheritsChildren'', JBool True), (''assignedBy'', JStr ''rule'')]"

text \<open>A measure for the walk of the group tree: a string is iterated as its characters.\<close>

fun weight :: "jsval \<Rightarrow> nat" where
  "weight (JStr s) = (if length s \<le> 1 then 1 else length s + 1)"
| "weight (JArr vs) = Suc (sum_list (map weight vs))"
| "weight (JObj kvs) = Suc (sum_list (map (\<lambda>kv. weight (snd kv)) kvs))"
| "weight _ = 1"

lemma weight_objGet: "map_of kvs k = Some v \<Longrightarrow> weight v \<le> sum_list (map (\<lambda>kv. weight (snd kv)) kvs)"
  by (induction kvs) (auto split: if_splits)

lemma weight_children: "v \<noteq> JUndefined \<Longrightarrow> optProp w k = v \<Longrightarrow> weight v < weight w"
  using weight_objGet by (cases w) (auto simp: optProp_def objGet_def less_Suc_eq_le split: option.splits)

lemma weight_iterate: "iterate v = Some vs \<Longrightarrow> sum_list (map weight vs) \<le> weight v"
  by (cases v) (auto simp: comp_def sum_list_triv)

lemma weight_pos [simp]: "0 < weight v"
  by (cases v) auto

lemma weight_walk [termination_simp]:
  assumes "iterate (optProp node k) = Some cs"
  shows "sum_list (map weight cs) < weight node"
proof (cases "optProp node k = JUndefined")
  case True
  then show ?thesis using assms by simp
next
  case False
  then show ?thesis using weight_iterate [OF assms] weight_children [OF False refl] by simp
qed

function (sequential) collectLogicalNodeRuleAssignments :: "jsval list \<Rightarrow> jsval \<Rightarrow> bag \<Rightarrow> bag option" where
  "collectLogicalNodeRuleAssignments [] layerId asg = Some asg"
| "collectLogicalNodeRuleAssignments (node # nodes) layerId asg =
     (case getProp node ''rules'' of
        None \<Rightarrow> None
      | Some rs \<Rightarrow>
     (case iterate rs of
        None \<Rightarrow> None
      | Some rules \<Rightarrow>
     (case foldM (claimRule (groupRuleEntry layerId node)) rules asg of
        None \<Rightarrow> None
      | Some asg1 \<Rightarrow>
     (case iterate (optProp node ''children'') of
        None \<Rightarrow> None
      | Some children \<Rightarrow>
     (case collectLogicalNodeRuleAssignments children layerId asg1 of
        None \<Rightarrow> None
      | Some asg2 \<Rightarrow> collectLogicalNodeRuleAssignments nodes layerId asg2)))))"
  by pat_completeness auto

termination collectLogicalNodeRuleAssignments
  by (relation "measure (\<lambda>(ns, l, asg). sum_list (map weight ns))") (auto dest!: weight_walk)

definition claimLegacy :: "(jsnum \<Rightarrow> string) \<Rightarrow> jsval \<Rightarrow> jsval \<Rightarrow> bag \<Rightarrow> bag" where
  "claimLegacy numStr layerId e asg =
     (let key = orElse (optProp e ''urn'') (optProp e ''entityId'')
      in if \<not> truthy key then asg
         else claim (stringOf numStr key)
           (JObj [(''layerId'', layerId), (''logicalNodeId'', optProp e ''logicalNodeId''),
                  (''inheritsChildren'', orElse (optProp e ''inheritsChildren'') (JBool True)),
                  (''assignedBy'', optProp e ''assignedBy''), (''assignedAt'', optProp e ''assignedAt'')]) asg)"

definition layerRuleEntry :: "jsval \<Rightarrow> bag" where
  "layerRuleEntry layerId = [(''layerId'', layerId), (''inheritsChildren'', JBool True), (''assignedBy'', JStr ''rule'')]"

definition withoutLegacy :: "jsval \<Rightarrow> jsval" where
  "withoutLegacy layer = JObj (AList.delete ''entityAssignments'' (objEntries layer))"

definition normalizeLayer :: "(jsnum \<Rightarrow> string) \<Rightarrow> jsval \<Rightarrow> jsval list \<times> bag \<Rightarrow> (jsval list \<times> bag) option" where
  "normalizeLayer numStr layer = (\<lambda>(done, asg).
     if \<not> objectLike layer then Some (done @ [layer], asg)
     else case iterate (optProp layer ''entityAssignments'') of
       None \<Rightarrow> None
     | Some es \<Rightarrow>
       (let asg1 = fold (claimLegacy numStr (optProp layer ''id'')) es asg
        in case iterate (optProp layer ''rules'') of
             None \<Rightarrow> None
           | Some rules \<Rightarrow>
          (case foldM (claimRule (layerRuleEntry (optProp layer ''id''))) rules asg1 of
             None \<Rightarrow> None
           | Some asg2 \<Rightarrow>
          (case iterate (optProp layer ''logicalNodes'') of
             None \<Rightarrow> None
           | Some nodes \<Rightarrow>
          (case collectLogicalNodeRuleAssignments nodes (optProp layer ''id'') asg2 of
             None \<Rightarrow> None
           | Some asg3 \<Rightarrow> Some (done @ [withoutLegacy layer], asg3))))))"

definition VALID_DEFAULTS :: "string list" where
  "VALID_DEFAULTS = [''alpha-asc'', ''alpha-desc'', ''type-asc'', ''count-desc'']"

definition normalizeReferenceLayout :: "(jsnum \<Rightarrow> string) \<Rightarrow> jsval \<Rightarrow> normalized_layout option" where
  "normalizeReferenceLayout numStr raw =
     (if \<not> objectLike raw then Some \<lparr>nl_layers = [], nl_assignments = [], nl_defaultNodeSortMode = None\<rparr>
      else let asg = filter (\<lambda>(k, v). objectLike v) (objEntries (optProp raw ''assignments''));
               rawLayers = (case optProp raw ''layers'' of JArr ls \<Rightarrow> ls | _ \<Rightarrow> []);
               dflt = (case optProp raw ''defaultNodeSortMode'' of
                         JStr s \<Rightarrow> if s \<in> set VALID_DEFAULTS then Some s else None | _ \<Rightarrow> None)
           in case foldM (normalizeLayer numStr) rawLayers ([], asg) of
                None \<Rightarrow> None
              | Some (ls, asg') \<Rightarrow> Some \<lparr>nl_layers = ls, nl_assignments = asg', nl_defaultNodeSortMode = dflt\<rparr>)"

datatype entity_scope = AllScope | CuratedScope

definition deriveEntityScope :: "jsval \<Rightarrow> normalized_layout \<Rightarrow> entity_scope" where
  "deriveEntityScope content layout =
     (let s = optProp content ''entityScope''
      in if s = JStr ''all'' then AllScope else if s = JStr ''curated'' then CuratedScope
         else if length (nl_assignments layout) > 0 then CuratedScope else AllScope)"

definition scopeForPersist :: "(jsnum \<Rightarrow> string) \<Rightarrow> jsval \<Rightarrow> jsval \<Rightarrow> entity_scope option" where
  "scopeForPersist numStr content pre = map_option (deriveEntityScope content) (normalizeReferenceLayout numStr pre)"

section \<open>Properties\<close>

text \<open>
  A pass over part of a layout only adds assignments, all of them objects, and once the keys it wants are taken
  it adds nothing.
\<close>

definition additive :: "(bag \<Rightarrow> bag option) \<Rightarrow> bool" where
  "additive f \<longleftrightarrow> (\<forall>asg asg'. f asg = Some asg' \<longrightarrow>
     (\<exists>new. asg' = asg @ new \<and> (\<forall>kv \<in> set new. objectLike (snd kv))) \<and>
     (\<forall>b. fst ` set asg' \<subseteq> fst ` set b \<longrightarrow> f b = Some b))"

lemma additiveD:
  assumes "additive f" "f asg = Some asg'"
  shows "\<exists>new. asg' = asg @ new \<and> (\<forall>kv \<in> set new. objectLike (snd kv))"
    and "fst ` set asg' \<subseteq> fst ` set b \<Longrightarrow> f b = Some b"
  using assms unfolding additive_def by blast+

lemma additive_keys:
  assumes "additive f" "f asg = Some asg'"
  shows "fst ` set asg \<subseteq> fst ` set asg'"
  using additiveD(1) [OF assms] by (elim exE conjE) (simp add: image_Un)

lemma additive_Some [simp]: "additive Some"
  by (simp add: additive_def)

lemma additive_bind:
  assumes "additive f" "additive g"
  shows "additive (\<lambda>a. case f a of None \<Rightarrow> None | Some b \<Rightarrow> g b)"
  unfolding additive_def
proof (intro allI impI)
  fix a c
  assume "(case f a of None \<Rightarrow> None | Some b \<Rightarrow> g b) = Some c"
  then obtain b where b: "f a = Some b" "g b = Some c" by (auto split: option.splits)
  obtain n1 where n1: "b = a @ n1" "\<forall>kv \<in> set n1. objectLike (snd kv)"
    using additiveD(1) [OF assms(1) b(1)] by blast
  obtain n2 where n2: "c = b @ n2" "\<forall>kv \<in> set n2. objectLike (snd kv)"
    using additiveD(1) [OF assms(2) b(2)] by blast
  have n: "c = a @ n1 @ n2" "\<forall>kv \<in> set (n1 @ n2). objectLike (snd kv)" using n1 n2 by auto
  have "(case f d of None \<Rightarrow> None | Some b \<Rightarrow> g b) = Some d" if d: "fst ` set c \<subseteq> fst ` set d" for d
  proof -
    have "fst ` set b \<subseteq> fst ` set d" using n2 d by auto
    then show ?thesis using additiveD(2) [OF assms(1) b(1)] additiveD(2) [OF assms(2) b(2)] d by simp
  qed
  then show "(\<exists>new. c = a @ new \<and> (\<forall>kv \<in> set new. objectLike (snd kv))) \<and>
    (\<forall>d. fst ` set c \<subseteq> fst ` set d \<longrightarrow> (case f d of None \<Rightarrow> None | Some b \<Rightarrow> g b) = Some d)"
    using n by blast
qed

lemma additive_foldM: "(\<And>x. x \<in> set xs \<Longrightarrow> additive (f x)) \<Longrightarrow> additive (foldM f xs)"
proof (induction xs)
  case Nil
  then show ?case by (simp add: additive_def)
next
  case (Cons x xs)
  have "foldM f (x # xs) = (\<lambda>a. case f x a of None \<Rightarrow> None | Some b \<Rightarrow> foldM f xs b)" by (rule ext) simp
  then show ?case using Cons additive_bind [of "f x" "foldM f xs"] by simp
qed

lemma additive_claim: "objectLike e \<Longrightarrow> additive (\<lambda>asg. Some (claim k e asg))"
  unfolding additive_def claim_def by (auto simp: hasKey_iff)

lemma additive_claimRule: "additive (claimRule e rule)"
proof (cases "getProp rule ''urnPattern''")
  case None
  then show ?thesis by (simp add: claimRule_def additive_def)
next
  case (Some p)
  have "claimRule e rule = Some \<or> (\<exists>s. claimRule e rule = (\<lambda>asg. Some (claim s (JObj e) asg)))"
    using Some by (cases p) (auto simp: claimRule_def fun_eq_iff)
  then show ?thesis using additive_claim [of "JObj e"] additive_Some by auto
qed

lemma additive_collect: "additive (collectLogicalNodeRuleAssignments nodes layerId)"
proof (induction "sum_list (map weight nodes)" arbitrary: nodes rule: less_induct)
  case less
  show ?case
  proof (cases nodes)
    case Nil
    then show ?thesis by (simp add: additive_def)
  next
    case (Cons node rest)
    let ?go = "\<lambda>ns. collectLogicalNodeRuleAssignments ns layerId"
    have rest: "additive (?go rest)" using less [of rest] Cons by simp
    show ?thesis
    proof (cases "\<exists>rs rules cs. getProp node ''rules'' = Some rs \<and> iterate rs = Some rules \<and>
        iterate (optProp node ''children'') = Some cs")
      case True
      then obtain rs rules cs where g: "getProp node ''rules'' = Some rs" "iterate rs = Some rules"
        and c: "iterate (optProp node ''children'') = Some cs" by blast
      have kids: "additive (?go cs)" using less [of cs] weight_walk [OF c] Cons by simp
      have "?go nodes = (\<lambda>a. case foldM (claimRule (groupRuleEntry layerId node)) rules a of None \<Rightarrow> None
          | Some b \<Rightarrow> (case ?go cs b of None \<Rightarrow> None | Some d \<Rightarrow> ?go rest d))"
        using g c Cons by (simp add: fun_eq_iff cong: option.case_cong)
      then show ?thesis
        using additive_bind [OF additive_foldM additive_bind [OF kids rest]] additive_claimRule by metis
    next
      case False
      then have "?go nodes = (\<lambda>a. None)" using Cons by (auto simp: fun_eq_iff split: option.splits)
      then show ?thesis by (simp add: additive_def)
    qed
  qed
qed

lemma additive_fold:
  "(\<And>x. x \<in> set xs \<Longrightarrow> additive (\<lambda>a. Some (f x a))) \<Longrightarrow> additive (\<lambda>a. Some (fold f xs a))"
proof (induction xs)
  case (Cons x xs)
  then show ?case using additive_bind [of "\<lambda>a. Some (f x a)" "\<lambda>a. Some (fold f xs a)"] by simp
qed (simp add: additive_def)

lemma additive_claimLegacy: "additive (\<lambda>asg. Some (claimLegacy numStr layerId e asg))"
proof (cases "truthy (orElse (optProp e ''urn'') (optProp e ''entityId''))")
  case True
  then show ?thesis unfolding claimLegacy_def Let_def by (simp add: additive_claim)
next
  case False
  then show ?thesis unfolding claimLegacy_def Let_def by (simp add: additive_def)
qed

text \<open>The legacy list is stripped from a layer; everything else of it reads as before.\<close>

lemma showNat_digit: "c \<in> set (showNat n) \<Longrightarrow> (of_char c :: nat) < 58"
proof (induction n rule: showNat.induct)
  case (1 n)
  then show ?case by (subst (asm) (2) showNat.simps) (auto split: if_splits)
qed

lemma objGet_array: "\<exists>c \<in> set k. (58 :: nat) \<le> of_char c \<Longrightarrow> objGet (objEntries (JArr vs)) k = JUndefined"
proof -
  assume "\<exists>c \<in> set k. (58 :: nat) \<le> of_char c"
  then have "k \<notin> range showNat" using showNat_digit by fastforce
  then have "k \<notin> fst ` set (objEntries (JArr vs))" by (auto simp: set_zip)
  then show ?thesis by (simp add: objGet_def map_of_eq_None_iff [THEN iffD2])
qed

lemma optProp_withoutLegacy:
  assumes "objectLike layer" "\<exists>c \<in> set k. (58 :: nat) \<le> of_char c"
  shows "optProp (withoutLegacy layer) k = (if k = ''entityAssignments'' then JUndefined else optProp layer k)"
proof -
  have "optProp (withoutLegacy layer) k =
      (if k = ''entityAssignments'' then JUndefined else objGet (objEntries layer) k)"
    by (simp add: withoutLegacy_def optProp_def objGet_def delete_conv')
  also have "objGet (objEntries layer) k = optProp layer k"
    using assms objGet_array [OF assms(2)] by (cases layer) (simp_all add: optProp_def)
  finally show ?thesis .
qed

lemma withoutLegacy_twice: "withoutLegacy (withoutLegacy layer) = withoutLegacy layer"
  by (simp add: withoutLegacy_def delete_idem)

definition stripLayer :: "jsval \<Rightarrow> jsval" where
  "stripLayer layer = (if objectLike layer then withoutLegacy layer else layer)"

definition layerPass :: "(jsnum \<Rightarrow> string) \<Rightarrow> jsval \<Rightarrow> bag \<Rightarrow> bag option" where
  "layerPass numStr layer asg = map_option snd (normalizeLayer numStr layer ([], asg))"

lemma normalizeLayer_pass:
  "normalizeLayer numStr layer (ls, asg) =
     map_option (\<lambda>asg'. (ls @ [stripLayer layer], asg')) (layerPass numStr layer asg)"
  by (simp add: stripLayer_def layerPass_def normalizeLayer_def Let_def split: option.splits)

lemma additive_layerPass: "additive (layerPass numStr layer)"
proof (cases "objectLike layer \<and> (\<exists>es rules nodes. iterate (optProp layer ''entityAssignments'') = Some es \<and>
    iterate (optProp layer ''rules'') = Some rules \<and> iterate (optProp layer ''logicalNodes'') = Some nodes)")
  case True
  then obtain es rules nodes where i: "iterate (optProp layer ''entityAssignments'') = Some es"
    "iterate (optProp layer ''rules'') = Some rules" "iterate (optProp layer ''logicalNodes'') = Some nodes" by blast
  let ?id = "optProp layer ''id''"
  have "layerPass numStr layer = (\<lambda>a. case Some (fold (claimLegacy numStr ?id) es a) of None \<Rightarrow> None | Some b \<Rightarrow>
      (case foldM (claimRule (layerRuleEntry ?id)) rules b of None \<Rightarrow> None | Some c \<Rightarrow> collectLogicalNodeRuleAssignments nodes ?id c))"
    using i True by (auto simp: fun_eq_iff layerPass_def normalizeLayer_def Let_def split: option.splits)
  then show ?thesis
    using additive_bind [OF additive_fold additive_bind [OF additive_foldM additive_collect]]
      additive_claimLegacy additive_claimRule by metis
next
  case False
  then have "layerPass numStr layer = Some \<or> layerPass numStr layer = (\<lambda>a. None)"
    by (auto simp: fun_eq_iff layerPass_def normalizeLayer_def Let_def split: option.splits)
  then show ?thesis by (auto simp: additive_def)
qed

lemma stripLayer_twice [simp]: "stripLayer (stripLayer layer) = stripLayer layer"
  by (simp add: stripLayer_def withoutLegacy_twice)

lemma stripLayer_no_legacy: "optProp (stripLayer layer) ''entityAssignments'' = JUndefined"
proof (cases "objectLike layer")
  case True
  moreover have "\<exists>c \<in> set ''entityAssignments''. (58 :: nat) \<le> of_char c" by code_simp
  ultimately show ?thesis by (simp add: stripLayer_def optProp_withoutLegacy)
next
  case False
  then show ?thesis by (cases layer) (auto simp: stripLayer_def optProp_def)
qed

lemma layerPass_again:
  assumes "layerPass numStr layer asg = Some asg'" "fst ` set asg' \<subseteq> fst ` set b"
  shows "layerPass numStr (stripLayer layer) b = Some b"
proof (cases "objectLike layer")
  case False
  then show ?thesis by (simp add: stripLayer_def layerPass_def normalizeLayer_def)
next
  case True
  let ?id = "optProp layer ''id''"
  obtain es rules nodes a2 where i: "iterate (optProp layer ''entityAssignments'') = Some es"
    "iterate (optProp layer ''rules'') = Some rules" "iterate (optProp layer ''logicalNodes'') = Some nodes"
    and r: "foldM (claimRule (layerRuleEntry ?id)) rules (fold (claimLegacy numStr ?id) es asg) = Some a2"
    and c: "collectLogicalNodeRuleAssignments nodes ?id a2 = Some asg'"
    using assms(1) True by (auto simp: layerPass_def normalizeLayer_def Let_def split: option.splits)
  have "fst ` set a2 \<subseteq> fst ` set b" using additive_keys [OF additive_collect c] assms(2) by (rule order_trans)
  then have "foldM (claimRule (layerRuleEntry ?id)) rules b = Some b"
    using additiveD(2) [OF additive_foldM r] additive_claimRule by blast
  moreover have "collectLogicalNodeRuleAssignments nodes ?id b = Some b"
    using additiveD(2) [OF additive_collect c assms(2)] .
  moreover have "\<exists>c \<in> set k. (58 :: nat) \<le> of_char c"
    if "k \<in> {''entityAssignments'', ''rules'', ''logicalNodes'', ''id''}" for k
    using that by auto
  ultimately show ?thesis
    using True i by (simp add: stripLayer_def layerPass_def normalizeLayer_def optProp_withoutLegacy)
qed

lemma layers_pass:
  assumes "foldM (normalizeLayer numStr) ls (done, asg) = Some (res, asg')"
  shows "res = done @ map stripLayer ls"
    and "\<exists>new. asg' = asg @ new \<and> (\<forall>kv \<in> set new. objectLike (snd kv))"
    and "fst ` set asg' \<subseteq> fst ` set b \<Longrightarrow> foldM (normalizeLayer numStr) (map stripLayer ls) (done', b) = Some (done' @ map stripLayer ls, b)"
  using assms
proof (induction ls arbitrary: "done" asg done')
  case (Cons l ls)
  have split: "\<exists>a1. layerPass numStr l asg = Some a1 \<and> foldM (normalizeLayer numStr) ls (done @ [stripLayer l], a1) = Some (res, asg')"
    if "foldM (normalizeLayer numStr) (l # ls) (done, asg) = Some (res, asg')" for "done" asg
    using that by (auto simp: normalizeLayer_pass split: option.splits)
  {
    case 1
    then show ?case using split [OF 1] Cons.IH(1) by fastforce
  next
    case 2
    then obtain a1 where a1: "layerPass numStr l asg = Some a1"
      "foldM (normalizeLayer numStr) ls (done @ [stripLayer l], a1) = Some (res, asg')"
      using split by blast
    obtain n1 where "a1 = asg @ n1" "\<forall>kv \<in> set n1. objectLike (snd kv)"
      using additiveD(1) [OF additive_layerPass a1(1)] by blast
    moreover obtain n2 where "asg' = a1 @ n2" "\<forall>kv \<in> set n2. objectLike (snd kv)"
      using Cons.IH(2) [OF a1(2)] by blast
    ultimately show ?case by (auto intro!: exI [of _ "n1 @ n2"])
  next
    case 3
    then obtain a1 where a1: "layerPass numStr l asg = Some a1"
      "foldM (normalizeLayer numStr) ls (done @ [stripLayer l], a1) = Some (res, asg')"
      using split by blast
    have "fst ` set a1 \<subseteq> fst ` set b" using Cons.IH(2) [OF a1(2)] 3(1) by (elim exE conjE) (simp add: image_Un)
    then have "layerPass numStr (stripLayer l) b = Some b" by (rule layerPass_again [OF a1(1)])
    then show ?case
      using Cons.IH(3) [OF 3(1) a1(2), of "done' @ [stripLayer l]"] by (simp add: normalizeLayer_pass)
  }
qed simp_all

text \<open>The stored form of a normalized layout.\<close>

definition asConfig :: "normalized_layout \<Rightarrow> jsval" where
  "asConfig n = JObj ([(''layers'', JArr (nl_layers n)), (''assignments'', JObj (nl_assignments n))] @
     (case nl_defaultNodeSortMode n of None \<Rightarrow> [] | Some s \<Rightarrow> [(''defaultNodeSortMode'', JStr s)]))"

text \<open>
  Reading a stored layout is idempotent: what it gives, stored and read again, comes back unchanged. The
  explicit assignments of the stored layout come first and as they were; only keys without an assignment are added from
  the legacy lists and the exact-URN rules, and no layer keeps its legacy list.
\<close>

lemma layout_normalizes_once:
  assumes "normalizeReferenceLayout numStr raw = Some n"
  shows "normalizeReferenceLayout numStr (asConfig n) = Some n \<and>
    (\<exists>new. nl_assignments n = filter (\<lambda>(k, v). objectLike v) (objEntries (optProp raw ''assignments'')) @ new) \<and>
    (\<forall>l \<in> set (nl_layers n). optProp l ''entityAssignments'' = JUndefined)"
proof (cases "objectLike raw")
  case False
  then have "optProp raw k = JUndefined" for k by (cases raw) (auto simp: optProp_def)
  then show ?thesis using assms False
    by (auto simp: normalizeReferenceLayout_def asConfig_def optProp_def objGet_def)
next
  case True
  let ?own = "filter (\<lambda>(k, v). objectLike v) (objEntries (optProp raw ''assignments''))"
  let ?ls = "case optProp raw ''layers'' of JArr ls \<Rightarrow> ls | _ \<Rightarrow> []"
  have pass: "foldM (normalizeLayer numStr) ?ls ([], ?own) = Some (nl_layers n, nl_assignments n)"
    and d: "nl_defaultNodeSortMode n = (case optProp raw ''defaultNodeSortMode'' of
      JStr s \<Rightarrow> if s \<in> set VALID_DEFAULTS then Some s else None | _ \<Rightarrow> None)"
    using assms True by (auto simp: normalizeReferenceLayout_def Let_def split: option.splits)
  have ls: "nl_layers n = map stripLayer ?ls" using layers_pass(1) [OF pass] by simp
  obtain new where new: "nl_assignments n = ?own @ new" "\<forall>kv \<in> set new. objectLike (snd kv)"
    using layers_pass(2) [OF pass] by blast
  have "filter (\<lambda>(k, v). objectLike v) (nl_assignments n) = nl_assignments n"
    using new by (auto simp: filter_id_conv)
  moreover have "foldM (normalizeLayer numStr) (nl_layers n) ([], nl_assignments n) = Some (nl_layers n, nl_assignments n)"
    using layers_pass(3) [OF pass, of "nl_assignments n" "[]"] ls by simp
  moreover have "nl_defaultNodeSortMode n = Some s \<Longrightarrow> s \<in> set VALID_DEFAULTS" for s
    using d by (auto split: jsval.splits if_splits)
  ultimately have "normalizeReferenceLayout numStr (asConfig n) = Some n"
    by (cases "nl_defaultNodeSortMode n") (auto simp: normalizeReferenceLayout_def asConfig_def optProp_def objGet_def)
  then show ?thesis using new ls stripLayer_no_legacy by auto
qed

end
