(* ===== verification/Rule_Semantics.thy ===== *)
theory Rule_Semantics
  imports Js_Values
begin

text \<open>
  What a layer rule's property conditions mean: \<^verbatim>\<open>frontend/src/lib/placement/semantics.ts\<close>, with the part
  of \<^verbatim>\<open>frontend/src/components/canvas/search/typed/operators.ts\<close> (\<open>autoTypeOf\<close>) and of the generated
  operator table that the six rule operators reach.

  Numbers are doubles: where the code computes with them the model rounds to the nearest double.
\<close>

section \<open>Doubles\<close>

text \<open>Decimal digits, and the number of digits in a base, of a non-negative integer.\<close>

function decimalDigits :: "int \<Rightarrow> string" where
  "decimalDigits n = (if n < 10 then [char_of (48 + nat n)] else decimalDigits (n div 10) @ [char_of (48 + nat (n mod 10))])"
  by pat_completeness auto

termination decimalDigits
  by (relation "measure nat") auto

function numLen :: "int \<Rightarrow> int \<Rightarrow> int" where
  "numLen b n = (if b < 2 \<or> n < b then 1 else 1 + numLen b (n div b))"
  by pat_completeness auto

termination numLen
  by (relation "measure (\<lambda>(b, n). nat n)") (auto simp: int_div_less_self)

declare decimalDigits.simps [simp del] numLen.simps [simp del]

definition ratPow :: "int \<Rightarrow> int \<Rightarrow> rat" where
  "ratPow b k = (if 0 \<le> k then of_int b ^ nat k else 1 / of_int b ^ nat (- k))"

text \<open>The exponent of the leading digit of a positive rational in base b.\<close>

definition leadExp :: "int \<Rightarrow> rat \<Rightarrow> int" where
  "leadExp b q =
     (let (n, d) = quotient_of q; k = numLen b n - numLen b d
      in if ratPow b k \<le> q then k else k - 1)"

definition roundHalfEven :: "rat \<Rightarrow> int" where
  "roundHalfEven q =
     (let f = \<lfloor>q\<rfloor>; r = q - of_int f
      in if r < 1 / 2 then f else if 1 / 2 < r then f + 1 else if even f then f else f + 1)"

definition toDouble :: "rat \<Rightarrow> jsnum" where
  "toDouble q =
     (if q = 0 then Fin 0
      else let e = max (leadExp 2 \<bar>q\<bar>) (-1022);
               v = of_int (roundHalfEven (\<bar>q\<bar> / ratPow 2 (e - 52))) * ratPow 2 (e - 52)
           in if ratPow 2 1024 \<le> v then (if q < 0 then NegInf else PosInf)
              else if v = 0 then (if q < 0 then NegZero else Fin 0)
              else Fin (if q < 0 then - v else v))"

text \<open>Division of an integer by a positive power of ten, which may have overflowed.\<close>

fun numDiv :: "jsnum \<Rightarrow> jsnum \<Rightarrow> jsnum" where
  "numDiv (Fin a) (Fin b) = toDouble (a / b)"
| "numDiv (Fin a) PosInf = (if a < 0 then NegZero else Fin 0)"
| "numDiv NegZero _ = NegZero"
| "numDiv _ _ = NaN"

definition showInt :: "int \<Rightarrow> string" where
  "showInt i = (if i < 0 then CHR ''-'' # decimalDigits (- i) else decimalDigits i)"

definition isSafeInteger :: "jsnum \<Rightarrow> bool" where
  "isSafeInteger n = (case n of Fin q \<Rightarrow> of_int \<lfloor>q\<rfloor> = q \<and> \<bar>q\<bar> \<le> 9007199254740991 | NegZero \<Rightarrow> True | _ \<Rightarrow> False)"

section \<open>Operators and comparisons\<close>

datatype property_op = Eq | Neq | Contains | StartsWith | EndsWith | IsSet

datatype value_type = StringType | NumberType | BooleanType

datatype semantics_error = UnknownOperator string | EnterValue | NotSingleValue jsval | NotANumber jsnum | TypeSomeText

record comparison =
  cp_op :: property_op
  cp_type :: "value_type option"
  cp_value :: jsval

definition RULE_OPERATORS :: "(string \<times> property_op) list" where
  "RULE_OPERATORS = [(''equals'', Eq), (''notEquals'', Neq), (''contains'', Contains), (''startsWith'', StartsWith),
     (''endsWith'', EndsWith), (''exists'', IsSet)]"

text \<open>The rows of the operator table: takes no value, and compares as text only.\<close>

definition arityNone :: "property_op \<Rightarrow> bool" where
  "arityNone p = (p = IsSet)"

definition textOnly :: "property_op \<Rightarrow> bool" where
  "textOnly p = (p \<in> {Contains, StartsWith, EndsWith})"

definition autoTypeOf :: "property_op \<Rightarrow> jsval \<Rightarrow> value_type" where
  "autoTypeOf p v =
     (if textOnly p then StringType
      else case v of JBool _ \<Rightarrow> BooleanType | JNum _ \<Rightarrow> NumberType | _ \<Rightarrow> StringType)"

definition INT64_MIN :: rat where "INT64_MIN = - (2 ^ 63)"

definition INT64_MAX :: rat where "INT64_MAX = 2 ^ 63"

definition isAscii :: "string \<Rightarrow> bool" where
  "isAscii s = list_all (\<lambda>c. (of_char c :: nat) < 128) s"

definition foldCase :: "string \<Rightarrow> string" where
  "foldCase s = (if isAscii s then jsLower s else concat (map (\<lambda>ch. jsLower [ch]) s))"

text \<open>\<open>toExponential(100)\<close> of a positive number: its first 101 digits as an integer, and the exponent.\<close>

definition toExponential100 :: "rat \<Rightarrow> int \<times> int" where
  "toExponential100 q =
     (let e = leadExp 10 q; n = \<lfloor>q / ratPow 10 (e - 100) + 1 / 2\<rfloor>
      in if n = 10 ^ 101 then (10 ^ 100, e + 1) else (n, e))"

definition formatG15 :: "jsnum \<Rightarrow> string" where
  "formatG15 x = (case x of
     Fin q \<Rightarrow>
       (let (digits, exponent) = toExponential100 \<bar>q\<bar>;
            head0 = digits div 10 ^ 86; tail = digits mod 10 ^ 86; half = 5 * 10 ^ 85;
            head1 = (if half < tail \<or> (tail = half \<and> head0 mod 2 = 1) then head0 + 1 else head0);
            (hd15, ex) = (if head1 = 10 ^ 15 then (10 ^ 14, exponent + 1) else (head1, exponent));
            sign = (if q < 0 then ''-'' else []);
            sig = rev (dropWhile (\<lambda>c. c = CHR ''0'') (rev (decimalDigits hd15)))
        in if ex < -4 \<or> 15 \<le> ex
           then sign @ take 1 sig @ (if length sig > 1 then CHR ''.'' # drop 1 sig else []) @
                CHR ''e'' # (if ex < 0 then ''-'' else ''+'') @
                (let t = decimalDigits \<bar>ex\<bar> in replicate (2 - length t) (CHR ''0'') @ t)
           else if ex < 0 then sign @ ''0.'' @ replicate (nat (- ex - 1)) (CHR ''0'') @ sig
           else if length sig \<le> nat ex + 1 then sign @ sig @ replicate (nat ex + 1 - length sig) (CHR ''0'')
           else sign @ take (nat ex + 1) sig @ ''.'' @ drop (nat ex + 1) sig)
   | NegZero \<Rightarrow> ''0''
   | NaN \<Rightarrow> ''.NaN''
   | PosInf \<Rightarrow> ''.Infinity''
   | NegInf \<Rightarrow> ''-.Infinity'')"

definition textOf :: "jsval \<Rightarrow> string option" where
  "textOf e = (case e of
     JStr s \<Rightarrow> Some s
   | JBool b \<Rightarrow> Some (if b then ''true'' else ''false'')
   | JNum n \<Rightarrow>
       (if n = NegZero then Some ''-0''
        else Some (if isSafeInteger n then (case n of Fin q \<Rightarrow> showInt \<lfloor>q\<rfloor> | _ \<Rightarrow> []) else formatG15 n))
   | _ \<Rightarrow> None)"

definition resolveRuleComparison :: "string \<Rightarrow> jsval \<Rightarrow> semantics_error + comparison" where
  "resolveRuleComparison operator value =
     (case map_of RULE_OPERATORS operator of
        None \<Rightarrow> Inl (UnknownOperator operator)
      | Some p \<Rightarrow>
        (if arityNone p then Inr \<lparr>cp_op = p, cp_type = None, cp_value = JUndefined\<rparr>
         else let v = (case value of JArr [x] \<Rightarrow> x | _ \<Rightarrow> value)
              in if nullish v then Inl EnterValue
                 else if (case v of JStr _ \<Rightarrow> False | JNum _ \<Rightarrow> False | JBool _ \<Rightarrow> False | _ \<Rightarrow> True) then Inl (NotSingleValue v)
                 else let type = autoTypeOf p v
                      in if type = NumberType \<and> (case v of JNum n \<Rightarrow> n \<in> {NaN, PosInf, NegInf} | _ \<Rightarrow> False)
                         then Inl (NotANumber (case v of JNum n \<Rightarrow> n | _ \<Rightarrow> NaN))
                         else if type \<noteq> StringType then Inr \<lparr>cp_op = p, cp_type = Some type, cp_value = v\<rparr>
                         else let txt = the (textOf v)
                              in if textOnly p \<and> txt = [] then Inl TypeSomeText
                                 else Inr \<lparr>cp_op = p, cp_type = Some type, cp_value = JStr (foldCase txt)\<rparr>))"

section \<open>Evaluation\<close>

text \<open>The digits of an integer spelling: leading ASCII white space, a sign, at least one digit.\<close>

definition isDigit :: "char \<Rightarrow> bool" where
  "isDigit c = (48 \<le> (of_char c :: nat) \<and> (of_char c :: nat) \<le> 57)"

definition digitsValue :: "string \<Rightarrow> int" where
  "digitsValue s = foldl (\<lambda>n c. 10 * n + (int (of_char c) - 48)) 0 s"

definition textInteger :: "string \<Rightarrow> jsnum option" where
  "textInteger s =
     (let t = dropWhile (\<lambda>c. (of_char c :: nat) \<in> {9, 10, 11, 12, 13, 32}) s;
          neg = (t \<noteq> [] \<and> hd t = CHR ''-'');
          ds = (if t \<noteq> [] \<and> hd t \<in> {CHR ''+'', CHR ''-''} then tl t else t)
      in if ds = [] \<or> \<not> list_all isDigit ds then None
         else let n = (if digitsValue ds = 0 then (if neg then NegZero else Fin 0)
                       else toDouble (of_int (if neg then - digitsValue ds else digitsValue ds)))
              in case n of
                   Fin q \<Rightarrow> if INT64_MIN \<le> q \<and> q \<le> INT64_MAX then Some n else None
                 | NegZero \<Rightarrow> Some n
                 | _ \<Rightarrow> None)"

fun splitDot :: "string \<Rightarrow> string list" where
  "splitDot [] = [[]]"
| "splitDot (c # s) =
     (if c = CHR ''.'' then [] # splitDot s
      else (case splitDot s of p # ps \<Rightarrow> (c # p) # ps | [] \<Rightarrow> [[c]]))"

definition storedNumber :: "jsval \<Rightarrow> jsnum option" where
  "storedNumber e = (case e of
     JNum n \<Rightarrow> if n = NaN then None else Some n
   | JStr s \<Rightarrow>
       (let parts = splitDot s
        in if length parts > 2 then None
           else case textInteger (concat parts) of
                  None \<Rightarrow> None
                | Some n \<Rightarrow> if length parts = 1 then Some n
                            else Some (numDiv n (toDouble (10 ^ length (parts ! 1)))))
   | _ \<Rightarrow> None)"

definition storedBoolean :: "jsval \<Rightarrow> bool option" where
  "storedBoolean e = (case e of
     JBool b \<Rightarrow> Some b
   | JStr s \<Rightarrow> (let lower = jsLower s in if lower = ''true'' then Some True else if lower = ''false'' then Some False else None)
   | _ \<Rightarrow> None)"

definition keyOf :: "jsval \<Rightarrow> comparison \<Rightarrow> jsval option" where
  "keyOf e cmp = (case cp_type cmp of
     Some NumberType \<Rightarrow> map_option JNum (storedNumber e)
   | Some BooleanType \<Rightarrow> map_option JBool (storedBoolean e)
   | _ \<Rightarrow> map_option (\<lambda>t. JStr (foldCase t)) (textOf e))"

text \<open>The text operators only meet text: \<open>autoTypeOf\<close> gives them no other type.\<close>

definition testOp :: "jsval option \<Rightarrow> property_op \<Rightarrow> jsval \<Rightarrow> bool" where
  "testOp k p v = (case k of
     None \<Rightarrow> False
   | Some x \<Rightarrow>
       (case p of
          Contains \<Rightarrow> (case (x, v) of (JStr a, JStr b) \<Rightarrow> strIncludes a b | _ \<Rightarrow> False)
        | StartsWith \<Rightarrow> (case (x, v) of (JStr a, JStr b) \<Rightarrow> prefix b a | _ \<Rightarrow> False)
        | EndsWith \<Rightarrow> (case (x, v) of (JStr a, JStr b) \<Rightarrow> suffix b a | _ \<Rightarrow> False)
        | _ \<Rightarrow> strictEq x v))"

definition matchesOp :: "jsval \<Rightarrow> property_op \<Rightarrow> comparison \<Rightarrow> bool" where
  "matchesOp stored p cmp = (case stored of
     JArr es \<Rightarrow> list_ex (\<lambda>e. testOp (keyOf e cmp) p (cp_value cmp)) es
   | _ \<Rightarrow> testOp (keyOf stored cmp) p (cp_value cmp))"

definition evaluate :: "jsval \<Rightarrow> comparison \<Rightarrow> bool" where
  "evaluate stored cmp =
     (if cp_op cmp = IsSet then \<not> nullish stored
      else if cp_op cmp = Neq then \<not> nullish stored \<and> \<not> matchesOp stored Eq cmp
      else matchesOp stored (cp_op cmp) cmp)"

section \<open>Properties\<close>

lemma evaluate_missing:
  assumes "nullish stored"
  shows "\<not> evaluate stored cmp"
proof -
  have "textOf stored = None" "storedNumber stored = None" "storedBoolean stored = None" "\<forall>es. stored \<noteq> JArr es"
    using assms by (auto simp: nullish_def textOf_def storedNumber_def storedBoolean_def)
  then have "\<not> matchesOp stored p cmp" for p
    using assms by (auto simp: matchesOp_def keyOf_def testOp_def nullish_def split: option.splits value_type.splits)
  then show ?thesis using assms by (simp add: evaluate_def)
qed

text \<open>Two letters that differ in case only: a capital of the ASCII or Latin-1 alphabet (the multiplication sign is
  not one) stands 32 code units below its small letter.\<close>

definition capital :: "nat \<Rightarrow> bool" where
  "capital n \<longleftrightarrow> (65 \<le> n \<and> n \<le> 90) \<or> (192 \<le> n \<and> n \<le> 222 \<and> n \<noteq> 215)"

definition sameLetter :: "char \<Rightarrow> char \<Rightarrow> bool" where
  "sameLetter c d \<longleftrightarrow> c = d \<or> (capital (of_char c) \<and> (of_char d :: nat) = of_char c + 32) \<or>
     (capital (of_char d) \<and> (of_char c :: nat) = of_char d + 32)"

definition sameText :: "string \<Rightarrow> string \<Rightarrow> bool" where
  "sameText = list_all2 sameLetter"

text \<open>What an operator says of a stored text, the rule's text being \<open>v\<close>.\<close>

definition textMeaning :: "string \<Rightarrow> string \<Rightarrow> string \<Rightarrow> bool" where
  "textMeaning operator v t \<longleftrightarrow>
     (if operator = ''equals'' then sameText t v
      else if operator = ''contains'' then \<exists>a m b. t = a @ m @ b \<and> sameText m v
      else if operator = ''startsWith'' then \<exists>m b. t = m @ b \<and> sameText m v
      else \<exists>a m. t = a @ m \<and> sameText m v)"

lemma code_lowerChar: "(of_char (lowerChar c) :: nat) = (if capital (of_char c) then of_char c + 32 else of_char c)"
  by (simp add: lowerChar_def capital_def Let_def)

lemma lowerChar_sameLetter: "lowerChar c = lowerChar d \<longleftrightarrow> sameLetter c d"
proof -
  have "lowerChar c = lowerChar d \<longleftrightarrow> (of_char (lowerChar c) :: nat) = of_char (lowerChar d)" by simp
  also have "\<dots> \<longleftrightarrow> sameLetter c d"
    unfolding code_lowerChar sameLetter_def of_char_eq_iff [symmetric, where 'a = nat, of c d] by (auto simp: capital_def)
  finally show ?thesis .
qed

lemma foldCase_map: "foldCase s = map lowerChar s"
  by (simp add: foldCase_def jsLower_def concat_map_singleton)

lemma foldCase_sameText: "foldCase s = foldCase t \<longleftrightarrow> sameText s t"
  unfolding foldCase_map sameText_def list_all2_conv_all_nth list_eq_iff_nth_eq by (auto simp: lowerChar_sameLetter)

lemma strIncludes_split: "strIncludes s p \<longleftrightarrow> (\<exists>a b. s = a @ p @ b)"
proof (induction s)
  case (Cons c s)
  have "(\<exists>a b. c # s = a @ p @ b) \<longleftrightarrow> prefix p (c # s) \<or> (\<exists>a b. s = a @ p @ b)"
  proof
    assume "\<exists>a b. c # s = a @ p @ b"
    then obtain a b where "c # s = a @ p @ b" by blast
    then show "prefix p (c # s) \<or> (\<exists>a b. s = a @ p @ b)" by (cases a) (auto simp: prefix_def)
  next
    assume "prefix p (c # s) \<or> (\<exists>a b. s = a @ p @ b)"
    then show "\<exists>a b. c # s = a @ p @ b" by (metis append_Cons append_Nil prefix_def)
  qed
  then show ?case using Cons by simp
qed simp

text \<open>The text operators on case-folded texts, read on the texts themselves.\<close>

lemma split_map_start: "(\<exists>r. map f t = map f v @ r) \<longleftrightarrow> (\<exists>m b. t = m @ b \<and> map f m = map f v)"
  by (metis map_append map_eq_append_conv)

lemma split_map_end: "(\<exists>r. map f t = r @ map f v) \<longleftrightarrow> (\<exists>a m. t = a @ m \<and> map f m = map f v)"
  by (metis map_append map_eq_append_conv)

lemma split_map_part: "(\<exists>l r. map f t = l @ map f v @ r) \<longleftrightarrow> (\<exists>a m b. t = a @ m @ b \<and> map f m = map f v)"
proof
  assume "\<exists>l r. map f t = l @ map f v @ r"
  then obtain l r where "map f t = l @ (map f v @ r)" by blast
  then obtain a u where a: "t = a @ u" "map f u = map f v @ r" by (metis map_eq_append_conv)
  then show "\<exists>a m b. t = a @ m @ b \<and> map f m = map f v" using split_map_start by metis
qed (auto, metis)

lemma fold_parts:
  "prefix (foldCase v) (foldCase t) \<longleftrightarrow> (\<exists>m b. t = m @ b \<and> sameText m v)"
  "suffix (foldCase v) (foldCase t) \<longleftrightarrow> (\<exists>a m. t = a @ m \<and> sameText m v)"
  "strIncludes (foldCase t) (foldCase v) \<longleftrightarrow> (\<exists>a m b. t = a @ m @ b \<and> sameText m v)"
  unfolding prefix_def suffix_def strIncludes_split foldCase_sameText [symmetric] foldCase_map
  by (rule split_map_start split_map_end split_map_part)+

lemma resolve_text:
  assumes "resolveRuleComparison operator (JStr v) = Inr c" "operator \<noteq> ''exists''"
  shows "map_of RULE_OPERATORS operator = Some (cp_op c) \<and> cp_op c \<noteq> IsSet \<and> cp_type c = Some StringType \<and> cp_value c = JStr (foldCase v)"
proof -
  obtain p where p: "map_of RULE_OPERATORS operator = Some p"
    using assms(1) by (auto simp: resolveRuleComparison_def split: option.splits)
  have "p \<noteq> IsSet" using p assms(2) by (auto simp: RULE_OPERATORS_def split: if_splits)
  then show ?thesis using assms(1) p
    by (auto simp: resolveRuleComparison_def arityNone_def autoTypeOf_def nullish_def textOf_def Let_def split: if_splits)
qed

lemma testOp_text:
  assumes "p \<in> {Eq, Contains, StartsWith, EndsWith}"
  shows "testOp (Some (JStr (foldCase t))) p (JStr (foldCase v)) =
    textMeaning (if p = Eq then ''equals'' else if p = Contains then ''contains'' else if p = StartsWith then ''startsWith'' else ''endsWith'') v t"
  using assms by (elim insertE) (auto simp: testOp_def textMeaning_def fold_parts foldCase_sameText doubleton_eq_iff)

lemma rule_op_cases:
  assumes "map_of RULE_OPERATORS operator = Some p" "p \<noteq> IsSet"
  obtains "operator = ''equals''" "p = Eq" | "operator = ''notEquals''" "p = Neq" | "operator = ''contains''" "p = Contains"
    | "operator = ''startsWith''" "p = StartsWith" | "operator = ''endsWith''" "p = EndsWith"
  using assms by (auto simp: RULE_OPERATORS_def split: if_splits)

text \<open>A text comparison of a stored text, and of a stored list of texts.\<close>

lemma evaluate_text:
  assumes "cp_type c = Some StringType" "cp_op c \<noteq> IsSet"
  shows "evaluate (JStr t) c = ((cp_op c = Neq) \<noteq> testOp (Some (JStr (foldCase t))) (if cp_op c = Neq then Eq else cp_op c) (cp_value c))"
    "evaluate (JArr (map JStr ts)) c =
      ((cp_op c = Neq) \<noteq> (\<exists>t \<in> set ts. testOp (Some (JStr (foldCase t))) (if cp_op c = Neq then Eq else cp_op c) (cp_value c)))"
  using assms by (simp_all add: evaluate_def nullish_def matchesOp_def keyOf_def textOf_def list_ex_iff)

text \<open>
  C40. What the operators of a layer rule mean. A condition on a missing value never holds, and \<open>exists\<close> holds of
  every present one. On a stored text, equals, contains, startsWith and endsWith say that the whole, some
  part, the beginning or the end of it is the rule's text letter for letter, capitals and small letters of ASCII and
  Latin-1 counting as the same; on a stored list of texts, that this is so of one of them. And notEquals says that
  no stored text is the rule's.
\<close>

theorem rule_operators_mean:
  assumes "resolveRuleComparison operator (JStr v) = Inr c"
  shows "(stored \<in> {JUndefined, JNull} \<longrightarrow> \<not> evaluate stored c) \<and>
    (operator = ''exists'' \<longrightarrow> evaluate stored c = (stored \<notin> {JUndefined, JNull})) \<and>
    (operator \<in> {''equals'', ''contains'', ''startsWith'', ''endsWith''} \<longrightarrow>
       evaluate (JStr t) c = textMeaning operator v t \<and>
       evaluate (JArr (map JStr ts)) c = (\<exists>t \<in> set ts. textMeaning operator v t)) \<and>
    (operator = ''notEquals'' \<longrightarrow>
       evaluate (JStr t) c = (\<not> sameText t v) \<and> evaluate (JArr (map JStr ts)) c = (\<forall>t \<in> set ts. \<not> sameText t v))"
proof (cases "operator = ''exists''")
  case True
  then have "cp_op c = IsSet" using assms by (auto simp: resolveRuleComparison_def RULE_OPERATORS_def arityNone_def)
  then show ?thesis using True by (auto simp: evaluate_def nullish_def)
next
  case False
  have r: "map_of RULE_OPERATORS operator = Some (cp_op c)" "cp_op c \<noteq> IsSet" "cp_type c = Some StringType" "cp_value c = JStr (foldCase v)"
    using resolve_text [OF assms False] by simp_all
  note ev = evaluate_text [OF r(3,2), unfolded r(4)]
  have miss: "stored \<in> {JUndefined, JNull} \<longrightarrow> \<not> evaluate stored c" using evaluate_missing [of stored c] by (auto simp: nullish_def)
  from r(1,2) show ?thesis
    by (cases rule: rule_op_cases) (use miss in \<open>simp_all add: ev testOp_text, simp_all add: textMeaning_def\<close>)
qed

theorem rule_operators_mean_witness:
  "\<exists>c. resolveRuleComparison ''contains'' (JStr ''PII'') = Inr c \<and> \<not> evaluate JNull c \<and>
     evaluate (JStr ''has pii data'') c \<and> \<not> evaluate (JArr (map JStr [''P'', ''II''])) c"
proof -
  let ?c = "\<lparr>cp_op = Contains, cp_type = Some StringType, cp_value = JStr ''pii''\<rparr>"
  have r: "resolveRuleComparison ''contains'' (JStr ''PII'') = Inr ?c" by code_simp
  have "''has pii data'' = ''has '' @ ''pii'' @ '' data''" "sameText ''pii'' ''PII''"
    by (simp, simp add: sameText_def sameLetter_def capital_def of_char_def)
  then have "\<exists>a m b. ''has pii data'' = a @ m @ b \<and> sameText m ''PII''" by blast
  then have "textMeaning ''contains'' ''PII'' ''has pii data''" by (simp add: textMeaning_def)
  then have "evaluate (JStr ''has pii data'') ?c" "\<not> evaluate JNull ?c"
    using rule_operators_mean [OF r, of JNull "''has pii data''" "[]"] by auto
  moreover have "\<not> evaluate (JArr (map JStr [''P'', ''II''])) ?c" by code_simp
  ultimately show ?thesis using r by blast
qed

end
