(* ===== verification/Placement.thy ===== *)
theory Placement
  imports Reference_Layout Rule_Semantics "HOL-Library.Product_Lexorder"
begin

text \<open>
  Which layer of a view an entity is in, and why: \<^verbatim>\<open>frontend/src/lib/placement/placement.ts\<close>.

  A view configuration is compiled once into a specification (layers, sorted rules, explicit entries); an
  entity is then placed from its facts and from what its parents offer. Walking a whole graph is in
  \<open>Placement_Order\<close> and \<open>Placement_Cycles\<close>. A set or map whose order is not observable is a list of its elements.
\<close>

section \<open>Data\<close>

record facts =
  pf_urn :: string
  pf_entityType :: string
  pf_displayName :: "string option"
  pf_tags :: "string list"
  pf_properties :: bag
  pf_stamp :: "string option"

datatype placement_source = ExplicitSource | InheritedSource | StampedSource | RuleSource | FallbackSource | NoSource

datatype cascade = HandCascade | SoftCascade

record placement =
  pl_layerId :: "string option"
  pl_source :: placement_source
  pl_ruleId :: "string option"
  pl_inheritedFrom :: "string option"
  pl_staleExplicit :: bool
  pl_ambiguousParent :: bool
  pl_cascade :: "cascade option"

record parent_context =
  pc_urn :: string
  pc_layerId :: string
  pc_cascade :: cascade

datatype glob_token = GStar | GAny | GLit char

record criteria =
  cr_types :: "string list option"
  cr_tags :: "string list option"
  cr_glob :: "glob_token list option"
  cr_checks :: "(string \<times> comparison) list"

record compiled_rule = criteria +
  cr_id :: string
  cr_layerId :: string
  cr_cascadesSoft :: bool

record explicit_entry =
  ee_layerId :: string
  ee_inheritsChildren :: bool
  ee_logicalNodeId :: jsval

datatype inert_reason = BadOperator jsval | CannotCompare string semantics_error | NoCriteria

record placement_spec =
  sp_scope :: entity_scope
  sp_layerIds :: "string list"
  sp_firstLayerId :: "string option"
  sp_fallbackLayerId :: "string option"
  sp_rules :: "compiled_rule list"
  sp_explicit :: "(string \<times> explicit_entry) list"
  sp_inert :: "(string \<times> string \<times> inert_reason) list"
  sp_hasCascadingExplicit :: bool

section \<open>Compiling a view configuration\<close>

definition isRecord :: "jsval \<Rightarrow> bool" where
  "isRecord v = (case v of JObj _ \<Rightarrow> True | _ \<Rightarrow> False)"

definition numOf :: "jsval \<Rightarrow> rat" where
  "numOf v = (case v of JNum (Fin q) \<Rightarrow> q | _ \<Rightarrow> 0)"

definition stringsOf :: "jsval \<Rightarrow> string list" where
  "stringsOf v = (case v of JArr vs \<Rightarrow> concat (map (\<lambda>x. case x of JStr s \<Rightarrow> if s \<noteq> [] then [s] else [] | _ \<Rightarrow> []) vs) | _ \<Rightarrow> [])"

definition nonEmpty :: "jsval \<Rightarrow> string option" where
  "nonEmpty v = (case v of JStr s \<Rightarrow> if s \<noteq> [] then Some s else None | _ \<Rightarrow> None)"

definition withoutBlankUrn :: "jsval \<Rightarrow> jsval" where
  "withoutBlankUrn e = (case e of
     JObj kvs \<Rightarrow> if objGet kvs ''urn'' = JStr [] then JObj (AList.update ''urn'' JUndefined kvs) else e
   | _ \<Rightarrow> e)"

definition withoutBlankLegacyUrns :: "bag \<Rightarrow> bag" where
  "withoutBlankLegacyUrns raw = (case objGet raw ''layers'' of
     JArr ls \<Rightarrow>
       AList.update ''layers'' (JArr (map (\<lambda>layer. case layer of
           JObj kvs \<Rightarrow>
             (case objGet kvs ''entityAssignments'' of
                JArr es \<Rightarrow> JObj (AList.update ''entityAssignments'' (JArr (map withoutBlankUrn es)) kvs)
              | _ \<Rightarrow> layer)
         | _ \<Rightarrow> layer) ls)) raw
   | _ \<Rightarrow> raw)"

text \<open>An anchored glob matches a whole URN: a star any run, a question mark one character.\<close>

definition globToRegExp :: "string \<Rightarrow> glob_token list" where
  "globToRegExp pattern = map (\<lambda>c. if c = CHR ''*'' then GStar else if c = CHR ''?'' then GAny else GLit c) pattern"

fun globTest :: "glob_token list \<Rightarrow> string \<Rightarrow> bool" where
  "globTest [] s = (s = [])"
| "globTest (GLit c # g) [] = False"
| "globTest (GLit c # g) (d # s) = (c = d \<and> globTest g s)"
| "globTest (GAny # g) [] = False"
| "globTest (GAny # g) (d # s) = globTest g s"
| "globTest (GStar # g) [] = globTest g []"
| "globTest (GStar # g) (d # s) = (globTest g (d # s) \<or> globTest (GStar # g) s)"

text \<open>The conditions of a rule; an unfinished one (no field) is absent.\<close>

definition compileCheck :: "jsval \<Rightarrow> (string \<times> comparison) list \<Rightarrow> inert_reason + (string \<times> comparison) list" where
  "compileCheck c checks = (case c of
     JObj kvs \<Rightarrow>
       (case objGet kvs ''field'' of
          JStr field \<Rightarrow>
            (if field = [] then Inr checks
             else let op0 = objGet kvs ''operator'';
                      blank = (\<not> truthy op0 \<or> op0 = JArr [] \<or> op0 = JObj []);
                      operator = (if blank then JStr ''equals'' else op0)
                  in case operator of
                       JStr s \<Rightarrow>
                         (if map_of RULE_OPERATORS s = None then Inl (BadOperator operator)
                          else case resolveRuleComparison s (objGet kvs ''value'') of
                                 Inl err \<Rightarrow> Inl (CannotCompare field err)
                               | Inr cmp \<Rightarrow> Inr (checks @ [(field, cmp)]))
                     | _ \<Rightarrow> Inl (BadOperator operator))
        | _ \<Rightarrow> Inr checks)
   | _ \<Rightarrow> Inr checks)"

fun compileChecks :: "jsval list \<Rightarrow> (string \<times> comparison) list \<Rightarrow> inert_reason + (string \<times> comparison) list" where
  "compileChecks [] checks = Inr checks"
| "compileChecks (c # cs) checks = (case compileCheck c checks of Inl r \<Rightarrow> Inl r | Inr ks \<Rightarrow> compileChecks cs ks)"

definition compileCriteria :: "bag \<Rightarrow> inert_reason + criteria" where
  "compileCriteria rule =
     (let types = map foldCase (stringsOf (objGet rule ''entityTypes''));
          tags = stringsOf (objGet rule ''tags'');
          pattern = nonEmpty (objGet rule ''urnPattern'')
      in case compileChecks (objGet rule ''propertyMatch'' #
                (case objGet rule ''conditions'' of JArr cs \<Rightarrow> cs | _ \<Rightarrow> [])) [] of
           Inl r \<Rightarrow> Inl r
         | Inr checks \<Rightarrow>
             (if types = [] \<and> tags = [] \<and> pattern = None \<and> checks = [] then Inl NoCriteria
              else Inr \<lparr>cr_types = (if types \<noteq> [] then Some types else None),
                        cr_tags = (if tags \<noteq> [] then Some tags else None),
                        cr_glob = map_option globToRegExp pattern, cr_checks = checks\<rparr>))"

text \<open>A rule with its sort key: priority, rank of its layer, index in the layer.\<close>

type_synonym keyed_rule = "compiled_rule \<times> rat \<times> nat \<times> nat"

definition compileRule :: "string \<Rightarrow> nat \<Rightarrow> nat \<times> jsval \<Rightarrow> (string \<times> string \<times> inert_reason) list \<times> keyed_rule list" where
  "compileRule layerId rank = (\<lambda>(index, rule). case rule of
     JObj kvs \<Rightarrow>
       (let i = (case nonEmpty (objGet kvs ''id'') of Some s \<Rightarrow> s | None \<Rightarrow> ''_rule_'' @ layerId @ ''_'' @ showNat index)
        in case compileCriteria kvs of
             Inl reason \<Rightarrow> ([(layerId, i, reason)], [])
           | Inr c \<Rightarrow>
               ([], [(criteria.extend c \<lparr>cr_id = i, cr_layerId = layerId,
                        cr_cascadesSoft = (objGet kvs ''inheritsFromParent'' \<noteq> JBool False)\<rparr>,
                      numOf (objGet kvs ''priority''), rank, index)]))
   | _ \<Rightarrow> ([], []))"

definition typeRule :: "string \<Rightarrow> nat \<Rightarrow> nat \<Rightarrow> nat \<times> string \<Rightarrow> keyed_rule" where
  "typeRule layerId rank authored = (\<lambda>(offset, t).
     (\<lparr>cr_types = Some [foldCase t], cr_tags = None, cr_glob = None, cr_checks = [],
       cr_id = ''_type_'' @ layerId @ ''_'' @ t, cr_layerId = layerId, cr_cascadesSoft = True\<rparr>,
      0, rank, authored + offset))"

definition compileLayer :: "nat \<times> (string \<times> bag) \<Rightarrow> (string \<times> string \<times> inert_reason) list \<times> keyed_rule list" where
  "compileLayer = (\<lambda>(rank, layerId, kvs).
     (let authored = (case objGet kvs ''rules'' of JArr rs \<Rightarrow> rs | _ \<Rightarrow> []);
          rules = map (compileRule layerId rank) (enumerate 0 authored);
          types = map (typeRule layerId rank (length authored)) (enumerate 0 (uniq (stringsOf (objGet kvs ''entityTypes''))))
      in (concat (map fst rules), concat (map snd rules) @ types)))"

definition ruleOrder :: "keyed_rule \<Rightarrow> rat \<times> nat \<times> nat" where
  "ruleOrder = (\<lambda>(rule, priority, rank, index). (- priority, rank, index))"

text \<open>The layers with an id, in display order (a stable sort, as the positions break ties).\<close>

definition orderedLayers :: "jsval list \<Rightarrow> (string \<times> bag) list" where
  "orderedLayers ls =
     sort_key (\<lambda>(i, kvs). numOf (objGet kvs ''order''))
       (concat (map (\<lambda>l. case l of JObj kvs \<Rightarrow> (case nonEmpty (objGet kvs ''id'') of Some i \<Rightarrow> [(i, kvs)] | None \<Rightarrow> []) | _ \<Rightarrow> []) ls))"

definition explicitEntries :: "bag \<Rightarrow> (string \<times> explicit_entry) list" where
  "explicitEntries asg =
     setAll (concat (map (\<lambda>(urn, e). case nonEmpty (optProp e ''layerId'') of
        None \<Rightarrow> []
      | Some l \<Rightarrow> [(urn, \<lparr>ee_layerId = l, ee_inheritsChildren = (optProp e ''inheritsChildren'' \<noteq> JBool False),
                       ee_logicalNodeId = optProp e ''logicalNodeId''\<rparr>)]) asg)) []"

text \<open>What is compiled from a layout that was read; nothing here can throw.\<close>

definition specOfLayout :: "jsval \<Rightarrow> normalized_layout \<Rightarrow> placement_spec" where
  "specOfLayout content layout =
     (let layers = orderedLayers (nl_layers layout);
          layerIds = map fst layers;
          compiled = map compileLayer (enumerate 0 layers);
          explicit = explicitEntries (nl_assignments layout)
      in \<lparr>sp_scope = deriveEntityScope content layout,
          sp_layerIds = layerIds,
          sp_firstLayerId = (case layerIds of [] \<Rightarrow> None | i # _ \<Rightarrow> Some i),
          sp_fallbackLayerId = map_option fst (find (\<lambda>(i, kvs). objGet kvs ''showUnassigned'' = JBool True) layers),
          sp_rules = map fst (sort_key ruleOrder (concat (map snd compiled))),
          sp_explicit = explicit,
          sp_inert = concat (map fst compiled),
          sp_hasCascadingExplicit =
            list_ex (\<lambda>(u, e). ee_inheritsChildren e \<and> ee_layerId e \<in> set layerIds) explicit\<rparr>)"

definition compilePlacementSpec :: "(jsnum \<Rightarrow> string) \<Rightarrow> jsval \<Rightarrow> placement_spec option" where
  "compilePlacementSpec numStr config =
     (let cfg = (case config of JObj kvs \<Rightarrow> kvs | _ \<Rightarrow> []);
          raw = (case optProp (objGet cfg ''layout'') ''referenceLayout'' of
                   JObj kvs \<Rightarrow> kvs
                 | _ \<Rightarrow> (case objGet cfg ''referenceLayout'' of JObj kvs \<Rightarrow> kvs | _ \<Rightarrow> []))
      in map_option (specOfLayout (objGet cfg ''content'')) (normalizeReferenceLayout numStr (JObj (withoutBlankLegacyUrns raw))))"

section \<open>Placing one entity\<close>

definition rulesFor :: "placement_spec \<Rightarrow> string \<Rightarrow> compiled_rule list" where
  "rulesFor spec entityType =
     filter (\<lambda>r. case cr_types r of None \<Rightarrow> True | Some ts \<Rightarrow> foldCase entityType \<in> set ts) (sp_rules spec)"

definition hasAny :: "string list \<Rightarrow> string list \<Rightarrow> bool" where
  "hasAny wanted tags = list_ex (\<lambda>t. t \<in> set wanted) tags"

text \<open>A user property; a missing one reads the entity's own name, type or URN.\<close>

definition valueOf :: "facts \<Rightarrow> string \<Rightarrow> jsval" where
  "valueOf facts field =
     (let v = objGet (pf_properties facts) field
      in if \<not> nullish v then v
         else if field = ''name'' then (case pf_displayName facts of None \<Rightarrow> JUndefined | Some s \<Rightarrow> JStr s)
         else if field = ''type'' then JStr (pf_entityType facts)
         else if field = ''urn'' then JStr (pf_urn facts)
         else JUndefined)"

definition passes :: "(string \<times> comparison) list \<Rightarrow> facts \<Rightarrow> bool" where
  "passes checks facts = list_all (\<lambda>(field, cmp). evaluate (valueOf facts field) cmp) checks"

definition ruleClaims :: "facts \<Rightarrow> compiled_rule \<Rightarrow> bool" where
  "ruleClaims facts rule =
     ((case cr_tags rule of None \<Rightarrow> True | Some ts \<Rightarrow> hasAny ts (pf_tags facts)) \<and>
      (case cr_glob rule of None \<Rightarrow> True | Some g \<Rightarrow> globTest g (pf_urn facts)) \<and>
      (cr_checks rule = [] \<or> passes (cr_checks rule) facts))"

definition matchRule :: "placement_spec \<Rightarrow> facts \<Rightarrow> compiled_rule option" where
  "matchRule spec facts = find (ruleClaims facts) (rulesFor spec (pf_entityType facts))"

definition nonePlacement :: placement where
  "nonePlacement = \<lparr>pl_layerId = None, pl_source = NoSource, pl_ruleId = None, pl_inheritedFrom = None,
     pl_staleExplicit = False, pl_ambiguousParent = False, pl_cascade = None\<rparr>"

text \<open>Order by code point; the surrogates are lifted above the range they would sort below.\<close>

definition unitRank :: "char \<Rightarrow> nat" where
  "unitRank c = (let unit = (of_char c :: nat)
     in if unit \<ge> 57344 then unit - 2048 else if unit \<ge> 55296 then unit + 8192 else unit)"

fun codePointBefore :: "string \<Rightarrow> string \<Rightarrow> bool" where
  "codePointBefore (x # a) (y # b) = (if x \<noteq> y then unitRank x < unitRank y else codePointBefore a b)"
| "codePointBefore a b = (length a < length b)"

definition inheritStep :: "placement_spec \<Rightarrow> cascade \<Rightarrow> parent_context \<Rightarrow> parent_context option \<times> bool \<Rightarrow> parent_context option \<times> bool" where
  "inheritStep spec cascade p = (\<lambda>(chosen, ambiguous).
     if pc_cascade p \<noteq> cascade \<or> pc_layerId p \<notin> set (sp_layerIds spec) then (chosen, ambiguous)
     else ((case chosen of None \<Rightarrow> Some p | Some c \<Rightarrow> if codePointBefore (pc_urn p) (pc_urn c) then Some p else chosen),
           ambiguous \<or> (case chosen of None \<Rightarrow> False | Some c \<Rightarrow> pc_layerId p \<noteq> pc_layerId c)))"

definition inherit :: "placement_spec \<Rightarrow> parent_context list \<Rightarrow> cascade \<Rightarrow> placement option" where
  "inherit spec parents cascade = (case fold (inheritStep spec cascade) parents (None, False) of
     (None, _) \<Rightarrow> None
   | (Some c, ambiguous) \<Rightarrow>
       Some (nonePlacement\<lparr>pl_layerId := Some (pc_layerId c), pl_source := InheritedSource, pl_inheritedFrom := Some (pc_urn c),
         pl_ambiguousParent := ambiguous, pl_cascade := Some cascade\<rparr>))"

definition placeUnpinned ::
  "placement_spec \<Rightarrow> string \<Rightarrow> (string \<Rightarrow> facts option) \<Rightarrow> parent_context list \<Rightarrow> bool \<Rightarrow> placement" where
  "placeUnpinned spec urn factsOf parents createdInBranch =
     (if sp_scope spec = CuratedScope \<and> \<not> createdInBranch then nonePlacement
      else case factsOf urn of
        None \<Rightarrow> nonePlacement
      | Some facts \<Rightarrow>
        (let stamp = (if truthyStr (pf_stamp facts) \<and> the (pf_stamp facts) \<in> set (sp_layerIds spec) then pf_stamp facts else None);
             stamped = (\<lambda>c. nonePlacement\<lparr>pl_layerId := stamp, pl_source := StampedSource, pl_cascade := Some c\<rparr>)
         in if sp_scope spec = CuratedScope then (if truthyStr stamp then stamped HandCascade else nonePlacement)
            else if truthyStr stamp then stamped SoftCascade
            else case matchRule spec facts of
              Some rule \<Rightarrow> nonePlacement\<lparr>pl_layerId := Some (cr_layerId rule), pl_source := RuleSource, pl_ruleId := Some (cr_id rule),
                             pl_cascade := (if cr_cascadesSoft rule then Some SoftCascade else None)\<rparr>
            | None \<Rightarrow>
              (case inherit spec parents SoftCascade of
                 Some p \<Rightarrow> p
               | None \<Rightarrow> if truthyStr (sp_fallbackLayerId spec)
                         then nonePlacement\<lparr>pl_layerId := sp_fallbackLayerId spec, pl_source := FallbackSource\<rparr>
                         else nonePlacement)))"

definition resolvePlacement ::
  "placement_spec \<Rightarrow> string \<Rightarrow> (string \<Rightarrow> facts option) \<Rightarrow> parent_context list \<Rightarrow> bool \<Rightarrow> placement" where
  "resolvePlacement spec urn factsOf parents createdInBranch =
     (let entry = map_of (sp_explicit spec) urn;
          placed = (case inherit spec parents HandCascade of
                      Some p \<Rightarrow> p
                    | None \<Rightarrow> placeUnpinned spec urn factsOf parents createdInBranch)
      in case entry of
           None \<Rightarrow> placed
         | Some e \<Rightarrow>
             (if ee_layerId e \<in> set (sp_layerIds spec)
              then nonePlacement\<lparr>pl_layerId := Some (ee_layerId e), pl_source := ExplicitSource,
                     pl_cascade := (if ee_inheritsChildren e then Some HandCascade else None)\<rparr>
              else placed\<lparr>pl_staleExplicit := True\<rparr>))"

definition place :: "placement_spec \<Rightarrow> string \<Rightarrow> facts option \<Rightarrow> parent_context list \<Rightarrow> bool \<Rightarrow> placement" where
  "place spec urn facts parents createdInBranch = resolvePlacement spec urn (\<lambda>_. facts) parents createdInBranch"

definition isMember :: "placement \<Rightarrow> bool" where
  "isMember p = (pl_source p \<noteq> FallbackSource \<and> pl_source p \<noteq> NoSource)"

definition parentContextOf :: "string \<Rightarrow> placement \<Rightarrow> parent_context option" where
  "parentContextOf urn p =
     (case pl_cascade p of
        None \<Rightarrow> None
      | Some c \<Rightarrow> if truthyStr (pl_layerId p)
                  then Some \<lparr>pc_urn = urn, pc_layerId = the (pl_layerId p), pc_cascade = c\<rparr> else None)"

text \<open>\<open>a ?? b\<close> on layer ids.\<close>

definition orId :: "string option \<Rightarrow> string option \<Rightarrow> string option" where
  "orId a b = (case a of None \<Rightarrow> b | Some x \<Rightarrow> Some x)"

definition suggestPlacement ::
  "placement_spec \<Rightarrow> facts \<Rightarrow> string option \<Rightarrow> string option \<Rightarrow> string option \<times> bool" where
  "suggestPlacement spec facts chosenLayerId defaultLayerId =
     (let valid = (\<lambda>i. if truthyStr i \<and> the i \<in> set (sp_layerIds spec) then i else None);
          curated = (sp_scope spec = CuratedScope);
          placed = place spec (pf_urn facts) (Some facts) [] False;
          member = (if isMember placed then pl_layerId placed else None);
          l1 = orId (valid chosenLayerId) member;
          open = place (spec\<lparr>sp_scope := AllScope\<rparr>) (pf_urn facts) (Some facts) [] False;
          l2 = (if l1 = None \<and> curated then (if isMember open then pl_layerId open else None) else l1);
          l3 = orId l2 (orId (valid defaultLayerId) (if curated then sp_firstLayerId spec else None))
      in (l3, l3 \<noteq> None \<and> (curated \<or> l3 \<noteq> member)))"

definition toFacts :: "string \<Rightarrow> jsval \<Rightarrow> jsval \<Rightarrow> jsval \<Rightarrow> jsval \<Rightarrow> jsval \<Rightarrow> facts" where
  "toFacts urn entityType displayName tags properties layerAssignment =
     (let bag = (case properties of JObj kvs \<Rightarrow> kvs | _ \<Rightarrow> [])
      in \<lparr>pf_urn = urn,
          pf_entityType = (case entityType of JStr s \<Rightarrow> s | _ \<Rightarrow> []),
          pf_displayName = nonEmpty displayName,
          pf_tags = (case tags of JArr ts \<Rightarrow> concat (map (\<lambda>t. case t of JStr s \<Rightarrow> [s] | _ \<Rightarrow> []) ts) | _ \<Rightarrow> []),
          pf_properties = bag,
          pf_stamp = orId (nonEmpty layerAssignment) (nonEmpty (objGet bag ''layerAssignment''))\<rparr>)"

text \<open>The fields of a graph node that placement reads.\<close>

record graph_node =
  gn_urn :: string
  gn_entityType :: string
  gn_displayName :: string
  gn_properties :: bag
  gn_tags :: "string list option"
  gn_layerAssignment :: "string option"

definition factsFromGraphNode :: "graph_node \<Rightarrow> facts" where
  "factsFromGraphNode node =
     toFacts (gn_urn node) (JStr (gn_entityType node)) (JStr (gn_displayName node))
       (case gn_tags node of None \<Rightarrow> JUndefined | Some ts \<Rightarrow> JArr (map JStr ts)) (JObj (gn_properties node))
       (case gn_layerAssignment node of None \<Rightarrow> JUndefined | Some s \<Rightarrow> JStr s)"

definition factsFromCanvasData :: "bag option \<Rightarrow> string \<Rightarrow> facts" where
  "factsFromCanvasData data i =
     (let d = (case data of None \<Rightarrow> [] | Some kvs \<Rightarrow> kvs)
      in toFacts (case nonEmpty (objGet d ''urn'') of Some u \<Rightarrow> u | None \<Rightarrow> i) (objGet d ''type'') (objGet d ''label'')
           (objGet d ''classifications'') (objGet d ''properties'') (objGet d ''layerAssignment''))"

section \<open>Inheriting from parents\<close>

lemma unitRank_less: "unitRank x < unitRank y \<longleftrightarrow> x < y"
proof -
  have "unitRank c = of_char c" for c
  proof -
    have "(of_char c :: nat) < 256" by simp
    then have "\<not> 57344 \<le> (of_char c :: nat)" "\<not> 55296 \<le> (of_char c :: nat)" by linarith+
    then show ?thesis by (simp only: unitRank_def Let_def if_False)
  qed
  then show ?thesis by (simp add: less_char_def)
qed

text \<open>Within one byte per character, code-point order is the order of strings.\<close>

lemma codePointBefore_less: "codePointBefore a b \<longleftrightarrow> a < b"
  by (induction a b rule: codePointBefore.induct) (auto simp: unitRank_less Cons_less_Cons)

text \<open>The parents that offer a cascade.\<close>

definition offers :: "placement_spec \<Rightarrow> cascade \<Rightarrow> parent_context list \<Rightarrow> parent_context set" where
  "offers spec c ps = {p \<in> set ps. pc_cascade p = c \<and> pc_layerId p \<in> set (sp_layerIds spec)}"

lemma inheritStep_pair:
  "inheritStep spec c p (chosen, amb) =
     (if pc_cascade p = c \<and> pc_layerId p \<in> set (sp_layerIds spec)
      then (case chosen of None \<Rightarrow> (Some p, amb)
            | Some q \<Rightarrow> (Some (if pc_urn p < pc_urn q then p else q), amb \<or> pc_layerId p \<noteq> pc_layerId q))
      else (chosen, amb))"
  by (simp add: inheritStep_def codePointBefore_less split: option.splits)

lemma inherit_fold:
  "case fold (inheritStep spec c) ps (None, False) of
     (None, amb) \<Rightarrow> offers spec c ps = {} \<and> \<not> amb
   | (Some q, amb) \<Rightarrow> q \<in> offers spec c ps \<and> (\<forall>p \<in> offers spec c ps. pc_urn q \<le> pc_urn p) \<and>
       (amb \<longleftrightarrow> (\<exists>p \<in> offers spec c ps. pc_layerId p \<noteq> pc_layerId q))"
proof (induction ps rule: rev_induct)
  case (snoc x ps)
  obtain ch amb where st: "fold (inheritStep spec c) ps (None, False) = (ch, amb)" by fastforce
  have step: "fold (inheritStep spec c) (ps @ [x]) (None, False) = inheritStep spec c x (ch, amb)" using st by simp
  show ?case
  proof (cases "pc_cascade x = c \<and> pc_layerId x \<in> set (sp_layerIds spec)")
    case True
    then have o: "offers spec c (ps @ [x]) = insert x (offers spec c ps)" by (auto simp: offers_def)
    show ?thesis
    proof (cases ch)
      case None
      then show ?thesis using snoc st True unfolding step o by (simp add: inheritStep_pair)
    next
      case (Some q)
      then have q: "q \<in> offers spec c ps" "\<forall>p \<in> offers spec c ps. pc_urn q \<le> pc_urn p"
        "amb \<longleftrightarrow> (\<exists>p \<in> offers spec c ps. pc_layerId p \<noteq> pc_layerId q)" using snoc st by auto
      show ?thesis
      proof (cases "pc_urn x < pc_urn q")
        case less: True
        then have "\<forall>p \<in> offers spec c ps. pc_urn x \<le> pc_urn p" using q(2) by force
        moreover have "(amb \<or> pc_layerId x \<noteq> pc_layerId q) \<longleftrightarrow> (\<exists>p \<in> offers spec c ps. pc_layerId p \<noteq> pc_layerId x)"
          using q by metis
        moreover have s: "inheritStep spec c x (ch, amb) = (Some x, amb \<or> pc_layerId x \<noteq> pc_layerId q)"
          using Some True less by (simp add: inheritStep_pair)
        ultimately show ?thesis unfolding step o s prod.case option.case by blast
      next
        case False
        moreover have "(amb \<or> pc_layerId x \<noteq> pc_layerId q) \<longleftrightarrow> (\<exists>p \<in> insert x (offers spec c ps). pc_layerId p \<noteq> pc_layerId q)"
          using q by auto
        moreover have s: "inheritStep spec c x (ch, amb) = (Some q, amb \<or> pc_layerId x \<noteq> pc_layerId q)"
          using Some True False by (simp add: inheritStep_pair)
        moreover have "pc_urn q \<le> pc_urn x" using False by simp
        ultimately show ?thesis using q(1,2) unfolding step o s prod.case option.case by blast
      qed
    qed
  next
    case False
    then have o: "offers spec c (ps @ [x]) = offers spec c ps" by (auto simp: offers_def)
    have s: "inheritStep spec c x (ch, amb) = (ch, amb)" using False by (simp only: inheritStep_pair if_False)
    show ?thesis using snoc unfolding step o s st .
  qed
qed (simp add: offers_def)

lemma inherit_None: "inherit spec ps c = None \<longleftrightarrow> offers spec c ps = {}"
  using inherit_fold [of spec c ps] by (auto simp: inherit_def split: prod.splits option.splits)

lemma inherit_Some:
  assumes "inherit spec ps c = Some p"
  obtains q where "q \<in> offers spec c ps" "\<And>x. x \<in> offers spec c ps \<Longrightarrow> pc_urn q \<le> pc_urn x"
    "p = nonePlacement\<lparr>pl_layerId := Some (pc_layerId q), pl_source := InheritedSource, pl_inheritedFrom := Some (pc_urn q),
       pl_ambiguousParent := (\<exists>x \<in> offers spec c ps. pc_layerId x \<noteq> pc_layerId q), pl_cascade := Some c\<rparr>"
proof -
  obtain ch amb where st: "fold (inheritStep spec c) ps (None, False) = (ch, amb)" by fastforce
  then obtain q where "ch = Some q" using assms by (cases ch) (simp_all add: inherit_def)
  have f: "q \<in> offers spec c ps" "\<forall>x \<in> offers spec c ps. pc_urn q \<le> pc_urn x"
    "amb \<longleftrightarrow> (\<exists>x \<in> offers spec c ps. pc_layerId x \<noteq> pc_layerId q)"
    using inherit_fold [of spec c ps] unfolding st \<open>ch = Some q\<close> by simp_all
  have p: "p = nonePlacement\<lparr>pl_layerId := Some (pc_layerId q), pl_source := InheritedSource, pl_inheritedFrom := Some (pc_urn q),
       pl_ambiguousParent := amb, pl_cascade := Some c\<rparr>"
    using assms st \<open>ch = Some q\<close> by (simp add: inherit_def)
  show ?thesis by (rule that [OF f(1) bspec [OF f(2)] p [unfolded f(3)]])
qed

text \<open>Only the set of the parents matters, when no two of them have one URN.\<close>

lemma inherit_set:
  assumes "set ps = set qs" "inj_on pc_urn (set ps)"
  shows "inherit spec ps c = inherit spec qs c"
proof -
  have o: "offers spec c ps = offers spec c qs" using assms(1) by (simp add: offers_def)
  have inj: "inj_on pc_urn (offers spec c ps)" using assms(2) by (rule inj_on_subset) (auto simp: offers_def)
  show ?thesis
  proof (cases "inherit spec ps c")
    case None
    then show ?thesis using o by (metis inherit_None)
  next
    case (Some p)
    then obtain p' where p': "inherit spec qs c = Some p'" using o by (metis inherit_None not_None_eq)
    from Some show ?thesis
    proof (rule inherit_Some)
      fix q
      assume q: "q \<in> offers spec c ps" "\<And>x. x \<in> offers spec c ps \<Longrightarrow> pc_urn q \<le> pc_urn x" and p: "p = nonePlacement\<lparr>
        pl_layerId := Some (pc_layerId q), pl_source := InheritedSource, pl_inheritedFrom := Some (pc_urn q),
        pl_ambiguousParent := (\<exists>x \<in> offers spec c ps. pc_layerId x \<noteq> pc_layerId q), pl_cascade := Some c\<rparr>"
      from p' show ?thesis
      proof (rule inherit_Some)
        fix q'
        assume q': "q' \<in> offers spec c qs" "\<And>x. x \<in> offers spec c qs \<Longrightarrow> pc_urn q' \<le> pc_urn x" and p2: "p' = nonePlacement\<lparr>
          pl_layerId := Some (pc_layerId q'), pl_source := InheritedSource, pl_inheritedFrom := Some (pc_urn q'),
          pl_ambiguousParent := (\<exists>x \<in> offers spec c qs. pc_layerId x \<noteq> pc_layerId q'), pl_cascade := Some c\<rparr>"
        have "pc_urn q = pc_urn q'" using q(2) [of q'] q'(2) [of q] q(1) q'(1) o by (intro order_antisym) simp_all
        then have "q = q'" using inj_onD [OF inj] q(1) q'(1) o by simp
        then show ?thesis unfolding Some p' p p2 o by simp
      qed
    qed
  qed
qed

section \<open>What a compiled view promises\<close>

text \<open>A placement names a layer of the view, or no layer and no source.\<close>

definition placedOk :: "placement_spec \<Rightarrow> placement \<Rightarrow> bool" where
  "placedOk spec p = (case pl_layerId p of
     None \<Rightarrow> pl_source p = NoSource
   | Some i \<Rightarrow> i \<in> set (sp_layerIds spec) \<and> i \<noteq> [] \<and> pl_source p \<noteq> NoSource)"

lemma placedOk_none [simp]: "placedOk spec nonePlacement"
  by (simp add: placedOk_def nonePlacement_def)

lemma placedOk_stale [simp]: "placedOk spec (p\<lparr>pl_staleExplicit := b\<rparr>) = placedOk spec p"
  by (simp add: placedOk_def split: option.split)


text \<open>The contract between compiling a view and placing an entity in it: the layers a rule, the fallback or the
  write-path default names are layers of the view.\<close>

locale compiled_view =
  fixes spec :: placement_spec
  assumes rule_layer: "r \<in> set (sp_rules spec) \<Longrightarrow> cr_layerId r \<in> set (sp_layerIds spec)"
    and fallback_layer: "sp_fallbackLayerId spec = Some i \<Longrightarrow> i \<in> set (sp_layerIds spec)"
    and first_layer: "sp_firstLayerId spec = (case sp_layerIds spec of [] \<Rightarrow> None | i # _ \<Rightarrow> Some i)"
    and layer_nonempty: "[] \<notin> set (sp_layerIds spec)"
begin

lemma inherit_layer:
  assumes "inherit spec ps c = Some p"
  shows "\<exists>i. pl_layerId p = Some i \<and> i \<in> set (sp_layerIds spec)"
  using assms by (elim inherit_Some) (simp add: offers_def)

lemma matched_layer: "matchRule spec f = Some r \<Longrightarrow> cr_layerId r \<in> set (sp_layerIds spec)"
  unfolding matchRule_def rulesFor_def by (auto dest!: find_in_set intro: rule_layer)

lemma layer_ok: "i \<in> set (sp_layerIds spec) \<Longrightarrow> i \<noteq> []"
  using layer_nonempty by auto

lemma inherit_ok: "inherit spec ps c = Some p \<Longrightarrow> placedOk spec p"
  by (erule inherit_Some) (simp add: placedOk_def offers_def layer_ok)

lemma stamp_ok:
  "truthyStr l \<Longrightarrow> the l \<in> set (sp_layerIds spec) \<Longrightarrow>
     placedOk spec (nonePlacement\<lparr>pl_layerId := l, pl_source := StampedSource, pl_cascade := c\<rparr>)"
  by (cases l) (simp_all add: placedOk_def layer_ok)

lemma rule_ok:
  "matchRule spec f = Some r \<Longrightarrow>
     placedOk spec (nonePlacement\<lparr>pl_layerId := Some (cr_layerId r), pl_source := RuleSource, pl_ruleId := i, pl_cascade := c\<rparr>)"
  using matched_layer [of f r] by (simp add: placedOk_def layer_ok)

lemma fallback_ok:
  "truthyStr (sp_fallbackLayerId spec) \<Longrightarrow>
     placedOk spec (nonePlacement\<lparr>pl_layerId := sp_fallbackLayerId spec, pl_source := FallbackSource\<rparr>)"
  using fallback_layer by (cases "sp_fallbackLayerId spec") (simp_all add: placedOk_def)

lemma unpinned_ok: "placedOk spec (placeUnpinned spec u factsOf ps created)"
  unfolding placeUnpinned_def Let_def
  by (simp add: stamp_ok rule_ok inherit_ok fallback_ok split: option.split)

lemma placed_in_a_layer: "placedOk spec (resolvePlacement spec u factsOf ps created)"
proof -
  have "placedOk spec (nonePlacement\<lparr>pl_layerId := Some i, pl_source := ExplicitSource, pl_cascade := c\<rparr>)"
    if "i \<in> set (sp_layerIds spec)" for i c
    using that layer_ok by (simp add: placedOk_def)
  then show ?thesis
    unfolding resolvePlacement_def Let_def by (simp add: inherit_ok unpinned_ok split: option.split)
qed

end

text \<open>The contract does not depend on the scope.\<close>

lemma compiled_view_scope: "compiled_view spec \<Longrightarrow> compiled_view (spec\<lparr>sp_scope := s\<rparr>)"
  by (simp add: compiled_view_def)

lemma member_layer:
  assumes "compiled_view spec"
  shows "isMember (place spec u f ps created) \<Longrightarrow> \<exists>i. pl_layerId (place spec u f ps created) = Some i \<and> i \<in> set (sp_layerIds spec)"
  using compiled_view.placed_in_a_layer [OF assms, of u "\<lambda>_. f" ps created]
  by (auto simp: placedOk_def isMember_def place_def split: option.splits)

lemma compileLayer_layerId: "k \<in> set (snd (compileLayer (rank, l))) \<Longrightarrow> cr_layerId (fst k) = fst l"
  by (cases l)
     (auto simp: compileLayer_def compileRule_def typeRule_def Let_def criteria.defs split: jsval.splits sum.splits option.splits)

lemma nonEmpty_Some: "nonEmpty v = Some s \<longleftrightarrow> v = JStr s \<and> s \<noteq> []"
  by (cases v) (auto simp: nonEmpty_def)

lemma orderedLayers_nonempty: "l \<in> set (orderedLayers ls) \<Longrightarrow> fst l \<noteq> []"
  by (auto simp: orderedLayers_def nonEmpty_Some dest!: sym [of "Some _"] split: jsval.split_asm option.split_asm)

interpretation compiled: compiled_view "specOfLayout content layout" for content layout
proof
  let ?ls = "orderedLayers (nl_layers layout)"
  show "cr_layerId r \<in> set (sp_layerIds (specOfLayout content layout))"
    if "r \<in> set (sp_rules (specOfLayout content layout))" for r
  proof -
    have "r \<in> fst ` set (concat (map snd (map compileLayer (enumerate 0 ?ls))))"
      using that by (simp add: specOfLayout_def Let_def)
    then obtain k where k: "fst k = r" "k \<in> set (concat (map snd (map compileLayer (enumerate 0 ?ls))))" by blast
    then obtain rank l where l: "(rank, l) \<in> set (enumerate 0 ?ls)" "k \<in> set (snd (compileLayer (rank, l)))" by auto
    have "l \<in> set ?ls" using l(1) by (auto simp: in_set_enumerate_eq)
    moreover have "cr_layerId r = fst l" using compileLayer_layerId [OF l(2)] k(1) by simp
    ultimately have "cr_layerId r \<in> fst ` set ?ls" by simp
    then show ?thesis by (simp add: specOfLayout_def Let_def)
  qed
  show "i \<in> set (sp_layerIds (specOfLayout content layout))"
    if "sp_fallbackLayerId (specOfLayout content layout) = Some i" for i
    using that by (auto simp: specOfLayout_def Let_def dest!: find_in_set intro: rev_image_eqI)
  show "sp_firstLayerId (specOfLayout content layout) =
      (case sp_layerIds (specOfLayout content layout) of [] \<Rightarrow> None | i # _ \<Rightarrow> Some i)"
    by (simp add: specOfLayout_def Let_def)
  show "[] \<notin> set (sp_layerIds (specOfLayout content layout))"
    using orderedLayers_nonempty by (force simp: specOfLayout_def Let_def)
qed

lemma compile_Some:
  assumes "compilePlacementSpec numStr cfg = Some spec"
  obtains content layout where "spec = specOfLayout content layout"
  using assms by (auto simp: compilePlacementSpec_def Let_def)

section \<open>Properties\<close>

text \<open>
  Placing an entity in a compiled view gives a layer of that view with its reason, or no layer and no
  reason; and what it offers its children names a layer of the view again.
\<close>

lemma placements_name_layers:
  assumes "compilePlacementSpec numStr cfg = Some spec"
  shows "case pl_layerId (place spec u f ps created) of
      None \<Rightarrow> pl_source (place spec u f ps created) = NoSource \<and> parentContextOf u (place spec u f ps created) = None
    | Some i \<Rightarrow> i \<in> set (sp_layerIds spec) \<and> pl_source (place spec u f ps created) \<noteq> NoSource \<and>
        (\<forall>c. parentContextOf u (place spec u f ps created) = Some c \<longrightarrow> pc_layerId c = i)"
proof -
  obtain content layout where spec: "spec = specOfLayout content layout" using compile_Some [OF assms] .
  have "placedOk spec (place spec u f ps created)"
    unfolding spec place_def by (rule compiled.placed_in_a_layer)
  then show ?thesis by (auto simp: placedOk_def parentContextOf_def split: option.splits)
qed

definition sampleConfig :: jsval where
  "sampleConfig = JObj [(''referenceLayout'', JObj [(''layers'', JArr [
     JObj [(''id'', JStr ''raw''), (''order'', JNum (Fin 1)), (''showUnassigned'', JBool True)],
     JObj [(''id'', JStr ''mart''), (''order'', JNum (Fin 0)), (''entityTypes'', JArr [JStr ''Table''])]])])]"

definition sampleSpec :: placement_spec where
  "sampleSpec = the (compilePlacementSpec (\<lambda>_. []) sampleConfig)"

lemma sampleSpec_compiled: "compilePlacementSpec (\<lambda>_. []) sampleConfig = Some sampleSpec"
proof -
  have "compilePlacementSpec (\<lambda>_. []) sampleConfig \<noteq> None" by code_simp
  then show ?thesis by (auto simp: sampleSpec_def)
qed

definition validEntry :: "placement_spec \<Rightarrow> string \<Rightarrow> string option" where
  "validEntry spec u = (case map_of (sp_explicit spec) u of
     Some e \<Rightarrow> if ee_layerId e \<in> set (sp_layerIds spec) then Some (ee_layerId e) else None
   | None \<Rightarrow> None)"

definition validStamp :: "placement_spec \<Rightarrow> facts \<Rightarrow> string option" where
  "validStamp spec f = (if truthyStr (pf_stamp f) \<and> the (pf_stamp f) \<in> set (sp_layerIds spec) then pf_stamp f else None)"

lemma validStamp_truthy: "truthyStr (validStamp spec f) \<longleftrightarrow> validStamp spec f \<noteq> None"
  by (cases "pf_stamp f") (auto simp: validStamp_def)

text \<open>The parent a placement follows: smallest URN first.\<close>

definition heir :: "placement_spec \<Rightarrow> cascade \<Rightarrow> parent_context list \<Rightarrow> placement \<Rightarrow> bool" where
  "heir spec c ps p \<longleftrightarrow> pl_source p = InheritedSource \<and> (\<exists>q \<in> offers spec c ps.
     (\<forall>x \<in> offers spec c ps. pc_urn q \<le> pc_urn x) \<and> pl_inheritedFrom p = Some (pc_urn q) \<and> pl_layerId p = Some (pc_layerId q) \<and>
     (pl_ambiguousParent p \<longleftrightarrow> (\<exists>x \<in> offers spec c ps. pc_layerId x \<noteq> pc_layerId q)))"

lemma heir_inherit: "inherit spec ps c = Some p \<Longrightarrow> heir spec c ps (p\<lparr>pl_staleExplicit := b\<rparr>) \<and> heir spec c ps p"
  by (erule inherit_Some) (auto simp: heir_def)

lemma placed_by_entry:
  "validEntry spec u = Some i \<Longrightarrow> pl_layerId (place spec u f ps created) = Some i \<and> pl_source (place spec u f ps created) = ExplicitSource"
  by (auto simp: validEntry_def place_def resolvePlacement_def Let_def split: option.splits if_splits)

lemma stale_id: "\<not> pl_staleExplicit p \<Longrightarrow> p\<lparr>pl_staleExplicit := False\<rparr> = p"
  by simp

lemma none_not_stale [simp]: "\<not> pl_staleExplicit nonePlacement"
  by (simp add: nonePlacement_def)

lemma inherit_not_stale: "inherit spec ps c = Some p \<Longrightarrow> \<not> pl_staleExplicit p"
  by (erule inherit_Some) simp

lemma unpinned_not_stale: "\<not> pl_staleExplicit (placeUnpinned spec u factsOf ps created)"
  unfolding placeUnpinned_def Let_def by (simp add: inherit_not_stale split: option.split)

lemma placed_without_entry:
  "validEntry spec u = None \<Longrightarrow> place spec u f ps created =
     (case inherit spec ps HandCascade of Some p \<Rightarrow> p | None \<Rightarrow> placeUnpinned spec u (\<lambda>_. f) ps created)
       \<lparr>pl_staleExplicit := map_of (sp_explicit spec) u \<noteq> None\<rparr>"
  using unpinned_not_stale [of spec u "\<lambda>_. f" ps created] inherit_not_stale [of spec ps HandCascade]
  by (auto simp: validEntry_def place_def resolvePlacement_def Let_def stale_id split: option.splits if_splits)

text \<open>
  The tiers answer in order: a valid entry of the entity's own; else a parent placed by hand (the one with the
  smallest URN, flagged when such parents disagree); else, in an open view and with the entity's facts known, its
  stamp, then the first rule that claims it, then a parent placed otherwise, then the fallback layer. An
  entry naming a layer that is gone changes nothing but the stale flag.
\<close>

lemma tiers_answer_in_order:
  assumes "p = place spec u (Some f) ps created"
  shows "(\<forall>i. validEntry spec u = Some i \<longrightarrow> pl_source p = ExplicitSource \<and> pl_layerId p = Some i) \<and>
    (validEntry spec u = None \<longrightarrow>
       pl_staleExplicit p = (map_of (sp_explicit spec) u \<noteq> None) \<and>
       (offers spec HandCascade ps \<noteq> {} \<longrightarrow> heir spec HandCascade ps p) \<and>
       (offers spec HandCascade ps = {} \<and> sp_scope spec = AllScope \<longrightarrow>
          (case validStamp spec f of
             Some s \<Rightarrow> pl_source p = StampedSource \<and> pl_layerId p = Some s
           | None \<Rightarrow>
             (case matchRule spec f of
                Some r \<Rightarrow> pl_source p = RuleSource \<and> pl_ruleId p = Some (cr_id r) \<and> pl_layerId p = Some (cr_layerId r)
              | None \<Rightarrow>
                if offers spec SoftCascade ps \<noteq> {} then heir spec SoftCascade ps p
                else if truthyStr (sp_fallbackLayerId spec) then pl_source p = FallbackSource \<and> pl_layerId p = sp_fallbackLayerId spec
                else pl_source p = NoSource \<and> pl_layerId p = None))))"
proof (intro conjI impI allI)
  fix i
  assume "validEntry spec u = Some i"
  then show "pl_source p = ExplicitSource" "pl_layerId p = Some i" using assms placed_by_entry by simp_all
next
  assume none: "validEntry spec u = None"
  note p = placed_without_entry [OF none, of "Some f" ps created, folded assms]
  show "pl_staleExplicit p = (map_of (sp_explicit spec) u \<noteq> None)" by (subst p) simp
  show "heir spec HandCascade ps p" if "offers spec HandCascade ps \<noteq> {}"
    using that heir_inherit by (subst p) (auto simp: inherit_None [symmetric])
  show "case validStamp spec f of
      Some s \<Rightarrow> pl_source p = StampedSource \<and> pl_layerId p = Some s
    | None \<Rightarrow> (case matchRule spec f of
        Some r \<Rightarrow> pl_source p = RuleSource \<and> pl_ruleId p = Some (cr_id r) \<and> pl_layerId p = Some (cr_layerId r)
      | None \<Rightarrow> if offers spec SoftCascade ps \<noteq> {} then heir spec SoftCascade ps p
          else if truthyStr (sp_fallbackLayerId spec) then pl_source p = FallbackSource \<and> pl_layerId p = sp_fallbackLayerId spec
          else pl_source p = NoSource \<and> pl_layerId p = None)"
    if o: "offers spec HandCascade ps = {} \<and> sp_scope spec = AllScope"
  proof -
    have "inherit spec ps HandCascade = None" using o inherit_None by simp
    then have p': "p = (placeUnpinned spec u (\<lambda>_. Some f) ps created)\<lparr>pl_staleExplicit := map_of (sp_explicit spec) u \<noteq> None\<rparr>"
      using p by simp
    show ?thesis
      unfolding p' placeUnpinned_def Let_def validStamp_def [symmetric]
      using o heir_inherit [of spec ps SoftCascade] inherit_None [of spec ps SoftCascade] validStamp_truthy [of spec f]
      by (auto simp: nonePlacement_def split: option.split)
  qed
qed

definition sampleFacts :: "string \<Rightarrow> facts" where
  "sampleFacts ty = \<lparr>pf_urn = ''u'', pf_entityType = ty, pf_displayName = None, pf_tags = [], pf_properties = [], pf_stamp = None\<rparr>"

text \<open>
  A curated view holds what was put there by hand: an entity is a member exactly when it has a valid
  entry, a parent placed by hand offers it its layer, or it was created in this draft and is stamped with a layer of the
  view; everything else is in no layer, whatever the rules and the fallback say.
\<close>

lemma curated_views_are_placed_by_hand:
  assumes "sp_scope spec = CuratedScope"
  shows "(isMember (place spec u (Some f) ps created) \<longleftrightarrow>
      validEntry spec u \<noteq> None \<or> offers spec HandCascade ps \<noteq> {} \<or> (created \<and> validStamp spec f \<noteq> None)) \<and>
    (\<not> isMember (place spec u (Some f) ps created) \<longrightarrow> pl_layerId (place spec u (Some f) ps created) = None)"
proof (cases "validEntry spec u")
  case (Some i)
  then show ?thesis using placed_by_entry [OF Some, of "Some f" ps created] by (simp add: isMember_def)
next
  case None
  note p = placed_without_entry [OF None, of "Some f" ps created]
  show ?thesis
  proof (cases "inherit spec ps HandCascade")
    case inh: (Some q)
    then have "offers spec HandCascade ps \<noteq> {}" using inherit_None [of spec ps HandCascade] by simp
    moreover have "pl_source q = InheritedSource" using heir_inherit [OF inh] by (simp add: heir_def)
    ultimately show ?thesis using p inh by (simp add: isMember_def)
  next
    case none: None
    then have "offers spec HandCascade ps = {}" using inherit_None [of spec ps HandCascade] by simp
    moreover have "placeUnpinned spec u (\<lambda>_. Some f) ps created =
        (if created \<and> validStamp spec f \<noteq> None
         then nonePlacement\<lparr>pl_layerId := validStamp spec f, pl_source := StampedSource, pl_cascade := Some HandCascade\<rparr>
         else nonePlacement)"
      using assms by (simp add: placeUnpinned_def validStamp_def [symmetric] validStamp_truthy Let_def)
    ultimately show ?thesis using p none None by (simp add: isMember_def nonePlacement_def)
  qed
qed

definition curatedSpec :: placement_spec where
  "curatedSpec = sampleSpec\<lparr>sp_scope := CuratedScope\<rparr>"

text \<open>The order in which parents are listed never matters, when each parent is listed under its own URN.\<close>

lemma resolve_set:
  assumes "set ps = set qs" "inj_on pc_urn (set ps)"
  shows "resolvePlacement spec u factsOf ps created = resolvePlacement spec u factsOf qs created"
proof -
  have "inherit spec ps = inherit spec qs" using inherit_set [OF assms] by (rule ext)
  then show ?thesis unfolding resolvePlacement_def placeUnpinned_def by (simp only:)
qed

lemma suggestion_layer:
  assumes "compiled_view spec" "fst (suggestPlacement spec f chosen dflt) = Some i"
  shows "i \<in> set (sp_layerIds spec)"
proof -
  have "i \<in> set (sp_layerIds spec)" if "sp_firstLayerId spec = Some i"
    using that compiled_view.first_layer [OF assms(1)] by (auto split: list.splits)
  then show ?thesis
    using assms(2) member_layer [OF assms(1), of "pf_urn f" "Some f" "[]" False]
      member_layer [OF compiled_view_scope [OF assms(1), of AllScope], of "pf_urn f" "Some f" "[]" False]
    by (auto simp: suggestPlacement_def orId_def Let_def split: if_splits option.splits)
qed

lemma suggestion_none:
  assumes "compiled_view spec" "fst (suggestPlacement spec f chosen dflt) = None"
  shows "sp_layerIds spec = [] \<or> sp_scope spec = AllScope \<and> \<not> isMember (place spec (pf_urn f) (Some f) [] False)"
proof -
  have "sp_layerIds spec = []" if "sp_firstLayerId spec = None"
    using that compiled_view.first_layer [OF assms(1)] by (auto split: list.splits)
  moreover have "sp_scope spec = CuratedScope \<or> sp_scope spec = AllScope" by (cases "sp_scope spec") auto
  ultimately show ?thesis
    using assms(2) member_layer [OF assms(1), of "pf_urn f" "Some f" "[]" False]
    by (auto simp: suggestPlacement_def orId_def Let_def split: if_splits option.splits)
qed

lemma suggestion_unpinned:
  assumes "fst (suggestPlacement spec f chosen dflt) = Some i" "\<not> snd (suggestPlacement spec f chosen dflt)"
  shows "isMember (place spec (pf_urn f) (Some f) [] False) \<and> pl_layerId (place spec (pf_urn f) (Some f) [] False) = Some i"
  using assms by (auto simp: suggestPlacement_def Let_def split: if_splits)

text \<open>
  A suggested placement is where the new entity lands: with the explicit entry written when the suggestion says
  to pin it, and without one otherwise, the entity becomes a member of the suggested layer; a curated view always
  pins, and only an open view may suggest no layer, for an entity that is no member of any.
\<close>

lemma suggestion_is_where_it_lands:
  assumes "compilePlacementSpec numStr cfg = Some spec"
    and "spec' = (if snd (suggestPlacement spec f chosen dflt)
      then spec\<lparr>sp_explicit := AList.update (pf_urn f)
        \<lparr>ee_layerId = the (fst (suggestPlacement spec f chosen dflt)), ee_inheritsChildren = True, ee_logicalNodeId = JUndefined\<rparr> (sp_explicit spec)\<rparr>
      else spec)"
  shows "case fst (suggestPlacement spec f chosen dflt) of
      Some i \<Rightarrow> pl_layerId (place spec' (pf_urn f) (Some f) [] False) = Some i \<and> isMember (place spec' (pf_urn f) (Some f) [] False)
    | None \<Rightarrow> sp_layerIds spec = [] \<or> sp_scope spec = AllScope \<and> \<not> isMember (place spec (pf_urn f) (Some f) [] False)"
proof -
  obtain content layout where "spec = specOfLayout content layout" using compile_Some [OF assms(1)] .
  then have view: "compiled_view spec" using compiled.compiled_view_axioms by simp
  show ?thesis
  proof (cases "fst (suggestPlacement spec f chosen dflt)")
    case None
    then show ?thesis using suggestion_none [OF view None] by simp
  next
    case (Some i)
    show ?thesis
    proof (cases "snd (suggestPlacement spec f chosen dflt)")
      case True
      then have "validEntry spec' (pf_urn f) = Some i"
        using assms(2) Some suggestion_layer [OF view Some] by (simp add: validEntry_def update_conv')
      then show ?thesis using placed_by_entry [of spec' "pf_urn f" i "Some f" "[]" False] Some by (simp add: isMember_def)
    next
      case False
      then show ?thesis using suggestion_unpinned [OF Some False] assms(2) Some by simp
    qed
  qed
qed

text \<open>Compiling skips a rule that is no object, but reading the layout, which it does first, does not: one \<open>null\<close> among
  the rules of a layer makes the whole view throw.\<close>

lemma null_rule_breaks_the_view:
  "compilePlacementSpec numStr (JObj [(''referenceLayout'', JObj [(''layers'', JArr [
     JObj [(''id'', JStr ''raw''), (''rules'', JArr [JNull])]])])]) = None"
  by (simp add: compilePlacementSpec_def objGet_def optProp_def withoutBlankLegacyUrns_def normalizeReferenceLayout_def
      normalizeLayer_def claimRule_def getProp_def nullish_def Let_def)

end
