(* ===== verification/Placement_Order.thy ===== *)
theory Placement_Order
  imports Placement
begin

text \<open>
  The walk of \<open>placeAll\<close> (\<^verbatim>\<open>frontend/src/lib/placement/placement.ts\<close>) over a containment graph: an order with every
  parent before its children, found by an iterative depth-first search that gives up at a cycle.

  The search may loop as far as its text goes, so it is a partial function: not returning is None. It returns
  on every graph whose parents are nodes of it, with an order exactly when there is no cycle.
\<close>

type_synonym parent_map = "(string \<times> string list) list"

text \<open>\<open>parents.get(u)!\<close>: every node has an entry.\<close>

definition parentsAt :: "parent_map \<Rightarrow> string \<Rightarrow> string list" where
  "parentsAt par u = (case map_of par u of None \<Rightarrow> [] | Some ps \<Rightarrow> ps)"

text \<open>The search from one root. \<open>nxt\<close> holds the next parent of a node to visit, -1 once the node is ordered; the top of
  the stack is the head of the list. The inner None is the \<open>null\<close> of a cycle.\<close>

definition DONE :: int where "DONE = -1"

partial_function (option) walk ::
  "parent_map \<Rightarrow> (string \<times> int) list \<Rightarrow> string list \<Rightarrow> string list \<Rightarrow> ((string \<times> int) list \<times> string list) option option" where
  "walk par nxt stack order =
     (case stack of
        [] \<Rightarrow> Some (Some (nxt, order))
      | u # rest \<Rightarrow>
          (let own = parentsAt par u; i = the (map_of nxt u)
           in if i < int (length own)
              then let nxt1 = AList.update u (i + 1) nxt; p = own ! nat i
                   in case map_of nxt1 p of
                        None \<Rightarrow> walk par (AList.update p 0 nxt1) (p # u # rest) order
                      | Some state \<Rightarrow> if state \<noteq> DONE then Some None else walk par nxt1 (u # rest) order
              else walk par (AList.update u DONE nxt) rest (order @ [u])))"

fun parentsFirstFrom ::
  "parent_map \<Rightarrow> string list \<Rightarrow> (string \<times> int) list \<Rightarrow> string list \<Rightarrow> string list option option" where
  "parentsFirstFrom par [] nxt order = Some (Some order)"
| "parentsFirstFrom par (r # roots) nxt order =
     (if map_of nxt r \<noteq> None then parentsFirstFrom par roots nxt order
      else case walk par (AList.update r 0 nxt) [r] order of
             None \<Rightarrow> None
           | Some None \<Rightarrow> Some None
           | Some (Some (nxt', order')) \<Rightarrow> parentsFirstFrom par roots nxt' order')"

definition parentsFirst :: "string list \<Rightarrow> parent_map \<Rightarrow> string list option option" where
  "parentsFirst nodes par = parentsFirstFrom par nodes [] []"

section \<open>The graph\<close>

definition edges :: "parent_map \<Rightarrow> (string \<times> string) set" where
  "edges par = {(u, p). p \<in> set (parentsAt par u)}"

definition closedGraph :: "string set \<Rightarrow> parent_map \<Rightarrow> bool" where
  "closedGraph K par \<longleftrightarrow> finite K \<and> (\<forall>u. set (parentsAt par u) \<subseteq> K)"

text \<open>An order in which every node comes after its parents.\<close>

definition topological :: "parent_map \<Rightarrow> string list \<Rightarrow> bool" where
  "topological par xs \<longleftrightarrow> distinct xs \<and> (\<forall>ys u zs. xs = ys @ u # zs \<longrightarrow> set (parentsAt par u) \<subseteq> set ys)"

lemma topological_Nil [simp]: "topological par []"
  by (simp add: topological_def)

lemma topological_snoc:
  assumes "topological par xs" "u \<notin> set xs" "set (parentsAt par u) \<subseteq> set xs"
  shows "topological par (xs @ [u])"
  unfolding topological_def
proof (intro conjI allI impI)
  show "distinct (xs @ [u])" using assms by (simp add: topological_def)
  fix ys v zs
  assume eq: "xs @ [u] = ys @ v # zs"
  show "set (parentsAt par v) \<subseteq> set ys"
  proof (cases zs rule: rev_cases)
    case Nil
    then show ?thesis using eq assms(3) by simp
  next
    case (snoc zs' z)
    then have "xs = ys @ v # zs'" using eq by simp
    then show ?thesis using assms(1) by (simp add: topological_def)
  qed
qed

lemma topological_earlier:
  assumes "topological par (ys @ u # zs)" "(u, p) \<in> (edges par)\<^sup>+"
  shows "p \<in> set ys"
  using assms(2)
proof (induction rule: trancl_induct)
  case (base p)
  then show ?case using assms(1) by (auto simp: topological_def edges_def)
next
  case (step p q)
  obtain as bs where ys: "ys = as @ p # bs" using split_list [OF step.IH] by blast
  have "ys @ u # zs = as @ p # (bs @ u # zs)" using ys by simp
  then have "set (parentsAt par p) \<subseteq> set as" using assms(1) by (simp add: topological_def)
  then show ?case using step.hyps(2) ys by (auto simp: edges_def)
qed

lemma topological_acyclic:
  assumes "topological par xs" "x \<in> set xs"
  shows "(x, x) \<notin> (edges par)\<^sup>+"
proof
  assume cyc: "(x, x) \<in> (edges par)\<^sup>+"
  obtain ys zs where "xs = ys @ x # zs" using split_list [OF assms(2)] by blast
  then show False using topological_earlier [OF _ cyc, of ys zs] assms(1) by (simp add: topological_def)
qed

section \<open>The invariant of the search\<close>

text \<open>The stack from the top down: each node has visited its first parents, all of them ordered but the one the node
  above stands for.\<close>

fun stackOk :: "parent_map \<Rightarrow> (string \<Rightarrow> int option) \<Rightarrow> string set \<Rightarrow> string option \<Rightarrow> string list \<Rightarrow> bool" where
  "stackOk par nxt ord abv [] = True"
| "stackOk par nxt ord abv (u # rest) =
     ((\<exists>i. nxt u = Some (int i) \<and> i \<le> length (parentsAt par u) \<and>
        (\<forall>j < i. parentsAt par u ! j \<in> ord \<or> abv = Some (parentsAt par u ! j))) \<and>
      (\<forall>p. abv = Some p \<longrightarrow> (u, p) \<in> edges par) \<and>
      stackOk par nxt ord (Some u) rest)"

definition walkInv :: "string set \<Rightarrow> parent_map \<Rightarrow> (string \<times> int) list \<Rightarrow> string list \<Rightarrow> string list \<Rightarrow> bool" where
  "walkInv K par nxt stack order \<longleftrightarrow>
     distinct (stack @ order) \<and> set (stack @ order) \<subseteq> K \<and>
     (\<forall>u. map_of nxt u = None \<longleftrightarrow> u \<notin> set (stack @ order)) \<and>
     (\<forall>u \<in> set order. map_of nxt u = Some DONE) \<and>
     stackOk par (map_of nxt) (set order) None stack \<and>
     topological par order"

lemma stackOk_cong:
  assumes "\<And>u. u \<in> set stack \<Longrightarrow> nxt u = nxt' u" "ord \<subseteq> ord'"
  shows "stackOk par nxt ord abv stack \<Longrightarrow> stackOk par nxt' ord' abv stack"
  using assms
proof (induction stack arbitrary: abv)
  case (Cons u stack)
  then obtain i where i: "nxt u = Some (int i)" "i \<le> length (parentsAt par u)"
    "\<forall>j < i. parentsAt par u ! j \<in> ord \<or> abv = Some (parentsAt par u ! j)" by auto
  then have "\<forall>j < i. parentsAt par u ! j \<in> ord' \<or> abv = Some (parentsAt par u ! j)" using Cons.prems(3) by blast
  then show ?case using Cons i(1,2) by auto
qed simp

lemma stackOk_ordered:
  "stackOk par nxt ord (Some v) rest \<Longrightarrow> v \<in> ord \<Longrightarrow> stackOk par nxt ord None rest"
  by (cases rest) auto

lemma stackOk_state: "stackOk par nxt ord abv stack \<Longrightarrow> u \<in> set stack \<Longrightarrow> nxt u \<noteq> Some DONE"
  by (induction stack arbitrary: abv) (auto simp: DONE_def)

lemma stackOk_path: "stackOk par nxt ord abv (u # rest) \<Longrightarrow> p \<in> set (u # rest) \<Longrightarrow> (p, u) \<in> (edges par)\<^sup>*"
proof (induction rest arbitrary: abv u)
  case (Cons v rest)
  show ?case
  proof (cases "p = u")
    case False
    then have "(p, v) \<in> (edges par)\<^sup>*" using Cons.IH [of "Some u" v] Cons.prems by simp
    moreover have "(v, u) \<in> edges par" using Cons.prems by simp
    ultimately show ?thesis by (rule rtrancl_into_rtrancl)
  qed simp
qed simp

text \<open>What is left to do: unvisited nodes, and the parents still to visit of the others.\<close>

definition todo :: "parent_map \<Rightarrow> (string \<times> int) list \<Rightarrow> string \<Rightarrow> nat" where
  "todo par nxt u = (case map_of nxt u of
     None \<Rightarrow> length (parentsAt par u) + 2
   | Some i \<Rightarrow> if i = DONE then 0 else nat (int (length (parentsAt par u)) - i) + 1)"

definition workLeft :: "string set \<Rightarrow> parent_map \<Rightarrow> (string \<times> int) list \<Rightarrow> nat" where
  "workLeft K par nxt = (\<Sum>u \<in> K. todo par nxt u)"

lemma workLeft_less:
  assumes "finite K" "u \<in> K" "\<And>v. v \<in> K \<Longrightarrow> todo par nxt' v \<le> todo par nxt v" "todo par nxt' u < todo par nxt u"
  shows "workLeft K par nxt' < workLeft K par nxt"
  unfolding workLeft_def using assms by (intro sum_strict_mono_ex1) auto

lemma walkInv_visited: "walkInv K par nxt stack order \<Longrightarrow> map_of nxt u = Some s \<Longrightarrow> u \<in> set (stack @ order)"
  unfolding walkInv_def by (metis option.distinct(1))

lemma walkInv_top:
  assumes "walkInv K par nxt (u # rest) order"
  obtains i where "map_of nxt u = Some (int i)" "i \<le> length (parentsAt par u)" "\<forall>j < i. parentsAt par u ! j \<in> set order"
    "stackOk par (map_of nxt) (set order) (Some u) rest" "u \<in> K" "u \<notin> set rest" "u \<notin> set order"
  using assms by (auto simp: walkInv_def)

lemma walkInv_finish:
  assumes inv: "walkInv K par nxt (u # rest) order" and i: "map_of nxt u = Some (int (length (parentsAt par u)))"
  shows "walkInv K par (AList.update u DONE nxt) rest (order @ [u])"
proof -
  obtain k where k: "map_of nxt u = Some (int k)" "\<forall>j < k. parentsAt par u ! j \<in> set order"
    "stackOk par (map_of nxt) (set order) (Some u) rest" "u \<notin> set rest" "u \<notin> set order"
    using walkInv_top [OF inv] by metis
  have "set (parentsAt par u) \<subseteq> set order" using k(1,2) i by (auto simp: in_set_conv_nth)
  then have topo: "topological par (order @ [u])" using inv k(5) by (auto simp: walkInv_def intro: topological_snoc)
  have "stackOk par (map_of (AList.update u DONE nxt)) (set (order @ [u])) (Some u) rest"
    by (rule stackOk_cong [OF _ _ k(3)]) (use k(4) in \<open>auto simp: update_conv'\<close>)
  then have "stackOk par (map_of (AList.update u DONE nxt)) (set (order @ [u])) None rest"
    by (rule stackOk_ordered) simp
  then show ?thesis using inv topo by (auto simp: walkInv_def update_conv')
qed

lemma walkInv_skip:
  assumes inv: "walkInv K par nxt (u # rest) order" and i: "map_of nxt u = Some (int i)" "i < length (parentsAt par u)"
    and p: "parentsAt par u ! i \<in> set order"
  shows "walkInv K par (AList.update u (int i + 1) nxt) (u # rest) order"
proof -
  obtain k where k: "map_of nxt u = Some (int k)" "\<forall>j < k. parentsAt par u ! j \<in> set order"
    "stackOk par (map_of nxt) (set order) (Some u) rest" "u \<notin> set rest" "u \<notin> set order"
    using walkInv_top [OF inv] by metis
  have "stackOk par (map_of (AList.update u (int i + 1) nxt)) (set order) (Some u) rest"
    by (rule stackOk_cong [OF _ _ k(3)]) (use k(4) in \<open>auto simp: update_conv'\<close>)
  moreover have "\<forall>j < Suc i. parentsAt par u ! j \<in> set order" using k(1,2) i(1) p less_Suc_eq by auto
  ultimately have "stackOk par (map_of (AList.update u (int i + 1) nxt)) (set order) None (u # rest)"
    using i(2) by (auto simp: update_conv' intro!: exI [of _ "Suc i"])
  then show ?thesis using inv k(5) by (auto simp: walkInv_def update_conv')
qed

lemma walkInv_push:
  assumes inv: "walkInv K par nxt (u # rest) order" and i: "map_of nxt u = Some (int i)" "i < length (parentsAt par u)"
    and p: "p = parentsAt par u ! i" "map_of nxt p = None" and closed: "closedGraph K par"
  shows "walkInv K par (AList.update p 0 (AList.update u (int i + 1) nxt)) (p # u # rest) order"
proof -
  let ?n = "AList.update p 0 (AList.update u (int i + 1) nxt)"
  obtain k where k: "map_of nxt u = Some (int k)" "\<forall>j < k. parentsAt par u ! j \<in> set order"
    "stackOk par (map_of nxt) (set order) (Some u) rest" "u \<notin> set rest" "u \<notin> set order"
    using walkInv_top [OF inv] by metis
  have fresh: "p \<notin> set (u # rest)" "p \<notin> set order" using inv p(2) by (auto simp: walkInv_def)
  have "p \<in> set (parentsAt par u)" using p(1) i(2) by simp
  then have e: "(u, p) \<in> edges par" "p \<in> K" using closed by (auto simp: edges_def closedGraph_def)
  have "stackOk par (map_of ?n) (set order) (Some u) rest"
    by (rule stackOk_cong [OF _ _ k(3)]) (use k(4) fresh in \<open>auto simp: update_conv'\<close>)
  moreover have "\<forall>j < Suc i. parentsAt par u ! j \<in> set order \<or> p = parentsAt par u ! j"
    using k(1,2) i(1) p(1) less_Suc_eq by auto
  ultimately have "stackOk par (map_of ?n) (set order) (Some p) (u # rest)"
    using i(2) e fresh by (auto simp: update_conv' intro!: exI [of _ "Suc i"])
  then have "stackOk par (map_of ?n) (set order) None (p # u # rest)"
    by (auto simp: update_conv' intro!: exI [of _ "0 :: nat"])
  then show ?thesis using inv fresh e k(5) by (auto simp: walkInv_def update_conv')
qed

lemma walkInv_cycle:
  assumes inv: "walkInv K par nxt (u # rest) order" and p: "p \<in> set (parentsAt par u)" "map_of nxt p = Some s" "s \<noteq> DONE"
  shows "(p, p) \<in> (edges par)\<^sup>+"
proof -
  have "p \<in> set ((u # rest) @ order)" using inv p(2) by (rule walkInv_visited)
  moreover have "p \<notin> set order" using inv p(2,3) by (auto simp: walkInv_def)
  ultimately have s: "p \<in> set (u # rest)" by simp
  have "stackOk par (map_of nxt) (set order) None (u # rest)" using inv unfolding walkInv_def by blast
  from stackOk_path [OF this s] have "(p, u) \<in> (edges par)\<^sup>*" .
  moreover have "(u, p) \<in> edges par" using p(1) by (simp add: edges_def)
  ultimately show ?thesis by (rule rtrancl_into_trancl1)
qed

section \<open>The search returns\<close>

definition walkPost :: "string set \<Rightarrow> parent_map \<Rightarrow> string set \<Rightarrow> ((string \<times> int) list \<times> string list) option \<Rightarrow> bool" where
  "walkPost K par visited r = (case r of
     None \<Rightarrow> \<exists>x. (x, x) \<in> (edges par)\<^sup>+
   | Some (nxt, order) \<Rightarrow> walkInv K par nxt [] order \<and> visited \<subseteq> set order)"

lemma walkPost_step:
  assumes "\<exists>r. w' = Some r \<and> walkPost K par visited' r" "w = w'" "visited \<subseteq> visited'"
  shows "\<exists>r. w = Some r \<and> walkPost K par visited r"
proof -
  obtain r where r: "w' = Some r" "walkPost K par visited' r" using assms(1) by blast
  then have "walkPost K par visited r" using assms(3) by (auto simp: walkPost_def split: option.splits)
  then show ?thesis using r(1) assms(2) by blast
qed

lemma walk_returns:
  assumes "closedGraph K par" "walkInv K par nxt stack order"
  shows "\<exists>r. walk par nxt stack order = Some r \<and> walkPost K par (set (stack @ order)) r"
  using assms(2)
proof (induction "workLeft K par nxt" arbitrary: nxt stack order rule: less_induct)
  case less
  show ?case
  proof (cases stack)
    case Nil
    then show ?thesis using less.prems by (subst walk.simps) (simp add: walkPost_def)
  next
    case (Cons u rest)
    have inv: "walkInv K par nxt (u # rest) order" using less.prems Cons by simp
    have fin: "finite K" using assms(1) by (simp add: closedGraph_def)
    obtain i where i: "map_of nxt u = Some (int i)" "i \<le> length (parentsAt par u)" "u \<in> K"
      using walkInv_top [OF inv] by metis
    show ?thesis
    proof (cases "i < length (parentsAt par u)")
      case False
      then have full: "map_of nxt u = Some (int (length (parentsAt par u)))" using i by simp
      have "workLeft K par (AList.update u DONE nxt) < workLeft K par nxt"
        by (rule workLeft_less [OF fin i(3)]) (auto simp: todo_def update_conv' i(1) DONE_def)
      note ih = less.hyps [OF this walkInv_finish [OF inv full]]
      have "walk par nxt stack order = walk par (AList.update u DONE nxt) rest (order @ [u])"
        using False i(1) Cons by (subst walk.simps) simp
      then show ?thesis by (rule walkPost_step [OF ih]) (use Cons in auto)
    next
      case True
      let ?p = "parentsAt par u ! i" and ?n = "AList.update u (int i + 1) nxt"
      have p: "?p \<in> set (parentsAt par u)" using True by simp
      have le: "todo par ?n v \<le> todo par nxt v" "todo par ?n u < todo par nxt u" for v
        using i(1) True by (auto simp: todo_def update_conv' DONE_def)
      show ?thesis
      proof (cases "map_of ?n ?p")
        case None
        then have new: "map_of nxt ?p = None" "?p \<noteq> u" by (auto simp: update_conv' split: if_splits)
        have "workLeft K par (AList.update ?p 0 ?n) < workLeft K par nxt"
        proof (rule workLeft_less [OF fin i(3)])
          show "todo par (AList.update ?p 0 ?n) v \<le> todo par nxt v" for v
            using le(1) [of v] new by (cases "v = ?p") (simp_all add: todo_def update_conv' DONE_def)
          show "todo par (AList.update ?p 0 ?n) u < todo par nxt u"
            using le(2) new by (simp add: todo_def update_conv')
        qed
        note ih = less.hyps [OF this walkInv_push [OF inv i(1) True refl new(1) assms(1)]]
        have "walk par nxt stack order = walk par (AList.update ?p 0 ?n) (?p # u # rest) order"
          using True i(1) Cons None by (subst walk.simps) (simp add: Let_def)
        then show ?thesis by (rule walkPost_step [OF ih]) (use Cons in auto)
      next
        case (Some s)
        show ?thesis
        proof (cases "s = DONE")
          case ordered: True
          then have "map_of nxt ?p = Some DONE" using Some i(1) by (auto simp: update_conv' DONE_def split: if_splits)
          moreover have "\<forall>v \<in> set (u # rest). map_of nxt v \<noteq> Some DONE"
            using inv stackOk_state unfolding walkInv_def by metis
          ultimately have "?p \<in> set order" using walkInv_visited [OF inv] by fastforce
          have "workLeft K par ?n < workLeft K par nxt" by (rule workLeft_less [OF fin i(3) le])
          note ih = less.hyps [OF this walkInv_skip [OF inv i(1) True \<open>?p \<in> set order\<close>]]
          have "walk par nxt stack order = walk par ?n (u # rest) order"
            using True i(1) Cons Some ordered by (subst walk.simps) simp
          then show ?thesis by (rule walkPost_step [OF ih]) (use Cons in auto)
        next
          case False
          then have "map_of nxt ?p \<noteq> None \<and> map_of nxt ?p \<noteq> Some DONE"
            using Some i(1) by (auto simp: update_conv' DONE_def split: if_splits)
          then have "(?p, ?p) \<in> (edges par)\<^sup>+" using walkInv_cycle [OF inv p] by auto
          moreover have "walk par nxt stack order = Some None"
            using True i(1) Cons Some False by (subst walk.simps) simp
          ultimately show ?thesis by (auto simp: walkPost_def)
        qed
      qed
    qed
  qed
qed

lemma walkInv_root:
  assumes "walkInv K par nxt [] order" "map_of nxt r = None" "r \<in> K"
  shows "walkInv K par (AList.update r 0 nxt) [r] order"
  using assms by (auto simp: walkInv_def update_conv' intro!: exI [of _ "0 :: nat"])

lemma parentsFirstFrom_returns:
  assumes "closedGraph K par" "walkInv K par nxt [] order" "set roots \<subseteq> K"
  shows "\<exists>r. parentsFirstFrom par roots nxt order = Some r \<and>
    (case r of None \<Rightarrow> \<exists>x. (x, x) \<in> (edges par)\<^sup>+
     | Some ord \<Rightarrow> topological par ord \<and> set roots \<union> set order \<subseteq> set ord \<and> set ord \<subseteq> K)"
  using assms(2,3)
proof (induction roots arbitrary: nxt order)
  case Nil
  then show ?case by (simp add: walkInv_def)
next
  case (Cons r roots)
  show ?case
  proof (cases "map_of nxt r")
    case (Some s)
    then have "r \<in> set order" using walkInv_visited [OF Cons.prems(1)] by simp
    then have "set (r # roots) \<union> set order = set roots \<union> set order" by auto
    moreover have "parentsFirstFrom par (r # roots) nxt order = parentsFirstFrom par roots nxt order" using Some by simp
    moreover have "set roots \<subseteq> K" using Cons.prems(2) by simp
    ultimately show ?thesis using Cons.IH [OF Cons.prems(1)] by (simp only:)
  next
    case None
    obtain w where w: "walk par (AList.update r 0 nxt) [r] order = Some w" "walkPost K par (set ([r] @ order)) w"
      using walk_returns [OF assms(1) walkInv_root [OF Cons.prems(1) None]] Cons.prems(2) by auto
    show ?thesis
    proof (cases w)
      case w0: None
      then show ?thesis using w None by (simp add: walkPost_def)
    next
      case (Some st)
      obtain nxt' order' where st: "st = (nxt', order')" by fastforce
      then have inv: "walkInv K par nxt' [] order'" and sub: "set ([r] @ order) \<subseteq> set order'"
        using w(2) Some by (simp_all add: walkPost_def)
      obtain res where res: "parentsFirstFrom par roots nxt' order' = Some res"
        "case res of None \<Rightarrow> \<exists>x. (x, x) \<in> (edges par)\<^sup>+
         | Some ord \<Rightarrow> topological par ord \<and> set roots \<union> set order' \<subseteq> set ord \<and> set ord \<subseteq> K"
        using Cons.IH [OF inv] Cons.prems(2) by auto
      have "parentsFirstFrom par (r # roots) nxt order = Some res" using None w(1) Some st res(1) by simp
      then show ?thesis using res(2) sub by (auto split: option.splits)
    qed
  qed
qed

text \<open>The search always returns: with an order of the nodes, every parent before its children, or because there is a
  cycle.\<close>

lemma parentsFirst_returns:
  assumes "closedGraph (set nodes) par"
  shows "(\<exists>order. parentsFirst nodes par = Some (Some order) \<and> topological par order \<and> set order = set nodes) \<or>
    parentsFirst nodes par = Some None \<and> (\<exists>x. (x, x) \<in> (edges par)\<^sup>+)"
proof -
  have "walkInv (set nodes) par [] [] []" by (simp add: walkInv_def)
  then obtain r where "parentsFirst nodes par = Some r"
    "case r of None \<Rightarrow> \<exists>x. (x, x) \<in> (edges par)\<^sup>+
     | Some ord \<Rightarrow> topological par ord \<and> set nodes \<union> set [] \<subseteq> set ord \<and> set ord \<subseteq> set nodes"
    using parentsFirstFrom_returns [OF assms _ subset_refl] unfolding parentsFirst_def by blast
  then show ?thesis by (cases r) auto
qed

end
