(* ===== verification/Placement_Cycles.thy ===== *)
theory Placement_Cycles
  imports Placement_Order
begin

text \<open>
  The strongly connected components of the containment graph: \<open>components\<close> of
  \<^verbatim>\<open>frontend/src/lib/placement/placement.ts\<close>, Tarjan's algorithm with an explicit stack of calls. Two nodes get the same
  component exactly when each reaches the other, so dropping the edges inside a component leaves no cycle.
\<close>

record tarjan =
  tj_index :: "(string \<times> nat) list"
  tj_low :: "(string \<times> nat) list"
  tj_component :: "(string \<times> nat) list"
  tj_open :: "string list"
  tj_counter :: nat

definition tarjanStart :: tarjan where
  "tarjanStart = \<lparr>tj_index = [], tj_low = [], tj_component = [], tj_open = [], tj_counter = 0\<rparr>"

definition indexOfNode :: "tarjan \<Rightarrow> string \<Rightarrow> nat" where
  "indexOfNode st u = the (map_of (tj_index st) u)"

definition lowOf :: "tarjan \<Rightarrow> string \<Rightarrow> nat" where
  "lowOf st u = the (map_of (tj_low st) u)"

definition visit :: "string \<Rightarrow> tarjan \<Rightarrow> tarjan" where
  "visit u st = st\<lparr>tj_index := AList.update u (tj_counter st) (tj_index st),
     tj_low := AList.update u (tj_counter st) (tj_low st),
     tj_open := u # tj_open st, tj_counter := tj_counter st + 1\<rparr>"

definition lowerTo :: "string \<Rightarrow> nat \<Rightarrow> tarjan \<Rightarrow> tarjan" where
  "lowerTo u n st = st\<lparr>tj_low := AList.update u (min (lowOf st u) n) (tj_low st)\<rparr>"

text \<open>Popping the open nodes down to the root of a component.\<close>

fun popComponent :: "string \<Rightarrow> nat \<Rightarrow> string list \<Rightarrow> (string \<times> nat) list \<Rightarrow> string list \<times> (string \<times> nat) list" where
  "popComponent u c [] component = ([], component)"
| "popComponent u c (w # ws) component =
     (if w = u then (ws, AList.update w c component) else popComponent u c ws (AList.update w c component))"

definition finishNode :: "string \<Rightarrow> (string \<times> nat) list \<Rightarrow> tarjan \<Rightarrow> tarjan" where
  "finishNode u rest st =
     (let st1 = (case rest of [] \<Rightarrow> st | (caller, _) # _ \<Rightarrow> lowerTo caller (lowOf st u) st)
      in if lowOf st1 u = indexOfNode st1 u
         then let (opens, component) = popComponent u (indexOfNode st1 u) (tj_open st1) (tj_component st1)
              in st1\<lparr>tj_open := opens, tj_component := component\<rparr>
         else st1)"

text \<open>One turn of the inner loop on a frame with a parent left to look at.\<close>

definition lookAt :: "string \<Rightarrow> string \<Rightarrow> tarjan \<Rightarrow> tarjan" where
  "lookAt u p st =
     (if map_of (tj_index st) p = None then visit p st
      else if map_of (tj_component st) p = None then lowerTo u (indexOfNode st p) st
      else st)"

text \<open>The loop ends: every turn uses up a parent to look at, a frame or an unvisited node.\<close>

definition callWork :: "parent_map \<Rightarrow> (string \<times> nat) list \<Rightarrow> tarjan \<Rightarrow> nat" where
  "callWork par calls st =
     (\<Sum>(u, i)\<leftarrow>calls. 2 * (length (parentsAt par u) - i) + 1) +
     (\<Sum>u \<in> {u \<in> fst ` set par. map_of (tj_index st) u = None}. 2 * length (parentsAt par u) + 1)"

lemma index_lookAt: "map_of (tj_index (lookAt u p st)) =
    (if map_of (tj_index st) p = None then (map_of (tj_index st))(p \<mapsto> tj_counter st) else map_of (tj_index st))"
  by (auto simp: lookAt_def visit_def lowerTo_def update_conv')

lemma index_finishNode [simp]: "tj_index (finishNode u rest st) = tj_index st"
  by (auto simp: finishNode_def lowerTo_def Let_def split: list.splits prod.splits)

lemma callWork_push:
  assumes "i < length (parentsAt par u)" "map_of (tj_index st) p = None"
  shows "callWork par ((p, 0) # (u, i + 1) # rest) (lookAt u p st) < callWork par ((u, i) # rest) st"
proof -
  let ?f = "\<lambda>u. 2 * length (parentsAt par u) + 1"
  let ?A = "{u \<in> fst ` set par. map_of (tj_index st) u = None}"
  let ?B = "{u \<in> fst ` set par. map_of (tj_index (lookAt u p st)) u = None}"
  have "{v \<in> fst ` set par. map_of (tj_index (lookAt u p st)) v = None} = ?A - {p}"
    using assms(2) by (auto simp: index_lookAt split: if_splits)
  moreover have "?f p + sum ?f (?A - {p}) \<le> 1 + sum ?f ?A"
  proof (cases "p \<in> ?A")
    case True
    then show ?thesis using sum.remove [of ?A p ?f] by simp
  next
    case False
    then have "map_of par p = None" using assms(2) by (simp add: map_of_eq_None_iff)
    then show ?thesis using False by (simp add: parentsAt_def)
  qed
  ultimately show ?thesis using assms(1) by (simp add: callWork_def)
qed

lemma callWork_next:
  assumes "i < length (parentsAt par u)" "map_of (tj_index st) p \<noteq> None"
  shows "callWork par ((u, i + 1) # rest) (lookAt u p st) < callWork par ((u, i) # rest) st"
proof -
  have "map_of (tj_index (lookAt u p st)) = map_of (tj_index st)" using assms(2) by (simp only: index_lookAt if_False)
  then show ?thesis using assms(1) by (simp add: callWork_def)
qed

lemma callWork_finish: "callWork par rest (finishNode u rest' st) < callWork par ((u, i) # rest) st"
  by (simp add: callWork_def)

function tarjanWalk :: "parent_map \<Rightarrow> (string \<times> nat) list \<Rightarrow> tarjan \<Rightarrow> tarjan" where
  "tarjanWalk par [] st = st"
| "tarjanWalk par ((u, i) # rest) st =
     (if i < length (parentsAt par u)
      then let p = parentsAt par u ! i
           in if map_of (tj_index st) p = None then tarjanWalk par ((p, 0) # (u, i + 1) # rest) (lookAt u p st)
              else tarjanWalk par ((u, i + 1) # rest) (lookAt u p st)
      else tarjanWalk par rest (finishNode u rest st))"
  by pat_completeness auto

termination tarjanWalk
  by (relation "measure (\<lambda>(par, calls, st). callWork par calls st)")
     (auto simp del: One_nat_def intro: callWork_push callWork_next [simplified] callWork_finish)

definition tarjanRoot :: "parent_map \<Rightarrow> string \<Rightarrow> tarjan \<Rightarrow> tarjan" where
  "tarjanRoot par r st = (if map_of (tj_index st) r \<noteq> None then st else tarjanWalk par [(r, 0)] (visit r st))"

definition components :: "string list \<Rightarrow> parent_map \<Rightarrow> (string \<times> nat) list" where
  "components nodes par = tj_component (fold (tarjanRoot par) nodes tarjanStart)"

section \<open>The invariant\<close>

text \<open>
  Over the indices, the low links, the visited nodes, the component map, the open nodes and the frames: the open nodes
  are those visited and not yet in a component, later ones having larger indices; the frames are open. A frame
  reaches every open node after it, and every open node reaches a frame before it, so the open nodes from
  the last frame on reach one another. The low link of a frame is the index of an open node it reaches, and is a bound for
  every edge to an open node that leaves the frame, so far, or a finished open node that comes after it and before the
  next frame.
\<close>

definition grays :: "(string \<times> nat) list \<Rightarrow> string set" where
  "grays calls = fst ` set calls"

definition tarjanInv ::
  "string set \<Rightarrow> parent_map \<Rightarrow> (string \<Rightarrow> nat) \<Rightarrow> (string \<Rightarrow> nat) \<Rightarrow> string set \<Rightarrow> (string \<Rightarrow> nat option) \<Rightarrow>
   string list \<Rightarrow> (string \<times> nat) list \<Rightarrow> nat \<Rightarrow> bool" where
  "tarjanInv K par ix lw V cmp opn calls cnt \<longleftrightarrow>
     (set opn = V - dom cmp \<and> dom cmp \<subseteq> V \<and> V \<subseteq> K) \<and>
     (sorted_wrt (\<lambda>x y. ix y < ix x) opn \<and> inj_on ix V \<and> (\<forall>x \<in> V. ix x < cnt)) \<and>
     (sorted_wrt (\<lambda>x y. ix y < ix x) (map fst calls) \<and> grays calls \<subseteq> set opn) \<and>
     (\<forall>(u, i) \<in> set calls. \<forall>j < i. parentsAt par u ! j \<in> V) \<and>
     (\<forall>x \<in> V - grays calls. set (parentsAt par x) \<subseteq> V) \<and>
     (\<forall>x \<in> dom cmp. set (parentsAt par x) \<subseteq> dom cmp) \<and>
     (\<forall>x \<in> set opn. \<forall>g \<in> grays calls. ix g \<le> ix x \<longrightarrow> (g, x) \<in> (edges par)\<^sup>*) \<and>
     (\<forall>x \<in> set opn. \<exists>g \<in> grays calls. ix g \<le> ix x \<and> (x, g) \<in> (edges par)\<^sup>*) \<and>
     (\<forall>g \<in> grays calls. lw g \<le> ix g \<and> (\<exists>y \<in> set opn. ix y = lw g \<and> (g, y) \<in> (edges par)\<^sup>*)) \<and>
     (\<forall>(u, i) \<in> set calls. \<forall>j < i. parentsAt par u ! j \<in> set opn \<longrightarrow> lw u \<le> ix (parentsAt par u ! j)) \<and>
     (\<forall>x \<in> set opn - grays calls. \<forall>g \<in> grays calls.
        ix g \<le> ix x \<and> (\<forall>h \<in> grays calls. ix h \<le> ix x \<longrightarrow> ix h \<le> ix g) \<longrightarrow>
        (\<forall>y \<in> set (parentsAt par x) \<inter> set opn. lw g \<le> ix y)) \<and>
     (\<forall>x \<in> dom cmp. \<exists>r \<in> dom cmp. cmp x = Some (ix r)) \<and>
     (\<forall>x \<in> dom cmp. \<forall>y \<in> dom cmp. cmp x = cmp y \<longleftrightarrow> (x, y) \<in> (edges par)\<^sup>* \<and> (y, x) \<in> (edges par)\<^sup>*)"

lemma tarjanInvD:
  assumes "tarjanInv K par ix lw V cmp opn calls cnt"
  shows inv_sets: "set opn = V - dom cmp \<and> dom cmp \<subseteq> V \<and> V \<subseteq> K"
    and inv_index: "sorted_wrt (\<lambda>x y. ix y < ix x) opn \<and> inj_on ix V \<and> (\<forall>x \<in> V. ix x < cnt)"
    and inv_calls: "sorted_wrt (\<lambda>x y. ix y < ix x) (map fst calls) \<and> grays calls \<subseteq> set opn"
    and inv_frame: "\<forall>(u, i) \<in> set calls. \<forall>j < i. parentsAt par u ! j \<in> V"
    and inv_black: "\<forall>x \<in> V - grays calls. set (parentsAt par x) \<subseteq> V"
    and inv_closed: "\<forall>x \<in> dom cmp. set (parentsAt par x) \<subseteq> dom cmp"
    and inv_down: "\<forall>x \<in> set opn. \<forall>g \<in> grays calls. ix g \<le> ix x \<longrightarrow> (g, x) \<in> (edges par)\<^sup>*"
    and inv_up: "\<forall>x \<in> set opn. \<exists>g \<in> grays calls. ix g \<le> ix x \<and> (x, g) \<in> (edges par)\<^sup>*"
    and inv_low: "\<forall>g \<in> grays calls. lw g \<le> ix g \<and> (\<exists>y \<in> set opn. ix y = lw g \<and> (g, y) \<in> (edges par)\<^sup>*)"
    and inv_frame_low: "\<forall>(u, i) \<in> set calls. \<forall>j < i. parentsAt par u ! j \<in> set opn \<longrightarrow> lw u \<le> ix (parentsAt par u ! j)"
    and inv_black_low: "\<forall>x \<in> set opn - grays calls. \<forall>g \<in> grays calls.
        ix g \<le> ix x \<and> (\<forall>h \<in> grays calls. ix h \<le> ix x \<longrightarrow> ix h \<le> ix g) \<longrightarrow>
        (\<forall>y \<in> set (parentsAt par x) \<inter> set opn. lw g \<le> ix y)"
    and inv_rep: "\<forall>x \<in> dom cmp. \<exists>r \<in> dom cmp. cmp x = Some (ix r)"
    and inv_scc: "\<forall>x \<in> dom cmp. \<forall>y \<in> dom cmp. cmp x = cmp y \<longleftrightarrow> (x, y) \<in> (edges par)\<^sup>* \<and> (y, x) \<in> (edges par)\<^sup>*"
  using assms unfolding tarjanInv_def by - ((elim conjE; (intro conjI)?; assumption)+)

lemma black_low:
  assumes "tarjanInv K par ix lw V cmp opn calls cnt" "x \<in> set opn - grays calls" "g \<in> grays calls" "ix g \<le> ix x"
    "\<And>h. h \<in> grays calls \<Longrightarrow> ix h \<le> ix x \<Longrightarrow> ix h \<le> ix g" "y \<in> set (parentsAt par x) \<inter> set opn"
  shows "lw g \<le> ix y"
  using inv_black_low [OF assms(1)] assms(2-6) by blast

lemma reaches_frame:
  assumes "tarjanInv K par ix lw V cmp opn calls cnt" "x \<in> set opn"
  obtains g where "g \<in> grays calls" "ix g \<le> ix x" "(x, g) \<in> (edges par)\<^sup>*"
  using inv_up [OF assms(1)] assms(2) by blast

lemma grays_Cons [simp]: "grays ((u, i) # rest) = insert u (grays rest)" "grays [] = {}"
  by (simp_all add: grays_def)

lemma inv_top:
  assumes "tarjanInv K par ix lw V cmp opn ((u, i) # rest) cnt"
  shows top_open: "u \<in> set opn" "u \<in> V" "u \<notin> dom cmp"
    and rest_open: "g \<in> grays rest \<Longrightarrow> g \<in> set opn \<and> g \<in> V \<and> ix g < ix u"
  using inv_calls [OF assms] inv_sets [OF assms] by (auto simp: grays_def)

lemma sorted_wrt_push:
  assumes "sorted_wrt (\<lambda>x y. ix y < ix x) xs" "set xs \<subseteq> V" "\<And>x. x \<in> V \<Longrightarrow> ix x < cnt" "p \<notin> V"
  shows "sorted_wrt (\<lambda>x y. (ix(p := cnt)) y < (ix(p := cnt)) x) (p # xs)"
proof -
  have "sorted_wrt (\<lambda>x y. (ix(p := cnt)) y < (ix(p := cnt)) x) xs"
    by (rule sorted_wrt_mono_rel [OF _ assms(1)]) (use assms(2,4) in auto)
  then show ?thesis using assms(2-4) by auto
qed

lemma inv_push:
  assumes inv: "tarjanInv K par ix lw V cmp opn ((u, i) # rest) cnt" and i: "i < length (parentsAt par u)"
    and p: "p = parentsAt par u ! i" "p \<notin> V" and closed: "closedGraph K par"
  shows "tarjanInv K par (ix(p := cnt)) (lw(p := cnt)) (insert p V) cmp (p # opn) ((p, 0) # (u, i + 1) # rest) (cnt + 1)"
proof -
  let ?G = "insert u (grays rest)" and ?R = "(edges par)\<^sup>*"
  have V: "set opn \<subseteq> V" "dom cmp \<subseteq> V" "?G \<subseteq> V" and pne: "p \<notin> set opn" "p \<notin> dom cmp" "p \<notin> ?G"
    using inv_sets [OF inv] inv_calls [OF inv] p(2) by auto
  have "p \<in> set (parentsAt par u)" using p(1) i by simp
  then have e: "(u, p) \<in> edges par" "p \<in> K" using closed by (auto simp: edges_def closedGraph_def)
  have lt: "ix x < cnt" if "x \<in> V" for x using inv_index [OF inv] that by blast
  have ix: "(ix(p := cnt)) x = ix x" "(lw(p := cnt)) x = lw x" if "x \<in> V" for x using that p(2) by auto
  have rp: "(g, p) \<in> ?R" if "g \<in> ?G" for g
  proof -
    have "(g, u) \<in> ?R"
      using that inv_down [OF inv] top_open(1) [OF inv] rest_open [OF inv, of g] by (cases "g = u") auto
    then show ?thesis using e(1) by (rule rtrancl_into_rtrancl)
  qed
  show ?thesis
    unfolding tarjanInv_def grays_Cons
  proof (intro conjI)
    show "set (p # opn) = insert p V - dom cmp" "dom cmp \<subseteq> insert p V" "insert p V \<subseteq> K"
      using inv_sets [OF inv] pne e by auto
    show "sorted_wrt (\<lambda>x y. (ix(p := cnt)) y < (ix(p := cnt)) x) (p # opn)"
      using sorted_wrt_push [of ix opn V cnt p] inv_index [OF inv] V(1) lt p(2) by simp
    show "inj_on (ix(p := cnt)) (insert p V)" using inv_index [OF inv] lt p(2) by (auto simp: inj_on_def)
    show "\<forall>x \<in> insert p V. (ix(p := cnt)) x < cnt + 1" using lt by (auto simp: less_Suc_eq)
    show "sorted_wrt (\<lambda>x y. (ix(p := cnt)) y < (ix(p := cnt)) x) (map fst ((p, 0) # (u, i + 1) # rest))"
      using sorted_wrt_push [of ix "map fst ((u, i) # rest)" V cnt p] inv_calls [OF inv] V(3) lt p(2) by (simp add: grays_def)
    show "insert p ?G \<subseteq> set (p # opn)" using inv_calls [OF inv] by auto
    show "\<forall>(v, k) \<in> set ((p, 0) # (u, i + 1) # rest). \<forall>j < k. parentsAt par v ! j \<in> insert p V"
      using inv_frame [OF inv] p(1) by (auto simp: less_Suc_eq)
    show "\<forall>x \<in> insert p V - insert p ?G. set (parentsAt par x) \<subseteq> insert p V" using inv_black [OF inv] by auto
    show "\<forall>x \<in> dom cmp. set (parentsAt par x) \<subseteq> dom cmp" using inv_closed [OF inv] .
    show "\<forall>x \<in> set (p # opn). \<forall>g \<in> insert p ?G. (ix(p := cnt)) g \<le> (ix(p := cnt)) x \<longrightarrow> (g, x) \<in> ?R"
    proof (intro ballI impI)
      fix x g
      assume x: "x \<in> set (p # opn)" and g: "g \<in> insert p ?G" and le: "(ix(p := cnt)) g \<le> (ix(p := cnt)) x"
      show "(g, x) \<in> ?R"
      proof (cases "x = p")
        case True
        then show ?thesis using rp g by auto
      next
        case False
        then have x': "x \<in> set opn" "x \<in> V" using x V(1) by auto
        then have "g \<noteq> p" using le lt [of x] False by auto
        then show ?thesis using inv_down [OF inv] x'(1) g le False by auto
      qed
    qed
    show "\<forall>x \<in> set (p # opn). \<exists>g \<in> insert p ?G. (ix(p := cnt)) g \<le> (ix(p := cnt)) x \<and> (x, g) \<in> ?R"
      using inv_up [OF inv] pne by fastforce
    show "\<forall>g \<in> insert p ?G. (lw(p := cnt)) g \<le> (ix(p := cnt)) g \<and> (\<exists>y \<in> set (p # opn). (ix(p := cnt)) y = (lw(p := cnt)) g \<and> (g, y) \<in> ?R)"
      using inv_low [OF inv] pne by fastforce
    show "\<forall>(v, k) \<in> set ((p, 0) # (u, i + 1) # rest). \<forall>j < k. parentsAt par v ! j \<in> set (p # opn) \<longrightarrow>
        (lw(p := cnt)) v \<le> (ix(p := cnt)) (parentsAt par v ! j)"
    proof (clarify)
      fix v k j
      assume f: "(v, k) \<in> set ((p, 0) # (u, i + 1) # rest)" and j: "j < k" and y: "parentsAt par v ! j \<in> set (p # opn)"
      then have "v = u \<or> (v, k) \<in> set rest" by auto
      then have v: "v \<in> ?G" by (auto simp: grays_def intro: rev_image_eqI)
      show "(lw(p := cnt)) v \<le> (ix(p := cnt)) (parentsAt par v ! j)"
      proof (cases "parentsAt par v ! j = p")
        case True
        have "lw v \<le> ix v" "ix v < cnt" using v inv_low [OF inv] lt V(3) by auto
        then show ?thesis using True v pne(3) by auto
      next
        case False
        then have "\<exists>k'. (v, k') \<in> set ((u, i) # rest) \<and> j < k'" using f j p(1) by (auto simp: less_Suc_eq)
        then have "lw v \<le> ix (parentsAt par v ! j)" using inv_frame_low [OF inv] y False by fastforce
        then show ?thesis using False v pne(3) by auto
      qed
    qed
    show "\<forall>x \<in> set (p # opn) - insert p ?G. \<forall>g \<in> insert p ?G.
        (ix(p := cnt)) g \<le> (ix(p := cnt)) x \<and> (\<forall>h \<in> insert p ?G. (ix(p := cnt)) h \<le> (ix(p := cnt)) x \<longrightarrow> (ix(p := cnt)) h \<le> (ix(p := cnt)) g) \<longrightarrow>
        (\<forall>y \<in> set (parentsAt par x) \<inter> set (p # opn). (lw(p := cnt)) g \<le> (ix(p := cnt)) y)"
    proof (intro ballI impI)
      fix x g y
      assume x: "x \<in> set (p # opn) - insert p ?G" and g: "g \<in> insert p ?G" and y: "y \<in> set (parentsAt par x) \<inter> set (p # opn)"
        and m: "(ix(p := cnt)) g \<le> (ix(p := cnt)) x \<and> (\<forall>h \<in> insert p ?G. (ix(p := cnt)) h \<le> (ix(p := cnt)) x \<longrightarrow> (ix(p := cnt)) h \<le> (ix(p := cnt)) g)"
      have xV: "x \<in> V" "x \<noteq> p" "x \<in> set opn - ?G" using x V(1) by auto
      then have "g \<noteq> p" using m lt by fastforce
      then have gG: "g \<in> ?G" using g by blast
      have "set (parentsAt par x) \<subseteq> V" using inv_black [OF inv] xV by simp
      then have y': "y \<in> set (parentsAt par x) \<inter> set opn" "y \<noteq> p" using y p(2) by auto
      have mx: "ix h \<le> ix g" if h: "h \<in> ?G" "ix h \<le> ix x" for h
      proof -
        have "h \<noteq> p" using h(1) pne(3) by blast
        then show ?thesis using bspec [OF conjunct2 [OF m], of h] h xV(2) \<open>g \<noteq> p\<close> by simp
      qed
      have le: "ix g \<le> ix x" using m xV(2) \<open>g \<noteq> p\<close> by simp
      have "lw g \<le> ix y" by (rule black_low [OF inv, of x g y, unfolded grays_Cons, OF xV(3) gG le mx y'(1)])
      then show "(lw(p := cnt)) g \<le> (ix(p := cnt)) y" using y'(2) \<open>g \<noteq> p\<close> by simp
    qed
    show "\<forall>x \<in> dom cmp. \<exists>r \<in> dom cmp. cmp x = Some ((ix(p := cnt)) r)"
    proof
      fix x
      assume "x \<in> dom cmp"
      then obtain r where r: "r \<in> dom cmp" "cmp x = Some (ix r)" using inv_rep [OF inv] by blast
      then have "r \<noteq> p" using pne(2) by blast
      then show "\<exists>r \<in> dom cmp. cmp x = Some ((ix(p := cnt)) r)" using r by (intro bexI [of _ r]) simp_all
    qed
    show "\<forall>x \<in> dom cmp. \<forall>y \<in> dom cmp. cmp x = cmp y \<longleftrightarrow> (x, y) \<in> ?R \<and> (y, x) \<in> ?R" using inv_scc [OF inv] .
  qed
qed

lemma inv_next:
  assumes inv: "tarjanInv K par ix lw V cmp opn ((u, i) # rest) cnt" and i: "i < length (parentsAt par u)"
    and p: "p = parentsAt par u ! i" "p \<in> V"
    and n: "n \<le> lw u" "n = lw u \<or> p \<in> set opn \<and> n = ix p" "p \<in> set opn \<Longrightarrow> n \<le> ix p"
  shows "tarjanInv K par ix (lw(u := n)) V cmp opn ((u, i + 1) # rest) cnt"
proof -
  let ?R = "(edges par)\<^sup>*"
  have e: "(u, p) \<in> edges par" using p(1) i by (simp add: edges_def)
  have lw: "(lw(u := n)) g \<le> lw g" for g using n(1) by simp
  have G: "grays ((u, i + 1) # rest) = grays ((u, i) # rest)" by simp
  show ?thesis
    unfolding tarjanInv_def G
  proof (intro conjI)
    show "\<forall>(v, k) \<in> set ((u, i + 1) # rest). \<forall>j < k. parentsAt par v ! j \<in> V"
      using inv_frame [OF inv] p by (auto simp: less_Suc_eq)
    show "\<forall>g \<in> grays ((u, i) # rest). (lw(u := n)) g \<le> ix g \<and> (\<exists>y \<in> set opn. ix y = (lw(u := n)) g \<and> (g, y) \<in> ?R)"
    proof
      fix g
      assume g: "g \<in> grays ((u, i) # rest)"
      then have old: "lw g \<le> ix g" "\<exists>y \<in> set opn. ix y = lw g \<and> (g, y) \<in> ?R" using inv_low [OF inv] by blast+
      show "(lw(u := n)) g \<le> ix g \<and> (\<exists>y \<in> set opn. ix y = (lw(u := n)) g \<and> (g, y) \<in> ?R)"
      proof (cases "g = u \<and> n \<noteq> lw u")
        case True
        then have "p \<in> set opn" "n = ix p" using n(2) by auto
        then show ?thesis using True e old(1) n(1) by auto
      next
        case False
        then have "(lw(u := n)) g = lw g" by auto
        then show ?thesis using old by simp
      qed
    qed
    show "\<forall>(v, k) \<in> set ((u, i + 1) # rest). \<forall>j < k. parentsAt par v ! j \<in> set opn \<longrightarrow>
        (lw(u := n)) v \<le> ix (parentsAt par v ! j)"
    proof (clarify)
      fix v k j
      assume f: "(v, k) \<in> set ((u, i + 1) # rest)" and j: "j < k" and y: "parentsAt par v ! j \<in> set opn"
      show "(lw(u := n)) v \<le> ix (parentsAt par v ! j)"
      proof (cases "\<exists>k'. (v, k') \<in> set ((u, i) # rest) \<and> j < k'")
        case True
        then have "lw v \<le> ix (parentsAt par v ! j)" using inv_frame_low [OF inv] y by fastforce
        then show ?thesis using lw [of v] by simp
      next
        case False
        then have "v = u" "j = i" using f j by (auto simp: less_Suc_eq)
        then show ?thesis using n(3) y p(1) by simp
      qed
    qed
    show "\<forall>x \<in> set opn - grays ((u, i) # rest). \<forall>g \<in> grays ((u, i) # rest).
        ix g \<le> ix x \<and> (\<forall>h \<in> grays ((u, i) # rest). ix h \<le> ix x \<longrightarrow> ix h \<le> ix g) \<longrightarrow>
        (\<forall>y \<in> set (parentsAt par x) \<inter> set opn. (lw(u := n)) g \<le> ix y)"
      using inv_black_low [OF inv] lw order_trans by meson
    show "sorted_wrt (\<lambda>x y. ix y < ix x) (map fst ((u, i + 1) # rest))" using inv_calls [OF inv] by simp
  qed (use inv_sets [OF inv] inv_index [OF inv] inv_calls [OF inv] inv_black [OF inv] inv_closed [OF inv] inv_down [OF inv]
      inv_up [OF inv] inv_rep [OF inv] inv_scc [OF inv] in blast)+
qed

text \<open>The last frame finishes: its parents are all visited, and its low link bounds its edges.\<close>

lemma finished_top:
  assumes inv: "tarjanInv K par ix lw V cmp opn ((v, length (parentsAt par v)) # rest) cnt"
  shows "set (parentsAt par v) \<subseteq> V" "y \<in> set (parentsAt par v) \<inter> set opn \<Longrightarrow> lw v \<le> ix y"
proof -
  show "set (parentsAt par v) \<subseteq> V" using inv_frame [OF inv] by (auto simp: in_set_conv_nth)
  show "lw v \<le> ix y" if y: "y \<in> set (parentsAt par v) \<inter> set opn"
  proof -
    obtain j where "j < length (parentsAt par v)" "parentsAt par v ! j = y" using y by (auto simp: in_set_conv_nth)
    then show ?thesis using inv_frame_low [OF inv] y by auto
  qed
qed

lemma inv_finish_keep:
  assumes inv: "tarjanInv K par ix lw V cmp opn ((v, length (parentsAt par v)) # (u, k) # rest) cnt" and low: "lw v < ix v"
  shows "tarjanInv K par ix (lw(u := min (lw u) (lw v))) V cmp opn ((u, k) # rest) cnt"
proof -
  let ?G = "insert u (grays rest)" and ?R = "(edges par)\<^sup>*" and ?lw = "lw(u := min (lw u) (lw v))"
  note top = top_open [OF inv] and below = rest_open [OF inv, simplified]
  have uv: "ix u < ix v" "u \<in> set opn" "v \<noteq> u" and gv: "g \<in> ?G \<Longrightarrow> ix g < ix v \<and> g \<noteq> v" for g using below by auto
  have rest_below: "ix g < ix u" if "g \<in> grays rest" for g using inv_calls [OF inv] that by (auto simp: grays_def)
  have lw: "?lw g \<le> lw g" "?lw u \<le> lw v" for g by auto
  obtain y where y: "y \<in> set opn" "ix y = lw v" "(v, y) \<in> ?R" using inv_low [OF inv] by auto
  obtain g0 where g0: "g0 \<in> insert v ?G" "ix g0 \<le> ix y" "(y, g0) \<in> ?R"
    using reaches_frame [OF inv y(1)] unfolding grays_Cons by metis
  then have g0G: "g0 \<in> ?G" using y(2) low by auto
  have ur: "(u, v) \<in> ?R" using inv_down [OF inv] top(1) uv(1) by auto
  show ?thesis
    unfolding tarjanInv_def grays_Cons
  proof (intro conjI)
    show "\<forall>x \<in> V - ?G. set (parentsAt par x) \<subseteq> V" using inv_black [OF inv] finished_top(1) [OF inv] by auto
    show "\<forall>x \<in> set opn. \<exists>g \<in> ?G. ix g \<le> ix x \<and> (x, g) \<in> ?R"
    proof
      fix x
      assume "x \<in> set opn"
      then obtain g where g: "g \<in> insert v ?G" "ix g \<le> ix x" "(x, g) \<in> ?R" using inv_up [OF inv] by auto
      show "\<exists>g \<in> ?G. ix g \<le> ix x \<and> (x, g) \<in> ?R"
      proof (cases "g = v")
        case True
        then have "(x, g0) \<in> ?R" using g(3) y(3) g0(3) by (meson rtrancl_trans)
        then show ?thesis using g0(2) g0G y(2) low g(2) True by (intro bexI [of _ g0]) auto
      qed (use g in auto)
    qed
    show "\<forall>g \<in> ?G. ?lw g \<le> ix g \<and> (\<exists>y \<in> set opn. ix y = ?lw g \<and> (g, y) \<in> ?R)"
    proof
      fix g
      assume g: "g \<in> ?G"
      then have old: "lw g \<le> ix g" "\<exists>y \<in> set opn. ix y = lw g \<and> (g, y) \<in> ?R" using inv_low [OF inv] by auto
      show "?lw g \<le> ix g \<and> (\<exists>y \<in> set opn. ix y = ?lw g \<and> (g, y) \<in> ?R)"
      proof (cases "g = u \<and> lw v < lw u")
        case True
        then have "(g, y) \<in> ?R" using ur y(3) by (meson rtrancl_trans)
        then show ?thesis using True y old(1) by (auto simp: min_def)
      next
        case False
        then have "?lw g = lw g" by auto
        then show ?thesis using old by simp
      qed
    qed
    show "\<forall>(w, k) \<in> set ((u, k) # rest). \<forall>j < k. parentsAt par w ! j \<in> set opn \<longrightarrow> ?lw w \<le> ix (parentsAt par w ! j)"
    proof (clarify)
      fix w k' j
      assume "(w, k') \<in> set ((u, k) # rest)" "j < k'" "parentsAt par w ! j \<in> set opn"
      then have "lw w \<le> ix (parentsAt par w ! j)" using inv_frame_low [OF inv] by auto
      then show "?lw w \<le> ix (parentsAt par w ! j)" using lw(1) [of w] by (rule order_trans [rotated])
    qed
    show "\<forall>x \<in> set opn - ?G. \<forall>g \<in> ?G. ix g \<le> ix x \<and> (\<forall>h \<in> ?G. ix h \<le> ix x \<longrightarrow> ix h \<le> ix g) \<longrightarrow>
        (\<forall>y \<in> set (parentsAt par x) \<inter> set opn. ?lw g \<le> ix y)"
    proof (intro ballI impI)
      fix x g z
      assume x: "x \<in> set opn - ?G" and g: "g \<in> ?G" and z: "z \<in> set (parentsAt par x) \<inter> set opn"
        and m: "ix g \<le> ix x \<and> (\<forall>h \<in> ?G. ix h \<le> ix x \<longrightarrow> ix h \<le> ix g)"
      show "?lw g \<le> ix z"
      proof (cases "ix v \<le> ix x")
        case True
        then have "ix u \<le> ix g" using m uv(1) by auto
        then have "g = u" using g rest_open [OF inv, of g] below [of g] rest_below by fastforce
        have "lw v \<le> ix z"
        proof (cases "x = v")
          case True
          then show ?thesis using finished_top(2) [OF inv] z by simp
        next
          case False
          then have "x \<in> set opn - insert v ?G" using x by blast
          moreover have "ix h \<le> ix v" if "h \<in> insert v ?G" for h using that gv [of h] by (auto intro: less_imp_le)
          ultimately show ?thesis using True z by (intro black_low [OF inv, of x v z, unfolded grays_Cons]) auto
        qed
        then show ?thesis using \<open>g = u\<close> lw(2) by simp
      next
        case False
        then have "x \<in> set opn - insert v ?G" using x by blast
        moreover have "ix h \<le> ix g" if "h \<in> insert v ?G" "ix h \<le> ix x" for h using that m False by auto
        ultimately have "lw g \<le> ix z" using g z m by (intro black_low [OF inv, of x g z, unfolded grays_Cons]) auto
        then show ?thesis using lw(1) [of g] by (rule order_trans [rotated])
      qed
    qed
    show "sorted_wrt (\<lambda>x y. ix y < ix x) (map fst ((u, k) # rest))" using inv_calls [OF inv] by simp
    show "?G \<subseteq> set opn" using inv_calls [OF inv] by simp
    show "\<forall>(u, i) \<in> set ((u, k) # rest). \<forall>j < i. parentsAt par u ! j \<in> V" using inv_frame [OF inv] by simp
    show "\<forall>x \<in> set opn. \<forall>g \<in> ?G. ix g \<le> ix x \<longrightarrow> (g, x) \<in> ?R" using inv_down [OF inv] by simp
  qed (use inv_sets [OF inv] inv_index [OF inv] inv_closed [OF inv] inv_rep [OF inv] inv_scc [OF inv] in blast)+
qed

text \<open>When the low link of the last frame is its own index, the open nodes from it on are one component: they reach one
  another, and no edge leaves them but into finished components.\<close>

lemma closed_reach:
  assumes "\<forall>x \<in> D. set (parentsAt par x) \<subseteq> D" "(x, y) \<in> (edges par)\<^sup>*" "x \<in> D"
  shows "y \<in> D"
  using assms(2,3) by (induction rule: rtrancl_induct) (use assms(1) in \<open>auto simp: edges_def\<close>)

lemma root_component:
  assumes inv: "tarjanInv K par ix lw V cmp opn ((v, length (parentsAt par v)) # rest) cnt" and low: "lw v = ix v"
    and x: "x \<in> set opn" "ix v \<le> ix x"
  shows "(v, x) \<in> (edges par)\<^sup>*" "(x, v) \<in> (edges par)\<^sup>*"
    "y \<in> set (parentsAt par x) \<Longrightarrow> y \<in> dom cmp \<or> y \<in> set opn \<and> ix v \<le> ix y"
proof -
  let ?G = "grays rest"
  have gv: "ix g \<le> ix v" if "g \<in> insert v ?G" for g using that rest_open [OF inv, of g] by auto
  show "(v, x) \<in> (edges par)\<^sup>*" using inv_down [OF inv] x by auto
  obtain g where g: "g \<in> insert v ?G" "(x, g) \<in> (edges par)\<^sup>*" using reaches_frame [OF inv x(1)] unfolding grays_Cons by metis
  have "(g, v) \<in> (edges par)\<^sup>*" using inv_down [OF inv] top_open(1) [OF inv] gv [OF g(1)] g(1) unfolding grays_Cons by blast
  then show "(x, v) \<in> (edges par)\<^sup>*" by (rule rtrancl_trans [OF g(2)])
  show "y \<in> dom cmp \<or> y \<in> set opn \<and> ix v \<le> ix y" if y: "y \<in> set (parentsAt par x)"
  proof (cases "y \<in> set opn")
    case True
    have "lw v \<le> ix y"
    proof (cases "x = v")
      case True
      then show ?thesis using finished_top(2) [OF inv] y \<open>y \<in> set opn\<close> by simp
    next
      case False
      then have "x \<in> set opn - insert v ?G" using x rest_open [OF inv, of x] by auto
      then show ?thesis
        by (rule black_low [OF inv, of x v y, unfolded grays_Cons]) (use gv x(2) y True in auto)
    qed
    then show ?thesis using True low by simp
  next
    case False
    have "set (parentsAt par x) \<subseteq> V"
    proof (cases "x = v")
      case True
      then show ?thesis using finished_top(1) [OF inv] by simp
    next
      case False
      then have "x \<in> V - insert v ?G" using x inv_sets [OF inv] rest_open [OF inv, of x] by auto
      then show ?thesis using inv_black [OF inv] unfolding grays_Cons by blast
    qed
    then show ?thesis using y False inv_sets [OF inv] by blast
  qed
qed

lemma inv_finish_pop:
  assumes inv: "tarjanInv K par ix lw V cmp opn ((v, length (parentsAt par v)) # rest) cnt" and low: "lw v = ix v"
    and S: "S = {x \<in> set opn. ix v \<le> ix x}"
  shows "tarjanInv K par ix lw V (\<lambda>x. if x \<in> S then Some (ix v) else cmp x) (filter (\<lambda>x. ix x < ix v) opn) rest cnt"
proof -
  let ?G = "grays rest" and ?R = "(edges par)\<^sup>*" and ?cmp = "\<lambda>x. if x \<in> S then Some (ix v) else cmp x"
    and ?opn = "filter (\<lambda>x. ix x < ix v) opn"
  have dom: "dom ?cmp = S \<union> dom cmp" by (auto simp: dom_def)
  have vS: "v \<in> S" using top_open [OF inv] S by simp
  have disj: "x \<notin> dom cmp" if "x \<in> S" for x using that S inv_sets [OF inv] by blast
  have opn: "x \<in> set ?opn \<longleftrightarrow> x \<in> set opn \<and> x \<notin> S" for x using S by auto
  have mutual: "(x, y) \<in> ?R" if "x \<in> S" "y \<in> S" for x y
    using root_component(1,2) [OF inv low] that S by (metis (mono_tags, lifting) mem_Collect_eq rtrancl_trans)
  have gv: "g \<in> set ?opn \<and> ix g < ix v" if "g \<in> ?G" for g using that rest_open [OF inv, of g] by simp
  show ?thesis
    unfolding tarjanInv_def dom
  proof (intro conjI)
    show "set ?opn = V - (S \<union> dom cmp)" "S \<union> dom cmp \<subseteq> V" "V \<subseteq> K" using inv_sets [OF inv] S by auto
    show "sorted_wrt (\<lambda>x y. ix y < ix x) ?opn" "inj_on ix V" "\<forall>x \<in> V. ix x < cnt"
      using inv_index [OF inv] by (auto simp: sorted_wrt_filter)
    show "sorted_wrt (\<lambda>x y. ix y < ix x) (map fst rest)" "?G \<subseteq> set ?opn" using inv_calls [OF inv] gv by auto
    show "\<forall>(u, i) \<in> set rest. \<forall>j < i. parentsAt par u ! j \<in> V" using inv_frame [OF inv] by simp
    show "\<forall>x \<in> V - ?G. set (parentsAt par x) \<subseteq> V"
      using inv_black [OF inv] finished_top(1) [OF inv] unfolding grays_Cons by blast
    show "\<forall>x \<in> S \<union> dom cmp. set (parentsAt par x) \<subseteq> S \<union> dom cmp"
      using root_component(3) [OF inv low] inv_closed [OF inv] unfolding S by blast
    show "\<forall>x \<in> set ?opn. \<forall>g \<in> ?G. ix g \<le> ix x \<longrightarrow> (g, x) \<in> ?R" using inv_down [OF inv] by simp
    show "\<forall>x \<in> set ?opn. \<exists>g \<in> ?G. ix g \<le> ix x \<and> (x, g) \<in> ?R" using inv_up [OF inv] by fastforce
    show "\<forall>g \<in> ?G. lw g \<le> ix g \<and> (\<exists>y \<in> set ?opn. ix y = lw g \<and> (g, y) \<in> ?R)"
      using inv_low [OF inv] gv by fastforce
    show "\<forall>(u, i) \<in> set rest. \<forall>j < i. parentsAt par u ! j \<in> set ?opn \<longrightarrow> lw u \<le> ix (parentsAt par u ! j)"
      using inv_frame_low [OF inv] by auto
    show "\<forall>x \<in> set ?opn - ?G. \<forall>g \<in> ?G. ix g \<le> ix x \<and> (\<forall>h \<in> ?G. ix h \<le> ix x \<longrightarrow> ix h \<le> ix g) \<longrightarrow>
        (\<forall>y \<in> set (parentsAt par x) \<inter> set ?opn. lw g \<le> ix y)"
    proof (intro ballI impI)
      fix x g y
      assume x: "x \<in> set ?opn - ?G" and g: "g \<in> ?G" and y: "y \<in> set (parentsAt par x) \<inter> set ?opn"
        and m: "ix g \<le> ix x \<and> (\<forall>h \<in> ?G. ix h \<le> ix x \<longrightarrow> ix h \<le> ix g)"
      have "x \<in> set opn - insert v ?G" using x by auto
      then show "lw g \<le> ix y"
        by (rule black_low [OF inv, of x g y, unfolded grays_Cons]) (use x g y m in auto)
    qed
    show "\<forall>x \<in> S \<union> dom cmp. \<exists>r \<in> S \<union> dom cmp. ?cmp x = Some (ix r)"
    proof
      fix x
      assume x: "x \<in> S \<union> dom cmp"
      show "\<exists>r \<in> S \<union> dom cmp. ?cmp x = Some (ix r)"
      proof (cases "x \<in> S")
        case True
        then show ?thesis using vS by auto
      next
        case False
        then obtain r where "r \<in> dom cmp" "cmp x = Some (ix r)" using inv_rep [OF inv] x by blast
        then show ?thesis using False by auto
      qed
    qed
    show "\<forall>x \<in> S \<union> dom cmp. \<forall>y \<in> S \<union> dom cmp. ?cmp x = ?cmp y \<longleftrightarrow> (x, y) \<in> ?R \<and> (y, x) \<in> ?R"
    proof -
      have new: "Some (ix v) \<noteq> cmp y \<and> (y, x) \<notin> ?R" if xy: "x \<in> S" "y \<in> dom cmp" for x y
      proof -
        obtain r where r: "r \<in> dom cmp" "cmp y = Some (ix r)" using inv_rep [OF inv] xy(2) by blast
        then have "ix r \<noteq> ix v"
          using inv_index [OF inv] inv_sets [OF inv] top_open [OF inv] by (metis inj_onD subsetD)
        moreover have "(y, x) \<notin> ?R" using closed_reach [OF inv_closed [OF inv]] xy disj by blast
        ultimately show ?thesis using r(2) by simp
      qed
      show ?thesis
      proof (intro ballI)
        fix x y
        assume x: "x \<in> S \<union> dom cmp" and y: "y \<in> S \<union> dom cmp"
        consider "x \<in> S" "y \<in> S" | "x \<in> S" "y \<in> dom cmp" "y \<notin> S" | "x \<in> dom cmp" "x \<notin> S" "y \<in> S"
          | "x \<in> dom cmp" "x \<notin> S" "y \<in> dom cmp" "y \<notin> S" using x y by blast
        then show "?cmp x = ?cmp y \<longleftrightarrow> (x, y) \<in> ?R \<and> (y, x) \<in> ?R"
        proof cases
          case 1
          then show ?thesis using mutual by simp
        next
          case 2
          then show ?thesis using new [of x y] by simp
        next
          case 3
          then show ?thesis using new [of y x] by auto
        next
          case 4
          then show ?thesis using inv_scc [OF inv] by simp
        qed
      qed
    qed
  qed
qed

section \<open>The algorithm keeps the invariant\<close>

definition stateInv :: "string set \<Rightarrow> parent_map \<Rightarrow> (string \<times> nat) list \<Rightarrow> tarjan \<Rightarrow> bool" where
  "stateInv K par calls st \<longleftrightarrow> tarjanInv K par (indexOfNode st) (lowOf st) (dom (map_of (tj_index st))) (map_of (tj_component st))
     (tj_open st) calls (tj_counter st)"

lemma visit_simps [simp]:
  "indexOfNode (visit p st) = (indexOfNode st)(p := tj_counter st)" "lowOf (visit p st) = (lowOf st)(p := tj_counter st)"
  "dom (map_of (tj_index (visit p st))) = insert p (dom (map_of (tj_index st)))" "tj_component (visit p st) = tj_component st"
  "tj_open (visit p st) = p # tj_open st" "tj_counter (visit p st) = tj_counter st + 1"
  by (auto simp: visit_def indexOfNode_def lowOf_def update_conv' fun_eq_iff)

lemma lowerTo_simps [simp]:
  "indexOfNode (lowerTo u n st) = indexOfNode st" "lowOf (lowerTo u n st) = (lowOf st)(u := min (lowOf st u) n)"
  "tj_index (lowerTo u n st) = tj_index st" "tj_component (lowerTo u n st) = tj_component st"
  "tj_open (lowerTo u n st) = tj_open st" "tj_counter (lowerTo u n st) = tj_counter st"
  by (auto simp: lowerTo_def indexOfNode_def lowOf_def update_conv' fun_eq_iff)

lemma stateInv_push:
  assumes "stateInv K par ((u, i) # rest) st" "i < length (parentsAt par u)" "map_of (tj_index st) (parentsAt par u ! i) = None"
    "closedGraph K par"
  shows "stateInv K par ((parentsAt par u ! i, 0) # (u, i + 1) # rest) (lookAt u (parentsAt par u ! i) st)"
proof -
  have fresh: "parentsAt par u ! i \<notin> dom (map_of (tj_index st))" using assms(3) by (simp add: domIff)
  have "lookAt u (parentsAt par u ! i) st = visit (parentsAt par u ! i) st" using assms(3) by (simp add: lookAt_def)
  then show ?thesis
    using inv_push [OF assms(1) [unfolded stateInv_def] assms(2) refl fresh assms(4)] by (simp only: stateInv_def visit_simps)
qed

lemma stateInv_next:
  assumes "stateInv K par ((u, i) # rest) st" "i < length (parentsAt par u)" "map_of (tj_index st) (parentsAt par u ! i) \<noteq> None"
  shows "stateInv K par ((u, i + 1) # rest) (lookAt u (parentsAt par u ! i) st)"
proof -
  let ?p = "parentsAt par u ! i"
  note inv = assms(1) [unfolded stateInv_def]
  have V: "?p \<in> dom (map_of (tj_index st))" using assms(3) by (simp add: domIff)
  show ?thesis
  proof (cases "map_of (tj_component st) ?p = None")
    case True
    then have "?p \<in> set (tj_open st)" using inv_sets [OF inv] V by (auto simp: domIff)
    then have "tarjanInv K par (indexOfNode st) ((lowOf st)(u := min (lowOf st u) (indexOfNode st ?p))) (dom (map_of (tj_index st)))
        (map_of (tj_component st)) (tj_open st) ((u, i + 1) # rest) (tj_counter st)"
      by (intro inv_next [OF inv assms(2) refl V]) (auto simp: min_def)
    moreover have "lookAt u ?p st = lowerTo u (indexOfNode st ?p) st" using True assms(3) by (auto simp: lookAt_def)
    ultimately show ?thesis by (simp only: stateInv_def lowerTo_simps)
  next
    case False
    then have "?p \<notin> set (tj_open st)" using inv_sets [OF inv] by (auto simp: domIff)
    then have "tarjanInv K par (indexOfNode st) ((lowOf st)(u := lowOf st u)) (dom (map_of (tj_index st)))
        (map_of (tj_component st)) (tj_open st) ((u, i + 1) # rest) (tj_counter st)"
      by (intro inv_next [OF inv assms(2) refl V]) auto
    moreover have "lookAt u ?p st = st" using False assms(3) by (auto simp: lookAt_def)
    ultimately show ?thesis by (simp only: stateInv_def fun_upd_triv)
  qed
qed

lemma popComponent_spec:
  fixes ix :: "string \<Rightarrow> nat"
  assumes "sorted_wrt (\<lambda>x y. ix y < ix x) ws" "v \<in> set ws"
  shows "fst (popComponent v c ws cm) = filter (\<lambda>x. ix x < ix v) ws"
    and "map_of (snd (popComponent v c ws cm)) = (\<lambda>x. if x \<in> {x \<in> set ws. ix v \<le> ix x} then Some c else map_of cm x)"
  using assms
proof (induction ws arbitrary: cm)
  case (Cons w ws)
  {
    case 1
    show ?case
    proof (cases "w = v")
      case True
      then have "filter (\<lambda>x. ix x < ix v) ws = ws" using 1 by (intro filter_True) simp
      then show ?thesis using True by simp
    next
      case False
      then have v: "v \<in> set ws" "ix v < ix w" using 1 by auto
      then have "\<not> ix w < ix v" by simp
      then show ?thesis using Cons.IH(1) [of "AList.update w c cm"] v(1) 1 False by simp
    qed
  next
    case 2
    show ?case
    proof (cases "w = v")
      case True
      then have "\<not> ix v \<le> ix x" if "x \<in> set ws" for x using 2 that by auto
      then show ?thesis using True by (auto simp: update_conv' fun_eq_iff)
    next
      case False
      then have "v \<in> set ws" "ix v < ix w" using 2 by auto
      then show ?thesis using Cons.IH(2) [of "AList.update w c cm"] 2 False by (auto simp: update_conv' fun_eq_iff)
    qed
  }
qed simp_all

lemma stateInv_pop:
  assumes inv: "stateInv K par ((v, length (parentsAt par v)) # rest) st" and low: "lowOf st v = indexOfNode st v"
    and pop: "popComponent v (indexOfNode st v) (tj_open st) (tj_component st) = (opens, component)"
  shows "stateInv K par rest (st\<lparr>tj_open := opens, tj_component := component\<rparr>)"
proof -
  note inv' = inv [unfolded stateInv_def]
  have "sorted_wrt (\<lambda>x y. indexOfNode st y < indexOfNode st x) (tj_open st)" using inv_index [OF inv'] by blast
  note spec = popComponent_spec [OF this top_open(1) [OF inv'], of "indexOfNode st v" "tj_component st", unfolded pop]
  let ?st = "st\<lparr>tj_open := opens, tj_component := component\<rparr>"
  have "indexOfNode ?st = indexOfNode st" "lowOf ?st = lowOf st" by (auto simp: indexOfNode_def lowOf_def fun_eq_iff)
  then show ?thesis
    using inv_finish_pop [OF inv' low refl] spec by (simp add: stateInv_def)
qed

lemma stateInv_finish:
  assumes inv: "stateInv K par ((v, length (parentsAt par v)) # rest) st"
  shows "stateInv K par rest (finishNode v rest st)"
proof (cases rest)
  case Nil
  note inv' = inv [unfolded stateInv_def Nil]
  obtain y where y: "y \<in> set (tj_open st)" "indexOfNode st y = lowOf st v" using inv_low [OF inv'] by auto
  have "indexOfNode st v \<le> indexOfNode st y" using inv_up [OF inv'] y(1) by auto
  moreover have "lowOf st v \<le> indexOfNode st v" using inv_low [OF inv'] by auto
  ultimately have low: "lowOf st v = indexOfNode st v" using y(2) by simp
  obtain opens component where pop: "popComponent v (indexOfNode st v) (tj_open st) (tj_component st) = (opens, component)" by fastforce
  then show ?thesis using stateInv_pop [OF inv low pop] low Nil by (simp add: finishNode_def)
next
  case (Cons f fs)
  obtain u k where f: "f = (u, k)" by fastforce
  let ?st = "lowerTo u (lowOf st v) st"
  note inv' = inv [unfolded stateInv_def Cons f]
  have uv: "indexOfNode st u < indexOfNode st v" "u \<noteq> v" using rest_open [OF inv', of u] by auto
  have lows: "lowOf st u \<le> indexOfNode st u" "lowOf st v \<le> indexOfNode st v" using inv_low [OF inv'] by auto
  show ?thesis
  proof (cases "lowOf st v = indexOfNode st v")
    case True
    have same: "lowOf ?st = lowOf st" using lows(1) uv(1) True by (auto simp: fun_eq_iff min_def)
    have "stateInv K par ((v, length (parentsAt par v)) # rest) ?st" using inv same by (simp add: stateInv_def)
    moreover obtain opens component where pop: "popComponent v (indexOfNode ?st v) (tj_open ?st) (tj_component ?st) = (opens, component)"
      by fastforce
    ultimately have "stateInv K par rest (?st\<lparr>tj_open := opens, tj_component := component\<rparr>)"
      using stateInv_pop True same by simp
    then show ?thesis using pop True same Cons f by (simp add: finishNode_def)
  next
    case False
    then have "stateInv K par rest ?st"
      using inv_finish_keep [OF inv'] lows(2) Cons f by (simp add: stateInv_def)
    then show ?thesis using False uv(2) Cons f by (simp add: finishNode_def)
  qed
qed

lemma stateInv_walk:
  assumes "closedGraph K par" "stateInv K par calls st" "\<forall>(u, i) \<in> set calls. i \<le> length (parentsAt par u)"
  shows "stateInv K par [] (tarjanWalk par calls st) \<and> dom (map_of (tj_index st)) \<subseteq> dom (map_of (tj_index (tarjanWalk par calls st)))"
  using assms
proof (induction par calls st rule: tarjanWalk.induct)
  case (1 par st)
  then show ?case by simp
next
  case (2 par u i rest st)
  let ?p = "parentsAt par u ! i" and ?V = "\<lambda>st. dom (map_of (tj_index st))"
  have grow: "?V st \<subseteq> ?V (lookAt u ?p st)" by (auto simp: index_lookAt)
  show ?case
  proof (cases "i < length (parentsAt par u)")
    case False
    then have "i = length (parentsAt par u)" using 2(6) by simp
    then have "stateInv K par rest (finishNode u rest st)" using 2(5) stateInv_finish by simp
    then show ?thesis using 2(3) [OF False] 2(6) False 2(4) by simp
  next
    case True
    show ?thesis
    proof (cases "map_of (tj_index st) ?p = None")
      case new: True
      have "stateInv K par ((?p, 0) # (u, i + 1) # rest) (lookAt u ?p st)" by (rule stateInv_push [OF 2(5) True new 2(4)])
      moreover have "\<forall>(w, k) \<in> set ((?p, 0) # (u, i + 1) # rest). k \<le> length (parentsAt par w)" using 2(6) True by simp
      ultimately have ih: "stateInv K par [] (tarjanWalk par ((?p, 0) # (u, i + 1) # rest) (lookAt u ?p st)) \<and>
          ?V (lookAt u ?p st) \<subseteq> ?V (tarjanWalk par ((?p, 0) # (u, i + 1) # rest) (lookAt u ?p st))"
        by (rule 2(1) [OF True refl new 2(4)])
      have "tarjanWalk par ((u, i) # rest) st = tarjanWalk par ((?p, 0) # (u, i + 1) # rest) (lookAt u ?p st)"
        using True new by (simp add: Let_def)
      then show ?thesis using ih grow by (simp only:) blast
    next
      case False
      have "stateInv K par ((u, i + 1) # rest) (lookAt u ?p st)" by (rule stateInv_next [OF 2(5) True False])
      moreover have "\<forall>(w, k) \<in> set ((u, i + 1) # rest). k \<le> length (parentsAt par w)" using 2(6) True by simp
      ultimately have ih: "stateInv K par [] (tarjanWalk par ((u, i + 1) # rest) (lookAt u ?p st)) \<and>
          ?V (lookAt u ?p st) \<subseteq> ?V (tarjanWalk par ((u, i + 1) # rest) (lookAt u ?p st))"
        by (rule 2(2) [OF True refl False 2(4)])
      have "tarjanWalk par ((u, i) # rest) st = tarjanWalk par ((u, i + 1) # rest) (lookAt u ?p st)"
        by (subst tarjanWalk.simps) (simp only: True False if_True if_False Let_def not_False_eq_True)
      then show ?thesis using ih grow by (simp only:) blast
    qed
  qed
qed

lemma stateInv_start: "stateInv K par [] tarjanStart"
  by (simp add: stateInv_def tarjanInv_def tarjanStart_def)

lemma stateInv_visit_root:
  assumes "stateInv K par [] st" "map_of (tj_index st) r = None" "r \<in> K"
  shows "stateInv K par [(r, 0)] (visit r st)"
proof -
  note inv = assms(1) [unfolded stateInv_def]
  let ?V = "dom (map_of (tj_index st))" and ?cmp = "map_of (tj_component st)"
  have none: "tj_open st = []" using inv_up [OF inv] by (cases "tj_open st") auto
  then have "?V - dom ?cmp = {}" using inv_sets [OF inv] by simp
  then have V: "?V = dom ?cmp" using inv_sets [OF inv] by blast
  have fresh: "r \<notin> dom ?cmp" using assms(2) V domIff by metis
  have lt: "indexOfNode st x < tj_counter st" if "x \<in> dom ?cmp" for x using inv_index [OF inv] V that by blast
  have ix: "((indexOfNode st)(r := tj_counter st)) x = indexOfNode st x" if "x \<in> dom ?cmp" for x using that fresh by auto
  show ?thesis
    unfolding stateInv_def visit_simps V none tarjanInv_def grays_Cons
  proof (intro conjI)
    show "insert r (dom ?cmp) \<subseteq> K" using inv_sets [OF inv] assms(3) by blast
    show "inj_on ((indexOfNode st)(r := tj_counter st)) (insert r (dom ?cmp))"
    proof (rule inj_onI)
      fix x y
      assume x: "x \<in> insert r (dom ?cmp)" and y: "y \<in> insert r (dom ?cmp)"
        and eq: "((indexOfNode st)(r := tj_counter st)) x = ((indexOfNode st)(r := tj_counter st)) y"
      have "x = r \<longleftrightarrow> y = r" using x y eq lt [of x] lt [of y] by (metis fun_upd_apply insertE less_irrefl)
      moreover have "inj_on (indexOfNode st) (dom ?cmp)" using inv_index [OF inv] V by simp
      ultimately show "x = y" using x y eq by (cases "x = r") (auto dest: inj_onD)
    qed
    show "\<forall>x \<in> insert r (dom ?cmp). ((indexOfNode st)(r := tj_counter st)) x < tj_counter st + 1"
      using lt by (auto simp: less_Suc_eq)
    show "\<forall>x \<in> insert r (dom ?cmp) - {r}. set (parentsAt par x) \<subseteq> insert r (dom ?cmp)" using inv_closed [OF inv] by blast
    show "\<forall>x \<in> dom ?cmp. \<exists>q \<in> dom ?cmp. ?cmp x = Some (((indexOfNode st)(r := tj_counter st)) q)"
      using inv_rep [OF inv] ix by metis
  qed (use fresh inv_closed [OF inv] inv_scc [OF inv] in auto)
qed

lemma stateInv_root:
  assumes "closedGraph K par" "stateInv K par [] st" "r \<in> K"
  shows "stateInv K par [] (tarjanRoot par r st) \<and> insert r (dom (map_of (tj_index st))) \<subseteq> dom (map_of (tj_index (tarjanRoot par r st)))"
proof (cases "map_of (tj_index st) r = None")
  case True
  then show ?thesis
    using stateInv_walk [OF assms(1) stateInv_visit_root [OF assms(2) True assms(3)]] by (simp add: tarjanRoot_def)
next
  case False
  then show ?thesis using assms(2) by (auto simp: tarjanRoot_def)
qed

lemma stateInv_roots:
  assumes "closedGraph K par"
  shows "stateInv K par [] st \<Longrightarrow> set rs \<subseteq> K \<Longrightarrow> stateInv K par [] (fold (tarjanRoot par) rs st) \<and>
    set rs \<union> dom (map_of (tj_index st)) \<subseteq> dom (map_of (tj_index (fold (tarjanRoot par) rs st)))"
proof (induction rs arbitrary: st)
  case (Cons r rs)
  have r: "stateInv K par [] (tarjanRoot par r st)"
    "insert r (dom (map_of (tj_index st))) \<subseteq> dom (map_of (tj_index (tarjanRoot par r st)))"
    using stateInv_root [OF assms Cons.prems(1)] Cons.prems(2) by simp_all
  then show ?case using Cons.IH [OF r(1)] Cons.prems(2) by (simp; blast)
qed simp

lemma components_scc:
  assumes "\<forall>u. set (parentsAt par u) \<subseteq> set nodes" "x \<in> set nodes" "y \<in> set nodes"
  shows "map_of (components nodes par) x \<noteq> None \<and>
    (map_of (components nodes par) x = map_of (components nodes par) y \<longleftrightarrow> (x, y) \<in> (edges par)\<^sup>* \<and> (y, x) \<in> (edges par)\<^sup>*)"
proof -
  let ?st = "fold (tarjanRoot par) nodes tarjanStart"
  have "closedGraph (set nodes) par" using assms(1) by (simp add: closedGraph_def)
  from stateInv_roots [OF this stateInv_start subset_refl]
  have inv: "stateInv (set nodes) par [] ?st" and sub: "set nodes \<subseteq> dom (map_of (tj_index ?st))" by auto
  note inv' = inv [unfolded stateInv_def]
  have "tj_open ?st = []" using inv_up [OF inv'] by (cases "tj_open ?st") auto
  then have "dom (map_of (tj_index ?st)) - dom (map_of (tj_component ?st)) = {}" using inv_sets [OF inv'] by simp
  then have dom: "set nodes \<subseteq> dom (map_of (tj_component ?st))" using sub by blast
  then have "x \<in> dom (map_of (tj_component ?st))" "y \<in> dom (map_of (tj_component ?st))" using assms(2,3) by blast+
  then show ?thesis using inv_scc [OF inv'] unfolding components_def by (simp add: domIff)
qed

text \<open>
  C3. Two nodes are given one component exactly when each reaches the other, whatever the order of the nodes and of
  their parents.
\<close>

theorem components_are_the_cycles:
  assumes "\<forall>u. set (parentsAt par u) \<subseteq> set nodes" "x \<in> set nodes" "y \<in> set nodes"
  shows "map_of (components nodes par) x \<noteq> None \<and>
    (map_of (components nodes par) x = map_of (components nodes par) y \<longleftrightarrow> (x, y) \<in> (edges par)\<^sup>* \<and> (y, x) \<in> (edges par)\<^sup>*)"
  using assms by (rule components_scc)

theorem components_are_the_cycles_witness:
  "map_of (components [''a'', ''b'', ''c''] [(''a'', [''b'']), (''b'', [''a'', ''c'']), (''c'', [])]) ''a'' =
   map_of (components [''a'', ''b'', ''c''] [(''a'', [''b'']), (''b'', [''a'', ''c'']), (''c'', [])]) ''b'' \<and>
   (''c'', ''b'') \<notin> (edges [(''a'', [''b'']), (''b'', [''a'', ''c'']), (''c'', [])])\<^sup>*"
proof -
  let ?par = "[(''a'', [''b'']), (''b'', [''a'', ''c'']), (''c'', [])]" and ?ns = "[''a'', ''b'', ''c'']"
  have closed: "\<forall>u. set (parentsAt ?par u) \<subseteq> set ?ns" by (auto simp: parentsAt_def)
  have e: "(''a'', ''b'') \<in> edges ?par" "(''b'', ''a'') \<in> edges ?par" "(''b'', ''c'') \<in> edges ?par"
    by (auto simp: edges_def parentsAt_def)
  have "map_of (components ?ns ?par) ''b'' \<noteq> map_of (components ?ns ?par) ''c''" by code_simp
  then have "\<not> ((''b'', ''c'') \<in> (edges ?par)\<^sup>* \<and> (''c'', ''b'') \<in> (edges ?par)\<^sup>*)"
    using components_are_the_cycles [OF closed, of "''b''" "''c''"] by simp
  then show ?thesis
    using components_are_the_cycles [OF closed, of "''a''" "''b''"] e [THEN r_into_rtrancl] by (simp only: list.set insert_iff simp_thms)
qed

end
