(* ===== verification/Placement_Walk.thy ===== *)
theory Placement_Walk
  imports Placement_Cycles
begin

text \<open>
  Placing every entity of a graph: \<open>placeAll\<close> of \<^verbatim>\<open>frontend/src/lib/placement/placement.ts\<close>. The parent maps of the
  two searches are those it builds; where it would iterate over \<open>null\<close> the model gives None, which is shown not to happen.
\<close>

definition ownParents :: "string list \<Rightarrow> (string \<Rightarrow> string list) \<Rightarrow> string \<Rightarrow> string list" where
  "ownParents nodes parentsOf u = uniq (filter (\<lambda>p. p \<noteq> u \<and> p \<in> set nodes) (parentsOf u))"

definition contextsOf :: "(string \<Rightarrow> placement) \<Rightarrow> string list \<Rightarrow> parent_context list" where
  "contextsOf placed ps = concat (map (\<lambda>p. case parentContextOf p (placed p) of None \<Rightarrow> [] | Some c \<Rightarrow> [c]) ps)"

definition placeInOrder ::
  "placement_spec \<Rightarrow> (string \<Rightarrow> facts option) \<Rightarrow> parent_map \<Rightarrow> string list \<Rightarrow> string list \<Rightarrow> (string \<times> placement) list" where
  "placeInOrder spec factsOf par created order =
     foldl (\<lambda>placed u. AList.update u
       (resolvePlacement spec u factsOf (contextsOf (\<lambda>p. the (map_of placed p)) (parentsAt par u)) (u \<in> set created)) placed) [] order"

definition parentMap :: "string list \<Rightarrow> (string \<Rightarrow> string list) \<Rightarrow> parent_map" where
  "parentMap nodes parentsOf = map (\<lambda>u. (u, ownParents nodes parentsOf u)) nodes"

definition withoutCycles :: "(string \<times> nat) list \<Rightarrow> parent_map \<Rightarrow> parent_map" where
  "withoutCycles component par = map (\<lambda>(u, own). (u, filter (\<lambda>p. map_of component p \<noteq> map_of component u) own)) par"

definition placeAll ::
  "placement_spec \<Rightarrow> string list \<Rightarrow> (string \<Rightarrow> facts option) \<Rightarrow> (string \<Rightarrow> string list) \<Rightarrow> string list \<Rightarrow> (string \<times> placement) list option" where
  "placeAll spec urns factsOf parentsOf created =
     (let nodes = uniq urns; par = parentMap nodes parentsOf
      in case parentsFirst nodes par of
           None \<Rightarrow> None
         | Some (Some order) \<Rightarrow> Some (placeInOrder spec factsOf par created order)
         | Some None \<Rightarrow>
           (let par' = withoutCycles (components nodes par) par
            in case parentsFirst nodes par' of
                 Some (Some order) \<Rightarrow> Some (placeInOrder spec factsOf par' created order)
               | _ \<Rightarrow> None))"

section \<open>Walking a graph without cycles\<close>

text \<open>A result for every node, each made from the results of its parents only, is determined by the graph.\<close>

locale parent_walk =
  fixes nodes :: "'u set" and par :: "'u \<Rightarrow> 'u set" and make :: "'u \<Rightarrow> ('u \<Rightarrow> 'r) \<Rightarrow> 'r"
  assumes finite_nodes: "finite nodes"
    and closed: "u \<in> nodes \<Longrightarrow> par u \<subseteq> nodes"
    and no_cycle: "acyclic {(u, p). u \<in> nodes \<and> p \<in> par u}"
    and make_local: "(\<And>p. p \<in> par u \<Longrightarrow> f p = g p) \<Longrightarrow> make u f = make u g"
begin

definition solves :: "('u \<Rightarrow> 'r) \<Rightarrow> bool" where
  "solves f \<longleftrightarrow> (\<forall>u \<in> nodes. f u = make u f)"

lemma parents_wf: "wf ({(u, p). u \<in> nodes \<and> p \<in> par u}\<inverse>)"
proof -
  have "{(u, p). u \<in> nodes \<and> p \<in> par u} \<subseteq> nodes \<times> nodes" using closed by blast
  then have "finite {(u, p). u \<in> nodes \<and> p \<in> par u}" using finite_nodes by (simp add: finite_subset)
  then show ?thesis using no_cycle by (rule finite_acyclic_wf_converse)
qed

lemma unique_solution:
  assumes "solves f" "solves g" "u \<in> nodes"
  shows "f u = g u"
  using parents_wf assms(3)
proof (induction u rule: wf_induct_rule)
  case (less u)
  then have "f p = g p" if "p \<in> par u" for p using that closed by blast
  then have "make u f = make u g" by (rule make_local)
  then show ?case using assms(1,2) less.prems by (simp add: solves_def)
qed

end

section \<open>The edges that count\<close>

definition graphEdges :: "string set \<Rightarrow> (string \<Rightarrow> string set) \<Rightarrow> (string \<times> string) set" where
  "graphEdges K parents = {(u, p). u \<in> K \<and> p \<in> K \<and> p \<noteq> u \<and> p \<in> parents u}"

text \<open>A parent counts unless it is on a cycle with its child.\<close>

definition liveParents :: "string set \<Rightarrow> (string \<Rightarrow> string set) \<Rightarrow> string \<Rightarrow> string set" where
  "liveParents K parents u = {p. (u, p) \<in> graphEdges K parents \<and> (p, u) \<notin> (graphEdges K parents)\<^sup>*}"

definition makePlacement ::
  "placement_spec \<Rightarrow> (string \<Rightarrow> facts option) \<Rightarrow> string set \<Rightarrow> (string \<Rightarrow> string set) \<Rightarrow> string set \<Rightarrow> string \<Rightarrow> (string \<Rightarrow> placement) \<Rightarrow> placement" where
  "makePlacement spec factsOf K parents created u f =
     resolvePlacement spec u factsOf (contextsOf f (sorted_list_of_set (liveParents K parents u))) (u \<in> created)"

lemma live_acyclic: "acyclic {(u, p). u \<in> K \<and> p \<in> liveParents K parents u}"
proof (rule acyclicI, intro allI notI)
  let ?L = "{(u, p). u \<in> K \<and> p \<in> liveParents K parents u}"
  fix x
  assume "(x, x) \<in> ?L\<^sup>+"
  then obtain p where p: "(x, p) \<in> ?L" "(p, x) \<in> ?L\<^sup>*" by (auto dest: tranclD)
  have "?L \<subseteq> graphEdges K parents" by (auto simp: liveParents_def)
  then have "(p, x) \<in> (graphEdges K parents)\<^sup>*" using p(2) rtrancl_mono by blast
  then show False using p(1) by (simp add: liveParents_def)
qed

lemma live_finite: "finite K \<Longrightarrow> finite (liveParents K parents u)"
  by (rule finite_subset [of _ K]) (auto simp: liveParents_def graphEdges_def)

lemma contextsOf_cong: "(\<And>p. p \<in> set ps \<Longrightarrow> f p = g p) \<Longrightarrow> contextsOf f ps = contextsOf g ps"
  by (auto simp: contextsOf_def intro!: arg_cong [where f = concat])

interpretation placing: parent_walk "set urns" "liveParents (set urns) parents" "makePlacement spec factsOf (set urns) parents created"
  for urns parents spec factsOf created
proof
  show "finite (set urns)" by simp
  show "liveParents (set urns) parents u \<subseteq> set urns" for u by (auto simp: liveParents_def graphEdges_def)
  show "acyclic {(u, p). u \<in> set urns \<and> p \<in> liveParents (set urns) parents u}" by (rule live_acyclic)
  show "makePlacement spec factsOf (set urns) parents created u f = makePlacement spec factsOf (set urns) parents created u g"
    if "\<And>p. p \<in> liveParents (set urns) parents u \<Longrightarrow> f p = g p" for u f g
    unfolding makePlacement_def by (subst contextsOf_cong [of _ f g]) (simp_all add: that live_finite)
qed

section \<open>The searches find an order of the edges that count\<close>

lemma parentsAt_map: "parentsAt (map (\<lambda>u. (u, f u)) nodes) u = (if u \<in> set nodes then f u else [])"
  by (auto simp: parentsAt_def map_of_map_restrict restrict_map_def)

lemma parentsAt_parentMap: "parentsAt (parentMap nodes parentsOf) u = (if u \<in> set nodes then ownParents nodes parentsOf u else [])"
  by (simp add: parentMap_def parentsAt_map)

lemma edges_parentMap: "edges (parentMap nodes parentsOf) = graphEdges (set nodes) (\<lambda>u. set (parentsOf u))"
  by (auto simp: edges_def parentsAt_parentMap ownParents_def graphEdges_def)

lemma withoutCycles_parentMap:
  "withoutCycles component (parentMap nodes parentsOf) =
     map (\<lambda>u. (u, filter (\<lambda>p. map_of component p \<noteq> map_of component u) (ownParents nodes parentsOf u))) nodes"
  by (simp add: withoutCycles_def parentMap_def)

text \<open>The parent map of the final walk: with the parents that count, each once.\<close>

definition livePar :: "string list \<Rightarrow> (string \<Rightarrow> string list) \<Rightarrow> parent_map \<Rightarrow> bool" where
  "livePar nodes parentsOf par \<longleftrightarrow> (\<forall>u. distinct (parentsAt par u) \<and>
     set (parentsAt par u) = liveParents (set nodes) (\<lambda>u. set (parentsOf u)) u)"

lemma livePar_acyclic:
  assumes "\<nexists>x. (x, x) \<in> (edges (parentMap nodes parentsOf))\<^sup>+"
  shows "livePar nodes parentsOf (parentMap nodes parentsOf)"
  unfolding livePar_def
proof (intro allI conjI)
  let ?E = "graphEdges (set nodes) (\<lambda>u. set (parentsOf u))"
  fix u
  show "distinct (parentsAt (parentMap nodes parentsOf) u)" by (simp add: parentsAt_parentMap ownParents_def)
  have "(p, u) \<notin> ?E\<^sup>*" if "(u, p) \<in> ?E" for p
    using assms that unfolding edges_parentMap by (meson rtrancl_into_trancl2)
  moreover have "set (parentsAt (parentMap nodes parentsOf) u) = {p. (u, p) \<in> ?E}"
    unfolding edges_parentMap [symmetric] by (simp add: edges_def)
  ultimately show "set (parentsAt (parentMap nodes parentsOf) u) = liveParents (set nodes) (\<lambda>u. set (parentsOf u)) u"
    by (auto simp: liveParents_def)
qed

lemma livePar_withoutCycles:
  "livePar nodes parentsOf (withoutCycles (components nodes (parentMap nodes parentsOf)) (parentMap nodes parentsOf))"
  unfolding livePar_def
proof (intro allI conjI)
  let ?E = "graphEdges (set nodes) (\<lambda>u. set (parentsOf u))" and ?par = "parentMap nodes parentsOf"
  let ?c = "map_of (components nodes ?par)"
  fix u
  show "distinct (parentsAt (withoutCycles (components nodes ?par) ?par) u)"
    by (simp add: withoutCycles_parentMap parentsAt_map ownParents_def)
  have closed: "\<forall>u. set (parentsAt ?par u) \<subseteq> set nodes" by (auto simp: parentsAt_parentMap ownParents_def)
  have scc: "?c p \<noteq> ?c u \<longleftrightarrow> (p, u) \<notin> ?E\<^sup>*" if "(u, p) \<in> ?E" for p
  proof -
    have "u \<in> set nodes" "p \<in> set nodes" using that by (auto simp: graphEdges_def)
    then show ?thesis
      using components_scc [OF closed, of p u] that unfolding edges_parentMap by blast
  qed
  have "set (parentsAt (withoutCycles (components nodes ?par) ?par) u) = {p. (u, p) \<in> ?E \<and> ?c p \<noteq> ?c u}"
    by (auto simp: withoutCycles_parentMap parentsAt_map ownParents_def graphEdges_def)
  then show "set (parentsAt (withoutCycles (components nodes ?par) ?par) u) = liveParents (set nodes) (\<lambda>u. set (parentsOf u)) u"
    using scc by (auto simp: liveParents_def)
qed

lemma livePar_order:
  assumes "livePar nodes parentsOf par"
  shows "\<exists>order. parentsFirst nodes par = Some (Some order) \<and> topological par order \<and> set order = set nodes"
proof -
  have e: "edges par = {(u, p). u \<in> set nodes \<and> p \<in> liveParents (set nodes) (\<lambda>u. set (parentsOf u)) u}"
    using assms by (auto simp: edges_def livePar_def liveParents_def graphEdges_def)
  have "closedGraph (set nodes) par"
    using assms by (auto simp: closedGraph_def livePar_def liveParents_def graphEdges_def)
  moreover have "\<nexists>x. (x, x) \<in> (edges par)\<^sup>+" using live_acyclic unfolding e acyclic_def by blast
  ultimately show ?thesis using parentsFirst_returns by blast
qed

section \<open>Properties\<close>

lemma topological_init:
  assumes "topological par (xs @ [u])"
  shows "topological par xs" "set (parentsAt par u) \<subseteq> set xs" "u \<notin> set xs"
  using assms by (auto simp: topological_def)

lemma placeInOrder_solves:
  assumes "topological par order"
  shows "dom (map_of (placeInOrder spec factsOf par created order)) = set order \<and>
    (\<forall>u \<in> set order. map_of (placeInOrder spec factsOf par created order) u = Some (resolvePlacement spec u factsOf
       (contextsOf (\<lambda>p. the (map_of (placeInOrder spec factsOf par created order) p)) (parentsAt par u)) (u \<in> set created)))"
  using assms
proof (induction order rule: rev_induct)
  case Nil
  then show ?case by (simp add: placeInOrder_def)
next
  case (snoc u xs)
  note topo = topological_init [OF snoc.prems]
  let ?old = "placeInOrder spec factsOf par created xs" and ?new = "placeInOrder spec factsOf par created (xs @ [u])"
  let ?look = "\<lambda>m p. the (map_of m p)"
  have new: "map_of ?new = (map_of ?old)(u \<mapsto> resolvePlacement spec u factsOf (contextsOf (?look ?old) (parentsAt par u)) (u \<in> set created))"
    by (simp add: placeInOrder_def update_conv')
  have ctx: "contextsOf (?look ?new) (parentsAt par v) = contextsOf (?look ?old) (parentsAt par v)" if "u \<notin> set (parentsAt par v)" for v
    by (rule contextsOf_cong) (use that new in auto)
  have self: "u \<notin> set (parentsAt par u)" using topo by blast
  have later: "u \<notin> set (parentsAt par v)" if v: "v \<in> set xs" for v
  proof -
    obtain ys zs where "xs = ys @ v # zs" using split_list [OF v] by blast
    then have "set (parentsAt par v) \<subseteq> set ys" "set ys \<subseteq> set xs" using topo(1) by (auto simp: topological_def)
    then show ?thesis using topo(3) by blast
  qed
  note ih = snoc.IH [OF topo(1)]
  show ?case
  proof (intro conjI ballI)
    show "dom (map_of ?new) = set (xs @ [u])" using ih by (simp add: new)
    fix v
    assume v: "v \<in> set (xs @ [u])"
    show "map_of ?new v = Some (resolvePlacement spec v factsOf (contextsOf (?look ?new) (parentsAt par v)) (v \<in> set created))"
    proof (cases "v = u")
      case True
      have "map_of ?new u = Some (resolvePlacement spec u factsOf (contextsOf (?look ?old) (parentsAt par u)) (u \<in> set created))"
        unfolding new by simp
      then show ?thesis unfolding True ctx [OF self] .
    next
      case False
      then have "v \<in> set xs" using v by simp
      then have "map_of ?old v = Some (resolvePlacement spec v factsOf (contextsOf (?look ?old) (parentsAt par v)) (v \<in> set created))"
        using ih by blast
      moreover have "map_of ?new v = map_of ?old v" unfolding new using False by simp
      ultimately show ?thesis unfolding ctx [OF later [OF \<open>v \<in> set xs\<close>]] by simp
    qed
  qed
qed

lemma contextsOf_set: "set (contextsOf f ps) = {c. \<exists>p \<in> set ps. parentContextOf p (f p) = Some c}"
  by (force simp: contextsOf_def split: option.splits)

lemma contextsOf_inj: "inj_on pc_urn (set (contextsOf f ps))"
proof -
  have "c = the (parentContextOf (pc_urn c) (f (pc_urn c)))" if "c \<in> set (contextsOf f ps)" for c
    using that by (auto simp: contextsOf_set parentContextOf_def split: option.splits if_splits)
  then show ?thesis by (metis inj_onI)
qed

lemma placeAll_solution:
  "\<exists>placed. placeAll spec urns factsOf parentsOf created = Some placed \<and> dom (map_of placed) = set urns \<and>
     (\<forall>u \<in> set urns. the (map_of placed u) =
        makePlacement spec factsOf (set urns) (\<lambda>u. set (parentsOf u)) (set created) u (\<lambda>p. the (map_of placed p)))"
proof -
  let ?ns = "uniq urns"
  let ?par = "parentMap ?ns parentsOf"
  have "\<exists>par order. livePar ?ns parentsOf par \<and> topological par order \<and> set order = set urns \<and>
      placeAll spec urns factsOf parentsOf created = Some (placeInOrder spec factsOf par created order)"
  proof (cases "\<exists>x. (x, x) \<in> (edges ?par)\<^sup>+")
    case False
    then have l: "livePar ?ns parentsOf ?par" by (rule livePar_acyclic)
    obtain order where "parentsFirst ?ns ?par = Some (Some order)" "topological ?par order" "set order = set urns"
      using livePar_order [OF l] by auto
    then show ?thesis using l by (intro exI [of _ ?par] exI [of _ order]) (simp add: placeAll_def)
  next
    case True
    let ?par' = "withoutCycles (components ?ns ?par) ?par"
    have l: "livePar ?ns parentsOf ?par'" by (rule livePar_withoutCycles)
    have closed: "closedGraph (set ?ns) ?par" by (auto simp: closedGraph_def parentsAt_parentMap ownParents_def)
    have "\<not> topological ?par order" if o: "set order = set ?ns" for order
    proof
      assume topo: "topological ?par order"
      obtain x where x: "(x, x) \<in> (edges ?par)\<^sup>+" using True by blast
      then have "x \<in> set ?ns" by (auto simp: edges_parentMap graphEdges_def dest: tranclD)
      then show False using topological_acyclic [OF topo] x o by blast
    qed
    then have none: "parentsFirst ?ns ?par = Some None" using parentsFirst_returns [OF closed] by blast
    obtain order where "parentsFirst ?ns ?par' = Some (Some order)" "topological ?par' order" "set order = set urns"
      using livePar_order [OF l] by auto
    then show ?thesis using l none by (intro exI [of _ ?par'] exI [of _ order]) (simp add: placeAll_def Let_def)
  qed
  then obtain par order where l: "livePar ?ns parentsOf par" and topo: "topological par order" "set order = set urns"
    and p: "placeAll spec urns factsOf parentsOf created = Some (placeInOrder spec factsOf par created order)" by blast
  let ?placed = "placeInOrder spec factsOf par created order"
  have "the (map_of ?placed u) = makePlacement spec factsOf (set urns) (\<lambda>u. set (parentsOf u)) (set created) u (\<lambda>p. the (map_of ?placed p))"
    if "u \<in> set urns" for u
  proof -
    have "set (parentsAt par u) = set (sorted_list_of_set (liveParents (set urns) (\<lambda>u. set (parentsOf u)) u))"
      using l by (simp add: livePar_def live_finite)
    then have "set (contextsOf (\<lambda>p. the (map_of ?placed p)) (parentsAt par u)) =
        set (contextsOf (\<lambda>p. the (map_of ?placed p)) (sorted_list_of_set (liveParents (set urns) (\<lambda>u. set (parentsOf u)) u)))"
      by (simp only: contextsOf_set)
    from resolve_set [OF this contextsOf_inj] show ?thesis
      using placeInOrder_solves [OF topo(1), of spec factsOf created] topo(2) that by (simp add: makePlacement_def)
  qed
  then show ?thesis using p placeInOrder_solves [OF topo(1), of spec factsOf created] topo(2) by blast
qed

text \<open>
  C6. Placing a whole graph always succeeds and places exactly its entities, each from what the parents that count offer
  it: the parents in the graph, other than itself, that are not on a cycle with it.
\<close>

theorem every_entity_is_placed:
  "\<exists>placed. placeAll spec urns factsOf parentsOf created = Some placed \<and> dom (map_of placed) = set urns \<and>
     (\<forall>u \<in> set urns. the (map_of placed u) =
        makePlacement spec factsOf (set urns) (\<lambda>u. set (parentsOf u)) (set created) u (\<lambda>p. the (map_of placed p)))"
  by (rule placeAll_solution)

theorem every_entity_is_placed_witness:
  "\<exists>placed. placeAll sampleSpec [''a'', ''b''] (\<lambda>u. None) (\<lambda>u. if u = ''a'' then [''b''] else [''a'']) [] = Some placed \<and>
     map_of placed ''a'' \<noteq> None"
proof -
  obtain placed where "placeAll sampleSpec [''a'', ''b''] (\<lambda>u. None) (\<lambda>u. if u = ''a'' then [''b''] else [''a'']) [] = Some placed"
    "dom (map_of placed) = set [''a'', ''b'']"
    using every_entity_is_placed [of sampleSpec "[''a'', ''b'']" "\<lambda>u. None" "\<lambda>u. if u = ''a'' then [''b''] else [''a'']" "[]"] by blast
  moreover then have "''a'' \<in> dom (map_of placed)" by simp
  ultimately show ?thesis by (auto simp: domIff)
qed

text \<open>
  C25. The placements depend on the graph only: listing the entities, their parents or the created ones in another order,
  or repeatedly, places every entity the same.
\<close>

theorem placements_ignore_input_order:
  assumes "set urns = set urns'" "\<forall>u. set (parentsOf u) = set (parentsOf' u)" "set created = set created'"
  shows "map_option map_of (placeAll spec urns factsOf parentsOf created) =
    map_option map_of (placeAll spec urns' factsOf parentsOf' created')"
proof -
  have par: "(\<lambda>u. set (parentsOf' u)) = (\<lambda>u. set (parentsOf u))" using assms(2) by (auto simp: fun_eq_iff)
  obtain placed where p: "placeAll spec urns factsOf parentsOf created = Some placed" "dom (map_of placed) = set urns"
    "\<forall>u \<in> set urns. the (map_of placed u) =
        makePlacement spec factsOf (set urns) (\<lambda>u. set (parentsOf u)) (set created) u (\<lambda>p. the (map_of placed p))"
    using placeAll_solution by metis
  obtain placed' where p': "placeAll spec urns' factsOf parentsOf' created' = Some placed'" "dom (map_of placed') = set urns"
    "\<forall>u \<in> set urns. the (map_of placed' u) =
        makePlacement spec factsOf (set urns) (\<lambda>u. set (parentsOf u)) (set created) u (\<lambda>p. the (map_of placed' p))"
    using placeAll_solution [of spec urns' factsOf parentsOf' created'] unfolding par assms(1,3) [symmetric] by metis
  have "the (map_of placed u) = the (map_of placed' u)" if "u \<in> set urns" for u
    using placing.unique_solution [OF _ _ that, of spec factsOf "\<lambda>u. set (parentsOf u)" "set created"] p(3) p'(3)
    unfolding placing.solves_def by metis
  then have "map_of placed u = map_of placed' u" for u
    using p(2) p'(2) by (metis domIff option.expand)
  then have "map_of placed = map_of placed'" by (rule ext)
  then show ?thesis using p(1) p'(1) by simp
qed

theorem placements_ignore_input_order_witness:
  "map_option map_of (placeAll sampleSpec [''a'', ''b''] (\<lambda>u. Some (sampleFacts ''Table'')) (\<lambda>u. [''b'', ''a'']) []) =
   map_option map_of (placeAll sampleSpec [''b'', ''a'', ''b''] (\<lambda>u. Some (sampleFacts ''Table'')) (\<lambda>u. [''a'', ''b'']) [])"
  by (rule placements_ignore_input_order) auto

end
