(* ===== verification/Bounded_Queue.thy ===== *)
theory Bounded_Queue
  imports Prelude
begin

text \<open>
  The bounded request queue: class \<open>BoundedQueue\<close> of \<^verbatim>\<open>frontend/src/lib/concurrency.ts\<close>.

  An entry object is shared between the pending list and the entry map, and its flags are written
  through either, so the entries live in a store under the number of their submission, which also stands for the promise. A task
  runs outside the queue: it is in \<open>bq_running\<close> from its start until it settles (\<open>settle\<close> is what the
  queue does then). \<open>bq_settled\<close> and \<open>bq_started\<close> record outcomes and starts for the properties and are not
  read. A task is taken not to call back into the queue before its first await.
\<close>

datatype outcome = Resolved | Rejected

record queue_entry =
  qe_key :: string
  qe_started :: bool
  qe_aborted :: bool

record queue =
  bq_limit :: nat
  bq_active :: nat
  bq_pending :: "nat list"
  bq_entries :: "(string \<times> nat) list"
  bq_inflight :: "(string \<times> nat) list"
  bq_store :: "nat \<Rightarrow> queue_entry"
  bq_next :: nat
  bq_running :: "nat list"
  bq_settled :: "(nat \<times> outcome) list"
  bq_started :: "nat list"

definition newQueue :: "nat \<Rightarrow> queue" where
  "newQueue limit = \<lparr>bq_limit = max 1 limit, bq_active = 0, bq_pending = [], bq_entries = [], bq_inflight = [],
     bq_store = (\<lambda>_. \<lparr>qe_key = [], qe_started = False, qe_aborted = False\<rparr>), bq_next = 0, bq_running = [], bq_settled = [], bq_started = []\<rparr>"

definition keyOfEntry :: "queue \<Rightarrow> nat \<Rightarrow> string" where
  "keyOfEntry q n = qe_key (bq_store q n)"

definition start :: "nat \<Rightarrow> queue \<Rightarrow> queue" where
  "start n q = q\<lparr>bq_store := (bq_store q)(n := (bq_store q n)\<lparr>qe_started := True\<rparr>),
     bq_running := bq_running q @ [n], bq_started := bq_started q @ [n]\<rparr>"

function drain :: "queue \<Rightarrow> queue" where
  "drain q =
     (case bq_pending q of
        [] \<Rightarrow> q
      | n # rest \<Rightarrow>
          if bq_active q < bq_limit q then drain (start n (q\<lparr>bq_pending := rest, bq_active := bq_active q + 1\<rparr>)) else q)"
  by pat_completeness auto

termination drain
  by (relation "measure (\<lambda>q. length (bq_pending q))") (auto simp: start_def)

declare drain.simps [simp del]

definition submit :: "string \<Rightarrow> queue \<Rightarrow> nat \<times> queue" where
  "submit key q =
     (case map_of (bq_inflight q) key of
        Some promise \<Rightarrow> (promise, q)
      | None \<Rightarrow>
          (let n = bq_next q;
               q1 = q\<lparr>bq_next := n + 1, bq_store := (bq_store q)(n := \<lparr>qe_key = key, qe_started = False, qe_aborted = False\<rparr>),
                      bq_pending := bq_pending q @ [n], bq_entries := AList.update key n (bq_entries q)\<rparr>;
               q2 = drain q1
           in (n, q2\<lparr>bq_inflight := AList.update key n (bq_inflight q2)\<rparr>)))"

text \<open>The end of a running task: its promise settles, its slot and key are free again.\<close>

definition settle :: "nat \<Rightarrow> outcome \<Rightarrow> queue \<Rightarrow> queue" where
  "settle n out q =
     (let key = keyOfEntry q n
      in drain (q\<lparr>bq_settled := bq_settled q @ [(n, out)],
                  bq_entries := AList.delete key (bq_entries q), bq_inflight := AList.delete key (bq_inflight q),
                  bq_active := bq_active q - 1, bq_running := removeAll n (bq_running q)\<rparr>))"

definition abandonPending :: "nat \<Rightarrow> queue \<Rightarrow> queue" where
  "abandonPending n q =
     (let key = keyOfEntry q n
      in q\<lparr>bq_entries := AList.delete key (bq_entries q), bq_inflight := AList.delete key (bq_inflight q),
           bq_settled := bq_settled q @ [(n, Resolved)]\<rparr>)"

definition cancel :: "string \<Rightarrow> queue \<Rightarrow> queue" where
  "cancel key q =
     (case map_of (bq_entries q) key of
        None \<Rightarrow> q
      | Some n \<Rightarrow>
          (let q1 = q\<lparr>bq_store := (bq_store q)(n := (bq_store q n)\<lparr>qe_aborted := True\<rparr>)\<rparr>
           in if \<not> qe_started (bq_store q1 n)
              then abandonPending n (q1\<lparr>bq_pending := remove1 n (bq_pending q1)\<rparr>)
              else q1))"

definition cancelAll :: "queue \<Rightarrow> queue" where
  "cancelAll q = fold cancel (map fst (bq_entries q)) q"

definition queueSize :: "queue \<Rightarrow> nat" where
  "queueSize q = bq_active q + length (bq_pending q)"

section \<open>The invariant\<close>

text \<open>What may happen to a queue: submissions, cancellations, and running tasks settling in any order.\<close>

inductive queue_step :: "queue \<Rightarrow> queue \<Rightarrow> bool" where
  submit: "queue_step q (snd (submit key q))"
| cancel: "queue_step q (cancel key q)"
| cancelAll: "queue_step q (cancelAll q)"
| settle: "n \<in> set (bq_running q) \<Longrightarrow> queue_step q (settle n out q)"

definition waiting :: "queue \<Rightarrow> nat list" where
  "waiting q = bq_running q @ bq_pending q"

text \<open>The slots are counted and capped; the pending entries come later than all that started; the entry map holds exactly
  the running and the pending ones, one per key; every other submission has settled.\<close>

definition slotsOk :: "queue \<Rightarrow> bool" where
  "slotsOk q \<longleftrightarrow> bq_active q = length (bq_running q) \<and> bq_active q \<le> bq_limit q \<and> 0 < bq_limit q"

definition orderOk :: "queue \<Rightarrow> bool" where
  "orderOk q \<longleftrightarrow> sorted_wrt (<) (bq_started q @ bq_pending q) \<and> set (bq_running q) \<subseteq> set (bq_started q) \<and>
     distinct (bq_running q) \<and> (\<forall>n \<in> set (bq_started q @ bq_pending q). n < bq_next q)"

definition flagsOk :: "queue \<Rightarrow> bool" where
  "flagsOk q \<longleftrightarrow> (\<forall>n \<in> set (bq_running q). qe_started (bq_store q n)) \<and> (\<forall>n \<in> set (bq_pending q). \<not> qe_started (bq_store q n))"

definition mapOk :: "queue \<Rightarrow> bool" where
  "mapOk q \<longleftrightarrow> (\<forall>k n. map_of (bq_entries q) k = Some n \<longleftrightarrow> n \<in> set (waiting q) \<and> keyOfEntry q n = k)"

definition settledOk :: "queue \<Rightarrow> bool" where
  "settledOk q \<longleftrightarrow> (\<forall>n < bq_next q. n \<in> set (waiting q) \<or> n \<in> fst ` set (bq_settled q))"

definition entriesOk :: "queue \<Rightarrow> bool" where
  "entriesOk q \<longleftrightarrow> slotsOk q \<and> orderOk q \<and> flagsOk q \<and> mapOk q \<and> settledOk q"

definition queueInv :: "queue \<Rightarrow> bool" where
  "queueInv q \<longleftrightarrow> entriesOk q \<and> map_of (bq_inflight q) = map_of (bq_entries q) \<and>
     (bq_pending q \<noteq> [] \<longrightarrow> bq_active q = bq_limit q)"

lemmas queue_defs = queueInv_def entriesOk_def slotsOk_def orderOk_def flagsOk_def mapOk_def settledOk_def waiting_def keyOfEntry_def

lemma entriesOk_inflight [simp]: "entriesOk (q\<lparr>bq_inflight := x\<rparr>) = entriesOk q"
  by (simp add: queue_defs)

lemma mapOk_entry: "mapOk q \<Longrightarrow> n \<in> set (waiting q) \<Longrightarrow> map_of (bq_entries q) (keyOfEntry q n) = Some n"
  by (simp add: mapOk_def)

lemma mapOk_waiting: "mapOk q \<Longrightarrow> map_of (bq_entries q) k = Some n \<Longrightarrow> n \<in> set (waiting q) \<and> keyOfEntry q n = k"
  by (simp add: mapOk_def)

lemma orderOk_disjoint: "orderOk q \<Longrightarrow> n \<in> set (bq_pending q) \<Longrightarrow> n \<notin> set (bq_running q)"
  by (auto simp: orderOk_def sorted_wrt_append)

lemma orderOk_pending: "orderOk q \<Longrightarrow> distinct (bq_pending q)"
  by (auto simp: orderOk_def sorted_wrt_append strict_sorted_iff)

lemma orderOk_next: "orderOk q \<Longrightarrow> n \<in> set (waiting q) \<Longrightarrow> n < bq_next q"
  by (auto simp: orderOk_def waiting_def)

lemma entriesOk_start:
  assumes ok: "entriesOk q" and p: "bq_pending q = n # rest" "bq_active q < bq_limit q"
  shows "entriesOk (start n (q\<lparr>bq_pending := rest, bq_active := bq_active q + 1\<rparr>))" (is "entriesOk ?q")
proof -
  have n: "n \<notin> set (bq_running q)" "n \<notin> set rest"
    using ok p(1) orderOk_disjoint [of q n] orderOk_pending [of q] by (auto simp: entriesOk_def)
  have w: "set (waiting ?q) = set (waiting q)" using p(1) by (auto simp: waiting_def start_def)
  have k: "keyOfEntry ?q = keyOfEntry q" by (auto simp: keyOfEntry_def start_def fun_eq_iff)
  show ?thesis
    unfolding entriesOk_def
  proof (intro conjI)
    show "slotsOk ?q" using ok p by (simp add: entriesOk_def slotsOk_def start_def)
    show "orderOk ?q" using ok p n by (auto simp: entriesOk_def orderOk_def start_def sorted_wrt_append)
    show "flagsOk ?q" using ok p n by (auto simp: entriesOk_def flagsOk_def start_def)
    show "mapOk ?q" using ok unfolding entriesOk_def mapOk_def w k by (simp add: start_def)
    show "settledOk ?q" using ok unfolding entriesOk_def settledOk_def w by (simp add: start_def)
  qed
qed

text \<open>Draining starts pending tasks in order until the slots are full or none is pending.\<close>

lemma drain_ok:
  "entriesOk q \<Longrightarrow> entriesOk (drain q) \<and> (bq_pending (drain q) \<noteq> [] \<longrightarrow> bq_active (drain q) = bq_limit (drain q)) \<and>
     bq_entries (drain q) = bq_entries q \<and> bq_inflight (drain q) = bq_inflight q \<and> set (waiting (drain q)) = set (waiting q) \<and>
     bq_settled (drain q) = bq_settled q \<and> bq_next (drain q) = bq_next q \<and> bq_limit (drain q) = bq_limit q \<and>
     queueSize (drain q) = queueSize q"
proof (induction q rule: drain.induct)
  case (1 q)
  show ?case
  proof (cases "bq_pending q")
    case Nil
    then have "drain q = q" by (subst drain.simps) simp
    then show ?thesis using 1(2) Nil by simp
  next
    case (Cons n rest)
    show ?thesis
    proof (cases "bq_active q < bq_limit q")
      case True
      let ?q = "start n (q\<lparr>bq_pending := rest, bq_active := bq_active q + 1\<rparr>)"
      have d: "drain q = drain ?q" using Cons True by (subst drain.simps) simp
      show ?thesis
        using 1(1) [OF Cons True entriesOk_start [OF 1(2) Cons True]] Cons
        unfolding d by (auto simp: start_def waiting_def queueSize_def)
    next
      case False
      then have "drain q = q" using Cons by (subst drain.simps) simp
      then show ?thesis using 1(2) False Cons by (auto simp: entriesOk_def slotsOk_def)
    qed
  qed
qed

lemma queueInv_drain: "entriesOk q \<Longrightarrow> map_of (bq_inflight q) = map_of (bq_entries q) \<Longrightarrow> queueInv (drain q)"
  using drain_ok [of q] by (simp add: queueInv_def)

lemma queueInv_new: "queueInv (newQueue limit)"
  by (simp add: queue_defs newQueue_def)

lemma entriesOk_submit:
  assumes ok: "entriesOk q" and key: "map_of (bq_entries q) key = None"
  shows "entriesOk (q\<lparr>bq_next := bq_next q + 1,
     bq_store := (bq_store q)(bq_next q := \<lparr>qe_key = key, qe_started = False, qe_aborted = False\<rparr>),
     bq_pending := bq_pending q @ [bq_next q], bq_entries := AList.update key (bq_next q) (bq_entries q)\<rparr>)" (is "entriesOk ?q")
proof -
  have parts: "slotsOk q" "orderOk q" "flagsOk q" "mapOk q" "settledOk q" using ok by (simp_all add: entriesOk_def)
  have fresh: "bq_next q \<notin> set (waiting q)" using orderOk_next [OF parts(2)] by blast
  have w: "set (waiting ?q) = insert (bq_next q) (set (waiting q))" by (auto simp: waiting_def)
  have other: "keyOfEntry q n \<noteq> key" if "n \<in> set (waiting q)" for n using mapOk_entry [OF parts(4) that] key by auto
  have k: "keyOfEntry ?q n = (if n = bq_next q then key else keyOfEntry q n)" for n by (simp add: keyOfEntry_def)
  show ?thesis
    unfolding entriesOk_def
  proof (intro conjI)
    show "slotsOk ?q" using parts(1) by (simp add: slotsOk_def)
    show "orderOk ?q" using parts(2) by (auto simp: orderOk_def sorted_wrt_append less_Suc_eq)
    show "flagsOk ?q" using parts(3) fresh by (auto simp: flagsOk_def waiting_def)
    show "mapOk ?q"
      unfolding mapOk_def w k using parts(4) fresh other by (auto simp: mapOk_def update_conv')
    show "settledOk ?q" using parts(5) unfolding settledOk_def w by (auto simp: less_Suc_eq)
  qed
qed

lemma queueInv_submit:
  assumes "queueInv q"
  shows "queueInv (snd (submit key q))"
proof (cases "map_of (bq_inflight q) key")
  case (Some p)
  then show ?thesis using assms by (simp add: submit_def)
next
  case None
  let ?n = "bq_next q"
  define q1 where "q1 = q\<lparr>bq_next := ?n + 1, bq_store := (bq_store q)(?n := \<lparr>qe_key = key, qe_started = False, qe_aborted = False\<rparr>),
     bq_pending := bq_pending q @ [?n], bq_entries := AList.update key ?n (bq_entries q)\<rparr>"
  have "map_of (bq_entries q) key = None" "entriesOk q" using assms None by (simp_all add: queueInv_def)
  then have "entriesOk q1" unfolding q1_def by (intro entriesOk_submit)
  note d = drain_ok [OF this]
  have s: "snd (submit key q) = (drain q1)\<lparr>bq_inflight := AList.update key ?n (bq_inflight (drain q1))\<rparr>"
    using None by (simp add: submit_def q1_def Let_def)
  have "entriesOk (snd (submit key q))"
    using d unfolding s by simp
  moreover have "map_of (bq_inflight (snd (submit key q))) = map_of (bq_entries (snd (submit key q)))"
    using d assms unfolding s by (simp add: q1_def update_conv' queueInv_def)
  ultimately show ?thesis using d unfolding queueInv_def s by simp
qed

lemma entriesOk_remove:
  assumes ok: "entriesOk q" and n: "n \<in> set (waiting q)"
    and q': "bq_running q' = removeAll n (bq_running q)" "bq_pending q' = removeAll n (bq_pending q)"
      "bq_active q' = length (bq_running q')" "bq_limit q' = bq_limit q" "bq_started q' = bq_started q" "bq_next q' = bq_next q"
      "bq_entries q' = AList.delete (keyOfEntry q n) (bq_entries q)" "bq_settled q' = bq_settled q @ [(n, out)]"
      "\<And>m. qe_key (bq_store q' m) = qe_key (bq_store q m) \<and> qe_started (bq_store q' m) = qe_started (bq_store q m)"
  shows "entriesOk q'"
proof -
  have parts: "slotsOk q" "orderOk q" "flagsOk q" "mapOk q" "settledOk q" using ok by (simp_all add: entriesOk_def)
  have w: "set (waiting q') = set (waiting q) - {n}" by (auto simp: waiting_def q')
  have k: "keyOfEntry q' = keyOfEntry q" using q'(9) by (simp add: keyOfEntry_def fun_eq_iff)
  have only: "m = n" if "m \<in> set (waiting q)" "keyOfEntry q m = keyOfEntry q n" for m
    using mapOk_entry [OF parts(4) that(1)] mapOk_entry [OF parts(4) n] that(2) by (metis option.inject)
  show ?thesis
    unfolding entriesOk_def
  proof (intro conjI)
    show "slotsOk q'"
      using parts(1) length_removeAll_less_eq [of n "bq_running q"] unfolding slotsOk_def q' by linarith
    show "orderOk q'" using parts(2) unfolding orderOk_def q'
      by (auto simp: sorted_wrt_append removeAll_filter_not_eq sorted_wrt_filter)
    show "flagsOk q'" using parts(3) by (auto simp: flagsOk_def q')
    show "mapOk q'" unfolding mapOk_def w k q'
      using parts(4) only by (auto simp: mapOk_def delete_conv')
    show "settledOk q'" using parts(5) unfolding settledOk_def w q' by auto
  qed
qed

definition freed :: "nat \<Rightarrow> outcome \<Rightarrow> queue \<Rightarrow> queue" where
  "freed n out q = q\<lparr>bq_settled := bq_settled q @ [(n, out)], bq_entries := AList.delete (keyOfEntry q n) (bq_entries q),
     bq_inflight := AList.delete (keyOfEntry q n) (bq_inflight q), bq_active := bq_active q - 1, bq_running := removeAll n (bq_running q)\<rparr>"

lemma settle_drains: "settle n out q = drain (freed n out q)"
  by (simp add: settle_def freed_def Let_def)

lemma entriesOk_freed:
  assumes inv: "queueInv q" and n: "n \<in> set (bq_running q)"
  shows "entriesOk (freed n out q)"
proof -
  have ok: "entriesOk q" and o: "orderOk q" using inv by (simp_all add: queueInv_def entriesOk_def)
  have "n \<notin> set (bq_pending q)" using orderOk_disjoint [OF o] n by blast
  moreover have "bq_active q - 1 = length (removeAll n (bq_running q))"
    using ok o n by (simp add: entriesOk_def slotsOk_def orderOk_def distinct_remove1_removeAll [symmetric] length_remove1)
  ultimately show ?thesis
    unfolding freed_def by (intro entriesOk_remove [OF ok, of n _ out]) (use n in \<open>simp_all add: waiting_def\<close>)
qed

lemma queueInv_settle:
  assumes inv: "queueInv q" and n: "n \<in> set (bq_running q)"
  shows "queueInv (settle n out q)"
  unfolding settle_drains
  by (rule queueInv_drain [OF entriesOk_freed [OF assms]]) (use inv in \<open>simp add: queueInv_def freed_def delete_conv'\<close>)

lemma queueInv_cancel:
  assumes inv: "queueInv q"
  shows "queueInv (cancel key q)"
proof (cases "map_of (bq_entries q) key")
  case None
  then show ?thesis using inv by (simp add: cancel_def)
next
  case (Some n)
  have ok: "entriesOk q" using inv by (simp add: queueInv_def)
  then have parts: "slotsOk q" "orderOk q" "flagsOk q" "mapOk q" by (simp_all add: entriesOk_def)
  have n: "n \<in> set (waiting q)" "keyOfEntry q n = key" using mapOk_waiting [OF parts(4) Some] by simp_all
  show ?thesis
  proof (cases "qe_started (bq_store q n)")
    case True
    then have "cancel key q = q\<lparr>bq_store := (bq_store q)(n := (bq_store q n)\<lparr>qe_aborted := True\<rparr>)\<rparr>"
      using Some by (simp add: cancel_def)
    then show ?thesis
      using inv by (auto simp: queue_defs)
  next
    case False
    then have p: "n \<in> set (bq_pending q)" "n \<notin> set (bq_running q)"
      using n(1) parts(3) by (auto simp: waiting_def flagsOk_def)
    have rm: "remove1 n (bq_pending q) = removeAll n (bq_pending q)"
      using orderOk_pending [OF parts(2)] by (rule distinct_remove1_removeAll)
    have c: "cancel key q = q\<lparr>bq_store := (bq_store q)(n := (bq_store q n)\<lparr>qe_aborted := True\<rparr>), bq_pending := removeAll n (bq_pending q),
        bq_entries := AList.delete key (bq_entries q), bq_inflight := AList.delete key (bq_inflight q),
        bq_settled := bq_settled q @ [(n, Resolved)]\<rparr>"
      using Some False n(2) rm by (simp add: cancel_def abandonPending_def keyOfEntry_def)
    have "entriesOk (cancel key q)"
      using parts(1) p n by (intro entriesOk_remove [OF ok n(1), of _ Resolved]) (simp_all add: c slotsOk_def)
    moreover have "map_of (bq_inflight (cancel key q)) = map_of (bq_entries (cancel key q))"
      using inv by (simp add: c queueInv_def delete_conv')
    moreover have "bq_pending (cancel key q) \<noteq> [] \<longrightarrow> bq_active (cancel key q) = bq_limit (cancel key q)"
      using inv p by (auto simp: c queueInv_def)
    ultimately show ?thesis by (simp add: queueInv_def)
  qed
qed

lemma queueInv_cancelAll: "queueInv q \<Longrightarrow> queueInv (cancelAll q)"
proof -
  have "queueInv (fold cancel ks q)" if "queueInv q" for ks q
    using that by (induction ks arbitrary: q) (auto intro: queueInv_cancel)
  then show "queueInv q \<Longrightarrow> queueInv (cancelAll q)" by (simp add: cancelAll_def)
qed

lemma start_limit [simp]: "bq_limit (start n q) = bq_limit q"
  by (simp add: start_def)

lemma drain_limit [simp]: "bq_limit (drain q) = bq_limit q"
  by (induction q rule: drain.induct) (subst drain.simps, simp split: list.split)

lemma cancel_limit [simp]: "bq_limit (cancel key q) = bq_limit q"
  by (simp add: cancel_def abandonPending_def Let_def split: option.split)

lemma limit_kept:
  assumes "queue_step q q'"
  shows "bq_limit q' = bq_limit q"
  using assms
proof cases
  case (submit key)
  then show ?thesis by (simp add: submit_def Let_def split: option.split)
next
  case cancelAll
  have "bq_limit (fold cancel ks q) = bq_limit q" for ks by (induction ks arbitrary: q) simp_all
  then show ?thesis using cancelAll by (simp add: cancelAll_def)
qed (simp_all add: settle_def Let_def)

interpretation queue: step_invariant queue_step "\<lambda>q. queueInv q \<and> bq_limit q = limit" for limit
proof
  fix q q'
  assume step: "queue_step q q'" and inv: "queueInv q \<and> bq_limit q = limit"
  have "queueInv q'"
    using step inv by cases (auto intro: queueInv_submit queueInv_cancel queueInv_cancelAll queueInv_settle)
  then show "queueInv q' \<and> bq_limit q' = limit" using limit_kept [OF step] inv by simp
qed

section \<open>Properties\<close>

text \<open>
  C12. Whatever is submitted, cancelled and settled, and in whatever order: at most the limit of tasks run, and fewer only
  when none waits; tasks start in the order of their submission; no key has two tasks at once, and submitting the key of a
  task that waits or runs gives its promise and changes nothing.
\<close>

theorem queue_runs_within_its_limit:
  assumes "queue_step\<^sup>*\<^sup>* (newQueue limit) q"
  shows "length (bq_running q) \<le> max 1 limit \<and> (bq_pending q \<noteq> [] \<longrightarrow> length (bq_running q) = max 1 limit) \<and>
    sorted_wrt (<) (bq_started q @ bq_pending q) \<and> distinct (map (keyOfEntry q) (bq_running q @ bq_pending q)) \<and>
    (\<forall>n \<in> set (bq_running q @ bq_pending q). submit (keyOfEntry q n) q = (n, q)) \<and>
    queueSize q = length (bq_running q) + length (bq_pending q)"
proof -
  have inv: "queueInv q" and l: "bq_limit q = max 1 limit"
    using queue.run_inv [OF assms, of "max 1 limit"] queueInv_new [of limit] by (simp_all add: newQueue_def)
  have parts: "slotsOk q" "orderOk q" "mapOk q" using inv by (simp_all add: queueInv_def entriesOk_def)
  have "inj_on (keyOfEntry q) (set (waiting q))"
    using mapOk_entry [OF parts(3)] by (metis inj_onI option.inject)
  moreover have "distinct (waiting q)"
    using parts(2) orderOk_pending [OF parts(2)] orderOk_disjoint [OF parts(2)] by (auto simp: waiting_def orderOk_def)
  ultimately have "distinct (map (keyOfEntry q) (waiting q))" by (simp add: distinct_map)
  moreover have "submit (keyOfEntry q n) q = (n, q)" if "n \<in> set (waiting q)" for n
    using mapOk_entry [OF parts(3) that] inv by (simp add: submit_def queueInv_def)
  ultimately show ?thesis
    using parts(1,2) inv l unfolding waiting_def [symmetric] by (simp add: slotsOk_def orderOk_def queueInv_def queueSize_def)
qed

text \<open>Two tasks on a queue of one slot: the second waits, and starts when the first has failed.\<close>

definition queue_example :: queue where
  "queue_example = settle 0 Rejected (cancel ''c'' (snd (submit ''c'' (snd (submit ''b'' (snd (submit ''a'' (newQueue 1))))))))"

lemma queue_example_runs: "queue_step\<^sup>*\<^sup>* (newQueue 1) queue_example"
proof -
  have "0 \<in> set (bq_running (cancel ''c'' (snd (submit ''c'' (snd (submit ''b'' (snd (submit ''a'' (newQueue 1)))))))))"
    by code_simp
  from queue_step.settle [OF this] show ?thesis
    unfolding queue_example_def by (meson converse_rtranclp_into_rtranclp queue_step.submit queue_step.cancel r_into_rtranclp)
qed

theorem queue_runs_within_its_limit_witness:
  "bq_running queue_example = [1] \<and> length (bq_running queue_example) \<le> max 1 1 \<and>
    submit (keyOfEntry queue_example 1) queue_example = (1, queue_example)"
proof -
  have r: "bq_running queue_example = [1]" by code_simp
  then show ?thesis using queue_runs_within_its_limit [OF queue_example_runs] by auto
qed

text \<open>Running tasks settling one after the other, in any order and with any outcomes.\<close>

inductive settles :: "queue \<Rightarrow> nat \<Rightarrow> queue \<Rightarrow> bool" where
  none: "settles q 0 q"
| more: "n \<in> set (bq_running q) \<Longrightarrow> settles (settle n out q) k q' \<Longrightarrow> settles q (Suc k) q'"

lemma settle_size:
  assumes inv: "queueInv q" and n: "n \<in> set (bq_running q)"
  shows "Suc (queueSize (settle n out q)) = queueSize q" "bq_next (settle n out q) = bq_next q"
proof -
  note d = drain_ok [OF entriesOk_freed [OF assms, of out]]
  have "0 < bq_active q" using inv n by (auto simp: queueInv_def entriesOk_def slotsOk_def)
  then show "Suc (queueSize (settle n out q)) = queueSize q" "bq_next (settle n out q) = bq_next q"
    using d by (simp_all add: settle_drains queueSize_def freed_def)
qed

lemma idle_queue_settled: "queueInv q \<Longrightarrow> queueSize q = 0 \<Longrightarrow> n < bq_next q \<Longrightarrow> n \<in> fst ` set (bq_settled q)"
  by (auto simp: queueInv_def entriesOk_def slotsOk_def settledOk_def waiting_def queueSize_def)

lemma settles_empty_the_queue:
  "settles q k q' \<Longrightarrow> queueInv q \<Longrightarrow> queueInv q' \<and> queueSize q = queueSize q' + k \<and> bq_next q' = bq_next q"
proof (induction rule: settles.induct)
  case (more n q out k q')
  then show ?case using settle_size [OF more.prems more.hyps(1), of out] queueInv_settle [OF more.prems more.hyps(1)] by simp
qed simp

lemma some_task_runs: "queueInv q \<Longrightarrow> 0 < queueSize q \<Longrightarrow> bq_running q \<noteq> []"
  by (auto simp: queueInv_def entriesOk_def slotsOk_def queueSize_def)

lemma settling_is_possible: "queueInv q \<Longrightarrow> k \<le> queueSize q \<Longrightarrow> \<exists>q'. settles q k q'"
proof (induction k arbitrary: q)
  case 0
  then show ?case using settles.none by blast
next
  case (Suc k)
  then obtain n where n: "n \<in> set (bq_running q)" using some_task_runs [of q] by (cases "bq_running q") auto
  then have "k \<le> queueSize (settle n Resolved q)" using Suc.prems settle_size(1) [of q n Resolved] by simp
  then show ?case using Suc.IH [OF queueInv_settle [OF Suc.prems(1) n]] settles.more [OF n] by blast
qed

text \<open>
  C30. No task is forgotten: while anything waits or runs some task is running, and once as many tasks have settled as waited
  or ran, which they can, and in whatever order they do, the queue is empty and every promise handed out has settled.
\<close>

theorem queue_forgets_no_task:
  assumes "queue_step\<^sup>*\<^sup>* (newQueue limit) q"
  shows "(queueSize q > 0 \<longrightarrow> bq_running q \<noteq> []) \<and> (\<exists>q'. settles q (queueSize q) q') \<and>
    (\<forall>q'. settles q (queueSize q) q' \<longrightarrow> queueSize q' = 0 \<and> (\<forall>n < bq_next q. n \<in> fst ` set (bq_settled q')))"
proof -
  have inv: "queueInv q"
    using queue.run_inv [OF assms, of "max 1 limit"] queueInv_new [of limit] by (simp add: newQueue_def)
  have "queueSize q' = 0 \<and> (\<forall>n < bq_next q. n \<in> fst ` set (bq_settled q'))" if "settles q (queueSize q) q'" for q'
    using settles_empty_the_queue [OF that inv] idle_queue_settled [of q'] by simp
  then show ?thesis using some_task_runs [OF inv] settling_is_possible [OF inv] by blast
qed

theorem queue_forgets_no_task_witness:
  "queueSize queue_example = 1 \<and> bq_running queue_example \<noteq> [] \<and> (\<exists>q'. settles queue_example 1 q')"
proof -
  have "queueSize queue_example = 1" by code_simp
  then show ?thesis using queue_forgets_no_task [OF queue_example_runs] by simp
qed

end
