(* ===== verification/Duplicate_Plan.thy ===== *)
theory Duplicate_Plan
  imports Js_Values
begin

text \<open>
  Duplicating an entity with its subtree: the planner \<^verbatim>\<open>frontend/src/hooks/planDuplicate.ts\<close> and the
  function of \<^verbatim>\<open>frontend/src/hooks/useDuplicateSubtree.ts\<close> that stages a plan (\<open>commitDuplicate\<close>). A \<open>Map\<close> or a \<open>Set\<close> is a list in
  insertion order. The temporary URNs that staging hands out are an argument of \<open>commitDuplicate\<close>.
\<close>

section \<open>Planning the nodes\<close>

record source_node =
  sn_urn :: string
  sn_entityType :: string
  sn_displayName :: string
  sn_tags :: "string list option"
  sn_properties :: "bag option"
  sn_description :: "string option"
  sn_containmentEdgeType :: "string option"
  sn_sourceSystem :: "string option"

record edge_input =
  el_source :: string
  el_target :: string
  el_edgeType :: string

record node_step =
  ns_originalId :: string
  ns_originalUrn :: string
  ns_entityType :: string
  ns_displayName :: string
  ns_tags :: "string list"
  ns_properties :: bag
  ns_parentOriginalId :: "string option"
  ns_containmentEdgeType :: "string option"
  ns_sourceSystem :: "string option"

datatype kept_end = KeepsSource | KeepsTarget

record edge_step =
  es_sourceOriginalId :: string
  es_targetOriginalId :: string
  es_edgeType :: string
  es_keeps :: "kept_end option"

record duplicate_options =
  do_includeDescendants :: bool
  do_internal :: bool
  do_incoming :: bool
  do_outgoing :: bool

definition defaultOptions :: duplicate_options where
  "defaultOptions = \<lparr>do_includeDescendants = True, do_internal = True, do_incoming = False, do_outgoing = False\<rparr>"

type_synonym child_map = "(string \<times> string list) list"
type_synonym node_data = "(string \<times> source_node) list"

definition childrenOf :: "child_map \<Rightarrow> string \<Rightarrow> string list" where
  "childrenOf childMap x = (case map_of childMap x of None \<Rightarrow> [] | Some cs \<Rightarrow> cs)"

text \<open>The step of an entity; only the root of the subtree has no parent in the plan.\<close>

definition nodeStep :: "string \<Rightarrow> string option \<Rightarrow> source_node \<Rightarrow> node_step" where
  "nodeStep x parentOriginalId source =
     (let props = (case sn_properties source of None \<Rightarrow> [] | Some b \<Rightarrow> b);
          props1 = (case sn_description source of None \<Rightarrow> props | Some d \<Rightarrow> AList.update ''description'' (JStr d) props)
      in \<lparr>ns_originalId = x, ns_originalUrn = sn_urn source, ns_entityType = sn_entityType source,
          ns_displayName = (if parentOriginalId = None then sn_displayName source @ '' (Copy)'' else sn_displayName source),
          ns_tags = (case sn_tags source of None \<Rightarrow> [] | Some ts \<Rightarrow> ts),
          ns_properties = AList.update ''duplicatedFrom'' (JStr (sn_urn source)) props1,
          ns_parentOriginalId = parentOriginalId, ns_containmentEdgeType = sn_containmentEdgeType source,
          ns_sourceSystem = (if truthyStr (sn_sourceSystem source) then sn_sourceSystem source else None)\<rparr>)"

record plan_state =
  ps_visited :: "string list"
  ps_subtreeIds :: "string list"
  ps_nodes :: "node_step list"

text \<open>\<open>visit\<close> on each of the ids, which are the root alone or the children of one parent.\<close>

function visitEach :: "bool \<Rightarrow> child_map \<Rightarrow> node_data \<Rightarrow> string option \<Rightarrow> string list \<Rightarrow> plan_state \<Rightarrow> plan_state" where
  "visitEach desc childMap nodeData parent [] st = st"
| "visitEach desc childMap nodeData parent (x # xs) st =
     (if x \<in> set (ps_visited st) then visitEach desc childMap nodeData parent xs st
      else
        let st1 = st\<lparr>ps_visited := ps_visited st @ [x]\<rparr>
        in case map_of nodeData x of
             None \<Rightarrow> visitEach desc childMap nodeData parent xs st1
           | Some source \<Rightarrow>
             (let st2 = st1\<lparr>ps_subtreeIds := ps_subtreeIds st1 @ [x], ps_nodes := ps_nodes st1 @ [nodeStep x parent source]\<rparr>
              in if \<not> desc then visitEach desc childMap nodeData parent xs st2
                 else visitEach desc childMap nodeData parent xs
                        (visitEach desc childMap nodeData (Some x) (childrenOf childMap x) st2)))"
  by pat_completeness auto

text \<open>The visits end because each new one takes an id of the finite child map: it is marked and stays marked.\<close>

definition unvisited :: "child_map \<Rightarrow> string list \<Rightarrow> plan_state \<Rightarrow> string set" where
  "unvisited childMap xs st = (set xs \<union> \<Union> (set ` snd ` set childMap)) - set (ps_visited st)"

lemma finite_unvisited [simp]: "finite (unvisited childMap xs st)"
  by (auto simp: unvisited_def)

lemma childrenOf_subset: "set (childrenOf childMap x) \<subseteq> \<Union> (set ` snd ` set childMap)"
  by (cases "map_of childMap x") (auto simp: childrenOf_def dest: map_of_SomeD)

lemma unvisited_less:
  assumes "x \<notin> set (ps_visited st)" "insert x (set (ps_visited st)) \<subseteq> set (ps_visited st')"
    "set ys \<subseteq> set xs \<union> \<Union> (set ` snd ` set childMap)"
  shows "card (unvisited childMap ys st') < card (unvisited childMap (x # xs) st)"
  by (rule psubset_card_mono) (use assms in \<open>auto simp: unvisited_def\<close>)

lemma visitEach_dom_mono:
  "visitEach_dom (desc, childMap, nodeData, parent, xs, st) \<Longrightarrow>
     set (ps_visited st) \<subseteq> set (ps_visited (visitEach desc childMap nodeData parent xs st))"
proof (induction rule: visitEach.pinduct)
  case (2 desc childMap nodeData parent x xs st)
  show ?case
  proof (cases "x \<in> set (ps_visited st)")
    case True
    then show ?thesis using 2(1) 2(2) [OF True] by (simp add: visitEach.psimps)
  next
    case new: False
    show ?thesis
    proof (cases "map_of nodeData x")
      case None
      then show ?thesis using 2(1) 2(3) [OF new refl None] new by (auto simp: visitEach.psimps Let_def)
    next
      case (Some source)
      note sub = 2(5,6) [OF new refl Some refl] and alone = 2(4) [OF new refl Some refl]
      show ?thesis
      proof (cases desc)
        case True
        then show ?thesis using 2(1) sub new Some by (simp add: visitEach.psimps Let_def) blast
      next
        case False
        then show ?thesis using 2(1) alone new Some by (auto simp: visitEach.psimps Let_def)
      qed
    qed
  qed
qed (simp add: visitEach.psimps)

termination visitEach
proof (relation "(\<lambda>(desc, childMap, nodeData, parent, xs, st). card (unvisited childMap xs st)) <*mlex*>
    measure (\<lambda>(desc, childMap, nodeData, parent, xs, st). length xs)", goal_cases)
  case 1
  show ?case by (simp add: wf_mlex)
next
  case (2 desc childMap nodeData parent x xs st)
  have "card (unvisited childMap xs st) \<le> card (unvisited childMap (x # xs) st)"
    by (rule card_mono) (auto simp: unvisited_def)
  then show ?case by (intro mlex_leq) auto
next
  case (6 desc childMap nodeData parent x xs st st1 source st2)
  then show ?case
    using visitEach_dom_mono [OF 6(6)] by (intro mlex_less) (auto intro!: unvisited_less)
qed (auto intro!: mlex_less unvisited_less dest: subsetD [OF childrenOf_subset])

declare visitEach.simps(2) [simp del]

text \<open>What one visit does, for proofs by induction along the visits.\<close>

definition mark :: "string \<Rightarrow> plan_state \<Rightarrow> plan_state" where
  "mark x st = st\<lparr>ps_visited := ps_visited st @ [x]\<rparr>"

definition addStep :: "string \<Rightarrow> string option \<Rightarrow> source_node \<Rightarrow> plan_state \<Rightarrow> plan_state" where
  "addStep x parent source st = st\<lparr>ps_visited := ps_visited st @ [x], ps_subtreeIds := ps_subtreeIds st @ [x],
     ps_nodes := ps_nodes st @ [nodeStep x parent source]\<rparr>"

lemma visit_sel [simp]:
  "ps_visited (mark x st) = ps_visited st @ [x]" "ps_subtreeIds (mark x st) = ps_subtreeIds st" "ps_nodes (mark x st) = ps_nodes st"
  "ps_visited (addStep x parent source st) = ps_visited st @ [x]"
  "ps_subtreeIds (addStep x parent source st) = ps_subtreeIds st @ [x]"
  "ps_nodes (addStep x parent source st) = ps_nodes st @ [nodeStep x parent source]"
  by (simp_all add: mark_def addStep_def)

lemma visitEach_eqs:
  "x \<in> set (ps_visited st) \<Longrightarrow> visitEach desc childMap nodeData parent (x # xs) st = visitEach desc childMap nodeData parent xs st"
  "x \<notin> set (ps_visited st) \<Longrightarrow> map_of nodeData x = None \<Longrightarrow>
     visitEach desc childMap nodeData parent (x # xs) st = visitEach desc childMap nodeData parent xs (mark x st)"
  "x \<notin> set (ps_visited st) \<Longrightarrow> map_of nodeData x = Some source \<Longrightarrow> \<not> desc \<Longrightarrow>
     visitEach desc childMap nodeData parent (x # xs) st = visitEach desc childMap nodeData parent xs (addStep x parent source st)"
  "x \<notin> set (ps_visited st) \<Longrightarrow> map_of nodeData x = Some source \<Longrightarrow> desc \<Longrightarrow>
     visitEach desc childMap nodeData parent (x # xs) st = visitEach desc childMap nodeData parent xs
       (visitEach desc childMap nodeData (Some x) (childrenOf childMap x) (addStep x parent source st))"
  by (simp_all add: visitEach.simps(2) Let_def mark_def addStep_def)

inductive visits :: "bool \<Rightarrow> child_map \<Rightarrow> node_data \<Rightarrow> string option \<Rightarrow> string list \<Rightarrow> plan_state \<Rightarrow> plan_state \<Rightarrow> bool"
  for desc childMap nodeData where
  stop: "visits desc childMap nodeData parent [] st st"
| seen: "x \<in> set (ps_visited st) \<Longrightarrow> visits desc childMap nodeData parent xs st st' \<Longrightarrow>
    visits desc childMap nodeData parent (x # xs) st st'"
| missing: "x \<notin> set (ps_visited st) \<Longrightarrow> map_of nodeData x = None \<Longrightarrow> visits desc childMap nodeData parent xs (mark x st) st' \<Longrightarrow>
    visits desc childMap nodeData parent (x # xs) st st'"
| alone: "x \<notin> set (ps_visited st) \<Longrightarrow> map_of nodeData x = Some source \<Longrightarrow> \<not> desc \<Longrightarrow>
    visits desc childMap nodeData parent xs (addStep x parent source st) st' \<Longrightarrow> visits desc childMap nodeData parent (x # xs) st st'"
| inside: "x \<notin> set (ps_visited st) \<Longrightarrow> map_of nodeData x = Some source \<Longrightarrow> desc \<Longrightarrow>
    visits desc childMap nodeData (Some x) (childrenOf childMap x) (addStep x parent source st) st1 \<Longrightarrow>
    visits desc childMap nodeData parent xs st1 st' \<Longrightarrow> visits desc childMap nodeData parent (x # xs) st st'"

lemma visits_visitEach: "visits desc childMap nodeData parent xs st (visitEach desc childMap nodeData parent xs st)"
proof (induction desc childMap nodeData parent xs st rule: visitEach.induct)
  case (1 desc childMap nodeData parent st)
  show ?case by (simp add: visits.stop)
next
  case (2 desc childMap nodeData parent x xs st)
  show ?case
  proof (cases "x \<in> set (ps_visited st)")
    case True
    then show ?thesis unfolding visitEach_eqs(1) [OF True] by (intro visits.seen [OF True] 2(1) [OF True])
  next
    case new: False
    show ?thesis
    proof (cases "map_of nodeData x")
      case None
      then show ?thesis
        unfolding visitEach_eqs(2) [OF new None] by (intro visits.missing [OF new None] 2(2) [OF new mark_def None])
    next
      case (Some source)
      have s: "addStep x parent source st = mark x st\<lparr>ps_subtreeIds := ps_subtreeIds (mark x st) @ [x],
          ps_nodes := ps_nodes (mark x st) @ [nodeStep x parent source]\<rparr>" by (simp add: addStep_def mark_def)
      show ?thesis
      proof (cases desc)
        case True
        then have d: "\<not> \<not> desc" by simp
        show ?thesis
          unfolding visitEach_eqs(4) [OF new Some True]
          by (rule visits.inside [OF new Some True 2(4) [OF new mark_def Some s d] 2(5) [OF new mark_def Some s d]])
      next
        case False
        then show ?thesis
          unfolding visitEach_eqs(3) [OF new Some False]
          by (intro visits.alone [OF new Some False] 2(3) [OF new mark_def Some s False])
      qed
    qed
  qed
qed

section \<open>What the plan's nodes are\<close>

text \<open>The entities a duplicate copies: the root, and what hangs below a copied entity, as far as their data are known.\<close>

inductive inCopy :: "bool \<Rightarrow> child_map \<Rightarrow> node_data \<Rightarrow> string \<Rightarrow> string \<Rightarrow> bool" for desc childMap nodeData r where
  root: "map_of nodeData r = Some source \<Longrightarrow> inCopy desc childMap nodeData r r"
| child: "desc \<Longrightarrow> inCopy desc childMap nodeData r x \<Longrightarrow> y \<in> set (childrenOf childMap x) \<Longrightarrow> map_of nodeData y = Some source \<Longrightarrow>
    inCopy desc childMap nodeData r y"

text \<open>A step is right after the steps before it: only the first copies the root, any other is a child of an entity copied before.\<close>

definition stepOk :: "child_map \<Rightarrow> node_data \<Rightarrow> string \<Rightarrow> node_step list \<Rightarrow> node_step \<Rightarrow> bool" where
  "stepOk childMap nodeData r before s \<longleftrightarrow>
     (\<exists>source. map_of nodeData (ns_originalId s) = Some source \<and> s = nodeStep (ns_originalId s) (ns_parentOriginalId s) source) \<and>
     (case ns_parentOriginalId s of
        None \<Rightarrow> before = [] \<and> ns_originalId s = r
      | Some p \<Rightarrow> p \<in> ns_originalId ` set before \<and> ns_originalId s \<in> set (childrenOf childMap p))"

definition stepsOk :: "child_map \<Rightarrow> node_data \<Rightarrow> string \<Rightarrow> node_step list \<Rightarrow> bool" where
  "stepsOk childMap nodeData r steps \<longleftrightarrow> (\<forall>before s after. steps = before @ s # after \<longrightarrow> stepOk childMap nodeData r before s)"

lemma stepsOk_Nil [simp]: "stepsOk childMap nodeData r []"
  by (simp add: stepsOk_def)

lemma stepsOk_snoc [simp]:
  "stepsOk childMap nodeData r (steps @ [s]) \<longleftrightarrow> stepsOk childMap nodeData r steps \<and> stepOk childMap nodeData r steps s"
  by (fastforce simp: stepsOk_def append_eq_append_conv2 Cons_eq_append_conv append_eq_Cons_conv)

lemma nodeStep_sel [simp]:
  "ns_originalId (nodeStep x parent source) = x" "ns_parentOriginalId (nodeStep x parent source) = parent"
  by (simp_all add: nodeStep_def Let_def)

definition planInv :: "bool \<Rightarrow> child_map \<Rightarrow> node_data \<Rightarrow> string \<Rightarrow> plan_state \<Rightarrow> bool" where
  "planInv desc childMap nodeData r st \<longleftrightarrow>
     map ns_originalId (ps_nodes st) = ps_subtreeIds st \<and>
     ps_subtreeIds st = filter (\<lambda>x. map_of nodeData x \<noteq> None) (ps_visited st) \<and> distinct (ps_visited st) \<and>
     stepsOk childMap nodeData r (ps_nodes st) \<and> (\<forall>x \<in> set (ps_subtreeIds st). inCopy desc childMap nodeData r x)"

definition canVisit :: "bool \<Rightarrow> child_map \<Rightarrow> string \<Rightarrow> string option \<Rightarrow> string list \<Rightarrow> plan_state \<Rightarrow> bool" where
  "canVisit desc childMap r parent xs st \<longleftrightarrow>
     (case parent of
        None \<Rightarrow> xs = [] \<or> xs = [r] \<and> ps_visited st = []
      | Some p \<Rightarrow> desc \<and> p \<in> set (ps_subtreeIds st) \<and> set xs \<subseteq> set (childrenOf childMap p))"

lemma canVisit_later:
  assumes "canVisit desc childMap r parent (x # xs) st" "set (ps_subtreeIds st) \<subseteq> set (ps_subtreeIds st')"
  shows "canVisit desc childMap r parent xs st'"
  using assms by (auto simp: canVisit_def split: option.splits)

lemma planInv_mark:
  "planInv desc childMap nodeData r st \<Longrightarrow> x \<notin> set (ps_visited st) \<Longrightarrow> map_of nodeData x = None \<Longrightarrow> planInv desc childMap nodeData r (mark x st)"
  by (simp add: planInv_def)

lemma planInv_addStep:
  assumes inv: "planInv desc childMap nodeData r st" and x: "x \<notin> set (ps_visited st)" "map_of nodeData x = Some source"
    and can: "canVisit desc childMap r parent (x # xs) st"
  shows "planInv desc childMap nodeData r (addStep x parent source st)"
proof -
  have "stepOk childMap nodeData r (ps_nodes st) (nodeStep x parent source) \<and> inCopy desc childMap nodeData r x"
  proof (cases parent)
    case None
    then have "x = r" "ps_nodes st = []" using can inv by (auto simp: canVisit_def planInv_def)
    then show ?thesis using None x(2) by (auto simp: stepOk_def intro: inCopy.root)
  next
    case (Some p)
    then have p: "desc" "p \<in> set (ps_subtreeIds st)" "x \<in> set (childrenOf childMap p)" using can by (simp_all add: canVisit_def)
    then have "p \<in> ns_originalId ` set (ps_nodes st)" "inCopy desc childMap nodeData r p"
      using inv by (auto simp: planInv_def simp flip: set_map)
    then show ?thesis using Some x(2) p by (auto simp: stepOk_def intro: inCopy.child)
  qed
  then show ?thesis using inv x by (simp add: planInv_def)
qed

lemma planInv_visits:
  "visits desc childMap nodeData parent xs st st' \<Longrightarrow> planInv desc childMap nodeData r st \<Longrightarrow> canVisit desc childMap r parent xs st \<Longrightarrow>
     planInv desc childMap nodeData r st' \<and> set (ps_subtreeIds st) \<subseteq> set (ps_subtreeIds st')"
proof (induction rule: visits.induct)
  case (seen x st parent xs st')
  then show ?case using canVisit_later [of desc childMap r parent x xs st st] by simp
next
  case (missing x st parent xs st')
  then show ?case using canVisit_later [of desc childMap r parent x xs st "mark x st"] planInv_mark by simp
next
  case (alone x st source parent xs st')
  have "set (ps_subtreeIds st) \<subseteq> set (ps_subtreeIds (addStep x parent source st))" by auto
  then show ?case
    using alone canVisit_later [of desc childMap r parent x xs st "addStep x parent source st"] planInv_addStep [OF alone.prems(1) alone.hyps(1,2) alone.prems(2)]
    by simp
next
  case (inside x st source parent st1 xs st')
  have "canVisit desc childMap r (Some x) (childrenOf childMap x) (addStep x parent source st)"
    using inside.hyps(3) by (simp add: canVisit_def)
  then have 1: "planInv desc childMap nodeData r st1" "set (ps_subtreeIds (addStep x parent source st)) \<subseteq> set (ps_subtreeIds st1)"
    using inside.IH(1) planInv_addStep [OF inside.prems(1) inside.hyps(1,2) inside.prems(2)] by simp_all
  then have "canVisit desc childMap r parent xs st1" by (intro canVisit_later [OF inside.prems(2)]) auto
  then show ?case using inside.IH(2) 1 by auto
qed simp

lemma visits_keep: "visits desc childMap nodeData parent xs st st' \<Longrightarrow> set (ps_visited st) \<subseteq> set (ps_visited st')"
  by (induction rule: visits.induct) auto

text \<open>Everything below a visited entity with data is visited by the time its visit is over.\<close>

lemma visits_closed:
  "visits desc childMap nodeData parent xs st st' \<Longrightarrow> desc \<Longrightarrow>
     set (ps_visited st) \<subseteq> set (ps_visited st') \<and> set xs \<subseteq> set (ps_visited st') \<and>
     (\<forall>y \<in> set (ps_visited st') - set (ps_visited st). map_of nodeData y \<noteq> None \<longrightarrow> set (childrenOf childMap y) \<subseteq> set (ps_visited st'))"
proof (induction rule: visits.induct)
  case (inside x st source parent st1 xs st')
  then have 1: "set (ps_visited st) \<union> {x} \<union> set (childrenOf childMap x) \<subseteq> set (ps_visited st1)" "set (ps_visited st1) \<subseteq> set (ps_visited st')"
    by auto
  have "set (childrenOf childMap y) \<subseteq> set (ps_visited st')"
    if y: "y \<in> set (ps_visited st')" "y \<notin> set (ps_visited st)" "map_of nodeData y \<noteq> None" for y
  proof (cases "y \<in> set (ps_visited st1)")
    case True
    then have "set (childrenOf childMap y) \<subseteq> set (ps_visited st1)" using inside y 1 by (cases "y = x") auto
    then show ?thesis using 1 by blast
  next
    case False
    then show ?thesis using inside y by blast
  qed
  then show ?case using inside 1 by auto
qed auto

section \<open>Planning the edges\<close>

definition edgeKey :: "edge_input \<Rightarrow> nat list" where
  "edgeKey e = map of_char (el_source e) @ [0] @ map of_char (el_target e) @ [0] @ jsUpper (el_edgeType e)"

definition edgeStep :: "duplicate_options \<Rightarrow> string list \<Rightarrow> edge_input \<Rightarrow> edge_step option" where
  "edgeStep opts subtreeIds e =
     (let inSource = el_source e \<in> set subtreeIds; inTarget = el_target e \<in> set subtreeIds;
          step = \<lparr>es_sourceOriginalId = el_source e, es_targetOriginalId = el_target e, es_edgeType = el_edgeType e, es_keeps = None\<rparr>
      in if inSource \<and> inTarget then (if do_internal opts then Some step else None)
         else if inTarget then (if do_incoming opts then Some (step\<lparr>es_keeps := Some KeepsSource\<rparr>) else None)
         else if inSource then (if do_outgoing opts then Some (step\<lparr>es_keeps := Some KeepsTarget\<rparr>) else None)
         else None)"

fun planEdges :: "duplicate_options \<Rightarrow> string list \<Rightarrow> edge_input list \<Rightarrow> nat list list \<Rightarrow> edge_step list" where
  "planEdges opts subtreeIds [] seen = []"
| "planEdges opts subtreeIds (e # es) seen =
     (if edgeKey e \<in> set seen then planEdges opts subtreeIds es seen
      else case edgeStep opts subtreeIds e of
             None \<Rightarrow> planEdges opts subtreeIds es seen
           | Some step \<Rightarrow> step # planEdges opts subtreeIds es (edgeKey e # seen))"

definition planDuplicate :: "string \<Rightarrow> child_map \<Rightarrow> node_data \<Rightarrow> edge_input list \<Rightarrow> duplicate_options \<Rightarrow> node_step list \<times> edge_step list" where
  "planDuplicate rootId childMap nodeData lineageEdges opts =
     (let st = visitEach (do_includeDescendants opts) childMap nodeData None [rootId] \<lparr>ps_visited = [], ps_subtreeIds = [], ps_nodes = []\<rparr>
      in (ps_nodes st, planEdges opts (ps_subtreeIds st) lineageEdges []))"

lemma plan_nodes:
  assumes "planDuplicate r childMap nodeData edges opts = (nodes, steps)"
  defines "desc \<equiv> do_includeDescendants opts"
  shows "stepsOk childMap nodeData r nodes" "distinct (map ns_originalId nodes)"
    "x \<in> ns_originalId ` set nodes \<longleftrightarrow> inCopy desc childMap nodeData r x"
    "steps = planEdges opts (map ns_originalId nodes) edges []"
proof -
  let ?st0 = "\<lparr>ps_visited = [], ps_subtreeIds = [], ps_nodes = []\<rparr>"
  define st where "st = visitEach desc childMap nodeData None [r] ?st0"
  have run: "visits desc childMap nodeData None [r] ?st0 st" unfolding st_def by (rule visits_visitEach)
  have eqs: "nodes = ps_nodes st" "steps = planEdges opts (ps_subtreeIds st) edges []"
    using assms(1) unfolding planDuplicate_def Let_def desc_def [symmetric] st_def [symmetric] by simp_all
  have inv: "planInv desc childMap nodeData r st"
    using planInv_visits [OF run, of r] by (simp add: planInv_def canVisit_def)
  then have ids: "map ns_originalId nodes = ps_subtreeIds st" using eqs by (simp add: planInv_def)
  show "stepsOk childMap nodeData r nodes" "distinct (map ns_originalId nodes)"
    using inv eqs by (auto simp: planInv_def)
  show "steps = planEdges opts (map ns_originalId nodes) edges []" using eqs ids by simp
  have root: "r \<in> set (ps_visited st)"
    using run by cases (auto dest!: visits_keep)
  have "inCopy desc childMap nodeData r x \<Longrightarrow> x \<in> set (ps_subtreeIds st)"
  proof (induction rule: inCopy.induct)
    case (root source)
    then show ?case using \<open>r \<in> set (ps_visited st)\<close> inv by (simp add: planInv_def)
  next
    case (child x y source)
    then have "x \<in> set (ps_visited st)" "map_of nodeData x \<noteq> None" using inv by (simp_all add: planInv_def)
    then have "y \<in> set (ps_visited st)" using visits_closed [OF run child.hyps(1)] child.hyps(3) by auto
    then show ?case using inv child.hyps(4) by (simp add: planInv_def)
  qed
  moreover have "\<forall>y \<in> set (ps_subtreeIds st). inCopy desc childMap nodeData r y" using inv unfolding planInv_def by blast
  moreover have "ns_originalId ` set nodes = set (ps_subtreeIds st)" using ids by (metis set_map)
  ultimately show "x \<in> ns_originalId ` set nodes \<longleftrightarrow> inCopy desc childMap nodeData r x" by blast
qed

text \<open>The edge a step copies, as a candidate.\<close>

definition stepInput :: "edge_step \<Rightarrow> edge_input" where
  "stepInput s = \<lparr>el_source = es_sourceOriginalId s, el_target = es_targetOriginalId s, el_edgeType = es_edgeType s\<rparr>"

lemma edgeStep_input: "edgeStep opts subtreeIds e = Some s \<Longrightarrow> stepInput s = e"
  by (auto simp: edgeStep_def stepInput_def Let_def split: if_splits)

lemma planEdges_steps: "s \<in> set (planEdges opts ids es seen) \<Longrightarrow> stepInput s \<in> set es \<and> edgeStep opts ids (stepInput s) = Some s"
  by (induction opts ids es seen rule: planEdges.induct) (auto split: if_splits option.splits dest: edgeStep_input)

lemma planEdges_keys:
  "(\<forall>s \<in> set (planEdges opts ids es seen). edgeKey (stepInput s) \<notin> set seen) \<and>
     distinct (map (\<lambda>s. edgeKey (stepInput s)) (planEdges opts ids es seen))"
proof (induction opts ids es seen rule: planEdges.induct)
  case (2 opts ids e es seen)
  show ?case
  proof (cases "edgeKey e \<in> set seen \<or> edgeStep opts ids e = None")
    case True
    then show ?thesis using 2 by auto
  next
    case False
    then obtain s where s: "edgeKey e \<notin> set seen" "edgeStep opts ids e = Some s" by auto
    then show ?thesis using 2(3) [OF s] edgeStep_input [OF s(2)] by auto
  qed
qed simp

lemma edgeStep_key:
  "el_source e = el_source f \<Longrightarrow> el_target e = el_target f \<Longrightarrow> edgeStep opts ids e = None \<longleftrightarrow> edgeStep opts ids f = None"
  by (simp add: edgeStep_def Let_def)

lemma planEdges_wanted:
  "e \<in> set es \<Longrightarrow> edgeStep opts ids e \<noteq> None \<Longrightarrow>
     edgeKey e \<in> set seen \<or> (\<exists>s \<in> set (planEdges opts ids es seen). edgeKey (stepInput s) = edgeKey e)"
proof (induction opts ids es seen rule: planEdges.induct)
  case (2 opts ids f es seen)
  show ?case
  proof (cases "edgeKey f \<in> set seen \<or> edgeStep opts ids f = None")
    case True
    then show ?thesis using 2 by auto
  next
    case False
    then obtain s where s: "edgeKey f \<notin> set seen" "edgeStep opts ids f = Some s" by auto
    then show ?thesis using 2(3) [OF s] 2(4,5) edgeStep_input [OF s(2)] by auto
  qed
qed simp

lemma keys_tell_edges_apart:
  assumes "CHR 0x00 \<notin> set (el_source e @ el_target e @ el_source f @ el_target f)"
  shows "edgeKey e = edgeKey f \<longleftrightarrow> el_source e = el_source f \<and> el_target e = el_target f \<and>
    jsUpper (el_edgeType e) = jsUpper (el_edgeType f)"
proof -
  have inj: "map (of_char :: char \<Rightarrow> nat) xs = map of_char ys \<longleftrightarrow> xs = ys" for xs ys
    by (simp add: inj_map_eq_map inj_on_def)
  have z: "(0 :: nat) \<notin> set (map of_char xs)" if "CHR 0x00 \<notin> set xs" for xs
  proof -
    have "of_char (CHR 0x00) = (0 :: nat)" by simp
    then have "of_char c = (0 :: nat) \<longleftrightarrow> c = CHR 0x00" for c
      using of_char_eq_iff [of c "CHR 0x00", where 'a = nat] by (simp only:)
    then show ?thesis using that unfolding set_map by (metis imageE)
  qed
  have src: "0 \<notin> set (map (of_char :: char \<Rightarrow> nat) (el_source e))" "0 \<notin> set (map (of_char :: char \<Rightarrow> nat) (el_source f))"
    and tgt: "0 \<notin> set (map (of_char :: char \<Rightarrow> nat) (el_target e))" "0 \<notin> set (map (of_char :: char \<Rightarrow> nat) (el_target f))"
    using assms by (intro z; simp)+
  show ?thesis
  proof
    assume "edgeKey e = edgeKey f"
    then have k: "map of_char (el_source e) @ 0 # (map of_char (el_target e) @ 0 # jsUpper (el_edgeType e)) =
        map of_char (el_source f) @ (0 :: nat) # (map of_char (el_target f) @ 0 # jsUpper (el_edgeType f))"
      unfolding edgeKey_def append_Cons append_Nil append_assoc .
    note 1 = first_split_unique [OF src k]
    note 2 = first_split_unique [OF tgt conjunct2 [OF 1]]
    show "el_source e = el_source f \<and> el_target e = el_target f \<and>
        jsUpper (el_edgeType e) = jsUpper (el_edgeType f)"
      using 1 2 inj by blast
  qed (simp add: edgeKey_def)
qed

section \<open>Staging the plan\<close>

text \<open>\<open>stageEntity\<close> is given what it stages and hands back a temporary URN, here the next one of \<open>urns\<close>; an edge is
  staged with its type and ends.\<close>

record entity_input =
  ei_entityType :: string
  ei_displayName :: string
  ei_parentUrn :: "string option"
  ei_tags :: "string list"
  ei_description :: "string option"
  ei_sourceSystem :: "string option"
  ei_properties :: bag
  ei_containmentEdgeType :: "string option"

record prepared =
  pr_nodeId :: string
  pr_tooBig :: bool
  pr_childMap :: child_map
  pr_nodeData :: node_data
  pr_lineageEdges :: "edge_input list"
  pr_originalParentUrn :: "string option"

record commit =
  cm_stagedUrns :: "(string \<times> string) list"
  cm_rootCopyUrn :: "string option"
  cm_entities :: "(string \<times> entity_input) list"

definition DUPLICATE_MAX :: nat where
  "DUPLICATE_MAX = 2000"

definition entityInput :: "string option \<Rightarrow> string option \<Rightarrow> node_step \<Rightarrow> entity_input" where
  "entityInput name parentUrn step =
     (let isRoot = (ns_parentOriginalId step = None)
      in \<lparr>ei_entityType = ns_entityType step,
          ei_displayName = (if isRoot \<and> truthyStr (map_option jsTrim name) then jsTrim (the name) else ns_displayName step),
          ei_parentUrn = parentUrn, ei_tags = ns_tags step,
          ei_description = (case objGet (ns_properties step) ''description'' of JStr d \<Rightarrow> Some d | _ \<Rightarrow> None),
          ei_sourceSystem = ns_sourceSystem step, ei_properties = AList.delete ''description'' (ns_properties step),
          ei_containmentEdgeType = ns_containmentEdgeType step\<rparr>)"

definition stageStep :: "string option \<Rightarrow> string option \<Rightarrow> node_step \<times> string \<Rightarrow> commit \<Rightarrow> commit" where
  "stageStep name originalParentUrn = (\<lambda>(step, stagedUrn) c.
     let parentUrn = (case ns_parentOriginalId step of Some p \<Rightarrow> map_of (cm_stagedUrns c) p | None \<Rightarrow> originalParentUrn)
     in \<lparr>cm_stagedUrns = AList.update (ns_originalId step) stagedUrn (cm_stagedUrns c),
         cm_rootCopyUrn = (if ns_parentOriginalId step = None then Some stagedUrn else cm_rootCopyUrn c),
         cm_entities = cm_entities c @ [(stagedUrn, entityInput name parentUrn step)]\<rparr>)"

definition stageEdge :: "(string \<times> string) list \<Rightarrow> edge_step \<Rightarrow> edge_input option" where
  "stageEdge stagedUrns s =
     (let src = (if es_keeps s = Some KeepsSource then Some (es_sourceOriginalId s) else map_of stagedUrns (es_sourceOriginalId s));
          tgt = (if es_keeps s = Some KeepsTarget then Some (es_targetOriginalId s) else map_of stagedUrns (es_targetOriginalId s))
      in if \<not> truthyStr src \<or> \<not> truthyStr tgt then None
         else Some \<lparr>el_source = the src, el_target = the tgt, el_edgeType = es_edgeType s\<rparr>)"

definition commitDuplicate ::
  "string list \<Rightarrow> prepared \<Rightarrow> duplicate_options \<Rightarrow> string option \<Rightarrow> (commit \<times> edge_input list) option" where
  "commitDuplicate urns p choice name =
     (if pr_tooBig p \<and> do_includeDescendants choice then None
      else
        let (nodes, edges) = planDuplicate (pr_nodeId p) (pr_childMap p) (pr_nodeData p) (pr_lineageEdges p) choice
        in if DUPLICATE_MAX < length nodes then None
           else let c = fold (stageStep name (pr_originalParentUrn p)) (zip nodes urns) \<lparr>cm_stagedUrns = [], cm_rootCopyUrn = None, cm_entities = []\<rparr>
                in Some (c, List.map_filter (stageEdge (cm_stagedUrns c)) edges))"

lemma update_fresh: "k \<notin> fst ` set m \<Longrightarrow> AList.update k v m = m @ [(k, v)]"
  by (induction m) auto

definition copyParent :: "string option \<Rightarrow> (string \<times> string) list \<Rightarrow> node_step \<Rightarrow> string option" where
  "copyParent originalParentUrn copies s = (case ns_parentOriginalId s of None \<Rightarrow> originalParentUrn | Some p \<Rightarrow> map_of copies p)"

lemma copyParent_more:
  assumes "stepOk childMap nodeData r before s" "length us = length before"
  shows "copyParent op (zip (map ns_originalId before) us @ rest) s = copyParent op (zip (map ns_originalId before) us) s"
proof (cases "ns_parentOriginalId s")
  case (Some p)
  then have "p \<in> set (map ns_originalId before)" using assms(1) by (auto simp: stepOk_def)
  then have "p \<in> dom (map_of (zip (map ns_originalId before) us))" using assms(2) by simp
  then show ?thesis using Some by (auto simp: copyParent_def map_add_def)
qed (simp add: copyParent_def)

lemma zip_shorter: "zip xs (take (length xs) ys) = zip xs ys"
  by (metis length_zip min.cobounded1 order_refl take_all take_zip)

lemma stage_all:
  assumes "length us = length nodes" "distinct (map ns_originalId nodes)" "stepsOk childMap nodeData r nodes"
  shows "fold (stageStep name op) (zip nodes us) \<lparr>cm_stagedUrns = [], cm_rootCopyUrn = None, cm_entities = []\<rparr> =
    \<lparr>cm_stagedUrns = zip (map ns_originalId nodes) us, cm_rootCopyUrn = (if us = [] then None else Some (hd us)),
     cm_entities = map (\<lambda>(s, u). (u, entityInput name (copyParent op (zip (map ns_originalId nodes) us) s) s)) (zip nodes us)\<rparr>"
  using assms
proof (induction nodes arbitrary: us rule: rev_induct)
  case (snoc s nodes)
  obtain vs u where us: "us = vs @ [u]" using snoc.prems(1) by (cases us rule: rev_cases) auto
  have len: "length vs = length nodes" using snoc.prems(1) us by simp
  have ok: "stepsOk childMap nodeData r nodes" "stepOk childMap nodeData r nodes s" and d: "distinct (map ns_originalId nodes)"
    using snoc.prems by simp_all
  let ?m = "zip (map ns_originalId nodes) vs"
  have fresh: "ns_originalId s \<notin> fst ` set ?m" using snoc.prems(2) len by (auto dest: set_zip_leftD)
  have zips: "zip (nodes @ [s]) us = zip nodes vs @ [(s, u)]" "zip (map ns_originalId (nodes @ [s])) us = ?m @ [(ns_originalId s, u)]"
    using len us by simp_all
  have earlier: "copyParent op (?m @ [(ns_originalId s, u)]) t = copyParent op ?m t" if t: "t \<in> set nodes" for t
  proof -
    obtain before after where b: "nodes = before @ t # after" using split_list [OF t] by blast
    then have "stepOk childMap nodeData r before t" using ok(1) by (simp add: stepsOk_def)
    moreover have "zip (map ns_originalId nodes) vs = zip (map ns_originalId before) (take (length before) vs) @
        zip (map ns_originalId (t # after)) (drop (length before) vs)"
      unfolding b map_append using len b by (subst zip_append1) simp
    moreover have "length (take (length before) vs) = length before" using len b by simp
    ultimately show ?thesis using copyParent_more [of childMap nodeData r before t] by (metis append_assoc)
  qed
  have root: "ns_parentOriginalId s = None \<longleftrightarrow> nodes = []"
    using ok(2) by (auto simp: stepOk_def split: option.splits)
  have self: "copyParent op (?m @ [(ns_originalId s, u)]) s = copyParent op ?m s"
    using copyParent_more [OF ok(2) len] .
  show ?case
    unfolding zips fold_append comp_def snoc.IH [OF len d ok(1)]
    using fresh earlier root len self us
    by (auto simp: stageStep_def Let_def update_fresh copyParent_def [symmetric] hd_append split: option.splits dest: set_zip_leftD)
qed simp

section \<open>What a selection duplicates\<close>

text \<open>The loop up the parents of \<open>x\<close>: does it meet a chosen entity before it ends, comes back to \<open>x\<close> or goes round?\<close>

partial_function (option) insideAnother ::
  "(string \<Rightarrow> string option) \<Rightarrow> string list \<Rightarrow> string \<Rightarrow> string option \<Rightarrow> string list \<Rightarrow> bool option" where
  "insideAnother parentOf chosen x p visited =
     (if truthyStr p \<and> p \<noteq> Some x \<and> the p \<notin> set visited
      then if the p \<in> set chosen then Some True else insideAnother parentOf chosen x (parentOf (the p)) (visited @ [the p])
      else Some False)"

fun keepTopmost :: "(string \<Rightarrow> string option) \<Rightarrow> string list \<Rightarrow> string list \<Rightarrow> string list option" where
  "keepTopmost parentOf chosen [] = Some []"
| "keepTopmost parentOf chosen (x # xs) =
     (case insideAnother parentOf chosen x (parentOf x) [] of
        None \<Rightarrow> None
      | Some inside \<Rightarrow> map_option (\<lambda>kept. if inside then kept else x # kept) (keepTopmost parentOf chosen xs))"

definition topmostOf :: "string list \<Rightarrow> (string \<Rightarrow> string option) \<Rightarrow> string list option" where
  "topmostOf ids parentOf = keepTopmost parentOf ids ids"

definition parentRel :: "(string \<Rightarrow> string option) \<Rightarrow> string \<Rightarrow> string \<Rightarrow> bool" where
  "parentRel parentOf x y \<longleftrightarrow> parentOf x = Some y \<and> y \<noteq> []"

definition chainInv :: "(string \<Rightarrow> string option) \<Rightarrow> string list \<Rightarrow> string \<Rightarrow> string option \<Rightarrow> string list \<Rightarrow> bool" where
  "chainInv parentOf chosen x p visited \<longleftrightarrow>
     (\<forall>y \<in> set visited. y \<notin> set chosen \<and> y \<in> ran parentOf) \<and>
     (\<forall>y \<in> insert x (set visited). parentOf y = p \<or> parentOf y \<in> Some ` set visited) \<and>
     (\<forall>y. p = Some y \<and> y \<noteq> [] \<longrightarrow> (parentRel parentOf)\<^sup>+\<^sup>+ x y \<and> y \<in> ran parentOf)"

lemma chain_closed:
  assumes "(parentRel parentOf)\<^sup>+\<^sup>+ x y" "\<And>v w. v \<in> insert x V \<Longrightarrow> parentRel parentOf v w \<Longrightarrow> w \<in> insert x V"
  shows "y \<in> insert x V"
  using assms by (induction rule: tranclp_induct) blast+

lemma insideAnother_decides:
  assumes "finite (ran parentOf)" "chainInv parentOf chosen x p visited"
  shows "insideAnother parentOf chosen x p visited = Some (\<exists>y \<in> set chosen. y \<noteq> x \<and> (parentRel parentOf)\<^sup>+\<^sup>+ x y)"
  using assms(2)
proof (induction "card (ran parentOf - set visited)" arbitrary: p visited rule: less_induct)
  case less
  note inv = less.prems [unfolded chainInv_def]
  show ?case
  proof (cases "truthyStr p \<and> p \<noteq> Some x \<and> the p \<notin> set visited")
    case False
    have closed: "w \<in> insert x (set visited)" if v: "v \<in> insert x (set visited)" "parentRel parentOf v w" for v w
    proof -
      have "p = Some w \<or> Some w \<in> Some ` set visited" using inv v by (force simp: parentRel_def)
      then show ?thesis using False v(2) by (auto simp: parentRel_def)
    qed
    have "(parentRel parentOf)\<^sup>+\<^sup>+ x y \<Longrightarrow> y \<in> insert x (set visited)" for y
      by (rule chain_closed) (assumption, rule closed)
    then have none: "(\<exists>y \<in> set chosen. y \<noteq> x \<and> (parentRel parentOf)\<^sup>+\<^sup>+ x y) = False" using inv by blast
    have "insideAnother parentOf chosen x p visited = Some False" using False by (subst insideAnother.simps) argo
    then show ?thesis by (simp only: none)
  next
    case True
    then obtain y where y: "p = Some y" "y \<noteq> []" "y \<noteq> x" "y \<notin> set visited" by (cases p) auto
    have anc: "(parentRel parentOf)\<^sup>+\<^sup>+ x y" "y \<in> ran parentOf" using inv y by blast+
    show ?thesis
    proof (cases "y \<in> set chosen")
      case chosen: True
      then show ?thesis using y anc by (subst insideAnother.simps) auto
    next
      case False
      have "chainInv parentOf chosen x (parentOf y) (visited @ [y])"
        unfolding chainInv_def
      proof (intro conjI allI impI)
        show "\<forall>v \<in> set (visited @ [y]). v \<notin> set chosen \<and> v \<in> ran parentOf" using inv False anc by auto
        show "\<forall>v \<in> insert x (set (visited @ [y])). parentOf v = parentOf y \<or> parentOf v \<in> Some ` set (visited @ [y])"
          using inv y(1) by auto
        fix z assume z: "parentOf y = Some z \<and> z \<noteq> []"
        then have "parentRel parentOf y z" by (simp add: parentRel_def)
        then show "(parentRel parentOf)\<^sup>+\<^sup>+ x z" using anc(1) by (rule tranclp.trancl_into_trancl [rotated])
        show "z \<in> ran parentOf" using z by (auto simp: ran_def)
      qed
      moreover have "card (ran parentOf - set (visited @ [y])) < card (ran parentOf - set visited)"
        by (rule psubset_card_mono) (use assms(1) y(4) anc(2) in auto)
      ultimately have "insideAnother parentOf chosen x (parentOf y) (visited @ [y]) =
          Some (\<exists>y \<in> set chosen. y \<noteq> x \<and> (parentRel parentOf)\<^sup>+\<^sup>+ x y)" by (intro less.hyps)
      then show ?thesis using y False by (subst insideAnother.simps) simp
    qed
  qed
qed

lemma insideAnother_iff:
  assumes "finite (ran parentOf)"
  shows "insideAnother parentOf chosen x (parentOf x) [] = Some (\<exists>y \<in> set chosen. y \<noteq> x \<and> (parentRel parentOf)\<^sup>+\<^sup>+ x y)"
  by (rule insideAnother_decides [OF assms]) (auto simp: chainInv_def parentRel_def ran_def)

lemma keepTopmost_filter:
  assumes "finite (ran parentOf)"
  shows "keepTopmost parentOf chosen xs = Some (filter (\<lambda>x. \<not> (\<exists>y \<in> set chosen. y \<noteq> x \<and> (parentRel parentOf)\<^sup>+\<^sup>+ x y)) xs)"
  by (induction xs) (simp_all add: insideAnother_iff [OF assms])

lemma topmost_covers:
  assumes "finite (ran parentOf)" "acyclicP (parentRel parentOf)" "x \<in> set ids"
  shows "\<exists>y \<in> set ids. (parentRel parentOf)\<^sup>*\<^sup>* x y \<and> \<not> (\<exists>z \<in> set ids. z \<noteq> y \<and> (parentRel parentOf)\<^sup>+\<^sup>+ y z)"
  using assms(3)
proof (induction "card {y. (parentRel parentOf)\<^sup>+\<^sup>+ x y}" arbitrary: x rule: less_induct)
  case less
  show ?case
  proof (cases "\<exists>z \<in> set ids. z \<noteq> x \<and> (parentRel parentOf)\<^sup>+\<^sup>+ x z")
    case True
    then obtain z where z: "z \<in> set ids" "(parentRel parentOf)\<^sup>+\<^sup>+ x z" by blast
    have "y \<in> ran parentOf" if "(parentRel parentOf)\<^sup>+\<^sup>+ x y" for y
      using that by cases (auto simp: parentRel_def ran_def)
    then have fin: "finite {y. (parentRel parentOf)\<^sup>+\<^sup>+ x y}" by (intro finite_subset [OF _ assms(1)]) blast
    have "\<not> (parentRel parentOf)\<^sup>+\<^sup>+ z z" using assms(2) by (simp add: acyclic_def tranclp_unfold)
    then have "{y. (parentRel parentOf)\<^sup>+\<^sup>+ z y} \<subset> {y. (parentRel parentOf)\<^sup>+\<^sup>+ x y}" using z(2) by (auto intro: tranclp_trans)
    then obtain y where "y \<in> set ids" "(parentRel parentOf)\<^sup>*\<^sup>* z y" "\<not> (\<exists>w \<in> set ids. w \<noteq> y \<and> (parentRel parentOf)\<^sup>+\<^sup>+ y w)"
      using less.hyps [OF psubset_card_mono [OF fin] z(1)] by blast
    then show ?thesis using z(2) by (meson rtranclp_trans tranclp_into_rtranclp)
  next
    case False
    then show ?thesis using less.prems by blast
  qed
qed

section \<open>Properties\<close>

lemma nodeStep_provenance:
  "objGet (ns_properties (nodeStep x parent source)) ''duplicatedFrom'' = JStr (ns_originalUrn (nodeStep x parent source))"
  by (simp add: nodeStep_def Let_def objGet_update)

lemma edgeStep_keeps:
  assumes "edgeStep opts ids (stepInput s) = Some s"
  shows "es_keeps s = (if es_sourceOriginalId s \<in> set ids \<and> es_targetOriginalId s \<in> set ids then None
       else if es_targetOriginalId s \<in> set ids then Some KeepsSource else Some KeepsTarget)"
    "es_sourceOriginalId s \<in> set ids \<or> es_targetOriginalId s \<in> set ids"
  using assms by (auto simp: edgeStep_def stepInput_def Let_def split: if_splits dest: arg_cong [of _ s es_keeps])

lemma stageEdge_step:
  assumes step: "edgeStep opts ids (stepInput s) = Some s" and ids: "length ids = length us" "[] \<notin> set us"
    and ends: "es_sourceOriginalId s \<noteq> []" "es_targetOriginalId s \<noteq> []"
  defines "copy \<equiv> \<lambda>x. case map_of (zip ids us) x of None \<Rightarrow> x | Some u \<Rightarrow> u"
  shows "stageEdge (zip ids us) s =
    Some \<lparr>el_source = copy (es_sourceOriginalId s), el_target = copy (es_targetOriginalId s), el_edgeType = es_edgeType s\<rparr>"
proof -
  have outside: "map_of (zip ids us) x = None \<longleftrightarrow> x \<notin> set ids" for x
    using ids(1) by (simp add: map_of_eq_None_iff flip: set_map)
  have known: "truthyStr (map_of (zip ids us) x)" if x: "x \<in> set ids" for x
  proof -
    obtain u where u: "map_of (zip ids us) x = Some u" using x outside by (cases "map_of (zip ids us) x") auto
    then have "u \<in> set us" by (auto dest!: map_of_SomeD set_zip_rightD)
    then show ?thesis using ids(2) u by auto
  qed
  show ?thesis
    using edgeStep_keeps [OF step] ends outside [of "es_sourceOriginalId s"] outside [of "es_targetOriginalId s"]
      known [of "es_sourceOriginalId s"] known [of "es_targetOriginalId s"]
    unfolding copy_def stageEdge_def Let_def
    by (cases "es_sourceOriginalId s \<in> set ids"; cases "es_targetOriginalId s \<in> set ids") (auto split: option.splits)
qed

text \<open>
  C24. A duplicate plans each entity of the subtree whose data are known exactly once, the root first and every other one
  after its parent, stamped with the original it copies; and it plans each wanted relationship once, however often and in
  whatever letter case it was read, and no other.
\<close>

theorem duplicate_plans_the_subtree_once:
  "case planDuplicate r childMap nodeData es opts of (nodes, steps) \<Rightarrow>
     stepsOk childMap nodeData r nodes \<and> distinct (map ns_originalId nodes) \<and>
     (\<forall>x. x \<in> ns_originalId ` set nodes \<longleftrightarrow> inCopy (do_includeDescendants opts) childMap nodeData r x) \<and>
     (\<forall>s \<in> set nodes. objGet (ns_properties s) ''duplicatedFrom'' = JStr (ns_originalUrn s)) \<and>
     (\<forall>s \<in> set steps. stepInput s \<in> set es \<and> edgeStep opts (map ns_originalId nodes) (stepInput s) = Some s) \<and>
     (\<forall>e \<in> set es. edgeStep opts (map ns_originalId nodes) e \<noteq> None \<longrightarrow> (\<exists>s \<in> set steps. edgeKey (stepInput s) = edgeKey e)) \<and>
     distinct (map (\<lambda>s. edgeKey (stepInput s)) steps)"
proof -
  obtain nodes steps where plan: "planDuplicate r childMap nodeData es opts = (nodes, steps)" by fastforce
  note nodes = plan_nodes(1-3) [OF plan] and steps = plan_nodes(4) [OF plan]
  have "objGet (ns_properties s) ''duplicatedFrom'' = JStr (ns_originalUrn s)" if s: "s \<in> set nodes" for s
  proof -
    obtain before after where "nodes = before @ s # after" using split_list [OF s] by blast
    then have "stepOk childMap nodeData r before s" using nodes(1) by (simp add: stepsOk_def)
    then obtain source where "s = nodeStep (ns_originalId s) (ns_parentOriginalId s) source" by (auto simp: stepOk_def)
    then show ?thesis by (metis nodeStep_provenance)
  qed
  moreover have "\<forall>e \<in> set es. edgeStep opts (map ns_originalId nodes) e \<noteq> None \<longrightarrow> (\<exists>s \<in> set steps. edgeKey (stepInput s) = edgeKey e)"
    unfolding steps using planEdges_wanted [of _ es opts "map ns_originalId nodes" "[]"] by simp
  moreover have "\<forall>s \<in> set steps. stepInput s \<in> set es \<and> edgeStep opts (map ns_originalId nodes) (stepInput s) = Some s"
    unfolding steps using planEdges_steps by blast
  moreover have "distinct (map (\<lambda>s. edgeKey (stepInput s)) steps)" unfolding steps using planEdges_keys by blast
  ultimately show ?thesis using nodes unfolding plan prod.case by blast
qed

text \<open>
  Staging a plan of at most 2000 entities recreates its structure: entity by entity its copy is staged under the copy
  of its parent, the root's beside the original, and every planned edge is staged between the copies, an end outside the
  copy kept.
\<close>

lemma commit_recreates_the_structure:
  assumes "planDuplicate (pr_nodeId p) (pr_childMap p) (pr_nodeData p) (pr_lineageEdges p) choice = (nodes, steps)"
    and "length nodes \<le> DUPLICATE_MAX" "\<not> (pr_tooBig p \<and> do_includeDescendants choice)"
    and "length nodes \<le> length urns" "[] \<notin> set urns" "\<forall>s \<in> set steps. es_sourceOriginalId s \<noteq> [] \<and> es_targetOriginalId s \<noteq> []"
  defines "copies \<equiv> zip (map ns_originalId nodes) urns"
  defines "copy \<equiv> \<lambda>x. case map_of copies x of None \<Rightarrow> x | Some u \<Rightarrow> u"
  shows "\<exists>c. commitDuplicate urns p choice name = Some (c,
      map (\<lambda>s. \<lparr>el_source = copy (es_sourceOriginalId s), el_target = copy (es_targetOriginalId s), el_edgeType = es_edgeType s\<rparr>) steps) \<and>
    cm_entities c = map (\<lambda>(s, u). (u, entityInput name (case ns_parentOriginalId s of None \<Rightarrow> pr_originalParentUrn p | Some q \<Rightarrow> Some (copy q)) s))
      (zip nodes urns) \<and>
    cm_rootCopyUrn c = (if nodes = [] then None else Some (hd urns))"
proof -
  define us where "us = take (length nodes) urns"
  have us: "length us = length nodes" "[] \<notin> set us" using assms(4,5) by (auto simp: us_def dest: in_set_takeD)
  have z: "zip nodes urns = zip nodes us" "copies = zip (map ns_originalId nodes) us"
    unfolding us_def copies_def by (metis length_map zip_shorter)+
  note nodes = plan_nodes(1,2) [OF assms(1)] and steps = plan_nodes(4) [OF assms(1)]
  note all = stage_all [OF us(1) nodes(2,1), of name "pr_originalParentUrn p"]
  have parents: "copyParent (pr_originalParentUrn p) copies s =
      (case ns_parentOriginalId s of None \<Rightarrow> pr_originalParentUrn p | Some q \<Rightarrow> Some (copy q))" if s: "s \<in> set nodes" for s
  proof (cases "ns_parentOriginalId s")
    case (Some q)
    obtain before after where b: "nodes = before @ s # after" using split_list [OF s] by blast
    then have "stepOk (pr_childMap p) (pr_nodeData p) (pr_nodeId p) before s" using nodes(1) by (simp add: stepsOk_def)
    then have "q \<in> set (map ns_originalId nodes)" using Some b by (auto simp: stepOk_def)
    then have "map_of copies q \<noteq> None" using us(1) by (simp add: z(2) map_of_eq_None_iff flip: set_map)
    then show ?thesis using Some by (auto simp: copyParent_def copy_def)
  qed (simp add: copyParent_def)
  have edges: "stageEdge copies s = Some \<lparr>el_source = copy (es_sourceOriginalId s), el_target = copy (es_targetOriginalId s), el_edgeType = es_edgeType s\<rparr>"
    if s: "s \<in> set steps" for s
    unfolding copy_def z(2)
    by (rule stageEdge_step) (use planEdges_steps [OF s [unfolded steps]] us assms(6) s in auto)
  have edges': "List.map_filter (stageEdge copies) steps =
      map (\<lambda>s. \<lparr>el_source = copy (es_sourceOriginalId s), el_target = copy (es_targetOriginalId s), el_edgeType = es_edgeType s\<rparr>) steps"
    using edges by (induction steps) (simp_all add: List.map_filter_simps)
  define c where "c = fold (stageStep name (pr_originalParentUrn p)) (zip nodes urns) \<lparr>cm_stagedUrns = [], cm_rootCopyUrn = None, cm_entities = []\<rparr>"
  have c: "cm_stagedUrns c = copies" "cm_rootCopyUrn c = (if us = [] then None else Some (hd us))"
    "cm_entities c = map (\<lambda>(s, u). (u, entityInput name (copyParent (pr_originalParentUrn p) copies s) s)) (zip nodes us)"
    unfolding c_def z all by simp_all
  have "commitDuplicate urns p choice name = Some (c, List.map_filter (stageEdge copies) steps)"
    using assms(2,3) unfolding commitDuplicate_def assms(1) c(1) [symmetric] by (simp add: c_def Let_def)
  moreover have "cm_entities c = map (\<lambda>(s, u). (u, entityInput name (case ns_parentOriginalId s of None \<Rightarrow> pr_originalParentUrn p | Some q \<Rightarrow> Some (copy q)) s))
      (zip nodes urns)"
    unfolding c(3) z(1) using parents by (auto dest!: set_zip_leftD)
  moreover have "cm_rootCopyUrn c = (if nodes = [] then None else Some (hd urns))"
    unfolding c(2) using us(1) assms(4) by (auto simp: us_def hd_take)
  ultimately show ?thesis unfolding edges' by blast
qed

text \<open>
  What a selection duplicates is each selected entity that lies inside no other selected one, whatever the chain of
  parents does; and where containment has no cycle, every selected entity is inside one that is duplicated.
\<close>

lemma selection_is_duplicated_once:
  assumes "finite (ran parentOf)"
  shows "\<exists>kept. topmostOf ids parentOf = Some kept \<and>
    kept = filter (\<lambda>x. \<not> (\<exists>y \<in> set ids. y \<noteq> x \<and> (parentRel parentOf)\<^sup>+\<^sup>+ x y)) ids \<and>
    (acyclicP (parentRel parentOf) \<longrightarrow> (\<forall>x \<in> set ids. \<exists>y \<in> set kept. (parentRel parentOf)\<^sup>*\<^sup>* x y))"
  unfolding topmostOf_def keepTopmost_filter [OF assms]
proof (intro exI conjI impI ballI)
  fix x assume x: "acyclicP (parentRel parentOf)" "x \<in> set ids"
  show "\<exists>y \<in> set (filter (\<lambda>x. \<not> (\<exists>y \<in> set ids. y \<noteq> x \<and> (parentRel parentOf)\<^sup>+\<^sup>+ x y)) ids). (parentRel parentOf)\<^sup>*\<^sup>* x y"
    using topmost_covers [OF assms x] unfolding set_filter by blast
qed (rule refl)+

section \<open>Examples\<close>

text \<open>A table in a schema with two columns, one of them without data, a lineage edge between a column and an outside table.\<close>

definition duplicate_example :: prepared where
  "duplicate_example =
     (let node = (\<lambda>u n. \<lparr>sn_urn = u, sn_entityType = ''table'', sn_displayName = n, sn_tags = None, sn_properties = None,
        sn_description = Some ''d'', sn_containmentEdgeType = Some ''HAS'', sn_sourceSystem = None\<rparr>)
      in \<lparr>pr_nodeId = ''t'', pr_tooBig = False, pr_childMap = [(''t'', [''a'', ''b'', ''x'']), (''a'', [''t''])],
          pr_nodeData = [(''t'', node ''ut'' ''T''), (''a'', node ''ua'' ''A''), (''b'', node ''ub'' ''B'')],
          pr_lineageEdges = [\<lparr>el_source = ''a'', el_target = ''b'', el_edgeType = ''feeds''\<rparr>,
            \<lparr>el_source = ''a'', el_target = ''b'', el_edgeType = ''FEEDS''\<rparr>, \<lparr>el_source = ''o'', el_target = ''b'', el_edgeType = ''feeds''\<rparr>],
          pr_originalParentUrn = Some ''s''\<rparr>)"

definition example_options :: duplicate_options where
  "example_options = defaultOptions\<lparr>do_incoming := True\<rparr>"

definition example_plan :: "node_step list \<times> edge_step list" where
  "example_plan = planDuplicate (pr_nodeId duplicate_example) (pr_childMap duplicate_example) (pr_nodeData duplicate_example)
     (pr_lineageEdges duplicate_example) example_options"

lemma example_plan_shape:
  "map (\<lambda>s. (ns_originalId s, ns_displayName s, ns_parentOriginalId s)) (fst example_plan) =
     [(''t'', ''T (Copy)'', None), (''a'', ''A'', Some ''t''), (''b'', ''B'', Some ''t'')]"
  "map (\<lambda>s. (es_sourceOriginalId s, es_targetOriginalId s, es_keeps s)) (snd example_plan) =
     [(''a'', ''b'', None), (''o'', ''b'', Some KeepsSource)]"
  by code_simp+

theorem duplicate_plans_the_subtree_once_witness:
  "distinct (map ns_originalId (fst example_plan)) \<and> length (fst example_plan) = 3 \<and>
    inCopy True (pr_childMap duplicate_example) (pr_nodeData duplicate_example) ''t'' ''a''"
proof -
  have len: "length (fst example_plan) = 3" and a: "''a'' \<in> ns_originalId ` set (fst example_plan)" by code_simp+
  have o: "do_includeDescendants example_options" "pr_nodeId duplicate_example = ''t''" by code_simp+
  show ?thesis
    using duplicate_plans_the_subtree_once [where r = "pr_nodeId duplicate_example" and childMap = "pr_childMap duplicate_example" and
      nodeData = "pr_nodeData duplicate_example" and es = "pr_lineageEdges duplicate_example" and opts = example_options] len a o
    unfolding example_plan_def [symmetric] by (simp only: case_prod_beta)
qed

end
