(* ===== verification/Canvas_Rekey.thy ===== *)
theory Canvas_Rekey
  imports Staged_Ops
begin

text \<open>
  The canvas after a save (\<open>rekeyCanvas\<close> of \<^verbatim>\<open>frontend/src/features/versioning/model/saveStagedChangesToDraft.ts\<close>): there is no reload,
  so each created entity's optimistic node takes its real id, with the edges at it. What the code reads as a string
  (\<open>parentUrn\<close>, \<open>edgeId\<close>) is taken to be one; \<open>childCount\<close> a number. A throw is None.
\<close>

section \<open>The canvas\<close>

record canvas_node =
  cn_id :: string
  cn_data :: bag

record canvas_edge =
  ce_id :: string
  ce_source :: string
  ce_target :: string
  ce_type :: string
  ce_data :: bag

record canvas =
  cv_nodes :: "canvas_node list"
  cv_edges :: "canvas_edge list"

definition resolveRef :: "(string \<times> string) list \<Rightarrow> string \<Rightarrow> string" where
  "resolveRef assigned i = (case map_of assigned i of Some r \<Rightarrow> r | None \<Rightarrow> i)"

text \<open>The temporary URNs of the created entities with their changes, and the pending ids of the drawn links.\<close>

definition createdMap :: "'w change list \<Rightarrow> (string \<times> 'w change) list" where
  "createdMap changes = fold (\<lambda>c m. if ch_type c = CreateEntity then AList.update (targetOf c) c m else m) changes []"

definition pendingLink :: "'w change \<Rightarrow> string option option" where
  "pendingLink c =
     (if ch_type c = CreateEdge \<or> ch_type c = ReverseEdge then Some (Some (ch_targetId c))
      else if ch_type c = MoveEntity then (if nullish (ch_after c) then None else Some (strField (ch_after c) ''edgeId''))
      else Some None)"

fun drawnLinks :: "'w change list \<Rightarrow> string list option" where
  "drawnLinks [] = Some []"
| "drawnLinks (c # cs) =
     (case pendingLink c of
        None \<Rightarrow> None
      | Some l \<Rightarrow> map_option (\<lambda>ls. if truthyStr l then the l # ls else ls) (drawnLinks cs))"

definition maxCount :: "jsval \<Rightarrow> nat \<Rightarrow> jsval" where
  "maxCount v n =
     (case orElse v (JNum (Fin 0)) of
        JNum (Fin q) \<Rightarrow> JNum (Fin (max q (of_nat n)))
      | JNum NegZero \<Rightarrow> JNum (Fin (of_nat n))
      | JNum NegInf \<Rightarrow> JNum (Fin (of_nat n))
      | JNum PosInf \<Rightarrow> JNum PosInf
      | _ \<Rightarrow> JNum NaN)"

definition stagedChildren :: "canvas_edge list \<Rightarrow> string \<Rightarrow> nat" where
  "stagedChildren edges u =
     length (filter (\<lambda>e. ce_type e = ''containment'' \<and> objGet (ce_data e) ''isPending'' = JStr ''create'' \<and> ce_source e = u) edges)"

definition realNode :: "(string \<times> string) list \<Rightarrow> canvas_edge list \<Rightarrow> canvas_node \<Rightarrow> canvas_node" where
  "realNode assigned edges n =
     (let i = resolveRef assigned (cn_id n); d = cn_data n
      in \<lparr>cn_id = i, cn_data = AList.update ''childCount'' (maxCount (objGet d ''childCount'') (stagedChildren edges (cn_id n)))
            (AList.update ''isPending'' JUndefined (AList.update ''urn'' (JStr i) d))\<rparr>)"

definition rebuiltLink :: "(string \<times> string) list \<Rightarrow> string \<times> 'w change \<Rightarrow> canvas_edge list" where
  "rebuiltLink assigned = (\<lambda>(tempUrn, c).
     case (strField (ch_after c) ''parentUrn'', strField (ch_after c) ''containmentEdgeType'') of
       (Some parent, Some et) \<Rightarrow>
         if parent = [] \<or> et = [] then []
         else [\<lparr>ce_id = resolveRef assigned (''contains-'' @ tempUrn), ce_source = resolveRef assigned parent,
                ce_target = resolveRef assigned tempUrn, ce_type = ''containment'',
                ce_data = [(''edgeType'', JStr et), (''relationship'', JStr (jsLower et))]\<rparr>]
     | _ \<Rightarrow> [])"

definition realLink :: "(string \<times> string) list \<Rightarrow> canvas_edge \<Rightarrow> canvas_edge" where
  "realLink assigned e =
     e\<lparr>ce_id := resolveRef assigned (ce_id e), ce_source := resolveRef assigned (ce_source e), ce_target := resolveRef assigned (ce_target e),
       ce_data := AList.update ''isPending'' JUndefined (ce_data e)\<rparr>"

text \<open>The first edge of an id wins.\<close>

fun firstById :: "string list \<Rightarrow> canvas_edge list \<Rightarrow> canvas_edge list" where
  "firstById seen [] = []"
| "firstById seen (e # es) = (if ce_id e \<in> set seen then firstById seen es else e # firstById (ce_id e # seen) es)"

definition rekeyCanvas :: "'w change list \<Rightarrow> (string \<times> string) list \<Rightarrow> canvas \<Rightarrow> canvas option" where
  "rekeyCanvas changes assigned cs =
     (case drawnLinks changes of
        None \<Rightarrow> None
      | Some links \<Rightarrow>
          (let created = createdMap changes; isCreated = (\<lambda>i. map_of created i \<noteq> None)
           in if created = [] \<and> links = [] then Some cs
              else Some \<lparr>cv_nodes = map (\<lambda>n. if \<not> isCreated (cn_id n) then n else realNode assigned (cv_edges cs) n) (cv_nodes cs),
                cv_edges = firstById []
                  (filter (\<lambda>e. ce_id e \<notin> set links \<and> \<not> isCreated (ce_source e) \<and> \<not> isCreated (ce_target e)) (cv_edges cs) @
                   concat (map (rebuiltLink assigned) created) @
                   map (realLink assigned) (filter (\<lambda>e. ce_id e \<in> set links) (cv_edges cs)))\<rparr>))"

section \<open>Properties\<close>

lemma firstById_ids: "set (map ce_id (firstById seen es)) = set (map ce_id es) - set seen" "distinct (map ce_id (firstById seen es))"
  by (induction seen es rule: firstById.induct) auto

lemma firstById_sub: "set (firstById seen es) \<subseteq> set es"
  by (induction seen es rule: firstById.induct) auto

lemma firstById_append:
  "distinct (map ce_id es) \<Longrightarrow> set (map ce_id es) \<inter> set seen = {} \<Longrightarrow> \<exists>seen'. firstById seen (es @ fs) = es @ firstById seen' fs"
  by (induction es arbitrary: seen) auto

lemma map_of_createdMap:
  "map_of (createdMap changes) u \<noteq> None \<longleftrightarrow> u \<in> targetOf ` {c \<in> set changes. ch_type c = CreateEntity}"
proof -
  have "map_of (fold (\<lambda>c m. if ch_type c = CreateEntity then AList.update (targetOf c) c m else m) changes m) u \<noteq> None \<longleftrightarrow>
      map_of m u \<noteq> None \<or> u \<in> targetOf ` {c \<in> set changes. ch_type c = CreateEntity}" for m
    by (induction changes arbitrary: m) (auto simp: update_conv')
  from this [of "[]"] show ?thesis by (simp add: createdMap_def)
qed

lemma createdMap_change:
  assumes "(u, c) \<in> set (createdMap changes)"
  shows "c \<in> set changes \<and> ch_type c = CreateEntity \<and> targetOf c = u"
proof -
  have "(u, c) \<in> set (fold (\<lambda>c m. if ch_type c = CreateEntity then AList.update (targetOf c) c m else m) cs m) \<Longrightarrow>
      (u, c) \<in> set m \<or> (c \<in> set cs \<and> ch_type c = CreateEntity \<and> targetOf c = u)" for cs m
  proof (induction cs arbitrary: m)
    case (Cons d cs)
    have sub: "set (AList.update k v m) \<subseteq> insert (k, v) (set m)" for k :: string and v :: "'a change" and m
      by (induction m) auto
    from Cons.prems have "(u, c) \<in> set (if ch_type d = CreateEntity then AList.update (targetOf d) d m else m) \<or>
        (c \<in> set cs \<and> ch_type c = CreateEntity \<and> targetOf c = u)" using Cons.IH by simp
    then show ?case using sub [of "targetOf d" d m] by (auto split: if_splits)
  qed simp
  then show ?thesis using assms by (fastforce simp: createdMap_def)
qed

lemma resolveRef_real:
  assumes "\<forall>u \<in> temps. map_of assigned u \<noteq> None" "ran (map_of assigned) \<inter> temps = {}"
  shows "resolveRef assigned x \<notin> temps"
  using assms by (cases "map_of assigned x") (auto simp: resolveRef_def ran_def)

text \<open>An edge of the re-keyed canvas is kept, rebuilt for a created entity, or a drawn link with real ends.\<close>

lemma rekeyed_edges:
  assumes "rekeyCanvas changes assigned cs = Some cs'" "e \<in> set (cv_edges cs')"
  defines "temps \<equiv> targetOf ` {c \<in> set changes. ch_type c = CreateEntity}"
  obtains (kept) "e \<in> set (cv_edges cs)" "ce_source e \<notin> temps" "ce_target e \<notin> temps" "ce_id e \<notin> set (the (drawnLinks changes))"
  | (rebuilt) c parent where "c \<in> set changes" "ch_type c = CreateEntity" "strField (ch_after c) ''parentUrn'' = Some parent" "parent \<noteq> []"
      "truthyStr (strField (ch_after c) ''containmentEdgeType'')"
      "ce_source e = resolveRef assigned parent" "ce_target e = resolveRef assigned (targetOf c)"
      "ce_id e = resolveRef assigned (''contains-'' @ targetOf c)" "map_of (ce_data e) ''isPending'' = None"
  | (drawn) f where "f \<in> set (cv_edges cs)" "e = realLink assigned f" "ce_id f \<in> set (the (drawnLinks changes))"
proof -
  obtain links where links: "drawnLinks changes = Some links" using assms(1) by (auto simp: rekeyCanvas_def split: option.splits)
  have created: "map_of (createdMap changes) u \<noteq> None \<longleftrightarrow> u \<in> temps" for u by (simp only: map_of_createdMap temps_def)
  show thesis
  proof (cases "createdMap changes = [] \<and> links = []")
    case True
    then have "cs' = cs" using assms(1) links by (simp add: rekeyCanvas_def)
    moreover have "u \<notin> temps" for u using created [of u] True by simp
    ultimately show thesis using kept assms(2) True links by simp
  next
    case False
    define all where "all = filter (\<lambda>e. ce_id e \<notin> set links \<and> \<not> map_of (createdMap changes) (ce_source e) \<noteq> None \<and>
        \<not> map_of (createdMap changes) (ce_target e) \<noteq> None) (cv_edges cs) @
      concat (map (rebuiltLink assigned) (createdMap changes)) @ map (realLink assigned) (filter (\<lambda>e. ce_id e \<in> set links) (cv_edges cs))"
    have "cv_edges cs' = firstById [] all"
      using assms(1) links False unfolding rekeyCanvas_def all_def Let_def by auto
    then have "e \<in> set all" using assms(2) firstById_sub by auto
    then consider "e \<in> set (cv_edges cs)" "ce_source e \<notin> temps" "ce_target e \<notin> temps" "ce_id e \<notin> set links"
      | u c where "(u, c) \<in> set (createdMap changes)" "e \<in> set (rebuiltLink assigned (u, c))"
      | f where "f \<in> set (cv_edges cs)" "e = realLink assigned f" "ce_id f \<in> set links"
      unfolding all_def created by auto
    then show thesis
    proof cases
      case 1
      then show thesis using kept links by simp
    next
      case (2 u c)
      obtain p t where pt: "strField (ch_after c) ''parentUrn'' = Some p" "strField (ch_after c) ''containmentEdgeType'' = Some t"
        using 2(2) by (cases "strField (ch_after c) ''parentUrn''"; cases "strField (ch_after c) ''containmentEdgeType''")
          (auto simp: rebuiltLink_def)
      then show thesis
        using createdMap_change [OF 2(1)] 2(2) rebuilt [of c p] by (auto simp: rebuiltLink_def split: if_splits)
    next
      case (3 f)
      then show thesis using drawn links by simp
    qed
  qed
qed

lemma rekeyed_nodes:
  assumes "rekeyCanvas changes assigned cs = Some cs'"
  shows "map cn_id (cv_nodes cs') = map (\<lambda>n. if cn_id n \<in> targetOf ` {c \<in> set changes. ch_type c = CreateEntity}
    then resolveRef assigned (cn_id n) else cn_id n) (cv_nodes cs)"
proof -
  obtain links where links: "drawnLinks changes = Some links" using assms by (auto simp: rekeyCanvas_def split: option.splits)
  show ?thesis
  proof (cases "createdMap changes = [] \<and> links = []")
    case True
    then show ?thesis using assms links map_of_createdMap [of changes] by (auto simp: rekeyCanvas_def)
  next
    case False
    then show ?thesis
      using assms links unfolding rekeyCanvas_def map_of_createdMap [symmetric] by (auto simp: realNode_def Let_def)
  qed
qed

lemma rekeyed_edge_ids:
  assumes "rekeyCanvas changes assigned cs = Some cs'" "distinct (map ce_id (cv_edges cs))"
  shows "distinct (map ce_id (cv_edges cs'))"
  using assms by (auto simp: rekeyCanvas_def Let_def firstById_ids split: option.splits if_splits)

lemma rekeyed_created_node:
  assumes "rekeyCanvas changes assigned cs = Some cs'" "n \<in> set (cv_nodes cs)"
    "cn_id n \<in> targetOf ` {c \<in> set changes. ch_type c = CreateEntity}"
  shows "\<exists>n' \<in> set (cv_nodes cs'). cn_id n' = resolveRef assigned (cn_id n)
    \<and> map_of (cn_data n') ''urn'' = Some (JStr (resolveRef assigned (cn_id n))) \<and> map_of (cn_data n') ''isPending'' = Some JUndefined"
proof -
  obtain links where links: "drawnLinks changes = Some links" using assms(1) by (auto simp: rekeyCanvas_def split: option.splits)
  have created: "map_of (createdMap changes) (cn_id n) \<noteq> None" using assms(3) by (simp only: map_of_createdMap)
  then have "createdMap changes \<noteq> []" by auto
  then have "cv_nodes cs' = map (\<lambda>n. if map_of (createdMap changes) (cn_id n) = None then n else realNode assigned (cv_edges cs) n) (cv_nodes cs)"
    using assms(1) links by (auto simp: rekeyCanvas_def Let_def)
  then have "realNode assigned (cv_edges cs) n \<in> set (cv_nodes cs')" using assms(2) created by auto
  moreover have "cn_id (realNode assigned (cv_edges cs) n) = resolveRef assigned (cn_id n)"
      "map_of (cn_data (realNode assigned (cv_edges cs) n)) ''urn'' = Some (JStr (resolveRef assigned (cn_id n)))"
      "map_of (cn_data (realNode assigned (cv_edges cs) n)) ''isPending'' = Some JUndefined"
    by (simp_all add: realNode_def Let_def update_conv')
  ultimately show ?thesis by blast
qed

text \<open>The pending ids of a save: those of the links it draws, and of the containments the canvas drew for what it creates.\<close>

definition pendingIds :: "'w change list \<Rightarrow> string set" where
  "pendingIds changes =
     set (the (drawnLinks changes)) \<union> (\<lambda>u. ''contains-'' @ u) ` targetOf ` {c \<in> set changes. ch_type c = CreateEntity}"

text \<open>What a save relies on: its answer names a real id for every entity, link and containment it created (and nothing else that is on
  the canvas); edge ids are distinct; edges and created entities' parents are on the canvas; and a containment the canvas drew for a
  created entity ends at it.\<close>

definition rekeyOk :: "'w change list \<Rightarrow> (string \<times> string) list \<Rightarrow> canvas \<Rightarrow> bool" where
  "rekeyOk changes assigned cs \<longleftrightarrow>
     (let temps = targetOf ` {c \<in> set changes. ch_type c = CreateEntity}; ids = cn_id ` set (cv_nodes cs)
      in (\<forall>u \<in> temps. map_of assigned u \<noteq> None) \<and> (\<forall>l \<in> set (the (drawnLinks changes)). map_of assigned l \<noteq> None)
         \<and> (\<forall>c \<in> set changes. ch_type c = CreateEntity \<and> truthyStr (strField (ch_after c) ''parentUrn'')
              \<and> truthyStr (strField (ch_after c) ''containmentEdgeType'') \<longrightarrow> map_of assigned (''contains-'' @ targetOf c) \<noteq> None)
         \<and> ran (map_of assigned) \<inter> (temps \<union> pendingIds changes) = {} \<and> (\<forall>i \<in> ids - temps. map_of assigned i = None)
         \<and> distinct (map ce_id (cv_edges cs)) \<and> (\<forall>e \<in> set (cv_edges cs). ce_source e \<in> ids \<and> ce_target e \<in> ids)
         \<and> (\<forall>e \<in> set (cv_edges cs). \<forall>u \<in> temps. ce_id e = ''contains-'' @ u \<longrightarrow> ce_id e \<in> set (the (drawnLinks changes)) \<or> ce_target e = u)
         \<and> (\<forall>c \<in> set changes. ch_type c = CreateEntity \<longrightarrow> targetOf c \<in> ids
              \<and> (case strField (ch_after c) ''parentUrn'' of Some p \<Rightarrow> p = [] \<or> p \<in> ids | None \<Rightarrow> True)))"

text \<open>
  C29. After a save that answered a real id for everything it created, the canvas has no trace of a temporary one. Nodes keep
  their places under their real ids, and a created entity's card carries its real URN and is pending no more. No edge has an id that
  was pending (a drawn link's, or that of the containment of a created entity), edge ids are distinct, and every edge joins two nodes
  of the canvas by their real ids.
\<close>

theorem rekeyed_canvas_has_real_ids:
  assumes "rekeyCanvas changes assigned cs = Some cs'" "rekeyOk changes assigned cs"
  defines "temps \<equiv> targetOf ` {c \<in> set changes. ch_type c = CreateEntity}" and "ids \<equiv> cn_id ` set (cv_nodes cs)"
  shows "map cn_id (cv_nodes cs') = map (resolveRef assigned) (map cn_id (cv_nodes cs)) \<and> (\<forall>n \<in> set (cv_nodes cs'). cn_id n \<notin> temps) \<and>
    (\<forall>n \<in> set (cv_nodes cs). cn_id n \<in> temps \<longrightarrow> (\<exists>n' \<in> set (cv_nodes cs'). cn_id n' = resolveRef assigned (cn_id n) \<and>
       map_of (cn_data n') ''urn'' = Some (JStr (resolveRef assigned (cn_id n))) \<and> map_of (cn_data n') ''isPending'' = Some JUndefined)) \<and>
    distinct (map ce_id (cv_edges cs')) \<and>
    (\<forall>e \<in> set (cv_edges cs'). ce_id e \<notin> pendingIds changes \<and>
       ce_source e \<in> resolveRef assigned ` ids - temps \<and> ce_target e \<in> resolveRef assigned ` ids - temps)"
proof -
  let ?links = "set (the (drawnLinks changes))"
  have named: "\<forall>u \<in> temps. map_of assigned u \<noteq> None" "\<forall>l \<in> ?links. map_of assigned l \<noteq> None"
      "\<And>c. c \<in> set changes \<Longrightarrow> ch_type c = CreateEntity \<Longrightarrow> truthyStr (strField (ch_after c) ''parentUrn'') \<Longrightarrow>
         truthyStr (strField (ch_after c) ''containmentEdgeType'') \<Longrightarrow> map_of assigned (''contains-'' @ targetOf c) \<noteq> None"
    and fresh: "ran (map_of assigned) \<inter> (temps \<union> pendingIds changes) = {}" "\<forall>i \<in> ids - temps. map_of assigned i = None"
    and canvas: "distinct (map ce_id (cv_edges cs))" "\<forall>e \<in> set (cv_edges cs). ce_source e \<in> ids \<and> ce_target e \<in> ids"
      "\<forall>e \<in> set (cv_edges cs). \<forall>u \<in> temps. ce_id e = ''contains-'' @ u \<longrightarrow> ce_id e \<in> ?links \<or> ce_target e = u"
    and parents: "\<And>c. c \<in> set changes \<Longrightarrow> ch_type c = CreateEntity \<Longrightarrow> targetOf c \<in> ids
         \<and> (case strField (ch_after c) ''parentUrn'' of Some p \<Rightarrow> p = [] \<or> p \<in> ids | None \<Rightarrow> True)"
    using assms(2) [unfolded rekeyOk_def Let_def, folded temps_def ids_def] by blast+
  have same: "resolveRef assigned i = i" if "i \<in> ids" "i \<notin> temps" for i
    using fresh(2) that by (simp add: resolveRef_def)
  have "ran (map_of assigned) \<inter> temps = {}" using fresh(1) by blast
  note real = resolveRef_real [OF named(1) this]
  have resolved: "resolveRef assigned i \<notin> pendingIds changes" if "map_of assigned i \<noteq> None" for i
    using fresh(1) that by (auto simp: resolveRef_def ran_def)
  have nodes: "map cn_id (cv_nodes cs') = map (resolveRef assigned) (map cn_id (cv_nodes cs))"
    unfolding rekeyed_nodes [OF assms(1)] using same by (auto simp: ids_def temps_def)
  have "cn_id n \<notin> temps" if "n \<in> set (cv_nodes cs')" for n
  proof -
    have "cn_id n \<in> set (map (resolveRef assigned) (map cn_id (cv_nodes cs)))" unfolding nodes [symmetric] using that by simp
    then show ?thesis using real by auto
  qed
  moreover have "ce_id e \<notin> pendingIds changes \<and> ce_source e \<in> resolveRef assigned ` ids - temps \<and> ce_target e \<in> resolveRef assigned ` ids - temps"
    if e: "e \<in> set (cv_edges cs')" for e
    using assms(1) e
  proof (cases rule: rekeyed_edges)
    case kept
    then have "ce_source e \<in> ids - temps" "ce_target e \<in> ids - temps" using canvas(2) by (auto simp: temps_def)
    moreover from this have "ce_id e \<notin> pendingIds changes"
      using kept(1,4) canvas(3) unfolding pendingIds_def temps_def [symmetric] by blast
    ultimately show ?thesis using same by (metis DiffD1 DiffD2 DiffI imageI)
  next
    case (rebuilt c parent)
    then have "targetOf c \<in> ids" "parent \<in> ids" using parents [of c] by auto
    moreover have "map_of assigned (''contains-'' @ targetOf c) \<noteq> None" using named(3) rebuilt by simp
    ultimately show ?thesis using rebuilt real resolved by simp
  next
    case (drawn f)
    then show ?thesis using canvas(2) real resolved named(2) by (simp add: realLink_def)
  qed
  ultimately show ?thesis
    using nodes rekeyed_edge_ids [OF assms(1) canvas(1)] rekeyed_created_node [OF assms(1)] unfolding temps_def by blast
qed

text \<open>A table created in a schema, with a link drawn to it.\<close>

definition rekey_changes :: "unit change list" where
  "rekey_changes =
     (let c = \<lparr>ch_id = ''1'', ch_type = CreateEntity, ch_targetId = ''t'', ch_targetUrn = Some ''t'', ch_before = JUndefined,
        ch_after = JObj [(''parentUrn'', JStr ''s''), (''containmentEdgeType'', JStr ''HAS'')], ch_summary = [], ch_apply = None,
        ch_discard = None, ch_reapply = None, ch_timestamp = 0, ch_error = None, ch_conflict = None\<rparr>
      in [c, c\<lparr>ch_id := ''2'', ch_type := CreateEdge, ch_targetId := ''e'', ch_targetUrn := None,
           ch_after := JObj [(''source'', JStr ''s''), (''target'', JStr ''t'')]\<rparr>])"

definition rekey_canvas :: canvas where
  "rekey_canvas = \<lparr>cv_nodes = [\<lparr>cn_id = ''s'', cn_data = []\<rparr>, \<lparr>cn_id = ''t'', cn_data = [(''isPending'', JStr ''create'')]\<rparr>],
     cv_edges = [\<lparr>ce_id = ''contains-t'', ce_source = ''s'', ce_target = ''t'', ce_type = ''containment'', ce_data = [(''isPending'', JStr ''create'')]\<rparr>,
       \<lparr>ce_id = ''e'', ce_source = ''s'', ce_target = ''t'', ce_type = ''lineage'', ce_data = [(''isPending'', JStr ''create'')]\<rparr>]\<rparr>"

lemma rekey_example_ok: "rekeyOk rekey_changes [(''t'', ''T9''), (''contains-t'', ''C9''), (''e'', ''E9'')] rekey_canvas"
proof -
  have t: "targetOf ` {c \<in> set rekey_changes. ch_type c = CreateEntity} = {''t''}"
  proof -
    have "map targetOf (filter (\<lambda>c. ch_type c = CreateEntity) rekey_changes) = [''t'']" by code_simp
    from arg_cong [OF this, of set] show ?thesis by (simp only: set_map set_filter list.set)
  qed
  have l: "the (drawnLinks rekey_changes) = [''e'']" by code_simp
  have p: "pendingIds rekey_changes = {''e'', ''contains-t''}" by (auto simp: pendingIds_def t l)
  show ?thesis unfolding rekeyOk_def t l p Let_def
    by (auto simp: rekey_canvas_def rekey_changes_def targetOf_def objGet_def ran_def Let_def split: if_splits)
qed

theorem rekeyed_canvas_has_real_ids_witness:
  "\<exists>cs'. rekeyCanvas rekey_changes [(''t'', ''T9''), (''contains-t'', ''C9''), (''e'', ''E9'')] rekey_canvas = Some cs' \<and>
    map cn_id (cv_nodes cs') = [''s'', ''T9''] \<and> (\<forall>e \<in> set (cv_edges cs'). ce_id e \<noteq> ''e'' \<and> ce_id e \<noteq> ''contains-t'')"
proof -
  define asg where "asg = [(''t'', ''T9''), (''contains-t'', ''C9''), (''e'', ''E9'')]"
  obtain cs' where r: "rekeyCanvas rekey_changes asg rekey_canvas = Some cs'"
    by (cases "rekeyCanvas rekey_changes asg rekey_canvas") (simp_all add: asg_def rekeyCanvas_def rekey_changes_def pendingLink_def Let_def)
  note all = rekeyed_canvas_has_real_ids [OF r rekey_example_ok [folded asg_def]]
  have "map cn_id (cv_nodes cs') = map (resolveRef asg) (map cn_id (cv_nodes rekey_canvas))" using all by blast
  moreover have "''e'' \<in> pendingIds rekey_changes" "''contains-t'' \<in> pendingIds rekey_changes"
  proof -
    have "the (drawnLinks rekey_changes) = [''e'']" "map targetOf (filter (\<lambda>c. ch_type c = CreateEntity) rekey_changes) = [''t'']" by code_simp+
    from this(1) arg_cong [OF this(2), of set] show "''e'' \<in> pendingIds rekey_changes" "''contains-t'' \<in> pendingIds rekey_changes"
      by (simp_all only: pendingIds_def set_map set_filter list.set image_insert image_empty) simp_all
  qed
  moreover have "ce_id e \<notin> pendingIds rekey_changes" if "e \<in> set (cv_edges cs')" for e using all that by blast
  ultimately have "\<forall>e \<in> set (cv_edges cs'). ce_id e \<noteq> ''e'' \<and> ce_id e \<noteq> ''contains-t''"
      "map cn_id (cv_nodes cs') = map (resolveRef asg) (map cn_id (cv_nodes rekey_canvas))"
    by metis+
  moreover have "map (resolveRef asg) (map cn_id (cv_nodes rekey_canvas)) = [''s'', ''T9'']"
    by (simp add: asg_def rekey_canvas_def resolveRef_def)
  ultimately show ?thesis using r unfolding asg_def by metis
qed

end
