(* ===== verification/Draft_Save.thy ===== *)
theory Draft_Save
  imports Canvas_Rekey
begin

text \<open>
  Saving a draft: \<^verbatim>\<open>frontend/src/features/versioning/model/saveStagedChangesToDraft.ts\<close>. One save is one
  request, under an idempotency key; a save whose answer was lost is remembered per draft and settled before anything else is
  sent.

  The server is an argument: \<open>send\<close> takes its state, the body of \<^verbatim>\<open>POST /graph/changes\<close> and the key, and gives its
  next state and what the client sees. A request body is compared as text by the code; here it is the tuple of what that text
  spells, with each operation as JSON. The calls into the layout and the entity values of the canvas are collected as effects; a
  save runs without other edits in between.
\<close>

section \<open>Data\<close>

datatype entity_view = LiveView op_kind string jsval | GoneView op_kind

record graph_result =
  gr_commitId :: "string option"
  gr_assigned :: "(string \<times> string) list"
  gr_entities :: "(string \<times> entity_view) list"
  gr_versions :: "(string \<times> string option) list"

record save_error =
  se_class :: string
  se_status :: jsval

datatype reply = Answered graph_result | Failed save_error

type_synonym save_body = "string \<times> string \<times> string \<times> json list \<times> string option"

record pending_save =
  pv_body :: save_body
  pv_key :: string
  pv_sent :: "(string \<times> json) list option"

record save_target =
  tg_wsId :: string
  tg_dataSourceId :: string
  tg_branchId :: string
  tg_message :: "string option"
  tg_remaps :: bool
  tg_prunes :: bool

datatype save_effect =
    RemapEntityIds "(string \<times> string) list"
  | PruneTempAssignments
  | ServerNodes "jsval list"
  | ServerEdges "jsval list"
  | ServerVersions "(string \<times> string option) list"
  | MarkCommitting string pending_save

record ('w, 's) save_state =
  sv_staged :: "'w staged"
  sv_pending :: "(string option \<times> pending_save) list"
  sv_server :: 's
  sv_canvas :: canvas
  sv_effects :: "save_effect list"

definition getPendingSave :: "string option \<Rightarrow> ('w, 's) save_state \<Rightarrow> pending_save option" where
  "getPendingSave scope st = map_of (sv_pending st) scope"

definition resumePendingSave :: "pending_save \<Rightarrow> string option \<Rightarrow> ('w, 's) save_state \<Rightarrow> ('w, 's) save_state" where
  "resumePendingSave save scope st = st\<lparr>sv_pending := AList.update scope save (sv_pending st)\<rparr>"

definition clearPendingSave :: "string option \<Rightarrow> ('w, 's) save_state \<Rightarrow> ('w, 's) save_state" where
  "clearPendingSave scope st = st\<lparr>sv_pending := AList.delete scope (sv_pending st)\<rparr>"

definition REFUSALS :: "string list" where
  "REFUSALS = [''MergeConflictError'', ''IntegrityError'', ''OntologyViolationError'', ''BranchClosedError'', ''NotDraftOwnerError'',
     ''DraftRoleRequiredError'', ''MainWriteForbiddenError'', ''GraphNotWritableError'']"

definition refused :: "save_error \<Rightarrow> bool" where
  "refused e \<longleftrightarrow> se_class e \<in> set REFUSALS \<or>
     (case se_status e of JNum (Fin q) \<Rightarrow> q \<ge> 400 \<and> q < 500 \<and> q \<noteq> 408 \<and> q \<noteq> 429 | _ \<Rightarrow> False)"

text \<open>An operation as it is sent; an undefined field is not sent.\<close>

fun kindName :: "op_kind \<Rightarrow> string" where
  "kindName NodeKind = ''node''"
| "kindName EdgeKind = ''edge''"

definition optStr :: "string option \<Rightarrow> jsval" where
  "optStr x = (case x of None \<Rightarrow> JUndefined | Some s \<Rightarrow> JStr s)"

fun opValue :: "change_op \<Rightarrow> jsval" where
  "opValue (UpdateOp kind i payload unset baseVersion) =
     JObj ([(''op'', JStr ''update''), (''kind'', JStr (kindName kind)), (''id'', JStr i), (''payload'', JObj payload)] @
       (if unset \<noteq> [] then [(''unsetProperties'', JArr (map JStr unset))] else []) @ [(''baseVersion'', optStr baseVersion)])"
| "opValue (DeleteOp kind i) = JObj [(''op'', JStr ''delete''), (''kind'', JStr (kindName kind)), (''id'', JStr i)]"
| "opValue (CreateOp kind ref payload) =
     JObj [(''op'', JStr ''create''), (''kind'', JStr (kindName kind)), (''ref'', JStr ref), (''payload'', JObj payload)]"
| "opValue (MoveOp i ref payload) =
     JObj [(''op'', JStr ''move''), (''kind'', JStr ''node''), (''id'', JStr i), (''ref'', optStr ref), (''payload'', JObj payload)]"

definition opJson :: "change_op \<Rightarrow> json" where
  "opJson operation = the (stringify (opValue operation))"

fun resolveOp :: "(string \<Rightarrow> string) \<Rightarrow> change_op \<Rightarrow> change_op" where
  "resolveOp resolve (UpdateOp kind i payload unset baseVersion) = UpdateOp kind (if i = [] then i else resolve i) payload unset baseVersion"
| "resolveOp resolve (DeleteOp kind i) = DeleteOp kind (if i = [] then i else resolve i)"
| "resolveOp resolve (MoveOp i ref payload) = MoveOp (if i = [] then i else resolve i) ref payload"
| "resolveOp resolve (CreateOp kind ref payload) = CreateOp kind ref payload"

definition bodyOf :: "save_target \<Rightarrow> change_op list \<Rightarrow> save_body" where
  "bodyOf tg ops = (tg_wsId tg, tg_dataSourceId tg, tg_branchId tg, map opJson ops, tg_message tg)"

text \<open>\<open>JSON.stringify(c.after ?? null)\<close>.\<close>

definition afterJson :: "'w change \<Rightarrow> json" where
  "afterJson c = the (stringify (orElse (ch_after c) JNull))"

section \<open>Settling and rebasing\<close>

text \<open>A save with an unknown outcome is sent again as it went. Its answer, with what it carried; None when it was refused; or the
  error.\<close>

definition settleSave ::
  "('s \<Rightarrow> save_body \<Rightarrow> string \<Rightarrow> 's \<times> reply) \<Rightarrow> pending_save \<Rightarrow> string option \<Rightarrow> ('w, 's) save_state \<Rightarrow>
     (save_error + (graph_result \<times> (string \<times> json) list) option) \<times> ('w, 's) save_state" where
  "settleSave send save scope st =
     (let (server, reply) = send (sv_server st) (pv_body save) (pv_key save);
          st1 = st\<lparr>sv_server := server\<rparr>
      in case reply of
           Answered res \<Rightarrow> (Inr (Some (res, case pv_sent save of None \<Rightarrow> [] | Some sent \<Rightarrow> sent)), clearPendingSave scope st1)
         | Failed e \<Rightarrow> if \<not> refused e then (Inl e, st1) else (Inr None, clearPendingSave scope st1))"

text \<open>The keys a spread copies from a value.\<close>

definition spreadOf :: "jsval \<Rightarrow> bag" where
  "spreadOf v = (case v of JStr s \<Rightarrow> zip (map showNat [0..<length s]) (map (\<lambda>c. JStr [c]) s) | _ \<Rightarrow> objEntries v)"

definition viewVersion :: "entity_view option \<Rightarrow> string option" where
  "viewVersion v = (case v of Some (LiveView _ version _) \<Rightarrow> Some version | _ \<Rightarrow> None)"

definition rebase :: "'w change \<Rightarrow> json \<Rightarrow> graph_result \<Rightarrow> 'w change" where
  "rebase c sentAfter res =
     (if ch_type c = MoveEntity then c
      else
        let created = (if ch_type c = CreateEntity then map_of (gr_assigned res) (targetOf c) else None);
            key = (case created of Some i \<Rightarrow> i | None \<Rightarrow> targetOf c);
            version = (case viewVersion (map_of (gr_entities res) key) of
                         Some v \<Rightarrow> Some v
                       | None \<Rightarrow> (case map_of (gr_versions res) key of Some (Some v) \<Rightarrow> Some v | _ \<Rightarrow> None));
            before = AList.update ''version'' (optStr version) (setAll (spreadOf (unjson sentAfter)) (spreadOf (ch_before c)))
        in if truthyStr created
           then c\<lparr>ch_type := UpdateEntity, ch_targetId := the created, ch_targetUrn := created, ch_before := JObj before, ch_discard := None\<rparr>
           else c\<lparr>ch_before := JObj before\<rparr>)"

section \<open>Reconciling the canvas\<close>

definition applyServerEntities :: "(string \<times> entity_view) list \<Rightarrow> save_effect list" where
  "applyServerEntities entities =
     [ServerNodes (concat (map (\<lambda>(_, v). case v of LiveView NodeKind _ node \<Rightarrow> [node] | _ \<Rightarrow> []) entities)),
      ServerEdges (concat (map (\<lambda>(_, v). case v of LiveView EdgeKind _ edge \<Rightarrow> [edge] | _ \<Rightarrow> []) entities))]"

definition reconcileSaved :: "'w change list \<Rightarrow> graph_result \<Rightarrow> save_target \<Rightarrow> ('w, 's) save_state \<Rightarrow> ('w, 's) save_state" where
  "reconcileSaved changes res tg st =
     (let realIds = fold (\<lambda>c m. case ch_targetUrn c of
            Some u \<Rightarrow> if u \<noteq> [] \<and> resolveRef (gr_assigned res) u \<noteq> u then AList.update u (resolveRef (gr_assigned res) u) m else m
          | None \<Rightarrow> m) changes [];
          layout = (if realIds \<noteq> [] \<and> tg_remaps tg then [RemapEntityIds realIds] else if tg_prunes tg then [PruneTempAssignments] else [])
      in st\<lparr>sv_canvas := (case rekeyCanvas changes (gr_assigned res) (sv_canvas st) of None \<Rightarrow> sv_canvas st | Some cs \<Rightarrow> cs),
           sv_effects := sv_effects st @ layout @ applyServerEntities (gr_entities res) @ [ServerVersions (gr_versions res)]\<rparr>)"

section \<open>A save\<close>

definition mergeResults :: "graph_result \<Rightarrow> graph_result \<Rightarrow> graph_result" where
  "mergeResults res next =
     \<lparr>gr_commitId = gr_commitId next, gr_assigned = setAll (gr_assigned next) (gr_assigned res),
      gr_entities = setAll (gr_entities next) (gr_entities res), gr_versions = setAll (gr_versions next) (gr_versions res)\<rparr>"

definition editedSince :: "(string \<times> json) list \<Rightarrow> graph_result \<Rightarrow> 'w change list \<Rightarrow> (string \<times> 'w change) list" where
  "editedSince sent res changes =
     fold (\<lambda>c m. case map_of sent (ch_id c) of
             Some j \<Rightarrow> if j \<noteq> afterJson c then AList.update (ch_id c) (rebase c j res) m else m
           | None \<Rightarrow> m) changes []"

definition rebased :: "(string \<times> 'w change) list \<Rightarrow> 'w change \<Rightarrow> 'w change" where
  "rebased edited c = (case map_of edited (ch_id c) of Some c' \<Rightarrow> c' | None \<Rightarrow> c)"

definition notCarried :: "(string \<times> json) list \<Rightarrow> (string \<times> 'w change) list \<Rightarrow> 'w change list \<Rightarrow> 'w change list" where
  "notCarried sent edited changes =
     concat (map (\<lambda>c. case map_of edited (ch_id c) of
       Some c' \<Rightarrow> [c'] | None \<Rightarrow> if map_of sent (ch_id c) \<noteq> None then [] else [c]) changes)"

text \<open>What is left of a settled save when the one after it fails: it did commit, so what it carried, unedited since, is no longer staged.\<close>

definition keepSettled ::
  "'w change list \<Rightarrow> graph_result \<Rightarrow> (string \<times> json) list \<Rightarrow> (string \<times> 'w change) list \<Rightarrow> save_target \<Rightarrow> ('w, 's) save_state \<Rightarrow> ('w, 's) save_state" where
  "keepSettled changes res sent edited tg st =
     (let carried = filter (\<lambda>c. map_of sent (ch_id c) \<noteq> None) changes;
          stillEdited = map (\<lambda>(_, c). targetOf c) edited;
          st1 = reconcileSaved carried (res\<lparr>gr_entities := filter (\<lambda>(i, _). i \<notin> set stillEdited) (gr_entities res),
                  gr_versions := filter (\<lambda>(i, _). i \<notin> set stillEdited) (gr_versions res)\<rparr>) tg st
      in st1\<lparr>sv_staged := clearSaved (map ch_id (filter (\<lambda>c. map_of edited (ch_id c) = None) carried)) (sv_staged st1)\<rparr>)"

definition sendBatch ::
  "('s \<Rightarrow> save_body \<Rightarrow> string \<Rightarrow> 's \<times> reply) \<Rightarrow> string \<Rightarrow> save_target \<Rightarrow> string option \<Rightarrow> 'w change list \<Rightarrow> change_op list \<Rightarrow>
     ('w, 's) save_state \<Rightarrow> reply \<times> ('w, 's) save_state" where
  "sendBatch send newKey tg scope rest ops st =
     (let body = bodyOf tg ops;
          key = (case getPendingSave scope st of Some prior \<Rightarrow> if pv_body prior = body then pv_key prior else newKey | None \<Rightarrow> newKey);
          save = \<lparr>pv_body = body, pv_key = key, pv_sent = Some (setAll (map (\<lambda>c. (ch_id c, afterJson c)) rest) [])\<rparr>;
          st1 = resumePendingSave save scope st;
          st2 = (if truthyStr scope then st1\<lparr>sv_effects := sv_effects st1 @ [MarkCommitting (the scope) save]\<rparr> else st1);
          (server, reply) = send (sv_server st2) body key;
          st3 = st2\<lparr>sv_server := server\<rparr>
      in (reply, case reply of Answered _ \<Rightarrow> clearPendingSave scope st3
                 | Failed e \<Rightarrow> if refused e then clearPendingSave scope st3 else st3))"

definition settleFirst ::
  "(jsnum \<Rightarrow> string) \<Rightarrow> ('s \<Rightarrow> save_body \<Rightarrow> string \<Rightarrow> 's \<times> reply) \<Rightarrow> save_target \<Rightarrow> string option \<Rightarrow> 'w change list \<Rightarrow> change_op list \<Rightarrow>
     ('w, 's) save_state \<Rightarrow> (save_error + (graph_result \<times> (string \<times> json) list) option) \<times> ('w, 's) save_state" where
  "settleFirst numStr send tg scope changes ops st =
     (case getPendingSave scope st of
        Some pending \<Rightarrow> if pv_sent pending \<noteq> None \<and> pv_body pending \<noteq> bodyOf tg ops then settleSave send pending scope st else (Inr None, st)
      | None \<Rightarrow> (Inr None, st))"

definition saveStagedChangesToDraft ::
  "(jsnum \<Rightarrow> string) \<Rightarrow> ('s \<Rightarrow> save_body \<Rightarrow> string \<Rightarrow> 's \<times> reply) \<Rightarrow> string \<Rightarrow> 'w change list \<Rightarrow> save_target \<Rightarrow> ('w, 's) save_state \<Rightarrow>
     (save_error + string option \<times> string list) \<times> ('w, 's) save_state" where
  "saveStagedChangesToDraft numStr send newKey changes tg st =
     (let unsaved = sort (remdups (concat (map unsavedNodeFields changes)));
          ops = stagedChangesToOps numStr (\<lambda>i. i) changes
      in if ops = [] then (Inr (None, unsaved), if tg_prunes tg then st\<lparr>sv_effects := sv_effects st @ [PruneTempAssignments]\<rparr> else st)
         else
           let scope = sg_scopeKey (sv_staged st); (settled, st1) = settleFirst numStr send tg scope changes ops st
           in case settled of
                Inl e \<Rightarrow> (Inl e, st1)
              | Inr None \<Rightarrow>
                  (let (reply, st2) = sendBatch send newKey tg scope changes ops st1
                   in case reply of
                        Failed e \<Rightarrow> (Inl e, st2)
                      | Answered next \<Rightarrow>
                          (Inr (gr_commitId next, unsaved),
                           reconcileSaved changes (mergeResults \<lparr>gr_commitId = None, gr_assigned = [], gr_entities = [], gr_versions = []\<rparr> next) tg st2))
              | Inr (Some (res, sent)) \<Rightarrow>
                  (let edited = editedSince sent res changes;
                       st2 = st1\<lparr>sv_staged := (sv_staged st1)\<lparr>sg_changes := map (rebased edited) (sg_changes (sv_staged st1))\<rparr>\<rparr>;
                       rest = notCarried sent edited changes;
                       resolve = resolveRef (gr_assigned res);
                       ops2 = map (resolveOp resolve) (stagedChangesToOps numStr resolve rest)
                   in if ops2 = [] then (Inr (gr_commitId res, unsaved), reconcileSaved changes res tg st2)
                      else
                        let (reply, st3) = sendBatch send newKey tg scope rest ops2 st2
                        in case reply of
                             Failed e \<Rightarrow> (Inl e, keepSettled changes res sent edited tg st3)
                           | Answered next \<Rightarrow> (Inr (gr_commitId next, unsaved), reconcileSaved changes (mergeResults res next) tg st3)))"

section \<open>The caller\<close>

text \<open>The confirmation of a save clears what it carried; the persistence hook forgets the pending save of a draft with nothing staged.\<close>

definition confirmSave ::
  "(jsnum \<Rightarrow> string) \<Rightarrow> ('s \<Rightarrow> save_body \<Rightarrow> string \<Rightarrow> 's \<times> reply) \<Rightarrow> string \<Rightarrow> save_target \<Rightarrow> ('w, 's) save_state \<Rightarrow> ('w, 's) save_state" where
  "confirmSave numStr send newKey tg st =
     (let changes = sg_changes (sv_staged st)
      in case saveStagedChangesToDraft numStr send newKey changes tg st of
           (Inr _, st') \<Rightarrow> st'\<lparr>sv_staged := clearSaved (map ch_id changes) (sv_staged st')\<rparr>
         | (Inl _, st') \<Rightarrow> st')"

definition persistStaged :: "('w, 's) save_state \<Rightarrow> ('w, 's) save_state" where
  "persistStaged st = (if sg_changes (sv_staged st) = [] then clearPendingSave (sg_scopeKey (sv_staged st)) st else st)"

section \<open>What a batch creates\<close>

definition createdRef :: "json \<Rightarrow> string list" where
  "createdRef j =
     (case j of
        JsonObj kvs \<Rightarrow>
          if map_of kvs ''op'' = Some (JsonStr ''create'') \<and> map_of kvs ''kind'' = Some (JsonStr ''node'')
          then (case map_of kvs ''ref'' of Some (JsonStr r) \<Rightarrow> [r] | _ \<Rightarrow> []) else []
      | _ \<Rightarrow> [])"

definition bodyCreates :: "save_body \<Rightarrow> string list" where
  "bodyCreates = (\<lambda>(ws, ds, br, ops, message). concat (map createdRef ops))"

definition creates :: "'w change list \<Rightarrow> string list" where
  "creates cs = map targetOf (filter (\<lambda>c. ch_type c = CreateEntity) cs)"

fun opCreates :: "change_op \<Rightarrow> string list" where
  "opCreates (CreateOp NodeKind ref payload) = [ref]"
| "opCreates _ = []"

lemma createdRef_op: "createdRef (opJson operation) = opCreates operation"
proof (cases operation)
  case (UpdateOp kind i payload unset baseVersion)
  then show ?thesis by (simp add: opJson_def createdRef_def)
next
  case (DeleteOp kind i)
  then show ?thesis by (simp add: opJson_def createdRef_def)
next
  case (CreateOp kind ref payload)
  then show ?thesis by (cases kind) (simp_all add: opJson_def createdRef_def)
next
  case (MoveOp i ref payload)
  then show ?thesis by (simp add: opJson_def createdRef_def)
qed

lemma opCreates_resolve [simp]: "opCreates (resolveOp resolve operation) = opCreates operation"
  by (cases operation rule: opCreates.cases) auto

lemma opsOf_creates: "concat (map opCreates (opsOf numStr resolve c)) = (if ch_type c = CreateEntity then [targetOf c] else [])"
  by (cases "ch_type c") (auto simp: opsOf_def Let_def split: prod.splits)

lemma bodyCreates_ops:
  "bodyCreates (bodyOf tg (stagedChangesToOps numStr resolve cs)) = creates cs"
  "bodyCreates (bodyOf tg (map (resolveOp f) (stagedChangesToOps numStr resolve cs))) = creates cs"
proof -
  have "concat (map opCreates (stagedChangesToOps numStr resolve cs)) = creates cs"
    unfolding stagedChangesToOps_def creates_def
    by (induction cs) (simp_all add: opsOf_creates)
  then show "bodyCreates (bodyOf tg (stagedChangesToOps numStr resolve cs)) = creates cs"
    "bodyCreates (bodyOf tg (map (resolveOp f) (stagedChangesToOps numStr resolve cs))) = creates cs"
    by (simp_all add: bodyCreates_def bodyOf_def comp_def createdRef_op)
qed

section \<open>The server and the invariant\<close>

text \<open>What the code relies on, of a server with a record of the batches it committed: a batch is committed whole or not at all, and under
  a key once; an answer means it is committed and names the real id of everything it created; a refusal means it is not.\<close>

definition idempotentServer :: "('s \<Rightarrow> save_body \<Rightarrow> string \<Rightarrow> 's \<times> reply) \<Rightarrow> ('s \<Rightarrow> (string \<times> save_body) list) \<Rightarrow> bool" where
  "idempotentServer send committed \<longleftrightarrow> (\<forall>s b k s' r. send s b k = (s', r) \<longrightarrow>
     (committed s' = committed s \<or> k \<notin> fst ` set (committed s) \<and> committed s' = committed s @ [(k, b)]) \<and>
     (\<forall>res. r = Answered res \<longrightarrow> k \<in> fst ` set (committed s') \<and>
        ((k, b) \<in> set (committed s') \<longrightarrow> (\<forall>u \<in> set (bodyCreates b). truthyStr (map_of (gr_assigned res) u)))) \<and>
     (\<forall>e. r = Failed e \<and> refused e \<longrightarrow> committed s' = committed s \<and> k \<notin> fst ` set (committed s)))"

definition logCreates :: "(string \<times> save_body) list \<Rightarrow> string list" where
  "logCreates l = concat (map (\<lambda>e. bodyCreates (snd e)) l)"

lemma logCreates_simps [simp]: "logCreates [] = []" "logCreates (l @ [(k, b)]) = logCreates l @ bodyCreates b"
  by (simp_all add: logCreates_def)

lemma logCreates_in:
  assumes "(k, b) \<in> set l"
  shows "set (bodyCreates b) \<subseteq> set (logCreates l)"
  unfolding logCreates_def set_concat set_map image_image using UN_upper [OF assms, of "\<lambda>e. set (bodyCreates (snd e))"] by simp

text \<open>A batch that may be sent: if its key is committed it is with this batch, and otherwise it creates nothing a second time.\<close>

definition sendable :: "(string \<times> save_body) list \<Rightarrow> string \<Rightarrow> save_body \<Rightarrow> bool" where
  "sendable l k b \<longleftrightarrow> distinct (bodyCreates b) \<and>
     (if k \<in> fst ` set l then (k, b) \<in> set l else set (bodyCreates b) \<inter> set (logCreates l) = {})"

lemma send_sendable:
  assumes srv: "idempotentServer send committed" "send s b k = (s', r)" and ok: "sendable (committed s) k b" "distinct (logCreates (committed s))"
  shows "distinct (logCreates (committed s'))" "sendable (committed s') k b" "set (logCreates (committed s')) \<subseteq> set (logCreates (committed s)) \<union> set (bodyCreates b)"
    "r = Answered res \<Longrightarrow> (k, b) \<in> set (committed s') \<and> (\<forall>u \<in> set (bodyCreates b). truthyStr (map_of (gr_assigned res) u))"
    "r = Failed e \<Longrightarrow> refused e \<Longrightarrow> committed s' = committed s \<and> set (bodyCreates b) \<inter> set (logCreates (committed s)) = {}"
    "u \<in> set (bodyCreates b) \<Longrightarrow> u \<in> set (logCreates (committed s')) \<Longrightarrow> (k, b) \<in> set (committed s')"
    "fst ` set (committed s') \<subseteq> insert k (fst ` set (committed s))"
proof -
  have ans: "r = Answered res \<Longrightarrow> k \<in> fst ` set (committed s') \<and> ((k, b) \<in> set (committed s') \<longrightarrow> (\<forall>u \<in> set (bodyCreates b). truthyStr (map_of (gr_assigned res) u)))" for res
    using srv unfolding idempotentServer_def by blast
  have step: "committed s' = committed s \<or> k \<notin> fst ` set (committed s) \<and> committed s' = committed s @ [(k, b)]"
    and no: "r = Failed e \<Longrightarrow> refused e \<Longrightarrow> committed s' = committed s \<and> k \<notin> fst ` set (committed s)" for e
    using srv unfolding idempotentServer_def by blast+
  show d: "distinct (logCreates (committed s'))" using step ok by (auto simp: sendable_def)
  show s: "sendable (committed s') k b"
    using step
  proof
    assume "committed s' = committed s"
    then show ?thesis using ok(1) by (simp only:)
  next
    assume "k \<notin> fst ` set (committed s) \<and> committed s' = committed s @ [(k, b)]"
    then show ?thesis using ok(1) by (simp add: sendable_def)
  qed
  show "set (logCreates (committed s')) \<subseteq> set (logCreates (committed s)) \<union> set (bodyCreates b)" using step by auto
  show "r = Answered res \<Longrightarrow> (k, b) \<in> set (committed s') \<and> (\<forall>u \<in> set (bodyCreates b). truthyStr (map_of (gr_assigned res) u))"
    using ans [of res] s by (simp add: sendable_def)
  show "r = Failed e \<Longrightarrow> refused e \<Longrightarrow> committed s' = committed s \<and> set (bodyCreates b) \<inter> set (logCreates (committed s)) = {}"
    using no [of e] ok by (simp add: sendable_def)
  show "u \<in> set (bodyCreates b) \<Longrightarrow> u \<in> set (logCreates (committed s')) \<Longrightarrow> (k, b) \<in> set (committed s')"
    using s by (auto simp: sendable_def split: if_splits)
  show "fst ` set (committed s') \<subseteq> insert k (fst ` set (committed s))" using step by auto
qed

lemma pending_simps [simp]:
  "getPendingSave scope (clearPendingSave scope st) = None"
  "getPendingSave scope (resumePendingSave save scope st) = Some save"
  "sv_staged (clearPendingSave scope st) = sv_staged st" "sv_server (clearPendingSave scope st) = sv_server st"
  "sv_staged (resumePendingSave save scope st) = sv_staged st" "sv_server (resumePendingSave save scope st) = sv_server st"
  "getPendingSave scope (st\<lparr>sv_server := s\<rparr>) = getPendingSave scope st"
  "getPendingSave scope (st\<lparr>sv_staged := g\<rparr>) = getPendingSave scope st"
  "getPendingSave scope (st\<lparr>sv_effects := es\<rparr>) = getPendingSave scope st"
  "getPendingSave scope (st\<lparr>sv_canvas := c\<rparr>) = getPendingSave scope st"
  by (simp_all add: getPendingSave_def clearPendingSave_def resumePendingSave_def delete_conv' update_conv')

lemma reconcile_sel [simp]:
  "sv_staged (reconcileSaved cs res tg st) = sv_staged st" "sv_server (reconcileSaved cs res tg st) = sv_server st"
  "getPendingSave scope (reconcileSaved cs res tg st) = getPendingSave scope st"
  by (simp_all add: reconcileSaved_def Let_def getPendingSave_def)

text \<open>What a draft keeps: staged creations are not committed yet, unless the pending save carries them.\<close>

definition carries :: "pending_save \<Rightarrow> string \<Rightarrow> bool" where
  "carries p i \<longleftrightarrow> (\<exists>sent. pv_sent p = Some sent \<and> map_of sent i \<noteq> None)"

definition pendingOk :: "(string \<times> save_body) list \<Rightarrow> 'w change list \<Rightarrow> pending_save option \<Rightarrow> bool" where
  "pendingOk l cs pending \<longleftrightarrow>
     (case pending of
        None \<Rightarrow> set (creates cs) \<inter> set (logCreates l) = {}
      | Some p \<Rightarrow> pv_sent p \<noteq> None \<and> sendable l (pv_key p) (pv_body p) \<and>
          (\<forall>c \<in> set cs. ch_type c = CreateEntity \<longrightarrow> (carries p (ch_id c) \<longleftrightarrow> targetOf c \<in> set (bodyCreates (pv_body p)))) \<and>
          set (creates cs) \<inter> set (logCreates l) \<subseteq> set (bodyCreates (pv_body p)))"

definition saveInv :: "('s \<Rightarrow> (string \<times> save_body) list) \<Rightarrow> ('w, 's) save_state \<Rightarrow> bool" where
  "saveInv committed st \<longleftrightarrow>
     (let cs = sg_changes (sv_staged st); l = committed (sv_server st)
      in distinct (map ch_id cs) \<and> distinct (creates cs) \<and> distinct (logCreates l) \<and>
         pendingOk l cs (getPendingSave (sg_scopeKey (sv_staged st)) st))"

lemma creates_in: "c \<in> set cs \<Longrightarrow> ch_type c = CreateEntity \<Longrightarrow> targetOf c \<in> set (creates cs)"
  by (auto simp: creates_def)

lemma carries_all: "carries \<lparr>pv_body = b, pv_key = k, pv_sent = Some (setAll (map (\<lambda>c. (ch_id c, afterJson c)) cs) [])\<rparr> i \<longleftrightarrow> i \<in> ch_id ` set cs"
proof -
  have "map_of (setAll (map (\<lambda>c. (ch_id c, afterJson c)) cs) m) i \<noteq> None \<longleftrightarrow> i \<in> ch_id ` set cs \<or> map_of m i \<noteq> None" for m
    by (induction cs arbitrary: m) (auto simp: update_conv')
  then show ?thesis by (simp add: carries_def)
qed

text \<open>The one request of a batch, whatever comes back.\<close>

lemma sendBatch_ok:
  assumes srv: "idempotentServer send committed" and run: "sendBatch send newKey tg scope rest ops st = (reply, st')"
    and ops: "bodyCreates (bodyOf tg ops) = creates rest" "distinct (creates rest)" and d: "distinct (logCreates (committed (sv_server st)))"
    and old: "\<forall>p. getPendingSave scope st = Some p \<and> pv_body p = bodyOf tg ops \<longrightarrow> sendable (committed (sv_server st)) (pv_key p) (pv_body p)"
    and new: "newKey \<notin> fst ` set (committed (sv_server st))"
      "(\<forall>p. getPendingSave scope st = Some p \<longrightarrow> pv_body p \<noteq> bodyOf tg ops) \<longrightarrow> set (creates rest) \<inter> set (logCreates (committed (sv_server st))) = {}"
  shows "sv_staged st' = sv_staged st" "distinct (logCreates (committed (sv_server st')))"
    "reply = Answered res \<Longrightarrow> getPendingSave scope st' = None"
    "reply = Failed e \<Longrightarrow> pendingOk (committed (sv_server st')) rest (getPendingSave scope st')"
proof -
  let ?b = "bodyOf tg ops"
  define k where "k = (case getPendingSave scope st of Some prior \<Rightarrow> if pv_body prior = ?b then pv_key prior else newKey | None \<Rightarrow> newKey)"
  define save where "save = \<lparr>pv_body = ?b, pv_key = k, pv_sent = Some (setAll (map (\<lambda>c. (ch_id c, afterJson c)) rest) [])\<rparr>"
  obtain s' r where r: "send (sv_server st) ?b k = (s', r)" by fastforce
  have ok: "sendable (committed (sv_server st)) k ?b"
  proof (cases "\<exists>p. getPendingSave scope st = Some p \<and> pv_body p = ?b")
    case True
    then show ?thesis using old by (auto simp: k_def)
  next
    case False
    then have "k = newKey" by (auto simp: k_def split: option.splits)
    moreover have "set (creates rest) \<inter> set (logCreates (committed (sv_server st))) = {}" using new(2) False by blast
    ultimately show ?thesis using new(1) ops by (simp add: sendable_def)
  qed
  note sent = send_sendable [OF srv r ok d]
  have out: "reply = r" "sv_staged st' = sv_staged st" "sv_server st' = s'"
    "getPendingSave scope st' = (case r of Answered _ \<Rightarrow> None | Failed e \<Rightarrow> if refused e then None else Some save)"
    using run r unfolding sendBatch_def Let_def k_def [symmetric] save_def [symmetric]
    by (auto split: reply.splits if_splits)
  show "sv_staged st' = sv_staged st" "distinct (logCreates (committed (sv_server st')))" using out sent(1) by simp_all
  show "reply = Answered res \<Longrightarrow> getPendingSave scope st' = None" using out by simp
  assume f: "reply = Failed e"
  show "pendingOk (committed (sv_server st')) rest (getPendingSave scope st')"
  proof (cases "refused e")
    case True
    then show ?thesis using f out sent(5) [of e] ops by (simp add: pendingOk_def)
  next
    case False
    have "carries save (ch_id c) \<longleftrightarrow> targetOf c \<in> set (bodyCreates (pv_body save))" if "c \<in> set rest" "ch_type c = CreateEntity" for c
      using that creates_in [OF that] ops(1) by (simp add: save_def carries_all)
    moreover have "sendable (committed s') (pv_key save) (pv_body save)" "pv_sent save \<noteq> None" "set (creates rest) \<subseteq> set (bodyCreates (pv_body save))"
      using sent(2) ops(1) by (simp_all add: save_def)
    ultimately show ?thesis using f False out by (auto simp: pendingOk_def)
  qed
qed

section \<open>What is left after a settled save\<close>

lemma map_of_editedSince:
  assumes "distinct (map ch_id cs)" "c \<in> set cs"
  shows "map_of (editedSince sent res cs) (ch_id c) =
    (case map_of sent (ch_id c) of Some j \<Rightarrow> if j \<noteq> afterJson c then Some (rebase c j res) else None | None \<Rightarrow> None)"
proof -
  define f where "f = (\<lambda>(c :: 'a change) m. case map_of sent (ch_id c) of
      Some j \<Rightarrow> if j \<noteq> afterJson c then AList.update (ch_id c) (rebase c j res) m else m | None \<Rightarrow> m)"
  have other: "map_of (fold f ds m) i = map_of m i" if "i \<notin> ch_id ` set ds" for ds m i
    using that by (induction ds arbitrary: m) (auto simp: f_def update_conv' split: option.splits)
  obtain xs ys where cs: "cs = xs @ c # ys" using split_list [OF assms(2)] by blast
  have out: "ch_id c \<notin> ch_id ` set ys" "ch_id c \<notin> ch_id ` set xs" using assms(1) cs by auto
  have "map_of (fold f cs []) (ch_id c) = map_of (f c (fold f xs [])) (ch_id c)" using other [OF out(1)] cs by simp
  also have "\<dots> = (case map_of sent (ch_id c) of Some j \<Rightarrow> if j \<noteq> afterJson c then Some (rebase c j res) else None | None \<Rightarrow> None)"
    using other [OF out(2), of "[]"] by (auto simp: f_def update_conv' split: option.splits)
  finally show ?thesis by (simp add: editedSince_def f_def)
qed

lemma rebase_id [simp]: "ch_id (rebase c j res) = ch_id c"
  by (simp add: rebase_def Let_def)

lemma rebase_type:
  "ch_type c \<noteq> CreateEntity \<Longrightarrow> ch_type (rebase c j res) \<noteq> CreateEntity"
  "truthyStr (map_of (gr_assigned res) (targetOf c)) \<Longrightarrow> ch_type (rebase c j res) \<noteq> CreateEntity"
  by (auto simp: rebase_def Let_def)

lemma creates_append [simp]: "creates (xs @ ys) = creates xs @ creates ys"
  by (simp add: creates_def)

text \<open>A settled save's answer named everything it created, so no creation it carried is sent as one again.\<close>

lemma notCarried_creates:
  assumes d: "distinct (map ch_id cs)"
    and named: "\<forall>c \<in> set cs. ch_type c = CreateEntity \<and> map_of sent (ch_id c) \<noteq> None \<longrightarrow> truthyStr (map_of (gr_assigned res) (targetOf c))"
  shows "creates (notCarried sent (editedSince sent res cs) cs) =
    map targetOf (filter (\<lambda>c. ch_type c = CreateEntity \<and> map_of sent (ch_id c) = None) cs)"
proof -
  let ?e = "editedSince sent res cs"
  have "creates (notCarried sent ?e ds) = map targetOf (filter (\<lambda>c. ch_type c = CreateEntity \<and> map_of sent (ch_id c) = None) ds)"
    if "set ds \<subseteq> set cs" for ds
    using that
  proof (induction ds)
    case (Cons c ds)
    have c: "c \<in> set cs" using Cons.prems by simp
    have "creates (case map_of ?e (ch_id c) of Some c' \<Rightarrow> [c'] | None \<Rightarrow> if map_of sent (ch_id c) \<noteq> None then [] else [c]) =
        (if ch_type c = CreateEntity \<and> map_of sent (ch_id c) = None then [targetOf c] else [])"
      using map_of_editedSince [OF d c, of sent res] named c rebase_type [where c = c and res = res]
      by (auto simp: creates_def split: option.splits)
    then show ?case using Cons by (simp add: notCarried_def)
  qed (simp add: notCarried_def creates_def)
  then show ?thesis by simp
qed

lemma notCarried_ids:
  assumes "distinct (map ch_id cs)"
  shows "distinct (map ch_id (notCarried sent (editedSince sent res cs) cs))"
    "ch_id ` set (notCarried sent (editedSince sent res cs) cs) \<subseteq> ch_id ` set cs"
proof -
  let ?e = "editedSince sent res cs"
  have one: "map ch_id (case map_of ?e (ch_id c) of Some c' \<Rightarrow> [c'] | None \<Rightarrow> if map_of sent (ch_id c) \<noteq> None then [] else [c]) \<in> {[], [ch_id c]}"
    if "c \<in> set cs" for c using map_of_editedSince [OF assms that, of sent res] by (auto split: option.splits if_splits)
  have "distinct (map ch_id (notCarried sent ?e ds)) \<and> ch_id ` set (notCarried sent ?e ds) \<subseteq> ch_id ` set ds"
    if "set ds \<subseteq> set cs" "distinct (map ch_id ds)" for ds
    using that
  proof (induction ds)
    case (Cons c ds)
    define h where "h = (case map_of ?e (ch_id c) of Some c' \<Rightarrow> [c'] | None \<Rightarrow> if map_of sent (ch_id c) \<noteq> None then [] else [c])"
    have "map ch_id h = [] \<or> map ch_id h = [ch_id c]" using one [of c] Cons.prems(1) by (simp add: h_def)
    moreover have "notCarried sent ?e (c # ds) = h @ notCarried sent ?e ds" by (simp add: notCarried_def h_def)
    ultimately show ?case using Cons by auto
  qed (simp add: notCarried_def)
  then show "distinct (map ch_id (notCarried sent ?e cs))" "ch_id ` set (notCarried sent ?e cs) \<subseteq> ch_id ` set cs"
    using assms by auto
qed

text \<open>What stays staged when the batch after a settled save fails is exactly what that batch carried.\<close>

lemma keepSettled_staged:
  assumes d: "distinct (map ch_id cs)" and st: "sg_changes (sv_staged st) = map (rebased (editedSince sent res cs)) cs"
  shows "sg_changes (sv_staged (keepSettled cs res sent (editedSince sent res cs) tg st)) = notCarried sent (editedSince sent res cs) cs"
proof -
  let ?e = "editedSince sent res cs"
  define gone where "gone = map ch_id (filter (\<lambda>c. map_of ?e (ch_id c) = None) (filter (\<lambda>c. map_of sent (ch_id c) \<noteq> None) cs))"
  have gone: "ch_id c \<in> set gone \<longleftrightarrow> map_of sent (ch_id c) \<noteq> None \<and> map_of ?e (ch_id c) = None" if "c \<in> set cs" for c
    using that by (auto simp: gone_def simp del: not_None_eq)
  have id: "ch_id (rebased ?e c) = ch_id c" if "c \<in> set cs" for c
    using map_of_editedSince [OF d that, of sent res] by (auto simp: rebased_def split: option.splits)
  have "filter (\<lambda>c. ch_id c \<notin> set gone) (map (rebased ?e) ds) = notCarried sent ?e ds" if "set ds \<subseteq> set cs" for ds
    using that
  proof (induction ds)
    case (Cons c ds)
    have c: "c \<in> set cs" using Cons.prems by simp
    have "(if ch_id (rebased ?e c) \<notin> set gone then [rebased ?e c] else []) =
        (case map_of ?e (ch_id c) of Some c' \<Rightarrow> [c'] | None \<Rightarrow> if map_of sent (ch_id c) \<noteq> None then [] else [c])"
      unfolding id [OF c] using gone [OF c] by (auto simp: rebased_def split: option.splits)
    moreover have "filter (\<lambda>c. ch_id c \<notin> set gone) (map (rebased ?e) ds) = notCarried sent ?e ds" using Cons by simp
    ultimately show ?case
      unfolding notCarried_def list.map concat.simps filter.simps by (auto split: if_splits)
  qed (simp add: notCarried_def)
  then have "filter (\<lambda>c. ch_id c \<notin> set gone) (map (rebased ?e) cs) = notCarried sent ?e cs" by simp
  then show ?thesis
    unfolding keepSettled_def Let_def gone_def [symmetric] by (simp add: clearSaved_def st)
qed

lemma keepSettled_sel [simp]:
  "sv_server (keepSettled cs res sent edited tg st) = sv_server st"
  "getPendingSave scope (keepSettled cs res sent edited tg st) = getPendingSave scope st"
  "sg_scopeKey (sv_staged (keepSettled cs res sent edited tg st)) = sg_scopeKey (sv_staged st)"
  by (simp_all add: keepSettled_def Let_def clearSaved_def)

section \<open>Every run of a draft\<close>

lemma settleSave_ok:
  assumes srv: "idempotentServer send committed" and run: "settleSave send p scope st = (out, st')"
    and ok: "sendable (committed (sv_server st)) (pv_key p) (pv_body p)" "distinct (logCreates (committed (sv_server st)))"
  shows "sv_staged st' = sv_staged st" "distinct (logCreates (committed (sv_server st')))"
    "fst ` set (committed (sv_server st')) \<subseteq> insert (pv_key p) (fst ` set (committed (sv_server st)))"
    "set (logCreates (committed (sv_server st'))) \<subseteq> set (logCreates (committed (sv_server st))) \<union> set (bodyCreates (pv_body p))"
    "out = Inl e \<Longrightarrow> getPendingSave scope st' = getPendingSave scope st \<and> sendable (committed (sv_server st')) (pv_key p) (pv_body p)"
    "out = Inr None \<Longrightarrow> getPendingSave scope st' = None \<and> committed (sv_server st') = committed (sv_server st) \<and>
       set (bodyCreates (pv_body p)) \<inter> set (logCreates (committed (sv_server st))) = {}"
    "out = Inr (Some (res, sent)) \<Longrightarrow> getPendingSave scope st' = None \<and> sent = (case pv_sent p of None \<Rightarrow> [] | Some s \<Rightarrow> s) \<and>
       (\<forall>u \<in> set (bodyCreates (pv_body p)). truthyStr (map_of (gr_assigned res) u))"
proof -
  obtain s' r where r: "send (sv_server st) (pv_body p) (pv_key p) = (s', r)" by fastforce
  note sent = send_sendable [OF srv r ok]
  have s': "sv_server st' = s'" and sg: "sv_staged st' = sv_staged st"
    using run [symmetric] r by (auto simp: settleSave_def Let_def split: reply.splits if_splits)
  show "sv_staged st' = sv_staged st" "distinct (logCreates (committed (sv_server st')))"
    "fst ` set (committed (sv_server st')) \<subseteq> insert (pv_key p) (fst ` set (committed (sv_server st)))"
    "set (logCreates (committed (sv_server st'))) \<subseteq> set (logCreates (committed (sv_server st))) \<union> set (bodyCreates (pv_body p))"
    using sent(1,3,7) s' sg by simp_all
  show "out = Inl e \<Longrightarrow> getPendingSave scope st' = getPendingSave scope st \<and> sendable (committed (sv_server st')) (pv_key p) (pv_body p)"
    using run [symmetric] r sent(2) s' by (auto simp: settleSave_def Let_def split: reply.splits if_splits)
  show "out = Inr None \<Longrightarrow> getPendingSave scope st' = None \<and> committed (sv_server st') = committed (sv_server st) \<and>
       set (bodyCreates (pv_body p)) \<inter> set (logCreates (committed (sv_server st))) = {}"
    using run [symmetric] r sent(5) s' by (auto simp: settleSave_def Let_def split: reply.splits if_splits)
  show "out = Inr (Some (res, sent)) \<Longrightarrow> getPendingSave scope st' = None \<and> sent = (case pv_sent p of None \<Rightarrow> [] | Some s \<Rightarrow> s) \<and>
       (\<forall>u \<in> set (bodyCreates (pv_body p)). truthyStr (map_of (gr_assigned res) u))"
    using run [symmetric] r sent(4) s' by (auto simp: settleSave_def Let_def split: reply.splits if_splits)
qed

lemma creates_sub: "set (creates cs) = targetOf ` {c \<in> set cs. ch_type c = CreateEntity}"
  by (simp add: creates_def)

text \<open>The state after a batch: what the batch could not get through stays staged, or nothing does.\<close>

lemma saveInv_cleared:
  "distinct (logCreates (committed (sv_server st))) \<Longrightarrow> getPendingSave (sg_scopeKey (sv_staged st)) st = None \<Longrightarrow>
     sg_changes (sv_staged st) = [] \<Longrightarrow> saveInv committed st"
  by (simp add: saveInv_def pendingOk_def creates_def)

lemma saveInv_kept:
  "distinct (map ch_id cs) \<Longrightarrow> distinct (creates cs) \<Longrightarrow> distinct (logCreates (committed (sv_server st))) \<Longrightarrow>
     pendingOk (committed (sv_server st)) cs (getPendingSave (sg_scopeKey (sv_staged st)) st) \<Longrightarrow> sg_changes (sv_staged st) = cs \<Longrightarrow>
     saveInv committed st"
  by (simp add: saveInv_def)

definition usedKeys :: "('s \<Rightarrow> (string \<times> save_body) list) \<Rightarrow> ('w, 's) save_state \<Rightarrow> string set" where
  "usedKeys committed st = fst ` set (committed (sv_server st)) \<union> (case getPendingSave (sg_scopeKey (sv_staged st)) st of None \<Rightarrow> {} | Some p \<Rightarrow> {pv_key p})"

lemma save_unsettled:
  assumes srv: "idempotentServer send committed" and inv: "saveInv committed st" and key: "newKey \<notin> usedKeys committed st"
    and cs: "cs = sg_changes (sv_staged st)" and scope: "scope = sg_scopeKey (sv_staged st)"
    and old: "\<And>p. getPendingSave scope st = Some p \<Longrightarrow> pv_body p = bodyOf tg (stagedChangesToOps numStr (\<lambda>i. i) cs)"
    and run: "sendBatch send newKey tg scope cs (stagedChangesToOps numStr (\<lambda>i. i) cs) st = (reply, st')"
  shows "case reply of Failed e \<Rightarrow> saveInv committed st'
    | Answered res \<Rightarrow> distinct (logCreates (committed (sv_server st'))) \<and> getPendingSave scope st' = None \<and> sv_staged st' = sv_staged st"
proof -
  have i: "distinct (map ch_id cs)" "distinct (creates cs)" "distinct (logCreates (committed (sv_server st)))"
    "pendingOk (committed (sv_server st)) cs (getPendingSave scope st)"
    using inv cs scope by (simp_all add: saveInv_def Let_def)
  note batch = sendBatch_ok [OF srv run bodyCreates_ops(1) i(2,3)]
  have s: "\<forall>p. getPendingSave scope st = Some p \<and> pv_body p = bodyOf tg (stagedChangesToOps numStr (\<lambda>i. i) cs) \<longrightarrow>
      sendable (committed (sv_server st)) (pv_key p) (pv_body p)"
    using i(4) by (auto simp: pendingOk_def)
  have k: "newKey \<notin> fst ` set (committed (sv_server st))" using key by (simp add: usedKeys_def)
  have fresh: "(\<forall>p. getPendingSave scope st = Some p \<longrightarrow> pv_body p \<noteq> bodyOf tg (stagedChangesToOps numStr (\<lambda>i. i) cs)) \<longrightarrow>
      set (creates cs) \<inter> set (logCreates (committed (sv_server st))) = {}"
    using old i(4) by (cases "getPendingSave scope st") (auto simp: pendingOk_def)
  have b: "sv_staged st' = sv_staged st" "distinct (logCreates (committed (sv_server st')))"
    "\<And>res. reply = Answered res \<Longrightarrow> getPendingSave scope st' = None"
    "\<And>e. reply = Failed e \<Longrightarrow> pendingOk (committed (sv_server st')) cs (getPendingSave scope st')"
    using batch [OF s k fresh] by blast+
  show ?thesis
  proof (cases reply)
    case (Answered res)
    then show ?thesis using b by simp
  next
    case (Failed e)
    then show ?thesis using b i cs scope by (auto intro!: saveInv_kept)
  qed
qed

lemma save_settled:
  assumes srv: "idempotentServer send committed" and inv: "saveInv committed st" and key: "newKey \<notin> usedKeys committed st"
    and cs: "cs = sg_changes (sv_staged st)" and scope: "scope = sg_scopeKey (sv_staged st)"
    and p: "getPendingSave scope st = Some p" and settle: "settleSave send p scope st = (Inr (Some (res, sent)), st1)"
  defines "edited \<equiv> editedSince sent res cs"
  defines "rest \<equiv> notCarried sent edited cs"
  assumes run: "sendBatch send newKey tg scope rest (map (resolveOp f) (stagedChangesToOps numStr f rest))
      (st1\<lparr>sv_staged := (sv_staged st1)\<lparr>sg_changes := map (rebased edited) (sg_changes (sv_staged st1))\<rparr>\<rparr>) = (reply, st3)"
  shows "case reply of Failed e \<Rightarrow> saveInv committed (keepSettled cs res sent edited tg st3)
    | Answered _ \<Rightarrow> distinct (logCreates (committed (sv_server st3))) \<and> getPendingSave scope st3 = None \<and>
        sv_staged st3 = (sv_staged st)\<lparr>sg_changes := map (rebased edited) cs\<rparr>"
proof -
  have i: "distinct (map ch_id cs)" "distinct (creates cs)" "distinct (logCreates (committed (sv_server st)))"
    "pendingOk (committed (sv_server st)) cs (Some p)"
    using inv cs scope p by (simp_all add: saveInv_def Let_def)
  have ok: "sendable (committed (sv_server st)) (pv_key p) (pv_body p)" using i(4) by (simp add: pendingOk_def)
  note s = settleSave_ok [OF srv settle ok i(3)]
  have named: "\<forall>u \<in> set (bodyCreates (pv_body p)). truthyStr (map_of (gr_assigned res) u)" and none: "getPendingSave scope st1 = None"
    using s(7) by blast+
  have car: "carries p j \<longleftrightarrow> map_of sent j \<noteq> None" for j
    using s(7) i(4) by (auto simp: carries_def pendingOk_def)
  have iff: "map_of sent (ch_id c) \<noteq> None \<longleftrightarrow> targetOf c \<in> set (bodyCreates (pv_body p))" if "c \<in> set cs" "ch_type c = CreateEntity" for c
    using i(4) that car [of "ch_id c"] by (simp add: pendingOk_def)
  have rest: "creates rest = map targetOf (filter (\<lambda>c. ch_type c = CreateEntity \<and> map_of sent (ch_id c) = None) cs)"
    unfolding rest_def edited_def by (rule notCarried_creates [OF i(1)]) (use iff named in blast)
  have d: "distinct (creates rest)"
  proof -
    have "distinct (map targetOf (filter Q (filter P cs)))" if "distinct (map targetOf (filter P cs))" for P Q
      using that by (rule distinct_map_filter)
    from this [of "\<lambda>c. ch_type c = CreateEntity" "\<lambda>c. map_of sent (ch_id c) = None"]
    show ?thesis unfolding rest using i(2) [unfolded creates_def] by (simp add: conj_commute)
  qed
  have fresh: "set (creates rest) \<inter> set (logCreates (committed (sv_server st1))) = {}"
  proof -
    have "u \<notin> set (logCreates (committed (sv_server st1)))" if u: "u \<in> set (creates rest)" for u
    proof -
      obtain c where c: "c \<in> set cs" "ch_type c = CreateEntity" "map_of sent (ch_id c) = None" "u = targetOf c"
        using u unfolding rest by auto
      then have "u \<notin> set (bodyCreates (pv_body p))" using iff [OF c(1,2)] by simp
      moreover from this have "u \<notin> set (logCreates (committed (sv_server st)))"
        using i(4) creates_in [OF c(1,2)] c(4) by (auto simp: pendingOk_def)
      ultimately show ?thesis using s(4) by blast
    qed
    then show ?thesis by blast
  qed
  let ?st2 = "st1\<lparr>sv_staged := (sv_staged st1)\<lparr>sg_changes := map (rebased edited) (sg_changes (sv_staged st1))\<rparr>\<rparr>"
  have k: "newKey \<notin> fst ` set (committed (sv_server st1))"
    using key s(3) p scope by (auto simp: usedKeys_def)
  have b: "sv_staged st3 = sv_staged ?st2" "distinct (logCreates (committed (sv_server st3)))"
    "\<And>res. reply = Answered res \<Longrightarrow> getPendingSave scope st3 = None"
    "\<And>e. reply = Failed e \<Longrightarrow> pendingOk (committed (sv_server st3)) rest (getPendingSave scope st3)"
    using sendBatch_ok [OF srv run bodyCreates_ops(2) d] s(2) none k fresh by simp_all
  have staged: "sv_staged st3 = (sv_staged st)\<lparr>sg_changes := map (rebased edited) cs\<rparr>" using b(1) s(1) cs by simp
  show ?thesis
  proof (cases reply)
    case (Answered res')
    then show ?thesis using b staged by simp
  next
    case (Failed e)
    have "sg_changes (sv_staged (keepSettled cs res sent edited tg st3)) = rest"
      unfolding rest_def edited_def by (rule keepSettled_staged [OF i(1)]) (simp add: staged edited_def)
    moreover have "distinct (map ch_id rest)" unfolding rest_def edited_def by (rule notCarried_ids(1) [OF i(1)])
    moreover have "sg_scopeKey (sv_staged st3) = scope" using staged scope by simp
    ultimately have "saveInv committed (keepSettled cs res sent edited tg st3)"
      using b(2,4) d Failed by (intro saveInv_kept) simp_all
    then show ?thesis using Failed by simp
  qed
qed

lemma rebased_ids:
  assumes "distinct (map ch_id cs)"
  shows "map ch_id (map (rebased (editedSince sent res cs)) cs) = map ch_id cs"
  using map_of_editedSince [OF assms, of _ sent res] by (auto simp: rebased_def split: option.splits)

lemma cleared_all: "ch_id ` set (sg_changes s) \<subseteq> set ids \<Longrightarrow> sg_changes (clearSaved ids s) = []"
  by (auto simp: clearSaved_def filter_empty_conv)

lemma clearSaved_scope [simp]: "sg_scopeKey (clearSaved ids s) = sg_scopeKey s"
  by (simp add: clearSaved_def)

lemma settleFirst_ok:
  assumes srv: "idempotentServer send committed" and inv: "saveInv committed st"
    and cs: "cs = sg_changes (sv_staged st)" and scope: "scope = sg_scopeKey (sv_staged st)"
    and run: "settleFirst numStr send tg scope cs ops st = (out, st1)"
  obtains (failed) e where "out = Inl e" "saveInv committed st1"
  | (unsettled) "out = Inr None" "saveInv committed st1" "sv_staged st1 = sv_staged st" "usedKeys committed st1 \<subseteq> usedKeys committed st"
      "\<And>p. getPendingSave scope st1 = Some p \<Longrightarrow> pv_body p = bodyOf tg ops"
  | (settled) p res sent where "out = Inr (Some (res, sent))" "getPendingSave scope st = Some p" "settleSave send p scope st = (Inr (Some (res, sent)), st1)"
proof -
  have i: "distinct (map ch_id cs)" "distinct (creates cs)" "distinct (logCreates (committed (sv_server st)))"
    "pendingOk (committed (sv_server st)) cs (getPendingSave scope st)"
    using inv cs scope by (simp_all add: saveInv_def Let_def)
  show thesis
  proof (cases "\<exists>p. getPendingSave scope st = Some p \<and> pv_body p \<noteq> bodyOf tg ops")
    case False
    then have "(out, st1) = (Inr None, st)" using run by (auto simp: settleFirst_def split: option.splits)
    then show thesis using unsettled inv False by auto
  next
    case True
    then obtain p where p: "getPendingSave scope st = Some p" "pv_body p \<noteq> bodyOf tg ops" by blast
    then have ok: "sendable (committed (sv_server st)) (pv_key p) (pv_body p)" and q: "pv_sent p \<noteq> None"
      and in_body: "set (creates cs) \<inter> set (logCreates (committed (sv_server st))) \<subseteq> set (bodyCreates (pv_body p))"
      and car: "\<forall>c \<in> set cs. ch_type c = CreateEntity \<longrightarrow> (carries p (ch_id c) \<longleftrightarrow> targetOf c \<in> set (bodyCreates (pv_body p)))"
      using i(4) by (simp_all add: pendingOk_def)
    have settle: "settleSave send p scope st = (out, st1)" using run p q by (simp add: settleFirst_def)
    note s = settleSave_ok [OF srv settle ok i(3)]
    have staged: "sg_changes (sv_staged st1) = cs" "sg_scopeKey (sv_staged st1) = scope" using s(1) cs scope by simp_all
    show thesis
    proof (cases out)
      case (Inl e)
      then have "getPendingSave scope st1 = Some p" "sendable (committed (sv_server st1)) (pv_key p) (pv_body p)" using s(5) p(1) by auto
      then have "pendingOk (committed (sv_server st1)) cs (getPendingSave scope st1)"
        using q car in_body s(4) by (auto simp: pendingOk_def)
      then show thesis using failed Inl i(1,2) s(2) staged saveInv_kept [of cs committed st1] by simp
    next
      case (Inr r)
      show thesis
      proof (cases r)
        case None
        have f: "getPendingSave scope st1 = None" "committed (sv_server st1) = committed (sv_server st)"
          "set (bodyCreates (pv_body p)) \<inter> set (logCreates (committed (sv_server st))) = {}" using s(6) Inr None by auto
        then have "pendingOk (committed (sv_server st1)) cs (getPendingSave scope st1)" using in_body by (auto simp: pendingOk_def)
        then have "saveInv committed st1" using i(1,2) s(2) staged saveInv_kept [of cs committed st1] by simp
        moreover have "usedKeys committed st1 \<subseteq> usedKeys committed st" using f s(1) scope by (auto simp: usedKeys_def)
        ultimately show thesis using unsettled Inr None s(1) f(1) by simp
      next
        case (Some rs)
        then show thesis using settled [of "fst rs" "snd rs" p] Inr p(1) settle by simp
      qed
    qed
  qed
qed

lemma saveInv_emptied:
  assumes "saveInv committed st" "sv_server st' = sv_server st" "sg_changes (sv_staged st') = []"
    "getPendingSave (sg_scopeKey (sv_staged st')) st' = getPendingSave (sg_scopeKey (sv_staged st)) st"
  shows "saveInv committed st'"
  using assms by (auto simp: saveInv_def Let_def pendingOk_def creates_def split: option.splits)

lemma saveInv_confirm:
  assumes srv: "idempotentServer send committed" and inv: "saveInv committed st" and key: "newKey \<notin> usedKeys committed st"
  shows "saveInv committed (confirmSave numStr send newKey tg st)"
proof -
  define cs where "cs = sg_changes (sv_staged st)"
  define scope where "scope = sg_scopeKey (sv_staged st)"
  define ops where "ops = stagedChangesToOps numStr (\<lambda>i. i) cs"
  have ids: "distinct (map ch_id cs)" using inv by (simp add: cs_def saveInv_def Let_def)
  note confirm = confirmSave_def Let_def cs_def [symmetric] saveStagedChangesToDraft_def scope_def [symmetric] ops_def [symmetric]
  show ?thesis
  proof (cases "ops = []")
    case True
    have none: "sg_changes (clearSaved (map ch_id cs) (sv_staged st)) = []" by (rule cleared_all) (simp add: cs_def)
    show ?thesis
      by (rule saveInv_emptied [OF inv]) (use none True in \<open>simp_all add: confirm\<close>)
  next
    case ops: False
    obtain out st1 where first: "settleFirst numStr send tg scope cs ops st = (out, st1)" by fastforce
    from srv inv cs_def scope_def first show ?thesis
    proof (cases rule: settleFirst_ok)
      case (failed e)
      then show ?thesis using ops first by (simp add: confirm)
    next
      case unsettled
      obtain reply st2 where batch: "sendBatch send newKey tg scope cs ops st1 = (reply, st2)" by fastforce
      have "newKey \<notin> usedKeys committed st1" using key unsettled(4) by blast
      from save_unsettled [OF srv unsettled(2) this, of cs scope tg numStr reply st2] unsettled(3,5) batch
      have after: "case reply of Failed e \<Rightarrow> saveInv committed st2
          | Answered res \<Rightarrow> distinct (logCreates (committed (sv_server st2))) \<and> getPendingSave scope st2 = None \<and> sv_staged st2 = sv_staged st"
        by (simp add: cs_def scope_def ops_def split: reply.splits)
      show ?thesis
      proof (cases reply)
        case (Failed e)
        then show ?thesis using ops first batch unsettled(1) after by (simp add: confirm)
      next
        case (Answered res2)
        have none: "sg_changes (clearSaved (map ch_id cs) (sv_staged st)) = []" by (rule cleared_all) (simp add: cs_def)
        show ?thesis
          by (rule saveInv_cleared) (use ops first batch unsettled(1) after Answered none in \<open>simp_all add: confirm\<close>)
      qed
    next
      case (settled p res sent)
      define rest where "rest = notCarried sent (editedSince sent res cs) cs"
      define st2 where "st2 = st1\<lparr>sv_staged := (sv_staged st1)\<lparr>sg_changes := map (rebased (editedSince sent res cs)) (sg_changes (sv_staged st1))\<rparr>\<rparr>"
      define ops2 where "ops2 = map (resolveOp (resolveRef (gr_assigned res))) (stagedChangesToOps numStr (resolveRef (gr_assigned res)) rest)"
      have e: "stagedChangesToOps numStr (resolveRef (gr_assigned res)) rest = [] \<longleftrightarrow> ops2 = []" by (simp add: ops2_def)
      have d: "distinct (logCreates (committed (sv_server st)))" "sendable (committed (sv_server st)) (pv_key p) (pv_body p)"
        using inv settled(2) by (simp_all add: saveInv_def pendingOk_def Let_def scope_def)
      note s = settleSave_ok [OF srv settled(3) d(2,1)]
      have none: "sg_changes (clearSaved (map ch_id cs) ((sv_staged st)\<lparr>sg_changes := map (rebased (editedSince sent res cs)) cs\<rparr>)) = []"
        using arg_cong [OF rebased_ids [OF ids, of sent res], of set] by (intro cleared_all) (simp add: image_image)
      show ?thesis
      proof (cases "ops2 = []")
        case True
        have eq: "confirmSave numStr send newKey tg st =
            (reconcileSaved cs res tg st2)\<lparr>sv_staged := clearSaved (map ch_id cs) (sv_staged st2)\<rparr>"
          using ops first settled(1) True by (simp add: confirm e rest_def [symmetric] ops2_def [symmetric] st2_def [symmetric])
        have staged: "sv_staged st2 = (sv_staged st)\<lparr>sg_changes := map (rebased (editedSince sent res cs)) cs\<rparr>"
          using s(1) by (simp add: st2_def cs_def)
        have "getPendingSave scope st2 = None" "sv_server st2 = sv_server st1" using s(7) by (simp_all add: st2_def)
        then show ?thesis
          unfolding eq using s(2) none by (intro saveInv_cleared) (simp_all add: staged scope_def)
      next
        case ops2: False
        obtain reply st3 where batch: "sendBatch send newKey tg scope rest ops2 st2 = (reply, st3)" by fastforce
        have after: "case reply of Failed e \<Rightarrow> saveInv committed (keepSettled cs res sent (editedSince sent res cs) tg st3)
            | Answered _ \<Rightarrow> distinct (logCreates (committed (sv_server st3))) \<and> getPendingSave scope st3 = None \<and>
                sv_staged st3 = (sv_staged st)\<lparr>sg_changes := map (rebased (editedSince sent res cs)) cs\<rparr>"
          by (rule save_settled [OF srv inv key cs_def scope_def settled(2,3)]) (use batch in \<open>simp add: rest_def ops2_def st2_def\<close>)
        show ?thesis
        proof (cases reply)
          case (Failed e)
          then show ?thesis
            using ops first batch settled(1) ops2 after
            by (simp add: confirm e rest_def [symmetric] ops2_def [symmetric] st2_def [symmetric])
        next
          case (Answered res2)
          show ?thesis
            by (rule saveInv_cleared)
              (use ops first batch settled(1) ops2 after Answered none in
                \<open>simp_all add: confirm e rest_def [symmetric] ops2_def [symmetric] st2_def [symmetric]\<close>)
        qed
      qed
    qed
  qed
qed

section \<open>Properties\<close>

text \<open>An edit leaves any list of staged changes whose ids and temporary URNs are distinct and in which each creation
  either was staged before, or is one the pending save knows about (it carries both the creation's id and its URN, or neither),
  or, with no save pending, is one the server does not have. Left out is an edit that brings back a creation the server
  committed after the pending save that carried it was forgotten, as redo can (see below).\<close>

definition knownToSave :: "('s \<Rightarrow> (string \<times> save_body) list) \<Rightarrow> ('w, 's) save_state \<Rightarrow> 'w change \<Rightarrow> bool" where
  "knownToSave committed st c \<longleftrightarrow>
     (case getPendingSave (sg_scopeKey (sv_staged st)) st of
        None \<Rightarrow> targetOf c \<notin> set (logCreates (committed (sv_server st)))
      | Some p \<Rightarrow> (carries p (ch_id c) \<longleftrightarrow> targetOf c \<in> set (bodyCreates (pv_body p))) \<and>
          (targetOf c \<in> set (logCreates (committed (sv_server st))) \<longrightarrow> targetOf c \<in> set (bodyCreates (pv_body p))))"

definition editOk :: "('s \<Rightarrow> (string \<times> save_body) list) \<Rightarrow> ('w, 's) save_state \<Rightarrow> 'w staged \<Rightarrow> bool" where
  "editOk committed st s' \<longleftrightarrow>
     sg_scopeKey s' = sg_scopeKey (sv_staged st) \<and> distinct (map ch_id (sg_changes s')) \<and> distinct (creates (sg_changes s')) \<and>
     (\<forall>c \<in> set (sg_changes s'). ch_type c = CreateEntity \<longrightarrow>
        (\<exists>d \<in> set (sg_changes (sv_staged st)). ch_type d = CreateEntity \<and> ch_id d = ch_id c \<and> targetOf d = targetOf c) \<or>
        knownToSave committed st c)"

inductive draft_step ::
  "(jsnum \<Rightarrow> string) \<Rightarrow> ('s \<Rightarrow> save_body \<Rightarrow> string \<Rightarrow> 's \<times> reply) \<Rightarrow> ('s \<Rightarrow> (string \<times> save_body) list) \<Rightarrow>
     ('w, 's) save_state \<Rightarrow> ('w, 's) save_state \<Rightarrow> bool" for numStr send committed where
  edit: "editOk committed st s' \<Longrightarrow> draft_step numStr send committed st (persistStaged (st\<lparr>sv_staged := s'\<rparr>))"
| save: "newKey \<notin> usedKeys committed st \<Longrightarrow> draft_step numStr send committed st (persistStaged (confirmSave numStr send newKey tg st))"

lemma saveInv_persist: "saveInv committed st \<Longrightarrow> saveInv committed (persistStaged st)"
  by (auto simp: persistStaged_def saveInv_def Let_def pendingOk_def creates_def)

text \<open>The invariant says that every staged creation is known to the pending save.\<close>

lemma pendingOk_known:
  "pendingOk (committed (sv_server st)) cs (getPendingSave (sg_scopeKey (sv_staged st)) st) \<longleftrightarrow>
     (\<forall>p. getPendingSave (sg_scopeKey (sv_staged st)) st = Some p \<longrightarrow>
        pv_sent p \<noteq> None \<and> sendable (committed (sv_server st)) (pv_key p) (pv_body p)) \<and>
     (\<forall>c \<in> set cs. ch_type c = CreateEntity \<longrightarrow> knownToSave committed st c)"
  by (cases "getPendingSave (sg_scopeKey (sv_staged st)) st") (auto simp: pendingOk_def knownToSave_def creates_def)

lemma knownToSave_same:
  "ch_id d = ch_id c \<Longrightarrow> targetOf d = targetOf c \<Longrightarrow> knownToSave committed st d = knownToSave committed st c"
  by (simp add: knownToSave_def split: option.split)

lemma saveInv_edit:
  assumes inv: "saveInv committed st" and edit: "editOk committed st s'"
  shows "saveInv committed (st\<lparr>sv_staged := s'\<rparr>)"
proof -
  have "pendingOk (committed (sv_server st)) (sg_changes (sv_staged st)) (getPendingSave (sg_scopeKey (sv_staged st)) st)"
    using inv by (simp add: saveInv_def Let_def)
  then have "pendingOk (committed (sv_server st)) (sg_changes s') (getPendingSave (sg_scopeKey (sv_staged st)) st)"
    using edit unfolding pendingOk_known editOk_def by (blast dest: knownToSave_same)
  then show ?thesis using inv edit by (simp add: saveInv_def Let_def editOk_def getPendingSave_def)
qed

text \<open>Undo is always such an edit; redo is one while the pending save still knows what it brings back.\<close>

lemma undo_is_an_edit:
  assumes "saveInv committed st"
  shows "editOk committed st (fst (snd (undo (sv_staged st, w))))"
proof (cases "sg_changes (sv_staged st) = []")
  case False
  then obtain cs c where cs: "sg_changes (sv_staged st) = cs @ [c]" by (metis append_butlast_last_id)
  then show ?thesis using assms by (auto simp: undo_def editOk_def saveInv_def Let_def creates_def)
qed (use assms in \<open>auto simp: undo_def editOk_def saveInv_def Let_def\<close>)

lemma redo_is_an_edit:
  assumes "saveInv committed st" "sg_redoStack (sv_staged st) = cs @ [c]"
    "ch_id c \<notin> ch_id ` set (sg_changes (sv_staged st))" "ch_type c = CreateEntity \<Longrightarrow> targetOf c \<notin> set (creates (sg_changes (sv_staged st)))"
    "ch_type c = CreateEntity \<Longrightarrow> knownToSave committed st c"
  shows "editOk committed st (fst (snd (redo (sv_staged st, w))))"
  using assms by (auto simp: redo_def editOk_def saveInv_def Let_def creates_def)

interpretation draft: step_invariant "draft_step numStr send committed" "\<lambda>st. idempotentServer send committed \<and> saveInv committed st"
  for numStr send committed
proof
  fix st st'
  assume "draft_step numStr send committed st st'" "idempotentServer send committed \<and> saveInv committed st"
  then show "idempotentServer send committed \<and> saveInv committed st'"
    by cases (auto intro: saveInv_persist saveInv_edit saveInv_confirm)
qed

text \<open>
  C1. However the edits and saves of a draft interleave, and whichever answers of the server are lost, no staged entity is created
  twice on the server: over all batches it committed, every temporary URN is created at most once. The edits may stage, rename,
  reorder, drop, undo and redo anything, except that none of them brings back a creation which the server has committed
  and whose pending save has been forgotten. That exception is real: \<open>redo_after_lost_save_creates_twice\<close> is a run of
  undo and redo that makes it and creates the entity twice.
\<close>

theorem no_entity_is_created_twice:
  assumes "idempotentServer send committed" and "(draft_step numStr send committed)\<^sup>*\<^sup>* st st'"
    and "sg_changes (sv_staged st) = []" "sv_pending st = []" "committed (sv_server st) = []"
  shows "distinct (logCreates (committed (sv_server st')))"
proof -
  have "saveInv committed st" using assms(3-5) by (intro saveInv_cleared) (simp_all add: getPendingSave_def)
  then show ?thesis using draft.run_inv [OF assms(2)] assms(1) by (simp add: saveInv_def Let_def)
qed

section \<open>Examples\<close>

text \<open>A server that keeps its promise, and answers, loses its answer or refuses as its script says.\<close>

datatype fate = Answers | Loses | Refuses

type_synonym scripted = "(string \<times> save_body) list \<times> fate list"

definition scriptedSend :: "scripted \<Rightarrow> save_body \<Rightarrow> string \<Rightarrow> scripted \<times> reply" where
  "scriptedSend = (\<lambda>(l, fates) b k.
     let fate = (if fates = [] then Answers else hd fates); known = k \<in> fst ` set l
     in if fate = Refuses \<and> \<not> known then ((l, tl fates), Failed \<lparr>se_class = ''OntologyViolationError'', se_status = JUndefined\<rparr>)
        else ((if known then l else l @ [(k, b)], tl fates),
              if fate = Loses then Failed \<lparr>se_class = ''TypeError'', se_status = JUndefined\<rparr>
              else Answered \<lparr>gr_commitId = Some k, gr_assigned = map (\<lambda>u. (u, ''R'' @ u)) (bodyCreates b), gr_entities = [], gr_versions = []\<rparr>))"

lemma scriptedSend_idempotent: "idempotentServer scriptedSend fst"
proof -
  have "map_of (map (\<lambda>u. (u, ''R'' @ u)) us) u = Some (''R'' @ u)" if "u \<in> set us" for u us
    using that by (induction us) auto
  moreover have "\<not> refused \<lparr>se_class = ''TypeError'', se_status = JUndefined\<rparr>" by (simp add: refused_def REFUSALS_def)
  ultimately show ?thesis
    unfolding idempotentServer_def scriptedSend_def Let_def by (auto split: if_splits)
qed

definition draft_create :: "string \<Rightarrow> unit change" where
  "draft_create name = \<lparr>ch_id = ''1'', ch_type = CreateEntity, ch_targetId = ''tmp'', ch_targetUrn = Some ''tmp'', ch_before = JUndefined,
     ch_after = JObj [(''displayName'', JStr name)], ch_summary = [], ch_apply = None,
     ch_discard = None, ch_reapply = None, ch_timestamp = 0, ch_error = None, ch_conflict = None\<rparr>"

definition draft_target :: save_target where
  "draft_target = \<lparr>tg_wsId = ''w'', tg_dataSourceId = ''d'', tg_branchId = ''b'', tg_message = None, tg_remaps = True, tg_prunes = True\<rparr>"

definition draft_start :: "fate list \<Rightarrow> (unit, scripted) save_state" where
  "draft_start fates = \<lparr>sv_staged = initialStaged, sv_pending = [], sv_server = ([], fates), sv_canvas = \<lparr>cv_nodes = [], cv_edges = []\<rparr>, sv_effects = []\<rparr>"

definition with_staged :: "unit change list \<Rightarrow> (unit, 's) save_state \<Rightarrow> (unit, 's) save_state" where
  "with_staged cs st = persistStaged (st\<lparr>sv_staged := (sv_staged st)\<lparr>sg_changes := cs\<rparr>\<rparr>)"

definition save_step :: "string \<Rightarrow> (unit, scripted) save_state \<Rightarrow> (unit, scripted) save_state" where
  "save_step k st = persistStaged (confirmSave (\<lambda>_. []) scriptedSend k draft_target st)"

text \<open>One undo and one redo in the store, whose hooks have nothing to do here.\<close>

definition undo_step :: "(unit, 's) save_state \<Rightarrow> (unit, 's) save_state" where
  "undo_step st = persistStaged (st\<lparr>sv_staged := fst (snd (undo (sv_staged st, ())))\<rparr>)"

definition redo_step :: "(unit, 's) save_state \<Rightarrow> (unit, 's) save_state" where
  "redo_step st = persistStaged (st\<lparr>sv_staged := fst (snd (redo (sv_staged st, ())))\<rparr>)"

definition inner_create :: "string \<Rightarrow> unit change" where
  "inner_create name = (draft_create name)\<lparr>ch_id := ''2'', ch_targetId := ''in'', ch_targetUrn := Some ''in'',
     ch_after := JObj [(''displayName'', JStr name), (''parentUrn'', JStr ''tmp''), (''containmentEdgeType'', JStr ''HAS'')]\<rparr>"

text \<open>The first save, of a table and of another inside it, commits but its answer is lost; the name of the first is edited, the
  second is undone and redone; the next save creates nothing again, and updates.\<close>

definition edited_run :: "(unit, scripted) save_state" where
  "edited_run = save_step ''k2'' (redo_step (undo_step (with_staged [draft_create ''B'', inner_create ''C'']
     (save_step ''k1'' (with_staged [draft_create ''A'', inner_create ''C''] (draft_start [Loses]))))))"

lemma with_staged_step:
  assumes "editOk committed st ((sv_staged st)\<lparr>sg_changes := cs\<rparr>)"
  shows "draft_step numStr send committed st (with_staged cs st)"
  unfolding with_staged_def by (rule draft_step.edit [OF assms])

lemma draft_start_inv: "saveInv fst (draft_start fates)"
  by (rule saveInv_cleared) (simp_all add: draft_start_def initialStaged_def getPendingSave_def)

lemma run_saveInv:
  assumes "(draft_step (\<lambda>_. []) scriptedSend fst)\<^sup>*\<^sup>* (draft_start fates) st"
  shows "saveInv fst st"
  using draft.run_inv [OF assms] scriptedSend_idempotent draft_start_inv by blast

lemma edited_run_steps: "(draft_step (\<lambda>_. []) scriptedSend fst)\<^sup>*\<^sup>* (draft_start [Loses]) edited_run"
proof -
  let ?step = "draft_step (\<lambda>_. []) scriptedSend fst"
  define s1 where "s1 = with_staged [draft_create ''A'', inner_create ''C''] (draft_start [Loses])"
  define s2 where "s2 = save_step ''k1'' s1"
  define s3 where "s3 = with_staged [draft_create ''B'', inner_create ''C''] s2"
  define s4 where "s4 = undo_step s3"
  define s5 where "s5 = redo_step s4"
  have a: "?step (draft_start [Loses]) s1"
    unfolding s1_def by (rule with_staged_step)
      (simp add: editOk_def knownToSave_def draft_start_def initialStaged_def getPendingSave_def creates_def draft_create_def
        inner_create_def targetOf_def logCreates_def)
  have b: "?step s1 s2"
    unfolding s2_def save_step_def by (rule draft_step.save)
      (simp add: usedKeys_def s1_def with_staged_def draft_start_def persistStaged_def getPendingSave_def initialStaged_def)
  have c: "?step s2 s3"
  proof -
    have "map (\<lambda>c. (ch_id c, ch_type c, targetOf c)) (sg_changes (sv_staged s2)) = [(''1'', CreateEntity, ''tmp''), (''2'', CreateEntity, ''in'')]"
      unfolding s2_def s1_def by code_simp
    then have "\<exists>d \<in> set (sg_changes (sv_staged s2)). ch_type d = CreateEntity \<and> ch_id d = ''1'' \<and> targetOf d = ''tmp''"
        "\<exists>d \<in> set (sg_changes (sv_staged s2)). ch_type d = CreateEntity \<and> ch_id d = ''2'' \<and> targetOf d = ''in''" by auto
    then show ?thesis
      unfolding s3_def by (intro with_staged_step) (simp add: editOk_def creates_def draft_create_def inner_create_def targetOf_def)
  qed
  note app = rtranclp.rtrancl_into_rtrancl [where r = ?step]
  have run3: "?step\<^sup>*\<^sup>* (draft_start [Loses]) s3" by (rule app [OF app [OF app [OF rtranclp.rtrancl_refl a] b] c])
  have u: "?step s3 s4"
    unfolding s4_def undo_step_def
    by (intro draft_step.edit undo_is_an_edit run_saveInv [OF run3])
  have run4: "?step\<^sup>*\<^sup>* (draft_start [Loses]) s4" by (rule app [OF run3 u])
  have r: "?step s4 s5"
  proof -
    have "map (\<lambda>c. (ch_id c, ch_type c, targetOf c)) (sg_redoStack (sv_staged s4)) = [(''2'', CreateEntity, ''in'')]"
      unfolding s4_def s3_def s2_def s1_def by code_simp
    then obtain c where c: "sg_redoStack (sv_staged s4) = [] @ [c]" "ch_id c = ''2''" "targetOf c = ''in''" by auto
    have "ch_id ` set (sg_changes (sv_staged s4)) = set (map ch_id (sg_changes (sv_staged s4)))" by simp
    moreover have "map ch_id (sg_changes (sv_staged s4)) = [''1'']" "creates (sg_changes (sv_staged s4)) = [''tmp'']"
      "sg_scopeKey (sv_staged s4) = None"
      "map_option (\<lambda>p. (bodyCreates (pv_body p), map_option (map fst) (pv_sent p))) (getPendingSave None s4) =
         Some ([''tmp'', ''in''], Some [''1'', ''2''])"
      unfolding s4_def s3_def s2_def s1_def by code_simp+
    moreover from this have "knownToSave fst s4 c"
      using c(2,3) by (auto simp: knownToSave_def carries_def map_of_eq_None_iff simp flip: set_map)
    ultimately show ?thesis
      unfolding s5_def redo_step_def
      by (intro draft_step.edit redo_is_an_edit [OF run_saveInv [OF run4] c(1)])
        (simp_all add: c(2,3))
  qed
  have d: "?step s5 edited_run"
  proof -
    have k: "map fst (fst (sv_server s5)) = [''k1'']" and q: "map_option pv_key (getPendingSave None s5) = Some ''k1''"
      and scope: "sg_scopeKey (sv_staged s5) = None"
      unfolding s5_def s4_def s3_def s2_def s1_def by code_simp+
    obtain p where p: "getPendingSave None s5 = Some p" "pv_key p = ''k1''" using q by (cases "getPendingSave None s5") simp_all
    have "fst ` set (fst (sv_server s5)) = {''k1''}" using arg_cong [OF k, of set] by (simp only: set_map list.set)
    then have "usedKeys fst s5 = {''k1''} \<union> {''k1''}" unfolding usedKeys_def scope p(1) option.case by (simp only: p(2))
    then have "''k2'' \<notin> usedKeys fst s5" by simp
    then show ?thesis unfolding edited_run_def s5_def s4_def s3_def s2_def s1_def save_step_def by (rule draft_step.save)
  qed
  show ?thesis by (rule app [OF app [OF run4 r] d])
qed

theorem no_entity_is_created_twice_witness:
  "length (fst (sv_server edited_run)) = 2 \<and> sg_changes (sv_staged edited_run) = [] \<and>
     distinct (logCreates (fst (sv_server edited_run))) \<and> set (logCreates (fst (sv_server edited_run))) = {''tmp'', ''in''}"
proof -
  have "distinct (logCreates (fst (sv_server edited_run)))"
    by (rule no_entity_is_created_twice [OF scriptedSend_idempotent edited_run_steps])
      (simp_all add: draft_start_def initialStaged_def)
  moreover have "length (fst (sv_server edited_run)) = 2" "set (logCreates (fst (sv_server edited_run))) = {''tmp'', ''in''}" by code_simp+
  moreover have "length (sg_changes (sv_staged edited_run)) = 0" by code_simp
  ultimately show ?thesis by simp
qed

text \<open>
  A staged creation that is undone and redone after a save whose answer was lost is created twice: the undo leaves the
  draft with nothing staged, the pending save is forgotten, and the redone creation goes out under a new key.
\<close>

lemma redo_after_lost_save_creates_twice:
  "logCreates (fst (sv_server (save_step ''k2'' (redo_step (undo_step
     (save_step ''k1'' (with_staged [draft_create ''A''] (draft_start [Loses])))))))) = [''tmp'', ''tmp'']"
  by code_simp

text \<open>The sources of the edges a batch creates, and a table created inside another.\<close>

definition edgeSources :: "save_body \<Rightarrow> json list" where
  "edgeSources = (\<lambda>(ws, ds, br, ops, message). List.map_filter (\<lambda>j. case j of
     JsonObj kvs \<Rightarrow> (case map_of kvs ''payload'' of Some (JsonObj payload) \<Rightarrow> map_of payload ''sourceEntityId'' | _ \<Rightarrow> None) | _ \<Rightarrow> None) ops)"

text \<open>The parent's create commits but its answer is lost; a child is staged in it; the next save settles the first and is refused for the
  child. The child stays staged under the temporary URN of the parent, which the following save sends although nothing
  in it creates it.\<close>

lemma refused_after_settle_keeps_temp_parent:
  "let st = save_step ''k3'' (with_staged [inner_create ''C''] (save_step ''k2'' (with_staged [draft_create ''A'', inner_create ''B'']
     (save_step ''k1'' (with_staged [draft_create ''A''] (draft_start [Loses, Answers, Refuses]))))))
   in map (\<lambda>(k, b). (k, bodyCreates b, edgeSources b)) (fst (sv_server st)) =
     [(''k1'', [''tmp''], []), (''k3'', [''in''], [JsonStr ''tmp''])]"
  by code_simp

end
