(* ===== verification/Containment_Chain.thy ===== *)
theory Containment_Chain
  imports Prelude
begin

text \<open>
  The chain of containers around a node, as every part of the lineage code climbs it (\<^verbatim>\<open>ancestorWalker\<close> of
  \<^verbatim>\<open>hooks/lib/traceWireLedger.ts\<close>), and what holds of it also where the containment has a cycle.
\<close>

section \<open>Containment chains\<close>

text \<open>
  The loop \<open>while (cursor && !out.includes(cursor)) { out.push(cursor); cursor = parentOf(cursor) }\<close> of
  \<open>ancestorWalker\<close>: the chain of a node, itself first. \<open>out\<close> holds the chain so far; the parents are a table, so
  that the chain is finite. The walker's cache stores results of this pure function and is left out.
\<close>

type_synonym parents = "(string \<times> string) list"

function climb :: "parents \<Rightarrow> string list \<Rightarrow> string \<Rightarrow> string list" where
  "climb P out cursor = (if cursor = [] \<or> cursor \<in> set out then []
     else cursor # (case map_of P cursor of None \<Rightarrow> [] | Some p \<Rightarrow> climb P (out @ [cursor]) p))"
  by auto
termination
proof (relation "measure (\<lambda>(P, out, cursor). card (fst ` set P - set out))", simp)
  fix P :: parents and out cursor p
  assume new: "\<not> (cursor = [] \<or> cursor \<in> set out)" and p: "map_of P cursor = Some p"
  have "cursor \<in> fst ` set P" using map_of_SomeD [OF p] by force
  then have "fst ` set P - set (out @ [cursor]) \<subset> fst ` set P - set out" using new by auto
  then show "((P, out @ [cursor], p), P, out, cursor) \<in> measure (\<lambda>(P, out, cursor). card (fst ` set P - set out))"
    by (simp add: psubset_card_mono)
qed

declare climb.simps [simp del]

definition ancestorsOrSelf :: "parents \<Rightarrow> string \<Rightarrow> string list" where
  "ancestorsOrSelf P urn = climb P [] urn"

lemma climb_Nil [simp]: "climb P out [] = []"
  by (simp add: climb.simps)

lemma climb_fresh: "x \<in> set (climb P out u) \<Longrightarrow> x \<notin> set out \<and> x \<noteq> []"
proof (induction P out u arbitrary: x rule: climb.induct)
  case (1 P out u)
  show ?case
  proof (cases "u = [] \<or> u \<in> set out")
    case True
    then show ?thesis using "1.prems" by (simp add: climb.simps [of P out u])
  next
    case False
    show ?thesis
    proof (cases "map_of P u")
      case None
      then show ?thesis using "1.prems" False by (simp add: climb.simps [of P out u])
    next
      case (Some p)
      then show ?thesis using "1.prems" False "1.IH" [OF False Some, of x] by (auto simp: climb.simps [of P out u])
    qed
  qed
qed

lemma distinct_climb: "distinct (climb P out u)"
proof (induction P out u rule: climb.induct)
  case (1 P out u)
  show ?case
  proof (cases "u = [] \<or> u \<in> set out")
    case True
    then show ?thesis by (simp add: climb.simps [of P out u])
  next
    case False
    then show ?thesis using "1.IH" [OF False] climb_fresh [of u P "out @ [u]"]
      by (auto simp: climb.simps [of P out u] split: option.splits)
  qed
qed

lemma distinct_ancestors [simp]: "distinct (ancestorsOrSelf P u)"
  by (simp add: ancestorsOrSelf_def distinct_climb)

lemma self_in_ancestors: "u \<noteq> [] \<Longrightarrow> u \<in> set (ancestorsOrSelf P u)"
  by (simp add: ancestorsOrSelf_def climb.simps split: option.splits)

lemma ancestors_Nil [simp]: "ancestorsOrSelf P [] = []"
  by (simp add: ancestorsOrSelf_def)

text \<open>A longer guard only cuts the chain earlier.\<close>

lemma climb_guard:
  "set out \<subseteq> set out' \<Longrightarrow> climb P out' u = takeWhile (\<lambda>x. x \<notin> set out') (climb P out u)"
proof (induction P out u arbitrary: out' rule: climb.induct)
  case (1 P out u)
  show ?case
  proof (cases "u = [] \<or> u \<in> set out'")
    case True
    then show ?thesis
      by (auto simp: climb.simps [of P out u] climb.simps [of P out' u] split: option.splits)
  next
    case False
    then have "\<not> (u = [] \<or> u \<in> set out)" using "1.prems" by auto
    note IH = "1.IH" [OF this]
    show ?thesis
    proof (cases "map_of P u")
      case None
      then show ?thesis using False "1.prems"
        by (auto simp: climb.simps [of P out u] climb.simps [of P out' u])
    next
      case (Some p)
      have "climb P (out' @ [u]) p = takeWhile (\<lambda>x. x \<notin> set (out' @ [u])) (climb P (out @ [u]) p)"
        using "1.prems" by (intro IH Some) auto
      also have "\<dots> = takeWhile (\<lambda>x. x \<notin> set out') (climb P (out @ [u]) p)"
        using climb_fresh [of _ P "out @ [u]" p] by (intro takeWhile_cong) auto
      finally show ?thesis using False "1.prems" Some
        by (auto simp: climb.simps [of P out u] climb.simps [of P out' u])
    qed
  qed
qed

text \<open>A node whose parent is already on the chain is the last of it.\<close>

lemma climb_closes:
  "map_of P x = Some p \<Longrightarrow> p \<in> insert u (set out) \<Longrightarrow>
   climb P out u = takeWhile (\<lambda>y. y \<noteq> x) (climb P out u) @ (if x \<in> set (climb P out u) then [x] else [])"
proof (induction P out u rule: climb.induct)
  case (1 P out u)
  show ?case
  proof (cases "u = [] \<or> u \<in> set out")
    case True
    then show ?thesis by (simp add: climb.simps [of P out u])
  next
    case False
    show ?thesis
    proof (cases "u = x")
      case True
      then have "climb P (out @ [x]) p = []" using "1.prems"(2) by (simp add: climb.simps [of _ _ p])
      then have "climb P out u = [x]" using True False "1.prems"(1) by (simp add: climb.simps [of P out x])
      then show ?thesis using True by simp
    next
      case neq: False
      show ?thesis
      proof (cases "map_of P u")
        case None
        then show ?thesis using False neq by (simp add: climb.simps [of P out u])
      next
        case (Some q)
        have "p \<in> insert q (set (out @ [u]))" using "1.prems"(2) by auto
        note IH = "1.IH" [OF False Some "1.prems"(1) this]
        have "climb P out u = u # climb P (out @ [u]) q" using False Some by (simp add: climb.simps [of P out u])
        then show ?thesis using IH neq by simp
      qed
    qed
  qed
qed

lemma ancestors_step:
  assumes "map_of P x = Some p" "x \<noteq> []"
  shows "ancestorsOrSelf P x = x # takeWhile (\<lambda>y. y \<noteq> x) (ancestorsOrSelf P p)"
proof -
  have "climb P [x] p = takeWhile (\<lambda>y. y \<notin> set [x]) (climb P [] p)" by (rule climb_guard) simp
  then show ?thesis using assms by (simp add: ancestorsOrSelf_def climb.simps [of P "[]" x])
qed

lemma set_cut_at_end:
  assumes "l = takeWhile (\<lambda>y. y \<noteq> x) l @ (if x \<in> set l then [x] else [])"
  shows "insert x (set (takeWhile (\<lambda>y. y \<noteq> x) l)) = insert x (set l)"
proof -
  have "set l = set (takeWhile (\<lambda>y. y \<noteq> x) l) \<union> set (if x \<in> set l then [x] else [])"
    using arg_cong [OF assms, of set] by (simp only: set_append)
  then show ?thesis by (cases "x \<in> set l") (simp_all only: if_True if_False list.set, blast+)
qed

lemma ancestors_parent:
  assumes "map_of P x = Some p" "x \<noteq> []"
  shows "set (ancestorsOrSelf P x) = insert x (set (ancestorsOrSelf P p))"
proof -
  have "climb P [] p = takeWhile (\<lambda>y. y \<noteq> x) (climb P [] p) @ (if x \<in> set (climb P [] p) then [x] else [])"
    by (rule climb_closes [OF assms(1)]) simp
  note set_cut_at_end [OF this]
  then show ?thesis
    unfolding ancestors_step [OF assms] list.simps(15) by (simp only: ancestorsOrSelf_def)
qed

lemma ancestors_root: "map_of P x = None \<Longrightarrow> x \<noteq> [] \<Longrightarrow> ancestorsOrSelf P x = [x]"
  by (simp add: ancestorsOrSelf_def climb.simps)

text \<open>The nearest node of a chain with a property does not depend on a node below it that lacks the property.\<close>

lemma nearest_step:
  assumes "map_of P x = Some p" "x \<noteq> []" "\<not> Q x"
  shows "find Q (ancestorsOrSelf P x) = find Q (ancestorsOrSelf P p)"
proof -
  let ?l = "ancestorsOrSelf P p"
  have l: "?l = takeWhile (\<lambda>y. y \<noteq> x) ?l @ (if x \<in> set ?l then [x] else [])"
    unfolding ancestorsOrSelf_def by (rule climb_closes [OF assms(1)]) simp
  have app: "find Q (us @ vs) = (case find Q us of None \<Rightarrow> find Q vs | Some v \<Rightarrow> Some v)" for us vs
    by (induction us) auto
  have "find Q (takeWhile (\<lambda>y. y \<noteq> x) ?l @ (if x \<in> set ?l then [x] else [])) = find Q (takeWhile (\<lambda>y. y \<noteq> x) ?l)"
    using assms(3) by (simp add: app split: option.splits)
  then have "find Q ?l = find Q (takeWhile (\<lambda>y. y \<noteq> x) ?l)" by (subst l)
  moreover have "find Q (ancestorsOrSelf P x) = find Q (takeWhile (\<lambda>y. y \<noteq> x) ?l)"
    using assms(3) by (simp only: ancestors_step [OF assms(1,2)] find.simps if_False)
  ultimately show ?thesis by simp
qed


lemma climb_within:
  "u \<in> S \<Longrightarrow> (\<And>x p. x \<in> S \<Longrightarrow> map_of P x = Some p \<Longrightarrow> p \<in> S) \<Longrightarrow> set (climb P out u) \<subseteq> S"
proof (induction P out u rule: climb.induct)
  case (1 P out u)
  show ?case
  proof (cases "u = [] \<or> u \<in> set out")
    case False
    show ?thesis
    proof (cases "map_of P u")
      case (Some p)
      have "set (climb P (out @ [u]) p) \<subseteq> S" by (rule "1.IH" [OF False Some]) (use "1.prems" Some in blast)+
      then show ?thesis using False Some "1.prems"(1) by (simp add: climb.simps [of P out u])
    qed (use False "1.prems" in \<open>simp add: climb.simps [of P out u]\<close>)
  qed (simp add: climb.simps [of P out u])
qed

lemma ancestors_within:
  assumes "u \<in> S" "\<And>x p. x \<in> S \<Longrightarrow> map_of P x = Some p \<Longrightarrow> p \<in> S"
  shows "set (ancestorsOrSelf P u) \<subseteq> S"
  unfolding ancestorsOrSelf_def using assms by (rule climb_within)

text \<open>Where no node is among the containers of its own parent, the containment is a forest.\<close>

definition containmentAcyclic :: "parents \<Rightarrow> bool" where
  "containmentAcyclic P = list_all (\<lambda>(u, p). u \<notin> set (ancestorsOrSelf P p)) P"

lemma forest_step:
  assumes "containmentAcyclic P" "map_of P u = Some p" "u \<noteq> []"
  shows "ancestorsOrSelf P u = u # ancestorsOrSelf P p"
proof -
  have "u \<notin> set (ancestorsOrSelf P p)"
    using assms(1) map_of_SomeD [OF assms(2)] by (auto simp: containmentAcyclic_def list_all_iff)
  then have "takeWhile (\<lambda>y. y \<noteq> u) (ancestorsOrSelf P p) = ancestorsOrSelf P p" by (auto simp: takeWhile_eq_all_conv)
  then show ?thesis using ancestors_step [OF assms(2,3)] by simp
qed

text \<open>In a forest a container has a shorter chain than what is inside it, and being inside is transitive.\<close>

lemma chain_suffix:
  assumes "containmentAcyclic P"
  shows "a \<in> set (ancestorsOrSelf P u) \<Longrightarrow> \<exists>pre. ancestorsOrSelf P u = pre @ ancestorsOrSelf P a \<and> (a \<noteq> u \<longrightarrow> pre \<noteq> [])"
proof (induction "length (ancestorsOrSelf P u)" arbitrary: u)
  case 0
  then show ?case by simp
next
  case (Suc n)
  have ne: "u \<noteq> []" using Suc.prems by auto
  show ?case
  proof (cases "a = u")
    case False
    show ?thesis
    proof (cases "map_of P u")
      case None
      then show ?thesis using Suc.prems False ancestors_root [OF None ne] by simp
    next
      case (Some p)
      note s = forest_step [OF assms Some ne]
      obtain pre where "ancestorsOrSelf P p = pre @ ancestorsOrSelf P a" using Suc s False by auto
      then show ?thesis using s by (intro exI [of _ "u # pre"]) simp
    qed
  qed simp
qed

lemma container_shorter:
  assumes "containmentAcyclic P" "a \<in> set (ancestorsOrSelf P u)" "a \<noteq> u"
  shows "length (ancestorsOrSelf P a) < length (ancestorsOrSelf P u)"
  using chain_suffix [OF assms(1,2)] assms(3) by auto

lemma inside_trans:
  assumes "containmentAcyclic P" "b \<in> set (ancestorsOrSelf P a)" "a \<in> set (ancestorsOrSelf P u)"
  shows "b \<in> set (ancestorsOrSelf P u)"
  using chain_suffix [OF assms(1,3)] assms(2) by auto

end
