(* ===== verification/Lens_Subgraph.thy ===== *)
theory Lens_Subgraph
  imports Containment_Chain
begin

text \<open>
  The lineage lens (\<^verbatim>\<open>components/canvas/context-view/lens/lens-subgraph.ts\<close>): the nested, hop-annotated structure
  built from the accumulated walk, and the rows visible under a set of expanded nodes.

  Maps and sets are lists in insertion order. A node's payload is its optional name and type; a weight is an
  integer; \<open>asSet\<close> makes a set of a set or an array, both lists here. A stack is a list with its top last, as the
  array of the code.
\<close>

section \<open>Data\<close>

record lens_node =
  nl_urn :: string
  nl_displayName :: "string option"
  nl_entityType :: "string option"

datatype edge_grain = RawHop | RollupCell

record lens_edge =
  le_id :: "string option"
  le_sourceUrn :: string
  le_targetUrn :: string
  le_edgeType :: "string option"
  le_kind :: "edge_grain option"
  le_weight :: "int option"

definition isRollup :: "lens_edge \<Rightarrow> bool" where
  "isRollup e = (le_kind e = Some RollupCell)"

definition hopWeight :: "lens_edge \<Rightarrow> int" where
  "hopWeight e = (if isRollup e then max 1 (case le_weight e of None \<Rightarrow> 1 | Some w \<Rightarrow> w) else 1)"

record lens_containment =
  ct_sourceUrn :: string
  ct_targetUrn :: string

datatype frontier_kind = Cut | Depth

record lens_frontier =
  lf_urn :: string
  lf_totalCount :: "int option"
  lf_nextCursor :: "string option"
  lf_kind :: "frontier_kind option"

record lens_input =
  li_focusUrn :: string
  li_focusUrns :: "string list option"
  li_nodes :: "lens_node list"
  li_lineageEdges :: "lens_edge list"
  li_containmentEdges :: "lens_containment list"
  li_upstreamUrns :: "string list option"
  li_downstreamUrns :: "string list option"
  li_frontierUp :: "lens_frontier list option"
  li_frontierDown :: "lens_frontier list option"
  li_truncated :: "bool option"
  li_truncationReason :: "string option"
  li_seedTruncated :: "bool option"

record lens_subnode =
  sn_urn :: string
  sn_node :: lens_node
  sn_parent :: "string option"
  sn_children :: "string list"
  sn_depth :: nat
  sn_isLeaf :: bool
  sn_up :: bool
  sn_down :: bool
  sn_isFocus :: bool
  sn_hopDown :: "nat option"
  sn_hopUp :: "nat option"
  sn_degreeUp :: int
  sn_degreeDown :: int
  sn_frontierUp :: "lens_frontier option"
  sn_frontierDown :: "lens_frontier option"

record lens_subgraph =
  sg_focusUrn :: string
  sg_nodes :: "(string \<times> lens_subnode) list"
  sg_roots :: "string list"
  sg_lineageEdges :: "lens_edge list"
  sg_truncated :: bool
  sg_truncationReason :: "string option"
  sg_seedTruncated :: bool

section \<open>Building the subgraph\<close>

definition membersOf :: "lens_node list \<Rightarrow> (string \<times> lens_node) list" where
  "membersOf ns = fold (\<lambda>n m. if nl_urn n \<noteq> [] then AList.update (nl_urn n) n m else m) ns []"

text \<open>\<open>m.get(k) ?? []\<close>, and pushing to the list kept at a key.\<close>

definition listAt :: "('k \<times> 'v list) list \<Rightarrow> 'k \<Rightarrow> 'v list" where
  "listAt m k = (case map_of m k of None \<Rightarrow> [] | Some xs \<Rightarrow> xs)"

lemma listAt_update: "listAt (AList.update k v m) j = (if k = j then v else listAt m j)"
  by (simp add: listAt_def update_conv')

text \<open>One containment edge: the first parent wins, a child is listed once under each parent.\<close>

definition nestEdge :: "(string \<times> lens_node) list \<Rightarrow> lens_containment \<Rightarrow>
    parents \<times> (string \<times> string list) list \<Rightarrow> parents \<times> (string \<times> string list) list" where
  "nestEdge member ce st = (let parentOf = fst st; childrenOf = snd st; p = ct_sourceUrn ce; c = ct_targetUrn ce in
     if p = [] \<or> c = [] \<or> p = c then st
     else if map_of member p = None \<or> map_of member c = None then st
     else (if map_of parentOf c = None then AList.update c p parentOf else parentOf,
           AList.update p (if c \<in> set (listAt childrenOf p) then listAt childrenOf p else listAt childrenOf p @ [c])
             childrenOf))"

definition nesting :: "(string \<times> lens_node) list \<Rightarrow> lens_containment list \<Rightarrow>
    parents \<times> (string \<times> string list) list" where
  "nesting member ces = fold (nestEdge member) ces ([], [])"

text \<open>The memoised depth; a cycle of containment degrades to 0. It returns the cache as well. The guard holds the
  nodes whose depth is being computed.\<close>

function lensDepth :: "parents \<Rightarrow> string \<Rightarrow> string list \<Rightarrow> (string \<times> nat) list \<Rightarrow> nat \<times> (string \<times> nat) list" where
  "lensDepth parentOf urn guard cache = (case map_of cache urn of
       Some d \<Rightarrow> (d, cache)
     | None \<Rightarrow> if urn \<in> set guard then (0, cache)
         else (case map_of parentOf urn of
             None \<Rightarrow> (0, AList.update urn 0 cache)
           | Some p \<Rightarrow> let r = lensDepth parentOf p (urn # guard) cache; d = fst r + 1
               in (d, AList.update urn d (snd r))))"
  by auto
termination
proof (relation "measure (\<lambda>(P, u, guard, cache). card (fst ` set P - set guard))", simp)
  fix P :: parents and u and guard :: "string list" and cache :: "(string \<times> nat) list" and p
  assume new: "u \<notin> set guard" and p: "map_of P u = Some p"
  have "u \<in> fst ` set P" using map_of_SomeD [OF p] by force
  then have "fst ` set P - set (u # guard) \<subset> fst ` set P - set guard" using new by auto
  then show "((P, p, u # guard, cache), P, u, guard, cache)
      \<in> measure (\<lambda>(P, u, guard, cache). card (fst ` set P - set guard))"
    by (simp add: psubset_card_mono)
qed

declare lensDepth.simps [simp del]

text \<open>The focus side: each focus that is a member, and everything inside any of them. The stack's top is last.\<close>

function insideOf :: "(string \<times> string list) list \<Rightarrow> string list \<Rightarrow> string list \<Rightarrow> string list" where
  "insideOf childrenOf hopSeed stack = (if stack = [] then hopSeed
     else (let urn = last stack; stack' = butlast stack in
       if urn \<in> set hopSeed then insideOf childrenOf hopSeed stack'
       else insideOf childrenOf (hopSeed @ [urn]) (stack' @ listAt childrenOf urn)))"
  by auto

definition kidsRange :: "(string \<times> string list) list \<Rightarrow> string set" where
  "kidsRange childrenOf = (\<Union>(k, ks) \<in> set childrenOf. set ks)"

lemma listAt_range: "set (listAt m k) \<subseteq> kidsRange m"
proof (cases "map_of m k")
  case (Some ks)
  then show ?thesis using map_of_SomeD [OF Some] by (auto simp: listAt_def kidsRange_def)
qed (simp add: listAt_def)

lemma finite_kidsRange [simp]: "finite (kidsRange m)"
  by (auto simp: kidsRange_def)

lemma set_last_butlast: "xs \<noteq> [] \<Longrightarrow> set xs = insert (last xs) (set (butlast xs))"
  by (metis Un_insert_right append_butlast_last_id list.simps(15) set_append sup_bot_right empty_set)

termination insideOf
proof (relation "measures [\<lambda>(m, seen, st). card ((set st \<union> kidsRange m) - set seen), \<lambda>(m, seen, st). length st]", simp)
  fix m :: "(string \<times> string list) list" and seen stack :: "string list" and urn stack'
  assume ne: "stack \<noteq> []" and urn: "urn = last stack" and st: "stack' = butlast stack"
  have s: "set stack = insert urn (set stack')" using ne urn st set_last_butlast by simp
  {
    assume "urn \<in> set seen"
    then have "(set stack' \<union> kidsRange m) - set seen = (set stack \<union> kidsRange m) - set seen" using s by auto
    then show "((m, seen, stack'), m, seen, stack)
        \<in> measures [\<lambda>(m, seen, st). card ((set st \<union> kidsRange m) - set seen), \<lambda>(m, seen, st). length st]"
      using ne st by simp
  next
    assume new: "urn \<notin> set seen"
    have "(set (stack' @ listAt m urn) \<union> kidsRange m) - set (seen @ [urn]) \<subset> (set stack \<union> kidsRange m) - set seen"
      using s new listAt_range [of m urn] by auto
    then show "((m, seen @ [urn], stack' @ listAt m urn), m, seen, stack)
        \<in> measures [\<lambda>(m, seen, st). card ((set st \<union> kidsRange m) - set seen), \<lambda>(m, seen, st). length st]"
      by (simp add: psubset_card_mono del: set_append)
  }
qed

declare insideOf.simps [simp del]

definition focusSide :: "(string \<times> lens_node) list \<Rightarrow> (string \<times> string list) list \<Rightarrow> string list \<Rightarrow> string list" where
  "focusSide member childrenOf focusSet =
     insideOf childrenOf (filter (\<lambda>f. map_of member f \<noteq> None) focusSet) (concat (map (listAt childrenOf) focusSet))"

text \<open>The breadth-first search of one direction: the adjacency, then the queue that grows while it is read. What is
  left of the queue is its argument.\<close>

definition stepFrom :: "bool \<Rightarrow> lens_edge \<Rightarrow> string" where
  "stepFrom forward e = (if forward then le_sourceUrn e else le_targetUrn e)"

definition stepTo :: "bool \<Rightarrow> lens_edge \<Rightarrow> string" where
  "stepTo forward e = (if forward then le_targetUrn e else le_sourceUrn e)"

definition adjacency :: "bool \<Rightarrow> lens_edge list \<Rightarrow> (string \<times> string list) list" where
  "adjacency forward es =
     fold (\<lambda>e m. AList.update (stepFrom forward e) (listAt m (stepFrom forward e) @ [stepTo forward e]) m) es []"

definition discover :: "nat \<Rightarrow> string \<Rightarrow> (string \<times> nat) list \<times> string list \<Rightarrow> (string \<times> nat) list \<times> string list" where
  "discover d v st = (let hop = fst st; q = snd st in
     if map_of hop v \<noteq> None then (hop, q) else (AList.update v (d + 1) hop, q @ [v]))"

function bfsLoop :: "(string \<times> string list) list \<Rightarrow> (string \<times> nat) list \<Rightarrow> string list \<Rightarrow> (string \<times> nat) list" where
  "bfsLoop adj hop [] = hop"
| "bfsLoop adj hop (urn # q) =
     (let r = fold (discover (the (map_of hop urn))) (listAt adj urn) (hop, q) in bfsLoop adj (fst r) (snd r))"
  by pat_completeness auto


lemma discover_simps:
  "map_of hop v = None \<Longrightarrow> discover d v (hop, q) = (AList.update v (d + 1) hop, q @ [v])"
  "map_of hop v \<noteq> None \<Longrightarrow> discover d v (hop, q) = (hop, q)"
  by (simp_all add: discover_def)

lemma dom_discover: "fst ` set (fst (fold (discover d) vs (hop, q))) = fst ` set hop \<union> set vs"
proof (induction vs arbitrary: hop q)
  case (Cons v vs)
  show ?case
  proof (cases "map_of hop v = None")
    case True
    then show ?thesis using Cons by (simp add: discover_def dom_update insert_absorb)
  next
    case False
    then have "v \<in> fst ` set hop" by (simp add: map_of_eq_None_iff)
    then show ?thesis using Cons False by (auto simp: discover_def)
  qed
qed simp

lemma discovered_hop:
  "map_of (fst (fold (discover d) vs (hop, q))) v =
     (case map_of hop v of Some e \<Rightarrow> Some e | None \<Rightarrow> if v \<in> set vs then Some (d + 1) else None)"
proof (induction vs arbitrary: hop q)
  case Nil
  then show ?case by (simp split: option.splits)
next
  case (Cons w vs)
  then show ?case by (auto simp: discover_def update_conv' split: option.splits)
qed

lemma discovered_queue:
  "\<exists>new. snd (fold (discover d) vs (hop, q)) = q @ new \<and> set new = set vs - fst ` set hop"
proof (induction vs arbitrary: hop q)
  case (Cons v vs)
  show ?case
  proof (cases "map_of hop v = None")
    case True
    then have "v \<notin> fst ` set hop" by (simp add: map_of_eq_None_iff)
    moreover obtain new where "snd (fold (discover d) vs (AList.update v (d + 1) hop, q @ [v])) = (q @ [v]) @ new"
        "set new = set vs - fst ` set (AList.update v (d + 1) hop)"
      using Cons by blast
    ultimately show ?thesis using True
      by (intro exI [of _ "v # new"]) (auto simp: discover_simps dom_update)
  next
    case False
    then have "v \<in> fst ` set hop" by (simp add: map_of_eq_None_iff)
    moreover obtain new where "snd (fold (discover d) vs (hop, q)) = q @ new" "set new = set vs - fst ` set hop"
      using Cons by blast
    ultimately show ?thesis using False by (intro exI [of _ new]) (auto simp: discover_simps)
  qed
qed simp

lemma discover_known: "set vs \<subseteq> fst ` set hop \<Longrightarrow> fold (discover d) vs (hop, q) = (hop, q)"
proof (induction vs)
  case (Cons v vs)
  then have "map_of hop v \<noteq> None" by (auto simp: map_of_eq_None_iff)
  then show ?case using Cons by (auto simp: discover_def)
qed simp

termination bfsLoop
proof (relation "measures [\<lambda>(adj, hop, q). card (kidsRange adj - fst ` set hop), \<lambda>(adj, hop, q). length q]", simp)
  fix adj :: "(string \<times> string list) list" and hop :: "(string \<times> nat) list" and urn q r
  assume r: "r = fold (discover (the (map_of hop urn))) (listAt adj urn) (hop, q)"
  show "((adj, fst r, snd r), adj, hop, urn # q)
      \<in> measures [\<lambda>(adj, hop, q). card (kidsRange adj - fst ` set hop), \<lambda>(adj, hop, q). length q]"
  proof (cases "set (listAt adj urn) \<subseteq> fst ` set hop")
    case True
    then show ?thesis using r by (simp add: discover_known)
  next
    case False
    then have "kidsRange adj - fst ` set (fst r) \<subset> kidsRange adj - fst ` set hop"
      using listAt_range [of adj urn] unfolding r dom_discover by auto
    then show ?thesis by (cases r) (simp add: psubset_card_mono)
  qed
qed

definition bfsHops :: "lens_edge list \<Rightarrow> string list \<Rightarrow> bool \<Rightarrow> (string \<times> nat) list" where
  "bfsHops es hopSeed forward =
     bfsLoop (adjacency forward es) (fold (\<lambda>s m. AList.update s 0 m) hopSeed []) hopSeed"

text \<open>Degrees and frontier entries.\<close>

definition countAt :: "(string \<times> int) list \<Rightarrow> string \<Rightarrow> int" where
  "countAt m k = (case map_of m k of None \<Rightarrow> 0 | Some n \<Rightarrow> n)"

definition degreesOf :: "(lens_edge \<Rightarrow> string) \<Rightarrow> lens_edge list \<Rightarrow> (string \<times> int) list" where
  "degreesOf endOf es = fold (\<lambda>e m. AList.update (endOf e) (countAt m (endOf e) + hopWeight e) m) es []"

definition frontierOf :: "(string \<times> lens_node) list \<Rightarrow> lens_frontier list option \<Rightarrow> (string \<times> lens_frontier) list" where
  "frontierOf member fs = fold (\<lambda>f m. if map_of member (lf_urn f) \<noteq> None then AList.update (lf_urn f) f m else m)
     (case fs of None \<Rightarrow> [] | Some xs \<Rightarrow> xs) []"

definition asSet :: "string list option \<Rightarrow> string list" where
  "asSet v = (case v of None \<Rightarrow> [] | Some xs \<Rightarrow> uniq xs)"

definition memberEdges :: "(string \<times> lens_node) list \<Rightarrow> lens_edge list \<Rightarrow> lens_edge list" where
  "memberEdges member es =
     filter (\<lambda>e. map_of member (le_sourceUrn e) \<noteq> None \<and> map_of member (le_targetUrn e) \<noteq> None) es"

text \<open>The final pass over the members: a node's fields, the roots, and the depth cache that is threaded through.\<close>

definition subNode :: "lens_input \<Rightarrow> (string \<times> lens_node) list \<Rightarrow> string \<Rightarrow> lens_node \<Rightarrow> nat \<Rightarrow> lens_subnode" where
  "subNode input member urn node depth = (let parentOf = fst (nesting member (li_containmentEdges input));
       childrenOf = snd (nesting member (li_containmentEdges input));
       es = memberEdges member (li_lineageEdges input);
       focusSet = uniq (case li_focusUrns input of None \<Rightarrow> [li_focusUrn input] | Some us \<Rightarrow> us);
       hopSeed = focusSide member childrenOf focusSet
     in \<lparr>sn_urn = urn, sn_node = node, sn_parent = map_of parentOf urn, sn_children = listAt childrenOf urn,
         sn_depth = depth, sn_isLeaf = (listAt childrenOf urn = []),
         sn_up = (urn \<in> set (asSet (li_upstreamUrns input))), sn_down = (urn \<in> set (asSet (li_downstreamUrns input))),
         sn_isFocus = (urn \<in> set focusSet),
         sn_hopDown = map_of (bfsHops es hopSeed True) urn, sn_hopUp = map_of (bfsHops es hopSeed False) urn,
         sn_degreeUp = countAt (degreesOf le_targetUrn es) urn,
         sn_degreeDown = countAt (degreesOf le_sourceUrn es) urn,
         sn_frontierUp = map_of (frontierOf member (li_frontierUp input)) urn,
         sn_frontierDown = map_of (frontierOf member (li_frontierDown input)) urn\<rparr>)"

primrec addNodes :: "(string \<Rightarrow> lens_node \<Rightarrow> nat \<Rightarrow> lens_subnode) \<Rightarrow> parents \<Rightarrow> (string \<times> nat) list \<Rightarrow>
    (string \<times> lens_node) list \<Rightarrow> (string \<times> lens_subnode) list" where
  "addNodes f parentOf cache [] = []"
| "addNodes f parentOf cache (m # ms) = (let r = lensDepth parentOf (fst m) [] cache
     in (fst m, f (fst m) (snd m) (fst r)) # addNodes f parentOf (snd r) ms)"

definition buildLensSubgraph :: "lens_input \<Rightarrow> lens_subgraph" where
  "buildLensSubgraph input = (let member = membersOf (li_nodes input);
       parentOf = fst (nesting member (li_containmentEdges input))
     in \<lparr>sg_focusUrn = li_focusUrn input,
         sg_nodes = addNodes (subNode input member) parentOf [] member,
         sg_roots = filter (\<lambda>u. map_of parentOf u = None) (map fst member),
         sg_lineageEdges = memberEdges member (li_lineageEdges input),
         sg_truncated = (li_truncated input = Some True),
         sg_truncationReason = li_truncationReason input,
         sg_seedTruncated = (li_seedTruncated input = Some True)\<rparr>)"

section \<open>Visible rows\<close>

text \<open>The children the subgraph lists for a node, and its parent table.\<close>

definition sgChildren :: "lens_subgraph \<Rightarrow> string \<Rightarrow> string list" where
  "sgChildren sg u = (case map_of (sg_nodes sg) u of None \<Rightarrow> [] | Some n \<Rightarrow> sn_children n)"

definition sgParents :: "lens_subgraph \<Rightarrow> parents" where
  "sgParents sg = List.map_filter (\<lambda>(u, n). map_option (Pair u) (sn_parent n)) (sg_nodes sg)"

text \<open>\<open>walk\<close>, depth first: the list holds the calls still to be made; \<open>out\<close> and \<open>seen\<close> hold the same nodes.\<close>

function walkRows :: "lens_subgraph \<Rightarrow> string list \<Rightarrow> string list \<Rightarrow> string list \<Rightarrow> string list" where
  "walkRows sg expanded [] out = out"
| "walkRows sg expanded (urn # rest) out =
     (if urn \<in> set out then walkRows sg expanded rest out
      else walkRows sg expanded ((if urn \<in> set expanded then sgChildren sg urn else []) @ rest) (out @ [urn]))"
  by pat_completeness auto

definition allChildren :: "lens_subgraph \<Rightarrow> string set" where
  "allChildren sg = (\<Union>(u, n) \<in> set (sg_nodes sg). set (sn_children n))"

lemma sgChildren_in: "set (sgChildren sg u) \<subseteq> allChildren sg"
proof (cases "map_of (sg_nodes sg) u")
  case (Some n)
  then show ?thesis using map_of_SomeD [OF Some] by (auto simp: sgChildren_def allChildren_def)
qed (simp add: sgChildren_def)

termination walkRows
proof (relation "measures [\<lambda>(sg, ex, todo, out). card ((set todo \<union> allChildren sg) - set out),
    \<lambda>(sg, ex, todo, out). length todo]", simp)
  fix sg :: lens_subgraph and expanded rest out :: "string list" and urn
  have fin: "finite (allChildren sg)" by (auto simp: allChildren_def)
  {
    assume "urn \<in> set out"
    then have "(set rest \<union> allChildren sg) - set out = (set (urn # rest) \<union> allChildren sg) - set out" by auto
    then show "((sg, expanded, rest, out), sg, expanded, urn # rest, out)
        \<in> measures [\<lambda>(sg, ex, todo, out). card ((set todo \<union> allChildren sg) - set out),
            \<lambda>(sg, ex, todo, out). length todo]"
      by simp
  next
    let ?kids = "if urn \<in> set expanded then sgChildren sg urn else []"
    assume new: "urn \<notin> set out"
    have "(set (?kids @ rest) \<union> allChildren sg) - set (out @ [urn]) \<subset> (set (urn # rest) \<union> allChildren sg) - set out"
      using new sgChildren_in [of sg urn] by auto
    then show "((sg, expanded, ?kids @ rest, out @ [urn]), sg, expanded, urn # rest, out)
        \<in> measures [\<lambda>(sg, ex, todo, out). card ((set todo \<union> allChildren sg) - set out),
            \<lambda>(sg, ex, todo, out). length todo]"
      using fin by (simp add: psubset_card_mono del: set_append set_simps)
  }
qed

definition visibleLensNodes :: "lens_subgraph \<Rightarrow> string list \<Rightarrow> string list" where
  "visibleLensNodes sg expanded = walkRows sg expanded (sg_roots sg) []"

text \<open>The focus's containers, itself left out.\<close>

definition focusAncestorChain :: "lens_subgraph \<Rightarrow> string list" where
  "focusAncestorChain sg = (case map_of (sgParents sg) (sg_focusUrn sg) of None \<Rightarrow> []
     | Some p \<Rightarrow> ancestorsOrSelf (sgParents sg) p)"


section \<open>The nesting\<close>

definition memberInv :: "(string \<times> lens_node) list \<Rightarrow> bool" where
  "memberInv m = (distinct (map fst m) \<and> (\<forall>u n. map_of m u = Some n \<longrightarrow> nl_urn n = u \<and> u \<noteq> []))"

lemma memberInv_add: "memberInv m \<Longrightarrow> nl_urn n \<noteq> [] \<Longrightarrow> memberInv (AList.update (nl_urn n) n m)"
  unfolding memberInv_def by (auto simp: update_conv' distinct_update simp del: map_of_eq_Some_iff split: if_splits)

lemma memberInv_members: "memberInv (membersOf ns)"
proof -
  have "memberInv (fold (\<lambda>n m. if nl_urn n \<noteq> [] then AList.update (nl_urn n) n m else m) ns m)" if "memberInv m" for m
    using that by (induction ns arbitrary: m) (simp_all add: memberInv_add)
  moreover have "memberInv []" by (simp add: memberInv_def)
  ultimately show ?thesis unfolding membersOf_def by blast
qed

text \<open>What holds of the parents and the children at every point of the pass over the containment edges.\<close>

definition nestInv :: "(string \<times> lens_node) list \<Rightarrow> parents \<times> (string \<times> string list) list \<Rightarrow> bool" where
  "nestInv member st =
    ((\<forall>c p. map_of (fst st) c = Some p \<longrightarrow> p \<noteq> [] \<and> c \<in> set (listAt (snd st) p)) \<and>
     (\<forall>p c. c \<in> set (listAt (snd st) p) \<longrightarrow> p \<noteq> c \<and> c \<noteq> [] \<and> map_of member p \<noteq> None \<and> map_of member c \<noteq> None
        \<and> map_of (fst st) c \<noteq> None) \<and>
     (\<forall>p. distinct (listAt (snd st) p)) \<and> distinct (map fst (fst st)))"

lemma nestInvD:
  assumes "nestInv member st"
  shows "map_of (fst st) c = Some p \<Longrightarrow> p \<noteq> []" "map_of (fst st) c = Some p \<Longrightarrow> c \<in> set (listAt (snd st) p)"
    "c \<in> set (listAt (snd st) p) \<Longrightarrow> p \<noteq> c \<and> c \<noteq> [] \<and> map_of member p \<noteq> None \<and> map_of member c \<noteq> None
       \<and> map_of (fst st) c \<noteq> None"
    "distinct (listAt (snd st) p)" "distinct (map fst (fst st))"
  using assms unfolding nestInv_def by blast+

lemma nestInv_edge:
  assumes inv: "nestInv member st"
  shows "nestInv member (nestEdge member ce st)"
proof -
  let ?p = "ct_sourceUrn ce" and ?c = "ct_targetUrn ce" and ?P = "fst st" and ?C = "snd st"
  show ?thesis
  proof (cases "?p = [] \<or> ?c = [] \<or> ?p = ?c \<or> map_of member ?p = None \<or> map_of member ?c = None")
    case True
    then show ?thesis using inv by (auto simp: nestEdge_def Let_def)
  next
    case False
    let ?P' = "if map_of ?P ?c = None then AList.update ?c ?p ?P else ?P"
    let ?C' = "AList.update ?p (if ?c \<in> set (listAt ?C ?p) then listAt ?C ?p else listAt ?C ?p @ [?c]) ?C"
    have "\<not> (?p = [] \<or> ?c = [] \<or> ?p = ?c)" "\<not> (map_of member ?p = None \<or> map_of member ?c = None)"
      using False by blast+
    then have st: "nestEdge member ce st = (?P', ?C')" by (simp only: nestEdge_def Let_def if_False)
    have P': "map_of ?P' x = (if x = ?c \<and> map_of ?P ?c = None then Some ?p else map_of ?P x)" for x
      by (simp add: update_conv')
    have C': "set (listAt ?C' x) = set (listAt ?C x) \<union> (if x = ?p then {?c} else {})" for x
      by (auto simp: listAt_update)
    have "distinct (listAt ?C' x)" for x using nestInvD(4) [OF inv] by (simp add: listAt_update)
    moreover have "p \<noteq> [] \<and> c \<in> set (listAt ?C' p)" if "map_of ?P' c = Some p" for c p
      using that False nestInvD(1,2) [OF inv, of c p] unfolding P' C' by (auto split: if_splits)
    moreover have "p \<noteq> c \<and> c \<noteq> [] \<and> map_of member p \<noteq> None \<and> map_of member c \<noteq> None \<and> map_of ?P' c \<noteq> None"
      if "c \<in> set (listAt ?C' p)" for c p
    proof (cases "c \<in> set (listAt ?C p)")
      case True
      then show ?thesis using nestInvD(3) [OF inv True] unfolding P' by auto
    next
      case new: False
      then show ?thesis using that False unfolding C' P' by (auto split: if_splits)
    qed
    moreover have "distinct (map fst ?P')" using nestInvD(5) [OF inv] by (simp add: distinct_update)
    ultimately show ?thesis unfolding st nestInv_def fst_conv snd_conv by blast
  qed
qed

lemma nestInv_nesting: "nestInv member (nesting member ces)"
proof -
  have "nestInv member st \<Longrightarrow> nestInv member (fold (nestEdge member) ces st)" for st
    by (induction ces arbitrary: st) (simp_all del: split_paired_All add: nestInv_edge)
  moreover have "nestInv member ([], [])" by (simp add: nestInv_def listAt_def)
  ultimately show ?thesis unfolding nesting_def by blast
qed

text \<open>The nodes of the subgraph are the members, with these parents and children.\<close>

lemma fst_addNodes [simp]: "map fst (addNodes f P cache ms) = map fst ms"
  by (induction ms arbitrary: cache) (simp_all add: Let_def)

lemma map_of_addNodes:
  "map_of (addNodes f P cache ms) u = Some n \<Longrightarrow> \<exists>d m. map_of ms u = Some m \<and> n = f u m d"
  by (induction ms arbitrary: cache) (auto simp: Let_def split: if_splits)

lemma built_node:
  assumes "map_of (sg_nodes (buildLensSubgraph input)) u = Some n"
  shows "\<exists>d m. map_of (membersOf (li_nodes input)) u = Some m \<and> n = subNode input (membersOf (li_nodes input)) u m d"
  using assms unfolding buildLensSubgraph_def Let_def by (auto intro: map_of_addNodes)

lemma built_keys: "map fst (sg_nodes (buildLensSubgraph input)) = map fst (membersOf (li_nodes input))"
  by (simp add: buildLensSubgraph_def Let_def)

lemma built_None: "map_of (sg_nodes (buildLensSubgraph input)) u = None \<longleftrightarrow> map_of (membersOf (li_nodes input)) u = None"
  using built_keys [of input] by (metis list.set_map map_of_eq_None_iff)

abbreviation nestingOf :: "lens_input \<Rightarrow> parents \<times> (string \<times> string list) list" where
  "nestingOf input \<equiv> nesting (membersOf (li_nodes input)) (li_containmentEdges input)"

lemma built_children: "sgChildren (buildLensSubgraph input) p = listAt (snd (nestingOf input)) p"
proof (cases "map_of (sg_nodes (buildLensSubgraph input)) p")
  case None
  then have "map_of (membersOf (li_nodes input)) p = None" by (simp add: built_None)
  then have "listAt (snd (nestingOf input)) p = []"
    using nestInvD(3) [OF nestInv_nesting, of _ "membersOf (li_nodes input)" "li_containmentEdges input" p]
    by (metis last_in_set)
  then show ?thesis using None by (simp add: sgChildren_def)
next
  case (Some n)
  then show ?thesis using built_node [OF Some] by (auto simp: sgChildren_def subNode_def Let_def)
qed

section \<open>Hops\<close>

text \<open>A node is reachable in exactly \<open>d\<close> steps along the edges, read forwards or backwards, from a set.\<close>

definition hopRel :: "bool \<Rightarrow> lens_edge list \<Rightarrow> (string \<times> string) set" where
  "hopRel forward es = (\<lambda>e. (stepFrom forward e, stepTo forward e)) ` set es"

definition hopDistance :: "(string \<times> string) set \<Rightarrow> string set \<Rightarrow> string \<Rightarrow> nat \<Rightarrow> bool" where
  "hopDistance E S v d = ((\<exists>s \<in> S. (s, v) \<in> E ^^ d) \<and> (\<forall>k < d. \<forall>s \<in> S. (s, v) \<notin> E ^^ k))"

lemma adjacency_fold:
  "set (listAt (fold (\<lambda>e m. AList.update (stepFrom b e) (listAt m (stepFrom b e) @ [stepTo b e]) m) es m) u) =
     set (listAt m u) \<union> {v. (u, v) \<in> hopRel b es}"
  by (induction es arbitrary: m) (auto simp: listAt_update hopRel_def)

lemma adjacency_rel: "set (listAt (adjacency b es) u) = {v. (u, v) \<in> hopRel b es}"
  by (simp add: adjacency_def adjacency_fold) (simp add: listAt_def)

text \<open>The invariant of the search: every hop count is that of a path; the queue is sorted by hops and spans at most
  two of them; the edges of the nodes that have left the queue are relaxed.\<close>

definition searchInv :: "(string \<times> string) set \<Rightarrow> string set \<Rightarrow> (string \<times> nat) list \<Rightarrow> string list \<Rightarrow> bool" where
  "searchInv E S hop q = ((\<forall>v d. map_of hop v = Some d \<longrightarrow> (\<exists>s \<in> S. (s, v) \<in> E ^^ d)) \<and>
     (\<forall>s \<in> S. map_of hop s = Some 0) \<and> set q \<subseteq> fst ` set hop \<and>
     sorted (map (\<lambda>u. the (map_of hop u)) q) \<and>
     (q \<noteq> [] \<longrightarrow> (\<forall>v d. map_of hop v = Some d \<longrightarrow> d \<le> the (map_of hop (hd q)) + 1)) \<and>
     (\<forall>u d v. map_of hop u = Some d \<and> u \<notin> set q \<and> (u, v) \<in> E \<longrightarrow> (\<exists>k \<le> d + 1. map_of hop v = Some k)))"

lemma searchInvD:
  assumes "searchInv E S hop q"
  shows "map_of hop v = Some d \<Longrightarrow> \<exists>s \<in> S. (s, v) \<in> E ^^ d"
    and "s \<in> S \<Longrightarrow> map_of hop s = Some 0"
    and "v \<in> set q \<Longrightarrow> \<exists>d. map_of hop v = Some d"
    and "sorted (map (\<lambda>u. the (map_of hop u)) q)"
    and "q \<noteq> [] \<Longrightarrow> map_of hop v = Some d \<Longrightarrow> d \<le> the (map_of hop (hd q)) + 1"
    and "map_of hop u = Some d \<Longrightarrow> u \<notin> set q \<Longrightarrow> (u, v) \<in> E \<Longrightarrow> \<exists>k \<le> d + 1. map_of hop v = Some k"
proof -
  show "\<exists>d. map_of hop v = Some d" if "v \<in> set q"
  proof -
    have "v \<in> fst ` set hop" using assms that unfolding searchInv_def by blast
    then show ?thesis by (metis map_of_eq_None_iff not_None_eq)
  qed
qed (use assms in \<open>unfold searchInv_def, blast+\<close>)

text \<open>What one round does to the counts and to the queue.\<close>

lemma round_hops:
  assumes inv: "searchInv E S hop (u # q)" and d: "map_of hop u = Some d"
    and r: "r = fold (discover d) vs (hop, q)"
  shows "map_of hop v = Some e \<Longrightarrow> map_of (fst r) v = Some e"
    and "map_of hop v = None \<Longrightarrow> map_of (fst r) v = (if v \<in> set vs then Some (d + 1) else None)"
    and "map_of (fst r) v = Some e \<Longrightarrow> e \<le> d + 1"
    and "v \<in> set q \<Longrightarrow> \<exists>e. map_of hop v = Some e \<and> d \<le> e \<and> e \<le> d + 1"
proof -
  show old: "map_of (fst r) v = Some e" if "map_of hop v = Some e" for v e using that r by (simp add: discovered_hop)
  show fresh: "map_of (fst r) v = (if v \<in> set vs then Some (d + 1) else None)" if "map_of hop v = None" for v
    using that r by (simp add: discovered_hop)
  have bound: "e \<le> d + 1" if "map_of hop v = Some e" for v e
    using searchInvD(5) [OF inv _ that] d by simp
  show "e \<le> d + 1" if "map_of (fst r) v = Some e"
    using that bound [of v e] fresh [of v] old [of v] by (cases "map_of hop v") (auto split: if_splits)
  show "\<exists>e. map_of hop v = Some e \<and> d \<le> e \<and> e \<le> d + 1" if "v \<in> set q"
  proof -
    have "v \<in> set (u # q)" using that by simp
    then obtain e where e: "map_of hop v = Some e" using searchInvD(3) [OF inv] by blast
    have "\<forall>x \<in> set q. d \<le> the (map_of hop x)" using searchInvD(4) [OF inv] d by simp
    then have "d \<le> e" using that e by fastforce
    then show ?thesis using e bound [OF e] by blast
  qed
qed

lemma searchInv_step:
  assumes inv: "searchInv E S hop (u # q)" and vs: "set vs = {v. (u, v) \<in> E}"
    and d: "map_of hop u = Some d" and r: "r = fold (discover d) vs (hop, q)"
  shows "searchInv E S (fst r) (snd r)"
proof -
  obtain new where new: "snd r = q @ new" "set new = set vs - fst ` set hop"
    using discovered_queue [of d vs hop q] r by auto
  note old = round_hops(1) [OF inv d r] and fresh = round_hops(2) [OF inv d r]
    and bound = round_hops(3) [OF inv d r] and qold = round_hops(4) [OF inv d r]
  have newhop: "map_of (fst r) v = Some (d + 1)" if "v \<in> set new" for v
  proof -
    have "map_of hop v = None" "v \<in> set vs" using that new(2) by (simp_all add: map_of_eq_None_iff)
    then show ?thesis using fresh by simp
  qed
  have qhop: "map_of (fst r) v = map_of hop v" if "v \<in> set q" for v using qold [OF that] old by auto
  have path: "\<exists>s \<in> S. (s, v) \<in> E ^^ e" if "map_of (fst r) v = Some e" for v e
  proof (cases "map_of hop v")
    case None
    then have "(u, v) \<in> E" "e = Suc d" using that fresh [of v] vs by (auto split: if_splits)
    moreover obtain s where "s \<in> S" "(s, u) \<in> E ^^ d" using searchInvD(1) [OF inv d] by blast
    ultimately show ?thesis by (metis relpow_Suc_I)
  next
    case (Some e')
    then show ?thesis using that old [OF Some] searchInvD(1) [OF inv Some] by simp
  qed
  have low: "\<exists>e. map_of (fst r) v = Some e \<and> d \<le> e" if "v \<in> set (snd r)" for v
  proof (cases "v \<in> set q")
    case True
    then show ?thesis using qold [OF True] qhop by auto
  next
    case False
    then show ?thesis using that new(1) newhop by simp
  qed
  have "sorted (map (\<lambda>x. the (map_of (fst r) x)) q)"
    using searchInvD(4) [OF inv] qhop by (simp cong: map_cong)
  moreover have "the (map_of (fst r) x) \<le> the (map_of (fst r) y)" if "x \<in> set q" "y \<in> set new" for x y
    using qold [OF that(1)] qhop [OF that(1)] newhop [OF that(2)] by auto
  moreover have "sorted (map (\<lambda>x. the (map_of (fst r) x)) new)"
    using newhop by (simp add: sorted_wrt_iff_nth_less)
  ultimately have sorted: "sorted (map (\<lambda>x. the (map_of (fst r) x)) (snd r))"
    using new(1) by (simp add: sorted_append)
  have span: "e \<le> the (map_of (fst r) (hd (snd r))) + 1" if "snd r \<noteq> []" "map_of (fst r) v = Some e" for v e
    using low [of "hd (snd r)"] bound [OF that(2)] that(1) by auto
  have relaxed: "\<exists>k \<le> e + 1. map_of (fst r) v = Some k"
    if step: "map_of (fst r) w = Some e" "w \<notin> set (snd r)" "(w, v) \<in> E" for w e v
  proof (cases "w = u")
    case True
    then have "v \<in> set vs" using step vs by simp
    then obtain k where k: "map_of (fst r) v = Some k" using fresh [of v] old [of v] by (cases "map_of hop v") auto
    moreover have "e = d" using step True old [OF d] by simp
    ultimately show ?thesis using bound [OF k] by blast
  next
    case False
    have out: "w \<notin> set new" "w \<notin> set (u # q)" using step new(1) False by auto
    then have w: "map_of hop w = Some e"
      using step fresh [of w] old [of w] new(2) by (cases "map_of hop w") (auto simp: map_of_eq_None_iff split: if_splits)
    obtain k where k: "k \<le> e + 1" "map_of hop v = Some k" using searchInvD(6) [OF inv w out(2) step(3)] by blast
    then show ?thesis using old [OF k(2)] by blast
  qed
  have zero: "\<forall>s \<in> S. map_of (fst r) s = Some 0" using searchInvD(2) [OF inv] old by blast
  have "set (snd r) \<subseteq> fst ` set (fst r)"
  proof
    fix v assume "v \<in> set (snd r)"
    then have "map_of (fst r) v \<noteq> None" using low by fastforce
    then show "v \<in> fst ` set (fst r)" by (simp add: map_of_eq_None_iff)
  qed
  then show ?thesis unfolding searchInv_def using path zero sorted span relaxed by blast
qed

lemma bfsLoop_inv:
  "(\<And>u. set (listAt adj u) = {v. (u, v) \<in> E}) \<Longrightarrow> searchInv E S hop q \<Longrightarrow> searchInv E S (bfsLoop adj hop q) []"
proof (induction adj hop q rule: bfsLoop.induct)
  case (2 adj hop u q)
  obtain d where d: "map_of hop u = Some d" using searchInvD(3) [OF "2.prems"(2), of u] by auto
  let ?r = "fold (discover d) (listAt adj u) (hop, q)"
  have "searchInv E S (fst ?r) (snd ?r)" by (rule searchInv_step [OF "2.prems"(2) "2.prems"(1) d refl])
  then show ?case using "2.IH" [of ?r] "2.prems"(1) d by (simp add: Let_def)
qed simp

lemma search_done:
  assumes "searchInv E S hop []"
  shows "map_of hop v = Some d \<longleftrightarrow> hopDistance E S v d"
proof -
  have near: "\<exists>k \<le> n. map_of hop w = Some k" if "s \<in> S" "(s, w) \<in> E ^^ n" for s w n
    using that(2)
  proof (induction n arbitrary: w)
    case 0
    then show ?case using searchInvD(2) [OF assms that(1)] by simp
  next
    case (Suc n)
    then obtain u where u: "(s, u) \<in> E ^^ n" "(u, w) \<in> E" by auto
    then obtain k where k: "k \<le> n" "map_of hop u = Some k" using Suc.IH by blast
    then obtain j where "j \<le> k + 1" "map_of hop w = Some j" using searchInvD(6) [OF assms, of u k w] u by auto
    then show ?case using k by (intro exI [of _ j]) simp
  qed
  show ?thesis
  proof
    assume v: "map_of hop v = Some d"
    have "(s, v) \<notin> E ^^ k" if "k < d" "s \<in> S" for s k
      using near [of s v k] that v by auto
    then show "hopDistance E S v d" using searchInvD(1) [OF assms v] unfolding hopDistance_def by blast
  next
    assume d: "hopDistance E S v d"
    then obtain s where s: "s \<in> S" "(s, v) \<in> E ^^ d" by (auto simp: hopDistance_def)
    obtain k where k: "k \<le> d" "map_of hop v = Some k" using near [OF s] by blast
    obtain s' where "s' \<in> S" "(s', v) \<in> E ^^ k" using searchInvD(1) [OF assms k(2)] by blast
    then have "\<not> k < d" using d unfolding hopDistance_def by blast
    then show "map_of hop v = Some d" using k by simp
  qed
qed

lemma seeded: "map_of (fold (\<lambda>s m. AList.update s (0::nat) m) ss m) v = (if v \<in> set ss then Some 0 else map_of m v)"
  by (induction ss arbitrary: m) (auto simp: update_conv')

lemma bfsHops_distance:
  "map_of (bfsHops es seed forward) v = Some d \<longleftrightarrow> hopDistance (hopRel forward es) (set seed) v d"
proof -
  let ?hop = "fold (\<lambda>s m. AList.update s (0::nat) m) seed []"
  have hop: "map_of ?hop v = (if v \<in> set seed then Some 0 else None)" for v by (simp add: seeded)
  then have dom: "fst ` set ?hop = set seed" by (metis (no_types, lifting) map_of_eq_None_iff option.distinct(1) subsetI subset_antisym)
  have "sorted (map (\<lambda>u. the (map_of ?hop u)) seed)" using hop by (simp add: sorted_wrt_iff_nth_less)
  moreover have "the (map_of ?hop (hd seed)) = 0" if "seed \<noteq> []" using hop that by simp
  ultimately have "searchInv (hopRel forward es) (set seed) ?hop seed"
    using hop dom unfolding searchInv_def by (auto split: if_splits)
  then have "searchInv (hopRel forward es) (set seed) (bfsHops es seed forward) []"
    unfolding bfsHops_def by (intro bfsLoop_inv adjacency_rel)
  then show ?thesis by (rule search_done)
qed

section \<open>Depth\<close>

definition depthsRight :: "parents \<Rightarrow> (string \<times> nat) list \<Rightarrow> bool" where
  "depthsRight P cache = (\<forall>u d. map_of cache u = Some d \<longrightarrow> Suc d = length (ancestorsOrSelf P u))"

lemma lensDepth_chain:
  "containmentAcyclic P \<Longrightarrow> (\<forall>c p. map_of P c = Some p \<longrightarrow> p \<noteq> []) \<Longrightarrow> u \<noteq> [] \<Longrightarrow> depthsRight P cache \<Longrightarrow>
   \<forall>g \<in> set guard. length (ancestorsOrSelf P u) < length (ancestorsOrSelf P g) \<Longrightarrow>
   Suc (fst (lensDepth P u guard cache)) = length (ancestorsOrSelf P u) \<and> depthsRight P (snd (lensDepth P u guard cache))"
proof (induction P u guard cache rule: lensDepth.induct)
  case (1 P u guard cache)
  have new: "u \<notin> set guard" using "1.prems"(5) by blast
  show ?case
  proof (cases "map_of cache u")
    case (Some d)
    then show ?thesis using "1.prems"(4) by (simp add: lensDepth.simps [of P u] depthsRight_def)
  next
    case None
    show ?thesis
    proof (cases "map_of P u")
      case root: None
      then have "ancestorsOrSelf P u = [u]" using "1.prems"(3) by (rule ancestors_root)
      then show ?thesis using None new root "1.prems"(4)
        by (auto simp: lensDepth.simps [of P u] depthsRight_def update_conv')
    next
      case (Some p)
      have chain: "ancestorsOrSelf P u = u # ancestorsOrSelf P p"
        by (rule forest_step [OF "1.prems"(1) Some "1.prems"(3)])
      have "p \<noteq> []" using "1.prems"(2) Some by blast
      moreover have "\<forall>g \<in> set (u # guard). length (ancestorsOrSelf P p) < length (ancestorsOrSelf P g)"
        using "1.prems"(5) chain by fastforce
      ultimately have "Suc (fst (lensDepth P p (u # guard) cache)) = length (ancestorsOrSelf P p)
          \<and> depthsRight P (snd (lensDepth P p (u # guard) cache))"
        by (rule "1.IH" [OF None new Some "1.prems"(1,2) _ "1.prems"(4)])
      then show ?thesis using None new Some chain
        by (simp add: lensDepth.simps [of P u] Let_def) (simp add: depthsRight_def update_conv')
    qed
  qed
qed

lemma addNodes_depth:
  assumes "containmentAcyclic P" "\<forall>c p. map_of P c = Some p \<longrightarrow> p \<noteq> []"
  shows "depthsRight P cache \<Longrightarrow> \<forall>u \<in> fst ` set ms. u \<noteq> [] \<Longrightarrow>
    map_of (addNodes f P cache ms) u = Some n \<Longrightarrow>
    \<exists>d m. map_of ms u = Some m \<and> n = f u m d \<and> Suc d = length (ancestorsOrSelf P u)"
proof (induction ms arbitrary: cache)
  case (Cons m ms)
  have "fst m \<noteq> []" using Cons.prems(2) by simp
  then have d: "Suc (fst (lensDepth P (fst m) [] cache)) = length (ancestorsOrSelf P (fst m))
      \<and> depthsRight P (snd (lensDepth P (fst m) [] cache))"
    by (rule lensDepth_chain [OF assms _ Cons.prems(1)]) simp
  then show ?case using Cons by (cases m) (auto simp: Let_def split: if_splits)
qed simp

section \<open>The focus side\<close>

definition nestRel :: "lens_subgraph \<Rightarrow> (string \<times> string) set" where
  "nestRel sg = {(p, c). c \<in> set (sgChildren sg p)}"

lemma insideOf_Nil [simp]: "insideOf m seen [] = seen"
  by (simp add: insideOf.simps)

lemma insideOf_closed:
  "\<forall>x \<in> set seen. set (listAt m x) \<subseteq> set seen \<union> set stack \<Longrightarrow>
   set seen \<union> set stack \<subseteq> set (insideOf m seen stack) \<and>
   (\<forall>x \<in> set (insideOf m seen stack). set (listAt m x) \<subseteq> set (insideOf m seen stack))"
proof (induction m seen stack rule: insideOf.induct)
  case (1 m seen stack)
  show ?case
  proof (cases "stack = []")
    case True
    then show ?thesis using "1.prems" by simp
  next
    case False
    note s = set_last_butlast [OF False]
    show ?thesis
    proof (cases "last stack \<in> set seen")
      case True
      have eq: "set seen \<union> set stack = set seen \<union> set (butlast stack)" using s True by auto
      have "\<forall>x \<in> set seen. set (listAt m x) \<subseteq> set seen \<union> set (butlast stack)" using "1.prems" unfolding eq .
      then have "set seen \<union> set (butlast stack) \<subseteq> set (insideOf m seen (butlast stack)) \<and>
          (\<forall>x \<in> set (insideOf m seen (butlast stack)). set (listAt m x) \<subseteq> set (insideOf m seen (butlast stack)))"
        by (rule "1.IH"(1) [OF False refl refl True])
      then show ?thesis using False True unfolding eq by (simp add: insideOf.simps [of m seen stack] Let_def)
    next
      case new: False
      let ?seen = "seen @ [last stack]" and ?stack = "butlast stack @ listAt m (last stack)"
      have "\<forall>x \<in> set ?seen. set (listAt m x) \<subseteq> set ?seen \<union> set ?stack" using "1.prems" s by auto
      then have "set ?seen \<union> set ?stack \<subseteq> set (insideOf m ?seen ?stack) \<and>
          (\<forall>x \<in> set (insideOf m ?seen ?stack). set (listAt m x) \<subseteq> set (insideOf m ?seen ?stack))"
        by (rule "1.IH"(2) [OF False refl refl new])
      then show ?thesis using False new s by (simp add: insideOf.simps [of m seen stack] Let_def)
    qed
  qed
qed

lemma insideOf_reach:
  "x \<in> set (insideOf m seen stack) \<Longrightarrow>
   \<exists>y \<in> set seen \<union> set stack. (y, x) \<in> {(p, c). c \<in> set (listAt m p)}\<^sup>*"
proof (induction m seen stack rule: insideOf.induct)
  case (1 m seen stack)
  show ?case
  proof (cases "stack = []")
    case True
    then show ?thesis using "1.prems" by auto
  next
    case False
    note s = set_last_butlast [OF False]
    show ?thesis
    proof (cases "last stack \<in> set seen")
      case True
      then show ?thesis using "1.IH"(1) [OF False refl refl True] "1.prems" False s
        by (auto simp: insideOf.simps [of m seen stack])
    next
      case new: False
      let ?seen = "seen @ [last stack]" and ?stack = "butlast stack @ listAt m (last stack)"
      have "x \<in> set (insideOf m ?seen ?stack)" using "1.prems" False new by (simp add: insideOf.simps [of m seen stack] Let_def)
      then obtain y where y: "y \<in> set ?seen \<union> set ?stack" "(y, x) \<in> {(p, c). c \<in> set (listAt m p)}\<^sup>*"
        using "1.IH"(2) [OF False refl refl new] by blast
      show ?thesis
      proof (cases "y \<in> set (listAt m (last stack))")
        case True
        then have "(last stack, x) \<in> {(p, c). c \<in> set (listAt m p)}\<^sup>*"
          using y(2) by (intro converse_rtrancl_into_rtrancl [of "last stack" y]) auto
        then show ?thesis using s by blast
      next
        case False
        then show ?thesis using y s by auto
      qed
    qed
  qed
qed

lemma focusSide_inside:
  assumes "\<And>p. listAt m p \<noteq> [] \<Longrightarrow> map_of member p \<noteq> None"
  shows "set (focusSide member m fs) =
    {x. \<exists>f \<in> set fs. map_of member f \<noteq> None \<and> (f, x) \<in> {(p, c). c \<in> set (listAt m p)}\<^sup>*}"
proof -
  let ?R = "{(p, c). c \<in> set (listAt m p)}" and ?seen = "filter (\<lambda>f. map_of member f \<noteq> None) fs"
  let ?stack = "concat (map (listAt m) fs)" and ?side = "set (focusSide member m fs)"
  have kids: "\<exists>f \<in> set fs. map_of member f \<noteq> None \<and> (f, y) \<in> ?R\<^sup>*" if "y \<in> set ?seen \<union> set ?stack" for y
  proof (cases "y \<in> set ?seen")
    case False
    then have "y \<in> set ?stack" using that by blast
    then obtain f where f: "f \<in> set fs" "y \<in> set (listAt m f)" by auto
    then have "listAt m f \<noteq> []" by auto
    then have "map_of member f \<noteq> None" by (rule assms)
    then show ?thesis using f by blast
  qed auto
  have closed: "set ?seen \<union> set ?stack \<subseteq> ?side \<and> (\<forall>x \<in> ?side. set (listAt m x) \<subseteq> ?side)"
    unfolding focusSide_def by (rule insideOf_closed) auto
  have "x \<in> ?side" if "(f, x) \<in> ?R\<^sup>*" "f \<in> ?side" for f x
    using that by (induction rule: rtrancl_induct) (use closed in auto)
  moreover have "f \<in> ?side" if "f \<in> set fs" "map_of member f \<noteq> None" for f using closed that by auto
  ultimately have "\<exists>f \<in> set fs. map_of member f \<noteq> None \<and> (f, x) \<in> ?R\<^sup>* \<Longrightarrow> x \<in> ?side" for x by blast
  moreover have "\<exists>f \<in> set fs. map_of member f \<noteq> None \<and> (f, x) \<in> ?R\<^sup>*" if x: "x \<in> ?side" for x
  proof -
    obtain y where "y \<in> set ?seen \<union> set ?stack" "(y, x) \<in> ?R\<^sup>*"
      using insideOf_reach x unfolding focusSide_def by blast
    then show ?thesis using kids rtrancl_trans by (metis (no_types, lifting))
  qed
  ultimately show ?thesis by blast
qed

definition focusesOf :: "lens_input \<Rightarrow> string set" where
  "focusesOf input = set (case li_focusUrns input of None \<Rightarrow> [li_focusUrn input] | Some us \<Rightarrow> us)"

definition sideOf :: "lens_input \<Rightarrow> lens_subgraph \<Rightarrow> string set" where
  "sideOf input sg = {x. \<exists>f \<in> focusesOf input. map_of (sg_nodes sg) f \<noteq> None \<and> (f, x) \<in> (nestRel sg)\<^sup>*}"

lemma built_side:
  "set (focusSide (membersOf (li_nodes input)) (snd (nestingOf input))
     (uniq (case li_focusUrns input of None \<Rightarrow> [li_focusUrn input] | Some us \<Rightarrow> us)))
   = sideOf input (buildLensSubgraph input)"
proof -
  have "map_of (membersOf (li_nodes input)) p \<noteq> None" if "listAt (snd (nestingOf input)) p \<noteq> []" for p
    using nestInvD(3) [OF nestInv_nesting] last_in_set [OF that] by blast
  then show ?thesis
    by (subst focusSide_inside) (auto simp: sideOf_def focusesOf_def nestRel_def built_children built_None)
qed

section \<open>The nested, hop-annotated structure\<close>

lemma built_parent:
  "map_of (sg_nodes (buildLensSubgraph input)) u = Some n \<Longrightarrow> sn_parent n = map_of (fst (nestingOf input)) u"
  using built_node [of input u n] by (auto simp: subNode_def Let_def)

lemma sgParents_map:
  assumes "distinct (map fst (sg_nodes sg))"
  shows "map_of (sgParents sg) u = Option.bind (map_of (sg_nodes sg) u) sn_parent"
proof -
  have "distinct (map fst ns) \<Longrightarrow>
      map_of (List.map_filter (\<lambda>(u, n). map_option (Pair u) (sn_parent n)) ns) u = Option.bind (map_of ns u) sn_parent" for ns
  proof (induction ns)
    case (Cons x ns)
    have "set (List.map_filter (\<lambda>(u, n). map_option (Pair u) (sn_parent n)) ns) \<subseteq> {(u, p). u \<in> fst ` set ns}"
      by (force simp: List.map_filter_def)
    then have "map_of (List.map_filter (\<lambda>(u, n). map_option (Pair u) (sn_parent n)) ns) (fst x) = None"
      using Cons.prems by (auto simp: map_of_eq_None_iff)
    then show ?case using Cons by (cases x; cases "sn_parent (snd x)") (auto simp: map_filter_simps)
  qed (simp add: map_filter_simps)
  then show ?thesis using assms by (simp add: sgParents_def)
qed

lemma built_distinct: "distinct (map fst (sg_nodes (buildLensSubgraph input)))"
  using memberInv_members built_keys by (simp add: memberInv_def)

lemma built_parents: "map_of (sgParents (buildLensSubgraph input)) u = map_of (fst (nestingOf input)) u"
proof (cases "map_of (sg_nodes (buildLensSubgraph input)) u")
  case None
  then have "map_of (membersOf (li_nodes input)) u = None" by (simp add: built_None)
  then have "map_of (fst (nestingOf input)) u = None"
    using nestInvD(2,3) [OF nestInv_nesting] by (metis not_None_eq)
  then show ?thesis using None by (simp add: sgParents_map built_distinct)
next
  case (Some n)
  then show ?thesis by (simp add: sgParents_map built_distinct built_parent)
qed

text \<open>A small walk: a database with two tables, the first with a column; a report in another system; one hop from the
  column to the second table, one from there to the report.\<close>

definition walkExample :: lens_input where
  "walkExample = (let node = \<lambda>u. \<lparr>nl_urn = u, nl_displayName = None, nl_entityType = None\<rparr>;
       edge = \<lambda>s t. \<lparr>le_id = None, le_sourceUrn = s, le_targetUrn = t, le_edgeType = Some ''flows'', le_kind = Some RawHop,
         le_weight = None\<rparr>;
       inside = \<lambda>p c. \<lparr>ct_sourceUrn = p, ct_targetUrn = c\<rparr>
     in \<lparr>li_focusUrn = ''t1'', li_focusUrns = None, li_nodes = map node [''db'', ''t1'', ''t2'', ''c'', ''bi'', ''r''],
         li_lineageEdges = [edge ''c'' ''t2'', edge ''t2'' ''r'', edge ''r'' ''gone''],
         li_containmentEdges = [inside ''db'' ''t1'', inside ''db'' ''t2'', inside ''t1'' ''c'', inside ''bi'' ''r'', inside ''t2'' ''c''],
         li_upstreamUrns = None, li_downstreamUrns = Some [''r''], li_frontierUp = None, li_frontierDown = None,
         li_truncated = None, li_truncationReason = None, li_seedTruncated = None\<rparr>)"

text \<open>
  The lens subgraph is well formed whatever the accumulated walk holds: a node is stored under its own, non-empty
  URN; a parent is a node of the model and lists the node among its children; children are nodes of the model, each
  listed once and none its own; the roots are the nodes with no parent; the lineage edges join nodes of the model.
\<close>

lemma subgraph_is_scoped:
  fixes input
  defines "sg \<equiv> buildLensSubgraph input"
  shows "distinct (map fst (sg_nodes sg)) \<and>
    (\<forall>u n. map_of (sg_nodes sg) u = Some n \<longrightarrow> sn_urn n = u \<and> nl_urn (sn_node n) = u \<and> u \<noteq> []) \<and>
    (\<forall>u p. map_of (sgParents sg) u = Some p \<longrightarrow> map_of (sg_nodes sg) p \<noteq> None \<and> u \<in> set (sgChildren sg p)) \<and>
    (\<forall>u. distinct (sgChildren sg u) \<and> u \<notin> set (sgChildren sg u) \<and>
       (\<forall>c \<in> set (sgChildren sg u). map_of (sg_nodes sg) c \<noteq> None \<and> map_of (sgParents sg) c \<noteq> None)) \<and>
    (\<forall>u. u \<in> set (sg_roots sg) \<longleftrightarrow> map_of (sg_nodes sg) u \<noteq> None \<and> map_of (sgParents sg) u = None) \<and>
    (\<forall>e \<in> set (sg_lineageEdges sg).
       map_of (sg_nodes sg) (le_sourceUrn e) \<noteq> None \<and> map_of (sg_nodes sg) (le_targetUrn e) \<noteq> None)"
proof -
  note inv = nestInv_nesting [of "membersOf (li_nodes input)" "li_containmentEdges input"]
  have "sn_urn n = u \<and> nl_urn (sn_node n) = u \<and> u \<noteq> []" if n: "map_of (sg_nodes sg) u = Some n" for u n
  proof -
    obtain d m where m: "map_of (membersOf (li_nodes input)) u = Some m"
        "n = subNode input (membersOf (li_nodes input)) u m d"
      using built_node n unfolding sg_def by blast
    have "nl_urn m = u \<and> u \<noteq> []" using memberInv_members m(1) unfolding memberInv_def by blast
    then show ?thesis using m(2) by (simp add: subNode_def Let_def)
  qed
  moreover have "map_of (sg_nodes sg) p \<noteq> None \<and> u \<in> set (sgChildren sg p)"
    if p: "map_of (sgParents sg) u = Some p" for u p
  proof -
    have u: "u \<in> set (listAt (snd (nestingOf input)) p)"
      using p nestInvD(2) [OF inv] by (simp add: sg_def built_parents)
    then show ?thesis using nestInvD(3) [OF inv u] by (simp add: sg_def built_children built_None)
  qed
  moreover have "distinct (sgChildren sg u) \<and> u \<notin> set (sgChildren sg u)" for u
    using nestInvD(3,4) [OF inv] by (auto simp: sg_def built_children)
  moreover have "map_of (sg_nodes sg) c \<noteq> None \<and> map_of (sgParents sg) c \<noteq> None" if "c \<in> set (sgChildren sg u)" for u c
    using nestInvD(3) [OF inv] that by (simp add: sg_def built_children built_None built_parents)
  moreover have "u \<in> set (sg_roots sg) \<longleftrightarrow> map_of (sg_nodes sg) u \<noteq> None \<and> map_of (sgParents sg) u = None" for u
  proof -
    have "u \<in> set (sg_roots sg) \<longleftrightarrow> u \<in> fst ` set (membersOf (li_nodes input)) \<and> map_of (fst (nestingOf input)) u = None"
      by (auto simp: sg_def buildLensSubgraph_def Let_def)
    moreover have "u \<in> fst ` set (membersOf (li_nodes input)) \<longleftrightarrow> map_of (sg_nodes (buildLensSubgraph input)) u \<noteq> None"
      using built_keys [of input] by (metis list.set_map map_of_eq_None_iff)
    ultimately show ?thesis by (simp only: sg_def built_parents)
  qed
  moreover have "map_of (sg_nodes sg) (le_sourceUrn e) \<noteq> None \<and> map_of (sg_nodes sg) (le_targetUrn e) \<noteq> None"
    if "e \<in> set (sg_lineageEdges sg)" for e
  proof -
    have "e \<in> set (memberEdges (membersOf (li_nodes input)) (li_lineageEdges input))"
      using that by (simp add: sg_def buildLensSubgraph_def Let_def)
    then show ?thesis by (simp add: sg_def built_None memberEdges_def)
  qed
  ultimately show ?thesis using built_distinct unfolding sg_def by blast
qed

text \<open>
  C8. The hops of a node are exact: it is at hop d downstream when d is the least number of lineage edges, followed
  forwards, that lead to it from the focus side, and has no hop when no such path exists; the same upstream with the
  edges reversed. The focus side is every focus of the model with all that is nested inside it.
\<close>

theorem hops_are_shortest_distances:
  fixes input
  defines "sg \<equiv> buildLensSubgraph input"
  assumes "map_of (sg_nodes sg) u = Some n"
  shows "(sn_hopDown n = Some d \<longleftrightarrow> hopDistance (hopRel True (sg_lineageEdges sg)) (sideOf input sg) u d) \<and>
    (sn_hopUp n = Some d \<longleftrightarrow> hopDistance (hopRel False (sg_lineageEdges sg)) (sideOf input sg) u d)"
proof -
  have es: "sg_lineageEdges sg = memberEdges (membersOf (li_nodes input)) (li_lineageEdges input)"
    by (simp add: sg_def buildLensSubgraph_def Let_def)
  obtain e m where "n = subNode input (membersOf (li_nodes input)) u m e"
    using built_node assms(2) unfolding sg_def by blast
  then show ?thesis
    unfolding es unfolding sg_def built_side [symmetric] by (simp add: subNode_def Let_def bfsHops_distance)
qed

theorem hops_are_shortest_distances_witness:
  "\<exists>n. map_of (sg_nodes (buildLensSubgraph walkExample)) ''r'' = Some n \<and> sn_hopDown n = Some 2 \<and>
     hopDistance (hopRel True (sg_lineageEdges (buildLensSubgraph walkExample)))
       (sideOf walkExample (buildLensSubgraph walkExample)) ''r'' 2"
proof -
  have hop: "map_option sn_hopDown (map_of (sg_nodes (buildLensSubgraph walkExample)) ''r'') = Some (Some 2)" by code_simp
  then obtain n where n: "map_of (sg_nodes (buildLensSubgraph walkExample)) ''r'' = Some n" by auto
  then have "sn_hopDown n = Some 2" using hop by simp
  then show ?thesis using hops_are_shortest_distances [OF n, of 2] n by blast
qed

text \<open>Where the containment of the model has no cycle, the depth of a node is the number of its containers.\<close>

lemma depth_is_containment_depth:
  assumes "containmentAcyclic (fst (nestingOf input))" "map_of (sg_nodes (buildLensSubgraph input)) u = Some n"
  shows "Suc (sn_depth n) = length (ancestorsOrSelf (fst (nestingOf input)) u)"
proof -
  have mem: "\<forall>u \<in> fst ` set (membersOf (li_nodes input)). u \<noteq> []"
    using memberInv_members [of "li_nodes input"] unfolding memberInv_def
    by (metis map_of_eq_None_iff not_None_eq)
  have par: "\<forall>c p. map_of (fst (nestingOf input)) c = Some p \<longrightarrow> p \<noteq> []"
    using nestInvD(1) [OF nestInv_nesting] by blast
  have node: "map_of (addNodes (subNode input (membersOf (li_nodes input))) (fst (nestingOf input)) [] (membersOf (li_nodes input))) u = Some n"
    using assms(2) by (simp add: buildLensSubgraph_def Let_def)
  have "depthsRight (fst (nestingOf input)) []" by (simp add: depthsRight_def)
  then obtain d m where "n = subNode input (membersOf (li_nodes input)) u m d"
      "Suc d = length (ancestorsOrSelf (fst (nestingOf input)) u)"
    using addNodes_depth [OF assms(1) par _ mem node] by blast
  then show ?thesis by (simp add: subNode_def Let_def)
qed

section \<open>Rows\<close>

definition shownRel :: "lens_subgraph \<Rightarrow> string list \<Rightarrow> (string \<times> string) set" where
  "shownRel sg expanded = {(p, c). p \<in> set expanded \<and> c \<in> set (sgChildren sg p)}"

lemma walkRows_distinct: "distinct out \<Longrightarrow> distinct (walkRows sg ex todo out)"
  by (induction sg ex todo out rule: walkRows.induct) auto

lemma walkRows_closed:
  "shownRel sg ex `` set out \<subseteq> set out \<union> set todo \<Longrightarrow>
   set out \<union> set todo \<subseteq> set (walkRows sg ex todo out) \<and>
   shownRel sg ex `` set (walkRows sg ex todo out) \<subseteq> set (walkRows sg ex todo out)"
proof (induction sg ex todo out rule: walkRows.induct)
  case (2 sg ex u rest out)
  show ?case
  proof (cases "u \<in> set out")
    case True
    then have "set out \<union> set (u # rest) = set out \<union> set rest" by auto
    then show ?thesis using "2.IH"(1) [OF True] "2.prems" True by simp
  next
    case False
    let ?kids = "if u \<in> set ex then sgChildren sg u else []"
    have "shownRel sg ex `` set (out @ [u]) \<subseteq> set (out @ [u]) \<union> set (?kids @ rest)"
      using "2.prems" by (auto simp: shownRel_def)
    note "2.IH"(2) [OF False this]
    then show ?thesis using False by auto
  qed
qed simp

lemma walkRows_reach:
  "x \<in> set (walkRows sg ex todo out) \<Longrightarrow> \<exists>y \<in> set out \<union> set todo. (y, x) \<in> (shownRel sg ex)\<^sup>*"
proof (induction sg ex todo out rule: walkRows.induct)
  case (2 sg ex u rest out)
  show ?case
  proof (cases "u \<in> set out")
    case True
    then show ?thesis using "2.IH"(1) [OF True] "2.prems" by auto
  next
    case False
    let ?kids = "if u \<in> set ex then sgChildren sg u else []"
    have "x \<in> set (walkRows sg ex (?kids @ rest) (out @ [u]))" using "2.prems" False by simp
    then obtain y where y: "y \<in> set (out @ [u]) \<union> set (?kids @ rest)" "(y, x) \<in> (shownRel sg ex)\<^sup>*"
      using "2.IH"(2) [OF False] by blast
    show ?thesis
    proof (cases "y \<in> set ?kids")
      case True
      then have "(u, y) \<in> shownRel sg ex" by (auto simp: shownRel_def split: if_splits)
      then show ?thesis using y(2) by (meson UnI2 converse_rtrancl_into_rtrancl list.set_intros(1))
    next
      case False
      then have "y \<in> set out \<union> set (u # rest)" using y(1) by (simp del: if_split) blast
      then show ?thesis using y(2) by blast
    qed
  qed
qed auto

text \<open>
  The visible rows are exactly the roots and, under each expanded row, its scoped children: no row twice, and no
  row that is not a node of the model, whatever URNs are marked as expanded. Expanding more hides nothing.
\<close>

lemma rows_are_the_open_tree:
  fixes input
  defines "sg \<equiv> buildLensSubgraph input"
  shows "distinct (visibleLensNodes sg ex) \<and>
    set (visibleLensNodes sg ex) = (shownRel sg ex)\<^sup>* `` set (sg_roots sg) \<and>
    (\<forall>u \<in> set (visibleLensNodes sg ex). map_of (sg_nodes sg) u \<noteq> None) \<and>
    set (visibleLensNodes sg ex) \<subseteq> set (visibleLensNodes sg (ex @ extra))"
proof -
  have rows: "set (visibleLensNodes sg ex) = (shownRel sg ex)\<^sup>* `` set (sg_roots sg)" for ex
  proof -
    have c: "set (sg_roots sg) \<subseteq> set (visibleLensNodes sg ex)"
        "shownRel sg ex `` set (visibleLensNodes sg ex) \<subseteq> set (visibleLensNodes sg ex)"
      using walkRows_closed [of sg ex "[]" "sg_roots sg"] by (simp_all add: visibleLensNodes_def)
    have "x \<in> set (visibleLensNodes sg ex)" if "(r, x) \<in> (shownRel sg ex)\<^sup>*" "r \<in> set (sg_roots sg)" for r x
      using that by (induction rule: rtrancl_induct) (use c in blast)+
    moreover have "x \<in> (shownRel sg ex)\<^sup>* `` set (sg_roots sg)" if "x \<in> set (visibleLensNodes sg ex)" for x
      using walkRows_reach [of x sg ex "sg_roots sg" "[]"] that by (auto simp: visibleLensNodes_def)
    ultimately show ?thesis by blast
  qed
  have "map_of (sg_nodes sg) u \<noteq> None" if "u \<in> set (visibleLensNodes sg ex)" for u
  proof -
    have "u \<in> (shownRel sg ex)\<^sup>* `` set (sg_roots sg)" using that unfolding rows .
    then obtain r where r: "r \<in> set (sg_roots sg)" "(r, u) \<in> (shownRel sg ex)\<^sup>*" by blast
    from r(2) show ?thesis
    proof (cases rule: rtranclE)
      case base
      have "u \<in> fst ` set (membersOf (li_nodes input))" using r(1) base by (auto simp: sg_def buildLensSubgraph_def Let_def)
      then show ?thesis unfolding sg_def built_None by (simp add: map_of_eq_None_iff)
    next
      case (step p)
      then have "u \<in> set (listAt (snd (nestingOf input)) p)" by (simp add: shownRel_def sg_def built_children)
      then show ?thesis unfolding sg_def built_None using nestInvD(3) [OF nestInv_nesting] by blast
    qed
  qed
  moreover have "(shownRel sg ex)\<^sup>* `` set (sg_roots sg) \<subseteq> (shownRel sg (ex @ extra))\<^sup>* `` set (sg_roots sg)"
    by (intro Image_mono rtrancl_mono order_refl) (auto simp: shownRel_def)
  moreover have "distinct (visibleLensNodes sg ex)" by (simp add: visibleLensNodes_def walkRows_distinct)
  ultimately show ?thesis unfolding rows by blast
qed

end
