(* ===== verification/Lens_Projection.thy ===== *)
theory Lens_Projection
  imports Lens_Subgraph
begin

text \<open>
  The lineage lens, drawn (\<^verbatim>\<open>components/canvas/context-view/lens/lens-subgraph.ts\<close>): the lineage hops projected onto
  the visible nodes, the boundary rule for a walk outward from one entity, and the systems a set of entities spans.
\<close>

section \<open>Projection onto the visible nodes\<close>

record projected_edge =
  pe_sourceUrn :: string
  pe_targetUrn :: string
  pe_weight :: int
  pe_isLeafEdge :: bool
  pe_edgeTypeNorm :: string
  pe_edgeTypes :: "string list"
  pe_coarse :: bool

text \<open>\<open>nearestVisible\<close> with its memo, whose entries may be \<open>null\<close>. \<open>chain\<close> and \<open>guard\<close> always hold the same nodes.\<close>

type_synonym landing = "(string \<times> string option) list"

function walkUp :: "parents \<Rightarrow> string list \<Rightarrow> landing \<Rightarrow> string list \<Rightarrow> string \<Rightarrow> string option \<times> string list" where
  "walkUp P visible landing chain cursor = (if cursor = [] \<or> cursor \<in> set chain then (None, chain)
     else (case map_of landing cursor of
         Some found \<Rightarrow> (found, chain)
       | None \<Rightarrow> if cursor \<in> set visible then (Some cursor, chain)
           else (case map_of P cursor of
               None \<Rightarrow> (None, chain @ [cursor])
             | Some p \<Rightarrow> walkUp P visible landing (chain @ [cursor]) p)))"
  by auto
termination
proof (relation "measure (\<lambda>(P, V, L, chain, cursor). card (fst ` set P - set chain))", simp)
  fix P :: parents and V :: "string list" and L :: landing and chain cursor p
  assume new: "\<not> (cursor = [] \<or> cursor \<in> set chain)" and p: "map_of P cursor = Some p"
  have "cursor \<in> fst ` set P" using map_of_SomeD [OF p] by force
  then have "fst ` set P - set (chain @ [cursor]) \<subset> fst ` set P - set chain" using new by auto
  then show "((P, V, L, chain @ [cursor], p), P, V, L, chain, cursor)
      \<in> measure (\<lambda>(P, V, L, chain, cursor). card (fst ` set P - set chain))"
    by (simp add: psubset_card_mono)
qed

declare walkUp.simps [simp del]

definition nearestVisible :: "parents \<Rightarrow> string list \<Rightarrow> landing \<Rightarrow> string \<Rightarrow> string option \<times> landing" where
  "nearestVisible P visible landing urn = (case map_of landing urn of
       Some found \<Rightarrow> (found, landing)
     | None \<Rightarrow> let r = walkUp P visible landing [] urn; found = fst r
         in (found, AList.update urn found (fold (\<lambda>step. AList.update step found) (snd r) landing)))"

text \<open>One hop joins the bundle of its pair of visible ends, or starts it.\<close>

definition hopType :: "lens_edge \<Rightarrow> string" where
  "hopType hop = (case le_edgeType hop of None \<Rightarrow> [] | Some ty \<Rightarrow> ty)"

definition bundleKey :: "string \<Rightarrow> string \<Rightarrow> string" where
  "bundleKey s t = s @ '' '' @ t"

definition addHop :: "string \<Rightarrow> string \<Rightarrow> lens_edge \<Rightarrow> (string \<times> projected_edge) list \<Rightarrow> (string \<times> projected_edge) list" where
  "addHop s t hop bundles = (let ty = hopType hop; coarse = isRollup hop; key = bundleKey s t in
     case map_of bundles key of
       Some b \<Rightarrow> AList.update key (b\<lparr>pe_weight := pe_weight b + hopWeight hop, pe_isLeafEdge := False,
           pe_coarse := (pe_coarse b \<or> coarse),
           pe_edgeTypeNorm := (if pe_edgeTypeNorm b \<noteq> ty then [] else pe_edgeTypeNorm b),
           pe_edgeTypes := (if ty \<noteq> [] \<and> ty \<notin> set (pe_edgeTypes b) then pe_edgeTypes b @ [ty] else pe_edgeTypes b)\<rparr>)
         bundles
     | None \<Rightarrow> AList.update key \<lparr>pe_sourceUrn = s, pe_targetUrn = t, pe_weight = hopWeight hop,
           pe_isLeafEdge = (\<not> coarse \<and> s = le_sourceUrn hop \<and> t = le_targetUrn hop),
           pe_edgeTypeNorm = ty, pe_edgeTypes = (if ty \<noteq> [] then [ty] else []), pe_coarse = coarse\<rparr> bundles)"

definition projectHop :: "parents \<Rightarrow> string list \<Rightarrow> string list \<Rightarrow> lens_edge \<Rightarrow>
    landing \<times> (string \<times> projected_edge) list \<Rightarrow> landing \<times> (string \<times> projected_edge) list" where
  "projectHop P population visible hop st =
     (if le_sourceUrn hop \<notin> set population \<or> le_targetUrn hop \<notin> set population then st
      else (let s = nearestVisible P visible (fst st) (le_sourceUrn hop);
                t = nearestVisible P visible (snd s) (le_targetUrn hop)
        in (snd t, if \<not> truthyStr (fst s) \<or> \<not> truthyStr (fst t) \<or> fst s = fst t then snd st
            else addHop (the (fst s)) (the (fst t)) hop (snd st))))"

definition projectLensEdges :: "lens_subgraph \<Rightarrow> string list \<Rightarrow> string list \<Rightarrow> projected_edge list" where
  "projectLensEdges sg population visible =
     map snd (snd (fold (projectHop (sgParents sg) population visible) (sg_lineageEdges sg) ([], [])))"

section \<open>The boundary rule\<close>

record boundary_hops =
  bh_subtree :: "string list"
  bh_crossing :: "string list"
  bh_interiorOnly :: "string list"

text \<open>The subtree below \<open>root\<close>; the stack's top is last. A URN that is no node is passed over.\<close>

function subtreeLoop :: "lens_subgraph \<Rightarrow> string list \<Rightarrow> string list \<Rightarrow> string list" where
  "subtreeLoop sg subtree stack = (if stack = [] then subtree
     else (let urn = last stack; stack' = butlast stack in
       if urn \<in> set subtree \<or> map_of (sg_nodes sg) urn = None then subtreeLoop sg subtree stack'
       else subtreeLoop sg (subtree @ [urn]) (stack' @ sgChildren sg urn)))"
  by auto
termination
proof (relation "measures [\<lambda>(sg, seen, st). card (fst ` set (sg_nodes sg) - set seen), \<lambda>(sg, seen, st). length st]", simp)
  fix sg :: lens_subgraph and seen stack :: "string list" and urn stack'
  assume ne: "stack \<noteq> []" and st: "stack' = butlast stack"
  {
    show "((sg, seen, stack'), sg, seen, stack)
        \<in> measures [\<lambda>(sg, seen, st). card (fst ` set (sg_nodes sg) - set seen), \<lambda>(sg, seen, st). length st]"
      using ne st by simp
  next
    assume new: "\<not> (urn \<in> set seen \<or> map_of (sg_nodes sg) urn = None)"
    then have "urn \<in> fst ` set (sg_nodes sg)" by (simp add: map_of_eq_None_iff)
    then have "fst ` set (sg_nodes sg) - set (seen @ [urn]) \<subset> fst ` set (sg_nodes sg) - set seen" using new by auto
    then show "((sg, seen @ [urn], stack' @ sgChildren sg urn), sg, seen, stack)
        \<in> measures [\<lambda>(sg, seen, st). card (fst ` set (sg_nodes sg) - set seen), \<lambda>(sg, seen, st). length st]"
      by (simp add: psubset_card_mono)
  }
qed

declare subtreeLoop.simps [simp del]

datatype walk_dir = WalkIn | WalkOut

definition nearEnd :: "walk_dir \<Rightarrow> lens_edge \<Rightarrow> string" where
  "nearEnd dir hop = (if dir = WalkIn then le_targetUrn hop else le_sourceUrn hop)"

definition farEnd :: "walk_dir \<Rightarrow> lens_edge \<Rightarrow> string" where
  "farEnd dir hop = (if dir = WalkIn then le_sourceUrn hop else le_targetUrn hop)"

definition computeBoundaryHops :: "lens_subgraph \<Rightarrow> string \<Rightarrow> walk_dir \<Rightarrow> boundary_hops" where
  "computeBoundaryHops sg rootUrn dir = (let subtree = subtreeLoop sg [] [rootUrn];
       near = filter (\<lambda>hop. nearEnd dir hop \<in> set subtree) (sg_lineageEdges sg);
       seen = uniq (map (nearEnd dir) near);
       crossing = uniq (map (nearEnd dir) (filter (\<lambda>hop. farEnd dir hop \<notin> set subtree) near))
     in \<lparr>bh_subtree = subtree, bh_crossing = crossing, bh_interiorOnly = filter (\<lambda>u. u \<notin> set crossing) seen\<rparr>)"

text \<open>The result is cached per subgraph, root and direction; a subgraph never changes, so the cache is left out.\<close>

definition boundaryFrontierFilter :: "lens_subgraph \<Rightarrow> string \<Rightarrow> walk_dir \<Rightarrow> string \<Rightarrow> bool" where
  "boundaryFrontierFilter sg rootUrn dir urn = (let b = computeBoundaryHops sg rootUrn dir in
     if urn = rootUrn then urn \<notin> set (bh_interiorOnly b)
     else urn \<notin> set (bh_subtree b) \<or> urn \<in> set (bh_crossing b))"

section \<open>Systems\<close>

text \<open>The top of a node's chain; the loop stops at a node without a parent or where the chain closes.\<close>

definition rootUrnOf :: "lens_subgraph \<Rightarrow> string \<Rightarrow> string" where
  "rootUrnOf sg start = (case map_of (sgParents sg) start of None \<Rightarrow> start
     | Some p \<Rightarrow> last (start # climb (sgParents sg) [start] p))"

definition distinctSystemCount :: "lens_subgraph \<Rightarrow> string list \<Rightarrow> nat" where
  "distinctSystemCount sg urns = length (uniq (map (rootUrnOf sg) urns))"

section \<open>What a projection draws\<close>

definition landsOn :: "lens_subgraph \<Rightarrow> string list \<Rightarrow> string \<Rightarrow> string option" where
  "landsOn sg visible u = find (\<lambda>x. x \<in> set visible) (ancestorsOrSelf (sgParents sg) u)"

definition memoRight :: "parents \<Rightarrow> string list \<Rightarrow> landing \<Rightarrow> bool" where
  "memoRight P V L = (\<forall>u f. map_of L u = Some f \<longrightarrow> f = find (\<lambda>x. x \<in> set V) (ancestorsOrSelf P u))"

lemma walkUp_nearest:
  "memoRight P V L \<Longrightarrow>
   \<forall>c \<in> set chain. c \<notin> set V \<and> c \<noteq> [] \<and> (\<forall>p. map_of P c = Some p \<longrightarrow> p = u \<or> p \<in> set chain) \<and>
     find (\<lambda>x. x \<in> set V) (ancestorsOrSelf P c) = find (\<lambda>x. x \<in> set V) (ancestorsOrSelf P u) \<Longrightarrow>
   fst (walkUp P V L chain u) = find (\<lambda>x. x \<in> set V) (ancestorsOrSelf P u) \<and>
   (\<forall>c \<in> set (snd (walkUp P V L chain u)).
     find (\<lambda>x. x \<in> set V) (ancestorsOrSelf P c) = find (\<lambda>x. x \<in> set V) (ancestorsOrSelf P u))"
proof (induction P V L chain u rule: walkUp.induct)
  case (1 P V L chain u)
  let ?near = "\<lambda>u. find (\<lambda>x. x \<in> set V) (ancestorsOrSelf P u)"
  show ?case
  proof (cases "u = [] \<or> u \<in> set chain")
    case True
    have "?near u = None"
    proof (cases "u = []")
      case False
      then have "set (ancestorsOrSelf P u) \<subseteq> set chain"
        using True "1.prems"(2) by (intro ancestors_within) auto
      then show ?thesis using "1.prems"(2) by (auto simp: find_None_iff)
    qed simp
    then show ?thesis using True "1.prems"(2) by (simp add: walkUp.simps [of P V L chain u])
  next
    case False
    show ?thesis
    proof (cases "map_of L u")
      case (Some f)
      then show ?thesis using False "1.prems" by (auto simp: walkUp.simps [of P V L chain u] memoRight_def)
    next
      case None
      show ?thesis
      proof (cases "u \<in> set V")
        case True
        then have "?near u = Some u"
          using False by (simp add: ancestorsOrSelf_def climb.simps split: option.splits)
        then show ?thesis using False None True "1.prems"(2) by (simp add: walkUp.simps [of P V L chain u])
      next
        case hidden: False
        show ?thesis
        proof (cases "map_of P u")
          case root: None
          then have "?near u = None" using False hidden by (simp add: ancestors_root)
          then show ?thesis using False None hidden root "1.prems"(2) by (auto simp: walkUp.simps [of P V L chain u])
        next
          case (Some p)
          have step: "?near u = ?near p" using Some False hidden by (intro nearest_step) auto
          have "fst (walkUp P V L (chain @ [u]) p) = ?near p \<and>
              (\<forall>c \<in> set (snd (walkUp P V L (chain @ [u]) p)). ?near c = ?near p)"
            using "1.prems" False hidden Some step by (intro "1.IH" [OF False None hidden Some]) auto
          then show ?thesis using False None hidden Some step by (simp add: walkUp.simps [of P V L chain u])
        qed
      qed
    qed
  qed
qed

lemma memoRight_update:
  "memoRight P V M \<Longrightarrow> find (\<lambda>x. x \<in> set V) (ancestorsOrSelf P c) = f \<Longrightarrow> memoRight P V (AList.update c f M)"
  by (simp add: memoRight_def update_conv')

lemma nearestVisible_right:
  assumes "memoRight P V L"
  shows "fst (nearestVisible P V L u) = find (\<lambda>x. x \<in> set V) (ancestorsOrSelf P u)"
    and "memoRight P V (snd (nearestVisible P V L u))"
proof -
  let ?near = "\<lambda>u. find (\<lambda>x. x \<in> set V) (ancestorsOrSelf P u)"
  have stores: "memoRight P V (fold (\<lambda>step. AList.update step f) chain M)"
    if "memoRight P V M" "\<forall>c \<in> set chain. ?near c = f" for f chain M
    using that
  proof (induction chain arbitrary: M)
    case (Cons c chain)
    have "memoRight P V (AList.update c f M)" using Cons.prems by (intro memoRight_update) auto
    then show ?case using Cons by simp
  qed simp
  have "fst (nearestVisible P V L u) = ?near u \<and> memoRight P V (snd (nearestVisible P V L u))"
  proof (cases "map_of L u")
    case (Some f)
    then show ?thesis using assms by (auto simp: nearestVisible_def memoRight_def)
  next
    case None
    have up: "fst (walkUp P V L [] u) = ?near u" "\<forall>c \<in> set (snd (walkUp P V L [] u)). ?near c = ?near u"
      using walkUp_nearest [OF assms, of "[]" u] by simp_all
    have "memoRight P V (AList.update u (?near u) (fold (\<lambda>step. AList.update step (?near u)) (snd (walkUp P V L [] u)) L))"
      using stores [OF assms up(2)] by (rule memoRight_update) (rule refl)
    then show ?thesis using None up(1) by (simp add: nearestVisible_def Let_def)
  qed
  then show "fst (nearestVisible P V L u) = ?near u" "memoRight P V (snd (nearestVisible P V L u))" by blast+
qed

text \<open>The hops that are drawn between two visible nodes, in the order of the model.\<close>

definition hopsOnto :: "lens_subgraph \<Rightarrow> string list \<Rightarrow> string list \<Rightarrow> lens_edge list \<Rightarrow> string \<Rightarrow> string \<Rightarrow> lens_edge list" where
  "hopsOnto sg population visible es s t = filter (\<lambda>h. le_sourceUrn h \<in> set population \<and> le_targetUrn h \<in> set population \<and>
     landsOn sg visible (le_sourceUrn h) = Some s \<and> landsOn sg visible (le_targetUrn h) = Some t) es"

text \<open>The bundle of a list of hops, stated without the order in which they arrive.\<close>

definition bundleOf :: "string \<Rightarrow> string \<Rightarrow> lens_edge list \<Rightarrow> projected_edge" where
  "bundleOf s t hs = \<lparr>pe_sourceUrn = s, pe_targetUrn = t, pe_weight = sum_list (map hopWeight hs),
     pe_isLeafEdge = (length hs = 1 \<and> (\<forall>h \<in> set hs. \<not> isRollup h \<and> s = le_sourceUrn h \<and> t = le_targetUrn h)),
     pe_edgeTypeNorm = (if \<forall>h \<in> set hs. hopType h = hopType (hd hs) then hopType (hd hs) else []),
     pe_edgeTypes = uniq (filter (\<lambda>ty. ty \<noteq> []) (map hopType hs)), pe_coarse = (\<exists>h \<in> set hs. isRollup h)\<rparr>"

lemma uniq_snoc: "uniq (xs @ [x]) = (if x \<in> set xs then uniq xs else uniq xs @ [x])"
  by (simp add: uniq_def)

lemma bundle_first: "bundleOf s t [h] = \<lparr>pe_sourceUrn = s, pe_targetUrn = t, pe_weight = hopWeight h,
    pe_isLeafEdge = (\<not> isRollup h \<and> s = le_sourceUrn h \<and> t = le_targetUrn h),
    pe_edgeTypeNorm = hopType h, pe_edgeTypes = (if hopType h \<noteq> [] then [hopType h] else []), pe_coarse = isRollup h\<rparr>"
  by (simp add: bundleOf_def uniq_def)

lemma bundle_sel:
  "pe_sourceUrn (bundleOf s t hs) = s" "pe_targetUrn (bundleOf s t hs) = t"
  "pe_weight (bundleOf s t hs) = sum_list (map hopWeight hs)"
  "pe_coarse (bundleOf s t hs) = (\<exists>h \<in> set hs. isRollup h)"
  by (simp_all add: bundleOf_def)

lemma bundle_grows:
  assumes "hs \<noteq> []"
  shows "bundleOf s t (hs @ [h]) = (let b = bundleOf s t hs; ty = hopType h in
    b\<lparr>pe_weight := pe_weight b + hopWeight h, pe_isLeafEdge := False, pe_coarse := (pe_coarse b \<or> isRollup h),
      pe_edgeTypeNorm := (if pe_edgeTypeNorm b \<noteq> ty then [] else pe_edgeTypeNorm b),
      pe_edgeTypes := (if ty \<noteq> [] \<and> ty \<notin> set (pe_edgeTypes b) then pe_edgeTypes b @ [ty] else pe_edgeTypes b)\<rparr>)"
proof -
  let ?b = "bundleOf s t hs" and ?ty = "hopType h"
  have hd: "hd (hs @ [h]) = hd hs" "hd hs \<in> set hs" using assms by simp_all
  have norm: "pe_edgeTypeNorm (bundleOf s t (hs @ [h])) = (if pe_edgeTypeNorm ?b \<noteq> ?ty then [] else pe_edgeTypeNorm ?b)"
  proof -
    define c where "c = hopType (hd hs)"
    have b: "pe_edgeTypeNorm ?b = (if \<forall>x \<in> set hs. hopType x = c then c else [])" by (simp add: bundleOf_def c_def)
    have b': "pe_edgeTypeNorm (bundleOf s t (hs @ [h])) = (if (\<forall>x \<in> set hs. hopType x = c) \<and> ?ty = c then c else [])"
      using hd(1) by (simp add: bundleOf_def c_def conj_commute)
    show ?thesis unfolding b b' by auto
  qed
  have types: "pe_edgeTypes (bundleOf s t (hs @ [h])) =
      (if ?ty \<noteq> [] \<and> ?ty \<notin> set (pe_edgeTypes ?b) then pe_edgeTypes ?b @ [?ty] else pe_edgeTypes ?b)"
    by (auto simp: bundleOf_def uniq_snoc)
  have "length (hs @ [h]) \<noteq> 1" using assms by simp
  then have leaf: "\<not> pe_isLeafEdge (bundleOf s t (hs @ [h]))" unfolding bundleOf_def by simp
  have "pe_weight (bundleOf s t (hs @ [h])) = pe_weight ?b + hopWeight h"
      "pe_coarse (bundleOf s t (hs @ [h])) = (pe_coarse ?b \<or> isRollup h)"
      "pe_sourceUrn (bundleOf s t (hs @ [h])) = pe_sourceUrn ?b" "pe_targetUrn (bundleOf s t (hs @ [h])) = pe_targetUrn ?b"
    by (auto simp: bundle_sel)
  then show ?thesis using norm types leaf unfolding Let_def
    by (cases "bundleOf s t hs"; cases "bundleOf s t (hs @ [h])") simp
qed

text \<open>A pair of URNs without blanks is read back from its key.\<close>

lemma bundleKey_inject:
  "CHR '' '' \<notin> set s \<Longrightarrow> CHR '' '' \<notin> set s' \<Longrightarrow> bundleKey s t = bundleKey s' t' \<longleftrightarrow> s = s' \<and> t = t'"
  using first_split_unique [of "CHR '' ''" s s' t t'] by (auto simp: bundleKey_def)

definition noBlanks :: "string list \<Rightarrow> bool" where
  "noBlanks visible = list_all (\<lambda>u. CHR '' '' \<notin> set u) visible"

text \<open>What the table of bundles holds after a part of the hops.\<close>

definition bundlesInv :: "lens_subgraph \<Rightarrow> string list \<Rightarrow> string list \<Rightarrow> lens_edge list \<Rightarrow> (string \<times> projected_edge) list \<Rightarrow> bool" where
  "bundlesInv sg pop V es bundles = (distinct (map fst bundles) \<and>
     (\<forall>k b. map_of bundles k = Some b \<longleftrightarrow> (\<exists>s t. k = bundleKey s t \<and> s \<noteq> t \<and> hopsOnto sg pop V es s t \<noteq> [] \<and>
        b = bundleOf s t (hopsOnto sg pop V es s t))))"

lemma landsOn_visible: "landsOn sg V u = Some s \<Longrightarrow> s \<in> set V \<and> s \<noteq> []"
  using find_in_set [of "\<lambda>x. x \<in> set V" "ancestorsOrSelf (sgParents sg) u" s] climb_fresh [of s]
  by (auto simp: landsOn_def ancestorsOrSelf_def)

lemma hopsOnto_visible: "hopsOnto sg pop V es s t \<noteq> [] \<Longrightarrow> s \<in> set V \<and> t \<in> set V"
  using landsOn_visible by (fastforce simp: hopsOnto_def filter_empty_conv)

lemma addHop_inv:
  assumes inv: "bundlesInv sg pop V es bundles" and V: "noBlanks V"
    and h: "le_sourceUrn h \<in> set pop" "le_targetUrn h \<in> set pop" "landsOn sg V (le_sourceUrn h) = Some s"
      "landsOn sg V (le_targetUrn h) = Some t" "s \<noteq> t"
  shows "bundlesInv sg pop V (es @ [h]) (addHop s t h bundles)"
proof -
  let ?hs = "hopsOnto sg pop V"
  have grow: "?hs (es @ [h]) s' t' = (if s' = s \<and> t' = t then ?hs es s t @ [h] else ?hs es s' t')" for s' t'
    using h by (auto simp: hopsOnto_def)
  have key: "bundleKey s t = bundleKey s' t' \<longleftrightarrow> s = s' \<and> t = t'" if "?hs es s' t' \<noteq> []" for s' t'
  proof -
    have "s \<in> set V" "s' \<in> set V" using landsOn_visible [OF h(3)] hopsOnto_visible [OF that] by blast+
    then show ?thesis using V by (intro bundleKey_inject) (auto simp: noBlanks_def list_all_iff)
  qed
  have add: "addHop s t h bundles = AList.update (bundleKey s t) (bundleOf s t (?hs es s t @ [h])) bundles"
  proof (cases "?hs es s t = []")
    case True
    have "map_of bundles (bundleKey s t) \<noteq> Some b" for b
    proof
      assume "map_of bundles (bundleKey s t) = Some b"
      then obtain s' t' where "bundleKey s t = bundleKey s' t'" "?hs es s' t' \<noteq> []"
        using inv unfolding bundlesInv_def by blast
      then show False using key True by blast
    qed
    then have "map_of bundles (bundleKey s t) = None" by (metis not_None_eq)
    then show ?thesis using True by (simp add: addHop_def Let_def bundle_first)
  next
    case False
    then have "map_of bundles (bundleKey s t) = Some (bundleOf s t (?hs es s t))"
      using inv h(5) unfolding bundlesInv_def by blast
    then show ?thesis by (simp add: addHop_def Let_def bundle_grows [OF False])
  qed
  have "map_of (addHop s t h bundles) k = Some b \<longleftrightarrow> (\<exists>s' t'. k = bundleKey s' t' \<and> s' \<noteq> t' \<and>
      ?hs (es @ [h]) s' t' \<noteq> [] \<and> b = bundleOf s' t' (?hs (es @ [h]) s' t'))" for k b
  proof (cases "k = bundleKey s t")
    case True
    have "s' = s \<and> t' = t" if "k = bundleKey s' t'" "?hs (es @ [h]) s' t' \<noteq> []" for s' t'
      using that True key [of s' t'] by (cases "s' = s \<and> t' = t") (auto simp: grow)
    then have "(\<exists>s' t'. k = bundleKey s' t' \<and> s' \<noteq> t' \<and> ?hs (es @ [h]) s' t' \<noteq> [] \<and>
        b = bundleOf s' t' (?hs (es @ [h]) s' t')) \<longleftrightarrow> b = bundleOf s t (?hs es s t @ [h])"
      using True h(5) grow by (metis (no_types, lifting) snoc_eq_iff_butlast)
    then show ?thesis using True by (auto simp: add update_conv' simp del: map_of_eq_Some_iff)
  next
    case False
    then have "map_of (addHop s t h bundles) k = map_of bundles k" by (simp add: add update_conv')
    moreover have "?hs (es @ [h]) s' t' = ?hs es s' t'" if "k = bundleKey s' t'" for s' t'
      using that False by (auto simp: grow)
    ultimately show ?thesis using inv unfolding bundlesInv_def by (metis (no_types, lifting))
  qed
  moreover have "distinct (map fst (addHop s t h bundles))"
    using inv by (simp add: add bundlesInv_def distinct_update)
  ultimately show ?thesis unfolding bundlesInv_def by blast
qed

definition drawn :: "lens_subgraph \<Rightarrow> string list \<Rightarrow> string list \<Rightarrow> lens_edge \<Rightarrow> bool" where
  "drawn sg pop V h = (le_sourceUrn h \<in> set pop \<and> le_targetUrn h \<in> set pop \<and>
     landsOn sg V (le_sourceUrn h) \<noteq> None \<and> landsOn sg V (le_targetUrn h) \<noteq> None \<and>
     landsOn sg V (le_sourceUrn h) \<noteq> landsOn sg V (le_targetUrn h))"

lemma projectHop_cases:
  assumes "memoRight (sgParents sg) V (fst st)"
  shows "memoRight (sgParents sg) V (fst (projectHop (sgParents sg) pop V h st)) \<and>
    snd (projectHop (sgParents sg) pop V h st) = (if drawn sg pop V h
      then addHop (the (landsOn sg V (le_sourceUrn h))) (the (landsOn sg V (le_targetUrn h))) h (snd st) else snd st)"
proof -
  let ?s = "nearestVisible (sgParents sg) V (fst st) (le_sourceUrn h)"
  let ?t = "nearestVisible (sgParents sg) V (snd ?s) (le_targetUrn h)"
  have s: "fst ?s = landsOn sg V (le_sourceUrn h)" "memoRight (sgParents sg) V (snd ?s)"
    using nearestVisible_right [OF assms] by (simp_all add: landsOn_def)
  have t: "fst ?t = landsOn sg V (le_targetUrn h)" "memoRight (sgParents sg) V (snd ?t)"
    using nearestVisible_right [OF s(2)] by (simp_all add: landsOn_def)
  have truthy: "truthyStr (landsOn sg V u) \<longleftrightarrow> landsOn sg V u \<noteq> None" for u
    using landsOn_visible [of sg V u] by (cases "landsOn sg V u") auto
  show ?thesis using assms s t by (simp add: projectHop_def Let_def drawn_def truthy)
qed

lemma projection_inv:
  assumes "noBlanks V"
  shows "memoRight (sgParents sg) V (fst st) \<Longrightarrow> bundlesInv sg pop V done (snd st) \<Longrightarrow>
    bundlesInv sg pop V (done @ es) (snd (fold (projectHop (sgParents sg) pop V) es st))"
proof (induction es arbitrary: st "done")
  case (Cons h es)
  let ?st = "projectHop (sgParents sg) pop V h st"
  note step = projectHop_cases [OF Cons.prems(1), of pop h]
  have "bundlesInv sg pop V (done @ [h]) (snd ?st)"
  proof (cases "drawn sg pop V h")
    case True
    then obtain s t where ends: "landsOn sg V (le_sourceUrn h) = Some s" "landsOn sg V (le_targetUrn h) = Some t"
      by (auto simp: drawn_def)
    have "bundlesInv sg pop V (done @ [h]) (addHop s t h (snd st))"
      using True ends by (intro addHop_inv [OF Cons.prems(2) assms]) (auto simp: drawn_def)
    then show ?thesis using step True ends by simp
  next
    case False
    have "hopsOnto sg pop V (done @ [h]) s t = hopsOnto sg pop V done s t" if "s \<noteq> t" for s t
      using False that by (auto simp: hopsOnto_def drawn_def)
    moreover have "bundlesInv sg pop V done (snd ?st)" using Cons.prems(2) step False by simp
    ultimately show ?thesis unfolding bundlesInv_def by (metis (no_types, lifting))
  qed
  then show ?case using Cons.IH [of ?st "done @ [h]"] step by simp
qed simp

lemma sum_update:
  "sum_list (map (pe_weight \<circ> snd) (AList.update k b m)) =
   sum_list (map (pe_weight \<circ> snd) m) + pe_weight b - (case map_of m k of None \<Rightarrow> 0 | Some b' \<Rightarrow> pe_weight b')"
  by (induction m) (auto split: option.splits)

lemma addHop_weight:
  "sum_list (map (pe_weight \<circ> snd) (addHop s t h m)) = sum_list (map (pe_weight \<circ> snd) m) + hopWeight h"
  by (auto simp: addHop_def Let_def sum_update split: option.splits)

lemma projection_weight:
  "memoRight (sgParents sg) V (fst st) \<Longrightarrow>
   sum_list (map (pe_weight \<circ> snd) (snd (fold (projectHop (sgParents sg) pop V) es st))) =
   sum_list (map (pe_weight \<circ> snd) (snd st)) + sum_list (map hopWeight (filter (drawn sg pop V) es))"
proof (induction es arbitrary: st)
  case (Cons h es)
  then show ?case using projectHop_cases [OF Cons.prems, of pop h]
    by (cases "drawn sg pop V h") (simp_all add: addHop_weight [unfolded comp_def])
qed simp

lemma projection_core:
  assumes "noBlanks visible"
  shows "distinct (map (\<lambda>b. (pe_sourceUrn b, pe_targetUrn b)) (projectLensEdges sg population visible)) \<and>
    (\<forall>b. b \<in> set (projectLensEdges sg population visible) \<longleftrightarrow>
       (\<exists>s t. s \<noteq> t \<and> hopsOnto sg population visible (sg_lineageEdges sg) s t \<noteq> [] \<and>
          b = bundleOf s t (hopsOnto sg population visible (sg_lineageEdges sg) s t))) \<and>
    sum_list (map pe_weight (projectLensEdges sg population visible)) =
      sum_list (map hopWeight (filter (drawn sg population visible) (sg_lineageEdges sg)))"
proof -
  define r where "r = snd (fold (projectHop (sgParents sg) population visible) (sg_lineageEdges sg) ([], []))"
  have res: "projectLensEdges sg population visible = map snd r" by (simp add: projectLensEdges_def r_def)
  have memo: "memoRight (sgParents sg) visible (fst ([], []))" by (simp add: memoRight_def)
  have "bundlesInv sg population visible [] (snd ([], []))" by (simp add: bundlesInv_def hopsOnto_def)
  then have inv: "bundlesInv sg population visible (sg_lineageEdges sg) r"
    using projection_inv [OF assms memo, of population "[]" "sg_lineageEdges sg"] by (simp add: r_def)
  then have d: "distinct (map fst r)" by (simp add: bundlesInv_def)
  have at: "map_of r k = Some b \<longleftrightarrow> (\<exists>s t. k = bundleKey s t \<and> s \<noteq> t \<and>
      hopsOnto sg population visible (sg_lineageEdges sg) s t \<noteq> [] \<and>
      b = bundleOf s t (hopsOnto sg population visible (sg_lineageEdges sg) s t))" for k b
    using inv unfolding bundlesInv_def by blast
  have mem: "(k, b) \<in> set r \<longleftrightarrow> map_of r k = Some b" for k b using d by simp
  have "fst p = bundleKey (pe_sourceUrn (snd p)) (pe_targetUrn (snd p))" if "p \<in> set r" for p
  proof -
    have "map_of r (fst p) = Some (snd p)" using that mem by (metis prod.collapse)
    then show ?thesis using at bundle_sel(1,2) by metis
  qed
  then have keys: "map fst r = map (\<lambda>p. bundleKey (pe_sourceUrn (snd p)) (pe_targetUrn (snd p))) r" by simp
  have "distinct (map (\<lambda>(s, t). bundleKey s t) (map (\<lambda>b. (pe_sourceUrn b, pe_targetUrn b)) (map snd r)))"
    using d unfolding keys by (simp add: comp_def)
  then have "distinct (map (\<lambda>b. (pe_sourceUrn b, pe_targetUrn b)) (map snd r))" using distinct_map by blast
  moreover have "b \<in> set (map snd r) \<longleftrightarrow> (\<exists>s t. s \<noteq> t \<and> hopsOnto sg population visible (sg_lineageEdges sg) s t \<noteq> [] \<and>
      b = bundleOf s t (hopsOnto sg population visible (sg_lineageEdges sg) s t))" for b
  proof -
    have "b \<in> set (map snd r) \<longleftrightarrow> (\<exists>k. map_of r k = Some b)" using mem by force
    then show ?thesis unfolding at by blast
  qed
  moreover have "sum_list (map pe_weight (map snd r)) =
      sum_list (map hopWeight (filter (drawn sg population visible) (sg_lineageEdges sg)))"
    using projection_weight [OF memo, of population "sg_lineageEdges sg"] by (simp add: r_def comp_def)
  ultimately show ?thesis unfolding res by blast
qed

lemma bundle_weight: "hs \<noteq> [] \<Longrightarrow> 0 < pe_weight (bundleOf s t hs)"
proof (induction hs)
  case (Cons h hs)
  have h: "0 < hopWeight h" by (auto simp: hopWeight_def max_def)
  show ?case
  proof (cases "hs = []")
    case False
    then have "0 < sum_list (map hopWeight hs)" using Cons.IH by (simp add: bundle_sel)
    then show ?thesis using h by (simp add: bundle_sel)
  qed (use h in \<open>simp add: bundle_sel\<close>)
qed simp

lemma projection_pairs:
  assumes "noBlanks visible"
  shows "distinct (map (\<lambda>b. (pe_sourceUrn b, pe_targetUrn b)) (projectLensEdges sg population visible))"
    and "\<forall>b \<in> set (projectLensEdges sg population visible).
      pe_sourceUrn b \<in> set visible \<and> pe_targetUrn b \<in> set visible \<and> 0 < pe_weight b"
proof -
  note core = projection_core [OF assms, of sg population]
  show "distinct (map (\<lambda>b. (pe_sourceUrn b, pe_targetUrn b)) (projectLensEdges sg population visible))"
    by (rule core [THEN conjunct1])
  show "\<forall>b \<in> set (projectLensEdges sg population visible).
      pe_sourceUrn b \<in> set visible \<and> pe_targetUrn b \<in> set visible \<and> 0 < pe_weight b"
  proof
    fix b assume "b \<in> set (projectLensEdges sg population visible)"
    then obtain s t where b: "hopsOnto sg population visible (sg_lineageEdges sg) s t \<noteq> []"
        "b = bundleOf s t (hopsOnto sg population visible (sg_lineageEdges sg) s t)"
      using core by blast
    then show "pe_sourceUrn b \<in> set visible \<and> pe_targetUrn b \<in> set visible \<and> 0 < pe_weight b"
      using hopsOnto_visible [OF b(1)] bundle_weight [OF b(1)] by (simp add: bundle_sel)
  qed
qed

text \<open>
  C7. The projection bundles every hop where it lands, whatever the memo holds on the way: an edge is drawn from s to t
  exactly when s and t differ and some hop of the population has s and t as the nearest visible containers of its ends,
  there is one edge per ordered pair, and it carries exactly those hops. Together the drawn edges weigh as much as the
  hops that do not disappear inside one visible node or outside the visible ones. It is assumed that no visible URN
  holds a blank.
\<close>

theorem projection_bundles_every_hop:
  assumes "noBlanks visible"
  shows "distinct (map (\<lambda>b. (pe_sourceUrn b, pe_targetUrn b)) (projectLensEdges sg population visible)) \<and>
    (\<forall>b. b \<in> set (projectLensEdges sg population visible) \<longleftrightarrow>
       (\<exists>s t. s \<noteq> t \<and> hopsOnto sg population visible (sg_lineageEdges sg) s t \<noteq> [] \<and>
          b = bundleOf s t (hopsOnto sg population visible (sg_lineageEdges sg) s t))) \<and>
    sum_list (map pe_weight (projectLensEdges sg population visible)) =
      sum_list (map hopWeight (filter (drawn sg population visible) (sg_lineageEdges sg)))"
  using assms by (rule projection_core)

theorem projection_bundles_every_hop_witness:
  "noBlanks [''t1'', ''t2'', ''bi''] \<and>
   bundleOf ''t1'' ''t2'' (hopsOnto (buildLensSubgraph walkExample) [''c'', ''t2'', ''r''] [''t1'', ''t2'', ''bi'']
       (sg_lineageEdges (buildLensSubgraph walkExample)) ''t1'' ''t2'')
     \<in> set (projectLensEdges (buildLensSubgraph walkExample) [''c'', ''t2'', ''r''] [''t1'', ''t2'', ''bi''])"
proof -
  have nb: "noBlanks [''t1'', ''t2'', ''bi'']" by code_simp
  have hs: "hopsOnto (buildLensSubgraph walkExample) [''c'', ''t2'', ''r''] [''t1'', ''t2'', ''bi'']
      (sg_lineageEdges (buildLensSubgraph walkExample)) ''t1'' ''t2'' \<noteq> []"
  proof -
    let ?V = "[''t1'', ''t2'', ''bi'']" and ?P = "[(''t1'', ''db''), (''t2'', ''db''), (''c'', ''t1''), (''r'', ''bi'')]"
    have P: "sgParents (buildLensSubgraph walkExample) = ?P" by code_simp
    have es: "map (\<lambda>e. (le_sourceUrn e, le_targetUrn e)) (sg_lineageEdges (buildLensSubgraph walkExample)) =
        [(''c'', ''t2''), (''t2'', ''r'')]" by code_simp
    have "(''c'', ''t2'') \<in> set (map (\<lambda>e. (le_sourceUrn e, le_targetUrn e)) (sg_lineageEdges (buildLensSubgraph walkExample)))"
      unfolding es by simp
    then obtain e where e: "e \<in> set (sg_lineageEdges (buildLensSubgraph walkExample))" "le_sourceUrn e = ''c''" "le_targetUrn e = ''t2''"
      by auto
    have "find (\<lambda>x. x \<in> set ?V) (ancestorsOrSelf ?P ''c'') = Some ''t1''"
        "find (\<lambda>x. x \<in> set ?V) (ancestorsOrSelf ?P ''t2'') = Some ''t2''" by code_simp+
    then have "landsOn (buildLensSubgraph walkExample) ?V ''c'' = Some ''t1''"
        "landsOn (buildLensSubgraph walkExample) ?V ''t2'' = Some ''t2''" unfolding landsOn_def P .
    then have "e \<in> set (hopsOnto (buildLensSubgraph walkExample) [''c'', ''t2'', ''r''] ?V
        (sg_lineageEdges (buildLensSubgraph walkExample)) ''t1'' ''t2'')"
      using e by (simp add: hopsOnto_def)
    then show ?thesis by (metis empty_iff empty_set)
  qed
  have ne: "''t1'' \<noteq> ''t2''" by simp
  note all = projection_bundles_every_hop [OF nb, of "buildLensSubgraph walkExample" "[''c'', ''t2'', ''r'']",
    THEN conjunct2, THEN conjunct1]
  show ?thesis by (intro conjI nb spec [OF all, THEN iffD2] exI [of _ "''t1''"] exI [of _ "''t2''"] ne hs refl)
qed

text \<open>Visible URNs with blanks can share a key: the hop that comes second is drawn between the ends of the first.\<close>

lemma blank_urns_share_a_bundle:
  "let node = \<lambda>u. \<lparr>nl_urn = u, nl_displayName = None, nl_entityType = None\<rparr>;
       edge = \<lambda>s t. \<lparr>le_id = None, le_sourceUrn = s, le_targetUrn = t, le_edgeType = None, le_kind = None, le_weight = None\<rparr>;
       urns = [''a'', ''b c'', ''a b'', ''c''];
       sg = buildLensSubgraph \<lparr>li_focusUrn = ''a'', li_focusUrns = None, li_nodes = map node urns,
         li_lineageEdges = [edge ''a'' ''b c'', edge ''a b'' ''c''], li_containmentEdges = [], li_upstreamUrns = None,
         li_downstreamUrns = None, li_frontierUp = None, li_frontierDown = None, li_truncated = None,
         li_truncationReason = None, li_seedTruncated = None\<rparr>
   in map (\<lambda>b. (pe_sourceUrn b, pe_targetUrn b, pe_weight b)) (projectLensEdges sg urns urns) = [(''a'', ''b c'', 2)]"
  by code_simp

section \<open>The boundary is that of the nesting\<close>

lemma subtree_insideOf:
  assumes "\<And>u c. c \<in> set (sgChildren sg u) \<Longrightarrow> map_of (sg_nodes sg) c \<noteq> None"
    and "\<And>u. listAt m u = sgChildren sg u"
  shows "\<forall>u \<in> set stack. map_of (sg_nodes sg) u \<noteq> None \<Longrightarrow> subtreeLoop sg seen stack = insideOf m seen stack"
proof (induction sg' \<equiv> sg seen stack rule: subtreeLoop.induct)
  case (1 seen stack)
  show ?case
  proof (cases "stack = []")
    case True
    then show ?thesis by (simp add: subtreeLoop.simps)
  next
    case False
    have l: "map_of (sg_nodes sg) (last stack) \<noteq> None" using False "1.prems" by (meson last_in_set)
    have b: "\<forall>u \<in> set (butlast stack). map_of (sg_nodes sg) u \<noteq> None" using "1.prems" by (meson in_set_butlastD)
    show ?thesis
    proof (cases "last stack \<in> set seen")
      case True
      then have "subtreeLoop sg seen (butlast stack) = insideOf m seen (butlast stack)"
        using "1.hyps"(1) [OF False refl refl _ b] by blast
      then show ?thesis using False True
        by (simp add: subtreeLoop.simps [of sg seen stack] insideOf.simps [of m seen stack] Let_def)
    next
      case new: False
      have "\<forall>u \<in> set (butlast stack @ sgChildren sg (last stack)). map_of (sg_nodes sg) u \<noteq> None"
        using b assms(1) by auto
      then have "subtreeLoop sg (seen @ [last stack]) (butlast stack @ sgChildren sg (last stack)) =
          insideOf m (seen @ [last stack]) (butlast stack @ sgChildren sg (last stack))"
        using "1.hyps"(2) [OF False refl refl] new l by blast
      then show ?thesis using False new l
        by (auto simp: subtreeLoop.simps [of sg seen stack] insideOf.simps [of m seen stack] Let_def assms(2))
    qed
  qed
qed

lemma subtree_is_nesting:
  fixes input
  defines "sg \<equiv> buildLensSubgraph input"
  assumes "map_of (sg_nodes sg) r \<noteq> None"
  shows "set (subtreeLoop sg [] [r]) = (nestRel sg)\<^sup>* `` {r}"
proof -
  define m where "m = snd (nestingOf input)"
  have m: "listAt m u = sgChildren sg u" for u by (simp add: m_def sg_def built_children)
  have kids: "map_of (sg_nodes sg) c \<noteq> None" if "c \<in> set (sgChildren sg u)" for c u
    using that nestInvD(3) [OF nestInv_nesting] unfolding sg_def built_None built_children by blast
  have eq: "subtreeLoop sg [] [r] = insideOf m [] [r]" by (rule subtree_insideOf [OF kids m]) (use assms in simp_all)
  have rel: "{(p, c). c \<in> set (listAt m p)} = nestRel sg" by (simp add: nestRel_def m)
  have c: "r \<in> set (insideOf m [] [r])" "\<forall>x \<in> set (insideOf m [] [r]). set (listAt m x) \<subseteq> set (insideOf m [] [r])"
    using insideOf_closed [of "[]" m "[r]"] by simp_all
  have "x \<in> set (insideOf m [] [r])" if "(r, x) \<in> (nestRel sg)\<^sup>*" for x
    using that by (induction rule: rtrancl_induct) (use c m in \<open>auto simp: nestRel_def\<close>)
  moreover have "(r, x) \<in> (nestRel sg)\<^sup>*" if "x \<in> set (insideOf m [] [r])" for x
    using insideOf_reach [OF that] by (simp add: rel)
  ultimately show ?thesis unfolding eq by blast
qed

text \<open>The filter of the walk outward: the entity itself unless it has hops and all stay inside; inside it, what has a
  hop that leaves; outside it, everything.\<close>

lemma frontier_speaks_for_the_boundary:
  fixes input
  defines "sg \<equiv> buildLensSubgraph input"
  assumes "map_of (sg_nodes sg) r \<noteq> None"
  shows "boundaryFrontierFilter sg r dir u =
    (let inside = (nestRel sg)\<^sup>* `` {r};
         hops = {h \<in> set (sg_lineageEdges sg). nearEnd dir h = u};
         leaves = (\<exists>h \<in> hops. farEnd dir h \<notin> inside)
     in if u = r then leaves \<or> hops = {} else if u \<in> inside then leaves else True)"
proof -
  have s: "set (subtreeLoop sg [] [r]) = (nestRel sg)\<^sup>* `` {r}"
    using subtree_is_nesting assms unfolding sg_def by blast
  have r: "(r, r) \<in> (nestRel sg)\<^sup>*" by simp
  show ?thesis unfolding boundaryFrontierFilter_def computeBoundaryHops_def Let_def boundary_hops.simps
    by (cases "u = r") (auto simp: s image_iff, metis rtrancl.rtrancl_refl)
qed

end
