(* ===== verification/Wire_Ledger.thy ===== *)
theory Wire_Ledger
  imports Lens_Projection
begin

text \<open>
  The grain rule of a trace (\<^verbatim>\<open>hooks/lib/traceWireLedger.ts\<close>): which of the statements a lineage makes about a pair
  of cards is drawn. The ledger counts the raw hops inside a pair of containers; the rollup cells are accounted for
  from the inside out, each one asked only for what nothing inside it has said; the wires are the projected raw hops and
  what is left of the rollups.

  A ledger is a record of its two functions. Counts of hops are natural numbers, weights integers.
\<close>

section \<open>The ledger of raw hops\<close>

datatype pair_state = Complete | Partial | NoDetail

record pair_ledger =
  pl_state :: "string \<Rightarrow> string \<Rightarrow> pair_state"
  pl_rawCount :: "string \<Rightarrow> string \<Rightarrow> nat"

record walk_model =
  wm_focusUrn :: string
  wm_lineageEdges :: "lens_edge list"
  wm_containmentEdges :: "lens_containment list"

definition pairKey :: "string \<Rightarrow> string \<Rightarrow> string" where
  "pairKey src dst = src @ ''>'' @ dst"

text \<open>The model's own containment; the first parent wins.\<close>

definition modelParentOf :: "walk_model \<Rightarrow> parents" where
  "modelParentOf model = fold (\<lambda>c m. if map_of m (ct_targetUrn c) = None
     then AList.update (ct_targetUrn c) (ct_sourceUrn c) m else m) (wm_containmentEdges model) []"

definition tally :: "string \<Rightarrow> (string \<times> nat) list \<Rightarrow> nat" where
  "tally k m = (case map_of m k of None \<Rightarrow> 0 | Some n \<Rightarrow> n)"

definition countUp :: "string \<Rightarrow> (string \<times> nat) list \<Rightarrow> (string \<times> nat) list" where
  "countUp k m = AList.update k (tally k m + 1) m"

text \<open>What one raw hop adds to the index: to the full one at every pair of its ends' containers, to the asked one only
  where somebody asks.\<close>

definition coneEdge :: "parents \<Rightarrow> lens_edge \<Rightarrow> (string \<times> nat) list \<Rightarrow> (string \<times> nat) list" where
  "coneEdge P e cone = fold (\<lambda>a cone. fold (\<lambda>b cone. countUp (pairKey a b) cone)
     (ancestorsOrSelf P (le_targetUrn e)) cone) (ancestorsOrSelf P (le_sourceUrn e)) cone"

definition askedEdge :: "parents \<Rightarrow> string list \<Rightarrow> string list \<Rightarrow> string list \<Rightarrow> lens_edge \<Rightarrow>
    (string \<times> nat) list \<Rightarrow> (string \<times> nat) list" where
  "askedEdge P wanted sources targets e cone = fold (\<lambda>a cone. if a \<notin> set sources then cone
     else fold (\<lambda>b cone. if b \<notin> set targets then cone
         else if pairKey a b \<in> set wanted then countUp (pairKey a b) cone else cone)
       (ancestorsOrSelf P (le_targetUrn e)) cone) (ancestorsOrSelf P (le_sourceUrn e)) cone"

definition coneOf :: "parents \<Rightarrow> lens_edge list \<Rightarrow> (string \<times> string) list option \<Rightarrow> (string \<times> nat) list" where
  "coneOf P es askedPairs = (case askedPairs of
       Some asked \<Rightarrow> fold (askedEdge P (map (\<lambda>p. pairKey (fst p) (snd p)) asked) (map fst asked) (map snd asked)) es []
     | None \<Rightarrow> fold (coneEdge P) es [])"

definition buildLedger :: "walk_model \<Rightarrow> string list option \<Rightarrow> lens_edge list option \<Rightarrow> (string \<times> string) list option \<Rightarrow> pair_ledger" where
  "buildLedger model completePairs rawEdges askedPairs = (let
       edges = (case rawEdges of None \<Rightarrow> filter (\<lambda>e. \<not> isRollup e) (wm_lineageEdges model) | Some es \<Rightarrow> es);
       P = modelParentOf model;
       cone = coneOf P edges askedPairs;
       rawCount = (\<lambda>src dst. tally (pairKey src dst) cone)
     in \<lparr>pl_state = (\<lambda>src dst. case completePairs of
           None \<Rightarrow> if rawCount src dst > 0 then Complete else NoDetail
         | Some ps \<Rightarrow> if pairKey src dst \<in> set ps then Complete
             else if rawCount src dst > 0 then Partial else NoDetail),
         pl_rawCount = rawCount\<rparr>)"

section \<open>Inner-first accounting\<close>

record rollup_cell =
  rc_source :: string
  rc_target :: string
  rc_weight :: int

datatype wire_kind = RawWire | RollupWire | ResidualWire

record accounted =
  ac_source :: string
  ac_target :: string
  ac_count :: int
  ac_kind :: wire_kind

text \<open>Several cells at one pair are one statement.\<close>

definition addCell :: "rollup_cell \<Rightarrow> (string \<times> rollup_cell) list \<Rightarrow> (string \<times> rollup_cell) list" where
  "addCell c m = (let key = pairKey (rc_source c) (rc_target c) in
     case map_of m key of
       Some seen \<Rightarrow> AList.update key (seen\<lparr>rc_weight := rc_weight seen + rc_weight c\<rparr>) m
     | None \<Rightarrow> AList.update key c m)"

definition chainDepth :: "parents \<Rightarrow> string \<Rightarrow> int" where
  "chainDepth P urn = int (length (ancestorsOrSelf P urn)) - 1"

text \<open>The comparison orders by depth, deepest first, then by key; no two cells have one key.\<close>

definition innerFirst :: "parents \<Rightarrow> (string \<times> rollup_cell) list \<Rightarrow> (string \<times> rollup_cell) list" where
  "innerFirst P = sort_key (\<lambda>kc. (- (chainDepth P (rc_source (snd kc)) + chainDepth P (rc_target (snd kc))), fst kc))"

definition stateAbove :: "parents \<Rightarrow> string \<Rightarrow> string \<Rightarrow> int \<Rightarrow> (string \<times> int) list \<Rightarrow> (string \<times> int) list" where
  "stateAbove P source target n m = fold (\<lambda>a m. fold (\<lambda>b m. if a = source \<and> b = target then m
       else AList.update (pairKey a b) (countAt m (pairKey a b) + n) m)
     (ancestorsOrSelf P target) m) (ancestorsOrSelf P source) m"

definition accountCell :: "bool \<Rightarrow> pair_ledger \<Rightarrow> parents \<Rightarrow> string \<times> rollup_cell \<Rightarrow>
    (string \<times> int) list \<times> (string \<times> accounted) list \<Rightarrow> (string \<times> int) list \<times> (string \<times> accounted) list" where
  "accountCell floor1 ledger P kc st = (let key = fst kc; source = rc_source (snd kc); target = rc_target (snd kc);
       weight = rc_weight (snd kc); raw = int (pl_rawCount ledger source target); innerStated = fst st; out = snd st in
     if raw > 0 \<and> pl_state ledger source target = Complete then st
     else (let inner = countAt innerStated key;
         kind = (if inner = 0 then (if raw > 0 then ResidualWire else RollupWire) else ResidualWire);
         n = (if inner = 0 then (if raw > 0 then (if floor1 then max 1 (weight - raw) else weight - raw) else weight)
              else weight - (raw + inner))
       in if n \<le> 0 then st
          else (stateAbove P source target n innerStated,
                AList.update key \<lparr>ac_source = source, ac_target = target, ac_count = n, ac_kind = kind\<rparr> out)))"

definition accountRollups :: "rollup_cell list \<Rightarrow> pair_ledger \<Rightarrow> parents \<Rightarrow> bool \<Rightarrow> (string \<times> accounted) list" where
  "accountRollups cells ledger P floor1 =
     snd (fold (accountCell floor1 ledger P) (innerFirst P (fold addCell cells [])) ([], []))"

text \<open>Card or host: what each far end of the focus's cells still stands for.\<close>

definition weightOr1 :: "lens_edge \<Rightarrow> int" where
  "weightOr1 e = (case le_weight e of None \<Rightarrow> 1 | Some w \<Rightarrow> w)"

definition focusCells :: "walk_model \<Rightarrow> rollup_cell list" where
  "focusCells model = (let P = modelParentOf model; focus = wm_focusUrn model in
     map (\<lambda>e. \<lparr>rc_source = le_sourceUrn e, rc_target = le_targetUrn e, rc_weight = weightOr1 e\<rparr>)
       (filter (\<lambda>e. let inward = (le_targetUrn e = focus); outward = (le_sourceUrn e = focus);
           far = (if inward then le_sourceUrn e else le_targetUrn e)
         in isRollup e \<and> (inward \<or> outward) \<and> far \<notin> set (ancestorsOrSelf P focus) \<and> focus \<notin> set (ancestorsOrSelf P far))
        (wm_lineageEdges model)))"

definition rollupResiduals :: "walk_model \<Rightarrow> string list option \<Rightarrow> (string \<times> int) list" where
  "rollupResiduals model completePairs = (let cells = focusCells model;
       ledger = buildLedger model completePairs None (Some (map (\<lambda>c. (rc_source c, rc_target c)) cells))
     in fold (\<lambda>w m. let far = (if ac_source w = wm_focusUrn model then ac_target w else ac_source w)
          in AList.update far (countAt m far + ac_count w) m)
        (map snd (accountRollups cells ledger (modelParentOf model) False)) [])"

section \<open>The wires\<close>

record trace_wire =
  tw_id :: string
  tw_source :: string
  tw_target :: string
  tw_edgeCount :: int
  tw_isBundled :: bool
  tw_kind :: wire_kind
  tw_complete :: bool
  tw_types :: "string list"

definition wireKindName :: "wire_kind \<Rightarrow> string" where
  "wireKindName k = (case k of RawWire \<Rightarrow> ''raw'' | RollupWire \<Rightarrow> ''rollup'' | ResidualWire \<Rightarrow> ''residual'')"

definition wireId :: "string \<Rightarrow> wire_kind \<Rightarrow> string" where
  "wireId key k = ''bundle:'' @ key @ '':'' @ wireKindName k"

text \<open>One contains the other, along the subgraph's parents.\<close>

definition nested :: "parents \<Rightarrow> string \<Rightarrow> string \<Rightarrow> bool" where
  "nested P a b = (a = b \<or> b \<in> set (ancestorsOrSelf P a) \<or> a \<in> set (ancestorsOrSelf P b))"

definition rawWires :: "lens_subgraph \<Rightarrow> string list \<Rightarrow> pair_ledger \<Rightarrow> trace_wire list" where
  "rawWires sg visible ledger = map (\<lambda>b. \<lparr>tw_id = wireId (pairKey (pe_sourceUrn b) (pe_targetUrn b)) RawWire,
       tw_source = pe_sourceUrn b, tw_target = pe_targetUrn b, tw_edgeCount = pe_weight b,
       tw_isBundled = (\<not> pe_isLeafEdge b), tw_kind = RawWire,
       tw_complete = (pl_state ledger (pe_sourceUrn b) (pe_targetUrn b) = Complete), tw_types = pe_edgeTypes b\<rparr>)
     (filter (\<lambda>b. \<not> nested (sgParents sg) (pe_sourceUrn b) (pe_targetUrn b))
       (projectLensEdges sg (map fst (sg_nodes sg)) visible))"

definition drawnRollups :: "lens_subgraph \<Rightarrow> walk_model \<Rightarrow> string list \<Rightarrow> lens_edge list" where
  "drawnRollups sg model visible = filter (\<lambda>e. isRollup e \<and> le_sourceUrn e \<in> set visible \<and> le_targetUrn e \<in> set visible \<and>
     \<not> nested (sgParents sg) (le_sourceUrn e) (le_targetUrn e)) (wm_lineageEdges model)"

definition cellTypes :: "lens_edge list \<Rightarrow> (string \<times> string list) list" where
  "cellTypes es = fold (\<lambda>e m. if \<not> truthyStr (le_edgeType e) then m
     else (let key = pairKey (le_sourceUrn e) (le_targetUrn e); ty = hopType e; seen = listAt m key
       in AList.update key (if ty \<in> set seen then seen else seen @ [ty]) m)) es []"

definition rollupWires :: "lens_subgraph \<Rightarrow> walk_model \<Rightarrow> string list \<Rightarrow> pair_ledger \<Rightarrow> trace_wire list" where
  "rollupWires sg model visible ledger = (let es = drawnRollups sg model visible in
     map (\<lambda>(key, w). \<lparr>tw_id = wireId key (ac_kind w), tw_source = ac_source w, tw_target = ac_target w,
         tw_edgeCount = ac_count w, tw_isBundled = True, tw_kind = ac_kind w, tw_complete = False,
         tw_types = listAt (cellTypes es) key\<rparr>)
       (accountRollups (map (\<lambda>e. \<lparr>rc_source = le_sourceUrn e, rc_target = le_targetUrn e, rc_weight = weightOr1 e\<rparr>) es)
          ledger (sgParents sg) True))"

definition buildTraceWires :: "lens_subgraph \<Rightarrow> walk_model \<Rightarrow> string list \<Rightarrow> pair_ledger \<Rightarrow> trace_wire list" where
  "buildTraceWires sg model visible ledger =
     sort_key tw_id (rawWires sg visible ledger @ rollupWires sg model visible ledger)"

section \<open>The two indexes count the same\<close>

lemma pairKey_inject:
  "CHR ''>'' \<notin> set s \<Longrightarrow> CHR ''>'' \<notin> set s' \<Longrightarrow> pairKey s t = pairKey s' t' \<longleftrightarrow> s = s' \<and> t = t'"
  using first_split_unique [of "CHR ''>''" s s' t t'] by (auto simp: pairKey_def)

definition noArrows :: "string list \<Rightarrow> bool" where
  "noArrows us = list_all (\<lambda>u. CHR ''>'' \<notin> set u) us"

lemma tally_countUp: "tally k (countUp j m) = tally k m + (if k = j then 1 else 0)"
  by (simp add: tally_def countUp_def update_conv')

lemma tally_fold: "tally k (fold countUp ks m) = tally k m + count_list ks k"
  by (induction ks arbitrary: m) (auto simp: tally_countUp)

text \<open>The keys counted for one edge.\<close>

lemma full_keys:
  "fold (\<lambda>a cone. fold (\<lambda>b cone. countUp (f a b) cone) bs cone) as cone =
   fold countUp (concat (map (\<lambda>a. map (f a) bs) as)) cone"
proof -
  have "fold (\<lambda>b cone. countUp (f a b) cone) bs cone = fold countUp (map (f a) bs) cone" for a cone
    by (induction bs arbitrary: cone) auto
  then show ?thesis by (induction as arbitrary: cone) auto
qed

lemma inner_keys:
  "fold (\<lambda>b cone. if \<not> Q b then cone else if R b then countUp (f b) cone else cone) bs cone =
   fold countUp (map f (filter (\<lambda>b. Q b \<and> R b) bs)) cone"
  by (induction bs arbitrary: cone) auto

lemma outer_keys:
  "fold (\<lambda>a cone. if \<not> S a then cone else fold countUp (ks a) cone) as cone =
   fold countUp (concat (map ks (filter S as))) cone"
  by (induction as arbitrary: cone) auto

lemma count_row:
  assumes "distinct bs" "CHR ''>'' \<notin> set a" "CHR ''>'' \<notin> set s"
  shows "count_list (map (pairKey a) (filter Q bs)) (pairKey s t) = (if a = s \<and> t \<in> set bs \<and> Q t then 1 else 0)"
  using assms(1)
proof (induction bs)
  case (Cons b bs)
  then show ?case using pairKey_inject [OF assms(2,3), of b t] by auto
qed simp

lemma count_rows:
  assumes "distinct bs" "CHR ''>'' \<notin> set s"
  shows "distinct as \<Longrightarrow> \<forall>a \<in> set as. CHR ''>'' \<notin> set a \<Longrightarrow>
    count_list (concat (map (\<lambda>a. map (pairKey a) (filter (Q a) bs)) as)) (pairKey s t)
      = (if s \<in> set as \<and> t \<in> set bs \<and> Q s t then 1 else 0)"
proof (induction as)
  case (Cons a as)
  have "CHR ''>'' \<notin> set a" using Cons.prems(2) by simp
  then show ?case using Cons count_row [OF assms(1) _ assms(2), of a "Q a" t] by auto
qed simp

text \<open>Reference: the raw hops that start inside the source and end inside the target.\<close>

definition hopsInside :: "parents \<Rightarrow> lens_edge list \<Rightarrow> string \<Rightarrow> string \<Rightarrow> nat" where
  "hopsInside P es s t = length (filter (\<lambda>e. s \<in> set (ancestorsOrSelf P (le_sourceUrn e)) \<and>
     t \<in> set (ancestorsOrSelf P (le_targetUrn e))) es)"

lemma ancestors_arrows:
  assumes "noArrows (map snd P)" "CHR ''>'' \<notin> set u"
  shows "\<forall>a \<in> set (ancestorsOrSelf P u). CHR ''>'' \<notin> set a"
proof -
  have "CHR ''>'' \<notin> set p" if "map_of P x = Some p" for x p
    using assms(1) map_of_SomeD [OF that] by (force simp: noArrows_def list_all_iff)
  then have "set (ancestorsOrSelf P u) \<subseteq> {a. CHR ''>'' \<notin> set a}"
    using assms(2) by (intro ancestors_within) auto
  then show ?thesis by blast
qed

lemma coneEdge_counts:
  assumes "noArrows (map snd P)" "CHR ''>'' \<notin> set s" "CHR ''>'' \<notin> set (le_sourceUrn e)"
  shows "tally (pairKey s t) (coneEdge P e cone) = tally (pairKey s t) cone + hopsInside P [e] s t"
  unfolding coneEdge_def full_keys tally_fold
  using count_rows [OF distinct_ancestors assms(2) distinct_ancestors ancestors_arrows [OF assms(1,3)],
      where Q = "\<lambda>a b. True" and t = t] by (simp add: hopsInside_def)

lemma askedEdge_counts:
  assumes "noArrows (map snd P)" "CHR ''>'' \<notin> set s" "CHR ''>'' \<notin> set (le_sourceUrn e)"
    and "s \<in> set sources" "t \<in> set targets" "pairKey s t \<in> set wanted"
  shows "tally (pairKey s t) (askedEdge P wanted sources targets e cone) = tally (pairKey s t) cone + hopsInside P [e] s t"
proof -
  let ?S = "\<lambda>a. a \<in> set sources" and ?Q = "\<lambda>a b. b \<in> set targets \<and> pairKey a b \<in> set wanted"
  have "count_list (concat (map (\<lambda>a. map (pairKey a) (filter (?Q a) (ancestorsOrSelf P (le_targetUrn e))))
      (filter ?S (ancestorsOrSelf P (le_sourceUrn e))))) (pairKey s t) =
      (if s \<in> set (filter ?S (ancestorsOrSelf P (le_sourceUrn e))) \<and> t \<in> set (ancestorsOrSelf P (le_targetUrn e)) \<and> ?Q s t then 1 else 0)"
    using ancestors_arrows [OF assms(1,3)] by (intro count_rows distinct_ancestors assms(2)) auto
  then show ?thesis unfolding askedEdge_def inner_keys outer_keys tally_fold using assms(4-6)
    by (simp add: hopsInside_def)
qed

lemma cone_counts:
  assumes "noArrows (map snd P)" "noArrows (map le_sourceUrn es)" "CHR ''>'' \<notin> set s"
    and "case askedPairs of None \<Rightarrow> True | Some asked \<Rightarrow> (s, t) \<in> set asked"
  shows "tally (pairKey s t) (coneOf P es askedPairs) = hopsInside P es s t"
proof -
  have folded: "tally (pairKey s t) (fold f es cone) = tally (pairKey s t) cone + hopsInside P es s t"
    if "\<And>e cone. e \<in> set es \<Longrightarrow> tally (pairKey s t) (f e cone) = tally (pairKey s t) cone + hopsInside P [e] s t" for f cone
    using that by (induction es arbitrary: cone) (simp_all add: hopsInside_def)
  have src: "CHR ''>'' \<notin> set (le_sourceUrn e)" if "e \<in> set es" for e
    using assms(2) that by (auto simp: noArrows_def list_all_iff)
  show ?thesis
  proof (cases askedPairs)
    case None
    have "tally (pairKey s t) (fold (coneEdge P) es []) = tally (pairKey s t) [] + hopsInside P es s t"
      by (rule folded) (intro coneEdge_counts assms(1,3) src)
    then show ?thesis using None by (simp add: coneOf_def tally_def)
  next
    case (Some asked)
    then have a: "s \<in> set (map fst asked)" "t \<in> set (map snd asked)" "pairKey s t \<in> set (map (\<lambda>p. pairKey (fst p) (snd p)) asked)"
      using assms(4) by force+
    have "tally (pairKey s t) (fold (askedEdge P (map (\<lambda>p. pairKey (fst p) (snd p)) asked) (map fst asked) (map snd asked)) es [])
        = tally (pairKey s t) [] + hopsInside P es s t"
      by (rule folded) (intro askedEdge_counts assms(1,3) src a)
    then show ?thesis using Some by (simp add: coneOf_def tally_def)
  qed
qed

text \<open>The parents of the model are containment sources.\<close>

lemma modelParent_arrows:
  assumes "noArrows (map ct_sourceUrn (wm_containmentEdges model))"
  shows "noArrows (map snd (modelParentOf model))"
proof -
  have "noArrows (map ct_sourceUrn cs) \<Longrightarrow> noArrows (map snd m) \<Longrightarrow>
      noArrows (map snd (fold (\<lambda>c m. if map_of m (ct_targetUrn c) = None
        then AList.update (ct_targetUrn c) (ct_sourceUrn c) m else m) cs m))" for cs m
  proof (induction cs arbitrary: m)
    case (Cons c cs)
    have "snd ` set (AList.update k v m) \<subseteq> insert v (snd ` set m)" for k v
      by (induction m) auto
    then have "noArrows (map snd (AList.update (ct_targetUrn c) (ct_sourceUrn c) m))"
      using Cons.prems by (fastforce simp: noArrows_def list_all_iff)
    then show ?case using Cons by (simp add: noArrows_def)
  qed simp
  note step = this
  have "noArrows (map snd ([] :: parents))" by (simp add: noArrows_def)
  then show ?thesis unfolding modelParentOf_def by (rule step [OF assms])
qed

lemma asked_ledger:
  fixes model rawEdges
  defines "hops \<equiv> (case rawEdges of None \<Rightarrow> filter (\<lambda>e. \<not> isRollup e) (wm_lineageEdges model) | Some es \<Rightarrow> es)"
  assumes "noArrows (map ct_sourceUrn (wm_containmentEdges model))" "noArrows (map le_sourceUrn hops)"
    and "noArrows (map fst asked)" "(s, t) \<in> set asked"
  shows "pl_rawCount (buildLedger model completePairs rawEdges (Some asked)) s t = hopsInside (modelParentOf model) hops s t \<and>
    pl_rawCount (buildLedger model completePairs rawEdges None) s t = hopsInside (modelParentOf model) hops s t \<and>
    pl_state (buildLedger model completePairs rawEdges (Some asked)) s t =
      pl_state (buildLedger model completePairs rawEdges None) s t"
proof -
  have s: "CHR ''>'' \<notin> set s" using assms(4,5) by (force simp: noArrows_def list_all_iff)
  note c = cone_counts [OF modelParent_arrows [OF assms(2)] assms(3) s]
  have "tally (pairKey s t) (coneOf (modelParentOf model) hops (Some asked)) = hopsInside (modelParentOf model) hops s t"
      "tally (pairKey s t) (coneOf (modelParentOf model) hops None) = hopsInside (modelParentOf model) hops s t"
    using assms(5) by (simp_all add: c)
  then show ?thesis by (simp add: buildLedger_def Let_def hops_def)
qed

text \<open>
  C31. A ledger that indexes only the pairs somebody asks about answers as the full one for each of them: the count of a
  pair is the number of raw hops from inside its source to inside its target, and its state is the same. It is assumed
  that no URN that can be the source of a pair holds the separator of the pair keys.
\<close>

theorem asked_ledger_is_the_full_ledger:
  fixes model rawEdges
  defines "hops \<equiv> (case rawEdges of None \<Rightarrow> filter (\<lambda>e. \<not> isRollup e) (wm_lineageEdges model) | Some es \<Rightarrow> es)"
  assumes "noArrows (map ct_sourceUrn (wm_containmentEdges model))" "noArrows (map le_sourceUrn hops)"
    and "noArrows (map fst asked)" "(s, t) \<in> set asked"
  shows "pl_rawCount (buildLedger model completePairs rawEdges (Some asked)) s t = hopsInside (modelParentOf model) hops s t \<and>
    pl_rawCount (buildLedger model completePairs rawEdges None) s t = hopsInside (modelParentOf model) hops s t \<and>
    pl_state (buildLedger model completePairs rawEdges (Some asked)) s t =
      pl_state (buildLedger model completePairs rawEdges None) s t"
  using assms unfolding hops_def by (intro asked_ledger)

text \<open>The walk of the example with rollups of its hops: between the tables, from the database to the report's system,
  and from the database to the report.\<close>

definition rollupEdge :: "string \<Rightarrow> string \<Rightarrow> int \<Rightarrow> lens_edge" where
  "rollupEdge s t w = \<lparr>le_id = None, le_sourceUrn = s, le_targetUrn = t, le_edgeType = Some ''flows'',
     le_kind = Some RollupCell, le_weight = Some w\<rparr>"

definition modelExample :: walk_model where
  "modelExample = \<lparr>wm_focusUrn = ''t1'',
     wm_lineageEdges = li_lineageEdges walkExample @ [rollupEdge ''db'' ''r'' 5, rollupEdge ''db'' ''bi'' 9, rollupEdge ''t1'' ''t2'' 4],
     wm_containmentEdges = li_containmentEdges walkExample\<rparr>"

theorem asked_ledger_is_the_full_ledger_witness:
  "pl_rawCount (buildLedger modelExample None None (Some [(''db'', ''r''), (''t1'', ''t2'')])) ''db'' ''r'' =
   pl_rawCount (buildLedger modelExample None None None) ''db'' ''r'' \<and>
   hopsInside (modelParentOf modelExample) (filter (\<lambda>e. \<not> isRollup e) (wm_lineageEdges modelExample)) ''db'' ''r'' = 1"
proof -
  have "noArrows (map ct_sourceUrn (wm_containmentEdges modelExample))"
      "noArrows (map le_sourceUrn (filter (\<lambda>e. \<not> isRollup e) (wm_lineageEdges modelExample)))"
      "noArrows (map fst [(''db'', ''r''), (''t1'', ''t2'')])" by code_simp+
  moreover have "hopsInside (modelParentOf modelExample) (filter (\<lambda>e. \<not> isRollup e) (wm_lineageEdges modelExample)) ''db'' ''r'' = 1"
    by code_simp
  ultimately show ?thesis
    using asked_ledger_is_the_full_ledger [of modelExample None "[(''db'', ''r''), (''t1'', ''t2'')]" "''db''" "''r''" None]
    by simp
qed

section \<open>The accounting adds up\<close>

lemma countAt_update: "countAt (AList.update j n m) k = (if k = j then n else countAt m k)"
  by (simp add: countAt_def update_conv')

text \<open>What has been stated strictly inside a pair.\<close>

definition strictlyInside :: "parents \<Rightarrow> string \<Rightarrow> string \<Rightarrow> accounted \<Rightarrow> bool" where
  "strictlyInside P s t w = (s \<in> set (ancestorsOrSelf P (ac_source w)) \<and> t \<in> set (ancestorsOrSelf P (ac_target w)) \<and>
     (s, t) \<noteq> (ac_source w, ac_target w))"

definition statedInside :: "parents \<Rightarrow> accounted list \<Rightarrow> string \<Rightarrow> string \<Rightarrow> int" where
  "statedInside P ws s t = sum_list (map ac_count (filter (strictlyInside P s t) ws))"

lemma stateAbove_row:
  assumes "CHR ''>'' \<notin> set a" "CHR ''>'' \<notin> set s"
  shows "distinct bs \<Longrightarrow> countAt (fold (\<lambda>b m. if a = s' \<and> b = t' then m
      else AList.update (pairKey a b) (countAt m (pairKey a b) + n) m) bs m) (pairKey s t) =
    countAt m (pairKey s t) + (if a = s \<and> t \<in> set bs \<and> (s, t) \<noteq> (s', t') then n else 0)"
proof (induction bs arbitrary: m)
  case (Cons b bs)
  have key: "pairKey s t = pairKey a b \<longleftrightarrow> s = a \<and> t = b" by (rule pairKey_inject [OF assms(2,1)])
  have one: "countAt (if a = s' \<and> b = t' then m else AList.update (pairKey a b) (countAt m (pairKey a b) + n) m) (pairKey s t) =
      countAt m (pairKey s t) + (if a = s \<and> b = t \<and> (s, t) \<noteq> (s', t') then n else 0)"
  proof (cases "a = s' \<and> b = t'")
    case True
    then show ?thesis by auto
  next
    case False
    then show ?thesis unfolding countAt_update if_not_P [OF False] key by auto
  qed
  have bs: "distinct bs" "b \<notin> set bs" using Cons.prems by simp_all
  have arith: "c + (if a = s \<and> b = t \<and> X then n else 0) + (if a = s \<and> t \<in> set bs \<and> X then n else 0) =
      c + (if a = s \<and> t \<in> set (b # bs) \<and> X then n else 0)" for c X
    using bs(2) by (cases "b = t") auto
  show ?case unfolding fold_Cons comp_def Cons.IH [OF bs(1)] one by (rule arith)
qed simp

lemma stateAbove_counts:
  assumes "noArrows (map snd P)" "CHR ''>'' \<notin> set source" "CHR ''>'' \<notin> set s"
  shows "countAt (stateAbove P source target n m) (pairKey s t) = countAt m (pairKey s t) +
    (if s \<in> set (ancestorsOrSelf P source) \<and> t \<in> set (ancestorsOrSelf P target) \<and> (s, t) \<noteq> (source, target) then n else 0)"
proof -
  have "distinct as \<Longrightarrow> \<forall>a \<in> set as. CHR ''>'' \<notin> set a \<Longrightarrow>
      countAt (fold (\<lambda>a m. fold (\<lambda>b m. if a = source \<and> b = target then m
        else AList.update (pairKey a b) (countAt m (pairKey a b) + n) m) (ancestorsOrSelf P target) m) as m) (pairKey s t) =
      countAt m (pairKey s t) + (if s \<in> set as \<and> t \<in> set (ancestorsOrSelf P target) \<and> (s, t) \<noteq> (source, target) then n else 0)" for as
  proof (induction as arbitrary: m)
    case (Cons a as)
    have "CHR ''>'' \<notin> set a" using Cons.prems(2) by simp
    note row = stateAbove_row [OF this assms(3) distinct_ancestors]
    show ?case using Cons by (simp add: row) auto
  qed simp
  then show ?thesis using ancestors_arrows [OF assms(1,2)] by (simp add: stateAbove_def)
qed

text \<open>What a cell still says, given what has been stated inside it.\<close>

definition remainder :: "bool \<Rightarrow> int \<Rightarrow> int \<Rightarrow> int \<Rightarrow> int" where
  "remainder floor1 weight raw inner =
     (if floor1 \<and> raw > 0 \<and> inner = 0 then max 1 (weight - raw) else weight - (raw + inner))"

definition spoken :: "pair_ledger \<Rightarrow> string \<Rightarrow> string \<Rightarrow> bool" where
  "spoken ledger s t = (pl_rawCount ledger s t > 0 \<and> pl_state ledger s t = Complete)"

definition answers :: "bool \<Rightarrow> pair_ledger \<Rightarrow> rollup_cell \<Rightarrow> int \<Rightarrow> accounted option" where
  "answers floor1 ledger c inner = (let s = rc_source c; t = rc_target c; raw = int (pl_rawCount ledger s t);
       n = remainder floor1 (rc_weight c) raw inner
     in if spoken ledger s t \<or> n \<le> 0 then None
        else Some \<lparr>ac_source = s, ac_target = t, ac_count = n, ac_kind = (if raw = 0 \<and> inner = 0 then RollupWire else ResidualWire)\<rparr>)"

lemma accountCell_answers:
  "accountCell floor1 ledger P (key, c) (inn, out) = (case answers floor1 ledger c (countAt inn key) of None \<Rightarrow> (inn, out)
     | Some w \<Rightarrow> (stateAbove P (rc_source c) (rc_target c) (ac_count w) inn, AList.update key w out))"
  by (auto simp: accountCell_def answers_def remainder_def spoken_def Let_def split: if_splits)

lemma update_new_key: "k \<notin> fst ` set m \<Longrightarrow> AList.update k v m = m @ [(k, v)]"
  by (induction m) auto

lemma answers_ends:
  "answers floor1 ledger c inner = Some w \<Longrightarrow> ac_source w = rc_source c \<and> ac_target w = rc_target c \<and> 0 < ac_count w"
  by (auto simp: answers_def Let_def split: if_splits)

text \<open>Cells further down the order lie strictly inside none that came before.\<close>

lemma not_inside_later:
  assumes "containmentAcyclic P" "ac_source w = rc_source c'" "ac_target w = rc_target c'"
    and "chainDepth P (rc_source c') + chainDepth P (rc_target c') \<le> chainDepth P (rc_source c) + chainDepth P (rc_target c)"
  shows "\<not> strictlyInside P (rc_source c) (rc_target c) w"
proof
  assume "strictlyInside P (rc_source c) (rc_target c) w"
  then have s: "rc_source c \<in> set (ancestorsOrSelf P (rc_source c'))" and t: "rc_target c \<in> set (ancestorsOrSelf P (rc_target c'))"
    and ne: "rc_source c \<noteq> rc_source c' \<or> rc_target c \<noteq> rc_target c'"
    using assms(2,3) by (auto simp: strictlyInside_def)
  have "chainDepth P (rc_source c) \<le> chainDepth P (rc_source c')" "chainDepth P (rc_target c) \<le> chainDepth P (rc_target c')"
    using container_shorter [OF assms(1) s] container_shorter [OF assms(1) t] by (fastforce simp: chainDepth_def)+
  moreover have "rc_source c \<noteq> rc_source c' \<Longrightarrow> chainDepth P (rc_source c) < chainDepth P (rc_source c')"
      "rc_target c \<noteq> rc_target c' \<Longrightarrow> chainDepth P (rc_target c) < chainDepth P (rc_target c')"
    using container_shorter [OF assms(1) s] container_shorter [OF assms(1) t] by (simp_all add: chainDepth_def)
  ultimately show False using ne assms(4) by linarith
qed

lemma accounting_loop:
  assumes acyclic: "containmentAcyclic P" and arrows: "noArrows (map snd P)"
  shows "sorted (map (\<lambda>kc. - (chainDepth P (rc_source (snd kc)) + chainDepth P (rc_target (snd kc)))) xs) \<Longrightarrow>
    distinct (map fst xs) \<Longrightarrow>
    \<forall>kc \<in> set xs. fst kc = pairKey (rc_source (snd kc)) (rc_target (snd kc)) \<and> CHR ''>'' \<notin> set (rc_source (snd kc)) \<Longrightarrow>
    fst ` set (snd st) \<inter> fst ` set xs = {} \<Longrightarrow>
    \<forall>s t. CHR ''>'' \<notin> set s \<longrightarrow> countAt (fst st) (pairKey s t) = statedInside P (map snd (snd st)) s t \<Longrightarrow>
    r = snd (fold (accountCell floor1 ledger P) xs st) \<Longrightarrow>
    \<exists>new. r = snd st @ new \<and> fst ` set new \<subseteq> fst ` set xs \<and> distinct (map fst new) \<and>
      (\<forall>(k, w) \<in> set new. \<exists>c. (k, c) \<in> set xs \<and> ac_source w = rc_source c \<and> ac_target w = rc_target c) \<and>
      (\<forall>(k, c) \<in> set xs. map_of new k = answers floor1 ledger c (statedInside P (map snd r) (rc_source c) (rc_target c)))"
proof (induction xs arbitrary: st)
  case Nil
  then show ?case by simp
next
  case (Cons x xs)
  obtain k c where x: "x = (k, c)" by (cases x)
  obtain inn out where st: "st = (inn, out)" by (cases st)
  let ?before = "statedInside P (map snd out) (rc_source c) (rc_target c)"
  let ?a = "answers floor1 ledger c ?before"
  have k: "k = pairKey (rc_source c) (rc_target c)" "CHR ''>'' \<notin> set (rc_source c)" using Cons.prems(3) x by auto
  have inn: "countAt inn k = ?before" using Cons.prems(5) k st by simp
  have fresh: "k \<notin> fst ` set out" using Cons.prems(4) x st by auto
  define st' where "st' = accountCell floor1 ledger P x st"
  have st': "st' = (case ?a of None \<Rightarrow> (inn, out)
      | Some w \<Rightarrow> (stateAbove P (rc_source c) (rc_target c) (ac_count w) inn, out @ [(k, w)]))"
    using fresh by (simp add: st'_def x st accountCell_answers inn update_new_key split: option.split)
  have out': "snd st' = out @ (case ?a of None \<Rightarrow> [] | Some w \<Rightarrow> [(k, w)])" by (simp add: st' split: option.split)
  have inv: "countAt (fst st') (pairKey s t) = statedInside P (map snd (snd st')) s t" if "CHR ''>'' \<notin> set s" for s t
  proof (cases ?a)
    case None
    then show ?thesis using Cons.prems(5) that st by (simp add: st')
  next
    case (Some w)
    note w = answers_ends [OF Some]
    have st2: "st' = (stateAbove P (rc_source c) (rc_target c) (ac_count w) inn, out @ [(k, w)])" using st' Some by simp
    have "countAt inn (pairKey s t) = statedInside P (map snd out) s t" using Cons.prems(5) that st by simp
    then show ?thesis
      using stateAbove_counts [OF arrows k(2) that, of "rc_target c" "ac_count w" inn t] w
      unfolding st2 by (simp add: statedInside_def strictlyInside_def)
  qed
  have disj: "fst ` set (snd st') \<inter> fst ` set xs = {}"
  proof -
    have "fst ` set (snd st') \<subseteq> insert k (fst ` set out)" unfolding out' by (auto split: option.splits)
    moreover have "k \<notin> fst ` set xs" using Cons.prems(2) x by simp
    moreover have "fst ` set out \<inter> fst ` set xs = {}" using Cons.prems(4) st by auto
    ultimately show ?thesis by blast
  qed
  have r: "r = snd (fold (accountCell floor1 ledger P) xs st')" using Cons.prems(6) by (simp add: st'_def)
  have "\<exists>new. r = snd st' @ new \<and> fst ` set new \<subseteq> fst ` set xs \<and> distinct (map fst new) \<and>
      (\<forall>(k, w) \<in> set new. \<exists>c. (k, c) \<in> set xs \<and> ac_source w = rc_source c \<and> ac_target w = rc_target c) \<and>
      (\<forall>(k, c) \<in> set xs. map_of new k = answers floor1 ledger c (statedInside P (map snd r) (rc_source c) (rc_target c)))"
    using Cons.prems(1,2,3) by (intro Cons.IH [OF _ _ _ disj _ r]) (simp_all add: inv)
  then obtain new where new: "r = snd st' @ new" "fst ` set new \<subseteq> fst ` set xs" "distinct (map fst new)"
      "\<forall>(k, w) \<in> set new. \<exists>c. (k, c) \<in> set xs \<and> ac_source w = rc_source c \<and> ac_target w = rc_target c"
      "\<forall>(k, c) \<in> set xs. map_of new k = answers floor1 ledger c (statedInside P (map snd r) (rc_source c) (rc_target c))"
    by blast
  have later: "\<not> strictlyInside P (rc_source c) (rc_target c) w" if w: "w \<in> snd ` set new" for w
  proof -
    obtain k' c' where c': "(k', c') \<in> set xs" "ac_source w = rc_source c'" "ac_target w = rc_target c'"
      using w new(4) by fastforce
    have "- (chainDepth P (rc_source c) + chainDepth P (rc_target c)) \<le> - (chainDepth P (rc_source c') + chainDepth P (rc_target c'))"
      using Cons.prems(1) c'(1) x by fastforce
    then show ?thesis by (intro not_inside_later [OF acyclic c'(2,3)]) simp
  qed
  let ?own = "case ?a of None \<Rightarrow> [] | Some w \<Rightarrow> [(k, w)]"
  have own: "\<not> strictlyInside P (rc_source c) (rc_target c) w" if "w \<in> snd ` set ?own" for w
    using that answers_ends by (auto simp: strictlyInside_def split: option.splits)
  have same: "statedInside P (map snd r) (rc_source c) (rc_target c) = ?before"
  proof -
    have "filter (strictlyInside P (rc_source c) (rc_target c)) (map snd (?own @ new)) = []"
      using later own by (auto simp: filter_empty_conv simp del: set_map) (auto simp: image_iff)
    then show ?thesis unfolding new(1) out' statedInside_def by simp
  qed
  have notnew: "k \<notin> fst ` set new" using new(2) Cons.prems(2) x by auto
  show ?case
  proof (intro exI conjI)
    show "r = snd st @ (?own @ new)" using new(1) out' st by simp
    show "fst ` set (?own @ new) \<subseteq> fst ` set (x # xs)" using new(2) x by (auto split: option.splits)
    show "distinct (map fst (?own @ new))" using new(3) notnew by (simp split: option.splits)
    show "\<forall>(k, w) \<in> set (?own @ new). \<exists>c. (k, c) \<in> set (x # xs) \<and> ac_source w = rc_source c \<and> ac_target w = rc_target c"
      using new(4) answers_ends x by (fastforce split: option.splits)
    show "\<forall>(k, c) \<in> set (x # xs). map_of (?own @ new) k =
        answers floor1 ledger c (statedInside P (map snd r) (rc_source c) (rc_target c))"
    proof
      fix kc assume kc: "kc \<in> set (x # xs)"
      obtain k' c' where kc': "kc = (k', c')" by (cases kc)
      show "case kc of (k, c) \<Rightarrow> map_of (?own @ new) k =
          answers floor1 ledger c (statedInside P (map snd r) (rc_source c) (rc_target c))"
      proof (cases "kc = x")
        case True
        have "map_of new k = None" using notnew by (simp add: map_of_eq_None_iff)
        then show ?thesis using True x same by (cases ?a) (simp_all add: map_add_def)
      next
        case False
        then have "kc \<in> set xs" using kc by simp
        then have "k' \<noteq> k" using Cons.prems(2) x kc' by force
        then show ?thesis using new(5) \<open>kc \<in> set xs\<close> kc' by (auto simp: map_add_def split: option.splits)
      qed
    qed
  qed
qed

text \<open>The cells pooled by pair.\<close>

definition cellsAt :: "rollup_cell list \<Rightarrow> string \<Rightarrow> string \<Rightarrow> rollup_cell list" where
  "cellsAt cells s t = filter (\<lambda>c. rc_source c = s \<and> rc_target c = t) cells"

definition pooled :: "rollup_cell list \<Rightarrow> string \<Rightarrow> string \<Rightarrow> rollup_cell" where
  "pooled cells s t = \<lparr>rc_source = s, rc_target = t, rc_weight = sum_list (map rc_weight (cellsAt cells s t))\<rparr>"

lemma pooled_ends: "rc_source (pooled cells s t) = s" "rc_target (pooled cells s t) = t"
  by (simp_all add: pooled_def)

lemma addCell_pools:
  "noArrows (map rc_source cells) \<Longrightarrow> distinct (map fst (fold addCell cells [])) \<and>
    (\<forall>k c. map_of (fold addCell cells []) k = Some c \<longleftrightarrow>
      (\<exists>s t. k = pairKey s t \<and> cellsAt cells s t \<noteq> [] \<and> c = pooled cells s t))"
proof (induction cells rule: rev_induct)
  case Nil
  then show ?case by (simp add: cellsAt_def)
next
  case (snoc c cells)
  let ?m = "fold addCell cells []" and ?s = "rc_source c" and ?t = "rc_target c"
  have arrows: "noArrows (map rc_source cells)" "CHR ''>'' \<notin> set ?s" using snoc.prems by (simp_all add: noArrows_def)
  note IH = snoc.IH [OF arrows(1)]
  have grow: "cellsAt (cells @ [c]) s t = (if s = ?s \<and> t = ?t then cellsAt cells s t @ [c] else cellsAt cells s t)" for s t
    by (simp add: cellsAt_def)
  have key: "pairKey ?s ?t = pairKey s t \<longleftrightarrow> ?s = s \<and> ?t = t" if "cellsAt (cells @ [c]) s t \<noteq> []" for s t
  proof -
    have "CHR ''>'' \<notin> set s" using that snoc.prems by (force simp: cellsAt_def filter_empty_conv noArrows_def list_all_iff split: if_splits)
    then show ?thesis by (rule pairKey_inject [OF arrows(2)])
  qed
  have add: "addCell c ?m = AList.update (pairKey ?s ?t) (pooled (cells @ [c]) ?s ?t) ?m"
  proof (cases "cellsAt cells ?s ?t = []")
    case True
    have "map_of ?m (pairKey ?s ?t) \<noteq> Some c'" for c'
    proof
      assume "map_of ?m (pairKey ?s ?t) = Some c'"
      then obtain s t where st: "pairKey ?s ?t = pairKey s t" "cellsAt cells s t \<noteq> []" using IH by blast
      then have "cellsAt (cells @ [c]) s t \<noteq> []" by (simp add: grow)
      then show False using key st True by blast
    qed
    then have "map_of ?m (pairKey ?s ?t) = None" by (metis not_None_eq)
    moreover have "pooled (cells @ [c]) ?s ?t = c" using True by (simp add: pooled_def grow)
    ultimately show ?thesis by (simp add: addCell_def Let_def)
  next
    case False
    then have "map_of ?m (pairKey ?s ?t) = Some (pooled cells ?s ?t)" using IH by blast
    then show ?thesis by (simp add: addCell_def Let_def pooled_def grow)
  qed
  have "map_of (addCell c ?m) k = Some c' \<longleftrightarrow>
      (\<exists>s t. k = pairKey s t \<and> cellsAt (cells @ [c]) s t \<noteq> [] \<and> c' = pooled (cells @ [c]) s t)" for k c'
  proof (cases "k = pairKey ?s ?t")
    case True
    have here: "cellsAt (cells @ [c]) ?s ?t \<noteq> []" by (simp add: grow)
    have "s = ?s \<and> t = ?t" if "k = pairKey s t" "cellsAt (cells @ [c]) s t \<noteq> []" for s t
      using that True key by auto
    then have "(\<exists>s t. k = pairKey s t \<and> cellsAt (cells @ [c]) s t \<noteq> [] \<and> c' = pooled (cells @ [c]) s t) \<longleftrightarrow>
        c' = pooled (cells @ [c]) ?s ?t"
      using True here by metis
    moreover have "map_of (addCell c ?m) k = Some (pooled (cells @ [c]) ?s ?t)" using True by (simp add: add update_conv')
    ultimately show ?thesis by auto
  next
    case False
    then have "map_of (addCell c ?m) k = map_of ?m k" by (simp add: add update_conv')
    moreover have "cellsAt (cells @ [c]) s t = cellsAt cells s t \<and> pooled (cells @ [c]) s t = pooled cells s t"
      if "k = pairKey s t" for s t
    proof -
      have "\<not> (s = ?s \<and> t = ?t)" using that False by blast
      then have "cellsAt (cells @ [c]) s t = cellsAt cells s t" by (simp add: grow)
      then show ?thesis by (simp add: pooled_def)
    qed
    ultimately show ?thesis using IH by (metis (no_types, lifting))
  qed
  moreover have "distinct (map fst (addCell c ?m))" using IH by (simp add: add distinct_update)
  ultimately show ?case by simp
qed

text \<open>
  C2. Rollups are accounted for inner first. On a containment without cycles, a pair that has cells is drawn exactly when
  its raw detail is not vouched for and something is left to say: its pooled weight less the raw hops inside it and what
  is drawn strictly inside it, or, where the floor applies, at least one over unvouched raw detail with nothing drawn
  inside. No pair is drawn twice and none without a cell; a pair is drawn whole only where nothing inside it speaks.
\<close>

theorem rollups_are_accounted_inner_first:
  fixes cells ledger P floor1
  defines "ws \<equiv> map snd (accountRollups cells ledger P floor1)"
  assumes "containmentAcyclic P" "noArrows (map snd P)" "noArrows (map rc_source cells)"
  shows "distinct (map (\<lambda>w. (ac_source w, ac_target w)) ws) \<and>
    (\<forall>w. w \<in> set ws \<longleftrightarrow> (\<exists>s t. cellsAt cells s t \<noteq> [] \<and>
       \<not> (pl_rawCount ledger s t > 0 \<and> pl_state ledger s t = Complete) \<and>
       (let weight = sum_list (map rc_weight (cellsAt cells s t)); raw = int (pl_rawCount ledger s t);
            inner = statedInside P ws s t;
            n = (if floor1 \<and> raw > 0 \<and> inner = 0 then max 1 (weight - raw) else weight - (raw + inner))
        in 0 < n \<and> w = \<lparr>ac_source = s, ac_target = t, ac_count = n,
             ac_kind = (if raw = 0 \<and> inner = 0 then RollupWire else ResidualWire)\<rparr>)))"
proof -
  let ?m = "fold addCell cells []"
  define xs where "xs = innerFirst P ?m"
  define r where "r = accountRollups cells ledger P floor1"
  note pool = addCell_pools [OF assms(4)]
  have set_xs: "set xs = set ?m" and keys: "distinct (map fst xs)"
  proof -
    show "set xs = set ?m" by (simp add: xs_def innerFirst_def)
    have "mset (map fst xs) = mset (map fst ?m)" by (simp add: xs_def innerFirst_def)
    then show "distinct (map fst xs)" using pool by (metis mset_eq_imp_distinct_iff)
  qed
  have at: "(k, c) \<in> set xs \<longleftrightarrow> (\<exists>s t. k = pairKey s t \<and> cellsAt cells s t \<noteq> [] \<and> c = pooled cells s t)" for k c
  proof -
    have "(k, c) \<in> set xs \<longleftrightarrow> map_of ?m k = Some c"
      unfolding set_xs by (rule map_of_eq_Some_iff [symmetric]) (rule pool [THEN conjunct1])
    then show ?thesis using pool by blast
  qed
  have "sorted (map (\<lambda>kc. (- (chainDepth P (rc_source (snd kc)) + chainDepth P (rc_target (snd kc))), fst kc)) xs)"
    by (simp add: xs_def innerFirst_def)
  then have sorted: "sorted (map (\<lambda>kc. - (chainDepth P (rc_source (snd kc)) + chainDepth P (rc_target (snd kc)))) xs)"
    unfolding sorted_map by (rule sorted_wrt_mono_rel [rotated]) (auto simp: less_eq_prod_def)
  have plain: "CHR ''>'' \<notin> set s" if "cellsAt cells s t \<noteq> []" for s t
    using that assms(4) by (force simp: cellsAt_def filter_empty_conv noArrows_def list_all_iff)
  have cell: "\<forall>kc \<in> set xs. fst kc = pairKey (rc_source (snd kc)) (rc_target (snd kc)) \<and> CHR ''>'' \<notin> set (rc_source (snd kc))"
  proof
    fix kc assume "kc \<in> set xs"
    then obtain s t where "fst kc = pairKey s t" "cellsAt cells s t \<noteq> []" "snd kc = pooled cells s t"
      using at [of "fst kc" "snd kc"] by auto
    then show "fst kc = pairKey (rc_source (snd kc)) (rc_target (snd kc)) \<and> CHR ''>'' \<notin> set (rc_source (snd kc))"
      using plain by (simp add: pooled_def)
  qed
  have "\<exists>new. r = snd ([] :: (string \<times> int) list, []) @ new \<and> fst ` set new \<subseteq> fst ` set xs \<and> distinct (map fst new) \<and>
      (\<forall>(k, w) \<in> set new. \<exists>c. (k, c) \<in> set xs \<and> ac_source w = rc_source c \<and> ac_target w = rc_target c) \<and>
      (\<forall>(k, c) \<in> set xs. map_of new k = answers floor1 ledger c (statedInside P (map snd r) (rc_source c) (rc_target c)))"
    by (rule accounting_loop [OF assms(2,3) sorted keys cell])
       (simp_all add: countAt_def statedInside_def r_def accountRollups_def xs_def)
  then have r: "distinct (map fst r)" "\<forall>(k, w) \<in> set r. \<exists>c. (k, c) \<in> set xs \<and> ac_source w = rc_source c \<and> ac_target w = rc_target c"
      "\<forall>(k, c) \<in> set xs. map_of r k = answers floor1 ledger c (statedInside P (map snd r) (rc_source c) (rc_target c))"
    by simp_all
  have ws: "ws = map snd r" by (simp add: ws_def r_def)
  have ends: "fst p = pairKey (ac_source (snd p)) (ac_target (snd p))" if "p \<in> set r" for p
    using r(2) that cell by fastforce
  then have "map fst r = map (\<lambda>(s, t). pairKey s t) (map (\<lambda>w. (ac_source w, ac_target w)) ws)"
    by (simp add: ws)
  then have once: "distinct (map (\<lambda>w. (ac_source w, ac_target w)) ws)" using r(1) by (metis distinct_map)
  have mem: "w \<in> set ws \<longleftrightarrow> (\<exists>s t. cellsAt cells s t \<noteq> [] \<and> answers floor1 ledger (pooled cells s t) (statedInside P ws s t) = Some w)" for w
  proof -
    have "w \<in> set ws \<longleftrightarrow> (\<exists>k. (k, w) \<in> set r)" unfolding ws by force
    also have "\<dots> \<longleftrightarrow> (\<exists>k c. (k, c) \<in> set xs \<and> map_of r k = Some w)"
    proof -
      have "(k, w) \<in> set r \<longleftrightarrow> map_of r k = Some w" for k using r(1) by simp
      moreover have "\<exists>c. (k, c) \<in> set xs" if "(k, w) \<in> set r" for k using r(2) that by blast
      ultimately show ?thesis by blast
    qed
    also have "\<dots> \<longleftrightarrow> (\<exists>k c. (k, c) \<in> set xs \<and> answers floor1 ledger c (statedInside P ws (rc_source c) (rc_target c)) = Some w)"
      using r(3) unfolding ws by fastforce
    also have "\<dots> \<longleftrightarrow> (\<exists>s t. cellsAt cells s t \<noteq> [] \<and> answers floor1 ledger (pooled cells s t) (statedInside P ws s t) = Some w)"
      unfolding at by (metis pooled_ends)
    finally show ?thesis .
  qed
  have ans: "answers floor1 ledger (pooled cells s t) inner = Some w \<longleftrightarrow>
      \<not> (pl_rawCount ledger s t > 0 \<and> pl_state ledger s t = Complete) \<and>
      (let weight = sum_list (map rc_weight (cellsAt cells s t)); raw = int (pl_rawCount ledger s t);
           n = (if floor1 \<and> raw > 0 \<and> inner = 0 then max 1 (weight - raw) else weight - (raw + inner))
       in 0 < n \<and> w = \<lparr>ac_source = s, ac_target = t, ac_count = n,
            ac_kind = (if raw = 0 \<and> inner = 0 then RollupWire else ResidualWire)\<rparr>)" for s t inner w
    by (auto simp: answers_def pooled_def remainder_def spoken_def Let_def split: if_splits)
  show ?thesis unfolding mem ans by (intro conjI once allI, simp only: Let_def)
qed

theorem rollups_are_accounted_inner_first_witness:
  "let P = modelParentOf modelExample; ledger = buildLedger modelExample None (Some []) None;
       cells = [\<lparr>rc_source = ''db'', rc_target = ''bi'', rc_weight = 9\<rparr>, \<lparr>rc_source = ''db'', rc_target = ''r'', rc_weight = 5\<rparr>]
   in containmentAcyclic P \<and>
     \<lparr>ac_source = ''db'', ac_target = ''bi'', ac_count = 4, ac_kind = ResidualWire\<rparr>
       \<in> set (map snd (accountRollups cells ledger P True)) \<and>
     statedInside P (map snd (accountRollups cells ledger P True)) ''db'' ''bi'' = 5"
proof -
  define P where "P = modelParentOf modelExample"
  define ledger where "ledger = buildLedger modelExample None (Some []) None"
  define cells where "cells = [\<lparr>rc_source = ''db'', rc_target = ''bi'', rc_weight = (9::int)\<rparr>,
    \<lparr>rc_source = ''db'', rc_target = ''r'', rc_weight = 5\<rparr>]"
  have hyps: "containmentAcyclic P" "noArrows (map snd P)" "noArrows (map rc_source cells)"
    unfolding P_def cells_def by code_simp+
  have stated: "statedInside P (map snd (accountRollups cells ledger P True)) ''db'' ''bi'' = 5"
    unfolding P_def cells_def ledger_def by code_simp
  have "cellsAt cells ''db'' ''bi'' = [\<lparr>rc_source = ''db'', rc_target = ''bi'', rc_weight = 9\<rparr>]" by (simp add: cells_def cellsAt_def)
  moreover have "pl_rawCount ledger ''db'' ''bi'' = 0" unfolding ledger_def by code_simp
  moreover note all = rollups_are_accounted_inner_first [OF hyps, of ledger True, THEN conjunct2]
  ultimately have "\<lparr>ac_source = ''db'', ac_target = ''bi'', ac_count = 4, ac_kind = ResidualWire\<rparr>
      \<in> set (map snd (accountRollups cells ledger P True))"
    by (intro spec [OF all, THEN iffD2] exI [of _ "''db''"] exI [of _ "''bi''"]) (simp add: stated del: set_map)
  then show ?thesis using hyps(1) stated unfolding P_def ledger_def cells_def by (simp only: Let_def simp_thms)
qed

section \<open>What is drawn\<close>

lemma wireId_inject: "wireId k a = wireId k' b \<longleftrightarrow> k = k' \<and> a = b"
proof
  assume "wireId k a = wireId k' b"
  then have "rev (wireKindName a) @ CHR '':'' # rev k = rev (wireKindName b) @ CHR '':'' # rev k'"
    by (simp add: wireId_def) (metis append.assoc append_Cons append_Nil rev.simps(2) rev_append rev_rev_ident)
  moreover have "CHR '':'' \<notin> set (rev (wireKindName x))" for x by (cases x) (simp_all add: wireKindName_def)
  ultimately have "rev (wireKindName a) = rev (wireKindName b) \<and> rev k = rev k'" by (intro first_split_unique)
  then show "k = k' \<and> a = b" by (cases a; cases b) (auto simp: wireKindName_def)
qed simp

text \<open>Whatever the containment, each pair is stated once, at the ends of one of its cells, and never for nothing.\<close>

definition statementsInv :: "(string \<times> rollup_cell) list \<Rightarrow> (string \<times> accounted) list \<Rightarrow> bool" where
  "statementsInv cs out = (distinct (map fst out) \<and> (\<forall>k w. map_of out k = Some w \<longrightarrow> 0 < ac_count w \<and> ac_kind w \<noteq> RawWire \<and>
     (\<exists>c. (k, c) \<in> set cs \<and> ac_source w = rc_source c \<and> ac_target w = rc_target c)))"

lemma accountCell_statements:
  assumes "statementsInv cs (snd st)" "kc \<in> set cs"
  shows "statementsInv cs (snd (accountCell floor1 ledger P kc st))"
proof -
  obtain k c where kc: "kc = (k, c)" by (cases kc)
  obtain inn out where st: "st = (inn, out)" by (cases st)
  show ?thesis
  proof (cases "answers floor1 ledger c (countAt inn k)")
    case None
    then show ?thesis using assms by (simp add: kc st accountCell_answers)
  next
    case (Some w)
    then have w: "ac_source w = rc_source c" "ac_target w = rc_target c" "0 < ac_count w" "ac_kind w \<noteq> RawWire"
      by (auto simp: answers_def Let_def split: if_splits)
    have "statementsInv cs (AList.update k w out)" unfolding statementsInv_def
    proof (intro conjI allI impI)
      show "distinct (map fst (AList.update k w out))" using assms(1) st by (simp add: statementsInv_def distinct_update)
    next
      fix k' w' assume "map_of (AList.update k w out) k' = Some w'"
      then have "k' = k \<and> w' = w \<or> map_of out k' = Some w'" by (simp add: update_conv' split: if_splits)
      then show "0 < ac_count w'" "ac_kind w' \<noteq> RawWire"
          "\<exists>c. (k', c) \<in> set cs \<and> ac_source w' = rc_source c \<and> ac_target w' = rc_target c"
        using w assms kc st unfolding statementsInv_def by auto
    qed
    then show ?thesis using Some by (simp add: kc st accountCell_answers)
  qed
qed

lemma accountRollups_statements: "statementsInv (fold addCell cells []) (accountRollups cells ledger P floor1)"
proof -
  have "set xs \<subseteq> set cs \<Longrightarrow> statementsInv cs (snd st) \<Longrightarrow> statementsInv cs (snd (fold (accountCell floor1 ledger P) xs st))"
    for xs cs and st :: "(string \<times> int) list \<times> (string \<times> accounted) list"
    by (induction xs arbitrary: st) (simp_all add: accountCell_statements)
  from this [of "innerFirst P (fold addCell cells [])" "fold addCell cells []" "([], [])"]
  show ?thesis by (simp add: accountRollups_def innerFirst_def) (simp add: statementsInv_def)
qed

lemma rollup_statement:
  assumes "noArrows (map rc_source cells)" "(k, w) \<in> set (accountRollups cells ledger P floor1)"
  shows "0 < ac_count w \<and> ac_kind w \<noteq> RawWire \<and> k = pairKey (ac_source w) (ac_target w) \<and>
    (\<exists>c \<in> set cells. rc_source c = ac_source w \<and> rc_target c = ac_target w)"
proof -
  note inv = accountRollups_statements [of cells ledger P floor1]
  then have "map_of (accountRollups cells ledger P floor1) k = Some w"
    using assms(2) by (simp add: statementsInv_def)
  then obtain c where w: "0 < ac_count w" "ac_kind w \<noteq> RawWire" and c: "(k, c) \<in> set (fold addCell cells [])"
      "ac_source w = rc_source c" "ac_target w = rc_target c"
    using inv unfolding statementsInv_def by blast
  note pool = addCell_pools [OF assms(1)]
  have "map_of (fold addCell cells []) k = Some c" using pool c(1) by simp
  then obtain s t where "k = pairKey s t" "cellsAt cells s t \<noteq> []" "c = pooled cells s t" using pool by blast
  then show ?thesis using w c(2,3) by (auto simp: pooled_ends cellsAt_def filter_empty_conv)
qed

definition wireOk :: "lens_subgraph \<Rightarrow> string list \<Rightarrow> trace_wire \<Rightarrow> bool" where
  "wireOk sg visible w = (tw_source w \<in> set visible \<and> tw_target w \<in> set visible \<and>
     \<not> nested (sgParents sg) (tw_source w) (tw_target w) \<and> 0 < tw_edgeCount w \<and>
     tw_id w = wireId (pairKey (tw_source w) (tw_target w)) (tw_kind w))"

lemma raw_wire:
  assumes "noBlanks visible" "w \<in> set (rawWires sg visible ledger)"
  shows "wireOk sg visible w \<and> tw_kind w = RawWire \<and>
    (tw_complete w \<longleftrightarrow> pl_state ledger (tw_source w) (tw_target w) = Complete)"
proof -
  let ?bs = "projectLensEdges sg (map fst (sg_nodes sg)) visible"
  obtain b where b: "b \<in> set ?bs" "\<not> nested (sgParents sg) (pe_sourceUrn b) (pe_targetUrn b)"
      "w = \<lparr>tw_id = wireId (pairKey (pe_sourceUrn b) (pe_targetUrn b)) RawWire, tw_source = pe_sourceUrn b,
        tw_target = pe_targetUrn b, tw_edgeCount = pe_weight b, tw_isBundled = (\<not> pe_isLeafEdge b), tw_kind = RawWire,
        tw_complete = (pl_state ledger (pe_sourceUrn b) (pe_targetUrn b) = Complete), tw_types = pe_edgeTypes b\<rparr>"
    using assms(2) by (auto simp: rawWires_def)
  have "pe_sourceUrn b \<in> set visible \<and> pe_targetUrn b \<in> set visible \<and> 0 < pe_weight b"
    using projection_pairs(2) [OF assms(1)] b(1) by blast
  then show ?thesis using b(2,3) by (simp add: wireOk_def)
qed

lemma raw_ids:
  assumes "noBlanks visible" "noArrows visible"
  shows "distinct (map tw_id (rawWires sg visible ledger))"
proof -
  define raws where "raws = rawWires sg visible ledger"
  note raw = raw_wire [OF assms(1), of _ sg ledger, folded raws_def]
  have "map tw_id raws = map (\<lambda>(s, t). wireId (pairKey s t) RawWire) (map (\<lambda>w. (tw_source w, tw_target w)) raws)"
    using raw by (simp add: wireOk_def)
  moreover have "distinct (map (\<lambda>w. (tw_source w, tw_target w)) raws)"
    using distinct_map_filter [OF projection_pairs(1) [OF assms(1)]] by (simp add: raws_def rawWires_def comp_def)
  moreover have "inj_on (\<lambda>(s, t). wireId (pairKey s t) RawWire) (set (map (\<lambda>w. (tw_source w, tw_target w)) raws))"
    using raw assms(2) by (auto simp: inj_on_def wireId_inject pairKey_inject noArrows_def list_all_iff wireOk_def)
  ultimately show ?thesis unfolding raws_def by (simp only: distinct_map simp_thms)
qed

abbreviation drawnCells :: "lens_subgraph \<Rightarrow> walk_model \<Rightarrow> string list \<Rightarrow> rollup_cell list" where
  "drawnCells sg model visible \<equiv> map (\<lambda>e. \<lparr>rc_source = le_sourceUrn e, rc_target = le_targetUrn e, rc_weight = weightOr1 e\<rparr>)
     (drawnRollups sg model visible)"

lemma rollup_wire:
  assumes "noArrows visible" "w \<in> set (rollupWires sg model visible ledger)"
  shows "wireOk sg visible w \<and> tw_kind w \<noteq> RawWire \<and> \<not> tw_complete w"
proof -
  have arrows: "noArrows (map rc_source (drawnCells sg model visible))"
    using assms(1) by (auto simp: noArrows_def list_all_iff drawnRollups_def)
  obtain k a where ka: "(k, a) \<in> set (accountRollups (drawnCells sg model visible) ledger (sgParents sg) True)"
      "tw_id w = wireId k (ac_kind a)" "tw_source w = ac_source a" "tw_target w = ac_target a"
      "tw_edgeCount w = ac_count a" "tw_kind w = ac_kind a" "\<not> tw_complete w"
    using assms(2) by (auto simp: rollupWires_def Let_def)
  note st = rollup_statement [OF arrows ka(1)]
  then obtain c where "c \<in> set (drawnCells sg model visible)" "rc_source c = ac_source a" "rc_target c = ac_target a" by blast
  then have "ac_source a \<in> set visible \<and> ac_target a \<in> set visible \<and> \<not> nested (sgParents sg) (ac_source a) (ac_target a)"
    by (auto simp: drawnRollups_def)
  then show ?thesis using st ka by (simp add: wireOk_def)
qed

lemma rollup_ids: "distinct (map tw_id (rollupWires sg model visible ledger))"
proof -
  let ?acc = "accountRollups (drawnCells sg model visible) ledger (sgParents sg) True"
  have "map tw_id (rollupWires sg model visible ledger) = map (\<lambda>(k, a). wireId k (ac_kind a)) ?acc"
    by (simp add: rollupWires_def Let_def case_prod_unfold comp_def)
  moreover have "distinct (map fst ?acc)" using accountRollups_statements by (simp add: statementsInv_def)
  then have "distinct ?acc" and inj: "inj_on fst (set ?acc)" by (simp_all add: distinct_map)
  moreover have "inj_on (\<lambda>(k, a). wireId k (ac_kind a)) (set ?acc)"
  proof (rule inj_onI)
    fix p q
    assume pq: "p \<in> set ?acc" "q \<in> set ?acc" "(\<lambda>(k, a). wireId k (ac_kind a)) p = (\<lambda>(k, a). wireId k (ac_kind a)) q"
    then have "fst p = fst q" by (simp add: case_prod_unfold wireId_inject)
    then show "p = q" using inj_onD [OF inj] pq by blast
  qed
  ultimately show ?thesis by (simp only: distinct_map simp_thms)
qed

text \<open>
  The wires between the visible cards are drawn once each and in the order of their ids: every wire joins two
  visible cards neither of which contains the other, stands for at least one flow, and is marked complete only if it is a
  raw wire whose pair the ledger vouches for. It is assumed that the visible URNs hold neither a blank nor the
  separator of the pair keys.
\<close>

lemma trace_wires_are_drawn_once:
  assumes "noBlanks visible" "noArrows visible"
  shows "sorted (map tw_id (buildTraceWires sg model visible ledger)) \<and>
    distinct (map tw_id (buildTraceWires sg model visible ledger)) \<and>
    (\<forall>w \<in> set (buildTraceWires sg model visible ledger). tw_source w \<in> set visible \<and> tw_target w \<in> set visible \<and>
       \<not> nested (sgParents sg) (tw_source w) (tw_target w) \<and> 0 < tw_edgeCount w \<and>
       tw_id w = wireId (pairKey (tw_source w) (tw_target w)) (tw_kind w) \<and>
       (tw_complete w \<longleftrightarrow> tw_kind w = RawWire \<and> pl_state ledger (tw_source w) (tw_target w) = Complete))"
proof -
  define raws where "raws = rawWires sg visible ledger"
  define rolls where "rolls = rollupWires sg model visible ledger"
  note raw = raw_wire [OF assms(1), of _ sg ledger, folded raws_def]
  note roll = rollup_wire [OF assms(2), of _ sg model ledger, folded rolls_def]
  have "tw_id a \<noteq> tw_id b" if "a \<in> set raws" "b \<in> set rolls" for a b
    using raw [OF that(1)] roll [OF that(2)] by (auto simp: wireOk_def wireId_inject)
  then have "set (map tw_id raws) \<inter> set (map tw_id rolls) = {}" by auto
  then have d: "distinct (map tw_id (raws @ rolls))"
    using raw_ids [OF assms] rollup_ids by (simp add: raws_def rolls_def)
  have ws: "buildTraceWires sg model visible ledger = sort_key tw_id (raws @ rolls)"
    by (simp add: buildTraceWires_def raws_def rolls_def)
  have "mset (map tw_id (sort_key tw_id (raws @ rolls))) = mset (map tw_id (raws @ rolls))" by simp
  then have "distinct (map tw_id (sort_key tw_id (raws @ rolls)))" using d by (metis mset_eq_imp_distinct_iff)
  moreover have "w \<in> set raws \<or> w \<in> set rolls" if "w \<in> set (sort_key tw_id (raws @ rolls))" for w using that by simp
  ultimately show ?thesis
    unfolding ws using raw roll sorted_sort_key [of tw_id "raws @ rolls"] unfolding wireOk_def by blast
qed

section \<open>Cards and hosts\<close>

text \<open>The accounting asks a ledger about its cells' pairs only, so the index that holds just those is enough.\<close>

lemma accounting_asks_its_pairs:
  assumes "noArrows (map rc_source cells)"
    and "\<And>c. c \<in> set cells \<Longrightarrow> pl_rawCount L (rc_source c) (rc_target c) = pl_rawCount L' (rc_source c) (rc_target c) \<and>
      pl_state L (rc_source c) (rc_target c) = pl_state L' (rc_source c) (rc_target c)"
  shows "accountRollups cells L P floor1 = accountRollups cells L' P floor1"
proof -
  have "accountCell floor1 L P kc st = accountCell floor1 L' P kc st" if kc: "kc \<in> set (innerFirst P (fold addCell cells []))" for kc st
  proof -
    have "(fst kc, snd kc) \<in> set (fold addCell cells [])" using kc by (simp add: innerFirst_def)
    then have "map_of (fold addCell cells []) (fst kc) = Some (snd kc)"
      by (rule map_of_is_SomeI [OF addCell_pools [OF assms(1), THEN conjunct1]])
    then obtain s t where "cellsAt cells s t \<noteq> []" "snd kc = pooled cells s t" using addCell_pools [OF assms(1)] by blast
    then obtain c where "c \<in> set cells" "rc_source c = rc_source (snd kc)" "rc_target c = rc_target (snd kc)"
      by (auto simp: cellsAt_def filter_empty_conv pooled_ends)
    then show ?thesis using assms(2) [of c] by (simp add: accountCell_def Let_def)
  qed
  then show ?thesis unfolding accountRollups_def by (intro arg_cong [of _ _ snd] fold_cong refl ext)
qed

lemma focusCell_arrows:
  assumes "noArrows (map le_sourceUrn (wm_lineageEdges model))"
  shows "noArrows (map rc_source (focusCells model))"
  using assms by (auto simp: focusCells_def Let_def noArrows_def list_all_iff)

lemma residuals_need_only_asked_pairs:
  assumes "noArrows (map ct_sourceUrn (wm_containmentEdges model))" "noArrows (map le_sourceUrn (wm_lineageEdges model))"
  defines "pairs \<equiv> map (\<lambda>c. (rc_source c, rc_target c)) (focusCells model)"
  shows "accountRollups (focusCells model) (buildLedger model completePairs None (Some pairs)) P floor1 =
    accountRollups (focusCells model) (buildLedger model completePairs None None) P floor1"
proof (rule accounting_asks_its_pairs [OF focusCell_arrows [OF assms(2)]])
  fix c assume c: "c \<in> set (focusCells model)"
  have hops: "noArrows (map le_sourceUrn (case None of None \<Rightarrow> filter (\<lambda>e. \<not> isRollup e) (wm_lineageEdges model) | Some es \<Rightarrow> es))"
    using assms(2) by (auto simp: noArrows_def list_all_iff)
  have "noArrows (map fst pairs)" using focusCell_arrows [OF assms(2)] by (simp add: pairs_def comp_def)
  moreover have "(rc_source c, rc_target c) \<in> set pairs" using c by (auto simp: pairs_def)
  ultimately show "pl_rawCount (buildLedger model completePairs None (Some pairs)) (rc_source c) (rc_target c) =
      pl_rawCount (buildLedger model completePairs None None) (rc_source c) (rc_target c) \<and>
      pl_state (buildLedger model completePairs None (Some pairs)) (rc_source c) (rc_target c) =
      pl_state (buildLedger model completePairs None None) (rc_source c) (rc_target c)"
    using asked_ledger [OF assms(1) hops] by simp
qed

text \<open>A partner of the focus always has something to say, and never contains the focus nor lies inside it.\<close>

lemma residuals_are_partners:
  assumes "noArrows (map le_sourceUrn (wm_lineageEdges model))" "map_of (rollupResiduals model completePairs) far = Some n"
  shows "0 < n \<and> far \<notin> set (ancestorsOrSelf (modelParentOf model) (wm_focusUrn model)) \<and>
    wm_focusUrn model \<notin> set (ancestorsOrSelf (modelParentOf model) far)"
proof -
  let ?P = "modelParentOf model" and ?focus = "wm_focusUrn model"
  let ?ok = "\<lambda>far. far \<notin> set (ancestorsOrSelf ?P ?focus) \<and> ?focus \<notin> set (ancestorsOrSelf ?P far)"
  define farOf where "farOf w = (if ac_source w = ?focus then ac_target w else ac_source w)" for w :: accounted
  define ws where "ws = map snd (accountRollups (focusCells model)
    (buildLedger model completePairs None (Some (map (\<lambda>c. (rc_source c, rc_target c)) (focusCells model)))) ?P False)"
  have w: "0 < ac_count w \<and> ?ok (farOf w)" if inws: "w \<in> set ws" for w
  proof -
    obtain k where "(k, w) \<in> set (accountRollups (focusCells model)
        (buildLedger model completePairs None (Some (map (\<lambda>c. (rc_source c, rc_target c)) (focusCells model)))) ?P False)"
      using inws by (auto simp: ws_def)
    note st = rollup_statement [OF focusCell_arrows [OF assms(1)] this]
    then obtain c where "c \<in> set (focusCells model)" "rc_source c = ac_source w" "rc_target c = ac_target w" by blast
    then have "?ok (if ac_target w = ?focus then ac_source w else ac_target w) \<and> (ac_source w = ?focus \<or> ac_target w = ?focus)"
      by (auto simp: focusCells_def Let_def)
    then show ?thesis using st by (auto simp: farOf_def split: if_splits)
  qed
  have "(\<forall>far n. map_of m far = Some n \<longrightarrow> 0 < n \<and> ?ok far) \<Longrightarrow>
      map_of (fold (\<lambda>w m. AList.update (farOf w) (countAt m (farOf w) + ac_count w) m) ws m) far = Some n \<Longrightarrow> 0 < n \<and> ?ok far"
    for m using w
  proof (induction ws arbitrary: m)
    case (Cons x ws)
    have x: "0 < ac_count x" "?ok (farOf x)" using Cons.prems(3) by auto
    have "0 \<le> countAt m (farOf x)" using Cons.prems(1) by (auto simp: countAt_def split: option.split) (meson less_imp_le)
    then have "\<forall>far n. map_of (AList.update (farOf x) (countAt m (farOf x) + ac_count x) m) far = Some n \<longrightarrow> 0 < n \<and> ?ok far"
      using Cons.prems(1) x by (auto simp: update_conv')
    then show ?case using Cons.IH [of "AList.update (farOf x) (countAt m (farOf x) + ac_count x) m"] Cons.prems(2,3) by simp
  qed simp
  from this [of "[]"] show ?thesis using assms(2) by (simp add: rollupResiduals_def Let_def farOf_def ws_def)
qed

end
