(* ===== verification/Walk_Model.thy ===== *)
theory Walk_Model
  imports Lens_Subgraph
begin

text \<open>
  \<open>src/frontend/src/components/canvas/context-view/lens/closure-adapter.ts\<close>, whole: the conversion of one
  closure response, the accumulation of responses into the walk the lens draws, the union of the
  walks of a selection and its synthetic focus. The result of every function is what
  \<open>buildLensSubgraph\<close> (theory \<open>Lens_Subgraph\<close>) reads.

  A walk node is the flat part of a node with the rest of what the server sent, from which the
  canvas card is made elsewhere. A \<open>Map\<close> is an association list in insertion order and a \<open>Set\<close> the
  list of its elements. \<open>localeCompare\<close> is the collation key it compares by. A property of an edge
  is missing, a number (an integer) or anything else.
\<close>

section \<open>Data\<close>

record walk_node = lens_node +
  wn_payload :: "(string \<times> string) list"

datatype prop_value = Missing | Number int | OtherValue

record graph_edge =
  ge_id :: "string option"
  ge_sourceUrn :: string
  ge_targetUrn :: string
  ge_edgeType :: "string option"
  ge_weight :: prop_value
  ge_count :: prop_value

record closure_frontier =
  cf_urn :: string
  cf_totalCount :: "int option"
  cf_nextCursor :: "string option"
  cf_why :: "frontier_kind option"

datatype page_grain = Fine | Coarse

record closure_response =
  cr_nodes :: "walk_node list"
  cr_edges :: "graph_edge list"
  cr_containmentEdges :: "lens_containment list"
  cr_upstreamUrns :: "string list"
  cr_downstreamUrns :: "string list"
  cr_frontierUp :: "closure_frontier list"
  cr_frontierDown :: "closure_frontier list"
  cr_truncationReason :: "string option"
  cr_seedCursor :: "string option"
  cr_grain :: "page_grain option"

record lens_walk =
  lw_focusUrn :: string
  lw_nodes :: "walk_node list"
  lw_lineageEdges :: "lens_edge list"
  lw_containmentEdges :: "lens_containment list"
  lw_upstreamUrns :: "string list"
  lw_downstreamUrns :: "string list"
  lw_coarseUpstreamUrns :: "string list option"
  lw_coarseDownstreamUrns :: "string list option"
  lw_frontierUp :: "lens_frontier list"
  lw_frontierDown :: "lens_frontier list"
  lw_truncated :: bool
  lw_truncationReason :: "string option"
  lw_seedTruncated :: bool
  lw_seedCursor :: "string option"

datatype walk_direction = DirUp | DirDown | DirBoth

record merge_context =
  mc_rootUrn :: string
  mc_direction :: walk_direction
  mc_clearFrontierRoots :: "string list option"
  mc_authoritative :: "bool option"

section \<open>One response\<close>

definition orJust :: "'a option \<Rightarrow> 'a \<Rightarrow> 'a" where
  "orJust x d = (case x of None \<Rightarrow> d | Some v \<Rightarrow> v)"

lemma orJust_simps [simp]: "orJust None d = d" "orJust (Some v) d = v"
  by (simp_all add: orJust_def)

definition toLensFrontierEntry :: "closure_frontier \<Rightarrow> lens_frontier" where
  "toLensFrontierEntry f =
     \<lparr>lf_urn = cf_urn f, lf_totalCount = cf_totalCount f, lf_nextCursor = cf_nextCursor f,
      lf_kind = Some (orJust (cf_why f) (if truthyStr (cf_nextCursor f) then Cut else Depth))\<rparr>"

definition isOwed :: "string option \<Rightarrow> lens_frontier list \<Rightarrow> lens_frontier list \<Rightarrow> bool" where
  "isOwed seedCursor up down =
     (seedCursor \<noteq> None \<or> list_ex (\<lambda>f. lf_kind f = Some Cut \<or> lf_nextCursor f \<noteq> None) (up @ down))"

definition isFailure :: "string option \<Rightarrow> bool" where
  "isFailure why = (truthyStr why \<and> why \<noteq> Some ''max_nodes'')"

definition emptyWalkModel :: "string \<Rightarrow> lens_walk" where
  "emptyWalkModel focusUrn =
     \<lparr>lw_focusUrn = focusUrn, lw_nodes = [], lw_lineageEdges = [], lw_containmentEdges = [], lw_upstreamUrns = [],
      lw_downstreamUrns = [], lw_coarseUpstreamUrns = Some [], lw_coarseDownstreamUrns = Some [], lw_frontierUp = [],
      lw_frontierDown = [], lw_truncated = False, lw_truncationReason = None, lw_seedTruncated = False, lw_seedCursor = None\<rparr>"

definition toLensEdge :: "graph_edge \<Rightarrow> lens_edge" where
  "toLensEdge e =
     (let rollup = jsUpper (orJust (ge_edgeType e) []) = jsUpper ''AGGREGATED'';
          w = (if ge_weight e = Missing then ge_count e else ge_weight e)
      in \<lparr>le_id = ge_id e, le_sourceUrn = ge_sourceUrn e, le_targetUrn = ge_targetUrn e, le_edgeType = ge_edgeType e,
          le_kind = Some (if rollup then RollupCell else RawHop),
          le_weight = (case w of Number n \<Rightarrow> Some n | _ \<Rightarrow> None)\<rparr>)"

definition toLensClosure :: "closure_response \<Rightarrow> string \<Rightarrow> lens_walk" where
  "toLensClosure res focusUrn =
     (let up = map toLensFrontierEntry (cr_frontierUp res);
          down = map toLensFrontierEntry (cr_frontierDown res);
          partial = isOwed (cr_seedCursor res) up down \<or> isFailure (cr_truncationReason res);
          coarse = cr_grain res = Some Coarse
      in \<lparr>lw_focusUrn = focusUrn, lw_nodes = cr_nodes res, lw_lineageEdges = map toLensEdge (cr_edges res),
          lw_containmentEdges = cr_containmentEdges res,
          lw_upstreamUrns = uniq (if coarse then [] else cr_upstreamUrns res),
          lw_downstreamUrns = uniq (if coarse then [] else cr_downstreamUrns res),
          lw_coarseUpstreamUrns = Some (uniq (if coarse then cr_upstreamUrns res else [])),
          lw_coarseDownstreamUrns = Some (uniq (if coarse then cr_downstreamUrns res else [])),
          lw_frontierUp = up, lw_frontierDown = down,
          lw_truncated = partial,
          lw_truncationReason = (if partial then Some (orJust (cr_truncationReason res) ''max_nodes'') else None),
          lw_seedTruncated = (cr_seedCursor res \<noteq> None),
          lw_seedCursor = cr_seedCursor res\<rparr>)"

section \<open>Accumulating\<close>

definition edgeIdentity :: "lens_edge \<Rightarrow> string" where
  "edgeIdentity e = orJust (le_id e) (le_sourceUrn e @ '' '' @ le_targetUrn e @ '' '' @ orJust (le_edgeType e) [])"

definition containmentKey :: "lens_containment \<Rightarrow> string" where
  "containmentKey e = ct_sourceUrn e @ '' '' @ ct_targetUrn e"

text \<open>The values of a map that is filled from \<open>old\<close> and then from \<open>new\<close>.\<close>

definition keyed :: "('a \<Rightarrow> string) \<Rightarrow> 'a list \<Rightarrow> (string \<times> 'a) list" where
  "keyed k xs = map (\<lambda>x. (k x, x)) xs"

definition unionBy :: "('a \<Rightarrow> string) \<Rightarrow> 'a list \<Rightarrow> 'a list \<Rightarrow> 'a list" where
  "unionBy k old new = map snd (setAll (keyed k new) (setAll (keyed k old) []))"

definition mergeFrontier ::
  "(string \<Rightarrow> int) \<Rightarrow> lens_frontier list \<Rightarrow> lens_frontier list \<Rightarrow> bool \<Rightarrow> string \<Rightarrow> string list \<Rightarrow> lens_frontier list" where
  "mergeFrontier collate existing incoming clearRoot rootUrn clearRoots =
     (let byUrn = setAll (keyed lf_urn existing) [];
          byUrn1 = (if clearRoot then AList.delete rootUrn byUrn else byUrn);
          byUrn2 = delAll clearRoots byUrn1;
          byUrn3 = setAll (keyed lf_urn incoming) byUrn2
      in sort_key (\<lambda>f. collate (lf_urn f)) (map snd byUrn3))"

definition mergeClosures :: "(string \<Rightarrow> int) \<Rightarrow> lens_walk \<Rightarrow> closure_response \<Rightarrow> merge_context \<Rightarrow> lens_walk" where
  "mergeClosures collate model response ctx =
     (let authoritative = orJust (mc_authoritative ctx) True;
          incoming = toLensClosure response (lw_focusUrn model);
          clearUp = (authoritative \<and> (mc_direction ctx = DirUp \<or> mc_direction ctx = DirBoth));
          clearDown = (authoritative \<and> (mc_direction ctx = DirDown \<or> mc_direction ctx = DirBoth));
          clearRoots = orJust (mc_clearFrontierRoots ctx) [];
          frontierUp = mergeFrontier collate (lw_frontierUp model) (lw_frontierUp incoming) clearUp (mc_rootUrn ctx)
            (if clearUp then clearRoots else []);
          frontierDown = mergeFrontier collate (lw_frontierDown model) (lw_frontierDown incoming) clearDown (mc_rootUrn ctx)
            (if clearDown then clearRoots else []);
          seedCursor = (if authoritative \<and> mc_rootUrn ctx = lw_focusUrn model then lw_seedCursor incoming else lw_seedCursor model);
          owed = isOwed seedCursor frontierUp frontierDown;
          failed = isFailure (lw_truncationReason incoming)
      in \<lparr>lw_focusUrn = lw_focusUrn model,
          lw_nodes = unionBy nl_urn (lw_nodes model) (lw_nodes incoming),
          lw_lineageEdges = unionBy edgeIdentity (lw_lineageEdges model) (lw_lineageEdges incoming),
          lw_containmentEdges = unionBy containmentKey (lw_containmentEdges model) (lw_containmentEdges incoming),
          lw_upstreamUrns = uniq (lw_upstreamUrns model @ lw_upstreamUrns incoming),
          lw_downstreamUrns = uniq (lw_downstreamUrns model @ lw_downstreamUrns incoming),
          lw_coarseUpstreamUrns = Some (uniq (orJust (lw_coarseUpstreamUrns model) [] @ orJust (lw_coarseUpstreamUrns incoming) [])),
          lw_coarseDownstreamUrns = Some (uniq (orJust (lw_coarseDownstreamUrns model) [] @ orJust (lw_coarseDownstreamUrns incoming) [])),
          lw_frontierUp = frontierUp, lw_frontierDown = frontierDown,
          lw_truncated = (owed \<or> failed),
          lw_truncationReason =
            (if failed then lw_truncationReason incoming
             else if owed then Some (orJust (lw_truncationReason incoming) (orJust (lw_truncationReason model) ''max_nodes''))
             else None),
          lw_seedTruncated = (seedCursor \<noteq> None),
          lw_seedCursor = seedCursor\<rparr>)"

section \<open>Several walks\<close>

definition nulKey :: "string list \<Rightarrow> string" where
  "nulKey xs = concat (case xs of [] \<Rightarrow> [] | x # rest \<Rightarrow> x # map (\<lambda>y. CHR 0x00 # y) rest)"

definition unionEdgeKey :: "lens_edge \<Rightarrow> string" where
  "unionEdgeKey e = orJust (le_id e) (nulKey [le_sourceUrn e, le_targetUrn e, orJust (le_edgeType e) []])"

definition unionContainmentKey :: "lens_containment \<Rightarrow> string" where
  "unionContainmentKey e = nulKey [ct_sourceUrn e, ct_targetUrn e]"

text \<open>\<open>new Set()\<close> filled by the loop, without the seeds.\<close>

definition partners :: "string list \<Rightarrow> string list list \<Rightarrow> string list" where
  "partners seeds urns = uniq (filter (\<lambda>u. u \<notin> set seeds) (concat urns))"

definition valuesBy :: "('a \<Rightarrow> string) \<Rightarrow> 'a list \<Rightarrow> 'a list" where
  "valuesBy k xs = map snd (setAll (keyed k xs) [])"

definition unionWalkModels :: "lens_walk list \<Rightarrow> lens_walk option" where
  "unionWalkModels models =
     (case models of
        [] \<Rightarrow> None
      | [m] \<Rightarrow> Some m
      | first # _ \<Rightarrow>
          let seeds = map lw_focusUrn models;
              coarseUp = partners seeds (map (\<lambda>m. orJust (lw_coarseUpstreamUrns m) []) models);
              coarseDown = partners seeds (map (\<lambda>m. orJust (lw_coarseDownstreamUrns m) []) models)
          in Some \<lparr>lw_focusUrn = lw_focusUrn first,
               lw_nodes = valuesBy nl_urn (concat (map lw_nodes models)),
               lw_lineageEdges = valuesBy unionEdgeKey (concat (map lw_lineageEdges models)),
               lw_containmentEdges = valuesBy unionContainmentKey (concat (map lw_containmentEdges models)),
               lw_upstreamUrns = partners seeds (map lw_upstreamUrns models),
               lw_downstreamUrns = partners seeds (map lw_downstreamUrns models),
               lw_coarseUpstreamUrns = (if coarseUp \<noteq> [] then Some coarseUp else None),
               lw_coarseDownstreamUrns = (if coarseDown \<noteq> [] then Some coarseDown else None),
               lw_frontierUp = valuesBy lf_urn (concat (map lw_frontierUp models)),
               lw_frontierDown = valuesBy lf_urn (concat (map lw_frontierDown models)),
               lw_truncated = list_ex lw_truncated models,
               lw_truncationReason = Option.bind (find (\<lambda>m. lw_truncationReason m \<noteq> None) models) lw_truncationReason,
               lw_seedTruncated = list_ex lw_seedTruncated models,
               lw_seedCursor = None\<rparr>)"

section \<open>The focus of a selection\<close>

definition SELECTION_FOCUS_PREFIX :: string where
  "SELECTION_FOCUS_PREFIX = ''selection:''"

definition selectionFocusUrn :: "string list \<Rightarrow> string" where
  "selectionFocusUrn memberUrns = SELECTION_FOCUS_PREFIX @ nulKey (sort memberUrns)"

fun splitNul :: "string \<Rightarrow> string list" where
  "splitNul [] = [[]]"
| "splitNul (c # cs) = (if c = CHR 0x00 then [] # splitNul cs else (c # hd (splitNul cs)) # tl (splitNul cs))"

definition selectionMembers :: "string option \<Rightarrow> string list option" where
  "selectionMembers urn =
     (if \<not> truthyStr urn \<or> \<not> prefix SELECTION_FOCUS_PREFIX (the urn) then None
      else let members = filter (\<lambda>u. u \<noteq> []) (splitNul (drop (length SELECTION_FOCUS_PREFIX) (the urn)))
           in if members \<noteq> [] then Some members else None)"

definition withSelectionFocus :: "lens_walk \<Rightarrow> string list \<Rightarrow> string \<Rightarrow> lens_walk" where
  "withSelectionFocus model memberUrns label =
     (let focusUrn = selectionFocusUrn memberUrns;
          present = map nl_urn (lw_nodes model);
          synthetic = \<lparr>nl_urn = focusUrn, nl_displayName = Some label, nl_entityType = Some ''selection'', wn_payload = []\<rparr>
      in model\<lparr>lw_focusUrn := focusUrn,
          lw_nodes := synthetic # lw_nodes model,
          lw_containmentEdges :=
            map (\<lambda>u. \<lparr>ct_sourceUrn = focusUrn, ct_targetUrn = u\<rparr>) (filter (\<lambda>u. u \<in> set present) memberUrns)
            @ filter (\<lambda>e. ct_targetUrn e \<notin> set memberUrns) (lw_containmentEdges model)\<rparr>)"

section \<open>Maps filled twice\<close>

lemma setAll_append: "setAll (a @ b) m = setAll b (setAll a m)"
  by (simp add: setAll_def)

lemma map_of_setAll_rev: "map_of (setAll kvs m) x = (case map_of (rev kvs) x of None \<Rightarrow> map_of m x | Some v \<Rightarrow> Some v)"
  by (induction kvs arbitrary: m) (auto simp: update_conv' map_add_def split: option.splits)

lemma keys_setAll: "fst ` set (setAll kvs m) = fst ` set kvs \<union> fst ` set m"
proof (induction kvs arbitrary: m)
  case (Cons p kvs)
  then show ?case by (cases p) (simp add: AList.dom_update)
qed simp

lemma alist_eqI:
  "map fst a = map fst b \<Longrightarrow> distinct (map fst a) \<Longrightarrow> (\<And>x. map_of a x = map_of b x) \<Longrightarrow> a = b"
proof (induction a arbitrary: b)
  case (Cons p a)
  then obtain q b' where b: "b = q # b'" by (cases b) auto
  obtain k v where p: "p = (k, v)" by fastforce
  have fq: "fst q = k" and rest: "map fst a = map fst b'" using Cons.prems(1) b p by simp_all
  have q: "q = (k, v)" using Cons.prems(3) [of k] b p fq by (cases q) simp
  have nk: "k \<notin> set (map fst a)" using Cons.prems(2) p by simp
  have "map_of a x = map_of b' x" for x
  proof (cases "x = k")
    case True
    then have "map_of a x = None" "map_of b' x = None" using nk rest by (simp_all add: map_of_eq_None_iff flip: set_map)
    then show ?thesis by simp
  next
    case False
    then show ?thesis using Cons.prems(3) [of x] b p q by simp
  qed
  then show ?case using Cons.IH [OF rest] Cons.prems(2) b p q by simp
qed simp

lemma map_fst_setAll_present: "fst ` set kvs \<subseteq> fst ` set m \<Longrightarrow> map fst (setAll kvs m) = map fst m"
proof (induction kvs arbitrary: m)
  case (Cons p kvs)
  obtain k v where p: "p = (k, v)" by fastforce
  have keys: "map fst (AList.update k v m) = map fst m" using Cons.prems p by (simp add: update_keys)
  have "fst ` set kvs \<subseteq> fst ` set (AList.update k v m)" using Cons.prems p by (auto simp: AList.dom_update)
  then show ?case using Cons.IH [of "AList.update k v m"] p keys by simp
qed simp

lemma setAll_twice:
  assumes "distinct (map fst m)"
  shows "setAll kvs (setAll kvs m) = setAll kvs m"
proof (rule alist_eqI)
  show "map fst (setAll kvs (setAll kvs m)) = map fst (setAll kvs m)"
    by (rule map_fst_setAll_present) (simp add: keys_setAll)
  show "distinct (map fst (setAll kvs (setAll kvs m)))" using assms by (simp add: distinct_setAll)
  show "map_of (setAll kvs (setAll kvs m)) x = map_of (setAll kvs m) x" for x
    by (cases "map_of (rev kvs) x") (simp_all add: map_of_setAll_rev)
qed

section \<open>Unions\<close>

definition keysMatch :: "('a \<Rightarrow> string) \<Rightarrow> (string \<times> 'a) list \<Rightarrow> bool" where
  "keysMatch k m \<longleftrightarrow> distinct (map fst m) \<and> (\<forall>(i, x) \<in> set m. i = k x)"

lemma keysMatch_setAll: "keysMatch k m \<Longrightarrow> keysMatch k (setAll (keyed k xs) m)"
proof -
  assume m: "keysMatch k m"
  have d: "distinct (map fst (setAll (keyed k xs) m))" using m by (simp add: keysMatch_def distinct_setAll)
  have "i = k x" if "(i, x) \<in> set (setAll (keyed k xs) m)" for i x
  proof -
    have "map_of (setAll (keyed k xs) m) i = Some x" using d that by (rule map_of_is_SomeI)
    then consider "map_of (rev (keyed k xs)) i = Some x" | "map_of m i = Some x"
      by (auto simp: map_of_setAll_rev split: option.splits)
    then show ?thesis using m by cases (auto dest!: map_of_SomeD simp: keyed_def keysMatch_def)
  qed
  then show ?thesis using d by (auto simp: keysMatch_def)
qed

lemma keysMatch_Nil [simp]: "keysMatch k []"
  by (simp add: keysMatch_def)

lemma keysMatch_keyed: "keysMatch k m \<Longrightarrow> keyed k (map snd m) = m"
  unfolding keysMatch_def keyed_def by (induction m) auto

lemma keyed_values: "keysMatch k m \<Longrightarrow> setAll (keyed k (map snd m)) [] = m"
  using keysMatch_keyed [of k m] setAll_new [of "[]" m] by (simp add: keysMatch_def)

lemma union_match: "keysMatch k (setAll (keyed k new) (setAll (keyed k old) []))"
  by (intro keysMatch_setAll) simp

text \<open>Filling the map again with the new values changes nothing.\<close>

lemma unionBy_twice: "unionBy k (unionBy k old new) new = unionBy k old new"
proof -
  let ?m = "setAll (keyed k new) (setAll (keyed k old) [])"
  have "setAll (keyed k (map snd ?m)) [] = ?m" by (rule keyed_values [OF union_match])
  moreover have "setAll (keyed k new) ?m = ?m" by (rule setAll_twice) (simp add: distinct_setAll)
  ultimately show ?thesis by (simp add: unionBy_def)
qed

lemma unionBy_values: "keysMatch k m \<Longrightarrow> distinct (map k (map snd m))"
proof -
  assume m: "keysMatch k m"
  have "map fst m = map fst (keyed k (map snd m))" by (simp only: keysMatch_keyed [OF m])
  also have "\<dots> = map k (map snd m)" by (simp add: keyed_def)
  finally show ?thesis using m by (simp only: keysMatch_def)
qed

lemma unionBy_distinct: "distinct (map k (unionBy k old new))"
  unfolding unionBy_def by (rule unionBy_values [OF union_match])

lemma unionBy_mem:
  "x \<in> set (unionBy k old new) \<longleftrightarrow> map_of (rev (keyed k (old @ new))) (k x) = Some x"
proof -
  let ?m = "setAll (keyed k new) (setAll (keyed k old) [])"
  have m: "?m = setAll (keyed k (old @ new)) []" by (simp add: keyed_def setAll_append)
  have "x \<in> set (unionBy k old new) \<longleftrightarrow> (k x, x) \<in> set ?m"
    using union_match [of k new old] by (force simp: unionBy_def keysMatch_def)
  also have "\<dots> \<longleftrightarrow> map_of ?m (k x) = Some x"
    using union_match [of k new old] by (simp add: keysMatch_def map_of_eq_Some_iff)
  also have "map_of ?m (k x) = map_of (rev (keyed k (old @ new))) (k x)"
    unfolding m map_of_setAll_rev by (simp split: option.splits)
  finally show ?thesis .
qed

lemma unionBy_keys: "k ` set (unionBy k old new) = k ` set old \<union> k ` set new"
proof -
  let ?m = "setAll (keyed k new) (setAll (keyed k old) [])"
  have "k ` set (unionBy k old new) = fst ` set ?m"
    using union_match [of k new old] by (force simp: unionBy_def keysMatch_def)
  also have "\<dots> = k ` set old \<union> k ` set new" by (auto simp: keys_setAll keyed_def image_iff)
  finally show ?thesis .
qed

text \<open>A new value stays, unless a later one has its key.\<close>

lemma unionBy_new: "distinct (map k new) \<Longrightarrow> x \<in> set new \<Longrightarrow> x \<in> set (unionBy k old new)"
proof -
  assume d: "distinct (map k new)" and x: "x \<in> set new"
  have "distinct (map fst (rev (keyed k new)))" using d by (simp add: keyed_def o_def flip: rev_map)
  moreover have "(k x, x) \<in> set (rev (keyed k new))" using x by (simp add: keyed_def)
  ultimately have "map_of (rev (keyed k new)) (k x) = Some x" by (rule map_of_is_SomeI)
  then show ?thesis by (simp add: unionBy_mem keyed_def map_add_def)
qed

section \<open>The frontier\<close>

definition frontierMap :: "lens_frontier list \<Rightarrow> lens_frontier list \<Rightarrow> bool \<Rightarrow> string \<Rightarrow> string list \<Rightarrow> (string \<times> lens_frontier) list" where
  "frontierMap existing incoming clearRoot rootUrn clearRoots =
     setAll (keyed lf_urn incoming) (delAll clearRoots
       (if clearRoot then AList.delete rootUrn (setAll (keyed lf_urn existing) []) else setAll (keyed lf_urn existing) []))"

lemma mergeFrontier_map:
  "mergeFrontier collate existing incoming clearRoot rootUrn clearRoots
     = sort_key (\<lambda>f. collate (lf_urn f)) (map snd (frontierMap existing incoming clearRoot rootUrn clearRoots))"
  by (simp add: mergeFrontier_def frontierMap_def Let_def)

lemma keysMatch_delete: "keysMatch k m \<Longrightarrow> keysMatch k (AList.delete i m)"
  by (auto simp: keysMatch_def AList.delete_eq distinct_map_filter)

lemma keysMatch_delAll: "keysMatch k m \<Longrightarrow> keysMatch k (delAll is m)"
  unfolding delAll_def by (induction "is" arbitrary: m) (auto intro: keysMatch_delete)

lemma frontier_match: "keysMatch lf_urn (frontierMap existing incoming clearRoot rootUrn clearRoots)"
  unfolding frontierMap_def by (auto intro!: keysMatch_setAll keysMatch_delAll keysMatch_delete)

text \<open>What the response reports for a node wins; what it does not report stays, unless the response
  is authoritative for the node.\<close>

lemma frontier_lookup:
  "map_of (frontierMap existing incoming clearRoot rootUrn clearRoots) u =
     (case map_of (rev (keyed lf_urn incoming)) u of
        Some f \<Rightarrow> Some f
      | None \<Rightarrow> if u \<in> set clearRoots \<or> (clearRoot \<and> u = rootUrn) then None else map_of (rev (keyed lf_urn existing)) u)"
  by (auto simp: frontierMap_def map_of_setAll_rev map_of_delAll delete_conv' split: option.splits)

lemma mem_by_lookup: "keysMatch k m \<Longrightarrow> x \<in> set (map snd m) \<longleftrightarrow> map_of m (k x) = Some x"
proof -
  assume m: "keysMatch k m"
  then have "x \<in> set (map snd m) \<longleftrightarrow> (k x, x) \<in> set m" by (force simp: keysMatch_def)
  then show ?thesis using m by (simp add: keysMatch_def map_of_eq_Some_iff)
qed

lemma frontier_mem:
  "f \<in> set (mergeFrontier collate existing incoming clearRoot rootUrn clearRoots) \<longleftrightarrow>
     map_of (frontierMap existing incoming clearRoot rootUrn clearRoots) (lf_urn f) = Some f"
  using mem_by_lookup [OF frontier_match] by (simp add: mergeFrontier_map)

lemma frontier_distinct: "distinct (map lf_urn (mergeFrontier collate existing incoming clearRoot rootUrn clearRoots))"
proof -
  have "mset (map lf_urn (mergeFrontier collate existing incoming clearRoot rootUrn clearRoots))
      = mset (map lf_urn (map snd (frontierMap existing incoming clearRoot rootUrn clearRoots)))"
    unfolding mergeFrontier_map mset_map mset_sort ..
  then show ?thesis using unionBy_values [OF frontier_match] mset_eq_imp_distinct_iff by blast
qed

lemma lookup_distinct: "distinct (map k xs) \<Longrightarrow> map_of (rev (keyed k xs)) (k x) = Some x \<longleftrightarrow> x \<in> set xs"
proof -
  assume d: "distinct (map k xs)"
  then have "distinct (map fst (rev (keyed k xs)))" by (simp add: keyed_def o_def flip: rev_map)
  then show ?thesis by (simp add: map_of_eq_Some_iff) (auto simp: keyed_def)
qed

lemma lookup_key: "map_of (rev (keyed k xs)) i = Some x \<Longrightarrow> i = k x"
  by (auto dest!: map_of_SomeD simp: keyed_def)

lemma distinct_of_map: "distinct (map f xs) \<Longrightarrow> distinct xs"
  by (simp add: distinct_map)

lemma mergeFrontier_twice:
  assumes "inj_on collate (lf_urn ` (set existing \<union> set incoming))"
  shows "mergeFrontier collate (mergeFrontier collate existing incoming clearRoot rootUrn clearRoots) incoming clearRoot rootUrn clearRoots
    = mergeFrontier collate existing incoming clearRoot rootUrn clearRoots"
proof -
  let ?once = "mergeFrontier collate existing incoming clearRoot rootUrn clearRoots"
  let ?m1 = "frontierMap existing incoming clearRoot rootUrn clearRoots"
  let ?m2 = "frontierMap ?once incoming clearRoot rootUrn clearRoots"
  have look: "map_of (rev (keyed lf_urn ?once)) u = map_of ?m1 u" for u
  proof (cases "map_of ?m1 u")
    case None
    have "u \<notin> lf_urn ` set ?once"
    proof
      assume "u \<in> lf_urn ` set ?once"
      then obtain f where "f \<in> set ?once" "u = lf_urn f" by auto
      then show False using None frontier_mem by (metis option.distinct(1))
    qed
    then have "map_of (rev (keyed lf_urn ?once)) u = None" by (auto simp: map_of_eq_None_iff keyed_def)
    then show ?thesis using None by simp
  next
    case (Some f)
    then have u: "u = lf_urn f" using frontier_match [of existing incoming clearRoot rootUrn clearRoots]
      by (auto dest!: map_of_SomeD simp: keysMatch_def)
    then have "f \<in> set ?once" using Some frontier_mem by blast
    then show ?thesis using Some u lookup_distinct [OF frontier_distinct] by metis
  qed
  have "map_of ?m2 u = map_of ?m1 u" for u
    unfolding frontier_lookup [of ?once] look by (auto simp: frontier_lookup split: option.splits)
  then have "set (map snd ?m2) = set (map snd ?m1)"
    using mem_by_lookup [OF frontier_match] by (intro set_eqI) metis
  moreover have "distinct (map snd ?m2)" "distinct (map snd ?m1)"
    using unionBy_values [OF frontier_match] distinct_of_map by blast+
  ultimately have "mset (map snd ?m2) = mset (map snd ?m1)" by (simp only: set_eq_iff_mset_eq_distinct)
  moreover have "inj_on (\<lambda>f. collate (lf_urn f)) (set (map snd ?m1))"
  proof (rule inj_onI)
    fix f g assume fg: "f \<in> set (map snd ?m1)" "g \<in> set (map snd ?m1)" "collate (lf_urn f) = collate (lf_urn g)"
    have "x \<in> set existing \<union> set incoming" if "x \<in> set (map snd ?m1)" for x
    proof -
      have "map_of ?m1 (lf_urn x) = Some x" using that mem_by_lookup [OF frontier_match] by blast
      then show ?thesis by (auto simp: frontier_lookup keyed_def dest!: map_of_SomeD split: option.splits if_splits)
    qed
    then have "lf_urn f = lf_urn g" using fg assms by (meson imageI inj_onD)
    then show "f = g" using fg(1,2) mem_by_lookup [OF frontier_match] by (metis option.inject)
  qed
  ultimately have "sort_key (\<lambda>f. collate (lf_urn f)) (map snd ?m2) = sort_key (\<lambda>f. collate (lf_urn f)) (map snd ?m1)"
    using sort_key_inj_key_eq [of "map snd ?m2" "sort_key (\<lambda>f. collate (lf_urn f)) (map snd ?m1)" "\<lambda>f. collate (lf_urn f)"]
    by (metis mset_sort set_mset_mset sorted_sort_key)
  then show ?thesis by (simp only: mergeFrontier_map)
qed

section \<open>Merging\<close>

lemma remdups_absorb: "set xs \<subseteq> set ys \<Longrightarrow> remdups (xs @ ys) = remdups ys"
  by (induction xs) auto

lemma uniq_absorb: "set b \<subseteq> set xs \<Longrightarrow> uniq (uniq xs @ b) = uniq xs"
  using remdups_absorb [of "rev b" "remdups (rev xs)"] by (simp add: uniq_def)

text \<open>C33. Merging is idempotent: merging a response a second time, in the same context, changes
  nothing, whatever the walk held before, when no two entries of the frontier collate alike.\<close>

theorem merging_twice_is_merging_once:
  assumes "inj_on collate (lf_urn ` (set (lw_frontierUp model) \<union> set (lw_frontierDown model))
    \<union> cf_urn ` (set (cr_frontierUp response) \<union> set (cr_frontierDown response)))"
  shows "mergeClosures collate (mergeClosures collate model response ctx) response ctx = mergeClosures collate model response ctx"
proof -
  have u: "uniq (uniq (a @ b) @ b) = uniq (a @ b)" for a b :: "string list" by (rule uniq_absorb) simp
  have focus: "lw_focusUrn (mergeClosures collate model response ctx) = lw_focusUrn model"
    by (simp add: mergeClosures_def Let_def)
  have "lf_urn (toLensFrontierEntry f) = cf_urn f" for f by (simp add: toLensFrontierEntry_def)
  then have "inj_on collate (lf_urn ` (set (lw_frontierUp model) \<union> set (lw_frontierUp (toLensClosure response x))))"
      "inj_on collate (lf_urn ` (set (lw_frontierDown model) \<union> set (lw_frontierDown (toLensClosure response x))))" for x
    by (auto intro: inj_on_subset [OF assms] simp: toLensClosure_def Let_def)
  note twice = this [THEN mergeFrontier_twice]
  show ?thesis
    unfolding mergeClosures_def [of collate "mergeClosures collate model response ctx"] focus
    unfolding mergeClosures_def [of collate model] Let_def
    by (simp add: unionBy_twice twice u orJust_def split: option.splits)
qed

text \<open>What holds of the accumulated walk: nothing is held twice, it is truncated exactly when it says
  why, it is when something is owed, and when nothing is owed the reason is a failure.\<close>

definition walkOk :: "lens_walk \<Rightarrow> bool" where
  "walkOk m \<longleftrightarrow>
     distinct (map nl_urn (lw_nodes m)) \<and> distinct (map edgeIdentity (lw_lineageEdges m))
     \<and> distinct (map containmentKey (lw_containmentEdges m))
     \<and> distinct (lw_upstreamUrns m) \<and> distinct (lw_downstreamUrns m)
     \<and> distinct (map lf_urn (lw_frontierUp m)) \<and> distinct (map lf_urn (lw_frontierDown m))
     \<and> (lw_seedTruncated m \<longleftrightarrow> lw_seedCursor m \<noteq> None)
     \<and> (lw_truncated m \<longleftrightarrow> lw_truncationReason m \<noteq> None)
     \<and> (isOwed (lw_seedCursor m) (lw_frontierUp m) (lw_frontierDown m) \<longrightarrow> lw_truncated m)
     \<and> (lw_truncated m \<longrightarrow> isOwed (lw_seedCursor m) (lw_frontierUp m) (lw_frontierDown m) \<or> isFailure (lw_truncationReason m))"

lemma merge_keeps_walkOk: "walkOk (mergeClosures collate model response ctx)"
proof -
  have "isFailure x \<Longrightarrow> x \<noteq> None" for x by (cases x) (simp_all add: isFailure_def)
  then show ?thesis
    unfolding walkOk_def mergeClosures_def Let_def by (simp add: unionBy_distinct frontier_distinct)
qed

lemma empty_walkOk: "walkOk (emptyWalkModel focusUrn)"
  by (simp add: walkOk_def emptyWalkModel_def isOwed_def)

definition accumulate :: "(string \<Rightarrow> int) \<Rightarrow> (closure_response \<times> merge_context) list \<Rightarrow> lens_walk \<Rightarrow> lens_walk" where
  "accumulate collate pages m = fold (\<lambda>(r, ctx) m. mergeClosures collate m r ctx) pages m"

text \<open>Of several values with one key, the last one brought.\<close>

definition lastBrought :: "('a \<Rightarrow> string) \<Rightarrow> 'a list \<Rightarrow> 'a set" where
  "lastBrought k xs = {x. find (\<lambda>y. k y = k x) (rev xs) = Some x}"

lemma lookup_find: "map_of (rev (keyed k xs)) i = find (\<lambda>y. k y = i) (rev xs)"
proof -
  have "map_of (keyed k ys) i = find (\<lambda>y. k y = i) ys" for ys by (induction ys) (auto simp: keyed_def)
  from this [of "rev xs"] show ?thesis by (simp add: keyed_def rev_map)
qed

lemma lastBrought_distinct: "inj_on k (set xs) \<Longrightarrow> lastBrought k xs = set xs"
proof (intro set_eqI iffI)
  fix x
  assume inj: "inj_on k (set xs)" and x: "x \<in> set xs"
  then obtain y where y: "find (\<lambda>y. k y = k x) (rev xs) = Some y" by (cases "find (\<lambda>y. k y = k x) (rev xs)") (auto simp: find_None_iff)
  then have "y = x" using inj x by (auto dest!: find_in_set dest: inj_onD)
  then show "x \<in> lastBrought k xs" using y by (simp add: lastBrought_def)
qed (auto simp: lastBrought_def dest!: find_in_set)

text \<open>Adding a page to what the pages before it left.\<close>

lemma unionBy_last:
  assumes "set old = lastBrought k xs" "distinct (map k old)"
  shows "set (unionBy k old new) = lastBrought k (xs @ new)"
proof -
  have same: "find (\<lambda>y. k y = i) (rev old) = find (\<lambda>y. k y = i) (rev xs)" for i
  proof (cases "find (\<lambda>y. k y = i) (rev xs)")
    case None
    then have "i \<notin> k ` set xs" by (auto simp: find_None_iff)
    then have "i \<notin> k ` set old" using assms(1) by (auto simp: lastBrought_def dest!: find_in_set)
    then have "find (\<lambda>y. k y = i) (rev old) = None" by (auto simp: find_None_iff)
    then show ?thesis using None by simp
  next
    case (Some y)
    then have y: "k y = i" by (auto dest!: find_in_set)
    then have "y \<in> set old" using Some assms(1) by (simp add: lastBrought_def)
    then show ?thesis using lookup_distinct [OF assms(2), of y] Some y by (simp add: lookup_find)
  qed
  have app: "find P (us @ vs) = (case find P us of None \<Rightarrow> find P vs | Some x \<Rightarrow> Some x)" for P and us vs :: "'a list"
    by (induction us) auto
  show ?thesis by (auto simp: unionBy_mem lookup_find lastBrought_def app same split: option.splits)
qed

lemma merge_sets:
  "set (lw_nodes (mergeClosures collate m r ctx)) = set (unionBy nl_urn (lw_nodes m) (cr_nodes r))"
  "set (lw_lineageEdges (mergeClosures collate m r ctx)) = set (unionBy edgeIdentity (lw_lineageEdges m) (map toLensEdge (cr_edges r)))"
  "set (lw_containmentEdges (mergeClosures collate m r ctx)) = set (unionBy containmentKey (lw_containmentEdges m) (cr_containmentEdges r))"
  "set (lw_upstreamUrns (mergeClosures collate m r ctx)) = set (lw_upstreamUrns m) \<union> (if cr_grain r = Some Coarse then {} else set (cr_upstreamUrns r))"
  "set (lw_downstreamUrns (mergeClosures collate m r ctx)) = set (lw_downstreamUrns m) \<union> (if cr_grain r = Some Coarse then {} else set (cr_downstreamUrns r))"
  "lw_focusUrn (mergeClosures collate m r ctx) = lw_focusUrn m"
  by (simp_all add: mergeClosures_def Let_def toLensClosure_def)

definition blankFree :: "lens_containment \<Rightarrow> bool" where
  "blankFree e \<longleftrightarrow> CHR '' '' \<notin> set (ct_sourceUrn e)"

lemma containmentKey_inj: "\<forall>e \<in> A. blankFree e \<Longrightarrow> inj_on containmentKey A"
  by (rule inj_onI, rule lens_containment.equality)
    (auto simp: containmentKey_def blankFree_def dest: first_split_unique)

text \<open>C20. However many pages are merged and in whatever order they come, the walk stays consistent and
  keeps its focus. Of every node, every edge and every containment any page brought it holds exactly one, the last one
  brought, where the code tells them apart: nodes by their URN, edges by their id (or ends and type), containments by their ends
  joined with a blank. So where no container's URN holds a blank, it holds exactly the containments the pages brought. The upstream and
  downstream partners are those of the pages that are not coarse.\<close>

theorem walk_accumulates_every_page:
  "let m = accumulate collate pages (emptyWalkModel focusUrn); rs = map fst pages
   in walkOk m \<and> lw_focusUrn m = focusUrn
      \<and> set (lw_nodes m) = lastBrought nl_urn (concat (map cr_nodes rs))
      \<and> set (lw_lineageEdges m) = lastBrought edgeIdentity (map toLensEdge (concat (map cr_edges rs)))
      \<and> set (lw_containmentEdges m) = lastBrought containmentKey (concat (map cr_containmentEdges rs))
      \<and> ((\<forall>r \<in> set rs. \<forall>e \<in> set (cr_containmentEdges r). blankFree e)
           \<longrightarrow> set (lw_containmentEdges m) = (\<Union>r \<in> set rs. set (cr_containmentEdges r)))
      \<and> set (lw_upstreamUrns m) = (\<Union>r \<in> {r \<in> set rs. cr_grain r \<noteq> Some Coarse}. set (cr_upstreamUrns r))
      \<and> set (lw_downstreamUrns m) = (\<Union>r \<in> {r \<in> set rs. cr_grain r \<noteq> Some Coarse}. set (cr_downstreamUrns r))"
proof -
  let ?m = "\<lambda>pages. accumulate collate pages (emptyWalkModel focusUrn)"
  have all: "walkOk (?m pages) \<and> lw_focusUrn (?m pages) = focusUrn
      \<and> set (lw_nodes (?m pages)) = lastBrought nl_urn (concat (map cr_nodes (map fst pages)))
      \<and> set (lw_lineageEdges (?m pages)) = lastBrought edgeIdentity (map toLensEdge (concat (map cr_edges (map fst pages))))
      \<and> set (lw_containmentEdges (?m pages)) = lastBrought containmentKey (concat (map cr_containmentEdges (map fst pages)))
      \<and> set (lw_upstreamUrns (?m pages)) = (\<Union>r \<in> {r \<in> set (map fst pages). cr_grain r \<noteq> Some Coarse}. set (cr_upstreamUrns r))
      \<and> set (lw_downstreamUrns (?m pages)) = (\<Union>r \<in> {r \<in> set (map fst pages). cr_grain r \<noteq> Some Coarse}. set (cr_downstreamUrns r))"
  proof (induction pages rule: rev_induct)
    case Nil
    then show ?case by (simp add: accumulate_def empty_walkOk lastBrought_def) (simp add: emptyWalkModel_def)
  next
    case (snoc p pages)
    obtain r ctx where p: "p = (r, ctx)" by fastforce
    have step: "?m (pages @ [p]) = mergeClosures collate (?m pages) r ctx" by (simp add: accumulate_def p)
    have ok: "distinct (map nl_urn (lw_nodes (?m pages)))" "distinct (map edgeIdentity (lw_lineageEdges (?m pages)))"
        "distinct (map containmentKey (lw_containmentEdges (?m pages)))"
      using snoc.IH by (simp_all add: walkOk_def)
    show ?case unfolding step
      using snoc.IH ok by (simp add: merge_keeps_walkOk merge_sets unionBy_last p) auto
  qed
  have "lastBrought containmentKey (concat (map cr_containmentEdges (map fst pages))) = (\<Union>r \<in> set (map fst pages). set (cr_containmentEdges r))"
    if "\<forall>r \<in> set (map fst pages). \<forall>e \<in> set (cr_containmentEdges r). blankFree e"
    using that by (subst lastBrought_distinct) (auto intro: containmentKey_inj)
  then show ?thesis using all by (simp only: Let_def) blast
qed

text \<open>A page changes what is owed only where it speaks: an entry of the frontier that it does not
  report again is dropped exactly when the page is authoritative, in that direction, for its node;
  what it reports is there; and the cursor of the focus changes only with an authoritative page of
  the focus.\<close>

lemma page_speaks_only_for_its_anchors:
  assumes "walkOk model" "f \<in> set (lw_frontierUp model)" "lf_urn f \<notin> cf_urn ` set (cr_frontierUp response)"
  shows "(f \<in> set (lw_frontierUp (mergeClosures collate model response ctx)) \<longleftrightarrow>
       \<not> (orJust (mc_authoritative ctx) True \<and> mc_direction ctx \<noteq> DirDown
          \<and> (lf_urn f = mc_rootUrn ctx \<or> lf_urn f \<in> set (orJust (mc_clearFrontierRoots ctx) []))))
    \<and> cf_urn ` set (cr_frontierUp response) \<subseteq> lf_urn ` set (lw_frontierUp (mergeClosures collate model response ctx))
    \<and> (lw_seedCursor (mergeClosures collate model response ctx) = lw_seedCursor model
       \<or> orJust (mc_authoritative ctx) True \<and> mc_rootUrn ctx = lw_focusUrn model)"
proof -
  let ?inc = "map toLensFrontierEntry (cr_frontierUp response)"
  let ?clear = "orJust (mc_authoritative ctx) True \<and> (mc_direction ctx = DirUp \<or> mc_direction ctx = DirBoth)"
  let ?roots = "if ?clear then orJust (mc_clearFrontierRoots ctx) [] else []"
  have up: "lw_frontierUp (mergeClosures collate model response ctx)
      = mergeFrontier collate (lw_frontierUp model) ?inc ?clear (mc_rootUrn ctx) ?roots"
    by (simp add: mergeClosures_def Let_def toLensClosure_def)
  have dir: "mc_direction ctx \<noteq> DirDown \<longleftrightarrow> mc_direction ctx = DirUp \<or> mc_direction ctx = DirBoth"
    by (cases "mc_direction ctx") auto
  have urns: "lf_urn ` set ?inc = cf_urn ` set (cr_frontierUp response)"
    by (simp add: image_image toLensFrontierEntry_def)
  have none: "map_of (rev (keyed lf_urn ?inc)) (lf_urn f) = None"
    using assms(3) urns by (auto simp: map_of_eq_None_iff keyed_def image_image)
  have here: "map_of (rev (keyed lf_urn (lw_frontierUp model))) (lf_urn f) = Some f"
    using assms(1,2) lookup_distinct [of lf_urn "lw_frontierUp model" f] by (simp add: walkOk_def)
  have "f \<in> set (lw_frontierUp (mergeClosures collate model response ctx)) \<longleftrightarrow>
       \<not> (orJust (mc_authoritative ctx) True \<and> mc_direction ctx \<noteq> DirDown
          \<and> (lf_urn f = mc_rootUrn ctx \<or> lf_urn f \<in> set (orJust (mc_clearFrontierRoots ctx) [])))"
    unfolding up frontier_mem frontier_lookup none dir using here by auto
  moreover have "u \<in> lf_urn ` set (lw_frontierUp (mergeClosures collate model response ctx))" if "u \<in> lf_urn ` set ?inc" for u
  proof -
    have "map_of (rev (keyed lf_urn ?inc)) u \<noteq> None" using that by (auto simp: map_of_eq_None_iff keyed_def image_image)
    then obtain g where g: "map_of (rev (keyed lf_urn ?inc)) u = Some g" by blast
    then have "u = lf_urn g" by (rule lookup_key)
    then show ?thesis unfolding up using g frontier_mem [of g] frontier_lookup by (intro image_eqI [of _ _ g]) auto
  qed
  moreover have "lw_seedCursor (mergeClosures collate model response ctx) = lw_seedCursor model
       \<or> orJust (mc_authoritative ctx) True \<and> mc_rootUrn ctx = lw_focusUrn model"
    by (simp add: mergeClosures_def Let_def)
  ultimately show ?thesis using urns by blast
qed

section \<open>Unions and selections\<close>

text \<open>A seed of the selection is nobody's partner in the union, and the union is incomplete when one
  of its walks is.\<close>

lemma union_counts_no_seed:
  assumes "unionWalkModels models = Some u" "2 \<le> length models" "m \<in> set models"
  shows "lw_focusUrn m \<notin> set (lw_upstreamUrns u) \<union> set (lw_downstreamUrns u)"
    and "lw_truncated m \<Longrightarrow> lw_truncated u"
    and "nl_urn ` set (lw_nodes m) \<subseteq> nl_urn ` set (lw_nodes u)"
    and "set (lw_upstreamUrns m) - lw_focusUrn ` set models \<subseteq> set (lw_upstreamUrns u)"
proof -
  obtain a b rest where models: "models = a # b # rest" using assms(2) by (cases models; cases "tl models") auto
  have keys: "k ` set (valuesBy k xs) = k ` set xs" for k :: "'b \<Rightarrow> string" and xs
    using unionBy_keys [of k xs "[]"] by (simp add: valuesBy_def unionBy_def keyed_def)
  have u: "lw_upstreamUrns u = partners (map lw_focusUrn models) (map lw_upstreamUrns models)"
      "lw_downstreamUrns u = partners (map lw_focusUrn models) (map lw_downstreamUrns models)"
      "lw_truncated u \<longleftrightarrow> (\<exists>m \<in> set models. lw_truncated m)"
      "lw_nodes u = valuesBy nl_urn (concat (map lw_nodes models))"
    using assms(1) models by (auto simp: unionWalkModels_def Let_def list_ex_iff)
  show "lw_focusUrn m \<notin> set (lw_upstreamUrns u) \<union> set (lw_downstreamUrns u)" using assms(3) by (auto simp: u partners_def)
  show "lw_truncated m \<Longrightarrow> lw_truncated u" using assms(3) u(3) by blast
  show "nl_urn ` set (lw_nodes m) \<subseteq> nl_urn ` set (lw_nodes u)" using assms(3) by (auto simp: u(4) keys)
  show "set (lw_upstreamUrns m) - lw_focusUrn ` set models \<subseteq> set (lw_upstreamUrns u)"
    using assms(3) by (auto simp: u(1) partners_def)
qed

text \<open>Without an id, an edge is known by its ends joined with a space, and a containment edge always
  is: two pairs whose names hold spaces can be taken for one, and one of them is dropped. The union
  of several walks joins them with the character 0.\<close>

lemma spaces_merge_two_containments:
  defines "e1 \<equiv> \<lparr>ct_sourceUrn = ''a b'', ct_targetUrn = ''c''\<rparr>" and "e2 \<equiv> \<lparr>ct_sourceUrn = ''a'', ct_targetUrn = ''b c''\<rparr>"
  shows "containmentKey e1 = containmentKey e2 \<and> unionContainmentKey e1 \<noteq> unionContainmentKey e2
    \<and> unionBy containmentKey [] [e1, e2] = [e2]"
  unfolding e1_def e2_def by (simp add: containmentKey_def unionContainmentKey_def nulKey_def unionBy_def keyed_def)

lemma splitNul_append: "CHR 0x00 \<notin> set x \<Longrightarrow> splitNul (x @ CHR 0x00 # ys) = x # splitNul ys"
  by (induction x) auto

lemma splitNul_plain: "CHR 0x00 \<notin> set x \<Longrightarrow> splitNul x = [x]"
  by (induction x) auto

lemma splitNul_nulKey: "xs \<noteq> [] \<Longrightarrow> \<forall>x \<in> set xs. CHR 0x00 \<notin> set x \<Longrightarrow> splitNul (nulKey xs) = xs"
proof (induction xs)
  case (Cons x xs)
  show ?case
  proof (cases xs)
    case Nil
    then show ?thesis using Cons.prems(2) by (simp add: nulKey_def splitNul_plain)
  next
    case (Cons y ys)
    then have "nulKey (x # xs) = x @ CHR 0x00 # nulKey xs" by (simp add: nulKey_def)
    then show ?thesis using Cons.IH Cons.prems(2) Cons splitNul_append [of x "nulKey xs"] by simp
  qed
qed simp

text \<open>The focus of a selection names its members: read back, it gives them, in order; and the same
  selection gives the same focus however it was made.\<close>

lemma selection_focus_round_trip:
  assumes "memberUrns \<noteq> []" "\<forall>u \<in> set memberUrns. u \<noteq> [] \<and> CHR 0x00 \<notin> set u"
  shows "selectionMembers (Some (selectionFocusUrn memberUrns)) = Some (sort memberUrns)
    \<and> (\<forall>others. mset others = mset memberUrns \<longrightarrow> selectionFocusUrn others = selectionFocusUrn memberUrns)"
proof -
  have pre: "SELECTION_FOCUS_PREFIX \<noteq> []" by (simp add: SELECTION_FOCUS_PREFIX_def)
  have "sort memberUrns \<noteq> []" using assms(1) by (metis set_empty set_sort)
  then have "splitNul (nulKey (sort memberUrns)) = sort memberUrns" using assms(2) by (intro splitNul_nulKey) auto
  moreover have "filter (\<lambda>u. u \<noteq> []) (sort memberUrns) = sort memberUrns" using assms(2) by (simp add: filter_id_conv)
  ultimately have "selectionMembers (Some (selectionFocusUrn memberUrns)) = Some (sort memberUrns)"
    using \<open>sort memberUrns \<noteq> []\<close> pre
    by (simp add: selectionMembers_def selectionFocusUrn_def)
  moreover have "selectionFocusUrn others = selectionFocusUrn memberUrns" if "mset others = mset memberUrns" for others
  proof -
    have "sort others = sort memberUrns" by (rule properties_for_sort) (simp_all add: that)
    then show ?thesis by (simp only: selectionFocusUrn_def)
  qed
  ultimately show ?thesis by blast
qed

text \<open>Under the synthetic focus, a member the walk holds has the selection for its only parent, and
  everything else keeps its containment.\<close>

lemma selection_owns_its_members:
  "set (lw_containmentEdges (withSelectionFocus model memberUrns label)) =
     {\<lparr>ct_sourceUrn = selectionFocusUrn memberUrns, ct_targetUrn = u\<rparr> | u. u \<in> set memberUrns \<and> u \<in> nl_urn ` set (lw_nodes model)}
     \<union> {e \<in> set (lw_containmentEdges model). ct_targetUrn e \<notin> set memberUrns}"
  by (auto simp: withSelectionFocus_def Let_def)

section \<open>Examples\<close>

definition page_example :: closure_response where
  "page_example =
     \<lparr>cr_nodes = [\<lparr>nl_urn = ''t'', nl_displayName = None, nl_entityType = None, wn_payload = []\<rparr>], cr_edges = [],
      cr_containmentEdges = [], cr_upstreamUrns = [''t''], cr_downstreamUrns = [],
      cr_frontierUp = [\<lparr>cf_urn = ''t'', cf_totalCount = None, cf_nextCursor = Some ''e:9'', cf_why = None\<rparr>],
      cr_frontierDown = [], cr_truncationReason = None, cr_seedCursor = None, cr_grain = Some Fine\<rparr>"

definition context_example :: merge_context where
  "context_example = \<lparr>mc_rootUrn = ''f'', mc_direction = DirUp, mc_clearFrontierRoots = None, mc_authoritative = None\<rparr>"

definition walk_example :: lens_walk where
  "walk_example = (emptyWalkModel ''f'')\<lparr>lw_frontierUp := [\<lparr>lf_urn = ''f'', lf_totalCount = None, lf_nextCursor = None, lf_kind = Some Depth\<rparr>]\<rparr>"

lemma merging_twice_is_merging_once_witness:
  "let once = mergeClosures (\<lambda>u. if u = ''t'' then 1 else 0) walk_example page_example context_example
   in mergeClosures (\<lambda>u. if u = ''t'' then 1 else 0) once page_example context_example = once \<and> map lf_urn (lw_frontierUp once) = [''t'']"
proof -
  have "map lf_urn (lw_frontierUp (mergeClosures (\<lambda>u. if u = ''t'' then 1 else 0) walk_example page_example context_example)) = [''t'']"
    by code_simp
  moreover have "inj_on (\<lambda>u. if u = ''t'' then 1 else 0 :: int) {''f'', ''t''}" by (simp add: inj_on_def)
  then have "inj_on (\<lambda>u. if u = ''t'' then 1 else 0 :: int) (lf_urn ` (set (lw_frontierUp walk_example) \<union> set (lw_frontierDown walk_example))
      \<union> cf_urn ` (set (cr_frontierUp page_example) \<union> set (cr_frontierDown page_example)))"
    by (simp add: walk_example_def emptyWalkModel_def page_example_def insert_commute)
  ultimately show ?thesis using merging_twice_is_merging_once by (simp only: Let_def)
qed

text \<open>Two pages that bring one containment each, both of a node whose payload the second page replaces.\<close>

definition later_page :: closure_response where
  "later_page = page_example\<lparr>
     cr_nodes := [\<lparr>nl_urn = ''t'', nl_displayName = Some ''T'', nl_entityType = None, wn_payload = []\<rparr>],
     cr_containmentEdges := [\<lparr>ct_sourceUrn = ''s'', ct_targetUrn = ''t''\<rparr>]\<rparr>"

lemma walk_accumulates_every_page_witness:
  "let m = accumulate (\<lambda>_. 0)
       [(page_example\<lparr>cr_containmentEdges := [\<lparr>ct_sourceUrn = ''s'', ct_targetUrn = ''u''\<rparr>]\<rparr>, context_example), (later_page, context_example)]
       (emptyWalkModel ''f'')
   in set (lw_containmentEdges m) = {\<lparr>ct_sourceUrn = ''s'', ct_targetUrn = ''u''\<rparr>, \<lparr>ct_sourceUrn = ''s'', ct_targetUrn = ''t''\<rparr>}
      \<and> lw_nodes m = cr_nodes later_page"
proof -
  let ?p = "page_example\<lparr>cr_containmentEdges := [\<lparr>ct_sourceUrn = ''s'', ct_targetUrn = ''u''\<rparr>]\<rparr>"
  let ?m = "accumulate (\<lambda>_. 0) [(?p, context_example), (later_page, context_example)] (emptyWalkModel ''f'')"
  have "set (lw_containmentEdges ?m) = {\<lparr>ct_sourceUrn = ''s'', ct_targetUrn = ''u''\<rparr>, \<lparr>ct_sourceUrn = ''s'', ct_targetUrn = ''t''\<rparr>}"
    using walk_accumulates_every_page [of "\<lambda>_. 0" "[(?p, context_example), (later_page, context_example)]" "''f''"]
    by (auto simp: Let_def blankFree_def later_page_def)
  moreover have "lw_nodes ?m = cr_nodes later_page" by code_simp
  ultimately show ?thesis by (simp only: Let_def)
qed

end
