(* ===== verification/Layer_Fold.thy ===== *)
theory Layer_Fold
  imports Prelude
begin

text \<open>
  \<open>src/frontend/src/components/canvas/context-view/layerFold.ts\<close>, whole: which layer columns of a
  view stay open and how wide the folded ones (the spines) are. A \<open>boolean[]\<close> indexed by column
  is a \<open>bool list\<close>; the indices the loops step through are the lists \<open>beyond\<close> gives; the
  two-sided growth is a loop over the state of its four variables, with its measure. Widths are
  layout pixels, taken as rationals: the rounding of JavaScript's doubles is not modelled. An
  index that the code writes -1 when there is none is \<open>None\<close> inside the computation, and -1 in the
  result.
\<close>

section \<open>Data\<close>

record fold_layer =
  fl_id :: string
  fl_width :: rat

datatype fold_align = AlignStart | AlignCenter

record fold_anchor =
  fa_layerId :: string
  fa_align :: fold_align

record layer_fold =
  lf_folded :: "string list"
  lf_spineWidth :: rat
  lf_first :: int
  lf_last :: int
  lf_overflows :: bool

definition SPINE_MAX :: rat where "SPINE_MAX = 56"
definition SPINE_MIN :: rat where "SPINE_MIN = 24"
definition SPINE_GAP :: rat where "SPINE_GAP = 6"
definition COLUMN_GAP :: rat where "COLUMN_GAP = 48"
definition EXPANDED_COLUMN_MIN_WIDTH :: rat where "EXPANDED_COLUMN_MIN_WIDTH = 320"

lemmas fold_constants = SPINE_MAX_def SPINE_MIN_def SPINE_GAP_def COLUMN_GAP_def

section \<open>Widths\<close>

definition columnWidth :: "fold_layer list \<Rightarrow> bool list \<Rightarrow> rat \<Rightarrow> nat \<Rightarrow> rat" where
  "columnWidth layers opened spineWidth i =
     (if opened ! i then fl_width (layers ! i) else spineWidth)
     + (if 0 < i then (if opened ! i \<or> opened ! (i - 1) then COLUMN_GAP else SPINE_GAP) else 0)"

definition runWidth :: "fold_layer list \<Rightarrow> bool list \<Rightarrow> rat \<Rightarrow> rat" where
  "runWidth layers opened spineWidth = (\<Sum>i\<leftarrow>[0..<length layers]. columnWidth layers opened spineWidth i)"

definition unshut :: "fold_layer list \<Rightarrow> bool list \<Rightarrow> fold_layer list" where
  "unshut layers shut = map fst (filter (\<lambda>(l, s). \<not> s) (zip layers shut))"

definition widestOf :: "fold_layer list \<Rightarrow> bool list \<Rightarrow> rat" where
  "widestOf layers shut =
     (let w = fold (\<lambda>l w. max w (fl_width l)) (unshut layers shut) 0
      in if w = 0 then EXPANDED_COLUMN_MIN_WIDTH else w)"

definition gapsFor :: "nat \<Rightarrow> nat \<Rightarrow> rat" where
  "gapsFor n k = (of_nat k - 1) * COLUMN_GAP + 2 * COLUMN_GAP + max 0 (of_nat n - of_nat k - 2) * SPINE_GAP"

definition room :: "nat \<Rightarrow> rat \<Rightarrow> rat \<Rightarrow> nat \<Rightarrow> rat" where
  "room n available widest k = (available - of_nat k * widest - gapsFor n k) / (of_nat n - of_nat k)"

definition openCount :: "nat \<Rightarrow> rat \<Rightarrow> rat \<Rightarrow> nat \<Rightarrow> nat" where
  "openCount n available widest openable =
     (case find (\<lambda>k. SPINE_MIN \<le> room n available widest k) (rev [2..<Suc (min openable (n - 1))]) of
        None \<Rightarrow> 1 | Some k \<Rightarrow> k)"

definition spineWidthFor :: "fold_layer list \<Rightarrow> rat \<Rightarrow> bool list \<Rightarrow> rat" where
  "spineWidthFor layers available shut =
     (let n = length layers; widest = widestOf layers shut;
          k = openCount n available widest (length (unshut layers shut))
      in if n \<le> k then SPINE_MAX
         else min SPINE_MAX (max SPINE_MIN (of_int \<lfloor>room n available widest k\<rfloor>)))"

section \<open>Opening columns\<close>

definition tryOpen :: "fold_layer list \<Rightarrow> rat \<Rightarrow> rat \<Rightarrow> bool list \<Rightarrow> nat \<Rightarrow> bool \<times> bool list" where
  "tryOpen layers available spineWidth opened i =
     (if runWidth layers (opened[i := True]) spineWidth \<le> available then (True, opened[i := True])
      else (False, opened[i := False]))"

text \<open>The indices a walk from the neighbour of \<open>seed\<close> steps through.\<close>

definition beyond :: "nat \<Rightarrow> nat \<Rightarrow> bool \<Rightarrow> nat list" where
  "beyond n seed rightward = (if rightward then [Suc seed..<n] else rev [0..<seed])"

fun extend :: "fold_layer list \<Rightarrow> rat \<Rightarrow> rat \<Rightarrow> bool list \<Rightarrow> nat list \<Rightarrow> bool list \<Rightarrow> bool \<times> bool list" where
  "extend layers available spineWidth shut [] opened = (True, opened)"
| "extend layers available spineWidth shut (i # is) opened =
     (if shut ! i then extend layers available spineWidth shut is opened
      else case tryOpen layers available spineWidth opened i of
             (True, opened') \<Rightarrow> extend layers available spineWidth shut is opened'
           | (False, opened') \<Rightarrow> (False, opened'))"

definition onlyOpen :: "nat \<Rightarrow> nat \<Rightarrow> bool list" where
  "onlyOpen n seed = (replicate n False)[seed := True]"

definition grow :: "fold_layer list \<Rightarrow> rat \<Rightarrow> rat \<Rightarrow> bool list \<Rightarrow> nat \<Rightarrow> bool \<Rightarrow> bool list" where
  "grow layers available spineWidth shut seed rightward =
     (let n = length layers;
          (ranOut, opened) = extend layers available spineWidth shut (beyond n seed rightward) (onlyOpen n seed)
      in if ranOut then snd (extend layers available spineWidth shut (beyond n seed (\<not> rightward)) opened)
         else opened)"

function skipRight :: "bool list \<Rightarrow> nat \<Rightarrow> nat" where
  "skipRight shut right = (if right < length shut \<and> shut ! right then skipRight shut (Suc right) else right)"
  by auto
termination by (relation "measure (\<lambda>(shut, right). length shut - right)") auto

function skipLeft :: "bool list \<Rightarrow> int \<Rightarrow> int" where
  "skipLeft shut left = (if 0 \<le> left \<and> shut ! nat left then skipLeft shut (left - 1) else left)"
  by auto
termination by (relation "measure (\<lambda>(shut, left). nat (left + 1))") auto

declare skipRight.simps [simp del] skipLeft.simps [simp del]

lemma skipRight_ge: "right \<le> skipRight shut right"
  by (induction shut right rule: skipRight.induct) (subst skipRight.simps, auto)

lemma skipLeft_le: "skipLeft shut left \<le> left"
  by (induction shut left rule: skipLeft.induct) (subst skipLeft.simps, auto)

definition rightTurn :: "fold_layer list \<Rightarrow> rat \<Rightarrow> rat \<Rightarrow> bool list \<Rightarrow> bool list \<Rightarrow> nat \<Rightarrow> bool \<times> bool list \<times> nat" where
  "rightTurn layers available spineWidth shut opened right =
     (let right = skipRight shut right
      in if right < length layers
         then (case tryOpen layers available spineWidth opened right of
                 (True, opened') \<Rightarrow> (False, opened', Suc right)
               | (False, opened') \<Rightarrow> (True, opened', right))
         else (True, opened, right))"

definition leftTurn :: "fold_layer list \<Rightarrow> rat \<Rightarrow> rat \<Rightarrow> bool list \<Rightarrow> bool list \<Rightarrow> int \<Rightarrow> bool \<times> bool list \<times> int" where
  "leftTurn layers available spineWidth shut opened left =
     (let left = skipLeft shut left
      in if 0 \<le> left
         then (case tryOpen layers available spineWidth opened (nat left) of
                 (True, opened') \<Rightarrow> (False, opened', left - 1)
               | (False, opened') \<Rightarrow> (True, opened', left))
         else (True, opened, left))"

lemma rightTurn_moves:
  "(False, opened', right') = rightTurn layers available w shut opened right \<Longrightarrow>
    length layers - right' < length layers - right \<and> right < right' \<and> right' \<le> length layers"
  using skipRight_ge [of right shut] by (auto simp: rightTurn_def Let_def split: if_splits prod.splits bool.splits)

lemma leftTurn_moves:
  "(False, opened', left') = leftTurn layers available w shut opened left \<Longrightarrow>
    nat (left' + 1) < nat (left + 1) \<and> left' < left \<and> -1 \<le> left'"
  using skipLeft_le [of shut left] by (auto simp: leftTurn_def Let_def split: if_splits prod.splits bool.splits)

function aroundLoop :: "fold_layer list \<Rightarrow> rat \<Rightarrow> rat \<Rightarrow> bool list \<Rightarrow> bool list \<Rightarrow> nat \<Rightarrow> int \<Rightarrow> bool \<Rightarrow> bool \<Rightarrow> bool list" where
  "aroundLoop layers available spineWidth shut opened right left rightDone leftDone =
     (if rightDone \<and> leftDone then opened
      else let (rightDone', opened', right') =
                 (if rightDone then (True, opened, right) else rightTurn layers available spineWidth shut opened right);
               (leftDone', opened'', left') =
                 (if leftDone then (True, opened', left) else leftTurn layers available spineWidth shut opened' left)
           in aroundLoop layers available spineWidth shut opened'' right' left' rightDone' leftDone')"
  by auto
termination
  by (relation "measure (\<lambda>(layers, available, w, shut, opened, right, left, rd, ld).
        (if rd then 0 else Suc (length layers - right)) + (if ld then 0 else Suc (nat (left + 1))))")
    (auto dest!: rightTurn_moves leftTurn_moves split: if_splits)

definition growAround :: "fold_layer list \<Rightarrow> rat \<Rightarrow> rat \<Rightarrow> bool list \<Rightarrow> nat \<Rightarrow> bool list" where
  "growAround layers available spineWidth shut seed =
     aroundLoop layers available spineWidth shut (onlyOpen (length layers) seed) (Suc seed) (int seed - 1) False False"

section \<open>The fold\<close>

definition summarise :: "fold_layer list \<Rightarrow> bool list \<Rightarrow> rat \<Rightarrow> bool \<Rightarrow> layer_fold" where
  "summarise layers opened spineWidth overflows =
     (let idx = filter (\<lambda>i. opened ! i) [0..<length opened]
      in \<lparr>lf_folded = uniq (map (\<lambda>i. fl_id (layers ! i)) (filter (\<lambda>i. \<not> opened ! i) [0..<length opened])),
          lf_spineWidth = spineWidth,
          lf_first = (if idx = [] then -1 else int (hd idx)),
          lf_last = (if idx = [] then -1 else int (last idx)),
          lf_overflows = overflows\<rparr>)"

text \<open>The first layer at or after \<open>i\<close> that can open, else the last one before it.\<close>

definition openableAt :: "bool list \<Rightarrow> nat \<Rightarrow> nat option" where
  "openableAt shut i =
     (case find (\<lambda>j. \<not> shut ! j) [i..<length shut] of
        Some j \<Rightarrow> Some j
      | None \<Rightarrow> find (\<lambda>j. \<not> shut ! j) (rev [0..<min (length shut) i]))"

definition layerIndex :: "fold_layer list \<Rightarrow> string \<Rightarrow> nat option" where
  "layerIndex layers layerId = find (\<lambda>i. fl_id (layers ! i) = layerId) [0..<length layers]"

definition lastOpen :: "bool list \<Rightarrow> int" where
  "lastOpen opened = (case find (\<lambda>i. opened ! i) (rev [0..<length opened]) of None \<Rightarrow> -1 | Some i \<Rightarrow> int i)"

definition anchorIndex :: "fold_layer list \<Rightarrow> fold_anchor option \<Rightarrow> nat option" where
  "anchorIndex layers anchor = (case anchor of None \<Rightarrow> None | Some a \<Rightarrow> layerIndex layers (fa_layerId a))"

definition openFrom :: "fold_layer list \<Rightarrow> rat \<Rightarrow> rat \<Rightarrow> bool list \<Rightarrow> fold_anchor option \<Rightarrow> nat \<Rightarrow> bool list" where
  "openFrom layers available spineWidth shut anchor seed =
     (if map_option fa_align anchor = Some AlignCenter \<and> anchorIndex layers anchor \<noteq> None
      then growAround layers available spineWidth shut seed
      else grow layers available spineWidth shut seed True)"

definition slideToKeep :: "fold_layer list \<Rightarrow> rat \<Rightarrow> rat \<Rightarrow> bool list \<Rightarrow> string option \<Rightarrow> bool list \<Rightarrow> bool list" where
  "slideToKeep layers available spineWidth shut keepOpenId opened =
     (case (if truthyStr keepOpenId then layerIndex layers (the keepOpenId) else None) of
        None \<Rightarrow> opened
      | Some keep \<Rightarrow> if \<not> shut ! keep \<and> \<not> opened ! keep
                     then grow layers available spineWidth shut keep (\<not> lastOpen opened < int keep)
                     else opened)"

definition computeLayerFold ::
  "fold_layer list \<Rightarrow> rat \<Rightarrow> fold_anchor option \<Rightarrow> string option \<Rightarrow> string list \<Rightarrow> layer_fold" where
  "computeLayerFold layers available anchor keepOpenId userFolded =
     (let n = length layers;
          shut = map (\<lambda>l. fl_id l \<in> set userFolded) layers;
          allOpen = map Not shut
      in if n = 0 \<or> available \<le> 0 \<or> runWidth layers allOpen SPINE_MAX \<le> available
         then summarise layers allOpen SPINE_MAX False
         else let spineWidth = spineWidthFor layers available shut
              in case openableAt shut (case anchorIndex layers anchor of None \<Rightarrow> 0 | Some i \<Rightarrow> i) of
                   None \<Rightarrow> summarise layers (replicate n False) spineWidth True
                 | Some seed \<Rightarrow>
                     summarise layers
                       (slideToKeep layers available spineWidth shut keepOpenId
                         (openFrom layers available spineWidth shut anchor seed)) spineWidth True)"

section \<open>The window\<close>

text \<open>The open columns are the columns of an interval that are not folded by hand.\<close>

definition window :: "bool list \<Rightarrow> nat \<Rightarrow> nat \<Rightarrow> bool list" where
  "window shut lo hi = map (\<lambda>j. lo \<le> j \<and> j < hi \<and> \<not> shut ! j) [0..<length shut]"

abbreviation fits :: "fold_layer list \<Rightarrow> rat \<Rightarrow> rat \<Rightarrow> bool list \<Rightarrow> bool" where
  "fits layers available spineWidth opened \<equiv> runWidth layers opened spineWidth \<le> available"

lemma length_window [simp]: "length (window shut lo hi) = length shut"
  by (simp add: window_def)

lemma nth_window [simp]: "j < length shut \<Longrightarrow> window shut lo hi ! j \<longleftrightarrow> lo \<le> j \<and> j < hi \<and> \<not> shut ! j"
  by (simp add: window_def)

lemma nth_update: "j < length xs \<Longrightarrow> xs[i := v] ! j = (if j = i then v else xs ! j)"
  by auto

lemma window_right:
  "shut ! hi \<Longrightarrow> window shut lo (Suc hi) = window shut lo hi"
  "\<not> shut ! hi \<Longrightarrow> lo \<le> hi \<Longrightarrow> (window shut lo hi)[hi := True] = window shut lo (Suc hi)"
  "(window shut lo hi)[hi := False] = window shut lo hi"
  by (auto intro!: nth_equalityI simp: nth_update less_Suc_eq split: if_splits)

lemma window_left:
  "shut ! l \<Longrightarrow> window shut (Suc l) hi = window shut l hi"
  "\<not> shut ! l \<Longrightarrow> l < hi \<Longrightarrow> (window shut (Suc l) hi)[l := True] = window shut l hi"
  "(window shut (Suc l) hi)[l := False] = window shut (Suc l) hi"
  by (auto intro!: nth_equalityI simp: nth_update Suc_le_eq le_less split: if_splits)

lemma onlyOpen_window: "\<not> shut ! seed \<Longrightarrow> length shut = n \<Longrightarrow> onlyOpen n seed = window shut seed (Suc seed)"
  by (auto intro!: nth_equalityI simp: onlyOpen_def nth_update split: if_splits)

lemma tryOpen_window:
  "\<not> shut ! hi \<Longrightarrow> lo \<le> hi \<Longrightarrow> tryOpen layers a w (window shut lo hi) hi =
     (if fits layers a w (window shut lo (Suc hi)) then (True, window shut lo (Suc hi)) else (False, window shut lo hi))"
  "\<not> shut ! l \<Longrightarrow> l < hi \<Longrightarrow> tryOpen layers a w (window shut (Suc l) hi) l =
     (if fits layers a w (window shut l hi) then (True, window shut l hi) else (False, window shut (Suc l) hi))"
  by (simp_all add: tryOpen_def window_right window_left)

text \<open>Where the growth of a window to one side stops: at the end of the run, or at a column that
  does not fit.\<close>

definition stuckRight :: "fold_layer list \<Rightarrow> rat \<Rightarrow> rat \<Rightarrow> bool list \<Rightarrow> nat \<Rightarrow> nat \<Rightarrow> bool" where
  "stuckRight layers a w shut lo hi \<longleftrightarrow> hi < length shut \<and> \<not> shut ! hi \<and> \<not> fits layers a w (window shut lo (Suc hi))"

definition stuckLeft :: "fold_layer list \<Rightarrow> rat \<Rightarrow> rat \<Rightarrow> bool list \<Rightarrow> nat \<Rightarrow> nat \<Rightarrow> bool" where
  "stuckLeft layers a w shut lo hi \<longleftrightarrow> (\<exists>l. lo = Suc l \<and> \<not> shut ! l \<and> \<not> fits layers a w (window shut l hi))"

lemma extend_right:
  "lo \<le> h \<Longrightarrow> h \<le> length shut \<Longrightarrow> extend layers a w shut [h..<length shut] (window shut lo h) = (ranOut, opened) \<Longrightarrow>
   \<exists>h'. opened = window shut lo h' \<and> h \<le> h' \<and> h' \<le> length shut
     \<and> (fits layers a w opened \<or> opened = window shut lo h)
     \<and> (if ranOut then h' = length shut else stuckRight layers a w shut lo h')"
proof (induction "length shut - h" arbitrary: h)
  case 0
  then show ?case by auto
next
  case (Suc d)
  then have h: "h < length shut" by simp
  then have upt: "[h..<length shut] = h # [Suc h..<length shut]" by (rule upt_conv_Cons)
  have IH: "extend layers a w shut [Suc h..<length shut] (window shut lo (Suc h)) = (ranOut, opened) \<Longrightarrow> ?case"
    if "fits layers a w (window shut lo (Suc h)) \<or> window shut lo (Suc h) = window shut lo h"
    proof -
    assume run: "extend layers a w shut [Suc h..<length shut] (window shut lo (Suc h)) = (ranOut, opened)"
    have "d = length shut - Suc h" "lo \<le> Suc h" "Suc h \<le> length shut" using Suc.hyps(2) Suc.prems(1) h by auto
    from Suc.hyps(1) [OF this run] obtain h' where "opened = window shut lo h'" "Suc h \<le> h'" "h' \<le> length shut"
        "fits layers a w opened \<or> opened = window shut lo (Suc h)"
        "if ranOut then h' = length shut else stuckRight layers a w shut lo h'"
      by blast
    then show ?case using that by (intro exI [of _ h']) auto
  qed
  show ?case
  proof (cases "shut ! h")
    case True
    then show ?thesis using Suc.prems(3) IH by (simp add: upt window_right(1))
  next
    case False
    show ?thesis
    proof (cases "fits layers a w (window shut lo (Suc h))")
      case True
      then show ?thesis using Suc.prems False IH by (simp add: upt tryOpen_window)
    next
      case nofit: False
      then show ?thesis using Suc.prems False h by (auto simp: upt tryOpen_window stuckRight_def)
    qed
  qed
qed

lemma extend_left:
  "l < hi \<Longrightarrow> extend layers a w shut (rev [0..<l]) (window shut l hi) = (ranOut, opened) \<Longrightarrow>
   \<exists>l'. opened = window shut l' hi \<and> l' \<le> l
     \<and> (fits layers a w opened \<or> opened = window shut l hi)
     \<and> (if ranOut then l' = 0 else stuckLeft layers a w shut l' hi)"
proof (induction l)
  case (Suc l)
  have IH: "extend layers a w shut (rev [0..<l]) (window shut l hi) = (ranOut, opened) \<Longrightarrow> ?case"
    if "fits layers a w (window shut l hi) \<or> window shut l hi = window shut (Suc l) hi"
    proof -
    assume "extend layers a w shut (rev [0..<l]) (window shut l hi) = (ranOut, opened)"
    then obtain l' where "opened = window shut l' hi" "l' \<le> l"
        "fits layers a w opened \<or> opened = window shut l hi"
        "if ranOut then l' = 0 else stuckLeft layers a w shut l' hi"
      using Suc.IH Suc.prems(1) by auto
    then show ?case using that by (intro exI [of _ l']) auto
  qed
  show ?case
  proof (cases "shut ! l")
    case True
    then show ?thesis using Suc.prems(2) IH by (simp add: window_left(1))
  next
    case False
    show ?thesis
    proof (cases "fits layers a w (window shut l hi)")
      case True
      then show ?thesis using Suc.prems False IH by (simp add: tryOpen_window)
    next
      case nofit: False
      then show ?thesis using Suc.prems False by (auto simp: tryOpen_window stuckLeft_def)
    qed
  qed
qed auto

text \<open>What every way of growing a window from a seed gives: the columns of an interval around the
  seed, that fit unless the seed alone does not, and that are the whole run or at least as many as
  are known to fit wherever the window is.\<close>

definition alwaysFit :: "fold_layer list \<Rightarrow> rat \<Rightarrow> rat \<Rightarrow> bool list \<Rightarrow> nat \<Rightarrow> bool" where
  "alwaysFit layers a w shut k \<longleftrightarrow>
     (\<forall>lo hi. lo < hi \<longrightarrow> hi \<le> length shut \<longrightarrow> hi - lo \<le> k \<longrightarrow> fits layers a w (window shut lo hi))"

definition grown :: "fold_layer list \<Rightarrow> rat \<Rightarrow> rat \<Rightarrow> bool list \<Rightarrow> nat \<Rightarrow> nat \<Rightarrow> bool list \<Rightarrow> bool" where
  "grown layers a w shut k seed opened \<longleftrightarrow>
     (\<exists>lo hi. opened = window shut lo hi \<and> lo \<le> seed \<and> seed < hi \<and> hi \<le> length shut
        \<and> (fits layers a w opened \<or> opened = window shut seed (Suc seed))
        \<and> (lo = 0 \<and> hi = length shut \<or> k \<le> hi - lo))"

lemma grownI:
  "opened = window shut lo hi \<Longrightarrow> lo \<le> seed \<Longrightarrow> seed < hi \<Longrightarrow> hi \<le> length shut \<Longrightarrow>
   fits layers a w opened \<or> opened = window shut seed (Suc seed) \<Longrightarrow>
   lo = 0 \<and> hi = length shut \<or> k \<le> hi - lo \<Longrightarrow> grown layers a w shut k seed opened"
  unfolding grown_def by blast

lemma stuck_is_wide:
  assumes "alwaysFit layers a w shut k" "lo < hi" "hi \<le> length shut"
  shows "stuckRight layers a w shut lo hi \<Longrightarrow> k \<le> hi - lo" "stuckLeft layers a w shut lo hi \<Longrightarrow> k \<le> hi - lo"
proof -
  assume st: "stuckRight layers a w shut lo hi"
  show "k \<le> hi - lo"
  proof (rule ccontr)
    assume "\<not> k \<le> hi - lo"
    then have "fits layers a w (window shut lo (Suc hi))"
      using assms(1) [unfolded alwaysFit_def, rule_format, of lo "Suc hi"] assms(2,3) st
      unfolding stuckRight_def by linarith
    then show False using st by (simp add: stuckRight_def)
  qed
next
  assume "stuckLeft layers a w shut lo hi"
  then obtain l where l: "lo = Suc l" "\<not> fits layers a w (window shut l hi)" by (auto simp: stuckLeft_def)
  show "k \<le> hi - lo"
  proof (rule ccontr)
    assume "\<not> k \<le> hi - lo"
    then have "hi - l \<le> k" "l < hi" using l(1) assms(2) by auto
    then show False using assms(1,3) l(2) unfolding alwaysFit_def by blast
  qed
qed

lemma grow_grown:
  assumes seed: "seed < length shut" "\<not> shut ! seed" and len: "length layers = length shut"
    and fit: "alwaysFit layers a w shut k"
  shows "grown layers a w shut k seed (grow layers a w shut seed rightward)"
proof (cases rightward)
  case True
  obtain ranOut o1 where run: "extend layers a w shut [Suc seed..<length shut] (window shut seed (Suc seed)) = (ranOut, o1)"
    by (metis surj_pair)
  from extend_right [OF _ _ this] obtain hi where hi: "o1 = window shut seed hi" "Suc seed \<le> hi" "hi \<le> length shut"
      "fits layers a w o1 \<or> o1 = window shut seed (Suc seed)"
      "if ranOut then hi = length shut else stuckRight layers a w shut seed hi"
    using seed by auto
  show ?thesis
  proof (cases ranOut)
    case False
    then show ?thesis using hi run True seed len stuck_is_wide(1) [OF fit, of seed hi]
      by (auto simp: grow_def beyond_def onlyOpen_window intro!: grownI [of _ _ seed hi])
  next
    case out: True
    then have hi_end: "hi = length shut" using hi(5) by simp
    obtain r2 o2 where run2: "extend layers a w shut (rev [0..<seed]) o1 = (r2, o2)" by (metis surj_pair)
    from extend_left [OF _ this [unfolded hi(1)]] obtain lo where lo: "o2 = window shut lo hi" "lo \<le> seed"
        "fits layers a w o2 \<or> o2 = o1" "if r2 then lo = 0 else stuckLeft layers a w shut lo hi"
      using hi(1,2) by auto
    have "lo = 0 \<or> k \<le> hi - lo" using lo(2,4) hi(2,3) stuck_is_wide(2) [OF fit, of lo hi] by (cases r2) auto
    moreover have "fits layers a w o2 \<or> o2 = window shut seed (Suc seed)" using lo(3) hi(4) by blast
    ultimately have "grown layers a w shut k seed o2" using lo(1,2) hi(2,3) hi_end
      by (intro grownI [of _ _ lo hi]) simp_all
    moreover have "grow layers a w shut seed rightward = o2"
      using run run2 True out seed len by (simp add: grow_def beyond_def onlyOpen_window)
    ultimately show ?thesis by simp
  qed
next
  case False
  obtain ranOut o1 where run: "extend layers a w shut (rev [0..<seed]) (window shut seed (Suc seed)) = (ranOut, o1)"
    by (metis surj_pair)
  from extend_left [OF _ this] obtain lo where lo: "o1 = window shut lo (Suc seed)" "lo \<le> seed"
      "fits layers a w o1 \<or> o1 = window shut seed (Suc seed)"
      "if ranOut then lo = 0 else stuckLeft layers a w shut lo (Suc seed)"
    by auto
  show ?thesis
  proof (cases ranOut)
    case out: False
    then show ?thesis using lo run False seed len stuck_is_wide(2) [OF fit, of lo "Suc seed"]
      by (auto simp: grow_def beyond_def onlyOpen_window intro!: grownI [of _ _ lo "Suc seed"])
  next
    case out: True
    then have lo_end: "lo = 0" using lo(4) by simp
    obtain r2 o2 where run2: "extend layers a w shut [Suc seed..<length shut] o1 = (r2, o2)" by (metis surj_pair)
    from extend_right [OF _ _ this [unfolded lo(1)]] obtain hi where hi: "o2 = window shut lo hi" "Suc seed \<le> hi"
        "hi \<le> length shut" "fits layers a w o2 \<or> o2 = o1" "if r2 then hi = length shut else stuckRight layers a w shut lo hi"
      using lo(1,2) seed by auto
    have "hi = length shut \<or> k \<le> hi - lo" using lo(2) hi(2,3,5) stuck_is_wide(1) [OF fit, of lo hi] by (cases r2) auto
    moreover have "fits layers a w o2 \<or> o2 = window shut seed (Suc seed)" using lo(3) hi(4) by blast
    ultimately have "grown layers a w shut k seed o2" using hi(1,2,3) lo(2) lo_end
      by (intro grownI [of _ _ lo hi]) simp_all
    moreover have "grow layers a w shut seed rightward = o2"
      using run run2 False out seed len by (simp add: grow_def beyond_def onlyOpen_window)
    ultimately show ?thesis by simp
  qed
qed

text \<open>The two-sided growth.\<close>

lemma window_shut_right: "shut ! hi \<Longrightarrow> window shut lo (Suc hi) = window shut lo hi"
  by (rule window_right(1))

lemma skipRight_window:
  "right \<le> length shut \<Longrightarrow> window shut lo (skipRight shut right) = window shut lo right
     \<and> skipRight shut right \<le> length shut
     \<and> (skipRight shut right < length shut \<longrightarrow> \<not> shut ! skipRight shut right)"
proof (induction shut right rule: skipRight.induct)
  case (1 shut right)
  then show ?case
    by (cases "right < length shut \<and> shut ! right") (auto simp: skipRight.simps [of shut right] window_right(1))
qed

lemma skipLeft_window:
  "\<exists>lo'. skipLeft shut (int lo - 1) = int lo' - 1 \<and> lo' \<le> lo \<and> window shut lo' hi = window shut lo hi
     \<and> (\<forall>l. lo' = Suc l \<longrightarrow> \<not> shut ! l)"
proof (induction lo)
  case (Suc l)
  show ?case
  proof (cases "shut ! l")
    case True
    then have "skipLeft shut (int (Suc l) - 1) = skipLeft shut (int l - 1)" by (subst skipLeft.simps) simp
    then show ?thesis using Suc.IH True by (metis le_SucI window_left(1))
  next
    case False
    then show ?thesis by (intro exI [of _ "Suc l"]) (simp add: skipLeft.simps)
  qed
qed (auto simp: skipLeft.simps intro: exI [of _ 0])

lemma rightTurn_window:
  assumes "rightTurn layers a w shut (window shut lo right) right = (rdone, opened, right')"
    and "lo < right" "right \<le> length shut" "length layers = length shut"
  shows "opened = window shut lo right' \<and> right \<le> right' \<and> right' \<le> length shut
    \<and> (fits layers a w opened \<or> opened = window shut lo right)
    \<and> (rdone \<longrightarrow> right' = length shut \<or> stuckRight layers a w shut lo right')"
proof -
  let ?r = "skipRight shut right"
  have r: "window shut lo ?r = window shut lo right" "?r \<le> length shut" "?r < length shut \<longrightarrow> \<not> shut ! ?r"
    using skipRight_window [OF assms(3)] by auto
  have ge: "right \<le> ?r" by (rule skipRight_ge)
  show ?thesis
  proof (cases "?r < length shut")
    case True
    then have "tryOpen layers a w (window shut lo right) ?r =
        (if fits layers a w (window shut lo (Suc ?r)) then (True, window shut lo (Suc ?r)) else (False, window shut lo ?r))"
      using tryOpen_window(1) [of shut ?r lo] r assms(2) ge by simp
    then show ?thesis using assms True ge r(1,3)
      by (auto simp: rightTurn_def Let_def stuckRight_def split: if_splits)
  qed (use assms r ge in \<open>auto simp: rightTurn_def Let_def\<close>)
qed

lemma leftTurn_window:
  assumes "leftTurn layers a w shut (window shut lo hi) (int lo - 1) = (ldone, opened, left')"
    and "lo < hi"
  shows "\<exists>lo'. left' = int lo' - 1 \<and> lo' \<le> lo \<and> opened = window shut lo' hi
    \<and> (fits layers a w opened \<or> opened = window shut lo hi)
    \<and> (ldone \<longrightarrow> lo' = 0 \<or> stuckLeft layers a w shut lo' hi)"
proof -
  obtain lo' where lo': "skipLeft shut (int lo - 1) = int lo' - 1" "lo' \<le> lo"
      "window shut lo' hi = window shut lo hi" "\<And>l. lo' = Suc l \<Longrightarrow> \<not> shut ! l"
    using skipLeft_window [of shut lo hi] by blast
  show ?thesis
  proof (cases lo')
    case 0
    then show ?thesis using assms lo' by (intro exI [of _ 0]) (auto simp: leftTurn_def)
  next
    case (Suc l)
    have "tryOpen layers a w (window shut lo hi) l =
        (if fits layers a w (window shut l hi) then (True, window shut l hi) else (False, window shut (Suc l) hi))"
      using tryOpen_window(2) [of shut l hi] lo' Suc assms(2) by simp
    then show ?thesis using assms(1) lo' Suc
      by (auto simp: leftTurn_def stuckLeft_def split: if_splits intro: exI [of _ l] exI [of _ "Suc l"])
  qed
qed

declare aroundLoop.simps [simp del]

lemma aroundLoop_grown:
  assumes "length layers = length shut" and fit: "alwaysFit layers a w shut k"
    and "opened = window shut lo right" "left = int lo - 1" "lo \<le> seed" "seed < right" "right \<le> length shut"
    and "fits layers a w opened \<or> opened = window shut seed (Suc seed)"
    and "rd \<Longrightarrow> right = length shut \<or> k \<le> right - lo" "ld \<Longrightarrow> lo = 0 \<or> k \<le> right - lo"
  shows "grown layers a w shut k seed (aroundLoop layers a w shut opened right left rd ld)"
  using assms
proof (induction layers a w shut opened right left rd ld arbitrary: lo rule: aroundLoop.induct)
  case (1 layers a w shut opened right left rd ld)
  show ?case
  proof (cases "rd \<and> ld")
    case True
    then show ?thesis using "1.prems" by (subst aroundLoop.simps) (auto intro!: grownI [of _ _ lo right])
  next
    case False
    obtain rd1 o1 r1 where t1: "(if rd then (True, opened, right) else rightTurn layers a w shut opened right) = (rd1, o1, r1)"
      by (metis surj_pair)
    obtain ld1 o2 l1 where t2: "(if ld then (True, o1, left) else leftTurn layers a w shut o1 left) = (ld1, o2, l1)"
      by (metis surj_pair)
    have r1: "o1 = window shut lo r1" "right \<le> r1" "r1 \<le> length shut" "fits layers a w o1 \<or> o1 = opened"
        "rd1 \<Longrightarrow> \<not> rd \<Longrightarrow> r1 = length shut \<or> stuckRight layers a w shut lo r1" "rd \<Longrightarrow> r1 = right \<and> rd1"
      using t1 "1.prems"(1,3,5,6,7) rightTurn_window [of layers a w shut lo right rd1 o1 r1]
      by (auto split: if_splits)
    obtain lo1 where l1: "l1 = int lo1 - 1" "lo1 \<le> lo" "o2 = window shut lo1 r1" "fits layers a w o2 \<or> o2 = o1"
        "ld1 \<Longrightarrow> \<not> ld \<Longrightarrow> lo1 = 0 \<or> stuckLeft layers a w shut lo1 r1" "ld \<Longrightarrow> lo1 = lo \<and> ld1"
    proof (cases ld)
      case True
      then show ?thesis using that [of lo] t2 r1(1) "1.prems"(4) by auto
    next
      case False
      then show ?thesis using that leftTurn_window [of layers a w shut lo r1 ld1 o2 l1] t2 r1(1,2) "1.prems"(4,5,6) by auto
    qed
    have rdone: "r1 = length shut \<or> k \<le> r1 - lo1" if "rd1"
    proof (cases rd)
      case True
      then show ?thesis using "1.prems"(9) r1(6) l1(2) by auto
    next
      case False
      then show ?thesis using r1(2,3,5) that "1.prems"(2,5,6) l1(2)
        stuck_is_wide(1) [of layers a w shut k lo r1] by auto
    qed
    have ldone: "lo1 = 0 \<or> k \<le> r1 - lo1" if "ld1"
    proof (cases ld)
      case True
      then show ?thesis using "1.prems"(10) r1(2) l1(6) by auto
    next
      case False
      then show ?thesis using l1(2,5) that stuck_is_wide(2) [of layers a w shut k lo1 r1] "1.prems"(2,5,6) r1(2,3) by auto
    qed
    have "grown layers a w shut k seed (aroundLoop layers a w shut o2 r1 l1 rd1 ld1)"
      using "1.IH" [OF False t1 [symmetric] refl refl t2 [symmetric] refl refl, of lo1]
        "1.prems"(1,2,5,6,8) "1.prems"(3) r1(1-4) l1(1-4) rdone ldone by fastforce
    then show ?thesis using False t1 t2 by (subst aroundLoop.simps) (simp only: Let_def prod.case if_False)
  qed
qed

lemma openFrom_grown:
  assumes "seed < length shut" "\<not> shut ! seed" "length layers = length shut" "alwaysFit layers a w shut k"
  shows "grown layers a w shut k seed (openFrom layers a w shut anchor seed)"
proof -
  have "grown layers a w shut k seed (growAround layers a w shut seed)"
    unfolding growAround_def onlyOpen_window [OF assms(2) assms(3) [symmetric]] using assms
    by (intro aroundLoop_grown [of _ _ _ _ _ _ seed]) auto
  then show ?thesis using grow_grown [OF assms] by (simp add: openFrom_def)
qed

lemma layerIndex_Some:
  assumes "layerIndex layers x = Some i"
  shows "i < length layers" "fl_id (layers ! i) = x"
  using find_in_set [OF assms [unfolded layerIndex_def]] by auto

lemma layerIndex_distinct:
  "distinct (map fl_id layers) \<Longrightarrow> l \<in> set layers \<Longrightarrow> \<exists>i < length layers. layerIndex layers (fl_id l) = Some i \<and> layers ! i = l"
proof -
  assume d: "distinct (map fl_id layers)" and "l \<in> set layers"
  then obtain j where j: "j < length layers" "layers ! j = l" by (auto simp: in_set_conv_nth)
  then have "layerIndex layers (fl_id l) \<noteq> None" by (auto simp: layerIndex_def find_None_iff)
  then obtain i where i: "layerIndex layers (fl_id l) = Some i" by blast
  have "i = j" using layerIndex_Some [OF i] j d by (metis distinct_conv_nth length_map nth_map)
  then show ?thesis using i j by blast
qed

lemma openableAt_Some:
  assumes "openableAt shut i = Some j"
  shows "j < length shut" "\<not> shut ! j"
  using assms find_in_set [of "\<lambda>j. \<not> shut ! j" "[i..<length shut]" j]
    find_in_set [of "\<lambda>j. \<not> shut ! j" "rev [0..<min (length shut) i]" j]
  by (auto simp: openableAt_def split: option.splits)

lemma openableAt_None:
  assumes "openableAt shut i = None" "j < length shut"
  shows "shut ! j"
  using assms by (cases "i \<le> j") (auto simp: openableAt_def find_None_iff split: option.splits)

lemma openableAt_at: "i < length shut \<Longrightarrow> \<not> shut ! i \<Longrightarrow> openableAt shut i = Some i"
  by (simp add: openableAt_def upt_conv_Cons)

definition handFolded :: "fold_layer list \<Rightarrow> string list \<Rightarrow> bool list" where
  "handFolded layers userFolded = map (\<lambda>l. fl_id l \<in> set userFolded) layers"

definition openColumns :: "fold_layer list \<Rightarrow> layer_fold \<Rightarrow> bool list" where
  "openColumns layers r = map (\<lambda>l. fl_id l \<notin> set (lf_folded r)) layers"

lemma openColumns_summarise:
  assumes "distinct (map fl_id layers)" "length opened = length layers"
  shows "openColumns layers (summarise layers opened w ov) = opened"
proof (rule nth_equalityI)
  fix i assume "i < length (openColumns layers (summarise layers opened w ov))"
  then have i: "i < length layers" by (simp add: openColumns_def)
  have "fl_id (layers ! i) \<in> set (lf_folded (summarise layers opened w ov)) \<longleftrightarrow> (\<exists>j < length layers. \<not> opened ! j \<and> fl_id (layers ! j) = fl_id (layers ! i))"
    using assms(2) by (auto simp: summarise_def Let_def image_iff)
  also have "\<dots> \<longleftrightarrow> \<not> opened ! i" using assms(1) i by (auto simp: distinct_conv_nth nth_eq_iff_index_eq)
  finally show "openColumns layers (summarise layers opened w ov) ! i = opened ! i" using i by (simp add: openColumns_def)
qed (simp add: openColumns_def assms(2))

text \<open>The results of the fold: everything that is not folded by hand, nothing, or a grown window.\<close>

lemma computeLayerFold_cases:
  fixes layers a anchor keepOpenId userFolded
  assumes "distinct (map fl_id layers)"
  defines "r \<equiv> computeLayerFold layers a anchor keepOpenId userFolded" and "shut \<equiv> handFolded layers userFolded"
  shows "r = summarise layers (openColumns layers r) (lf_spineWidth r) (lf_overflows r)
    \<and> ((\<not> lf_overflows r \<and> openColumns layers r = map Not shut \<and> lf_spineWidth r = SPINE_MAX
            \<and> (layers = [] \<or> a \<le> 0 \<or> runWidth layers (map Not shut) SPINE_MAX \<le> a))
    \<or> (lf_overflows r \<and> openColumns layers r = replicate (length layers) False
            \<and> (\<forall>i < length layers. shut ! i))
    \<or> (\<exists>seed < length layers. lf_overflows r \<and> lf_spineWidth r = spineWidthFor layers a shut \<and> \<not> shut ! seed
        \<and> (\<forall>k. alwaysFit layers a (spineWidthFor layers a shut) shut k \<longrightarrow>
               grown layers a (spineWidthFor layers a shut) shut k seed (openColumns layers r))))"
proof -
  let ?w = "spineWidthFor layers a shut"
  let ?opened = "\<lambda>seed. slideToKeep layers a ?w shut keepOpenId (openFrom layers a ?w shut anchor seed)"
  have len: "length shut = length layers" by (simp add: shut_def handFolded_def)
  have cols: "openColumns layers (summarise layers opened w ov) = opened" if "length opened = length layers" for opened w ov
    using openColumns_summarise [OF assms(1) that] .
  have flags: "lf_overflows (summarise layers opened w ov) = ov" "lf_spineWidth (summarise layers opened w ov) = w"
    for opened w ov by (simp_all add: summarise_def Let_def)
  show ?thesis
  proof (cases "length layers = 0 \<or> a \<le> 0 \<or> runWidth layers (map Not shut) SPINE_MAX \<le> a")
    case True
    then have "r = summarise layers (map Not shut) SPINE_MAX False"
      by (simp add: r_def computeLayerFold_def shut_def handFolded_def)
    then show ?thesis using True cols [of "map Not shut"] flags len by auto
  next
    case ov: False
    let ?at = "openableAt shut (case anchorIndex layers anchor of None \<Rightarrow> 0 | Some i \<Rightarrow> i)"
    have r: "r = (case ?at of None \<Rightarrow> summarise layers (replicate (length layers) False) ?w True
        | Some seed \<Rightarrow> summarise layers (?opened seed) ?w True)"
      using ov unfolding r_def computeLayerFold_def Let_def shut_def handFolded_def by (simp only: if_False)
    show ?thesis
    proof (cases ?at)
      case None
      then show ?thesis using r cols flags openableAt_None [OF None] len by auto
    next
      case (Some seed)
      have seed: "seed < length shut" "\<not> shut ! seed" by (rule openableAt_Some [OF Some])+
      have "\<exists>s < length layers. \<not> shut ! s \<and> length (?opened seed) = length layers
          \<and> (\<forall>k. alwaysFit layers a ?w shut k \<longrightarrow> grown layers a ?w shut k s (?opened seed))"
      proof (cases "?opened seed = openFrom layers a ?w shut anchor seed")
        case True
        have g: "alwaysFit layers a ?w shut k \<Longrightarrow> grown layers a ?w shut k seed (?opened seed)" for k
          unfolding True using openFrom_grown [OF seed len [symmetric]] .
        moreover have "length (?opened seed) = length layers"
          using g [of 0] len by (auto simp: alwaysFit_def grown_def)
        ultimately show ?thesis using seed len by auto
      next
        case False
        then obtain keep d where keep: "layerIndex layers (the keepOpenId) = Some keep" "\<not> shut ! keep"
            "?opened seed = grow layers a ?w shut keep d"
          by (auto simp: slideToKeep_def split: option.splits if_splits)
        note keep = layerIndex_Some(1) [OF keep(1), folded len] keep(2,3)
        have g: "alwaysFit layers a ?w shut k \<Longrightarrow> grown layers a ?w shut k keep (?opened seed)" for k
          unfolding keep(3) using grow_grown [OF keep(1,2) len [symmetric]] .
        moreover have "length (?opened seed) = length layers"
          using g [of 0] len by (auto simp: alwaysFit_def grown_def)
        ultimately show ?thesis using keep len by auto
      qed
      then show ?thesis using r Some cols flags by auto
    qed
  qed
qed

text \<open>The width the spines are given: a window of \<open>k\<close> of the widest columns fits wherever it is.\<close>

lemma runWidth_sum: "runWidth layers opened w = (\<Sum>i\<in>{0..<length layers}. columnWidth layers opened w i)"
  by (simp add: runWidth_def interv_sum_list_conv_sum_set_nat)

lemma sum_if_card: "finite A \<Longrightarrow> (\<Sum>i\<in>A. if P i then x else y) = of_nat (card {i \<in> A. P i}) * x + (of_nat (card A) - of_nat (card {i \<in> A. P i})) * (y :: rat)"
proof -
  assume A: "finite A"
  have "card A = card {i \<in> A. P i} + card {i \<in> A. \<not> P i}"
    using A by (subst card_Un_disjoint [symmetric]) (auto intro: arg_cong [of _ _ card])
  then show ?thesis using A by (simp add: sum.If_cases Int_def algebra_simps)
qed

lemma window_width:
  assumes le: "\<And>i. i < length layers \<Longrightarrow> fl_width (layers ! i) \<le> widest" and len: "length shut = length layers"
    and win: "lo < hi" "hi \<le> length shut"
  shows "runWidth layers (window shut lo hi) w \<le>
    of_nat (hi - lo) * max widest w + (of_nat (length layers) - of_nat (hi - lo)) * w
      + (of_nat (length layers) - 1) * SPINE_GAP + of_nat (min (Suc (hi - lo)) (length layers - 1)) * (COLUMN_GAP - SPINE_GAP)"
proof -
  let ?n = "length layers"
  have "columnWidth layers (window shut lo hi) w i
      \<le> (if lo \<le> i \<and> i < hi then max widest w else w) + (if 0 < i then (if lo \<le> i \<and> i \<le> hi then COLUMN_GAP else SPINE_GAP) else 0)"
    if i: "i < ?n" for i
    using le [OF i] len i by (auto simp: columnWidth_def fold_constants intro: order_trans max.cobounded1)
  then have "runWidth layers (window shut lo hi) w \<le> (\<Sum>i\<in>{0..<?n}.
      (if lo \<le> i \<and> i < hi then max widest w else w) + (if 0 < i then (if lo \<le> i \<and> i \<le> hi then COLUMN_GAP else SPINE_GAP) else 0))"
    unfolding runWidth_sum by (intro sum_mono) simp
  also have "\<dots> = (\<Sum>i\<in>{0..<?n}. if lo \<le> i \<and> i < hi then max widest w else w)
      + (\<Sum>i\<in>{1..<?n}. if lo \<le> i \<and> i \<le> hi then COLUMN_GAP else SPINE_GAP)"
    unfolding sum.distrib by (intro arg_cong2 [of _ _ _ _ plus] refl sum.mono_neutral_cong_right) auto
  also have "(\<Sum>i\<in>{0..<?n}. if lo \<le> i \<and> i < hi then max widest w else w)
      = of_nat (hi - lo) * max widest w + (of_nat ?n - of_nat (hi - lo)) * w"
  proof -
    have "{i \<in> {0..<?n}. lo \<le> i \<and> i < hi} = {lo..<hi}" using win len by auto
    then show ?thesis by (simp add: sum_if_card)
  qed
  also have "(\<Sum>i\<in>{1..<?n}. if lo \<le> i \<and> i \<le> hi then COLUMN_GAP else SPINE_GAP)
      \<le> (of_nat ?n - 1) * SPINE_GAP + of_nat (min (Suc (hi - lo)) (?n - 1)) * (COLUMN_GAP - SPINE_GAP)"
  proof -
    let ?B = "{i \<in> {1..<?n}. lo \<le> i \<and> i \<le> hi}"
    have "card ?B \<le> card {lo..hi}" "card ?B \<le> card {1..<?n}" by (intro card_mono; auto)+
    then have b: "card ?B \<le> min (Suc (hi - lo)) (?n - 1)" using win by (simp add: Suc_diff_le)
    have "(\<Sum>i\<in>{1..<?n}. if lo \<le> i \<and> i \<le> hi then COLUMN_GAP else SPINE_GAP)
        = of_nat (card ?B) * COLUMN_GAP + (of_nat (?n - 1) - of_nat (card ?B)) * SPINE_GAP"
      by (subst sum_if_card) simp_all
    also have "\<dots> = of_nat (?n - 1) * SPINE_GAP + of_nat (card ?B) * (COLUMN_GAP - SPINE_GAP)" by (simp add: algebra_simps)
    also have "\<dots> \<le> (of_nat ?n - 1) * SPINE_GAP + of_nat (min (Suc (hi - lo)) (?n - 1)) * (COLUMN_GAP - SPINE_GAP)"
      using b win len by (intro add_mono mult_right_mono) (auto simp: fold_constants of_nat_diff)
    finally show ?thesis .
  qed
  finally show ?thesis by simp
qed

lemma unshut_all: "length shut = length layers \<Longrightarrow> \<forall>i < length layers. \<not> shut ! i \<Longrightarrow> unshut layers shut = layers"
proof (induction layers arbitrary: shut)
  case (Cons l layers)
  then obtain s shut' where shut: "shut = s # shut'" by (cases shut) auto
  have "\<not> s" "\<forall>i < length layers. \<not> shut' ! i" using Cons.prems(2) shut by force+
  then show ?case using Cons.IH [of shut'] Cons.prems(1) shut by (simp add: unshut_def)
qed (simp add: unshut_def)

lemma widestOf_ge:
  assumes "length shut = length layers" "\<forall>i < length layers. \<not> shut ! i" "l \<in> set layers"
  shows "fl_width l \<le> widestOf layers shut"
  using fold_max_ge [OF assms(3), of fl_width 0]
  by (auto simp: widestOf_def unshut_all [OF assms(1,2)] Let_def EXPANDED_COLUMN_MIN_WIDTH_def)

lemma openCount_room:
  assumes "openCount n a widest m \<noteq> 1"
  shows "SPINE_MIN \<le> room n a widest (openCount n a widest m)" "openCount n a widest m < n"
    "openCount n a widest m \<le> m"
proof -
  obtain k where k: "find (\<lambda>k. SPINE_MIN \<le> room n a widest k) (rev [2..<Suc (min m (n - 1))]) = Some k"
    using assms by (auto simp: openCount_def split: option.splits)
  then have "openCount n a widest m = k" by (simp add: openCount_def)
  then show "SPINE_MIN \<le> room n a widest (openCount n a widest m)" "openCount n a widest m < n"
    "openCount n a widest m \<le> m" using find_in_set [OF k] by auto
qed

lemma spine_width_bounds:
  "SPINE_MIN \<le> spineWidthFor layers a shut \<and> spineWidthFor layers a shut \<le> SPINE_MAX"
  by (auto simp: spineWidthFor_def Let_def fold_constants)

lemma promised_windows_fit:
  fixes layers shut a
  assumes len: "length shut = length layers" and none: "\<forall>i < length layers. \<not> shut ! i"
    and wide: "\<forall>l \<in> set layers. SPINE_MAX \<le> fl_width l"
  defines "k \<equiv> openCount (length layers) a (widestOf layers shut) (length layers)"
  assumes k: "k \<noteq> 1"
  shows "alwaysFit layers a (spineWidthFor layers a shut) shut k"
proof -
  let ?n = "length layers" and ?W = "widestOf layers shut" and ?w = "spineWidthFor layers a shut"
  let ?R = "room (length layers) a (widestOf layers shut) k"
  have R: "SPINE_MIN \<le> ?R" "k < ?n" using openCount_room [of ?n a ?W ?n] k unfolding k_def by auto
  have w: "?w = min SPINE_MAX (max SPINE_MIN (of_int \<lfloor>?R\<rfloor>))"
    using R(2) by (simp add: spineWidthFor_def Let_def k_def unshut_all [OF len none])
  have fl: "SPINE_MIN \<le> (of_int \<lfloor>?R\<rfloor> :: rat)" using R(1) by (simp add: fold_constants le_floor_iff)
  have "?w \<le> of_int \<lfloor>?R\<rfloor>" unfolding w using fl by simp
  then have wR: "?w \<le> ?R" by (meson of_int_floor_le order_trans)
  have W: "?w \<le> ?W"
  proof -
    obtain l where "l \<in> set layers" using R(2) by (cases layers) auto
    then show ?thesis using wide widestOf_ge [OF len none] spine_width_bounds [of layers a shut] by (meson order_trans)
  qed
  have roomy: "of_nat k * ?W + gapsFor ?n k + (of_nat ?n - of_nat k) * ?w \<le> a"
  proof -
    have pos: "(0 :: rat) < of_nat ?n - of_nat k" using R(2) by simp
    have "(of_nat ?n - of_nat k) * ?w \<le> (of_nat ?n - of_nat k) * ?R" using wR pos by (intro mult_left_mono) auto
    also have "\<dots> = a - of_nat k * ?W - gapsFor ?n k" using pos by (simp add: room_def)
    finally show ?thesis by simp
  qed
  have "fits layers a ?w (window shut lo hi)" if win: "lo < hi" "hi \<le> length shut" "hi - lo \<le> k" for lo hi
  proof -
    let ?m = "hi - lo"
    have mk: "of_nat ?m \<le> (of_nat k :: rat)" using win(3) by (simp only: of_nat_le_iff)
    have "of_nat ?m * (?W - ?w) \<le> of_nat k * (?W - ?w)" using mk W by (intro mult_right_mono) auto
    moreover have "(of_nat ?n - 1) * SPINE_GAP + of_nat (min (Suc ?m) (?n - 1)) * (COLUMN_GAP - SPINE_GAP) \<le> gapsFor ?n k"
    proof -
      have "of_nat (min (Suc ?m) (?n - 1)) \<le> (of_nat (min (Suc k) (?n - 1)) :: rat)"
        using win(3) by (simp only: of_nat_le_iff)
      then have "of_nat (min (Suc ?m) (?n - 1)) * (42 :: rat) \<le> of_nat (min (Suc k) (?n - 1)) * 42" by (intro mult_right_mono) auto
      moreover have "(of_nat ?n - 1) * 6 + of_nat (min (Suc k) (?n - 1)) * 42 \<le> gapsFor ?n k"
      proof (cases "Suc k < ?n")
        case True
        then have "(of_nat (Suc (Suc k)) :: rat) \<le> of_nat ?n" by (simp only: of_nat_le_iff)
        then show ?thesis using True by (simp add: gapsFor_def fold_constants min_def)
      next
        case False
        then have "?n = Suc k" using R(2) by simp
        then show ?thesis by (simp add: gapsFor_def fold_constants)
      qed
      moreover have "COLUMN_GAP - SPINE_GAP = 42" "SPINE_GAP = 6" by (simp_all add: fold_constants)
      ultimately show ?thesis by (simp only:)
    qed
    moreover have "runWidth layers (window shut lo hi) ?w \<le> of_nat ?m * ?W + (of_nat ?n - of_nat ?m) * ?w
        + (of_nat ?n - 1) * SPINE_GAP + of_nat (min (Suc ?m) (?n - 1)) * (COLUMN_GAP - SPINE_GAP)"
      using window_width [of layers ?W shut lo hi ?w] widestOf_ge [OF len none] len win W by (simp add: max_def)
    ultimately show ?thesis using roomy by (simp add: algebra_simps)
  qed
  then show ?thesis unfolding alwaysFit_def by blast
qed

section \<open>Properties\<close>

lemma count_window_card:
  "count_list (window shut lo hi) True = card {j. j < length shut \<and> lo \<le> j \<and> j < hi \<and> \<not> shut ! j}"
proof -
  let ?js = "filter (\<lambda>j. lo \<le> j \<and> j < hi \<and> \<not> shut ! j) [0..<length shut]"
  have "count_list (window shut lo hi) True = length ?js"
    by (simp add: window_def count_list_eq_length_filter filter_map o_def)
  also have "\<dots> = card (set ?js)" by (rule distinct_card [symmetric]) simp
  also have "set ?js = {j. j < length shut \<and> lo \<le> j \<and> j < hi \<and> \<not> shut ! j}" by auto
  finally show ?thesis .
qed

lemma count_window: "\<forall>i < length shut. \<not> shut ! i \<Longrightarrow> hi \<le> length shut \<Longrightarrow> count_list (window shut lo hi) True = hi - lo"
proof -
  assume "\<forall>i < length shut. \<not> shut ! i" "hi \<le> length shut"
  then have "{j. j < length shut \<and> lo \<le> j \<and> j < hi \<and> \<not> shut ! j} = {lo..<hi}" by auto
  then show ?thesis by (simp add: count_window_card)
qed

lemma count_single: "count_list (window shut seed (Suc seed)) True \<le> 1"
proof -
  have "card {j. j < length shut \<and> seed \<le> j \<and> j < Suc seed \<and> \<not> shut ! j} \<le> card {seed}" by (intro card_mono) auto
  then show ?thesis by (simp add: count_window_card)
qed

lemma computeLayerFold_window:
  assumes "distinct (map fl_id layers)"
  shows "\<exists>lo hi. openColumns layers (computeLayerFold layers a anchor keepOpenId userFolded) = window (handFolded layers userFolded) lo hi"
proof -
  let ?shut = "handFolded layers userFolded"
  have len: "length ?shut = length layers" by (simp add: handFolded_def)
  have all: "map Not ?shut = window ?shut 0 (length ?shut)" by (intro nth_equalityI) auto
  have none: "replicate (length layers) False = window ?shut 0 0" by (intro nth_equalityI) (auto simp: len)
  have triv: "alwaysFit layers a w ?shut 0" for w by (simp add: alwaysFit_def)
  show ?thesis using computeLayerFold_cases [OF assms, of a anchor keepOpenId userFolded] triv
    unfolding all none grown_def by blast
qed

lemma sorted_ends: "sorted xs \<Longrightarrow> j \<in> set xs \<Longrightarrow> hd xs \<le> j \<and> j \<le> last (xs :: nat list)"
proof
  assume s: "sorted xs" and j: "j \<in> set xs"
  show "hd xs \<le> j" using s j by (cases xs) auto
  have "sorted (butlast xs @ [last xs])" using s j by (metis append_butlast_last_id empty_iff list.set(1))
  moreover have "j \<in> set (butlast xs @ [last xs])" using j by (metis append_butlast_last_id empty_iff list.set(1))
  ultimately show "j \<le> last xs" by (auto simp only: sorted_append set_append list.set Un_iff insert_iff empty_iff)
qed

lemma summarise_ends:
  assumes "opened = window shut lo hi" "i < length shut"
  shows "opened ! i \<longleftrightarrow> lf_first (summarise layers opened w ov) \<le> int i \<and> int i \<le> lf_last (summarise layers opened w ov) \<and> \<not> shut ! i"
proof -
  let ?idx = "filter (\<lambda>i. opened ! i) [0..<length opened]"
  have mem: "j \<in> set ?idx \<longleftrightarrow> j < length shut \<and> lo \<le> j \<and> j < hi \<and> \<not> shut ! j" for j using assms(1) by auto
  have sorted: "sorted ?idx" by (rule sorted_wrt_filter) simp
  show ?thesis
  proof (cases "?idx = []")
    case True
    then show ?thesis using mem [of i] assms by (auto simp: summarise_def)
  next
    case False
    then have e: "hd ?idx \<in> set ?idx" "last ?idx \<in> set ?idx" by (rule hd_in_set, rule last_in_set)
    have ends: "j \<in> set ?idx \<Longrightarrow> hd ?idx \<le> j \<and> j \<le> last ?idx" for j
    proof -
      assume "j \<in> set ?idx"
      with sorted show "hd ?idx \<le> j \<and> j \<le> last ?idx"
        by (rule sorted_ends)
    qed
    have s: "lf_first (summarise layers opened w ov) = int (hd ?idx)" "lf_last (summarise layers opened w ov) = int (last ?idx)"
      using False by (auto simp: summarise_def Let_def)
    show ?thesis
    proof
      assume "opened ! i"
      then have "i \<in> set ?idx" using mem [of i] assms by auto
      then show "lf_first (summarise layers opened w ov) \<le> int i \<and> int i \<le> lf_last (summarise layers opened w ov) \<and> \<not> shut ! i"
        using ends [of i] mem [of i] s by simp
    next
      assume "lf_first (summarise layers opened w ov) \<le> int i \<and> int i \<le> lf_last (summarise layers opened w ov) \<and> \<not> shut ! i"
      then have "hd ?idx \<le> i" "i \<le> last ?idx" "\<not> shut ! i" using s by linarith+
      moreover have "lo \<le> hd ?idx" "last ?idx < hi" using e mem by blast+
      ultimately show "opened ! i" using assms by simp
    qed
  qed
qed

lemma kept_column_is_open:
  assumes "distinct (map fl_id layers)" "l \<in> set layers" "fl_id l \<noteq> []" "fl_id l \<notin> set userFolded"
  shows "fl_id l \<notin> set (lf_folded (computeLayerFold layers a anchor (Some (fl_id l)) userFolded))"
proof -
  let ?r = "computeLayerFold layers a anchor (Some (fl_id l)) userFolded"
  let ?shut = "handFolded layers userFolded" and ?w = "spineWidthFor layers a (handFolded layers userFolded)"
  obtain i where i: "i < length layers" "layerIndex layers (fl_id l) = Some i" "layers ! i = l"
    using layerIndex_distinct [OF assms(1,2)] by blast
  have len: "length ?shut = length layers" by (simp add: handFolded_def)
  have sh: "\<not> ?shut ! i" using i assms(4) by (simp add: handFolded_def)
  have at: "openColumns layers ?r ! i \<longleftrightarrow> fl_id l \<notin> set (lf_folded ?r)" using i by (simp add: openColumns_def)
  have triv: "alwaysFit layers a w ?shut 0" for w by (simp add: alwaysFit_def)
  have "openColumns layers ?r ! i"
  proof (cases "length layers = 0 \<or> a \<le> 0 \<or> runWidth layers (map Not ?shut) SPINE_MAX \<le> a")
    case True
    then have "?r = summarise layers (map Not ?shut) SPINE_MAX False"
      by (simp add: computeLayerFold_def handFolded_def)
    then show ?thesis using openColumns_summarise [OF assms(1), of "map Not ?shut"] len sh i by simp
  next
    case False
    let ?at = "openableAt ?shut (case anchorIndex layers anchor of None \<Rightarrow> 0 | Some i \<Rightarrow> i)"
    obtain seed where seed: "?at = Some seed" using openableAt_None [of ?shut _ i] sh i len by (cases ?at) auto
    let ?o = "openFrom layers a ?w ?shut anchor seed"
    have r: "?r = summarise layers (slideToKeep layers a ?w ?shut (Some (fl_id l)) ?o) ?w True"
      using False seed unfolding computeLayerFold_def Let_def handFolded_def by (simp only: if_False option.case)
    have o: "length ?o = length layers"
      using openFrom_grown [OF openableAt_Some [OF seed] len [symmetric] triv] len unfolding grown_def by (metis length_window)
    have g: "grow layers a ?w ?shut i d ! i \<and> length (grow layers a ?w ?shut i d) = length layers" for d
      using grow_grown [OF i(1) [folded len] sh len [symmetric] triv, where rightward = d] i sh unfolding grown_def
      by (metis len length_window nth_window)
    have "slideToKeep layers a ?w ?shut (Some (fl_id l)) ?o ! i
        \<and> length (slideToKeep layers a ?w ?shut (Some (fl_id l)) ?o) = length layers"
      using g sh o i(2) assms(3) by (simp add: slideToKeep_def)
    then show ?thesis using r openColumns_summarise [OF assms(1)] by simp
  qed
  then show ?thesis using at by simp
qed

text \<open>C32. Whenever the canvas has been measured, the columns left open by the fold, with the spine
  width it returns, fit the width they may use, unless the only open column is the one the window
  was opened from.\<close>

theorem folded_run_fits:
  assumes "distinct (map fl_id layers)" "0 < available"
  shows "let r = computeLayerFold layers available anchor keepOpenId userFolded
    in runWidth layers (openColumns layers r) (lf_spineWidth r) \<le> available
       \<or> count_list (openColumns layers r) True \<le> 1"
proof -
  have none: "count_list (replicate n False) True = 0" for n by (induction n) auto
  have "alwaysFit layers available w (handFolded layers userFolded) 0" for w by (simp add: alwaysFit_def)
  then show ?thesis
    using computeLayerFold_cases [OF assms(1), of available anchor keepOpenId userFolded] assms(2)
      none count_single [of "handFolded layers userFolded"]
    unfolding grown_def Let_def by (elim conjE disjE exE) (simp_all, (metis runWidth_def list.map(1) upt_0 list.size(3) sum_list.Nil less_imp_le)?, (metis)?)
qed

definition fold_example :: "fold_layer list" where
  "fold_example = map (\<lambda>x. \<lparr>fl_id = x, fl_width = 320\<rparr>) [''l0'', ''l1'', ''l2'', ''l3'', ''l4'', ''l5'']"

lemma fold_example_ids [simp]: "distinct (map fl_id fold_example)" "length fold_example = 6"
  "\<forall>l \<in> set fold_example. SPINE_MAX \<le> fl_width l"
  by (simp_all add: fold_example_def SPINE_MAX_def)

lemma folded_run_fits_witness:
  "let r = computeLayerFold fold_example 1200 None None [''l1'']
   in openColumns fold_example r = [True, False, True, False, False, False]
      \<and> (runWidth fold_example (openColumns fold_example r) (lf_spineWidth r) \<le> 1200
          \<or> count_list (openColumns fold_example r) True \<le> 1)"
proof -
  have "openColumns fold_example (computeLayerFold fold_example 1200 None None [''l1'']) = [True, False, True, False, False, False]"
    by code_simp
  then show ?thesis using folded_run_fits [of fold_example 1200 None None "[''l1'']"] by (simp add: Let_def)
qed

text \<open>C22. The open columns are one window: a column is open exactly when it stands between the first
  and the last open column and the reader did not fold it by hand; and the layer to keep open is
  open, unless the reader folded it.\<close>

theorem fold_opens_one_window:
  assumes "distinct (map fl_id layers)"
  shows "let r = computeLayerFold layers available anchor keepOpenId userFolded
    in (\<forall>i < length layers. openColumns layers r ! i
          \<longleftrightarrow> lf_first r \<le> int i \<and> int i \<le> lf_last r \<and> fl_id (layers ! i) \<notin> set userFolded)
       \<and> (\<forall>l \<in> set layers. keepOpenId = Some (fl_id l) \<longrightarrow> fl_id l \<noteq> [] \<longrightarrow> fl_id l \<notin> set userFolded
            \<longrightarrow> fl_id l \<notin> set (lf_folded r))"
proof -
  define r where "r = computeLayerFold layers available anchor keepOpenId userFolded"
  obtain lo hi where w: "openColumns layers r = window (handFolded layers userFolded) lo hi"
    using computeLayerFold_window [OF assms(1)] unfolding r_def by blast
  have "r = summarise layers (openColumns layers r) (lf_spineWidth r) (lf_overflows r)"
    using computeLayerFold_cases [OF assms(1), of available anchor keepOpenId userFolded] unfolding r_def by blast
  then have "openColumns layers r ! i \<longleftrightarrow> lf_first r \<le> int i \<and> int i \<le> lf_last r \<and> \<not> handFolded layers userFolded ! i"
    if "i < length layers" for i
    using summarise_ends [OF w, of i layers "lf_spineWidth r" "lf_overflows r"] that by (simp add: handFolded_def)
  then show ?thesis using kept_column_is_open [OF assms(1)] unfolding r_def by (auto simp: handFolded_def Let_def)
qed

lemma fold_opens_one_window_witness:
  "let r = computeLayerFold fold_example 1200 None (Some ''l3'') [''l2'']
   in openColumns fold_example r = [False, True, False, True, False, False]
      \<and> (\<forall>i < 6. openColumns fold_example r ! i
            \<longleftrightarrow> lf_first r \<le> int i \<and> int i \<le> lf_last r \<and> fl_id (fold_example ! i) \<notin> set [''l2''])"
proof -
  have "openColumns fold_example (computeLayerFold fold_example 1200 None (Some ''l3'') [''l2'']) = [False, True, False, True, False, False]"
    by code_simp
  then show ?thesis using fold_opens_one_window [of fold_example 1200 None "Some ''l3''" "[''l2'']"]
    unfolding Let_def by (simp only: fold_example_ids simp_thms) blast
qed

text \<open>The spine width is sized for every position of the window: between its two limits, and with
  no column folded by hand and columns no narrower than a spine, the window opens at least as many
  columns as the width was computed for, whatever the anchor and the layer to keep.\<close>

lemma spines_leave_the_promised_room:
  assumes "distinct (map fl_id layers)" "\<forall>l \<in> set layers. SPINE_MAX \<le> fl_width l"
    and "lf_overflows (computeLayerFold layers available anchor keepOpenId [])"
  shows "let r = computeLayerFold layers available anchor keepOpenId [];
             k = openCount (length layers) available (widestOf layers (map (\<lambda>_. False) layers)) (length layers)
    in SPINE_MIN \<le> lf_spineWidth r \<and> lf_spineWidth r \<le> SPINE_MAX \<and> k \<le> count_list (openColumns layers r) True"
proof -
  let ?shut = "handFolded layers []" and ?r = "computeLayerFold layers available anchor keepOpenId []"
  let ?w = "spineWidthFor layers available ?shut"
  let ?k = "openCount (length layers) available (widestOf layers ?shut) (length layers)"
  have sh: "?shut = map (\<lambda>_. False) layers" by (simp add: handFolded_def)
  have len: "length ?shut = length layers" and none: "\<forall>i < length layers. \<not> ?shut ! i" by (simp_all add: handFolded_def)
  have "layers \<noteq> []" using assms(3) by (auto simp: computeLayerFold_def summarise_def Let_def)
  then obtain seed where seed: "lf_spineWidth ?r = ?w" "seed < length layers"
      "\<And>k. alwaysFit layers available ?w ?shut k \<Longrightarrow> grown layers available ?w ?shut k seed (openColumns layers ?r)"
    using computeLayerFold_cases [OF assms(1), of available anchor keepOpenId "[]"] assms(3) none by auto
  have cnt: "openColumns layers ?r = window ?shut lo hi \<Longrightarrow> hi \<le> length ?shut \<Longrightarrow> count_list (openColumns layers ?r) True = hi - lo" for lo hi
    using count_window [of ?shut hi lo] none len by simp
  have "?k \<le> count_list (openColumns layers ?r) True"
  proof (cases "?k = 1")
    case True
    have "grown layers available ?w ?shut 0 seed (openColumns layers ?r)" by (rule seed(3)) (simp add: alwaysFit_def)
    then obtain lo hi where "openColumns layers ?r = window ?shut lo hi" "lo \<le> seed" "seed < hi" "hi \<le> length ?shut"
      unfolding grown_def by blast
    then show ?thesis using cnt [of lo hi] True by linarith
  next
    case False
    have "?k < length layers" using openCount_room(2) [OF False] .
    moreover obtain lo hi where "openColumns layers ?r = window ?shut lo hi" "lo \<le> seed" "seed < hi" "hi \<le> length ?shut"
        "lo = 0 \<and> hi = length ?shut \<or> ?k \<le> hi - lo"
      using seed(3) [OF promised_windows_fit [OF len none assms(2) False]] unfolding grown_def by blast
    ultimately show ?thesis using cnt [of lo hi] len by auto
  qed
  then show ?thesis using spine_width_bounds [of layers available ?shut] seed(1) unfolding sh Let_def by simp
qed

text \<open>The sizing counts the gaps of a window without spines inside it: with a column folded by hand
  inside the window, the width computed for three open columns opens only two.\<close>

lemma hand_folded_column_costs_a_column:
  "let r = computeLayerFold fold_example 1230 (Some \<lparr>fa_layerId = ''l1'', fa_align = AlignStart\<rparr>) None [''l2''];
       shut = handFolded fold_example [''l2'']
   in openCount 6 1230 (widestOf fold_example shut) (length (unshut fold_example shut)) = 3
      \<and> openColumns fold_example r = [False, True, False, True, False, False]"
  by code_simp

end
