(* ===== verification/Ontology_Rules.thy ===== *)
theory Ontology_Rules
  imports Prelude
begin

text \<open>
  The rules of \<open>src/frontend/src/services/ontologyPreflightService.ts\<close> that the authoring screens apply
  before a change is saved: which types nest under which, and which relationships may be drawn.
  Of an entity type the code reads the id, the name, the level and the two containment lists; of a
  relationship type the id, the name, the description, the endpoint lists and the two flags,
  which may be missing. A \<open>Set\<close> that is returned is the list of its elements in insertion order.
  \<open>hierarchyMap\<close> is an association list of its own keys; the names every JavaScript object
  inherits (\<open>constructor\<close> and the like) are taken not to be entity types. The reasons are the
  constructors of a datatype: their wording, made of display names, is not modelled.
\<close>

section \<open>Data\<close>

record entity_type =
  et_id :: string
  et_name :: string
  et_level :: int
  et_canContain :: "string list"
  et_canBeContainedBy :: "string list"

record rel_type =
  rt_id :: string
  rt_name :: "string option"
  rt_description :: "string option"
  rt_sourceTypes :: "string list option"
  rt_targetTypes :: "string list option"
  rt_isContainment :: "bool option"
  rt_isLineage :: "bool option"

type_synonym hierarchy_map = "(string \<times> string list option) list"

datatype edge_reason =
    ContainmentNotDrawn
  | UnknownRelationship string
  | NotDrawnByHand string
  | SourceCannot string string
  | TargetCannot string string
  | AlreadyConnected
  | ParentCannot "string option" string
  | ChildCannot "string option" "string option" string

record edge_option =
  eo_edgeType :: string
  eo_label :: string
  eo_description :: "string option"
  eo_allowed :: bool
  eo_reason :: "edge_reason option"

record edge_like =
  ed_source :: "string option"
  ed_target :: "string option"
  ed_edgeType :: "string option"
  ed_relationship :: "string option"

section \<open>Looking up ids whatever their case\<close>

definition sameId :: "string \<Rightarrow> string \<Rightarrow> bool" where
  "sameId a b = (jsLower a = jsLower b)"

definition findEntityType :: "string \<Rightarrow> entity_type list \<Rightarrow> entity_type option" where
  "findEntityType i ets =
     (case find (\<lambda>et. et_id et = i) ets of Some et \<Rightarrow> Some et | None \<Rightarrow> find (\<lambda>et. sameId (et_id et) i) ets)"

definition findHierarchyEntry :: "string \<Rightarrow> hierarchy_map \<Rightarrow> string list option option" where
  "findHierarchyEntry i m =
     (case map_of m i of
        Some e \<Rightarrow> Some e
      | None \<Rightarrow> (case find (\<lambda>(k, e). sameId k i) m of
                  Some (k, e) \<Rightarrow> if k \<noteq> [] then map_of m k else None
                | None \<Rightarrow> None))"

definition setHasId :: "string list \<Rightarrow> string \<Rightarrow> bool" where
  "setHasId xs i = (i \<in> set xs \<or> (\<exists>s \<in> set xs. sameId s i))"

lemma sameId_refl [simp]: "sameId a a"
  by (simp add: sameId_def)

lemma sameId_trans: "sameId a b \<Longrightarrow> sameId b c \<Longrightarrow> sameId a c"
  by (simp add: sameId_def)

lemma sameId_sym: "sameId a b \<longleftrightarrow> sameId b a"
  by (auto simp: sameId_def)

section \<open>Nesting\<close>

text \<open>The two sources of \<open>canContain\<close> of a parent type.\<close>

definition fromSchema :: "string \<Rightarrow> entity_type list \<Rightarrow> string list" where
  "fromSchema parentType ets = (case findEntityType parentType ets of None \<Rightarrow> [] | Some et \<Rightarrow> et_canContain et)"

definition fromOntology :: "string \<Rightarrow> hierarchy_map \<Rightarrow> string list" where
  "fromOntology parentType m = (case findHierarchyEntry parentType m of Some (Some xs) \<Rightarrow> xs | _ \<Rightarrow> [])"

definition rootTypeIds :: "entity_type list \<Rightarrow> string list \<Rightarrow> string list" where
  "rootTypeIds ets rootEntityTypes =
     (if rootEntityTypes \<noteq> [] then rootEntityTypes else map et_id (filter (\<lambda>et. et_canBeContainedBy et = []) ets))"

definition allowedChildTypeIds ::
  "string option \<Rightarrow> entity_type list \<Rightarrow> string list \<Rightarrow> hierarchy_map \<Rightarrow> string list" where
  "allowedChildTypeIds parentType ets rootEntityTypes m =
     (if \<not> truthyStr parentType then uniq (rootTypeIds ets rootEntityTypes)
      else let canContain = uniq (fromSchema (the parentType) ets @ fromOntology (the parentType) m)
           in if canContain = [] then uniq (map et_id ets) else uniq canContain)"

definition isClosedToNesting :: "string \<Rightarrow> entity_type list \<Rightarrow> hierarchy_map \<Rightarrow> bool" where
  "isClosedToNesting parentType ets m = (fromSchema parentType ets = [] \<and> fromOntology parentType m = [])"

section \<open>Relationship types\<close>

definition isContainmentRelType :: "rel_type \<Rightarrow> string list \<Rightarrow> bool" where
  "isContainmentRelType rt containmentEdgeTypes =
     (case rt_isContainment rt of Some b \<Rightarrow> b | None \<Rightarrow> jsUpper (rt_id rt) \<in> jsUpper ` set containmentEdgeTypes)"

definition notDrawable :: "string \<Rightarrow> bool" where
  "notDrawable i = (jsUpper i = jsUpper ''AGGREGATED'')"

definition isDrawableLineageType :: "rel_type \<Rightarrow> string list \<Rightarrow> bool" where
  "isDrawableLineageType rt containmentEdgeTypes =
     (if notDrawable (rt_id rt) then False
      else if isContainmentRelType rt containmentEdgeTypes then False
      else case rt_isLineage rt of Some b \<Rightarrow> b | None \<Rightarrow> True)"

datatype edge_kind = KindLineage | KindRollup | KindContainment | KindOther

definition edgeKind :: "string \<Rightarrow> rel_type list \<Rightarrow> string list \<Rightarrow> edge_kind" where
  "edgeKind ty rels containmentEdgeTypes =
     (if ty = [] then KindOther
      else if notDrawable ty then KindRollup
      else let rt = find (\<lambda>r. sameId (rt_id r) ty) rels
           in if (\<exists>r. rt = Some r \<and> rt_isContainment r = Some True) \<or> (\<exists>t \<in> set containmentEdgeTypes. sameId t ty)
              then KindContainment
              else case rt of None \<Rightarrow> KindLineage
                 | Some r \<Rightarrow> if isDrawableLineageType r containmentEdgeTypes then KindLineage else KindOther)"

definition endpointOk :: "string option \<Rightarrow> string list option \<Rightarrow> bool" where
  "endpointOk ty allowed =
     (\<not> truthyStr ty
      \<or> (case allowed of None \<Rightarrow> True
         | Some ts \<Rightarrow> ts = [] \<or> ''*'' \<in> set ts \<or> (\<exists>t \<in> set ts. sameId t (the ty))))"

section \<open>Drawing an edge\<close>

definition upperOpt :: "string option \<Rightarrow> nat list" where
  "upperOpt t = (case t of None \<Rightarrow> [] | Some s \<Rightarrow> jsUpper s)"

definition edgeTypeOf :: "edge_like \<Rightarrow> nat list" where
  "edgeTypeOf e = upperOpt (case ed_edgeType e of Some t \<Rightarrow> Some t | None \<Rightarrow> ed_relationship e)"

definition connectedEdgeTypes :: "edge_like list \<Rightarrow> string option \<Rightarrow> string option \<Rightarrow> nat list list" where
  "connectedEdgeTypes edges sourceId targetId =
     (if \<not> truthyStr sourceId \<or> \<not> truthyStr targetId then []
      else uniq (map edgeTypeOf (filter (\<lambda>e. ed_source e = sourceId \<and> ed_target e = targetId) edges)))"

definition orUnknown :: "string option \<Rightarrow> string" where
  "orUnknown t = (case t of None \<Rightarrow> ''?'' | Some s \<Rightarrow> s)"

definition validateDrawnEdge ::
  "string option \<Rightarrow> string option \<Rightarrow> string \<Rightarrow> rel_type list \<Rightarrow> string list \<Rightarrow> edge_like list
   \<Rightarrow> string option \<Rightarrow> string option \<Rightarrow> edge_reason option" where
  "validateDrawnEdge sourceType targetType edgeType rels containmentEdgeTypes existing sourceId targetId =
     (let rt = find (\<lambda>r. jsUpper (rt_id r) = jsUpper edgeType) rels;
          isContainment = (case rt of Some r \<Rightarrow> isContainmentRelType r containmentEdgeTypes
                           | None \<Rightarrow> jsUpper edgeType \<in> jsUpper ` set containmentEdgeTypes)
      in if isContainment then Some ContainmentNotDrawn
         else case rt of
                None \<Rightarrow> Some (UnknownRelationship edgeType)
              | Some r \<Rightarrow>
                  if notDrawable (rt_id r) then Some (NotDrawnByHand (rt_id r))
                  else if \<not> endpointOk sourceType (rt_sourceTypes r) then Some (SourceCannot (orUnknown sourceType) (rt_id r))
                  else if \<not> endpointOk targetType (rt_targetTypes r) then Some (TargetCannot (orUnknown targetType) (rt_id r))
                  else if jsUpper edgeType \<in> set (connectedEdgeTypes existing sourceId targetId) then Some AlreadyConnected
                  else None)"

definition relLabel :: "rel_type \<Rightarrow> string" where
  "relLabel rt = (case rt_name rt of None \<Rightarrow> rt_id rt | Some n \<Rightarrow> n)"

definition containmentOption :: "string option \<Rightarrow> string option \<Rightarrow> rel_type \<Rightarrow> edge_option" where
  "containmentOption parentType childType rt =
     (let srcOk = endpointOk parentType (rt_sourceTypes rt); tgtOk = endpointOk childType (rt_targetTypes rt)
      in \<lparr>eo_edgeType = rt_id rt, eo_label = relLabel rt, eo_description = rt_description rt, eo_allowed = (srcOk \<and> tgtOk),
          eo_reason = (if \<not> srcOk then Some (ParentCannot parentType (rt_id rt))
                       else if \<not> tgtOk then Some (ChildCannot childType parentType (rt_id rt)) else None)\<rparr>)"

definition deriveContainmentEdges ::
  "string option \<Rightarrow> string option \<Rightarrow> rel_type list \<Rightarrow> string list \<Rightarrow> edge_option list" where
  "deriveContainmentEdges parentType childType rels containmentEdgeTypes =
     map (containmentOption parentType childType) (filter (\<lambda>rt. isContainmentRelType rt containmentEdgeTypes) rels)"

definition connectOption :: "string option \<Rightarrow> string option \<Rightarrow> rel_type \<Rightarrow> edge_option" where
  "connectOption sourceType targetType rt =
     (let srcOk = endpointOk sourceType (rt_sourceTypes rt); tgtOk = endpointOk targetType (rt_targetTypes rt)
      in \<lparr>eo_edgeType = rt_id rt, eo_label = relLabel rt, eo_description = rt_description rt, eo_allowed = (srcOk \<and> tgtOk),
          eo_reason = (if \<not> srcOk then Some (SourceCannot (orUnknown sourceType) (rt_id rt))
                       else if \<not> tgtOk then Some (TargetCannot (orUnknown targetType) (rt_id rt)) else None)\<rparr>)"

definition deriveConnectableEdges ::
  "string option \<Rightarrow> string option \<Rightarrow> rel_type list \<Rightarrow> string list \<Rightarrow> edge_option list" where
  "deriveConnectableEdges sourceType targetType rels containmentEdgeTypes =
     map (connectOption sourceType targetType) (filter (\<lambda>rt. isDrawableLineageType rt containmentEdgeTypes) rels)"

definition builderAllowedChildTypeIds ::
  "string option \<Rightarrow> entity_type list \<Rightarrow> string list \<Rightarrow> hierarchy_map \<Rightarrow> rel_type list \<Rightarrow> string list \<Rightarrow> string list" where
  "builderAllowedChildTypeIds parentType ets rootEntityTypes m rels containmentEdgeTypes =
     (if \<not> truthyStr parentType then allowedChildTypeIds None ets rootEntityTypes m
      else if isClosedToNesting (the parentType) ets m then []
      else filter (\<lambda>i. list_ex eo_allowed (deriveContainmentEdges parentType (Some i) rels containmentEdgeTypes))
             (allowedChildTypeIds parentType ets rootEntityTypes m))"

section \<open>What the gates agree on\<close>

text \<open>An option is allowed exactly when it comes without a reason.\<close>

lemma option_reasons:
  "eo_allowed (connectOption s t rt) \<longleftrightarrow> eo_reason (connectOption s t rt) = None"
  "eo_allowed (containmentOption s t rt) \<longleftrightarrow> eo_reason (containmentOption s t rt) = None"
  by (simp_all add: connectOption_def containmentOption_def Let_def)

lemma connectOption_simps [simp]:
  "eo_edgeType (connectOption s t rt) = rt_id rt"
  "eo_label (connectOption s t rt) = relLabel rt"
  "eo_description (connectOption s t rt) = rt_description rt"
  "eo_allowed (connectOption s t rt) \<longleftrightarrow> endpointOk s (rt_sourceTypes rt) \<and> endpointOk t (rt_targetTypes rt)"
  by (simp_all add: connectOption_def Let_def)

lemma isDrawableLineageType_iff:
  "isDrawableLineageType rt cts \<longleftrightarrow>
     \<not> notDrawable (rt_id rt) \<and> \<not> isContainmentRelType rt cts \<and> rt_isLineage rt \<noteq> Some False"
  by (auto simp: isDrawableLineageType_def split: option.splits)

text \<open>A drawable lineage type is drawn between two entities exactly when its option is allowed
  and it does not join them yet.\<close>

lemma find_unique:
  "distinct (map f xs) \<Longrightarrow> x \<in> set xs \<Longrightarrow> find (\<lambda>y. f y = f x) xs = Some x"
  by (induction xs) (auto simp: image_iff)

lemma draw_gate:
  assumes "distinct (map (\<lambda>r. jsUpper (rt_id r)) rels)" "rt \<in> set rels" "isDrawableLineageType rt cts"
  shows "validateDrawnEdge s t (rt_id rt) rels cts existing u v = None
    \<longleftrightarrow> eo_allowed (connectOption s t rt) \<and> jsUpper (rt_id rt) \<notin> set (connectedEdgeTypes existing u v)"
  using find_unique [OF assms(1,2)] assms(3)
  by (auto simp: validateDrawnEdge_def isDrawableLineageType_iff Let_def)

text \<open>The gate of a drawn edge does not read \<open>isLineage\<close>: a relationship the ontology declares
  not to be lineage passes it, and no connect option offers it.\<close>

lemma drawn_gate_ignores_lineage_flag:
  assumes "distinct (map (\<lambda>r. jsUpper (rt_id r)) rels)" "rt \<in> set rels"
    and "rt_isContainment rt = Some False" "rt_isLineage rt = Some False" "\<not> notDrawable (rt_id rt)"
    and "endpointOk s (rt_sourceTypes rt)" "endpointOk t (rt_targetTypes rt)"
  shows "validateDrawnEdge s t (rt_id rt) rels cts [] u v = None"
    and "rt_id rt \<notin> eo_edgeType ` set (deriveConnectableEdges s t rels cts)"
proof -
  show "validateDrawnEdge s t (rt_id rt) rels cts [] u v = None"
    using find_unique [OF assms(1,2)] assms(3-)
    by (simp add: validateDrawnEdge_def isContainmentRelType_def connectedEdgeTypes_def uniq_def Let_def)
  show "rt_id rt \<notin> eo_edgeType ` set (deriveConnectableEdges s t rels cts)"
  proof
    assume "rt_id rt \<in> eo_edgeType ` set (deriveConnectableEdges s t rels cts)"
    then obtain r where "r \<in> set rels" "isDrawableLineageType r cts" "rt_id r = rt_id rt"
      by (auto simp: deriveConnectableEdges_def)
    moreover then have "r = rt" using assms(1,2) by (metis (mono_tags, lifting) distinct_map inj_onD)
    ultimately show False using assms(4) by (simp add: isDrawableLineageType_iff)
  qed
qed

text \<open>What the hierarchy builder offers is a part of what may be created, and empty for a parent
  that is closed to nesting.\<close>

lemma builder_offers_nestable_types:
  "set (builderAllowedChildTypeIds p ets roots m rels cts) \<subseteq> set (allowedChildTypeIds p ets roots m)"
  by (auto simp: builderAllowedChildTypeIds_def allowedChildTypeIds_def)

lemma builder_options:
  assumes "p \<noteq> []"
  shows "i \<in> set (builderAllowedChildTypeIds (Some p) ets roots m rels cts) \<longleftrightarrow>
    \<not> isClosedToNesting p ets m \<and> (i \<in> set (fromSchema p ets) \<or> i \<in> set (fromOntology p m))
    \<and> (\<exists>rt \<in> set rels. isContainmentRelType rt cts \<and> endpointOk (Some p) (rt_sourceTypes rt) \<and> endpointOk (Some i) (rt_targetTypes rt))"
  using assms
  by (auto simp: builderAllowedChildTypeIds_def allowedChildTypeIds_def isClosedToNesting_def Let_def list_ex_iff
      deriveContainmentEdges_def containmentOption_def uniq_def)

end
