(* ===== verification/Type_Chains.thy ===== *)
theory Type_Chains
  imports Ontology_Rules
begin

text \<open>
  \<open>containmentChains\<close> of \<open>src/frontend/src/services/ontologyPreflightService.ts\<close>: the containment
  chains the template scaffolds are made from. \<open>localeCompare\<close> is a parameter, the collation key
  by which it compares; the recursion is a function whose termination is proved, since a path
  never takes a type twice.
\<close>

definition typeById :: "entity_type list \<Rightarrow> string \<Rightarrow> entity_type option" where
  "typeById ets = map_of (rev (map (\<lambda>et. (et_id et, et)) ets))"

lemma typeById_known: "typeById ets i \<noteq> None \<longleftrightarrow> i \<in> et_id ` set ets"
  by (auto simp: typeById_def map_of_eq_None_iff image_iff)

definition containedTypes :: "entity_type list \<Rightarrow> string \<Rightarrow> string list" where
  "containedTypes ets i = (case typeById ets i of None \<Rightarrow> [] | Some et \<Rightarrow> et_canContain et)"

definition sortChildren :: "(string \<Rightarrow> int) \<Rightarrow> entity_type list \<Rightarrow> string list \<Rightarrow> string list" where
  "sortChildren collate ets ids =
     sort_key (\<lambda>i. case typeById ets i of None \<Rightarrow> (0, collate i) | Some et \<Rightarrow> (et_level et, collate (et_name et))) ids"

lemma set_sortChildren [simp]: "set (sortChildren collate ets ids) = set ids"
  by (simp add: sortChildren_def)

definition chainChildren :: "entity_type list \<Rightarrow> string list \<Rightarrow> string list" where
  "chainChildren ets path = filter (\<lambda>i. typeById ets i \<noteq> None \<and> i \<notin> set path) (containedTypes ets (last path))"

lemma chainChildren_iff:
  "i \<in> set (chainChildren ets path) \<longleftrightarrow> i \<in> set (containedTypes ets (last path)) \<and> i \<in> et_id ` set ets \<and> i \<notin> set path"
  using typeById_known [of ets i] by (auto simp: chainChildren_def)

function walkChains :: "(string \<Rightarrow> int) \<Rightarrow> entity_type list \<Rightarrow> int \<Rightarrow> string list \<Rightarrow> string list list" where
  "walkChains collate ets maxLength path =
     (let children = chainChildren ets path
      in if children = [] \<or> maxLength \<le> int (length path) then [path]
         else concat (map (\<lambda>child. walkChains collate ets maxLength (path @ [child])) (sortChildren collate ets children)))"
  by auto
termination
proof (relation "measure (\<lambda>(collate, ets, maxLength, path). card (et_id ` set ets - set path))", goal_cases)
  case (2 collate ets maxLength path children child)
  then have "child \<in> et_id ` set ets" "child \<notin> set path" by (auto simp: chainChildren_iff)
  then have "et_id ` set ets - set (path @ [child]) \<subset> et_id ` set ets - set path" by auto
  then show ?case by (simp add: psubset_card_mono)
qed auto

declare walkChains.simps [simp del]

definition startIds :: "entity_type list \<Rightarrow> string list \<Rightarrow> string option \<Rightarrow> string list" where
  "startIds ets rootEntityTypes startType =
     (if truthyStr startType then [the startType] else rootTypeIds ets rootEntityTypes)"

definition allChains :: "(string \<Rightarrow> int) \<Rightarrow> entity_type list \<Rightarrow> string list \<Rightarrow> int \<Rightarrow> string option \<Rightarrow> string list list" where
  "allChains collate ets rootEntityTypes maxLength startType =
     concat (map (\<lambda>i. if typeById ets i \<noteq> None then walkChains collate ets maxLength [i] else [])
       (startIds ets rootEntityTypes startType))"

definition containmentChains ::
  "(string \<Rightarrow> int) \<Rightarrow> entity_type list \<Rightarrow> string list \<Rightarrow> int option \<Rightarrow> string option \<Rightarrow> string list list" where
  "containmentChains collate ets rootEntityTypes maxLength startType =
     (let deduped = uniq (allChains collate ets rootEntityTypes (case maxLength of None \<Rightarrow> 5 | Some m \<Rightarrow> m) startType)
      in filter (\<lambda>c. \<not> list_ex (\<lambda>other. length c < length other \<and> prefix c other) deduped) deduped)"

section \<open>The chains are the maximal paths\<close>

text \<open>A containment path of known types without repetition, and one that nothing can follow within
  the cap.\<close>

definition typePath :: "entity_type list \<Rightarrow> string list \<Rightarrow> bool" where
  "typePath ets c \<longleftrightarrow> c \<noteq> [] \<and> distinct c \<and> set c \<subseteq> et_id ` set ets
     \<and> successively (\<lambda>a b. b \<in> set (containedTypes ets a)) c"

definition maximalPath :: "entity_type list \<Rightarrow> int \<Rightarrow> string list \<Rightarrow> bool" where
  "maximalPath ets maxLength c \<longleftrightarrow> typePath ets c \<and> (length c = 1 \<or> int (length c) \<le> maxLength)
     \<and> (maxLength \<le> int (length c) \<or> (\<forall>i \<in> set (containedTypes ets (last c)). i \<in> et_id ` set ets \<longrightarrow> i \<in> set c))"

lemma typePath_snoc:
  "path \<noteq> [] \<Longrightarrow> typePath ets (path @ [i]) \<longleftrightarrow> typePath ets path \<and> i \<in> set (chainChildren ets path)"
  by (auto simp: typePath_def chainChildren_iff successively_append_iff)

lemma typePath_prefix: "typePath ets (path @ rest) \<Longrightarrow> path \<noteq> [] \<Longrightarrow> typePath ets path"
  by (auto simp: typePath_def successively_append_iff)

lemma chainChildren_Nil:
  "chainChildren ets path = [] \<longleftrightarrow> (\<forall>i \<in> set (containedTypes ets (last path)). i \<in> et_id ` set ets \<longrightarrow> i \<in> set path)"
  using chainChildren_iff [of _ ets path] by (metis empty_iff list.set(1) set_empty2 subsetI subset_empty)

lemma proper_prefix: "prefix p c \<Longrightarrow> c \<noteq> p \<Longrightarrow> \<exists>i rest. c = (p @ [i]) @ rest"
  by (auto simp: prefix_def) (metis list.exhaust)

lemma walkChains_set:
  assumes "typePath ets path" "length path = 1 \<or> int (length path) \<le> maxLength"
  shows "set (walkChains collate ets maxLength path) = {c. prefix path c \<and> maximalPath ets maxLength c}"
  using assms
proof (induction collate ets maxLength path rule: walkChains.induct)
  case (1 collate ets maxLength path)
  have ne: "path \<noteq> []" using "1.prems"(1) by (simp add: typePath_def)
  show ?case
  proof (cases "chainChildren ets path = [] \<or> maxLength \<le> int (length path)")
    case True
    have "c = path" if c: "prefix path c" "maximalPath ets maxLength c" for c
    proof (rule ccontr)
      assume "c \<noteq> path"
      then obtain i rest where ci: "c = (path @ [i]) @ rest" using proper_prefix [OF c(1)] by blast
      then have "typePath ets (path @ [i])" using c(2) typePath_prefix unfolding maximalPath_def by blast
      then have "i \<in> set (chainChildren ets path)" using typePath_snoc [OF ne] by blast
      moreover have "\<not> maxLength \<le> int (length path)" using c(2) ci ne by (auto simp: maximalPath_def)
      ultimately show False using True by auto
    qed
    moreover have "maximalPath ets maxLength path"
      using True "1.prems" chainChildren_Nil [of ets path] by (auto simp: maximalPath_def)
    ultimately show ?thesis using True by (subst walkChains.simps) auto
  next
    case False
    have "set (walkChains collate ets maxLength path)
        = (\<Union>i \<in> set (chainChildren ets path). set (walkChains collate ets maxLength (path @ [i])))"
      using False by (subst walkChains.simps) (simp add: Let_def)
    also have "\<dots> = (\<Union>i \<in> set (chainChildren ets path). {c. prefix (path @ [i]) c \<and> maximalPath ets maxLength c})"
    proof (rule SUP_cong [OF refl])
      fix i assume i: "i \<in> set (chainChildren ets path)"
      then show "set (walkChains collate ets maxLength (path @ [i])) = {c. prefix (path @ [i]) c \<and> maximalPath ets maxLength c}"
        using "1.IH" [OF refl _ _] False "1.prems" typePath_snoc [OF ne, of ets i] by simp
    qed
    also have "\<dots> = {c. prefix path c \<and> maximalPath ets maxLength c}"
    proof (intro equalityI subsetI)
      fix c assume "c \<in> {c. prefix path c \<and> maximalPath ets maxLength c}"
      then have c: "prefix path c" "maximalPath ets maxLength c" by auto
      have "c \<noteq> path" using c(2) False chainChildren_Nil [of ets path] by (auto simp: maximalPath_def)
      then obtain i rest where ci: "c = (path @ [i]) @ rest" using proper_prefix [OF c(1)] by blast
      then have "typePath ets (path @ [i])" using c(2) typePath_prefix unfolding maximalPath_def by blast
      then show "c \<in> (\<Union>i \<in> set (chainChildren ets path). {c. prefix (path @ [i]) c \<and> maximalPath ets maxLength c})"
        using typePath_snoc [OF ne, of ets i] ci c(2) by (intro UN_I [of i]) auto
    qed (auto dest: append_prefixD)
    finally show ?thesis .
  qed
qed

lemma maximal_not_extended:
  assumes "maximalPath ets m c" "maximalPath ets m d" "prefix c d"
  shows "c = d"
proof (rule ccontr)
  assume "c \<noteq> d"
  then obtain i rest where ci: "d = (c @ [i]) @ rest" using proper_prefix [OF assms(3)] by blast
  have ne: "c \<noteq> []" using assms(1) by (simp add: maximalPath_def typePath_def)
  have "typePath ets (c @ [i])" using assms(2) ci typePath_prefix unfolding maximalPath_def by blast
  then have "i \<in> set (chainChildren ets c)" using typePath_snoc [OF ne] by blast
  then have "m \<le> int (length c)" using assms(1) by (auto simp: maximalPath_def chainChildren_iff)
  then show False using assms(2) ci ne by (auto simp: maximalPath_def)
qed

lemma allChains_set:
  "set (allChains collate ets roots m startType)
     = {c. hd c \<in> set (startIds ets roots startType) \<and> maximalPath ets m c}"
proof -
  have one: "typePath ets [i] \<longleftrightarrow> i \<in> et_id ` set ets" for i by (simp add: typePath_def)
  have "set (walkChains collate ets m [i]) = {c. prefix [i] c \<and> maximalPath ets m c}" if "typeById ets i \<noteq> None" for i
    using walkChains_set [of ets "[i]" m collate] that typeById_known [of ets i] one [of i] by simp
  then have "set (allChains collate ets roots m startType)
      = (\<Union>i \<in> {i \<in> set (startIds ets roots startType). typeById ets i \<noteq> None}. {c. prefix [i] c \<and> maximalPath ets m c})"
    by (auto simp: allChains_def)
  also have "\<dots> = {c. hd c \<in> set (startIds ets roots startType) \<and> maximalPath ets m c}"
  proof (intro equalityI subsetI)
    fix c assume "c \<in> {c. hd c \<in> set (startIds ets roots startType) \<and> maximalPath ets m c}"
    then have c: "hd c \<in> set (startIds ets roots startType)" "maximalPath ets m c" by auto
    then have "prefix [hd c] c" "typeById ets (hd c) \<noteq> None"
      using typeById_known [of ets "hd c"] by (auto simp: maximalPath_def typePath_def neq_Nil_conv)
    then show "c \<in> (\<Union>i \<in> {i \<in> set (startIds ets roots startType). typeById ets i \<noteq> None}. {c. prefix [i] c \<and> maximalPath ets m c})"
      using c by blast
  qed (auto simp: prefix_def)
  finally show ?thesis .
qed

text \<open>The last filter of the code drops nothing: no chain extends another.\<close>

lemma last_filter_drops_nothing:
  "containmentChains collate ets roots maxLength startType
     = uniq (allChains collate ets roots (case maxLength of None \<Rightarrow> 5 | Some m \<Rightarrow> m) startType)"
proof -
  let ?cs = "uniq (allChains collate ets roots (case maxLength of None \<Rightarrow> 5 | Some m \<Rightarrow> m) startType)"
  have "\<not> (length c < length d \<and> prefix c d)" if "c \<in> set ?cs" "d \<in> set ?cs" for c d
    using that maximal_not_extended [of ets _ c d] by (auto simp: allChains_set)
  then show ?thesis by (auto simp: containmentChains_def Let_def list_ex_iff intro!: filter_True)
qed

text \<open>C26. The chains offered as templates are exactly the maximal containment paths from the start
  types, within the cap, each once, and none is a part of another.\<close>

theorem chains_are_the_maximal_paths:
  "set (containmentChains collate ets roots maxLength startType)
     = {c. hd c \<in> set (startIds ets roots startType)
         \<and> maximalPath ets (case maxLength of None \<Rightarrow> 5 | Some m \<Rightarrow> m) c}
   \<and> distinct (containmentChains collate ets roots maxLength startType)
   \<and> pairwise (\<lambda>c d. \<not> prefix c d) (set (containmentChains collate ets roots maxLength startType))"
  using maximal_not_extended [of ets]
  by (auto simp: last_filter_drops_nothing allChains_set pairwise_def)

definition chain_example :: "entity_type list" where
  "chain_example = map (\<lambda>(i, l, cs). \<lparr>et_id = i, et_name = i, et_level = l, et_canContain = cs, et_canBeContainedBy = []\<rparr>)
     [(''domain'', 0, [''schema'', ''platform'']), (''platform'', 1, [''schema'', ''domain'']), (''schema'', 2, [''schema'', ''gone''])]"

lemma chain_example_chains:
  "containmentChains (\<lambda>_. 0) chain_example [''domain''] None None
     = [[''domain'', ''platform'', ''schema''], [''domain'', ''schema'']]"
  by code_simp

end
