(* ===== verification/Retype_Plan.thy ===== *)
theory Retype_Plan
  imports Ontology_Rules
begin

text \<open>
  Changing the type of an entity, in \<open>src/frontend/src/services/ontologyPreflightService.ts\<close>:
  \<open>typesValidForNode\<close>, and \<open>planRetype\<close> with its backtracking resolver and its search for the
  conflicts to report. The graph the caller supplies is the record of its three functions.
  \<open>resolve\<close> descends into \<open>childrenOf\<close>, which nothing bounds: the model counts the levels, and
  \<open>None\<close> is a walk that has not returned within them. Inside, \<open>Some None\<close> is the code's false
  and \<open>Some (Some out)\<close> true with the changes appended; the outermost \<open>option\<close> is the walk's.
  \<open>localeCompare\<close> is the collation key it compares by.
\<close>

record retype_node =
  rn_id :: string
  rn_urn :: string
  rn_name :: string
  rn_type :: string

datatype edge_role = RoleSource | RoleTarget

record incident_edge =
  ie_edgeType :: string
  ie_role :: edge_role
  ie_otherType :: string

record retype_context =
  rc_entityTypes :: "entity_type list"
  rc_relationshipTypes :: "rel_type list"
  rc_containmentEdgeTypes :: "string list"
  rc_parentTypeOf :: "string \<Rightarrow> string option"
  rc_childrenOf :: "string \<Rightarrow> retype_node list"
  rc_incidentLineageEdges :: "string \<Rightarrow> incident_edge list"
  rc_collate :: "string \<Rightarrow> int"

record retype_change =
  ch_node :: retype_node
  ch_toType :: string
  ch_editable :: bool

datatype retype_reason = NothingFitsInside string

record retype_conflict =
  cf_node :: retype_node
  cf_reason :: retype_reason

record retype_plan =
  rp_changes :: "retype_change list"
  rp_conflicts :: "retype_conflict list"
  rp_ok :: bool

definition containmentAllowed :: "retype_context \<Rightarrow> string \<Rightarrow> string \<Rightarrow> bool" where
  "containmentAllowed ctx parentType childType =
     list_ex eo_allowed (deriveContainmentEdges (Some parentType) (Some childType)
       (rc_relationshipTypes ctx) (rc_containmentEdgeTypes ctx))"

definition sortedTypes :: "retype_context \<Rightarrow> string list" where
  "sortedTypes ctx = map et_id (sort_key (\<lambda>t. (et_level t, rc_collate ctx (et_name t))) (rc_entityTypes ctx))"

lemma set_sortedTypes [simp]: "set (sortedTypes ctx) = et_id ` set (rc_entityTypes ctx)"
  by (simp add: sortedTypes_def)

section \<open>The types a node can take as it is\<close>

definition edgeAllows :: "retype_context \<Rightarrow> string \<Rightarrow> incident_edge \<Rightarrow> bool" where
  "edgeAllows ctx candidate e =
     (let opts = deriveConnectableEdges
            (Some (if ie_role e = RoleSource then candidate else ie_otherType e))
            (Some (if ie_role e = RoleSource then ie_otherType e else candidate))
            (rc_relationshipTypes ctx) (rc_containmentEdgeTypes ctx)
      in case find (\<lambda>opt. sameId (eo_edgeType opt) (ie_edgeType e)) opts of
           None \<Rightarrow> True | Some opt \<Rightarrow> eo_allowed opt)"

definition typesValidForNode :: "retype_context \<Rightarrow> retype_node \<Rightarrow> string list" where
  "typesValidForNode ctx node =
     (let parentType = rc_parentTypeOf ctx (rn_id node);
          children = rc_childrenOf ctx (rn_id node);
          edges = rc_incidentLineageEdges ctx (rn_id node)
      in filter (\<lambda>candidate.
           (truthyStr parentType \<longrightarrow> containmentAllowed ctx (the parentType) candidate)
           \<and> list_all (\<lambda>c. containmentAllowed ctx candidate (rn_type c)) children
           \<and> list_all (edgeAllows ctx candidate) edges) (sortedTypes ctx))"

section \<open>The cascade\<close>

definition candidateTypes :: "retype_context \<Rightarrow> string \<Rightarrow> string list" where
  "candidateTypes ctx parentType = filter (containmentAllowed ctx parentType) (sortedTypes ctx)"

lemma candidateTypes_iff:
  "t \<in> set (candidateTypes ctx p) \<longleftrightarrow> t \<in> et_id ` set (rc_entityTypes ctx) \<and> containmentAllowed ctx p t"
  by (auto simp: candidateTypes_def)

definition changeOf :: "retype_node \<Rightarrow> string \<Rightarrow> bool \<Rightarrow> retype_change" where
  "changeOf node cand isRoot = \<lparr>ch_node = node, ch_toType = cand, ch_editable = (\<not> isRoot)\<rparr>"

text \<open>\<open>tryCands\<close> is the loop over the candidates, \<open>resolveAll\<close> the loop over the children.\<close>

function (sequential) resolveNode :: "retype_context \<Rightarrow> nat \<Rightarrow> retype_node \<Rightarrow> string \<Rightarrow> retype_change list option option"
  and tryCands :: "retype_context \<Rightarrow> nat \<Rightarrow> retype_node \<Rightarrow> bool \<Rightarrow> string list \<Rightarrow> retype_change list option option"
  and resolveAll :: "retype_context \<Rightarrow> nat \<Rightarrow> retype_node list \<Rightarrow> string \<Rightarrow> retype_change list option option" where
  "resolveNode ctx 0 node parentType = None"
| "resolveNode ctx (Suc fuel) node parentType =
     (if containmentAllowed ctx parentType (rn_type node) then Some (Some [])
      else tryCands ctx fuel node False (candidateTypes ctx parentType))"
| "tryCands ctx fuel node isRoot [] = Some None"
| "tryCands ctx fuel node isRoot (cand # cands) =
     (case resolveAll ctx fuel (rc_childrenOf ctx (rn_id node)) cand of
        None \<Rightarrow> None
      | Some None \<Rightarrow> tryCands ctx fuel node isRoot cands
      | Some (Some childOut) \<Rightarrow> Some (Some (changeOf node cand isRoot # childOut)))"
| "resolveAll ctx fuel [] cand = Some (Some [])"
| "resolveAll ctx fuel (child # children) cand =
     (case resolveNode ctx fuel child cand of
        None \<Rightarrow> None
      | Some None \<Rightarrow> Some None
      | Some (Some out) \<Rightarrow>
          (case resolveAll ctx fuel children cand of
             Some (Some out') \<Rightarrow> Some (Some (out @ out'))
           | r \<Rightarrow> r))"
  by pat_completeness auto
termination
  by (relation "measures [\<lambda>x. case x of Inl (ctx, fuel, _) \<Rightarrow> fuel
        | Inr (Inl (ctx, fuel, _)) \<Rightarrow> fuel | Inr (Inr (ctx, fuel, _)) \<Rightarrow> fuel,
      \<lambda>x. case x of Inl _ \<Rightarrow> 0 | Inr (Inl _) \<Rightarrow> 2 | Inr (Inr _) \<Rightarrow> 1,
      \<lambda>x. case x of Inl _ \<Rightarrow> 0 | Inr (Inl (_, _, _, _, cands)) \<Rightarrow> length cands | Inr (Inr (_, _, children, _)) \<Rightarrow> length children]")
    auto

text \<open>Only reached when the retype is infeasible.\<close>

function (sequential) collectConflicts :: "retype_context \<Rightarrow> nat \<Rightarrow> retype_node \<Rightarrow> string option \<Rightarrow> string list \<Rightarrow> retype_conflict list option"
  and collectAll :: "retype_context \<Rightarrow> nat \<Rightarrow> retype_node list \<Rightarrow> string \<Rightarrow> retype_conflict list option" where
  "collectConflicts ctx fuel node parentType [] =
     Some [\<lparr>cf_node = node, cf_reason = NothingFitsInside (the parentType)\<rparr>]"
| "collectConflicts ctx fuel node parentType (cand # cands) = collectAll ctx fuel (rc_childrenOf ctx (rn_id node)) cand"
| "collectAll ctx fuel [] cand = Some []"
| "collectAll ctx 0 (child # children) cand = None"
| "collectAll ctx (Suc fuel) (child # children) cand =
     (case resolveNode ctx (Suc fuel) child cand of
        None \<Rightarrow> None
      | Some (Some _) \<Rightarrow> collectAll ctx (Suc fuel) children cand
      | Some None \<Rightarrow>
          (case (collectConflicts ctx fuel child (Some cand) (candidateTypes ctx cand), collectAll ctx (Suc fuel) children cand) of
             (Some out, Some out') \<Rightarrow> Some (out @ out')
           | _ \<Rightarrow> None))"
  by pat_completeness auto
termination
  by (relation "measures [\<lambda>x. case x of Inl (ctx, fuel, _) \<Rightarrow> fuel | Inr (ctx, fuel, _) \<Rightarrow> fuel,
      \<lambda>x. case x of Inl _ \<Rightarrow> 1 | Inr _ \<Rightarrow> 0,
      \<lambda>x. case x of Inl _ \<Rightarrow> 0 | Inr (_, _, children, _) \<Rightarrow> length children]")
    auto

definition planRetype :: "retype_context \<Rightarrow> nat \<Rightarrow> retype_node \<Rightarrow> string \<Rightarrow> retype_plan option" where
  "planRetype ctx fuel rootNode newType =
     (case tryCands ctx fuel rootNode True [newType] of
        None \<Rightarrow> None
      | Some (Some changes) \<Rightarrow> Some \<lparr>rp_changes = changes, rp_conflicts = [], rp_ok = True\<rparr>
      | Some None \<Rightarrow>
          map_option (\<lambda>conflicts. \<lparr>rp_changes = [], rp_conflicts = conflicts, rp_ok = False\<rparr>)
            (collectConflicts ctx fuel rootNode (rc_parentTypeOf ctx (rn_id rootNode)) [newType]))"

section \<open>The subtree\<close>

text \<open>The nodes below a node, parents first, when the fuel reaches the leaves.\<close>

fun nodesUnder :: "retype_context \<Rightarrow> nat \<Rightarrow> retype_node \<Rightarrow> retype_node list option"
  and subtreesOf :: "retype_context \<Rightarrow> nat \<Rightarrow> retype_node list \<Rightarrow> retype_node list option" where
  "nodesUnder ctx 0 node = None"
| "nodesUnder ctx (Suc fuel) node = map_option ((#) node) (subtreesOf ctx fuel (rc_childrenOf ctx (rn_id node)))"
| "subtreesOf ctx fuel [] = Some []"
| "subtreesOf ctx fuel (c # cs) =
     (case (nodesUnder ctx fuel c, subtreesOf ctx fuel cs) of
        (Some xs, Some ys) \<Rightarrow> Some (xs @ ys) | _ \<Rightarrow> None)"

definition treeBelow :: "retype_context \<Rightarrow> nat \<Rightarrow> retype_node \<Rightarrow> bool" where
  "treeBelow ctx fuel node =
     (case subtreesOf ctx fuel (rc_childrenOf ctx (rn_id node)) of
        None \<Rightarrow> False | Some ns \<Rightarrow> distinct (map rn_id (node # ns)))"

definition below :: "retype_context \<Rightarrow> nat \<Rightarrow> retype_node \<Rightarrow> retype_node list" where
  "below ctx fuel node = node # the (subtreesOf ctx fuel (rc_childrenOf ctx (rn_id node)))"

text \<open>The walk returns on a finite subtree.\<close>

lemma resolution_returns:
  "nodesUnder ctx fuel node \<noteq> None \<Longrightarrow> resolveNode ctx fuel node p \<noteq> None"
  "subtreesOf ctx fuel' (rc_childrenOf ctx (rn_id node')) \<noteq> None \<Longrightarrow> tryCands ctx fuel' node' isRoot cands \<noteq> None"
  "subtreesOf ctx fuel'' cs \<noteq> None \<Longrightarrow> resolveAll ctx fuel'' cs cand \<noteq> None"
proof (induction ctx fuel node p and ctx fuel' node' isRoot cands and ctx fuel'' cs cand
    rule: resolveNode_tryCands_resolveAll.induct)
  case (4 ctx fuel node isRoot cand cands)
  then show ?case by (cases "resolveAll ctx fuel (rc_childrenOf ctx (rn_id node)) cand") (auto split: option.splits)
next
  case (6 ctx fuel child children cand)
  then obtain xs ys where "nodesUnder ctx fuel child = Some xs" "subtreesOf ctx fuel children = Some ys"
    by (auto split: option.splits)
  then show ?case using "6.IH" by (auto split: option.splits)
qed auto

lemma subtree_head: "nodesUnder ctx fuel n = Some ns \<Longrightarrow> \<exists>fuel' ns'. fuel = Suc fuel' \<and> ns = n # ns' \<and> subtreesOf ctx fuel' (rc_childrenOf ctx (rn_id n)) = Some ns'"
  by (cases fuel) auto

lemma subtrees_Cons:
  "subtreesOf ctx fuel (c # cs) = Some ns \<Longrightarrow>
     \<exists>xs ys. nodesUnder ctx fuel c = Some xs \<and> subtreesOf ctx fuel cs = Some ys \<and> ns = xs @ ys"
  by (auto split: option.splits)

text \<open>A subtree holds the children of its nodes.\<close>

lemma subtree_closed:
  "nodesUnder ctx fuel n = Some ns \<Longrightarrow> m \<in> set ns \<Longrightarrow> set (rc_childrenOf ctx (rn_id m)) \<subseteq> set ns"
  "subtreesOf ctx fuel' cs = Some ns' \<Longrightarrow> set cs \<subseteq> set ns' \<and> (m' \<in> set ns' \<longrightarrow> set (rc_childrenOf ctx (rn_id m')) \<subseteq> set ns')"
proof (induction ctx fuel n and ctx fuel' cs arbitrary: ns m and ns' m' rule: nodesUnder_subtreesOf.induct)
  case (4 ctx fuel c cs)
  obtain xs ys where xy: "nodesUnder ctx fuel c = Some xs" "subtreesOf ctx fuel cs = Some ys" "ns' = xs @ ys"
    using subtrees_Cons [OF "4.prems"] by blast
  then show ?case using "4.IH"(1) [OF xy(1), of m'] "4.IH"(2) [OF xy(2), of m'] subtree_head [OF xy(1)] by fastforce
qed (fastforce split: option.splits)+

section \<open>What the changes do\<close>

definition changeMap :: "retype_change list \<Rightarrow> (string \<times> string) list" where
  "changeMap out = map (\<lambda>c. (rn_id (ch_node c), ch_toType c)) out"

definition typeAfter :: "retype_change list \<Rightarrow> retype_node \<Rightarrow> string" where
  "typeAfter out n = (case map_of (changeMap out) (rn_id n) of None \<Rightarrow> rn_type n | Some t \<Rightarrow> t)"

definition changed :: "retype_change list \<Rightarrow> retype_node \<Rightarrow> bool" where
  "changed out n \<longleftrightarrow> n \<in> ch_node ` set out"

lemma typeAfter_append:
  assumes "\<And>c. c \<in> set out' \<Longrightarrow> rn_id (ch_node c) \<noteq> rn_id n"
  shows "typeAfter (out @ out') n = typeAfter out n"
proof -
  have "map_of (changeMap out') (rn_id n) = None" using assms by (fastforce simp: changeMap_def map_of_eq_None_iff)
  then show ?thesis by (simp add: typeAfter_def changeMap_def map_add_def split: option.splits)
qed

lemma typeAfter_append':
  assumes "\<And>c. c \<in> set out \<Longrightarrow> rn_id (ch_node c) \<noteq> rn_id n"
  shows "typeAfter (out @ out') n = typeAfter out' n"
proof -
  have "map_of (changeMap out) (rn_id n) = None" using assms by (fastforce simp: changeMap_def map_of_eq_None_iff)
  then show ?thesis by (simp add: typeAfter_def changeMap_def map_add_def split: option.splits)
qed

lemma typeAfter_unchanged: "\<forall>c \<in> set out. rn_id (ch_node c) \<noteq> rn_id n \<Longrightarrow> typeAfter out n = rn_type n"
  using typeAfter_append [of out n "[]"] by (simp add: typeAfter_def changeMap_def)

lemma typeAfter_Cons:
  "typeAfter (changeOf n t r # out) m = (if rn_id m = rn_id n then t else typeAfter out m)"
  by (simp add: typeAfter_def changeMap_def changeOf_def)

text \<open>A list of changes to some of the nodes of a subtree: each once, and with the children of each
  changed node nested under its new type. No node below an unchanged one is changed.\<close>

definition changesOk :: "retype_context \<Rightarrow> retype_node list \<Rightarrow> retype_change list \<Rightarrow> bool" where
  "changesOk ctx ns out \<longleftrightarrow>
     ch_node ` set out \<subseteq> set ns \<and> distinct (map (\<lambda>c. rn_id (ch_node c)) out)
     \<and> (\<forall>m \<in> set ns. \<forall>c \<in> set (rc_childrenOf ctx (rn_id m)).
          if changed out m then containmentAllowed ctx (typeAfter out m) (typeAfter out c) else \<not> changed out c)"

text \<open>The changes of the cascade: to types of the ontology, each for the reader to edit.\<close>

definition cascadeOk :: "retype_context \<Rightarrow> retype_change list \<Rightarrow> bool" where
  "cascadeOk ctx out \<longleftrightarrow> (\<forall>c \<in> set out. ch_toType c \<in> et_id ` set (rc_entityTypes ctx) \<and> ch_editable c)"

lemma tryCands_Some:
  "tryCands ctx fuel n isRoot cands = Some (Some out) \<Longrightarrow>
     \<exists>t out'. t \<in> set cands \<and> out = changeOf n t isRoot # out' \<and> resolveAll ctx fuel (rc_childrenOf ctx (rn_id n)) t = Some (Some out')"
proof (induction cands)
  case (Cons t cands)
  then show ?case by (cases "resolveAll ctx fuel (rc_childrenOf ctx (rn_id n)) t") (auto split: option.splits)
qed simp

lemma changes_append:
  assumes "changesOk ctx xs out" "changesOk ctx ys out'" "distinct (map rn_id (xs @ ys))"
    and closed: "\<And>m. m \<in> set xs \<Longrightarrow> set (rc_childrenOf ctx (rn_id m)) \<subseteq> set xs"
      "\<And>m. m \<in> set ys \<Longrightarrow> set (rc_childrenOf ctx (rn_id m)) \<subseteq> set ys"
  shows "changesOk ctx (xs @ ys) (out @ out')"
    and "m \<in> set xs \<Longrightarrow> typeAfter (out @ out') m = typeAfter out m"
    and "m \<in> set ys \<Longrightarrow> typeAfter (out @ out') m = typeAfter out' m"
proof -
  have nodes: "ch_node ` set out \<subseteq> set xs" "ch_node ` set out' \<subseteq> set ys"
    using assms(1,2) by (auto simp: changesOk_def)
  have dis: "rn_id x \<noteq> rn_id y" if "x \<in> set xs" "y \<in> set ys" for x y using assms(3) that by auto
  have tx: "typeAfter (out @ out') m = typeAfter out m" if "m \<in> set xs" for m
    using typeAfter_append [of out' m out] nodes(2) dis that by (metis image_subset_iff)
  have ty: "typeAfter (out @ out') m = typeAfter out' m" if "m \<in> set ys" for m
    using typeAfter_append' [of out m out'] nodes(1) dis that by (metis image_subset_iff)
  show "m \<in> set xs \<Longrightarrow> typeAfter (out @ out') m = typeAfter out m" "m \<in> set ys \<Longrightarrow> typeAfter (out @ out') m = typeAfter out' m"
    by (fact tx, fact ty)
  have cx: "changed (out @ out') m \<longleftrightarrow> changed out m" if "m \<in> set xs" for m
    using nodes(2) dis that by (auto simp: changed_def)
  have cy: "changed (out @ out') m \<longleftrightarrow> changed out' m" if "m \<in> set ys" for m
    using nodes(1) dis that by (auto simp: changed_def)
  have "distinct (map (\<lambda>c. rn_id (ch_node c)) (out @ out'))"
    using assms(1,2) nodes dis by (fastforce simp: changesOk_def)
  moreover have "if changed (out @ out') m then containmentAllowed ctx (typeAfter (out @ out') m) (typeAfter (out @ out') c)
      else \<not> changed (out @ out') c" if "m \<in> set (xs @ ys)" "c \<in> set (rc_childrenOf ctx (rn_id m))" for m c
  proof (cases "m \<in> set xs")
    case True
    then have "c \<in> set xs" using closed(1) that(2) by blast
    then show ?thesis using assms(1) True that(2) tx cx by (auto simp: changesOk_def)
  next
    case False
    then have "m \<in> set ys" "c \<in> set ys" using closed(2) that by auto
    then show ?thesis using assms(2) that(2) ty cy by (auto simp: changesOk_def)
  qed
  ultimately show "changesOk ctx (xs @ ys) (out @ out')" using assms(1,2) nodes unfolding changesOk_def by auto
qed

lemma changeOf_simps [simp]:
  "ch_node (changeOf n t r) = n" "ch_toType (changeOf n t r) = t" "ch_editable (changeOf n t r) = (\<not> r)"
  by (simp_all add: changeOf_def)

lemma changes_node:
  assumes "changesOk ctx ns out" "distinct (map rn_id (n # ns))"
    and kids: "set (rc_childrenOf ctx (rn_id n)) \<subseteq> set ns" "\<And>m. m \<in> set ns \<Longrightarrow> set (rc_childrenOf ctx (rn_id m)) \<subseteq> set ns"
    and fit: "\<forall>c \<in> set (rc_childrenOf ctx (rn_id n)). containmentAllowed ctx t (typeAfter out c)"
  shows "changesOk ctx (n # ns) (changeOf n t isRoot # out)"
proof -
  have nodes: "ch_node ` set out \<subseteq> set ns" using assms(1) by (simp add: changesOk_def)
  have other: "rn_id m \<noteq> rn_id n" "m \<noteq> n" if "m \<in> set ns" for m using assms(2) that by (auto simp: image_iff)
  have ta: "typeAfter (changeOf n t isRoot # out) m = typeAfter out m" if "m \<in> set ns" for m
    using other [OF that] by (simp add: typeAfter_Cons)
  have ch: "changed (changeOf n t isRoot # out) m \<longleftrightarrow> changed out m" if "m \<in> set ns" for m
    using other [OF that] by (auto simp: changed_def changeOf_def)
  have n: "changed (changeOf n t isRoot # out) n" "typeAfter (changeOf n t isRoot # out) n = t"
    by (simp_all add: changed_def changeOf_def typeAfter_Cons [unfolded changeOf_def])
  have "if changed (changeOf n t isRoot # out) m
      then containmentAllowed ctx (typeAfter (changeOf n t isRoot # out) m) (typeAfter (changeOf n t isRoot # out) c)
      else \<not> changed (changeOf n t isRoot # out) c"
    if m: "m \<in> set (n # ns)" and c: "c \<in> set (rc_childrenOf ctx (rn_id m))" for m c
  proof (cases "m = n")
    case True
    then have "c \<in> set ns" using kids(1) c by blast
    then show ?thesis using True n ta [of c] fit c by simp
  next
    case False
    then have m': "m \<in> set ns" using m by simp
    then have "c \<in> set ns" using kids(2) c by blast
    then show ?thesis using assms(1) m' c ta ch by (auto simp: changesOk_def)
  qed
  moreover have "distinct (map (\<lambda>c. rn_id (ch_node c)) (changeOf n t isRoot # out))"
    using assms(1) nodes other by (fastforce simp: changesOk_def changeOf_def)
  moreover have "ch_node ` set (changeOf n t isRoot # out) \<subseteq> set (n # ns)" using nodes by auto
  ultimately show ?thesis unfolding changesOk_def by blast
qed

lemma resolve_ok:
  "resolveNode ctx fuel node p = Some (Some out) \<Longrightarrow> nodesUnder ctx fuel node = Some ns \<Longrightarrow> distinct (map rn_id ns) \<Longrightarrow>
     changesOk ctx ns out \<and> cascadeOk ctx out \<and> containmentAllowed ctx p (typeAfter out node)"
  "tryCands ctx fuel' node' isRoot cands = Some (Some out') \<Longrightarrow> subtreesOf ctx fuel' (rc_childrenOf ctx (rn_id node')) = Some ns' \<Longrightarrow>
   distinct (map rn_id (node' # ns')) \<Longrightarrow>
     \<exists>t rest. t \<in> set cands \<and> out' = changeOf node' t isRoot # rest \<and> cascadeOk ctx rest \<and> changesOk ctx (node' # ns') out'"
  "resolveAll ctx fuel'' cs cand = Some (Some out'') \<Longrightarrow> subtreesOf ctx fuel'' cs = Some ns'' \<Longrightarrow> distinct (map rn_id ns'') \<Longrightarrow>
     changesOk ctx ns'' out'' \<and> cascadeOk ctx out'' \<and> (\<forall>c \<in> set cs. containmentAllowed ctx cand (typeAfter out'' c))"
proof (induction ctx fuel node p and ctx fuel' node' isRoot cands and ctx fuel'' cs cand
    arbitrary: out ns and out' ns' and out'' ns'' rule: resolveNode_tryCands_resolveAll.induct)
  case (2 ctx fuel node p)
  obtain ns' where ns: "ns = node # ns'" "subtreesOf ctx fuel (rc_childrenOf ctx (rn_id node)) = Some ns'"
    using subtree_head [OF "2.prems"(2)] by auto
  show ?case
  proof (cases "containmentAllowed ctx p (rn_type node)")
    case True
    then show ?thesis using "2.prems"(1) by (auto simp: changesOk_def cascadeOk_def changed_def typeAfter_def changeMap_def)
  next
    case False
    then have run: "tryCands ctx fuel node False (candidateTypes ctx p) = Some (Some out)" using "2.prems"(1) by simp
    obtain t rest where t: "t \<in> set (candidateTypes ctx p)" "out = changeOf node t False # rest" "cascadeOk ctx rest"
        "changesOk ctx (node # ns') out"
      using "2.IH" [OF False run ns(2)] "2.prems"(3) ns(1) by auto
    then have "cascadeOk ctx out" by (auto simp: cascadeOk_def changeOf_def candidateTypes_iff)
    moreover have "containmentAllowed ctx p (typeAfter out node)" using t(1,2) by (simp add: typeAfter_Cons candidateTypes_iff)
    ultimately show ?thesis using t(4) ns(1) by simp
  qed
next
  case (4 ctx fuel node isRoot t cands)
  note cl = subtree_closed(2) [OF "4.prems"(2)]
  show ?case
  proof (cases "resolveAll ctx fuel (rc_childrenOf ctx (rn_id node)) t")
    case None
    then show ?thesis using "4.prems"(1) by simp
  next
    case (Some r)
    show ?thesis
    proof (cases r)
      case None
      then show ?thesis using "4.IH"(2) [OF Some None _ "4.prems"(2,3)] "4.prems"(1) Some by auto
    next
      case (Some rest)
      then have run: "resolveAll ctx fuel (rc_childrenOf ctx (rn_id node)) t = Some (Some rest)"
        using \<open>resolveAll ctx fuel (rc_childrenOf ctx (rn_id node)) t = Some r\<close> by simp
      then have o: "out' = changeOf node t isRoot # rest" using "4.prems"(1) by simp
      have "changesOk ctx ns' rest" "cascadeOk ctx rest"
          "\<forall>c \<in> set (rc_childrenOf ctx (rn_id node)). containmentAllowed ctx t (typeAfter rest c)"
        using "4.IH"(1) [OF run "4.prems"(2)] "4.prems"(3) by auto
      then show ?thesis using changes_node [OF _ "4.prems"(3), of ctx rest t isRoot] cl o by auto
    qed
  qed
next
  case (5 ctx fuel cand)
  then show ?case by (auto simp: changesOk_def cascadeOk_def)
next
  case (6 ctx fuel child children cand)
  obtain xs ys where xy: "nodesUnder ctx fuel child = Some xs" "subtreesOf ctx fuel children = Some ys" "ns'' = xs @ ys"
    using subtrees_Cons [OF "6.prems"(2)] by blast
  obtain o1 o2 where o: "resolveNode ctx fuel child cand = Some (Some o1)" "resolveAll ctx fuel children cand = Some (Some o2)"
      "out'' = o1 @ o2"
    using "6.prems"(1) by (auto split: option.splits)
  have 1: "changesOk ctx xs o1" "cascadeOk ctx o1" "containmentAllowed ctx cand (typeAfter o1 child)"
    using "6.IH"(1) [OF o(1) xy(1)] "6.prems"(3) xy(3) by auto
  have 2: "changesOk ctx ys o2" "cascadeOk ctx o2" "\<forall>c \<in> set children. containmentAllowed ctx cand (typeAfter o2 c)"
    using "6.IH"(2) [OF o(1) refl o(2) xy(2)] "6.prems"(3) xy(3) by auto
  have d: "distinct (map rn_id (xs @ ys))" using "6.prems"(3) xy(3) by simp
  note app = changes_append [OF 1(1) 2(1) d subtree_closed(1) [OF xy(1)]]
  have cl: "m \<in> set ys \<Longrightarrow> set (rc_childrenOf ctx (rn_id m)) \<subseteq> set ys" for m using subtree_closed(2) [OF xy(2)] by blast
  have "child \<in> set xs" "set children \<subseteq> set ys" using subtree_head [OF xy(1)] subtree_closed(2) [OF xy(2)] by auto
  then show ?case using app(1) [OF _ cl] app(2) [OF _ cl, of child] app(3) [OF _ cl] 1(2,3) 2(2,3) o(3) xy(3)
    by (auto simp: cascadeOk_def)
qed auto

section \<open>When a plan is found\<close>

text \<open>A retyping of the nodes of a subtree: every type kept or one of the ontology, and every child
  nested under its parent.\<close>

definition nestedOk :: "retype_context \<Rightarrow> retype_node list \<Rightarrow> (retype_node \<Rightarrow> string) \<Rightarrow> bool" where
  "nestedOk ctx ns ty \<longleftrightarrow>
     (\<forall>m \<in> set ns. (ty m = rn_type m \<or> ty m \<in> et_id ` set (rc_entityTypes ctx))
        \<and> (\<forall>c \<in> set (rc_childrenOf ctx (rn_id m)). containmentAllowed ctx (ty m) (ty c)))"

lemma nestedOk_append [simp]: "nestedOk ctx (xs @ ys) ty \<longleftrightarrow> nestedOk ctx xs ty \<and> nestedOk ctx ys ty"
  by (auto simp: nestedOk_def)

lemma resolve_complete:
  "nodesUnder ctx fuel node = Some ns \<Longrightarrow> nestedOk ctx ns ty \<Longrightarrow> containmentAllowed ctx p (ty node) \<Longrightarrow>
     resolveNode ctx fuel node p \<noteq> Some None"
  "subtreesOf ctx fuel' (rc_childrenOf ctx (rn_id node')) = Some ns' \<Longrightarrow> nestedOk ctx ns' ty \<Longrightarrow> t \<in> set cands \<Longrightarrow>
   \<forall>c \<in> set (rc_childrenOf ctx (rn_id node')). containmentAllowed ctx t (ty c) \<Longrightarrow>
     tryCands ctx fuel' node' isRoot cands \<noteq> Some None"
  "subtreesOf ctx fuel'' cs = Some ns'' \<Longrightarrow> nestedOk ctx ns'' ty \<Longrightarrow> \<forall>c \<in> set cs. containmentAllowed ctx cand (ty c) \<Longrightarrow>
     resolveAll ctx fuel'' cs cand \<noteq> Some None"
proof (induction ctx fuel node p and ctx fuel' node' isRoot cands and ctx fuel'' cs cand
    arbitrary: ns and ns' t and ns'' rule: resolveNode_tryCands_resolveAll.induct)
  case (2 ctx fuel node p)
  obtain ns' where ns: "ns = node # ns'" "subtreesOf ctx fuel (rc_childrenOf ctx (rn_id node)) = Some ns'"
    using subtree_head [OF "2.prems"(1)] by auto
  show ?case
  proof (cases "containmentAllowed ctx p (rn_type node)")
    case False
    then have "ty node \<noteq> rn_type node" using "2.prems"(3) by auto
    then have "ty node \<in> set (candidateTypes ctx p)" using "2.prems"(2,3) ns(1) by (simp add: nestedOk_def candidateTypes_iff)
    then have "tryCands ctx fuel node False (candidateTypes ctx p) \<noteq> Some None"
      using "2.IH" [OF False ns(2), of "ty node"] "2.prems"(2) ns(1) by (simp add: nestedOk_def)
    then show ?thesis using False by simp
  qed simp
next
  case (4 ctx fuel node isRoot cand cands)
  show ?case
  proof (cases "resolveAll ctx fuel (rc_childrenOf ctx (rn_id node)) cand = Some None")
    case True
    then have "t \<noteq> cand" using "4.IH"(1) [OF "4.prems"(1,2)] "4.prems"(4) by auto
    then show ?thesis using "4.IH"(2) [OF True refl "4.prems"(1,2) _ "4.prems"(4)] "4.prems"(3) True by simp
  qed (auto split: option.splits)
next
  case (6 ctx fuel child children cand)
  obtain xs ys where xy: "nodesUnder ctx fuel child = Some xs" "subtreesOf ctx fuel children = Some ys" "ns'' = xs @ ys"
    using subtrees_Cons [OF "6.prems"(1)] by blast
  have "resolveNode ctx fuel child cand \<noteq> Some None" using "6.IH"(1) [OF xy(1)] "6.prems"(2,3) xy(3) by simp
  moreover have "resolveAll ctx fuel children cand \<noteq> Some None" if "resolveNode ctx fuel child cand = Some (Some out)" for out
    using "6.IH"(2) [OF that refl xy(2)] "6.prems"(2,3) xy(3) by simp
  ultimately show ?case by (auto split: option.splits)
qed auto

section \<open>When none is\<close>

definition conflictOk :: "retype_context \<Rightarrow> retype_node list \<Rightarrow> retype_conflict \<Rightarrow> bool" where
  "conflictOk ctx ns cf \<longleftrightarrow> cf_node cf \<in> set ns \<and> (\<exists>p. cf_reason cf = NothingFitsInside p \<and> candidateTypes ctx p = [])"

lemma conflictOk_append: "conflictOk ctx (xs @ ys) cf \<longleftrightarrow> conflictOk ctx xs cf \<or> conflictOk ctx ys cf"
  by (auto simp: conflictOk_def)

lemma conflictOk_Cons: "conflictOk ctx xs cf \<Longrightarrow> conflictOk ctx (n # xs) cf"
  by (auto simp: conflictOk_def)

lemma conflicts_reported:
  "subtreesOf ctx fuel (rc_childrenOf ctx (rn_id node)) = Some ns \<Longrightarrow> tryCands ctx fuel node isRoot cands = Some None \<Longrightarrow>
   (cands = [] \<Longrightarrow> candidateTypes ctx (the pt) = []) \<Longrightarrow>
     \<exists>out. collectConflicts ctx fuel node pt cands = Some out \<and> out \<noteq> [] \<and> (\<forall>cf \<in> set out. conflictOk ctx (node # ns) cf)"
  "subtreesOf ctx fuel' cs = Some ns' \<Longrightarrow>
     \<exists>out. collectAll ctx fuel' cs cand = Some out \<and> (resolveAll ctx fuel' cs cand = Some None \<longrightarrow> out \<noteq> [])
       \<and> (\<forall>cf \<in> set out. conflictOk ctx ns' cf)"
proof (induction ctx fuel node pt cands and ctx fuel' cs cand arbitrary: ns isRoot and ns'
    rule: collectConflicts_collectAll.induct)
  case (1 ctx fuel node pt)
  then show ?case by (auto simp: conflictOk_def)
next
  case (2 ctx fuel node pt cand cands)
  have "resolveAll ctx fuel (rc_childrenOf ctx (rn_id node)) cand = Some None"
    using "2.prems"(2) by (auto split: option.splits)
  then show ?case using "2.IH" [OF "2.prems"(1)] conflictOk_Cons by fastforce
next
  case (4 ctx child children cand)
  then show ?case by (auto split: option.splits)
next
  case (5 ctx fuel child children cand)
  obtain xs ys where xy: "nodesUnder ctx (Suc fuel) child = Some xs" "subtreesOf ctx (Suc fuel) children = Some ys" "ns' = xs @ ys"
    using subtrees_Cons [OF "5.prems"] by blast
  obtain xs' where x: "xs = child # xs'" "subtreesOf ctx fuel (rc_childrenOf ctx (rn_id child)) = Some xs'"
    using subtree_head [OF xy(1)] by auto
  obtain r where r: "resolveNode ctx (Suc fuel) child cand = Some r" using resolution_returns(1) [of ctx "Suc fuel" child cand] xy(1) by auto
  show ?case
  proof (cases r)
    case (Some out)
    obtain o2 where "collectAll ctx (Suc fuel) children cand = Some o2"
        "resolveAll ctx (Suc fuel) children cand = Some None \<longrightarrow> o2 \<noteq> []" "\<forall>cf \<in> set o2. conflictOk ctx ys cf"
      using "5.IH"(3) [OF r Some xy(2)] by blast
    then show ?thesis using r Some xy(3) by (auto simp: conflictOk_append split: option.splits)
  next
    case None
    have na: "tryCands ctx fuel child False (candidateTypes ctx cand) = Some None"
      using r None by (auto split: if_splits)
    obtain o1 where o1: "collectConflicts ctx fuel child (Some cand) (candidateTypes ctx cand) = Some o1" "o1 \<noteq> []"
        "\<forall>cf \<in> set o1. conflictOk ctx xs cf"
      using "5.IH"(1) [OF r None x(2) na] x(1) by auto
    obtain o2 where "collectAll ctx (Suc fuel) children cand = Some o2" "\<forall>cf \<in> set o2. conflictOk ctx ys cf"
      using "5.IH"(2) [OF r None xy(2)] by blast
    then show ?thesis using r None o1 xy(3) by (auto simp: conflictOk_append)
  qed
qed auto

section \<open>Properties\<close>

definition existingNested :: "retype_context \<Rightarrow> retype_node list \<Rightarrow> bool" where
  "existingNested ctx ns \<longleftrightarrow> (\<forall>m \<in> set ns. \<forall>c \<in> set (rc_childrenOf ctx (rn_id m)). containmentAllowed ctx (rn_type m) (rn_type c))"

lemma treeBelow_subtrees:
  assumes "treeBelow ctx fuel node"
  obtains ns where "subtreesOf ctx fuel (rc_childrenOf ctx (rn_id node)) = Some ns" "below ctx fuel node = node # ns"
    "distinct (map rn_id (node # ns))"
  using assms by (auto simp: treeBelow_def below_def split: option.splits)

lemma planRetype_ok:
  "planRetype ctx fuel node t = Some plan \<and> rp_ok plan \<longleftrightarrow>
     (\<exists>out. tryCands ctx fuel node True [t] = Some (Some out) \<and> plan = \<lparr>rp_changes = out, rp_conflicts = [], rp_ok = True\<rparr>)"
  by (auto simp: planRetype_def split: option.splits)

lemma plan_changes:
  assumes tree: "treeBelow ctx fuel node" and plan: "planRetype ctx fuel node newType = Some plan" "rp_ok plan"
  shows "\<exists>rest. rp_changes plan = changeOf node newType True # rest \<and> cascadeOk ctx rest \<and> rp_conflicts plan = []
    \<and> changesOk ctx (below ctx fuel node) (rp_changes plan) \<and> typeAfter (rp_changes plan) node = newType"
proof -
  obtain ns where ns: "subtreesOf ctx fuel (rc_childrenOf ctx (rn_id node)) = Some ns" "below ctx fuel node = node # ns"
      "distinct (map rn_id (node # ns))"
    using treeBelow_subtrees [OF tree] .
  obtain out where out: "tryCands ctx fuel node True [newType] = Some (Some out)"
      "plan = \<lparr>rp_changes = out, rp_conflicts = [], rp_ok = True\<rparr>"
    using plan planRetype_ok [of ctx fuel node newType plan] by auto
  then show ?thesis using resolve_ok(2) [OF out(1) ns(1,3)] ns(2) by (auto simp: typeAfter_Cons)
qed

text \<open>Each change is of one of the \<open>roots\<close>, or of a child of a node changed before it.\<close>

definition changesFollow :: "retype_context \<Rightarrow> retype_node set \<Rightarrow> retype_change list \<Rightarrow> bool" where
  "changesFollow ctx roots out \<longleftrightarrow>
     (\<forall>j < length out. ch_node (out ! j) \<in> roots \<or> (\<exists>i < j. ch_node (out ! j) \<in> set (rc_childrenOf ctx (rn_id (ch_node (out ! i))))))"

lemma changesFollow_append:
  assumes "changesFollow ctx A out" "changesFollow ctx B out'"
  shows "changesFollow ctx (A \<union> B) (out @ out')"
  unfolding changesFollow_def
proof (intro allI impI)
  fix j assume j: "j < length (out @ out')"
  show "ch_node ((out @ out') ! j) \<in> A \<union> B \<or> (\<exists>i < j. ch_node ((out @ out') ! j) \<in> set (rc_childrenOf ctx (rn_id (ch_node ((out @ out') ! i)))))"
  proof (cases "j < length out")
    case True
    then show ?thesis using assms(1) by (fastforce simp: changesFollow_def nth_append)
  next
    case False
    let ?k = "j - length out"
    have "?k < length out'" using j False by simp
    then consider "ch_node (out' ! ?k) \<in> B" | i where "i < ?k" "ch_node (out' ! ?k) \<in> set (rc_childrenOf ctx (rn_id (ch_node (out' ! i))))"
      using assms(2) by (auto simp: changesFollow_def)
    then show ?thesis
    proof cases
      case 1
      then show ?thesis using False by (simp add: nth_append)
    next
      case (2 i)
      then show ?thesis using False by (intro disjI2 exI [of _ "length out + i"]) (auto simp: nth_append)
    qed
  qed
qed

lemma changesFollow_Cons:
  assumes "changesFollow ctx (set (rc_childrenOf ctx (rn_id n))) out"
  shows "changesFollow ctx {n} (changeOf n t isRoot # out)"
  unfolding changesFollow_def
proof (intro allI impI)
  fix j assume j: "j < length (changeOf n t isRoot # out)"
  let ?out = "changeOf n t isRoot # out"
  show "ch_node (?out ! j) \<in> {n} \<or> (\<exists>i < j. ch_node (?out ! j) \<in> set (rc_childrenOf ctx (rn_id (ch_node (?out ! i)))))"
  proof (cases j)
    case (Suc k)
    then consider "ch_node (out ! k) \<in> set (rc_childrenOf ctx (rn_id n))"
      | i where "i < k" "ch_node (out ! k) \<in> set (rc_childrenOf ctx (rn_id (ch_node (out ! i))))"
      using assms j by (auto simp: changesFollow_def)
    then show ?thesis
    proof cases
      case 1
      then show ?thesis using Suc by (intro disjI2 exI [of _ 0]) simp
    next
      case (2 i)
      then show ?thesis using Suc by (intro disjI2 exI [of _ "Suc i"]) simp
    qed
  qed simp
qed

lemma resolve_follows:
  "resolveNode ctx fuel node p = Some (Some out) \<Longrightarrow> changesFollow ctx {node} out"
  "tryCands ctx fuel' node' isRoot cands = Some (Some out') \<Longrightarrow> changesFollow ctx {node'} out'"
  "resolveAll ctx fuel'' cs cand = Some (Some out'') \<Longrightarrow> changesFollow ctx (set cs) out''"
proof (induction ctx fuel node p and ctx fuel' node' isRoot cands and ctx fuel'' cs cand
    arbitrary: out and out' and out'' rule: resolveNode_tryCands_resolveAll.induct)
  case (2 ctx fuel node p)
  then show ?case by (cases "containmentAllowed ctx p (rn_type node)") (auto simp: changesFollow_def)
next
  case (4 ctx fuel node isRoot t cands)
  then show ?case by (auto split: option.splits intro: changesFollow_Cons)
next
  case (6 ctx fuel child children cand)
  obtain o1 o2 where o: "resolveNode ctx fuel child cand = Some (Some o1)" "resolveAll ctx fuel children cand = Some (Some o2)"
      "out'' = o1 @ o2"
    using "6.prems"(1) by (auto split: option.splits)
  have "changesFollow ctx ({child} \<union> set children) (o1 @ o2)"
    by (rule changesFollow_append [OF "6.IH"(1) [OF o(1)] "6.IH"(2) [OF o(1) refl o(2)]])
  then show ?case using o(3) by simp
qed (auto simp: changesFollow_def)

text \<open>C34. A plan that is found is a legal retyping: the root first, with the type asked for, then the
  cascaded changes, each of a child of a node changed before it, each of a node of the subtree, once, to a type of the
  ontology; after them every child of a changed node nests under it, and no change lies below an unchanged node.\<close>

theorem retype_plan_is_legal:
  assumes "treeBelow ctx fuel node" "planRetype ctx fuel node newType = Some plan" "rp_ok plan"
  shows "rp_changes plan \<noteq> [] \<and> hd (rp_changes plan) = changeOf node newType True \<and> cascadeOk ctx (tl (rp_changes plan))
    \<and> changesOk ctx (below ctx fuel node) (rp_changes plan) \<and> typeAfter (rp_changes plan) node = newType
    \<and> (\<forall>j < length (rp_changes plan). 0 < j \<longrightarrow>
         (\<exists>i < j. ch_node (rp_changes plan ! j) \<in> set (rc_childrenOf ctx (rn_id (ch_node (rp_changes plan ! i))))))"
proof -
  note legal = plan_changes [OF assms]
  have first: "rp_changes plan ! 0 = changeOf node newType True" using legal by (metis nth_Cons_0)
  obtain out where "tryCands ctx fuel node True [newType] = Some (Some out)" "rp_changes plan = out"
    using assms(2,3) planRetype_ok [of ctx fuel node newType plan] by auto
  then have follow: "changesFollow ctx {node} (rp_changes plan)" using resolve_follows(2) by blast
  have once: "distinct (map (\<lambda>c. rn_id (ch_node c)) (rp_changes plan))" using legal by (auto simp: changesOk_def)
  have "\<exists>i < j. ch_node (rp_changes plan ! j) \<in> set (rc_childrenOf ctx (rn_id (ch_node (rp_changes plan ! i))))"
    if j: "j < length (rp_changes plan)" "0 < j" for j
  proof -
    have "rn_id (ch_node (rp_changes plan ! j)) \<noteq> rn_id (ch_node (rp_changes plan ! 0))"
      using nth_eq_iff_index_eq [OF once, of j 0] j order.strict_trans2 [OF j(2), of "length (rp_changes plan)"] by (simp add: nth_map)
    then have "ch_node (rp_changes plan ! j) \<noteq> node" using first by auto
    then show ?thesis using follow j(1) by (auto simp: changesFollow_def)
  qed
  then show ?thesis using legal by (metis list.distinct(1) list.sel(1,3))
qed

text \<open>A retyping of the nodes below \<open>node\<close>: the type asked for at the root, each other node keeping its
  type or taking one of the ontology, and every child nesting under its parent.\<close>

definition retyping :: "retype_context \<Rightarrow> retype_node list \<Rightarrow> retype_node \<Rightarrow> string \<Rightarrow> (retype_node \<Rightarrow> string) \<Rightarrow> bool" where
  "retyping ctx nodes node newType ty \<longleftrightarrow> ty node = newType
     \<and> (\<forall>m \<in> set nodes. m = node \<or> ty m = rn_type m \<or> ty m \<in> et_id ` set (rc_entityTypes ctx))
     \<and> (\<forall>m \<in> set nodes. \<forall>c \<in> set (rc_childrenOf ctx (rn_id m)). containmentAllowed ctx (ty m) (ty c))"

lemma typeAfter_known:
  assumes "cascadeOk ctx rest" "rn_id m \<noteq> rn_id node"
  shows "typeAfter (changeOf node newType True # rest) m = rn_type m
    \<or> typeAfter (changeOf node newType True # rest) m \<in> et_id ` set (rc_entityTypes ctx)"
proof (cases "map_of (changeMap rest) (rn_id m)")
  case None
  then show ?thesis using assms(2) by (simp add: typeAfter_Cons) (simp add: typeAfter_def)
next
  case (Some t)
  then have "t \<in> et_id ` set (rc_entityTypes ctx)"
    using assms(1) map_of_SomeD [OF Some] by (auto simp: changeMap_def cascadeOk_def)
  then show ?thesis using Some assms(2) by (simp add: typeAfter_Cons) (simp add: typeAfter_def)
qed

text \<open>A plan that is found is a retyping, when the nesting was legal before.\<close>

lemma plan_is_a_retyping:
  assumes tree: "treeBelow ctx fuel node" and legal: "existingNested ctx (below ctx fuel node)"
    and plan: "planRetype ctx fuel node newType = Some plan" "rp_ok plan"
  shows "retyping ctx (below ctx fuel node) node newType (typeAfter (rp_changes plan))"
proof -
  obtain ns where ns: "subtreesOf ctx fuel (rc_childrenOf ctx (rn_id node)) = Some ns" "below ctx fuel node = node # ns"
      "distinct (map rn_id (node # ns))"
    using treeBelow_subtrees [OF tree] .
  note kids = subtree_closed(2) [OF ns(1)]
  obtain rest where out: "rp_changes plan = changeOf node newType True # rest" "cascadeOk ctx rest"
      "changesOk ctx (node # ns) (rp_changes plan)" "typeAfter (rp_changes plan) node = newType"
    using plan_changes [OF tree plan] ns(2) by auto
  let ?ty = "typeAfter (rp_changes plan)"
  have kept: "?ty m = rn_type m" if "m \<in> set (node # ns)" "\<not> changed (rp_changes plan) m" for m
  proof (rule typeAfter_unchanged, rule ballI)
    fix c assume c: "c \<in> set (rp_changes plan)"
    then have "ch_node c \<in> set (node # ns)" "ch_node c \<noteq> m" using out(3) that(2) by (auto simp: changesOk_def changed_def)
    then show "rn_id (ch_node c) \<noteq> rn_id m" using ns(3) that(1) by (metis distinct_map inj_on_def)
  qed
  have "containmentAllowed ctx (?ty m) (?ty c)" if mc: "m \<in> set (node # ns)" "c \<in> set (rc_childrenOf ctx (rn_id m))" for m c
  proof (cases "changed (rp_changes plan) m")
    case True
    then show ?thesis using out(3) mc unfolding changesOk_def by metis
  next
    case False
    then have "\<not> changed (rp_changes plan) c" using out(3) mc unfolding changesOk_def by metis
    moreover have "c \<in> set (node # ns)" using kids mc by auto
    moreover have "containmentAllowed ctx (rn_type m) (rn_type c)" using legal mc unfolding existingNested_def ns(2) by blast
    ultimately show ?thesis using kept [OF mc(1) False] kept [of c] by simp
  qed
  moreover have "rn_id m \<noteq> rn_id node" if "m \<in> set ns" for m using ns(3) that by (auto simp: image_iff)
  ultimately show ?thesis using typeAfter_known [OF out(2), of _ node newType] out(1,4) unfolding retyping_def ns(2) by auto
qed

text \<open>C5. The resolver is complete: on a finite subtree whose nesting is legal as it stands, it
  returns, and it finds a plan exactly when the subtree can be retyped at all, with the type asked
  for at its root. When it cannot, at least one conflict is reported, each of a node of the subtree
  that had to go inside a type nothing can go inside.\<close>

theorem retype_fails_only_when_it_must:
  assumes tree: "treeBelow ctx fuel node" and legal: "existingNested ctx (below ctx fuel node)"
  shows "\<exists>plan. planRetype ctx fuel node newType = Some plan
    \<and> (rp_ok plan \<longleftrightarrow> (\<exists>ty. retyping ctx (below ctx fuel node) node newType ty))
    \<and> (\<not> rp_ok plan \<longrightarrow> rp_conflicts plan \<noteq> [] \<and> (\<forall>cf \<in> set (rp_conflicts plan). conflictOk ctx (below ctx fuel node) cf))"
proof -
  obtain ns where ns: "subtreesOf ctx fuel (rc_childrenOf ctx (rn_id node)) = Some ns" "below ctx fuel node = node # ns"
      "distinct (map rn_id (node # ns))"
    using treeBelow_subtrees [OF tree] .
  obtain r where r: "tryCands ctx fuel node True [newType] = Some r" using resolution_returns(2) [of ctx fuel node] ns(1) by blast
  show ?thesis
  proof (cases r)
    case None
    have "\<not> retyping ctx (node # ns) node newType ty" for ty
    proof
      assume ty: "retyping ctx (node # ns) node newType ty"
      have other: "m \<noteq> node" if "m \<in> set ns" for m using ns(3) that by (auto simp: image_iff)
      have "nestedOk ctx ns ty" using ty other by (auto simp: nestedOk_def retyping_def)
      then show False using resolve_complete(2) [OF ns(1), of ty newType "[newType]" True] ty r None by (auto simp: retyping_def)
    qed
    moreover obtain out where "collectConflicts ctx fuel node (rc_parentTypeOf ctx (rn_id node)) [newType] = Some out" "out \<noteq> []"
        "\<forall>cf \<in> set out. conflictOk ctx (node # ns) cf"
      using conflicts_reported(1) [OF ns(1) r [unfolded None]] by blast
    ultimately show ?thesis unfolding planRetype_def ns(2) using r None by auto
  next
    case (Some out)
    have plan: "planRetype ctx fuel node newType = Some \<lparr>rp_changes = out, rp_conflicts = [], rp_ok = True\<rparr>"
      using r Some by (simp add: planRetype_def)
    then show ?thesis using plan_is_a_retyping [OF tree legal plan] by auto
  qed
qed

text \<open>A type that \<open>typesValidForNode\<close> offers needs no cascade.\<close>

lemma valid_type_changes_only_the_node:
  assumes "t \<in> set (typesValidForNode ctx node)"
  shows "planRetype ctx (Suc fuel) node t = Some \<lparr>rp_changes = [changeOf node t True], rp_conflicts = [], rp_ok = True\<rparr>"
proof -
  have "resolveAll ctx (Suc fuel) cs t = Some (Some [])" if "\<forall>c \<in> set cs. containmentAllowed ctx t (rn_type c)" for cs
    using that by (induction cs) auto
  then show ?thesis using assms by (simp add: typesValidForNode_def Let_def list_all_iff planRetype_def)
qed

section \<open>An example\<close>

definition retype_example :: retype_context where
  "retype_example =
     (let et = (\<lambda>i l. \<lparr>et_id = i, et_name = i, et_level = l, et_canContain = [], et_canBeContainedBy = []\<rparr>);
          rel = (\<lambda>i ss ts. \<lparr>rt_id = i, rt_name = None, rt_description = None, rt_sourceTypes = Some ss, rt_targetTypes = Some ts,
                  rt_isContainment = Some True, rt_isLineage = None\<rparr>);
          node = (\<lambda>i t. \<lparr>rn_id = i, rn_urn = i, rn_name = i, rn_type = t\<rparr>)
      in \<lparr>rc_entityTypes = [et ''S'' 1, et ''T'' 2, et ''C'' 3, et ''D'' 1, et ''B'' 1, et ''F'' 2],
          rc_relationshipTypes = [rel ''HAS_TABLE'' [''S''] [''T''],
            rel ''HAS_COLUMN'' [''T'', ''F''] [''C''], rel ''HAS_FILE'' [''D''] [''B'', ''F'']],
          rc_containmentEdgeTypes = [],
          rc_parentTypeOf = (\<lambda>_. None),
          rc_childrenOf = (\<lambda>i. if i = ''s'' then [node ''t'' ''T''] else if i = ''t'' then [node ''c'' ''C''] else []),
          rc_incidentLineageEdges = (\<lambda>_. []), rc_collate = (\<lambda>_. 0)\<rparr>)"

definition retype_top :: retype_node where
  "retype_top = \<lparr>rn_id = ''s'', rn_urn = ''s'', rn_name = ''s'', rn_type = ''S''\<rparr>"

text \<open>A schema S holds a table T with a column C; a directory D may hold a bundle B, which holds
  nothing, or a file F, which may have columns.\<close>

lemma retype_example_plan:
  "map_option (map (\<lambda>c. (rn_id (ch_node c), ch_toType c)) \<circ> rp_changes) (planRetype retype_example 3 retype_top ''D'')
     = Some [(''s'', ''D''), (''t'', ''F'')]"
  "map_option rp_ok (planRetype retype_example 3 retype_top ''D'') = Some True"
  "map_option (\<lambda>p. (rp_ok p, map (rn_id \<circ> cf_node) (rp_conflicts p))) (planRetype retype_example 3 retype_top ''C'') = Some (False, [''t''])"
  by code_simp+

lemma retype_example_tree: "treeBelow retype_example 3 retype_top"
  "existingNested retype_example (below retype_example 3 retype_top)"
  by code_simp+

lemma retype_plan_is_legal_witness:
  "\<exists>plan. planRetype retype_example 3 retype_top ''D'' = Some plan
     \<and> changesOk retype_example (below retype_example 3 retype_top) (rp_changes plan)
     \<and> typeAfter (rp_changes plan) retype_top = ''D''"
proof -
  obtain plan where "planRetype retype_example 3 retype_top ''D'' = Some plan" "rp_ok plan"
    using retype_example_plan(2) by auto
  then show ?thesis using retype_plan_is_legal [OF retype_example_tree(1)] by blast
qed

lemma retype_fails_only_when_it_must_witness:
  "\<exists>plan. planRetype retype_example 3 retype_top ''C'' = Some plan \<and> \<not> rp_ok plan \<and> rp_conflicts plan \<noteq> []"
proof -
  obtain plan where "planRetype retype_example 3 retype_top ''C'' = Some plan" "\<not> rp_ok plan"
    using retype_example_plan(3) by auto
  then show ?thesis using retype_fails_only_when_it_must [OF retype_example_tree, of "''C''"] by auto
qed

end
