(* ===== verification/Bulk_Links.thy ===== *)
theory Bulk_Links
  imports Ontology_Rules
begin

text \<open>
  \<open>src/frontend/src/lib/bulkLinks.ts\<close>, whole: the pairs a bulk link produces, the gate each goes
  through, the relationships a batch can use and what a drop would do. A pair's key joins two ids
  with the character 0; a \<open>Map\<close> is an association list in insertion order. \<open>localeCompare\<close> is the
  collation key it compares by. The memo of a fit checker is passed along. A verdict's text is
  the choice of wording with its arguments.
\<close>

section \<open>Memos\<close>

text \<open>A table that remembers what was computed for a key: a lookup computes on a miss. When the key
  determines the result, every lookup gives what computing gives, whatever the table has seen.\<close>

locale memo_table =
  fixes good :: "'c \<Rightarrow> bool" and key :: "'c \<Rightarrow> 'i \<Rightarrow> 'k" and compute :: "'c \<Rightarrow> 'i \<Rightarrow> 'v"
    and look :: "'c \<Rightarrow> ('k \<times> 'v) list \<Rightarrow> 'i \<Rightarrow> 'v \<times> ('k \<times> 'v) list"
  assumes key_determines: "good c \<Longrightarrow> key c x = key c y \<Longrightarrow> compute c x = compute c y"
    and look_hit: "map_of memo (key c x) = Some v \<Longrightarrow> look c memo x = (v, memo)"
    and look_miss: "map_of memo (key c x) = None \<Longrightarrow> look c memo x = (compute c x, AList.update (key c x) (compute c x) memo)"
begin

definition table_ok :: "'c \<Rightarrow> ('k \<times> 'v) list \<Rightarrow> bool" where
  "table_ok c memo \<longleftrightarrow> (\<forall>x v. map_of memo (key c x) = Some v \<longrightarrow> v = compute c x)"

lemma table_ok_Nil: "table_ok c []"
  by (simp add: table_ok_def)

lemma table_ok_update: "good c \<Longrightarrow> table_ok c memo \<Longrightarrow> table_ok c (AList.update (key c x) (compute c x) memo)"
  using key_determines [of c x] unfolding table_ok_def update_conv' by (metis fun_upd_apply option.inject)

lemma look_computes:
  assumes "good c" "table_ok c memo"
  shows "fst (look c memo x) = compute c x" "table_ok c (snd (look c memo x))"
proof -
  have "fst (look c memo x) = compute c x \<and> table_ok c (snd (look c memo x))"
  proof (cases "map_of memo (key c x)")
    case None
    then show ?thesis using look_miss [OF None] table_ok_update [OF assms] by simp
  next
    case (Some v)
    then show ?thesis using look_hit [OF Some] assms(2) by (simp add: table_ok_def)
  qed
  then show "fst (look c memo x) = compute c x" "table_ok c (snd (look c memo x))" by simp_all
qed

end

section \<open>Data\<close>

datatype bulk_direction = SelectionFeeds | FeedsSelection

type_synonym link_pair = "string \<times> string"

record bulk_context =
  bc_typeOf :: "string \<Rightarrow> string option"
  bc_relationshipTypes :: "rel_type list"
  bc_containmentEdgeTypes :: "string list"
  bc_existingEdges :: "edge_like list"
  bc_collate :: "string \<Rightarrow> int"

record type_option =
  to_edgeType :: string
  to_label :: string
  to_description :: "string option"
  to_fits :: nat

definition BULK_LINK_CONFIRM_ABOVE :: nat where "BULK_LINK_CONFIRM_ABOVE = 50"
definition BULK_LINK_MAX :: nat where "BULK_LINK_MAX = 500"

definition linkKey :: "string \<Rightarrow> string \<Rightarrow> string" where
  "linkKey s t = s @ CHR 0x00 # t"

text \<open>Ids do not hold the separator.\<close>

definition noNul :: "string \<Rightarrow> bool" where
  "noNul s \<longleftrightarrow> CHR 0x00 \<notin> set s"

lemma linkKey_inj: "noNul s \<Longrightarrow> noNul s' \<Longrightarrow> linkKey s t = linkKey s' t' \<longleftrightarrow> s = s' \<and> t = t'"
  by (auto simp: linkKey_def noNul_def dest: first_split_unique)

section \<open>The pairs\<close>

fun pairsLoop :: "link_pair list \<Rightarrow> string list \<Rightarrow> link_pair list" where
  "pairsLoop [] seen = []"
| "pairsLoop ((s, t) # ps) seen =
     (if s = t then pairsLoop ps seen
      else if linkKey s t \<in> set seen then pairsLoop ps seen
      else (s, t) # pairsLoop ps (linkKey s t # seen))"

definition expandPairs :: "string list \<Rightarrow> string list \<Rightarrow> bulk_direction \<Rightarrow> link_pair list" where
  "expandPairs selection others direction =
     pairsLoop (concat (map (\<lambda>s. map (\<lambda>u. if direction = SelectionFeeds then (s, u) else (u, s)) others) selection)) []"

lemma pairsLoop_spec:
  assumes "\<forall>(s, t) \<in> set ps. noNul s"
  shows "set (pairsLoop ps seen) = {(s, t) \<in> set ps. s \<noteq> t \<and> linkKey s t \<notin> set seen} \<and> distinct (pairsLoop ps seen)"
  using assms
proof (induction ps seen rule: pairsLoop.induct)
  case (2 s t ps seen)
  consider "s = t" | "s \<noteq> t" "linkKey s t \<in> set seen" | "s \<noteq> t" "linkKey s t \<notin> set seen" by blast
  then show ?case
  proof cases
    case 3
    then have "set (pairsLoop ps (linkKey s t # seen)) = {(s', t') \<in> set ps. s' \<noteq> t' \<and> linkKey s' t' \<noteq> linkKey s t \<and> linkKey s' t' \<notin> set seen}"
        "distinct (pairsLoop ps (linkKey s t # seen))"
      using 2 by auto
    moreover have "linkKey s' t' \<noteq> linkKey s t \<longleftrightarrow> (s', t') \<noteq> (s, t)" if "(s', t') \<in> set ps" for s' t'
      using "2.prems" that linkKey_inj [of s' s t' t] by auto
    ultimately have "set (pairsLoop ps (linkKey s t # seen)) = {(s', t') \<in> set ps. s' \<noteq> t' \<and> (s', t') \<noteq> (s, t) \<and> linkKey s' t' \<notin> set seen}"
        "distinct (pairsLoop ps (linkKey s t # seen))"
      by blast+
    then show ?thesis using 3 by auto
  qed (use 2 in auto)
qed simp

text \<open>Every pair in the direction stated, each once, never an entity to itself.\<close>

lemma pairs_are_the_product:
  assumes "\<forall>s \<in> set selection \<union> set others. noNul s"
  shows "set (expandPairs selection others direction) =
    {p. (\<exists>s \<in> set selection. \<exists>u \<in> set others. s \<noteq> u \<and> p = (if direction = SelectionFeeds then (s, u) else (u, s)))}
    \<and> distinct (expandPairs selection others direction)"
proof -
  let ?ps = "concat (map (\<lambda>s. map (\<lambda>u. if direction = SelectionFeeds then (s, u) else (u, s)) others) selection)"
  have "\<forall>(s, t) \<in> set ?ps. noNul s" using assms by auto
  from pairsLoop_spec [OF this, of "[]"] show ?thesis by (auto simp: expandPairs_def split: if_splits)
qed

section \<open>The gate\<close>

text \<open>The links of the canvas, by pair.\<close>

fun edgesByPair :: "edge_like list \<Rightarrow> (string \<times> edge_like list) list \<Rightarrow> (string \<times> edge_like list) list" where
  "edgesByPair [] index = index"
| "edgesByPair (e # es) index =
     (if \<not> truthyStr (ed_source e) \<or> \<not> truthyStr (ed_target e) then edgesByPair es index
      else let key = linkKey (the (ed_source e)) (the (ed_target e))
           in edgesByPair es (AList.update key ((case map_of index key of None \<Rightarrow> [] | Some l \<Rightarrow> l) @ [e]) index))"

definition pairEdges :: "(string \<times> edge_like list) list \<Rightarrow> link_pair \<Rightarrow> edge_like list" where
  "pairEdges index p = (case map_of index (linkKey (fst p) (snd p)) of None \<Rightarrow> [] | Some l \<Rightarrow> l)"

definition judgePair :: "bulk_context \<Rightarrow> (string \<times> edge_like list) list \<Rightarrow> string \<Rightarrow> link_pair \<Rightarrow> edge_reason option" where
  "judgePair ctx index edgeType p =
     validateDrawnEdge (bc_typeOf ctx (fst p)) (bc_typeOf ctx (snd p)) edgeType (bc_relationshipTypes ctx)
       (bc_containmentEdgeTypes ctx) (pairEdges index p) (Some (fst p)) (Some (snd p))"

definition judgePairs :: "link_pair list \<Rightarrow> string \<Rightarrow> bulk_context \<Rightarrow> (link_pair \<times> edge_reason option) list" where
  "judgePairs pairs edgeType ctx =
     (let index = edgesByPair (bc_existingEdges ctx) [] in map (\<lambda>p. (p, judgePair ctx index edgeType p)) pairs)"

text \<open>The index gives the duplicates of a pair as the whole list of links does.\<close>

definition joins :: "link_pair \<Rightarrow> edge_like \<Rightarrow> bool" where
  "joins p e \<longleftrightarrow> ed_source e = Some (fst p) \<and> ed_target e = Some (snd p)"

definition noNulEnds :: "edge_like \<Rightarrow> bool" where
  "noNulEnds e \<longleftrightarrow> (\<forall>s. ed_source e = Some s \<longrightarrow> noNul s)"

lemma edgesByPair_spec:
  assumes "\<forall>e \<in> set es. noNulEnds e" "noNul (fst p)" "fst p \<noteq> []" "snd p \<noteq> []"
  shows "pairEdges (edgesByPair es index) p = pairEdges index p @ filter (joins p) es"
  using assms
proof (induction es index rule: edgesByPair.induct)
  case (2 e es index)
  show ?case
  proof (cases "truthyStr (ed_source e) \<and> truthyStr (ed_target e)")
    case False
    then have "\<not> joins p e" using "2.prems"(3,4) by (auto simp: joins_def)
    then show ?thesis using 2 False by auto
  next
    case True
    then obtain s t where st: "ed_source e = Some s" "ed_target e = Some t" by (cases "ed_source e"; cases "ed_target e") auto
    then have "noNul s" using "2.prems"(1) by (simp add: noNulEnds_def)
    then have key: "linkKey (fst p) (snd p) = linkKey s t \<longleftrightarrow> joins p e"
      using linkKey_inj [OF "2.prems"(2)] st by (auto simp: joins_def)
    show ?thesis using "2.IH"(2) [OF _ refl] "2.prems" True st key
      by (auto simp: Let_def pairEdges_def update_conv')
  qed
qed (simp add: pairEdges_def)

lemma connected_by_pair:
  "connectedEdgeTypes (filter (joins p) es) (Some (fst p)) (Some (snd p)) = connectedEdgeTypes es (Some (fst p)) (Some (snd p))"
  by (simp add: connectedEdgeTypes_def joins_def conj_commute)

lemma validate_reads_connected:
  "connectedEdgeTypes es u v = connectedEdgeTypes es' u v \<Longrightarrow>
     validateDrawnEdge s t ty rels cts es u v = validateDrawnEdge s t ty rels cts es' u v"
  by (simp add: validateDrawnEdge_def)

definition noNulContext :: "bulk_context \<Rightarrow> bool" where
  "noNulContext ctx \<longleftrightarrow> (\<forall>e \<in> set (bc_existingEdges ctx). noNulEnds e)"

definition idOk :: "link_pair \<Rightarrow> bool" where
  "idOk p \<longleftrightarrow> noNul (fst p) \<and> fst p \<noteq> [] \<and> snd p \<noteq> []"

lemma judge_is_the_hand_drawn_gate:
  assumes "noNulContext ctx" "idOk p"
  shows "judgePair ctx (edgesByPair (bc_existingEdges ctx) []) edgeType p =
    validateDrawnEdge (bc_typeOf ctx (fst p)) (bc_typeOf ctx (snd p)) edgeType (bc_relationshipTypes ctx)
      (bc_containmentEdgeTypes ctx) (bc_existingEdges ctx) (Some (fst p)) (Some (snd p))"
proof -
  have "pairEdges (edgesByPair (bc_existingEdges ctx) []) p = filter (joins p) (bc_existingEdges ctx)"
    using assms edgesByPair_spec [of "bc_existingEdges ctx" p "[]"]
    by (auto simp: noNulContext_def idOk_def pairEdges_def)
  then show ?thesis unfolding judgePair_def using validate_reads_connected [OF connected_by_pair] by metis
qed

section \<open>The relationships a batch can use\<close>

type_synonym types_memo = "(string \<times> edge_option list) list"

definition typesKey :: "string option \<Rightarrow> string option \<Rightarrow> string" where
  "typesKey sType tType = linkKey (case sType of None \<Rightarrow> [] | Some s \<Rightarrow> s) (case tType of None \<Rightarrow> [] | Some t \<Rightarrow> t)"

definition derived :: "bulk_context \<Rightarrow> string option \<Rightarrow> string option \<Rightarrow> edge_option list" where
  "derived ctx sType tType = deriveConnectableEdges sType tType (bc_relationshipTypes ctx) (bc_containmentEdgeTypes ctx)"

definition allowedFor :: "bulk_context \<Rightarrow> types_memo \<Rightarrow> link_pair \<Rightarrow> edge_option list \<times> types_memo" where
  "allowedFor ctx byTypes p =
     (let sType = bc_typeOf ctx (fst p); tType = bc_typeOf ctx (snd p); key = typesKey sType tType
      in case map_of byTypes key of
           Some allowed \<Rightarrow> (allowed, byTypes)
         | None \<Rightarrow> (derived ctx sType tType, AList.update key (derived ctx sType tType) byTypes))"

definition bump :: "edge_option \<Rightarrow> (string \<times> type_option) list \<Rightarrow> (string \<times> type_option) list" where
  "bump e options =
     AList.update (eo_edgeType e)
       (case map_of options (eo_edgeType e) of
          Some t \<Rightarrow> t\<lparr>to_fits := Suc (to_fits t)\<rparr>
        | None \<Rightarrow> \<lparr>to_edgeType = eo_edgeType e, to_label = eo_label e, to_description = eo_description e, to_fits = 1\<rparr>) options"

definition usable :: "(string \<times> edge_like list) list \<Rightarrow> link_pair \<Rightarrow> edge_option \<Rightarrow> bool" where
  "usable index p e \<longleftrightarrow> \<not> (\<not> eo_allowed e \<or> jsUpper (eo_edgeType e) \<in> set (connectedEdgeTypes (pairEdges index p) (Some (fst p)) (Some (snd p))))"

fun optionsLoop :: "bulk_context \<Rightarrow> (string \<times> edge_like list) list \<Rightarrow> link_pair list \<Rightarrow> types_memo
    \<Rightarrow> (string \<times> type_option) list \<Rightarrow> (string \<times> type_option) list" where
  "optionsLoop ctx index [] byTypes options = options"
| "optionsLoop ctx index (p # ps) byTypes options =
     (let (allowed, byTypes') = allowedFor ctx byTypes p
      in optionsLoop ctx index ps byTypes' (fold bump (filter (usable index p) allowed) options))"

definition batchTypeOptions :: "link_pair list \<Rightarrow> bulk_context \<Rightarrow> type_option list" where
  "batchTypeOptions pairs ctx =
     sort_key (\<lambda>b. (- int (to_fits b), bc_collate ctx (to_label b)))
       (map snd (optionsLoop ctx (edgesByPair (bc_existingEdges ctx) []) pairs [] []))"

subsection \<open>The memo\<close>

text \<open>An unknown type and a blank one get the same options.\<close>

lemma endpointOk_blank [simp]: "endpointOk None ts" "endpointOk (Some []) ts"
  by (simp_all add: endpointOk_def)

lemma derived_key:
  assumes "\<forall>s. sType = Some s \<longrightarrow> noNul s" "\<forall>s. sType' = Some s \<longrightarrow> noNul s" "typesKey sType tType = typesKey sType' tType'"
  shows "derived ctx sType tType = derived ctx sType' tType'"
proof -
  have k: "(case sType of None \<Rightarrow> [] | Some s \<Rightarrow> s) = (case sType' of None \<Rightarrow> [] | Some s \<Rightarrow> s)"
      "(case tType of None \<Rightarrow> [] | Some t \<Rightarrow> t) = (case tType' of None \<Rightarrow> [] | Some t \<Rightarrow> t)"
    using assms linkKey_inj unfolding typesKey_def
    by (metis noNul_def empty_iff list.set(1) option.case_eq_if option.collapse option.simps(4))+
  have blank: "connectOption None t = connectOption (Some []) t" "connectOption s None = connectOption s (Some [])" for s t
    by (auto simp: connectOption_def fun_eq_iff Let_def)
  have "connectOption sType tType = connectOption sType' tType'"
    using k by (cases sType; cases sType'; cases tType; cases tType') (auto simp: blank)
  then show ?thesis by (simp add: derived_def deriveConnectableEdges_def)
qed

definition typesOk :: "bulk_context \<Rightarrow> bool" where
  "typesOk ctx \<longleftrightarrow> (\<forall>u s. bc_typeOf ctx u = Some s \<longrightarrow> noNul s)"

definition typesComputed :: "bulk_context \<Rightarrow> link_pair \<Rightarrow> edge_option list" where
  "typesComputed ctx p = derived ctx (bc_typeOf ctx (fst p)) (bc_typeOf ctx (snd p))"

definition pairTypesKey :: "bulk_context \<Rightarrow> link_pair \<Rightarrow> string" where
  "pairTypesKey ctx p = typesKey (bc_typeOf ctx (fst p)) (bc_typeOf ctx (snd p))"

lemma pair_types_determine:
  "typesOk ctx \<Longrightarrow> pairTypesKey ctx p = pairTypesKey ctx q \<Longrightarrow> typesComputed ctx p = typesComputed ctx q"
  unfolding typesOk_def pairTypesKey_def typesComputed_def by (blast intro: derived_key)

interpretation types_memo: memo_table typesOk pairTypesKey typesComputed allowedFor
  by unfold_locales (rule pair_types_determine, simp_all add: allowedFor_def pairTypesKey_def typesComputed_def Let_def)

definition events :: "bulk_context \<Rightarrow> (string \<times> edge_like list) list \<Rightarrow> link_pair list \<Rightarrow> edge_option list" where
  "events ctx index pairs =
     concat (map (\<lambda>p. filter (usable index p) (typesComputed ctx p)) pairs)"

lemma optionsLoop_events:
  "typesOk ctx \<Longrightarrow> types_memo.table_ok ctx memo \<Longrightarrow> optionsLoop ctx index pairs memo options = fold bump (events ctx index pairs) options"
proof (induction pairs arbitrary: memo options)
  case (Cons p ps)
  then show ?case using types_memo.look_computes [OF Cons.prems, of p]
    by (cases "allowedFor ctx memo p") (simp add: events_def)
qed (simp add: events_def)

subsection \<open>Counting\<close>

lemma fold_bump:
  assumes "\<forall>e \<in> set es. (eo_label e, eo_description e) = f (eo_edgeType e)"
  shows "map_of (fold bump es []) k =
    (let n = length (filter (\<lambda>e. eo_edgeType e = k) es)
     in if n = 0 then None else Some \<lparr>to_edgeType = k, to_label = fst (f k), to_description = snd (f k), to_fits = n\<rparr>)"
    and "distinct (map fst (fold bump es []))"
  using assms
proof (induction es rule: rev_induct)
  case (snoc e es)
  {
    case 1
    then show ?case using snoc.IH(1)
      by (auto simp: bump_def update_conv' Let_def prod_eq_iff filter_empty_conv)
  next
    case 2
    then show ?case using snoc.IH(2) by (simp add: bump_def distinct_update)
  }
qed simp_all

lemma filter_one:
  "distinct (map f xs) \<Longrightarrow> x \<in> set xs \<Longrightarrow> filter (\<lambda>y. f y = f x \<and> Q y) xs = (if Q x then [x] else [])"
proof (induction xs)
  case (Cons y xs)
  show ?case
  proof (cases "x = y")
    case True
    then have "filter (\<lambda>z. f z = f x \<and> Q z) xs = []" using Cons.prems(1) by (auto simp: filter_empty_conv image_iff)
    then show ?thesis using True by simp
  next
    case False
    then show ?thesis using Cons by (auto simp: image_iff)
  qed
qed simp

definition relsOk :: "rel_type list \<Rightarrow> bool" where
  "relsOk rels \<longleftrightarrow> distinct (map (\<lambda>r. jsUpper (rt_id r)) rels)"

lemma relsOk_ids: "relsOk rels \<Longrightarrow> distinct (map rt_id rels)"
  unfolding relsOk_def by (auto simp: distinct_map inj_on_def)

definition drawableCount :: "link_pair list \<Rightarrow> bulk_context \<Rightarrow> rel_type \<Rightarrow> nat" where
  "drawableCount pairs ctx rt = length (filter (\<lambda>(p, verdict). verdict = None) (judgePairs pairs (rt_id rt) ctx))"

lemma events_count:
  assumes ok: "relsOk (bc_relationshipTypes ctx)" and rt: "rt \<in> set (bc_relationshipTypes ctx)"
      "isDrawableLineageType rt (bc_containmentEdgeTypes ctx)"
  shows "length (filter (\<lambda>e. eo_edgeType e = rt_id rt) (events ctx (edgesByPair (bc_existingEdges ctx) []) pairs)) = drawableCount pairs ctx rt"
proof (induction pairs)
  case (Cons p ps)
  let ?idx = "edgesByPair (bc_existingEdges ctx) []" and ?s = "bc_typeOf ctx (fst p)" and ?t = "bc_typeOf ctx (snd p)"
  have "filter (\<lambda>e. eo_edgeType e = rt_id rt) (filter (usable ?idx p) (derived ctx ?s ?t))
      = map (connectOption ?s ?t) (filter (\<lambda>r. rt_id r = rt_id rt \<and> (isDrawableLineageType r (bc_containmentEdgeTypes ctx) \<and> usable ?idx p (connectOption ?s ?t r))) (bc_relationshipTypes ctx))"
    by (simp add: derived_def deriveConnectableEdges_def filter_map o_def conj_ac)
  also have "\<dots> = (if usable ?idx p (connectOption ?s ?t rt) then [connectOption ?s ?t rt] else [])"
    using filter_one [OF relsOk_ids [OF ok] rt(1)] rt(2) by simp
  finally have one: "filter (\<lambda>e. eo_edgeType e = rt_id rt) (filter (usable ?idx p) (derived ctx ?s ?t))
      = (if usable ?idx p (connectOption ?s ?t rt) then [connectOption ?s ?t rt] else [])" .
  have "usable ?idx p (connectOption ?s ?t rt) \<longleftrightarrow> judgePair ctx ?idx (rt_id rt) p = None"
    unfolding judgePair_def using draw_gate [OF ok [unfolded relsOk_def] rt] by (simp add: usable_def)
  then show ?case using one Cons.IH by (simp add: events_def typesComputed_def drawableCount_def judgePairs_def Let_def)
qed (simp add: events_def drawableCount_def judgePairs_def)

lemma event_rel:
  "e \<in> set (events ctx index pairs) \<Longrightarrow> \<exists>r \<in> set (bc_relationshipTypes ctx). isDrawableLineageType r (bc_containmentEdgeTypes ctx)
     \<and> eo_edgeType e = rt_id r \<and> eo_label e = relLabel r \<and> eo_description e = rt_description r"
  by (auto simp: events_def typesComputed_def derived_def deriveConnectableEdges_def)

lemma batch_options:
  assumes "relsOk (bc_relationshipTypes ctx)" "typesOk ctx"
  shows "set (batchTypeOptions pairs ctx) =
      {\<lparr>to_edgeType = rt_id rt, to_label = relLabel rt, to_description = rt_description rt, to_fits = drawableCount pairs ctx rt\<rparr> | rt.
         rt \<in> set (bc_relationshipTypes ctx) \<and> isDrawableLineageType rt (bc_containmentEdgeTypes ctx) \<and> 0 < drawableCount pairs ctx rt}
    \<and> distinct (map to_edgeType (batchTypeOptions pairs ctx))
    \<and> sorted_wrt (\<lambda>a b. to_fits b \<le> to_fits a) (batchTypeOptions pairs ctx)"
proof -
  let ?idx = "edgesByPair (bc_existingEdges ctx) []" and ?rels = "bc_relationshipTypes ctx"
  let ?es = "events ctx ?idx pairs" and ?m = "fold bump (events ctx ?idx pairs) []"
  let ?f = "\<lambda>k. case find (\<lambda>r. rt_id r = k) ?rels of None \<Rightarrow> ([], None) | Some r \<Rightarrow> (relLabel r, rt_description r)"
  have f: "?f (rt_id r) = (relLabel r, rt_description r)" if "r \<in> set ?rels" for r
    using find_unique [OF relsOk_ids [OF assms(1)] that] by simp
  have lab: "\<forall>e \<in> set ?es. (eo_label e, eo_description e) = ?f (eo_edgeType e)"
    using event_rel [of _ ctx ?idx pairs] f by fastforce
  note m = fold_bump [OF lab]
  have loop: "optionsLoop ctx ?idx pairs [] [] = ?m"
    by (rule optionsLoop_events [OF assms(2) types_memo.table_ok_Nil])
  have opts: "set (batchTypeOptions pairs ctx) = snd ` set ?m" by (simp add: batchTypeOptions_def loop)
  have mem: "(k, b) \<in> set ?m \<longleftrightarrow> (\<exists>rt \<in> set ?rels. isDrawableLineageType rt (bc_containmentEdgeTypes ctx) \<and> 0 < drawableCount pairs ctx rt
      \<and> k = rt_id rt \<and> b = \<lparr>to_edgeType = rt_id rt, to_label = relLabel rt, to_description = rt_description rt, to_fits = drawableCount pairs ctx rt\<rparr>)" for k b
  proof -
    have iff: "(k, b) \<in> set ?m \<longleftrightarrow> map_of ?m k = Some b" using m(2) by (simp add: map_of_eq_Some_iff)
    show ?thesis
    proof
      assume "(k, b) \<in> set ?m"
      then have b: "filter (\<lambda>e. eo_edgeType e = k) ?es \<noteq> []"
          "b = \<lparr>to_edgeType = k, to_label = fst (?f k), to_description = snd (?f k), to_fits = length (filter (\<lambda>e. eo_edgeType e = k) ?es)\<rparr>"
        using iff m(1) [of k] by (auto simp: Let_def split: if_splits)
      then obtain e where "e \<in> set ?es" "eo_edgeType e = k" by (auto simp: filter_empty_conv)
      then obtain r where r: "r \<in> set ?rels" "isDrawableLineageType r (bc_containmentEdgeTypes ctx)" "k = rt_id r" using event_rel by metis
      then show "\<exists>rt \<in> set ?rels. isDrawableLineageType rt (bc_containmentEdgeTypes ctx) \<and> 0 < drawableCount pairs ctx rt
          \<and> k = rt_id rt \<and> b = \<lparr>to_edgeType = rt_id rt, to_label = relLabel rt, to_description = rt_description rt, to_fits = drawableCount pairs ctx rt\<rparr>"
        using b events_count [OF assms(1) r(1,2), of pairs] f [OF r(1)]
        by (intro bexI [OF _ r(1)]) (auto simp flip: length_greater_0_conv)
    next
      assume "\<exists>rt \<in> set ?rels. isDrawableLineageType rt (bc_containmentEdgeTypes ctx) \<and> 0 < drawableCount pairs ctx rt
          \<and> k = rt_id rt \<and> b = \<lparr>to_edgeType = rt_id rt, to_label = relLabel rt, to_description = rt_description rt, to_fits = drawableCount pairs ctx rt\<rparr>"
      then obtain rt where rt: "rt \<in> set ?rels" "isDrawableLineageType rt (bc_containmentEdgeTypes ctx)" "0 < drawableCount pairs ctx rt"
          "k = rt_id rt" "b = \<lparr>to_edgeType = rt_id rt, to_label = relLabel rt, to_description = rt_description rt, to_fits = drawableCount pairs ctx rt\<rparr>"
        by blast
      then have "length (filter (\<lambda>e. eo_edgeType e = k) ?es) = drawableCount pairs ctx rt" using events_count [OF assms(1) rt(1,2)] by simp
      then have "map_of ?m k = Some b" unfolding m(1) [of k] Let_def using rt(3,4,5) f [OF rt(1)] by simp
      then show "(k, b) \<in> set ?m" using iff by simp
    qed
  qed
  have "map fst ?m = map to_edgeType (map snd ?m)" using mem by (auto simp: o_def)
  then have "distinct (map to_edgeType (map snd ?m))" using m(2) by (simp only:)
  then have "distinct (map to_edgeType (batchTypeOptions pairs ctx))"
    unfolding batchTypeOptions_def loop by (simp only: distinct_map_sort_key)
  moreover have "sorted_wrt (\<lambda>a b. to_fits b \<le> to_fits a) (batchTypeOptions pairs ctx)"
    using sorted_sort_key [of "\<lambda>b. (- int (to_fits b), bc_collate ctx (to_label b))" "map snd ?m"]
    unfolding batchTypeOptions_def loop sorted_map by (rule sorted_wrt_mono_rel [rotated]) auto
  moreover have "snd ` set ?m = {\<lparr>to_edgeType = rt_id rt, to_label = relLabel rt, to_description = rt_description rt, to_fits = drawableCount pairs ctx rt\<rparr> | rt.
         rt \<in> set ?rels \<and> isDrawableLineageType rt (bc_containmentEdgeTypes ctx) \<and> 0 < drawableCount pairs ctx rt}"
    using mem by (auto simp: image_iff Bex_def)
  ultimately show ?thesis using opts by simp
qed

text \<open>The pairs a person could draw by hand with a relationship: the gate of a single drawn link, which reads all the
  links of the canvas and no index.\<close>

definition handDrawn :: "bulk_context \<Rightarrow> string \<Rightarrow> link_pair \<Rightarrow> edge_reason option" where
  "handDrawn ctx edgeType p =
     validateDrawnEdge (bc_typeOf ctx (fst p)) (bc_typeOf ctx (snd p)) edgeType (bc_relationshipTypes ctx)
       (bc_containmentEdgeTypes ctx) (bc_existingEdges ctx) (Some (fst p)) (Some (snd p))"

definition handDrawnCount :: "link_pair list \<Rightarrow> bulk_context \<Rightarrow> rel_type \<Rightarrow> nat" where
  "handDrawnCount pairs ctx rt = length (filter (\<lambda>p. handDrawn ctx (rt_id rt) p = None) pairs)"

lemma drawable_by_hand:
  assumes "noNulContext ctx" "\<forall>p \<in> set pairs. idOk p"
  shows "drawableCount pairs ctx rt = handDrawnCount pairs ctx rt"
  using assms(2)
proof (induction pairs)
  case (Cons p ps)
  then show ?case using judge_is_the_hand_drawn_gate [OF assms(1), of p "rt_id rt"]
    by (simp add: drawableCount_def handDrawnCount_def judgePairs_def Let_def handDrawn_def)
qed (simp add: drawableCount_def handDrawnCount_def judgePairs_def)

text \<open>C17. The relationships a bulk link offers, and the count each shows, are those of drawing every pair
  by hand: a drawable lineage relationship is offered exactly when the gate of a single drawn link, which goes through all the
  links of the canvas, lets some pair be drawn with it, with the number of pairs it lets; each once, the most fitting first.
  The memo per pair of types and the index of links by pair change nothing (where no id or type holds the separator of their keys and
  no id is empty).\<close>

theorem options_count_the_pairs_that_can_be_drawn:
  assumes "relsOk (bc_relationshipTypes ctx)" "typesOk ctx" "noNulContext ctx" "\<forall>p \<in> set pairs. idOk p"
  shows "set (batchTypeOptions pairs ctx) =
      {\<lparr>to_edgeType = rt_id rt, to_label = relLabel rt, to_description = rt_description rt, to_fits = handDrawnCount pairs ctx rt\<rparr> | rt.
         rt \<in> set (bc_relationshipTypes ctx) \<and> isDrawableLineageType rt (bc_containmentEdgeTypes ctx) \<and> 0 < handDrawnCount pairs ctx rt}
    \<and> distinct (map to_edgeType (batchTypeOptions pairs ctx))
    \<and> sorted_wrt (\<lambda>a b. to_fits b \<le> to_fits a) (batchTypeOptions pairs ctx)"
  using batch_options [OF assms(1,2), of pairs] unfolding drawable_by_hand [OF assms(3,4)] .

section \<open>Whether the types fit at all\<close>

datatype fit_reason = NoLineageJoins | BecauseOf edge_reason

type_synonym fit_result = "bool \<times> fit_reason option"

definition fitOf :: "bulk_context \<Rightarrow> string option \<Rightarrow> string option \<Rightarrow> fit_result" where
  "fitOf ctx sType tType =
     (let options = derived ctx sType tType
      in if list_ex eo_allowed options then (True, None)
         else (False, Some (case find (\<lambda>e. eo_reason e \<noteq> None) options of
                        None \<Rightarrow> NoLineageJoins
                      | Some e \<Rightarrow> (case eo_reason e of None \<Rightarrow> NoLineageJoins | Some why \<Rightarrow> BecauseOf why))))"

definition fitCheck :: "bulk_context \<Rightarrow> (string \<times> fit_result) list \<Rightarrow> string \<Rightarrow> string \<Rightarrow> fit_result \<times> (string \<times> fit_result) list" where
  "fitCheck ctx memo s t =
     (let sType = bc_typeOf ctx s; tType = bc_typeOf ctx t; key = typesKey sType tType
      in case map_of memo key of
           Some hit \<Rightarrow> (hit, memo)
         | None \<Rightarrow> (fitOf ctx sType tType, AList.update key (fitOf ctx sType tType) memo))"

fun candidateLoop :: "bulk_context \<Rightarrow> bulk_direction \<Rightarrow> string \<Rightarrow> string list \<Rightarrow> nat \<Rightarrow> fit_reason option
    \<Rightarrow> (string \<times> fit_result) list \<Rightarrow> nat \<times> fit_reason option \<times> (string \<times> fit_result) list" where
  "candidateLoop ctx direction candidate [] fits why memo = (fits, why, memo)"
| "candidateLoop ctx direction candidate (s # ss) fits why memo =
     (if s = candidate then candidateLoop ctx direction candidate ss fits why memo
      else let (v, memo') = (if direction = SelectionFeeds then fitCheck ctx memo s candidate else fitCheck ctx memo candidate s)
           in if fst v then candidateLoop ctx direction candidate ss (Suc fits) why memo'
              else candidateLoop ctx direction candidate ss fits (case why of None \<Rightarrow> snd v | Some _ \<Rightarrow> why) memo')"

definition candidateFit :: "bulk_context \<Rightarrow> string \<Rightarrow> string list \<Rightarrow> bulk_direction \<Rightarrow> (string \<times> fit_result) list
    \<Rightarrow> (nat \<times> fit_reason option) \<times> (string \<times> fit_result) list" where
  "candidateFit ctx candidate selection direction memo =
     (let (fits, why, memo') = candidateLoop ctx direction candidate selection 0 None memo
      in ((fits, if 0 < fits then None else why), memo'))"

definition fitComputed :: "bulk_context \<Rightarrow> link_pair \<Rightarrow> fit_result" where
  "fitComputed ctx p = fitOf ctx (bc_typeOf ctx (fst p)) (bc_typeOf ctx (snd p))"

interpretation fit_memo: memo_table typesOk pairTypesKey fitComputed "\<lambda>ctx memo p. fitCheck ctx memo (fst p) (snd p)"
proof
  show "fitComputed ctx p = fitComputed ctx q" if "typesOk ctx" "pairTypesKey ctx p = pairTypesKey ctx q" for ctx p q
    using pair_types_determine [OF that] by (simp add: fitComputed_def fitOf_def typesComputed_def)
qed (simp_all add: fitCheck_def pairTypesKey_def fitComputed_def Let_def)

definition fitsWith :: "bulk_context \<Rightarrow> bulk_direction \<Rightarrow> string \<Rightarrow> string \<Rightarrow> bool" where
  "fitsWith ctx direction candidate s \<longleftrightarrow>
     fst (if direction = SelectionFeeds then fitOf ctx (bc_typeOf ctx s) (bc_typeOf ctx candidate)
          else fitOf ctx (bc_typeOf ctx candidate) (bc_typeOf ctx s))"

lemma candidateLoop_counts:
  "typesOk ctx \<Longrightarrow> fit_memo.table_ok ctx memo \<Longrightarrow> fst (candidateLoop ctx direction candidate ss fits why memo)
      = fits + length (filter (\<lambda>s. s \<noteq> candidate \<and> fitsWith ctx direction candidate s) ss)"
proof (induction ss arbitrary: fits why memo)
  case (Cons s ss)
  define r where "r = (if direction = SelectionFeeds then fitCheck ctx memo s candidate else fitCheck ctx memo candidate s)"
  obtain v memo' where vm: "r = (v, memo')" by (cases r)
  have v: "fst v \<longleftrightarrow> fitsWith ctx direction candidate s" "fit_memo.table_ok ctx memo'"
    using fit_memo.look_computes [OF Cons.prems, of "(s, candidate)"] fit_memo.look_computes [OF Cons.prems, of "(candidate, s)"] vm
    unfolding r_def fitsWith_def fitComputed_def by (auto split: if_splits)
  have step: "candidateLoop ctx direction candidate (s # ss) fits why memo =
      (if s = candidate then candidateLoop ctx direction candidate ss fits why memo
       else if fst v then candidateLoop ctx direction candidate ss (Suc fits) why memo'
       else candidateLoop ctx direction candidate ss fits (case why of None \<Rightarrow> snd v | Some _ \<Rightarrow> why) memo')"
    using vm unfolding r_def by simp
  show ?case unfolding step using Cons.IH [OF Cons.prems(1)] Cons.prems(2) v by auto
qed simp

text \<open>A candidate for the other side shows how many of the selection it fits; the memo, whatever it
  holds of earlier checks, changes nothing.\<close>

lemma candidate_fit_counts:
  assumes "typesOk ctx" "fit_memo.table_ok ctx memo"
  shows "fst (fst (candidateFit ctx candidate selection direction memo))
    = length (filter (\<lambda>s. s \<noteq> candidate \<and> fitsWith ctx direction candidate s) selection)"
  using candidateLoop_counts [OF assms, of direction candidate selection 0 None]
  by (cases "candidateLoop ctx direction candidate selection 0 None memo") (simp add: candidateFit_def)

section \<open>Dropping\<close>

datatype drop_level = DropAll | DropSome | DropNone

datatype drop_text =
    NothingToLink
  | WhyNot fit_reason
  | AlreadyLinked
  | Links nat string
  | SomeLink nat nat string

record drop_verdict =
  dv_level :: drop_level
  dv_count :: nat
  dv_text :: drop_text

definition dropPairs :: "string list \<Rightarrow> string list \<Rightarrow> link_pair list" where
  "dropPairs sources targets = filter (\<lambda>(s, t). s \<noteq> t) (concat (map (\<lambda>s. map (Pair s) targets) sources))"

definition dropVerdict :: "string list \<Rightarrow> string list \<Rightarrow> bulk_context \<Rightarrow> drop_verdict" where
  "dropVerdict sources targets ctx =
     (let pairs = dropPairs sources targets
      in case pairs of
           [] \<Rightarrow> \<lparr>dv_level = DropNone, dv_count = 0, dv_text = NothingToLink\<rparr>
         | p # _ \<Rightarrow>
             (case batchTypeOptions pairs ctx of
                [] \<Rightarrow> \<lparr>dv_level = DropNone, dv_count = 0,
                       dv_text = (case snd (fst (fitCheck ctx [] (fst p) (snd p))) of None \<Rightarrow> AlreadyLinked | Some why \<Rightarrow> WhyNot why)\<rparr>
              | best # _ \<Rightarrow>
                  if to_fits best = length pairs
                  then \<lparr>dv_level = DropAll, dv_count = to_fits best, dv_text = Links (to_fits best) (to_label best)\<rparr>
                  else \<lparr>dv_level = DropSome, dv_count = to_fits best, dv_text = SomeLink (to_fits best) (length pairs) (to_label best)\<rparr>))"

text \<open>The verdict of a drop: how many pairs the best relationship joins, none when no pair can be
  drawn with any, all when one joins every pair.\<close>

lemma drop_counts_the_best:
  assumes "relsOk (bc_relationshipTypes ctx)" "typesOk ctx"
  defines "drawable \<equiv> {rt \<in> set (bc_relationshipTypes ctx). isDrawableLineageType rt (bc_containmentEdgeTypes ctx)}"
  shows "dv_count (dropVerdict sources targets ctx) = Max (insert 0 (drawableCount (dropPairs sources targets) ctx ` drawable))"
    and "dv_level (dropVerdict sources targets ctx) = DropNone \<longleftrightarrow> (\<forall>rt \<in> drawable. drawableCount (dropPairs sources targets) ctx rt = 0)"
proof -
  let ?ps = "dropPairs sources targets" and ?n = "drawableCount (dropPairs sources targets) ctx"
  note opts = batch_options [OF assms(1,2), of ?ps]
  let ?opts = "batchTypeOptions ?ps ctx"
  have fin: "finite (?n ` drawable)" by (simp add: drawable_def)
  have fits: "to_fits ` set ?opts = {n \<in> ?n ` drawable. 0 < n}"
  proof -
    have "to_fits ` set ?opts = {?n rt | rt. rt \<in> drawable \<and> 0 < ?n rt}"
      unfolding conjunct1 [OF opts] by (auto simp: drawable_def image_iff) force
    then show ?thesis by auto
  qed
  have none: "?ps = [] \<Longrightarrow> ?n rt = 0" for rt by (simp add: drawableCount_def judgePairs_def)
  have "dv_count (dropVerdict sources targets ctx) = Max (insert 0 (?n ` drawable))
      \<and> (dv_level (dropVerdict sources targets ctx) = DropNone \<longleftrightarrow> (\<forall>rt \<in> drawable. ?n rt = 0))"
  proof (cases "?opts = []")
    case True
    then have z: "\<forall>rt \<in> drawable. ?n rt = 0" using fits by auto
    then have "insert 0 (?n ` drawable) = {0}" by auto
    then have "Max (insert 0 (?n ` drawable)) = 0" by (simp only: Max_singleton)
    then show ?thesis using True z by (auto simp: dropVerdict_def Let_def split: list.splits)
  next
    case False
    then obtain best rest where b: "?opts = best # rest" by (cases ?opts) auto
    then have "?ps \<noteq> []" using fits none by force
    then have v: "dv_count (dropVerdict sources targets ctx) = to_fits best" "dv_level (dropVerdict sources targets ctx) \<noteq> DropNone"
      using b by (auto simp: dropVerdict_def Let_def split: list.splits)
    have top: "to_fits best \<in> ?n ` drawable" "0 < to_fits best" using fits b by auto
    have "n \<le> to_fits best" if "n \<in> ?n ` drawable" for n
    proof (cases "n = 0")
      case False
      then have "n \<in> to_fits ` set ?opts" using that unfolding fits by simp
      then obtain c where "c \<in> set ?opts" "to_fits c = n" by (elim imageE) simp
      moreover have "sorted_wrt (\<lambda>a b. to_fits b \<le> to_fits a) (best # rest)" using opts unfolding b by blast
      ultimately show ?thesis unfolding b by auto
    qed simp
    then have "Max (insert 0 (?n ` drawable)) = to_fits best" using top fin by (intro Max_eqI) auto
    then show ?thesis using v top by auto
  qed
  then show "dv_count (dropVerdict sources targets ctx) = Max (insert 0 (?n ` drawable))"
    "dv_level (dropVerdict sources targets ctx) = DropNone \<longleftrightarrow> (\<forall>rt \<in> drawable. ?n rt = 0)" by blast+
qed

section \<open>An example\<close>

definition bulk_example :: bulk_context where
  "bulk_example =
     (let rel = (\<lambda>i ss lin. \<lparr>rt_id = i, rt_name = None, rt_description = None, rt_sourceTypes = Some ss, rt_targetTypes = None,
                  rt_isContainment = Some False, rt_isLineage = lin\<rparr>)
      in \<lparr>bc_typeOf = (\<lambda>u. if u = ''a'' then Some ''T'' else if u = ''b'' then Some ''J'' else None),
          bc_relationshipTypes = [rel ''R'' [''T''] None, rel ''F'' [] None, rel ''N'' [] (Some False)],
          bc_containmentEdgeTypes = [],
          bc_existingEdges = [\<lparr>ed_source = Some ''a'', ed_target = Some ''c'', ed_edgeType = Some ''F'', ed_relationship = None\<rparr>],
          bc_collate = (\<lambda>_. 0)\<rparr>)"

lemma bulk_example_ok: "relsOk (bc_relationshipTypes bulk_example)" "typesOk bulk_example" "noNulContext bulk_example"
  by code_simp (auto simp: typesOk_def noNulContext_def noNulEnds_def bulk_example_def Let_def noNul_def split: if_splits)

lemma options_count_the_pairs_that_can_be_drawn_witness:
  "map (\<lambda>b. (to_edgeType b, to_fits b)) (batchTypeOptions [(''a'', ''c''), (''b'', ''c''), (''a'', ''d'')] bulk_example) = [(''R'', 2), (''F'', 2)]
   \<and> distinct (map to_edgeType (batchTypeOptions [(''a'', ''c''), (''b'', ''c''), (''a'', ''d'')] bulk_example))"
proof -
  have "map (\<lambda>b. (to_edgeType b, to_fits b)) (batchTypeOptions [(''a'', ''c''), (''b'', ''c''), (''a'', ''d'')] bulk_example) = [(''R'', 2), (''F'', 2)]"
    by code_simp
  moreover have "\<forall>p \<in> set [(''a'', ''c''), (''b'', ''c''), (''a'', ''d'')]. idOk p" by (simp add: idOk_def noNul_def)
  note options_count_the_pairs_that_can_be_drawn [OF bulk_example_ok this]
  ultimately show ?thesis by blast
qed

end
