(* ===== verification/Frame_Flow.thy ===== *)
theory Frame_Flow
  imports Prelude
begin

text \<open>
  \<open>src/frontend/src/components/canvas/context-view/lens/frame-flow.ts\<close>, whole: the order of a
  frame's rows by the flow among them, and the vertical lanes of the wires that stay inside the
  frame. The ranks are computed by layers, taking in turn the rows nothing pending feeds; when a
  loop holds the rest, the first row of the incoming order is let through. A \<open>Map\<close> is an association
  list, a \<open>Set\<close> the list of its elements. \<open>localeCompare\<close> is the collation key it compares by.
\<close>

section \<open>Data\<close>

record flow_edge =
  fe_id :: string
  fe_source :: string
  fe_target :: string

definition MAX_LANES :: nat where "MAX_LANES = 16"
definition LANE_W :: int where "LANE_W = 9"
definition LANE_GAP :: int where "LANE_GAP = 6"

definition gutterWidth :: "int \<Rightarrow> int" where
  "gutterWidth lanes = (if lanes \<le> 0 then 0 else min lanes (int MAX_LANES) * LANE_W + LANE_GAP)"

record flow_state =
  fs_rank :: "(string \<times> nat) list"
  fs_indegree :: "(string \<times> nat) list"
  fs_settled :: "string list"
  fs_pending :: "string list"

definition intAt :: "(string \<times> nat) list \<Rightarrow> string \<Rightarrow> nat" where
  "intAt m k = (case map_of m k of None \<Rightarrow> 0 | Some n \<Rightarrow> n)"

lemma intAt_update [simp]: "intAt (AList.update k n m) j = (if j = k then n else intAt m j)"
  by (simp add: intAt_def update_conv')

section \<open>Ranks\<close>

definition internalEdges :: "string list \<Rightarrow> flow_edge list \<Rightarrow> flow_edge list" where
  "internalEdges rows edges =
     filter (\<lambda>e. fe_source e \<noteq> fe_target e \<and> fe_source e \<in> set rows \<and> fe_target e \<in> set rows) edges"

definition outOf :: "flow_edge list \<Rightarrow> string \<Rightarrow> string list" where
  "outOf es r = map fe_target (filter (\<lambda>e. fe_source e = r) es)"

definition orderOf :: "string list \<Rightarrow> string \<Rightarrow> nat" where
  "orderOf rows r = intAt (rev (zip rows [0..<length rows])) r"

definition startFlow :: "string list \<Rightarrow> flow_edge list \<Rightarrow> flow_state" where
  "startFlow rows es =
     \<lparr>fs_rank = [], fs_indegree = map (\<lambda>r. (r, length (filter (\<lambda>e. fe_target e = r) es))) rows,
      fs_settled = [], fs_pending = uniq rows\<rparr>"

definition readyNow :: "string list \<Rightarrow> flow_state \<Rightarrow> string list" where
  "readyNow rows st = sort_key (orderOf rows) (filter (\<lambda>r. intAt (fs_indegree st) r = 0) (fs_pending st))"

fun pushWires :: "string list \<Rightarrow> nat \<Rightarrow> string list \<Rightarrow> (string \<times> nat) list \<Rightarrow> (string \<times> nat) list
    \<Rightarrow> (string \<times> nat) list \<times> (string \<times> nat) list" where
  "pushWires settled own [] rank indegree = (rank, indegree)"
| "pushWires settled own (v # vs) rank indegree =
     (if v \<in> set settled then pushWires settled own vs rank indegree
      else pushWires settled own vs (AList.update v (max (intAt rank v) (own + 1)) rank)
             (AList.update v (intAt indegree v - 1) indegree))"

definition settleRow :: "flow_edge list \<Rightarrow> string \<Rightarrow> flow_state \<Rightarrow> flow_state" where
  "settleRow es r st =
     (let settled = r # fs_settled st;
          own = intAt (fs_rank st) r;
          (rank, indegree) = pushWires settled own (outOf es r) (AList.update r own (fs_rank st)) (fs_indegree st)
      in \<lparr>fs_rank = rank, fs_indegree = indegree, fs_settled = settled, fs_pending = remove1 r (fs_pending st)\<rparr>)"

definition flowTurn :: "string list \<Rightarrow> flow_edge list \<Rightarrow> flow_state \<Rightarrow> flow_state" where
  "flowTurn rows es st =
     (let ready = readyNow rows st
      in if ready \<noteq> [] then fold (settleRow es) ready st
         else let forced = hd (sort_key (orderOf rows) (fs_pending st))
              in settleRow es forced (st\<lparr>fs_indegree := AList.update forced 0 (fs_indegree st)\<rparr>))"

lemma settleRow_lists:
  "fs_settled (settleRow es r st) = r # fs_settled st" "fs_pending (settleRow es r st) = remove1 r (fs_pending st)"
  by (simp_all add: settleRow_def Let_def split: prod.split)

lemma fold_pending: "fs_pending (fold (settleRow es) rs st) = fold remove1 rs (fs_pending st)"
  by (induction rs arbitrary: st) (simp_all add: settleRow_lists)

lemma fold_settled: "fs_settled (fold (settleRow es) rs st) = rev rs @ fs_settled st"
  by (induction rs arbitrary: st) (simp_all add: settleRow_lists)

lemma fold_remove1_length: "length (fold remove1 rs xs) \<le> length xs"
proof (induction rs arbitrary: xs)
  case (Cons r rs)
  have "length (remove1 r xs) \<le> length xs" by (simp add: length_remove1)
  then show ?case using Cons.IH [of "remove1 r xs"] by simp
qed simp

lemma hd_sorted_mem: "xs \<noteq> [] \<Longrightarrow> hd (sort_key f xs) \<in> set xs"
  by (metis hd_in_set set_empty set_sort)

lemma flowTurn_progress:
  assumes "fs_pending st \<noteq> []"
  shows "length (fs_pending (flowTurn rows es st)) < length (fs_pending st)"
proof (cases "readyNow rows st")
  case Nil
  then show ?thesis using assms hd_sorted_mem [OF assms, of "orderOf rows"]
    by (simp add: flowTurn_def settleRow_lists length_remove1 length_pos_if_in_set Let_def)
next
  case (Cons r rs)
  then have "r \<in> set (readyNow rows st)" by simp
  then have "r \<in> set (fs_pending st)" by (simp add: readyNow_def)
  then have "length (remove1 r (fs_pending st)) < length (fs_pending st)"
    using assms by (simp add: length_remove1 length_pos_if_in_set)
  then show ?thesis using Cons fold_remove1_length [of rs "remove1 r (fs_pending st)"]
    by (simp add: flowTurn_def fold_pending settleRow_lists)
qed

function flowLoop :: "string list \<Rightarrow> flow_edge list \<Rightarrow> flow_state \<Rightarrow> flow_state" where
  "flowLoop rows es st = (if fs_pending st = [] then st else flowLoop rows es (flowTurn rows es st))"
  by auto
termination by (relation "measure (\<lambda>(rows, es, st). length (fs_pending st))") (auto simp: flowTurn_progress)

declare flowLoop.simps [simp del]

definition flowRanks :: "string list \<Rightarrow> flow_edge list \<Rightarrow> (string \<times> nat) list" where
  "flowRanks rows edges =
     (let es = internalEdges rows edges in fs_rank (flowLoop rows es (startFlow rows es)))"

definition flowOrder :: "string list \<Rightarrow> flow_edge list \<Rightarrow> string list" where
  "flowOrder rows edges =
     (if length rows < 2 \<or> edges = [] then rows
      else let rank = flowRanks rows edges in sort_key (\<lambda>r. (intAt rank r, orderOf rows r)) rows)"

section \<open>What the ranks are\<close>

text \<open>The rank of a row by those of its producers in \<open>S\<close>: one more than the greatest.\<close>

definition predRank :: "flow_edge list \<Rightarrow> string set \<Rightarrow> (string \<times> nat) list \<Rightarrow> string \<Rightarrow> nat" where
  "predRank es S rank v =
     Max (insert 0 ((\<lambda>e. Suc (intAt rank (fe_source e))) ` {e \<in> set es. fe_target e = v \<and> fe_source e \<in> S}))"

lemma predRank_cong:
  assumes "\<And>e. e \<in> set es \<Longrightarrow> fe_target e = v \<Longrightarrow> fe_source e \<in> S \<longleftrightarrow> fe_source e \<in> S'"
    and "\<And>e. e \<in> set es \<Longrightarrow> fe_target e = v \<Longrightarrow> fe_source e \<in> S \<Longrightarrow> intAt rank (fe_source e) = intAt rank' (fe_source e)"
  shows "predRank es S rank v = predRank es S' rank' v"
proof -
  have "{e \<in> set es. fe_target e = v \<and> fe_source e \<in> S} = {e \<in> set es. fe_target e = v \<and> fe_source e \<in> S'}"
    using assms(1) by blast
  moreover have "(\<lambda>e. Suc (intAt rank (fe_source e))) ` {e \<in> set es. fe_target e = v \<and> fe_source e \<in> S}
      = (\<lambda>e. Suc (intAt rank' (fe_source e))) ` {e \<in> set es. fe_target e = v \<and> fe_source e \<in> S}"
    using assms(2) by (intro image_cong) auto
  ultimately show ?thesis by (simp add: predRank_def)
qed

lemma Max_insert_nat: "finite A \<Longrightarrow> Max (insert x A) = max (Max (insert 0 A)) (x :: nat)"
  by (cases "A = {}") (simp_all add: max.commute)

lemma predRank_insert:
  assumes "r \<notin> S"
  shows "predRank es (insert r S) rank v = (if v \<in> set (outOf es r) then max (predRank es S rank v) (Suc (intAt rank r)) else predRank es S rank v)"
proof -
  let ?f = "\<lambda>e. Suc (intAt rank (fe_source e))"
  let ?old = "{e \<in> set es. fe_target e = v \<and> fe_source e \<in> S}" and ?new = "{e \<in> set es. fe_target e = v \<and> fe_source e = r}"
  have split: "{e \<in> set es. fe_target e = v \<and> fe_source e \<in> insert r S} = ?old \<union> ?new" by auto
  have new: "?f ` ?new = (if v \<in> set (outOf es r) then {Suc (intAt rank r)} else {})" by (auto simp: outOf_def image_iff)
  have "predRank es (insert r S) rank v = Max (insert 0 (?f ` ?old \<union> ?f ` ?new))"
    unfolding predRank_def split by (simp only: image_Un)
  also have "\<dots> = (if v \<in> set (outOf es r) then max (Max (insert 0 (?f ` ?old))) (Suc (intAt rank r)) else Max (insert 0 (?f ` ?old)))"
    unfolding new by (simp add: Max_insert_nat [of _ "Suc (intAt rank r)"] insert_commute)
  finally show ?thesis unfolding predRank_def .
qed

lemma pushWires_rank:
  "intAt (fst (pushWires S own vs rank ind)) v = (if v \<in> set vs \<and> v \<notin> set S then max (intAt rank v) (Suc own) else intAt rank v)"
  by (induction S own vs rank ind rule: pushWires.induct) auto

lemma pushWires_indegree:
  "intAt (snd (pushWires S own vs rank ind)) v = (if v \<in> set S then intAt ind v else intAt ind v - count_list vs v)"
  by (induction S own vs rank ind rule: pushWires.induct) auto

lemma settleRow_rank:
  "intAt (fs_rank (settleRow es r st)) v =
     (if v \<in> set (outOf es r) \<and> v \<noteq> r \<and> v \<notin> set (fs_settled st) then max (intAt (fs_rank st) v) (Suc (intAt (fs_rank st) r))
      else intAt (fs_rank st) v)"
  using pushWires_rank [of "r # fs_settled st" "intAt (fs_rank st) r" "outOf es r" "AList.update r (intAt (fs_rank st) r) (fs_rank st)" "fs_indegree st" v]
  by (auto simp: settleRow_def Let_def split: prod.splits)

lemma settleRow_indegree:
  "intAt (fs_indegree (settleRow es r st)) v =
     (if v = r \<or> v \<in> set (fs_settled st) then intAt (fs_indegree st) v else intAt (fs_indegree st) v - count_list (outOf es r) v)"
  using pushWires_indegree [of "r # fs_settled st" "intAt (fs_rank st) r" "outOf es r" "AList.update r (intAt (fs_rank st) r) (fs_rank st)" "fs_indegree st" v]
  by (auto simp: settleRow_def Let_def split: prod.splits)

text \<open>The invariant: the indegree of a pending row counts the wires from pending rows, its rank is the
  one its settled producers give. The indegree of the rows in \<open>X\<close> is left open.\<close>

definition waitingWires :: "flow_edge list \<Rightarrow> string set \<Rightarrow> string \<Rightarrow> nat" where
  "waitingWires es P v = length (filter (\<lambda>e. fe_target e = v \<and> fe_source e \<in> P) es)"

definition flowInv :: "flow_edge list \<Rightarrow> string set \<Rightarrow> flow_state \<Rightarrow> bool" where
  "flowInv es X st \<longleftrightarrow>
     distinct (fs_pending st) \<and> set (fs_pending st) \<inter> set (fs_settled st) = {}
     \<and> (\<forall>e \<in> set es. fe_source e \<in> set (fs_settled st) \<union> set (fs_pending st))
     \<and> (\<forall>v \<in> set (fs_pending st) - X. intAt (fs_indegree st) v = waitingWires es (set (fs_pending st)) v)
     \<and> (\<forall>v \<in> set (fs_pending st). intAt (fs_rank st) v = predRank es (set (fs_settled st)) (fs_rank st) v)"

lemma waitingWires_remove:
  assumes "r \<in> P"
  shows "waitingWires es (P - {r}) v = waitingWires es P v - count_list (outOf es r) v"
proof -
  have "waitingWires es P v = waitingWires es (P - {r}) v + count_list (outOf es r) v" for es
    using assms by (induction es) (auto simp: waitingWires_def outOf_def)
  then show ?thesis by simp
qed

lemma settle_inv:
  assumes inv: "flowInv es {r} st" and r: "r \<in> set (fs_pending st)"
  shows "flowInv es {} (settleRow es r st)"
proof -
  let ?st = "settleRow es r st"
  have P: "set (fs_pending ?st) = set (fs_pending st) - {r}" "distinct (fs_pending ?st)"
    and S: "set (fs_settled ?st) = insert r (set (fs_settled st))"
    using inv by (auto simp: settleRow_lists flowInv_def set_remove1_eq)
  have rS: "r \<notin> set (fs_settled st)" using inv r by (auto simp: flowInv_def)
  have ind: "intAt (fs_indegree ?st) v = waitingWires es (set (fs_pending ?st)) v" if "v \<in> set (fs_pending ?st)" for v
    using that inv unfolding P(1) by (auto simp: settleRow_indegree waitingWires_remove [OF r] flowInv_def)
  have rank: "intAt (fs_rank ?st) v = predRank es (set (fs_settled ?st)) (fs_rank ?st) v" if v: "v \<in> set (fs_pending ?st)" for v
  proof -
    have old: "intAt (fs_rank st) v = predRank es (set (fs_settled st)) (fs_rank st) v" "v \<noteq> r" "v \<notin> set (fs_settled st)"
      using v inv unfolding P(1) by (auto simp: flowInv_def)
    have "predRank es (insert r (set (fs_settled st))) (fs_rank ?st) v = predRank es (insert r (set (fs_settled st))) (fs_rank st) v"
      by (rule predRank_cong) (auto simp: settleRow_rank)
    then show ?thesis unfolding S using old by (simp add: predRank_insert [OF rS] settleRow_rank)
  qed
  show ?thesis unfolding flowInv_def using P S ind rank inv r by (auto simp: flowInv_def)
qed

lemma flowInv_weaken: "flowInv es {} st \<Longrightarrow> flowInv es X st"
  by (auto simp: flowInv_def)

lemma flowInv_force: "flowInv es {} st \<Longrightarrow> flowInv es {r} (st\<lparr>fs_indegree := AList.update r n (fs_indegree st)\<rparr>)"
  by (auto simp: flowInv_def)

section \<open>Rows that no loop feeds\<close>

definition wires :: "flow_edge list \<Rightarrow> (string \<times> string) set" where
  "wires es = (\<lambda>e. (fe_source e, fe_target e)) ` set es"

definition fedByLoop :: "flow_edge list \<Rightarrow> string \<Rightarrow> bool" where
  "fedByLoop es v \<longleftrightarrow> (\<exists>w. (w, w) \<in> (wires es)\<^sup>+ \<and> (w, v) \<in> (wires es)\<^sup>*)"

lemma fedByLoop_wire: "(u, v) \<in> wires es \<Longrightarrow> fedByLoop es u \<Longrightarrow> fedByLoop es v"
  unfolding fedByLoop_def by (meson rtrancl.rtrancl_into_rtrancl)

text \<open>Where every member of a finite set has a predecessor in it, there is a loop.\<close>

lemma predecessors_loop:
  assumes "finite Q" "x \<in> Q" "\<forall>v \<in> Q. \<exists>u \<in> Q. (u, v) \<in> R"
  shows "\<exists>w \<in> Q. (w, w) \<in> R\<^sup>+"
proof (rule ccontr)
  let ?R = "R \<inter> Q \<times> Q"
  assume none: "\<not> (\<exists>w \<in> Q. (w, w) \<in> R\<^sup>+)"
  have sub: "?R\<^sup>+ \<subseteq> R\<^sup>+" by (intro trancl_mono_subset) simp
  have "acyclic ?R"
  proof (rule acyclicI, rule allI)
    fix w
    have "(w, w) \<in> ?R\<^sup>+ \<Longrightarrow> w \<in> Q" by (induction rule: trancl.induct) auto
    then show "(w, w) \<notin> ?R\<^sup>+" using none sub by blast
  qed
  then have "wf ?R" using assms(1) by (intro finite_acyclic_wf) auto
  then obtain v where "v \<in> Q" "\<And>u. (u, v) \<in> ?R \<Longrightarrow> u \<notin> Q" using assms(2) by (metis wfE_min)
  then show False using assms(3) by blast
qed

text \<open>A pending row that no loop feeds leads back to one nothing pending feeds.\<close>

lemma unforced_exists:
  assumes v: "v \<in> P" "finite P" "\<not> fedByLoop es v"
  shows "\<exists>u \<in> P. waitingWires es P u = 0"
proof (rule ccontr)
  assume none: "\<not> ?thesis"
  have pred: "\<exists>u \<in> P. (u, x) \<in> wires es" if "x \<in> P" for x
  proof -
    have "filter (\<lambda>e. fe_target e = x \<and> fe_source e \<in> P) es \<noteq> []" using none that by (auto simp: waitingWires_def)
    then obtain e where "e \<in> set es" "fe_target e = x" "fe_source e \<in> P" by (metis (mono_tags, lifting) filter_empty_conv)
    then show ?thesis unfolding wires_def by blast
  qed
  let ?Q = "{u \<in> P. (u, v) \<in> (wires es)\<^sup>*}"
  have "\<forall>x \<in> ?Q. \<exists>u \<in> ?Q. (u, x) \<in> wires es"
  proof
    fix x assume x: "x \<in> ?Q"
    then obtain u where u: "u \<in> P" "(u, x) \<in> wires es" using pred by auto
    then have "(u, v) \<in> (wires es)\<^sup>*" using x converse_rtrancl_into_rtrancl [OF u(2)] by simp
    then show "\<exists>u \<in> ?Q. (u, x) \<in> wires es" using u by blast
  qed
  then obtain w where "w \<in> ?Q" "(w, w) \<in> (wires es)\<^sup>+" using predecessors_loop [of ?Q v] v by auto
  then show False using v(3) unfolding fedByLoop_def by auto
qed

text \<open>What is settled without being forced has its final rank.\<close>

definition exactRank :: "flow_edge list \<Rightarrow> flow_state \<Rightarrow> string \<Rightarrow> bool" where
  "exactRank es st v \<longleftrightarrow>
     (\<forall>e \<in> set es. fe_target e = v \<longrightarrow> fe_source e \<in> set (fs_settled st))
     \<and> intAt (fs_rank st) v = predRank es UNIV (fs_rank st) v"

lemma exactRank_settle:
  assumes "flowInv es {r} st" "r \<in> set (fs_pending st)" "v \<in> set (fs_settled st)" "exactRank es st v"
  shows "exactRank es (settleRow es r st) v"
proof -
  have keep: "intAt (fs_rank (settleRow es r st)) u = intAt (fs_rank st) u" if "u \<in> set (fs_settled st)" for u
    using that by (simp add: settleRow_rank)
  have "predRank es UNIV (fs_rank (settleRow es r st)) v = predRank es UNIV (fs_rank st) v"
    using assms(4) keep by (intro predRank_cong) (auto simp: exactRank_def)
  then show ?thesis using assms(3,4) keep by (auto simp: exactRank_def settleRow_lists)
qed

lemma exactRank_new:
  assumes "flowInv es {r} st" "r \<in> set (fs_pending st)" "\<forall>e \<in> set es. fe_target e = r \<longrightarrow> fe_source e \<in> set (fs_settled st)"
  shows "exactRank es (settleRow es r st) r"
proof -
  have "predRank es UNIV (fs_rank (settleRow es r st)) r = predRank es (set (fs_settled st)) (fs_rank st) r"
    using assms(3) by (intro predRank_cong) (auto simp: settleRow_rank)
  then show ?thesis using assms by (auto simp: exactRank_def settleRow_lists settleRow_rank flowInv_def)
qed

definition flowOk :: "flow_edge list \<Rightarrow> flow_state \<Rightarrow> bool" where
  "flowOk es st \<longleftrightarrow> flowInv es {} st \<and> (\<forall>v \<in> set (fs_settled st). \<not> fedByLoop es v \<longrightarrow> exactRank es st v)"

lemma settle_ok:
  assumes "flowInv es {r} st" "\<forall>v \<in> set (fs_settled st). \<not> fedByLoop es v \<longrightarrow> exactRank es st v"
    and "r \<in> set (fs_pending st)"
    and "fedByLoop es r \<or> (\<forall>e \<in> set es. fe_target e = r \<longrightarrow> fe_source e \<in> set (fs_settled st))"
  shows "flowOk es (settleRow es r st)"
  using settle_inv [OF assms(1,3)] exactRank_settle [OF assms(1,3)] exactRank_new [OF assms(1,3)] assms(2,4)
  by (auto simp: flowOk_def settleRow_lists)

lemma fold_ok:
  assumes "flowOk es st" "distinct rs" "set rs \<subseteq> set (fs_pending st)"
    and "\<forall>r \<in> set rs. \<forall>e \<in> set es. fe_target e = r \<longrightarrow> fe_source e \<in> set (fs_settled st)"
  shows "flowOk es (fold (settleRow es) rs st)"
  using assms
proof (induction rs arbitrary: st)
  case (Cons r rs)
  have "flowOk es (settleRow es r st)"
    using Cons.prems by (intro settle_ok) (auto simp: flowOk_def flowInv_weaken)
  moreover have "set rs \<subseteq> set (fs_pending (settleRow es r st))"
    using Cons.prems by (auto simp: settleRow_lists flowOk_def flowInv_def)
  ultimately show ?case using Cons by (simp add: settleRow_lists)
qed simp

lemma turn_ok:
  assumes ok: "flowOk es st" and some: "fs_pending st \<noteq> []"
  shows "flowOk es (flowTurn rows es st)"
proof -
  have inv: "flowInv es {} st" using ok by (simp add: flowOk_def)
  have free: "\<forall>e \<in> set es. fe_target e = r \<longrightarrow> fe_source e \<in> set (fs_settled st)" if "r \<in> set (fs_pending st)" "intAt (fs_indegree st) r = 0" for r
    using inv that by (auto simp: flowInv_def waitingWires_def filter_empty_conv)
  show ?thesis
  proof (cases "readyNow rows st")
    case (Cons r rs)
    have "distinct (readyNow rows st)" using inv by (simp add: readyNow_def flowInv_def)
    then have "flowOk es (fold (settleRow es) (readyNow rows st) st)"
      using ok free by (intro fold_ok) (auto simp: readyNow_def)
    then show ?thesis using Cons by (simp add: flowTurn_def)
  next
    case Nil
    let ?r = "hd (sort_key (orderOf rows) (fs_pending st))"
    have r: "?r \<in> set (fs_pending st)" using hd_sorted_mem [OF some] .
    have "intAt (fs_indegree st) u \<noteq> 0" if "u \<in> set (fs_pending st)" for u
      using Nil that by (simp add: readyNow_def filter_empty_conv)
    then have "\<not> (\<exists>u \<in> set (fs_pending st). waitingWires es (set (fs_pending st)) u = 0)"
      using inv by (auto simp: flowInv_def)
    then have "fedByLoop es ?r" using unforced_exists [OF r finite_set] by blast
    moreover have "exactRank es (st\<lparr>fs_indegree := x\<rparr>) v = exactRank es st v" for x v by (simp add: exactRank_def)
    ultimately have "flowOk es (settleRow es ?r (st\<lparr>fs_indegree := AList.update ?r 0 (fs_indegree st)\<rparr>))"
      using r ok flowInv_force [OF inv] by (intro settle_ok) (auto simp: flowOk_def)
    then show ?thesis using Nil by (simp add: flowTurn_def Let_def)
  qed
qed

lemma start_ok:
  assumes "es = internalEdges rows edges"
  shows "flowOk es (startFlow rows es)"
proof -
  have "intAt (map (\<lambda>r. (r, f r)) rows) v = f v" if "v \<in> set rows" for v and f :: "string \<Rightarrow> nat"
    using that by (induction rows) (auto simp: intAt_def)
  moreover have "predRank es {} [] v = 0" for v by (simp add: predRank_def)
  moreover have "filter (\<lambda>e. fe_target e = v \<and> fe_source e \<in> set rows) es = filter (\<lambda>e. fe_target e = v) es" for v
    using assms by (auto simp: internalEdges_def intro: filter_cong)
  ultimately show ?thesis
    using assms by (auto simp: flowOk_def flowInv_def startFlow_def waitingWires_def intAt_def internalEdges_def)
qed

lemma fold_rows:
  "set rs \<subseteq> set (fs_pending st) \<Longrightarrow> set (fs_settled (fold (settleRow es) rs st)) \<union> set (fs_pending (fold (settleRow es) rs st))
     = set (fs_settled st) \<union> set (fs_pending st)"
proof -
  have one: "set xs \<subseteq> insert r (set (remove1 r xs))" "set (remove1 r xs) \<subseteq> set xs" for r and xs :: "string list"
    by (auto simp: set_remove1_subset) (metis in_set_remove1)
  have "set xs \<subseteq> set rs \<union> set (fold remove1 rs xs) \<and> set (fold remove1 rs xs) \<subseteq> set xs" for xs
  proof (induction rs arbitrary: xs)
    case (Cons r rs)
    then show ?case using Cons.IH [of "remove1 r xs"] one [where r = r and xs = xs] by (simp, blast)
  qed simp
  then have "set rs \<union> set (fold remove1 rs (fs_pending st)) = set (fs_pending st)" if "set rs \<subseteq> set (fs_pending st)" using that by blast
  then show "set rs \<subseteq> set (fs_pending st) \<Longrightarrow> ?thesis" unfolding fold_settled fold_pending by auto
qed

lemma flowTurn_rows:
  assumes "fs_pending st \<noteq> []"
  shows "set (fs_settled (flowTurn rows es st)) \<union> set (fs_pending (flowTurn rows es st)) = set (fs_settled st) \<union> set (fs_pending st)"
proof (cases "readyNow rows st")
  case Nil
  have "x = r \<or> x \<in> set (remove1 r xs) \<longleftrightarrow> x \<in> set xs" if "r \<in> set xs" for x r and xs :: "string list"
    using that by (metis in_set_remove1 notin_set_remove1)
  then show ?thesis using Nil hd_sorted_mem [OF assms, of "orderOf rows"] by (auto simp: flowTurn_def settleRow_lists Let_def)
next
  case (Cons r rs)
  have "set (readyNow rows st) \<subseteq> set (fs_pending st)" by (auto simp: readyNow_def)
  from fold_rows [OF this] show ?thesis using Cons by (simp add: flowTurn_def)
qed

lemma loop_ok:
  "flowOk es st \<Longrightarrow> flowOk es (flowLoop rows es st) \<and> fs_pending (flowLoop rows es st) = []
     \<and> set (fs_settled (flowLoop rows es st)) = set (fs_settled st) \<union> set (fs_pending st)"
proof (induction rows es st rule: flowLoop.induct)
  case (1 rows es st)
  show ?case
  proof (cases "fs_pending st = []")
    case True
    then show ?thesis using 1(2) by (simp add: flowLoop.simps [of rows es st])
  next
    case False
    have "set (fs_settled (flowTurn rows es st)) \<union> set (fs_pending (flowTurn rows es st)) = set (fs_settled st) \<union> set (fs_pending st)"
      by (rule flowTurn_rows [OF False])
    then show ?thesis using 1(1) [OF False turn_ok [OF 1(2) False]] False by (simp add: flowLoop.simps [of rows es st])
  qed
qed

lemma rank_of_unfed:
  assumes "v \<in> set rows" "\<not> fedByLoop (internalEdges rows edges) v"
  shows "intAt (flowRanks rows edges) v =
    Max (insert 0 {Suc (intAt (flowRanks rows edges) u) | u. (u, v) \<in> wires (internalEdges rows edges)})"
proof -
  let ?es = "internalEdges rows edges"
  let ?st = "flowLoop rows ?es (startFlow rows ?es)"
  have "flowOk ?es ?st" "set (fs_settled ?st) = set rows"
    using loop_ok [OF start_ok [OF refl], of rows edges rows] by (simp_all add: startFlow_def)
  then have "intAt (fs_rank ?st) v = predRank ?es UNIV (fs_rank ?st) v"
    using assms by (simp add: flowOk_def exactRank_def)
  moreover have "(\<lambda>e. Suc (intAt rank (fe_source e))) ` {e \<in> set ?es. fe_target e = v \<and> fe_source e \<in> UNIV}
      = {Suc (intAt rank u) | u. (u, v) \<in> wires ?es}" for rank
    by (auto simp: wires_def)
  ultimately show ?thesis by (simp add: flowRanks_def predRank_def Let_def)
qed

text \<open>C15. The rank of a row that no loop feeds is one more than the greatest of its producers' (zero
  without a producer): every wire into it runs downwards, and the ranks are as tight as they can
  be, that is, the lengths of the longest paths.\<close>

theorem ranks_run_with_the_flow:
  assumes "v \<in> set rows" "\<not> fedByLoop (internalEdges rows edges) v"
  shows "let rank = flowRanks rows edges; es = internalEdges rows edges
    in intAt rank v = Max (insert 0 {Suc (intAt rank u) | u. (u, v) \<in> wires es})"
  unfolding Let_def by (rule rank_of_unfed [OF assms])

lemma wire_runs_down:
  assumes "(u, v) \<in> wires (internalEdges rows edges)" "\<not> fedByLoop (internalEdges rows edges) v"
  shows "intAt (flowRanks rows edges) u < intAt (flowRanks rows edges) v"
proof -
  let ?es = "internalEdges rows edges" and ?rank = "flowRanks rows edges"
  have v: "v \<in> set rows" using assms(1) by (auto simp: wires_def internalEdges_def)
  have "{Suc (intAt ?rank u) | u. (u, v) \<in> wires ?es} = (\<lambda>(u, v'). Suc (intAt ?rank u)) ` {w \<in> wires ?es. snd w = v}"
    by force
  then have "finite {Suc (intAt ?rank u) | u. (u, v) \<in> wires ?es}" by (simp add: wires_def)
  then have "Suc (intAt ?rank u) \<le> Max (insert 0 {Suc (intAt ?rank u) | u. (u, v) \<in> wires ?es})"
    using assms(1) by (intro Max_ge) auto
  then show ?thesis using rank_of_unfed [OF v assms(2)] by (simp add: Let_def)
qed

lemma orderOf_nth: "distinct rows \<Longrightarrow> i < length rows \<Longrightarrow> orderOf rows (rows ! i) = i"
proof -
  assume *: "distinct rows" "i < length rows"
  have "distinct (map fst (rev (zip rows [0..<length rows])))" using *(1) by (simp add: rev_map [symmetric])
  moreover have "(rows ! i, i) \<in> set (rev (zip rows [0..<length rows]))" using *(2) by (auto simp: set_zip)
  ultimately have "map_of (rev (zip rows [0..<length rows])) (rows ! i) = Some i" by (rule map_of_is_SomeI)
  then show ?thesis by (simp add: orderOf_def intAt_def)
qed

lemma orderOf_inj: "distinct rows \<Longrightarrow> inj_on (orderOf rows) (set rows)"
  by (rule inj_onI) (metis in_set_conv_nth orderOf_nth)

lemma wires_of_few: "length rows < 2 \<or> edges = [] \<Longrightarrow> wires (internalEdges rows edges) = {}"
proof -
  have "x = y" if "length rows < 2" "x \<in> set rows" "y \<in> set rows" for x y
    using that by (cases rows; cases "tl rows") auto
  then show "length rows < 2 \<or> edges = [] \<Longrightarrow> ?thesis" by (auto simp: wires_def internalEdges_def)
qed

lemma flowOrder_sorted:
  assumes "distinct rows" "i < j" "j < length (flowOrder rows edges)"
  defines "key \<equiv> \<lambda>r. (intAt (flowRanks rows edges) r, orderOf rows r)"
  shows "length rows < 2 \<or> edges = [] \<or> key (flowOrder rows edges ! i) \<le> key (flowOrder rows edges ! j)"
proof (cases "length rows < 2 \<or> edges = []")
  case False
  then have fo: "flowOrder rows edges = sort_key key rows" by (simp add: flowOrder_def key_def Let_def)
  have "sorted (map key (sort_key key rows))" by simp
  then have "key (sort_key key rows ! i) \<le> key (sort_key key rows ! j)"
    using assms(2,3) sorted_nth_mono [of "map key (sort_key key rows)" i j] unfolding fo by simp
  then show ?thesis unfolding fo by blast
qed blast

lemma mset_flowOrder: "mset (flowOrder rows edges) = mset rows"
  by (simp add: flowOrder_def Let_def)

text \<open>C10. Ordering a frame's rows neither loses nor repeats one; rows of one rank keep the order they came
  in; and a row that no loop feeds comes after everything that feeds it.\<close>

theorem producers_stand_above_consumers:
  assumes "distinct rows"
  shows "let order = flowOrder rows edges; rank = flowRanks rows edges; es = internalEdges rows edges
    in mset order = mset rows
       \<and> (\<forall>i j. i < j \<longrightarrow> j < length order \<longrightarrow> intAt rank (order ! i) = intAt rank (order ! j)
            \<longrightarrow> orderOf rows (order ! i) < orderOf rows (order ! j))
       \<and> (\<forall>i j. i < length order \<longrightarrow> j < length order \<longrightarrow> (order ! i, order ! j) \<in> wires es
            \<longrightarrow> \<not> fedByLoop es (order ! j) \<longrightarrow> i < j)"
proof -
  let ?o = "flowOrder rows edges" and ?rank = "flowRanks rows edges" and ?es = "internalEdges rows edges"
  have set: "set ?o = set rows" and dist: "distinct ?o"
    using mset_flowOrder [of rows edges] assms by (metis set_mset_mset, metis mset_eq_imp_distinct_iff)
  have second: "orderOf rows (?o ! i) < orderOf rows (?o ! j)"
    if ij: "i < j" "j < length ?o" "intAt ?rank (?o ! i) = intAt ?rank (?o ! j)" for i j
  proof (cases "length rows < 2 \<or> edges = []")
    case True
    then have "?o = rows" by (simp add: flowOrder_def)
    then show ?thesis using ij orderOf_nth [OF assms] by simp
  next
    case False
    then have "orderOf rows (?o ! i) \<le> orderOf rows (?o ! j)"
      using flowOrder_sorted [OF assms ij(1,2)] ij(3) by auto
    moreover have "?o ! i \<noteq> ?o ! j" using dist ij by (simp add: nth_eq_iff_index_eq)
    moreover have "?o ! i \<in> set rows" "?o ! j \<in> set rows" using set ij by (metis nth_mem order.strict_trans)+
    ultimately show ?thesis using inj_onD [OF orderOf_inj [OF assms]] by (metis order_le_less)
  qed
  have third: "i < j" if ij: "i < length ?o" "j < length ?o" "(?o ! i, ?o ! j) \<in> wires ?es" "\<not> fedByLoop ?es (?o ! j)" for i j
  proof (rule ccontr)
    assume "\<not> i < j"
    have down: "intAt ?rank (?o ! i) < intAt ?rank (?o ! j)" using wire_runs_down [OF ij(3,4)] .
    then have "j < i" using \<open>\<not> i < j\<close> by (metis less_irrefl linorder_neqE_nat)
    then show False using flowOrder_sorted [OF assms \<open>j < i\<close> ij(1)] wires_of_few [of rows edges] ij(3) down by auto
  qed
  show ?thesis using mset_flowOrder second third by (simp add: Let_def)
qed

section \<open>Lanes\<close>

type_synonym span = "string \<times> nat \<times> nat"

definition rowIndex :: "string list \<Rightarrow> string \<Rightarrow> nat option" where
  "rowIndex order = map_of (rev (zip order [0..<length order]))"

definition spanOf :: "string list \<Rightarrow> flow_edge \<Rightarrow> span option" where
  "spanOf order e =
     (case (rowIndex order (fe_source e), rowIndex order (fe_target e)) of
        (Some a, Some b) \<Rightarrow> if a = b then None else Some (fe_id e, min a b, max a b)
      | _ \<Rightarrow> None)"

definition spansOf :: "(string \<Rightarrow> int) \<Rightarrow> string list \<Rightarrow> flow_edge list \<Rightarrow> span list" where
  "spansOf collate order edges =
     sort_key (\<lambda>(i, lo, hi). (hi - lo, lo, collate i)) (List.map_filter (spanOf order) edges)"

definition laneFree :: "nat \<Rightarrow> nat \<Rightarrow> (nat \<times> nat) list \<Rightarrow> bool" where
  "laneFree lo hi occ = list_all (\<lambda>(l, h). h \<le> lo \<or> hi \<le> l) occ"

definition placeSpan :: "span \<Rightarrow> (nat \<times> nat) list list \<times> (string \<times> nat) list \<Rightarrow> (nat \<times> nat) list list \<times> (string \<times> nat) list" where
  "placeSpan s acc =
     (let (i, lo, hi) = s; (occupied, lane) = acc
      in case find (\<lambda>k. laneFree lo hi (occupied ! k)) [0..<length occupied] of
           Some k \<Rightarrow> (occupied[k := occupied ! k @ [(lo, hi)]], AList.update i k lane)
         | None \<Rightarrow> if MAX_LANES \<le> length occupied then (occupied, lane)
                   else (occupied @ [[(lo, hi)]], AList.update i (length occupied) lane))"

definition assignLanes :: "(string \<Rightarrow> int) \<Rightarrow> string list \<Rightarrow> flow_edge list \<Rightarrow> (string \<times> nat) list" where
  "assignLanes collate order edges = snd (fold placeSpan (spansOf collate order edges) ([], []))"

definition overlaps :: "span \<Rightarrow> span \<Rightarrow> bool" where
  "overlaps s t \<longleftrightarrow> (case (s, t) of ((_, lo, hi), (_, lo', hi')) \<Rightarrow> lo' < hi \<and> lo < hi')"

definition spanLength :: "span \<Rightarrow> nat" where
  "spanLength s = (case s of (_, lo, hi) \<Rightarrow> hi - lo)"

text \<open>The lanes inside the one of a wire; all of them when it has none.\<close>

definition lanesBefore :: "(string \<times> nat) list \<Rightarrow> string \<Rightarrow> nat" where
  "lanesBefore lane i = (case map_of lane i of None \<Rightarrow> MAX_LANES | Some k \<Rightarrow> k)"

definition laneInv :: "span list \<Rightarrow> (nat \<times> nat) list list \<times> (string \<times> nat) list \<Rightarrow> bool" where
  "laneInv placed acc \<longleftrightarrow> (case acc of (occupied, lane) \<Rightarrow>
     length occupied \<le> MAX_LANES
     \<and> (\<forall>i k. map_of lane i = Some k \<longrightarrow> k < length occupied \<and> i \<in> fst ` set placed)
     \<and> (\<forall>k < length occupied. set (occupied ! k) = {p. \<exists>i. (i, p) \<in> set placed \<and> map_of lane i = Some k})
     \<and> (\<forall>s \<in> set placed. \<forall>t \<in> set placed. fst s \<noteq> fst t \<longrightarrow> map_of lane (fst s) \<noteq> None
          \<longrightarrow> map_of lane (fst s) = map_of lane (fst t) \<longrightarrow> \<not> overlaps s t)
     \<and> (\<forall>s \<in> set placed. \<forall>k < lanesBefore lane (fst s). \<exists>t \<in> set placed.
          map_of lane (fst t) = Some k \<and> overlaps s t \<and> spanLength t \<le> spanLength s))"

lemma laneInv_start: "laneInv [] ([], [])"
  by (simp add: laneInv_def lanesBefore_def)

lemma laneFree_iff: "laneFree lo hi occ \<longleftrightarrow> (\<forall>(l, h) \<in> set occ. h \<le> lo \<or> hi \<le> l)"
  by (auto simp: laneFree_def list_all_iff)

text \<open>A lane that is not free holds a wire that overlaps the new one, no longer than it.\<close>

lemma lane_taken:
  assumes inv: "laneInv placed (occupied, lane)" and longest: "\<forall>s \<in> set placed. spanLength s \<le> hi - lo"
    and k: "k < length occupied" "\<not> laneFree lo hi (occupied ! k)"
  shows "\<exists>t \<in> set placed. map_of lane (fst t) = Some k \<and> overlaps (i, lo, hi) t \<and> spanLength t \<le> spanLength (i, lo, hi)"
proof -
  have occ: "set (occupied ! k) = {p. \<exists>i. (i, p) \<in> set placed \<and> map_of lane i = Some k}" using inv k(1) by (simp add: laneInv_def)
  obtain p where "p \<in> set (occupied ! k)" "\<not> (case p of (l, h) \<Rightarrow> h \<le> lo \<or> hi \<le> l)"
    using k(2) unfolding laneFree_def list_all_iff by blast
  moreover obtain l h where "p = (l, h)" by fastforce
  ultimately have lh: "(l, h) \<in> set (occupied ! k)" "lo < h" "l < hi" by auto
  then obtain j where "(j, l, h) \<in> set placed" "map_of lane j = Some k" using occ by auto
  then show ?thesis using lh longest by (intro bexI [of _ "(j, l, h)"]) (auto simp: overlaps_def spanLength_def)
qed

text \<open>Adding a wire in a lane where it overlaps nothing, or in none, when every lane before is taken.\<close>

lemma laneInv_add:
  fixes i lo hi
  defines "s0 \<equiv> (i, lo, hi)"
  assumes inv: "laneInv placed (occupied, lane)" and new: "i \<notin> fst ` set placed"
    and longest: "\<forall>s \<in> set placed. spanLength s \<le> hi - lo"
    and len': "length occupied \<le> length occ'" "length occ' \<le> MAX_LANES" and lane': "map_of lane' = (map_of lane)(i := x)"
    and x: "\<And>k. x = Some k \<Longrightarrow> k < length occ' \<and> (\<forall>t \<in> set placed. map_of lane (fst t) = Some k \<longrightarrow> \<not> overlaps s0 t)"
    and occ': "\<And>k. k < length occ' \<Longrightarrow> set (occ' ! k) = (if k < length occupied then set (occupied ! k) else {}) \<union> (if x = Some k then {(lo, hi)} else {})"
    and full: "\<And>k. k < (case x of None \<Rightarrow> MAX_LANES | Some k \<Rightarrow> k) \<Longrightarrow> k < length occupied \<and> \<not> laneFree lo hi (occupied ! k)"
  shows "laneInv (placed @ [s0]) (occ', lane')"
proof -
  let ?s = "(i, lo, hi)"
  have dom: "\<And>i k. map_of lane i = Some k \<Longrightarrow> k < length occupied \<and> i \<in> fst ` set placed"
    and occ: "\<And>k. k < length occupied \<Longrightarrow> set (occupied ! k) = {p. \<exists>i. (i, p) \<in> set placed \<and> map_of lane i = Some k}"
    and apart: "\<And>s t. s \<in> set placed \<Longrightarrow> t \<in> set placed \<Longrightarrow> fst s \<noteq> fst t \<Longrightarrow> map_of lane (fst s) \<noteq> None
        \<Longrightarrow> map_of lane (fst s) = map_of lane (fst t) \<Longrightarrow> \<not> overlaps s t"
    and inner: "\<And>s k. s \<in> set placed \<Longrightarrow> k < lanesBefore lane (fst s) \<Longrightarrow> \<exists>t \<in> set placed.
        map_of lane (fst t) = Some k \<and> overlaps s t \<and> spanLength t \<le> spanLength s"
    using inv by (simp_all add: laneInv_def)
  have other: "fst s \<noteq> i" if "s \<in> set placed" for s using that new by force
  note hit = lane_taken [OF inv longest, of _ i]
  note x = x [unfolded s0_def]
  have old: "map_of lane' (fst s) = map_of lane (fst s)" if "s \<in> set placed" for s using other [OF that] by (simp add: lane')
  have a: "k < length occ' \<and> j \<in> fst ` set (placed @ [?s])" if "map_of lane' j = Some k" for j k
    using that dom [of j k] x [of k] len'(1) by (auto simp: lane' split: if_splits)
  have b: "set (occ' ! k) = {p. \<exists>j. (j, p) \<in> set (placed @ [?s]) \<and> map_of lane' j = Some k}" if k: "k < length occ'" for k
  proof -
    have "set (occ' ! k) = {p. \<exists>j. (j, p) \<in> set placed \<and> map_of lane j = Some k} \<union> (if x = Some k then {(lo, hi)} else {})"
      using occ' [OF k] occ [of k] dom by (cases "k < length occupied") auto
    moreover have "(j, p) \<in> set placed \<and> map_of lane j = Some k \<longleftrightarrow> (j, p) \<in> set placed \<and> map_of lane' j = Some k" for j p
      using new by (auto simp: lane' image_iff)
    moreover have "map_of lane' i = x" by (simp add: lane')
    ultimately show ?thesis by auto
  qed
  have sym: "overlaps s t \<longleftrightarrow> overlaps t s" for s t by (auto simp: overlaps_def split: prod.splits)
  have c: "\<not> overlaps s t" if st: "s \<in> set (placed @ [?s])" "t \<in> set (placed @ [?s])" "fst s \<noteq> fst t" "map_of lane' (fst s) \<noteq> None"
      "map_of lane' (fst s) = map_of lane' (fst t)" for s t
  proof -
    consider "s \<in> set placed" "t \<in> set placed" | "s = ?s" "t \<in> set placed" | "s \<in> set placed" "t = ?s"
      using st(1-3) by auto
    then show ?thesis
    proof cases
      case 1
      then show ?thesis using st apart [of s t] old by simp
    next
      case 2
      then show ?thesis using st x old [of t] by (auto simp: lane')
    next
      case 3
      then show ?thesis using st x old [of s] sym [of s t] by (auto simp: lane')
    qed
  qed
  have d: "\<exists>t \<in> set (placed @ [?s]). map_of lane' (fst t) = Some k \<and> overlaps s t \<and> spanLength t \<le> spanLength s"
    if "s \<in> set (placed @ [?s])" "k < lanesBefore lane' (fst s)" for s k
  proof (cases "s = ?s")
    case True
    then have "k < length occupied" "\<not> laneFree lo hi (occupied ! k)" using full that(2) by (simp_all add: lanesBefore_def lane')
    then obtain t where "t \<in> set placed" "map_of lane (fst t) = Some k" "overlaps s t" "spanLength t \<le> spanLength s"
      using hit True by blast
    then show ?thesis using old by (intro bexI [of _ t]) auto
  next
    case False
    then have s: "s \<in> set placed" using that(1) by simp
    then have "k < lanesBefore lane (fst s)" using that(2) old by (simp add: lanesBefore_def)
    then show ?thesis using inner [OF s] old by (metis Un_iff set_append)
  qed
  show ?thesis unfolding laneInv_def prod.case s0_def using len' a b c d by blast
qed

lemma laneInv_step:
  assumes inv: "laneInv placed (occupied, lane)" and new: "i \<notin> fst ` set placed"
    and longest: "\<forall>s \<in> set placed. spanLength s \<le> hi - lo"
  shows "laneInv (placed @ [(i, lo, hi)]) (placeSpan (i, lo, hi) (occupied, lane))"
proof -
  let ?s = "(i, lo, hi)"
  have len: "length occupied \<le> MAX_LANES" and dom: "\<And>i k. map_of lane i = Some k \<Longrightarrow> k < length occupied \<and> i \<in> fst ` set placed"
    and occ: "\<And>k. k < length occupied \<Longrightarrow> set (occupied ! k) = {p. \<exists>i. (i, p) \<in> set placed \<and> map_of lane i = Some k}"
    using inv by (simp_all add: laneInv_def)
  have fresh: "map_of lane i = None" using new dom by (metis not_None_eq)
  note main = laneInv_add [OF inv new longest]
  show ?thesis
  proof (cases "find (\<lambda>k. laneFree lo hi (occupied ! k)) [0..<length occupied]")
    case (Some k)
    then have k: "k < length occupied" "laneFree lo hi (occupied ! k)" "\<And>j. j < k \<Longrightarrow> \<not> laneFree lo hi (occupied ! j)"
      by (auto simp: find_Some_iff)
    have "\<not> overlaps ?s t" if t: "t \<in> set placed" "map_of lane (fst t) = Some k" for t
    proof -
      have "(fst t, snd t) \<in> set placed" using t(1) by simp
      then have "snd t \<in> set (occupied ! k)" using t(2) occ [OF k(1)] by blast
      then show ?thesis using k(2) by (cases t) (auto simp: laneFree_iff overlaps_def)
    qed
    then have "laneInv (placed @ [?s]) (occupied[k := occupied ! k @ [(lo, hi)]], AList.update i k lane)"
      using k len by (intro main [where x = "Some k"]) (auto simp: update_conv' nth_list_update)
    then show ?thesis using Some by (simp add: placeSpan_def)
  next
    case None
    then have full: "\<not> laneFree lo hi (occupied ! j)" if "j < length occupied" for j using that by (auto simp: find_None_iff)
    show ?thesis
    proof (cases "MAX_LANES \<le> length occupied")
      case True
      then have "laneInv (placed @ [?s]) (occupied, lane)"
        using len full fresh by (intro main [where x = None]) auto
      then show ?thesis using None True by (simp add: placeSpan_def)
    next
      case False
      have "\<not> overlaps ?s t" if "t \<in> set placed" "map_of lane (fst t) = Some (length occupied)" for t
        using dom [OF that(2)] by simp
      then have "laneInv (placed @ [?s]) (occupied @ [[(lo, hi)]], AList.update i (length occupied) lane)"
        using False full by (intro main [where x = "Some (length occupied)"]) (auto simp: update_conv' nth_append)
      then show ?thesis using None False by (simp add: placeSpan_def)
    qed
  qed
qed

lemma laneInv_fold:
  assumes "distinct (map fst ss)" "sorted_wrt (\<lambda>s t. spanLength s \<le> spanLength t) ss"
  shows "laneInv ss (fold placeSpan ss ([], []))"
  using assms
proof (induction ss rule: rev_induct)
  case (snoc s ss)
  obtain i lo hi where s: "s = (i, lo, hi)" by (metis prod_cases3)
  obtain occ lane where ol: "fold placeSpan ss ([], []) = (occ, lane)" by fastforce
  have "laneInv ss (occ, lane)" using snoc ol by (simp add: sorted_wrt_append)
  moreover have "i \<notin> fst ` set ss" "\<forall>t \<in> set ss. spanLength t \<le> hi - lo"
    using snoc.prems s by (auto simp: sorted_wrt_append spanLength_def)
  ultimately have "laneInv (ss @ [(i, lo, hi)]) (placeSpan (i, lo, hi) (occ, lane))" by (rule laneInv_step)
  then show ?case using s ol by simp
qed (simp add: laneInv_start)

lemma spanOf_Some:
  "spanOf order e = Some (i, lo, hi) \<Longrightarrow> i = fe_id e \<and> lo < hi"
  by (auto simp: spanOf_def min_def max_def split: option.splits if_splits)

lemma spansOf_facts:
  "set (spansOf collate order edges) = {s. \<exists>e \<in> set edges. spanOf order e = Some s}"
  "distinct (map fe_id edges) \<Longrightarrow> distinct (map fst (spansOf collate order edges))"
  "sorted_wrt (\<lambda>s t. spanLength s \<le> spanLength t) (spansOf collate order edges)"
proof -
  let ?key = "\<lambda>(i, lo, hi). (hi - lo, lo, collate i)"
  show "set (spansOf collate order edges) = {s. \<exists>e \<in> set edges. spanOf order e = Some s}"
    by (auto simp: spansOf_def map_filter_def image_iff) (metis option.sel)
  have "fst ` set (List.map_filter (spanOf order) edges) \<subseteq> fe_id ` set edges \<and>
      (distinct (map fe_id edges) \<longrightarrow> distinct (map fst (List.map_filter (spanOf order) edges)))"
  proof (induction edges)
    case (Cons e es)
    show ?case
    proof (cases "spanOf order e")
      case None
      then show ?thesis using Cons by (auto simp: List.map_filter_simps)
    next
      case (Some s)
      then have "fst s = fe_id e" using spanOf_Some [of order e] by (cases s) auto
      then show ?thesis using Cons Some by (auto simp: List.map_filter_simps)
    qed
  qed (simp add: List.map_filter_simps)
  then show "distinct (map fe_id edges) \<Longrightarrow> distinct (map fst (spansOf collate order edges))"
    unfolding spansOf_def distinct_map_sort_key by blast
  have "sorted (map ?key (spansOf collate order edges))" by (simp add: spansOf_def)
  then have "sorted_wrt (\<lambda>s t. ?key s \<le> ?key t) (spansOf collate order edges)" by (simp add: sorted_wrt_map)
  then show "sorted_wrt (\<lambda>s t. spanLength s \<le> spanLength t) (spansOf collate order edges)"
    by (rule sorted_wrt_mono_rel [rotated]) (auto simp: spanLength_def less_eq_prod_def split: prod.splits)
qed

text \<open>C13. No two wires in one lane run beside each other: the wires of a lane touch at most where one
  ends and the other begins. Every lane is one the gutter can hold, and a wire is kept out of an
  inner lane, or of all of them, only by wires there that it overlaps and that are no longer
  than it.\<close>

theorem lanes_never_overlap:
  assumes "distinct (map fe_id edges)"
  shows "let lane = assignLanes collate order edges; spans = {s. \<exists>e \<in> set edges. spanOf order e = Some s}
    in (\<forall>i k. map_of lane i = Some k \<longrightarrow> k < MAX_LANES)
       \<and> (\<forall>s \<in> spans. \<forall>t \<in> spans. fst s \<noteq> fst t \<longrightarrow> map_of lane (fst s) \<noteq> None
            \<longrightarrow> map_of lane (fst s) = map_of lane (fst t) \<longrightarrow> \<not> overlaps s t)
       \<and> (\<forall>s \<in> spans. \<forall>k < lanesBefore lane (fst s). \<exists>t \<in> spans.
            map_of lane (fst t) = Some k \<and> overlaps s t \<and> spanLength t \<le> spanLength s)"
proof -
  let ?ss = "spansOf collate order edges"
  have inv: "laneInv ?ss (fold placeSpan ?ss ([], []))"
    using spansOf_facts(2) [OF assms, of collate order] spansOf_facts(3) by (intro laneInv_fold)
  obtain occ lane where ol: "fold placeSpan ?ss ([], []) = (occ, lane)" by fastforce
  have "k < MAX_LANES" if "map_of lane i = Some k" for i k
    using inv that unfolding ol laneInv_def prod.case by (meson order.strict_trans2)
  moreover have "assignLanes collate order edges = lane" by (simp add: assignLanes_def ol)
  ultimately show ?thesis using inv unfolding ol laneInv_def prod.case Let_def spansOf_facts(1) [of collate, symmetric] by blast
qed

section \<open>Examples\<close>

definition flow_example :: "flow_edge list" where
  "flow_example = map (\<lambda>(i, s, t). \<lparr>fe_id = i, fe_source = s, fe_target = t\<rparr>)
     [(''e1'', ''a'', ''b''), (''e2'', ''b'', ''c''), (''e3'', ''a'', ''c''), (''e4'', ''d'', ''d'')]"

lemma flow_example_unfed: "\<not> fedByLoop (internalEdges [''c'', ''a'', ''b'', ''d''] flow_example) ''c''"
proof -
  let ?w = "wires (internalEdges [''c'', ''a'', ''b'', ''d''] flow_example)"
  have w: "?w = {(''a'', ''b''), (''b'', ''c''), (''a'', ''c'')}"
    by (auto simp: wires_def internalEdges_def flow_example_def)
  have step: "x < y" if "(x, y) \<in> ?w" for x y using that unfolding w by (auto simp: less_char_def)
  have "x < y" if "(x, y) \<in> ?w\<^sup>+" for x y
    using that by (induction rule: trancl.induct) (auto dest: step intro: order.strict_trans)
  then show ?thesis unfolding fedByLoop_def by blast
qed

lemma ranks_run_with_the_flow_witness:
  "let rows = [''c'', ''a'', ''b'', ''d'']; rank = flowRanks rows flow_example
   in intAt rank ''c'' = 2 \<and> intAt rank ''c'' = Max (insert 0 {Suc (intAt rank u) | u. (u, ''c'') \<in> wires (internalEdges rows flow_example)})"
proof -
  have "intAt (flowRanks [''c'', ''a'', ''b'', ''d''] flow_example) ''c'' = 2" by code_simp
  then show ?thesis
    using ranks_run_with_the_flow [of "''c''" "[''c'', ''a'', ''b'', ''d'']" flow_example] flow_example_unfed by (simp add: Let_def)
qed

lemma producers_stand_above_consumers_witness:
  "flowOrder [''c'', ''a'', ''b'', ''d''] flow_example = [''a'', ''d'', ''b'', ''c''] \<and> mset [''a'', ''d'', ''b'', ''c''] = mset [''c'', ''a'', ''b'', ''d'']"
proof -
  have "flowOrder [''c'', ''a'', ''b'', ''d''] flow_example = [''a'', ''d'', ''b'', ''c'']" by code_simp
  then show ?thesis
    using producers_stand_above_consumers [of "[''c'', ''a'', ''b'', ''d'']" flow_example] by (simp add: Let_def)
qed

lemma lanes_never_overlap_witness:
  "let lane = assignLanes (\<lambda>_. 0) [''a'', ''d'', ''b'', ''c''] flow_example
   in lane = [(''e2'', 0), (''e1'', 0), (''e3'', 1)]
      \<and> (\<forall>i k. map_of lane i = Some k \<longrightarrow> k < MAX_LANES)"
proof -
  have "assignLanes (\<lambda>_. 0) [''a'', ''d'', ''b'', ''c''] flow_example = [(''e2'', 0), (''e1'', 0), (''e3'', 1)]" by code_simp
  moreover have "distinct (map fe_id flow_example)" by (simp add: flow_example_def)
  ultimately show ?thesis using lanes_never_overlap [of flow_example "\<lambda>_. 0" "[''a'', ''d'', ''b'', ''c'']"] by (simp add: Let_def)
qed

text \<open>When nothing is ready the row that came first is let through, and it need not lie on a loop: a row
  the loop feeds stands above the loop, and its wire runs upwards though it closes no loop.\<close>

lemma row_below_a_loop_is_forced:
  "let edges = map (\<lambda>(i, s, t). \<lparr>fe_id = i, fe_source = s, fe_target = t\<rparr>)
         [(''e1'', ''b'', ''c''), (''e2'', ''c'', ''b''), (''e3'', ''b'', ''a'')];
       rank = flowRanks [''a'', ''b'', ''c''] edges
   in intAt rank ''a'' = 0 \<and> intAt rank ''b'' = 0 \<and> intAt rank ''c'' = 1 \<and> flowOrder [''a'', ''b'', ''c''] edges = [''a'', ''b'', ''c'']"
  by code_simp

end
