(* ===== verification/Card_Layout.thy ===== *)
theory Card_Layout
  imports Frame_Flow
begin

text \<open>
  The cards of the lens, from \<open>src/frontend/src/components/canvas/context-view/lens/focus-cards.ts\<close>: the window of a
  frame's rows and \<open>layoutBands\<close>, which sizes the frames and places every card. \<open>layoutBands\<close> writes
  the position and the size into the card objects: here these four fields are a store, read and
  written by the id of the card, and the other fields of a card do not change. Lengths are layout
  pixels, taken as rationals (halves are the only fractions).
\<close>

section \<open>Cards\<close>

datatype card_kind = Focal | Entity | Frame | Divider

record focus_card =
  fc_id :: string
  fc_kind :: card_kind
  fc_band :: int
  fc_label :: string
  fc_frameId :: "string option"
  fc_depth :: nat
  fc_nameLines :: nat
  fc_gutterLanes :: int
  fc_childrenOpen :: bool
  fc_frameShowingAll :: bool
  fc_frameLoaded :: int
  fc_frameTotal :: int
  fc_frameHasMore :: bool
  fc_frameOffset :: int
  fc_frameWindowSize :: int

record card_box =
  cb_x :: rat
  cb_y :: rat
  cb_w :: rat
  cb_h :: rat

type_synonym card_store = "string \<Rightarrow> card_box"

definition CARD_W :: rat where "CARD_W = 240"
definition CARD_H :: rat where "CARD_H = 64"
definition CHILD_ROW_H :: rat where "CHILD_ROW_H = 36"
definition FOCAL_H :: rat where "FOCAL_H = 116"
definition FRAME_HEADER_H :: rat where "FRAME_HEADER_H = 46"
definition NAME_LINE_H :: rat where "NAME_LINE_H = 13"
definition FRAME_PAD :: rat where "FRAME_PAD = 10"
definition FRAME_FOOTER_H :: rat where "FRAME_FOOTER_H = 24"
definition FRAME_CONTENT_W :: rat where "FRAME_CONTENT_W = CARD_W + 50"
definition BAND_GAP :: rat where "BAND_GAP = 240"
definition CARD_GAP :: rat where "CARD_GAP = 10"
definition NEST_INDENT :: rat where "NEST_INDENT = 16"
definition CONTAINS_STACK_GAP :: rat where "CONTAINS_STACK_GAP = 18"
definition NAME_ONE_LINE_CHARS :: nat where "NAME_ONE_LINE_CHARS = 30"
definition NAME_ONE_LINE_CHARS_WITH_CHIP :: nat where "NAME_ONE_LINE_CHARS_WITH_CHIP = 18"

lemmas card_constants = CARD_W_def CARD_H_def FOCAL_H_def FRAME_HEADER_H_def NAME_LINE_H_def FRAME_PAD_def
  FRAME_FOOTER_H_def FRAME_CONTENT_W_def BAND_GAP_def CARD_GAP_def NEST_INDENT_def CONTAINS_STACK_GAP_def

definition nameLinesFor :: "string \<Rightarrow> bool \<Rightarrow> nat" where
  "nameLinesFor label hasOwnerChip =
     (if (if hasOwnerChip then NAME_ONE_LINE_CHARS_WITH_CHIP else NAME_ONE_LINE_CHARS) < length label then 2 else 1)"

definition rowHeight :: "string \<Rightarrow> string \<Rightarrow> rat" where
  "rowHeight sharedEdgeType ownEdgeType =
     (if ownEdgeType \<noteq> [] \<and> ownEdgeType \<noteq> sharedEdgeType then CARD_H else CHILD_ROW_H)"

definition holdsRows :: "'a focus_card_scheme \<Rightarrow> bool" where
  "holdsRows c = (fc_kind c = Frame \<or> fc_kind c = Focal)"

definition headerHeight :: "focus_card \<Rightarrow> rat" where
  "headerHeight c =
     (if fc_kind c = Focal then FOCAL_H else FRAME_HEADER_H + (if fc_nameLines c = 2 then NAME_LINE_H else 0))"

section \<open>The window of a frame\<close>

record frame_window =
  fw_total :: int
  fw_loaded :: int
  fw_offset :: int
  fw_size :: int
  fw_from :: int
  fw_to :: int
  fw_exact :: bool
  fw_hasMore :: bool
  fw_scrollable :: bool
  fw_atEnd :: bool
  fw_maxOffset :: int

definition frameWindow :: "focus_card \<Rightarrow> frame_window" where
  "frameWindow c =
     (let size = max 1 (fc_frameWindowSize c);
          exact = (if fc_frameShowingAll c then 0 \<le> fc_frameTotal c else True);
          total = (if fc_frameShowingAll c
                   then max (fc_frameLoaded c) (if 0 \<le> fc_frameTotal c then fc_frameTotal c else 0)
                   else fc_frameLoaded c);
          loaded = fc_frameLoaded c;
          offset = min (max 0 (fc_frameOffset c)) (max 0 (loaded - size));
          from = (if loaded = 0 then 0 else offset + 1);
          to = min (offset + size) loaded;
          hasMore = (fc_frameShowingAll c \<and> fc_frameHasMore c)
      in \<lparr>fw_total = total, fw_loaded = loaded, fw_offset = offset, fw_size = size, fw_from = from, fw_to = to,
          fw_exact = exact, fw_hasMore = hasMore, fw_scrollable = (size < loaded \<or> hasMore), fw_atEnd = (loaded \<le> to),
          fw_maxOffset = max 0 (loaded - size)\<rparr>)"

text \<open>The window shows at most its size, and all it can: it is full unless everything is in it; moving to
  the last offset shows the last loaded row.\<close>

lemma window_shows_all_it_can:
  assumes "0 \<le> fc_frameLoaded c"
  defines "w \<equiv> frameWindow c"
  shows "fw_from w \<le> fw_to w" "fw_to w \<le> fw_loaded w" "0 < fw_loaded w \<Longrightarrow> fw_to w - fw_from w + 1 = min (fw_size w) (fw_loaded w)"
    and "fw_atEnd w \<longleftrightarrow> fw_offset w = fw_maxOffset w" "fw_loaded w \<le> fw_total w"
  using assms(1) unfolding w_def by (auto simp: frameWindow_def Let_def min_def max_def)

section \<open>Placing the cards\<close>

definition gutterOf :: "focus_card \<Rightarrow> rat" where
  "gutterOf c = of_int (gutterWidth (fc_gutterLanes c))"

definition kidsOf :: "focus_card list \<Rightarrow> focus_card \<Rightarrow> focus_card list" where
  "kidsOf cards f = filter (\<lambda>c. truthyStr (fc_frameId c) \<and> fc_frameId c = Some (fc_id f)) cards"

definition frameById :: "focus_card list \<Rightarrow> (string \<times> focus_card) list" where
  "frameById cards = setAll (map (\<lambda>c. (fc_id c, c)) (filter holdsRows cards)) []"

text \<open>The number of hosts around a card, counted up to 32.\<close>

fun climbHosts :: "nat \<Rightarrow> focus_card list \<Rightarrow> string option \<Rightarrow> nat" where
  "climbHosts 0 cards host = 0"
| "climbHosts (Suc n) cards host =
     (if truthyStr host
      then Suc (climbHosts n cards (case map_of (frameById cards) (the host) of None \<Rightarrow> None | Some f \<Rightarrow> fc_frameId f))
      else 0)"

definition frameNesting :: "focus_card list \<Rightarrow> focus_card \<Rightarrow> nat" where
  "frameNesting cards c = climbHosts 32 cards (fc_frameId c)"

definition framesDeepFirst :: "focus_card list \<Rightarrow> focus_card list" where
  "framesDeepFirst cards = sort_key (\<lambda>f. - int (frameNesting cards f)) (map snd (frameById cards))"

definition frameHeight :: "focus_card list \<Rightarrow> card_store \<Rightarrow> focus_card \<Rightarrow> rat" where
  "frameHeight cards s c =
     (let kids = kidsOf cards c;
          inner = (\<Sum>k\<leftarrow>kids. cb_h (s (fc_id k))) + CARD_GAP * max 0 (of_nat (length kids) - 1);
          head = headerHeight c;
          foot = (if fw_scrollable (frameWindow c) then FRAME_FOOTER_H else 0)
      in if kids = [] \<and> \<not> fc_childrenOpen c then head
         else head + FRAME_PAD + max inner (if kids = [] then CARD_H else 0) + FRAME_PAD + foot)"

definition sizeFrame :: "focus_card list \<Rightarrow> focus_card \<Rightarrow> card_store \<Rightarrow> card_store" where
  "sizeFrame cards c s =
     s(fc_id c := (s (fc_id c))\<lparr>cb_w := CARD_W + FRAME_PAD * 2 + gutterOf c, cb_h := frameHeight cards s c\<rparr>)"

definition setWidth :: "rat \<Rightarrow> focus_card \<Rightarrow> card_store \<Rightarrow> card_store" where
  "setWidth w k s = s(fc_id k := (s (fc_id k))\<lparr>cb_w := w\<rparr>)"

definition widenFrame :: "focus_card list \<Rightarrow> focus_card \<Rightarrow> card_store \<Rightarrow> card_store" where
  "widenFrame cards c s =
     (let kids = kidsOf cards c;
          s' = fold (setWidth FRAME_CONTENT_W) (filter (\<lambda>k. fc_kind k \<noteq> Frame) kids) s;
          widest = fold (\<lambda>k acc. max acc (cb_w (s' (fc_id k)))) kids FRAME_CONTENT_W
      in setWidth (widest + FRAME_PAD * 2 + gutterOf c) c s')"

text \<open>A column: each card at its \<open>x\<close>, below the one before by its gap.\<close>

fun placeColumn :: "(focus_card \<Rightarrow> rat) \<Rightarrow> (focus_card \<Rightarrow> rat) \<Rightarrow> rat \<Rightarrow> focus_card list \<Rightarrow> card_store \<Rightarrow> card_store" where
  "placeColumn xOf gap y [] s = s"
| "placeColumn xOf gap y (c # cs) s =
     placeColumn xOf gap (y + cb_h (s (fc_id c)) + gap c) cs (s(fc_id c := (s (fc_id c))\<lparr>cb_x := xOf c, cb_y := y\<rparr>))"

definition bandCards :: "focus_card list \<Rightarrow> int \<Rightarrow> focus_card list" where
  "bandCards cards b = filter (\<lambda>c. \<not> truthyStr (fc_frameId c) \<and> fc_band c = b) cards"

definition bandsPresent :: "focus_card list \<Rightarrow> int list" where
  "bandsPresent cards = uniq (map fc_band (filter (\<lambda>c. \<not> truthyStr (fc_frameId c)) cards))"

definition indentOf :: "focus_card \<Rightarrow> rat" where
  "indentOf c = NEST_INDENT * (of_nat (fc_depth c) + 1)"

definition widthOfBand :: "focus_card list \<Rightarrow> card_store \<Rightarrow> int \<Rightarrow> rat" where
  "widthOfBand cards s b =
     fold (\<lambda>c widest. max widest ((if b = 0 \<and> fc_kind c \<noteq> Focal then indentOf c else 0) + cb_w (s (fc_id c))))
       (bandCards cards b) CARD_W"

fun bandUp :: "focus_card list \<Rightarrow> card_store \<Rightarrow> nat \<Rightarrow> rat" where
  "bandUp cards s 0 = 0"
| "bandUp cards s (Suc n) = bandUp cards s n + widthOfBand cards s (int n) + BAND_GAP"

fun bandDown :: "focus_card list \<Rightarrow> card_store \<Rightarrow> nat \<Rightarrow> rat" where
  "bandDown cards s 0 = 0"
| "bandDown cards s (Suc n) = bandDown cards s n - (widthOfBand cards s (- int (Suc n)) + BAND_GAP)"

definition bandX :: "focus_card list \<Rightarrow> card_store \<Rightarrow> int \<Rightarrow> rat" where
  "bandX cards s b = (if 0 \<le> b then bandUp cards s (nat b) else bandDown cards s (nat (- b)))"

definition placeBand :: "focus_card list \<Rightarrow> (int \<Rightarrow> rat) \<Rightarrow> int \<Rightarrow> card_store \<Rightarrow> card_store" where
  "placeBand cards xs b s =
     (let cs = bandCards cards b
      in if b = 0
         then let focal = find (\<lambda>c. fc_kind c = Focal) cs;
                  isFocal = (\<lambda>c. map_option fc_id focal = Some (fc_id c))
              in placeColumn (\<lambda>c. if isFocal c then xs b else xs b + indentOf c)
                   (\<lambda>c. if isFocal c then CONTAINS_STACK_GAP else CARD_GAP)
                   (- (case focal of None \<Rightarrow> FOCAL_H | Some f \<Rightarrow> cb_h (s (fc_id f))) / 2) cs s
         else let total = (\<Sum>c\<leftarrow>cs. cb_h (s (fc_id c))) + CARD_GAP * max 0 (of_nat (length cs) - 1)
              in placeColumn (\<lambda>c. xs b) (\<lambda>c. CARD_GAP) (- total / 2) cs s)"

definition placeKids :: "focus_card list \<Rightarrow> focus_card \<Rightarrow> card_store \<Rightarrow> card_store" where
  "placeKids cards f s =
     placeColumn (\<lambda>k. cb_x (s (fc_id f)) + FRAME_PAD + gutterOf f) (\<lambda>k. CARD_GAP)
       (cb_y (s (fc_id f)) + headerHeight f) (kidsOf cards f) s"

text \<open>The positions of the bands from the innermost outwards, and the cards placed.\<close>

definition sizedCards :: "focus_card list \<Rightarrow> card_store \<Rightarrow> card_store" where
  "sizedCards cards s = fold (widenFrame cards) (framesDeepFirst cards) (fold (sizeFrame cards) (framesDeepFirst cards) s)"

definition layoutBands :: "focus_card list \<Rightarrow> card_store \<Rightarrow> card_store \<times> (int \<times> rat) list" where
  "layoutBands cards s =
     (let sized = sizedCards cards s;
          present = bandsPresent cards;
          maxBand = fold max present 0;
          minBand = fold min present 0;
          xs = bandX cards sized;
          banded = fold (placeBand cards xs) present sized
      in (fold (placeKids cards) (rev (framesDeepFirst cards)) banded,
          map (\<lambda>b. (b, xs b)) ([0..maxBand] @ rev [minBand..-1])))"

section \<open>Boards that can be laid out\<close>

text \<open>The ids are distinct, a frame id names a card that holds rows, the hosts of a card are fewer than
  32, and there is at most one focal card, at the top level.\<close>

definition cardsOk :: "focus_card list \<Rightarrow> bool" where
  "cardsOk cards \<longleftrightarrow>
     distinct (map fc_id cards)
     \<and> (\<forall>c \<in> set cards. truthyStr (fc_frameId c) \<longrightarrow> (\<exists>f \<in> set cards. holdsRows f \<and> fc_frameId c = Some (fc_id f)))
     \<and> (\<forall>f \<in> set cards. holdsRows f \<longrightarrow> frameNesting cards f < 32)
     \<and> (\<forall>c \<in> set cards. fc_kind c = Focal \<longrightarrow> \<not> truthyStr (fc_frameId c))
     \<and> (\<forall>c \<in> set cards. \<forall>d \<in> set cards. fc_kind c = Focal \<longrightarrow> fc_kind d = Focal \<longrightarrow> c = d)"

lemma cards_same_id: "cardsOk cards \<Longrightarrow> c \<in> set cards \<Longrightarrow> d \<in> set cards \<Longrightarrow> fc_id c = fc_id d \<longleftrightarrow> c = d"
  unfolding cardsOk_def by (metis distinct_map inj_on_def)

lemma frameById_ok:
  assumes "cardsOk cards"
  shows "frameById cards = map (\<lambda>c. (fc_id c, c)) (filter holdsRows cards)"
proof -
  have "distinct (map fc_id (filter holdsRows cards))" using assms by (simp add: cardsOk_def distinct_map_filter)
  then show ?thesis unfolding frameById_def by (subst setAll_new) (simp_all add: comp_def)
qed

lemma frames_set: "cardsOk cards \<Longrightarrow> set (framesDeepFirst cards) = {f \<in> set cards. holdsRows f}"
  by (auto simp: framesDeepFirst_def frameById_ok)

lemma frames_distinct: "cardsOk cards \<Longrightarrow> distinct (framesDeepFirst cards)"
  by (auto simp: framesDeepFirst_def frameById_ok cardsOk_def distinct_map comp_def)

lemma frames_split:
  assumes "framesDeepFirst cards = as @ c # bs"
  shows "b \<in> set bs \<Longrightarrow> frameNesting cards b \<le> frameNesting cards c" "a \<in> set as \<Longrightarrow> frameNesting cards c \<le> frameNesting cards a"
proof -
  have "sorted (map (\<lambda>f. - int (frameNesting cards f)) (as @ c # bs))"
    unfolding assms [symmetric] framesDeepFirst_def by (rule sorted_sort_key)
  then show "b \<in> set bs \<Longrightarrow> frameNesting cards b \<le> frameNesting cards c" "a \<in> set as \<Longrightarrow> frameNesting cards c \<le> frameNesting cards a"
    by (auto simp: sorted_append)
qed

lemma climbHosts_less: "climbHosts (Suc n) cards host \<le> n \<Longrightarrow> climbHosts n cards host = climbHosts (Suc n) cards host"
proof (induction n arbitrary: host)
  case (Suc n)
  show ?case
  proof (cases "truthyStr host")
    case True
    let ?next = "case map_of (frameById cards) (the host) of None \<Rightarrow> None | Some f \<Rightarrow> fc_frameId f"
    have step: "climbHosts (Suc (Suc n)) cards host = Suc (climbHosts (Suc n) cards ?next)" "climbHosts (Suc n) cards host = Suc (climbHosts n cards ?next)"
      using True by simp_all
    then have "climbHosts (Suc n) cards ?next \<le> n" using Suc.prems by simp
    then show ?thesis using Suc.IH [of ?next] step by simp
  qed simp
qed (simp split: if_splits)

lemma frameById_mem:
  assumes "cardsOk cards" "f \<in> set cards" "holdsRows f"
  shows "map_of (frameById cards) (fc_id f) = Some f"
proof -
  have "distinct (map fst (frameById cards))" using assms(1) by (simp add: frameById_ok cardsOk_def distinct_map_filter comp_def)
  then show ?thesis using assms by (intro map_of_is_SomeI) (auto simp: frameById_ok)
qed

lemma kid_depth:
  assumes ok: "cardsOk cards" and f: "f \<in> set cards" "holdsRows f" and k: "k \<in> set (kidsOf cards f)"
  shows "frameNesting cards k = Suc (frameNesting cards f)"
proof -
  have "frameNesting cards f < 32" using ok f by (simp add: cardsOk_def)
  moreover have "truthyStr (fc_frameId k)" "fc_frameId k = Some (fc_id f)" using k by (auto simp: kidsOf_def)
  moreover have "climbHosts 31 cards (fc_frameId f) = climbHosts (Suc 31) cards (fc_frameId f)"
    using climbHosts_less [of 31 cards "fc_frameId f"] calculation(1) by (simp add: frameNesting_def)
  moreover have "climbHosts (Suc 31) cards (fc_frameId k) = Suc (climbHosts 31 cards (fc_frameId f))"
    using calculation(2,3) frameById_mem [OF ok f] by (simp only: climbHosts.simps(2)) simp
  ultimately show ?thesis by (simp add: frameNesting_def)
qed

lemma kidsOf_iff: "k \<in> set (kidsOf cards f) \<longleftrightarrow> k \<in> set cards \<and> truthyStr (fc_frameId k) \<and> fc_frameId k = Some (fc_id f)"
  by (auto simp: kidsOf_def)

lemma kids_distinct: "cardsOk cards \<Longrightarrow> distinct (map fc_id (kidsOf cards f))"
  by (simp add: kidsOf_def cardsOk_def distinct_map_filter)

section \<open>Sizes\<close>

text \<open>What a step establishes for its own item holds at the end when the later steps keep it.\<close>

lemma kept_by_fold: "(\<And>x s. x \<in> set xs \<Longrightarrow> P s \<Longrightarrow> P (step x s)) \<Longrightarrow> P s \<Longrightarrow> P (fold step xs s)"
  by (induction xs arbitrary: s) auto

lemma settled_in_fold:
  assumes "fs = as @ c # bs" "I s" "\<And>x s. I s \<Longrightarrow> I (step x s)"
    and "\<And>s. I s \<Longrightarrow> good (step c s)" "\<And>b s. b \<in> set bs \<Longrightarrow> I s \<Longrightarrow> good s \<Longrightarrow> good (step b s)"
  shows "good (fold step fs s)"
proof -
  have "I (fold step as s)" using assms(2,3) by (intro kept_by_fold [where P = I]) auto
  then have "I (step c (fold step as s)) \<and> good (step c (fold step as s))" using assms(3,4) by blast
  then have "I (fold step bs (step c (fold step as s))) \<and> good (fold step bs (step c (fold step as s)))"
    by (rule kept_by_fold [where P = "\<lambda>s. I s \<and> good s", rotated]) (use assms(3,5) in blast)
  then show ?thesis using assms(1) by simp
qed

lemmas settled_by_fold = settled_in_fold [where I = "\<lambda>_. True", simplified]

lemma frameHeight_cong:
  "(\<And>k. k \<in> set (kidsOf cards f) \<Longrightarrow> cb_h (s (fc_id k)) = cb_h (s' (fc_id k))) \<Longrightarrow> frameHeight cards s f = frameHeight cards s' f"
  by (simp add: frameHeight_def Let_def cong: map_cong)

lemma sizeFrame_other: "i \<noteq> fc_id c \<Longrightarrow> sizeFrame cards c s i = s i"
  by (simp add: sizeFrame_def)

lemma sized_heights:
  fixes s :: card_store
  assumes ok: "cardsOk cards" and f: "f \<in> set cards" "holdsRows f"
  defines "s' \<equiv> fold (sizeFrame cards) (framesDeepFirst cards) s"
  shows "cb_h (s' (fc_id f)) = frameHeight cards s' f"
proof -
  have "f \<in> set (framesDeepFirst cards)" using frames_set [OF ok] f by simp
  then obtain as bs where split: "framesDeepFirst cards = as @ f # bs" by (meson split_list)
  have kid: "fc_id k \<noteq> fc_id b" if "k \<in> set (kidsOf cards f)" "b \<in> set (f # bs)" for k b
  proof
    assume "fc_id k = fc_id b"
    moreover have "b \<in> set cards" using frames_set [OF ok] split that(2) by auto
    ultimately have "k = b" using cards_same_id [OF ok] that(1) by (auto simp: kidsOf_iff)
    moreover have "frameNesting cards b \<le> frameNesting cards f" using frames_split(1) [OF split] that(2) by auto
    ultimately show False using kid_depth [OF ok f that(1)] by simp
  qed
  have other: "fc_id f \<noteq> fc_id b" if "b \<in> set bs" for b
    using frames_distinct [OF ok] frames_set [OF ok] split cards_same_id [OF ok f(1), of b] that by auto
  show ?thesis unfolding s'_def
  proof (rule settled_by_fold [OF split, where good = "\<lambda>s. cb_h (s (fc_id f)) = frameHeight cards s f"])
    show "cb_h (sizeFrame cards f s (fc_id f)) = frameHeight cards (sizeFrame cards f s) f" for s
      using kid frameHeight_cong [of cards f s "sizeFrame cards f s"] by (simp add: sizeFrame_def)
    show "cb_h (sizeFrame cards b s (fc_id f)) = frameHeight cards (sizeFrame cards b s) f"
      if "b \<in> set bs" "cb_h (s (fc_id f)) = frameHeight cards s f" for b s
      using that kid [of _ b] other [OF that(1)] frameHeight_cong [of cards f s "sizeFrame cards b s"] by (simp add: sizeFrame_other)
  qed
qed

lemma header_nonneg: "0 \<le> headerHeight c"
  by (simp add: headerHeight_def card_constants)

lemma frameHeight_ge:
  assumes "\<And>k. k \<in> set (kidsOf cards f) \<Longrightarrow> 0 \<le> cb_h (s (fc_id k))"
  shows "headerHeight f \<le> frameHeight cards s f"
    and "kidsOf cards f \<noteq> [] \<Longrightarrow> headerHeight f + (\<Sum>k\<leftarrow>kidsOf cards f. cb_h (s (fc_id k)))
      + CARD_GAP * (of_nat (length (kidsOf cards f)) - 1) \<le> frameHeight cards s f"
proof -
  have "0 \<le> (\<Sum>k\<leftarrow>kidsOf cards f. cb_h (s (fc_id k)))" using assms by (intro sum_list_nonneg) auto
  moreover have "0 \<le> CARD_GAP * max 0 (of_nat (length (kidsOf cards f)) - 1)" by (simp add: card_constants)
  moreover have "max 0 (of_nat (length (kidsOf cards f)) - 1) = (of_nat (length (kidsOf cards f)) - 1 :: rat)" if "kidsOf cards f \<noteq> []"
    using that by (cases "kidsOf cards f") simp_all
  ultimately show "headerHeight f \<le> frameHeight cards s f"
    and "kidsOf cards f \<noteq> [] \<Longrightarrow> headerHeight f + (\<Sum>k\<leftarrow>kidsOf cards f. cb_h (s (fc_id k)))
      + CARD_GAP * (of_nat (length (kidsOf cards f)) - 1) \<le> frameHeight cards s f"
    by (auto simp: frameHeight_def Let_def card_constants max_def)
qed

lemma sized_nonneg:
  fixes s :: card_store
  assumes "\<forall>c \<in> set cards. 0 \<le> cb_h (s (fc_id c))"
  shows "\<forall>c \<in> set cards. 0 \<le> cb_h (fold (sizeFrame cards) fs s (fc_id c))"
proof (rule kept_by_fold [where P = "\<lambda>s. \<forall>c \<in> set cards. 0 \<le> cb_h (s (fc_id c))"])
  fix f and s :: card_store assume "\<forall>c \<in> set cards. 0 \<le> cb_h (s (fc_id c))"
  then have "0 \<le> frameHeight cards s f" using frameHeight_ge(1) [of cards f s] header_nonneg [of f] by (force simp: kidsOf_iff)
  then show "\<forall>c \<in> set cards. 0 \<le> cb_h (sizeFrame cards f s (fc_id c))"
    using \<open>\<forall>c \<in> set cards. 0 \<le> cb_h (s (fc_id c))\<close> by (simp add: sizeFrame_def)
qed (use assms in blast)

text \<open>The second pass changes widths only, of its frame and of the rows in it that are no frames.\<close>

lemma setWidth_simps [simp]:
  "cb_h (setWidth w k s i) = cb_h (s i)" "cb_x (setWidth w k s i) = cb_x (s i)" "cb_y (setWidth w k s i) = cb_y (s i)"
  "cb_w (setWidth w k s i) = (if i = fc_id k then w else cb_w (s i))" "i \<noteq> fc_id k \<Longrightarrow> setWidth w k s i = s i"
  by (simp_all add: setWidth_def)

lemma setWidths_other: "i \<notin> fc_id ` set ks \<Longrightarrow> fold (setWidth w) ks s i = s i"
  by (induction ks arbitrary: s) auto

lemma setWidths_h: "cb_h (fold (setWidth w) ks s i) = cb_h (s i)"
  by (induction ks arbitrary: s) auto

lemma widenFrame_h [simp]: "cb_h (widenFrame cards c s i) = cb_h (s i)"
  by (simp add: widenFrame_def Let_def setWidths_h)

lemma widenFrame_other:
  "i \<noteq> fc_id c \<Longrightarrow> \<forall>k \<in> set (kidsOf cards c). fc_kind k \<noteq> Frame \<longrightarrow> i \<noteq> fc_id k \<Longrightarrow> widenFrame cards c s i = s i"
proof -
  assume *: "i \<noteq> fc_id c" "\<forall>k \<in> set (kidsOf cards c). fc_kind k \<noteq> Frame \<longrightarrow> i \<noteq> fc_id k"
  then have "i \<notin> fc_id ` set (filter (\<lambda>k. fc_kind k \<noteq> Frame) (kidsOf cards c))" by auto
  then show ?thesis using * by (simp add: widenFrame_def Let_def setWidths_other del: set_filter)
qed

definition holdsKids :: "focus_card list \<Rightarrow> focus_card \<Rightarrow> card_store \<Rightarrow> bool" where
  "holdsKids cards f s \<longleftrightarrow> (\<forall>k \<in> set (kidsOf cards f). cb_w (s (fc_id k)) + FRAME_PAD * 2 + gutterOf f \<le> cb_w (s (fc_id f)))"

lemma kid_is_other:
  assumes "cardsOk cards" "f \<in> set cards" "holdsRows f" "k \<in> set (kidsOf cards f)" "b \<in> set cards" "frameNesting cards b \<le> frameNesting cards f"
  shows "fc_id k \<noteq> fc_id b"
proof
  assume "fc_id k = fc_id b"
  then have "k = b" using cards_same_id [OF assms(1)] assms(4,5) by (auto simp: kidsOf_iff)
  then show False using kid_depth [OF assms(1-4)] assms(6) by simp
qed

lemma kids_of_others:
  assumes "cardsOk cards" "f \<in> set cards" "b \<in> set cards" "f \<noteq> b" "k \<in> set (kidsOf cards f)" "l \<in> set (kidsOf cards b)"
  shows "fc_id k \<noteq> fc_id l"
  using assms cards_same_id [OF assms(1)] by (metis kidsOf_iff option.inject)

lemma widened_holds:
  fixes s :: card_store
  assumes ok: "cardsOk cards" and f: "f \<in> set cards" "holdsRows f"
  shows "holdsKids cards f (fold (widenFrame cards) (framesDeepFirst cards) s)"
proof -
  have "f \<in> set (framesDeepFirst cards)" using frames_set [OF ok] f by simp
  then obtain as bs where split: "framesDeepFirst cards = as @ f # bs" by (meson split_list)
  show ?thesis
  proof (rule settled_by_fold [OF split, where good = "holdsKids cards f"])
    fix s :: card_store
    let ?s' = "fold (setWidth FRAME_CONTENT_W) (filter (\<lambda>k. fc_kind k \<noteq> Frame) (kidsOf cards f)) s"
    let ?w = "fold (\<lambda>k acc. max acc (cb_w (?s' (fc_id k)))) (kidsOf cards f) FRAME_CONTENT_W"
    have w: "widenFrame cards f s = setWidth (?w + FRAME_PAD * 2 + gutterOf f) f ?s'" by (simp add: widenFrame_def Let_def)
    have "cb_w (?s' (fc_id k)) \<le> ?w" if "k \<in> set (kidsOf cards f)" for k
      using fold_max_ge [OF that, of "\<lambda>k. cb_w (?s' (fc_id k))" FRAME_CONTENT_W] by simp
    then show "holdsKids cards f (widenFrame cards f s)"
      unfolding holdsKids_def w using kid_is_other [OF ok f _ f(1)] by simp
  next
    fix b and s :: card_store assume b: "b \<in> set bs" and good: "holdsKids cards f s"
    have bc: "b \<in> set cards" "b \<noteq> f" "frameNesting cards b \<le> frameNesting cards f" "holdsRows b"
      using frames_set [OF ok] frames_distinct [OF ok] frames_split(1) [OF split b] split b by auto
    have "widenFrame cards b s (fc_id k) = s (fc_id k)" if "k \<in> set (kidsOf cards f)" for k
      using kid_is_other [OF ok f that bc(1,3)] kids_of_others [OF ok f(1) bc(1) bc(2) [symmetric] that] by (intro widenFrame_other) auto
    moreover have "widenFrame cards b s (fc_id f) = s (fc_id f)"
    proof (rule widenFrame_other)
      show "fc_id f \<noteq> fc_id b" using cards_same_id [OF ok f(1) bc(1)] bc(2) by simp
      show "\<forall>k \<in> set (kidsOf cards b). fc_kind k \<noteq> Frame \<longrightarrow> fc_id f \<noteq> fc_id k"
      proof (intro ballI impI notI)
        fix k assume k: "k \<in> set (kidsOf cards b)" "fc_kind k \<noteq> Frame" "fc_id f = fc_id k"
        then have "f = k" using cards_same_id [OF ok f(1), of k] by (simp add: kidsOf_iff)
        then show False using k f(2) ok by (auto simp: kidsOf_iff holdsRows_def cardsOk_def)
      qed
    qed
    ultimately show "holdsKids cards f (widenFrame cards b s)" using good by (simp add: holdsKids_def)
  qed
qed

lemma sizedCards_h: "cb_h (sizedCards cards s i) = cb_h (fold (sizeFrame cards) (framesDeepFirst cards) s i)"
proof -
  have "cb_h (fold (widenFrame cards) fs s i) = cb_h (s i)" for fs s by (induction fs arbitrary: s) auto
  then show ?thesis by (simp add: sizedCards_def)
qed

text \<open>What the sizing gives.\<close>

lemma sizedCards_ok:
  fixes s :: card_store
  assumes "cardsOk cards" "\<forall>c \<in> set cards. 0 \<le> cb_h (s (fc_id c))"
  defines "s' \<equiv> sizedCards cards s"
  shows "c \<in> set cards \<Longrightarrow> 0 \<le> cb_h (s' (fc_id c))"
    and "f \<in> set cards \<Longrightarrow> holdsRows f \<Longrightarrow> cb_h (s' (fc_id f)) = frameHeight cards s' f"
    and "f \<in> set cards \<Longrightarrow> holdsRows f \<Longrightarrow> holdsKids cards f s'"
proof -
  show "c \<in> set cards \<Longrightarrow> 0 \<le> cb_h (s' (fc_id c))"
    using sized_nonneg [OF assms(2)] by (simp add: s'_def sizedCards_h)
  show "f \<in> set cards \<Longrightarrow> holdsRows f \<Longrightarrow> cb_h (s' (fc_id f)) = frameHeight cards s' f"
    using sized_heights [OF assms(1), of f s] frameHeight_cong [of cards f "fold (sizeFrame cards) (framesDeepFirst cards) s" s']
    by (simp add: s'_def sizedCards_h)
  show "f \<in> set cards \<Longrightarrow> holdsRows f \<Longrightarrow> holdsKids cards f s'"
    unfolding s'_def sizedCards_def using widened_holds [OF assms(1)] by blast
qed

section \<open>Columns\<close>

lemma placeColumn_keeps [simp]:
  "cb_w (placeColumn xOf gap y cs s i) = cb_w (s i)" "cb_h (placeColumn xOf gap y cs s i) = cb_h (s i)"
  by (induction cs arbitrary: y s) auto

lemma placeColumn_other: "i \<notin> fc_id ` set cs \<Longrightarrow> placeColumn xOf gap y cs s i = s i"
  by (induction cs arbitrary: y s) auto

definition stacked :: "focus_card list \<Rightarrow> card_store \<Rightarrow> bool" where
  "stacked cs s \<longleftrightarrow> sorted_wrt (\<lambda>c d. cb_y (s (fc_id c)) + cb_h (s (fc_id c)) \<le> cb_y (s (fc_id d))) cs"

lemma placeColumn_spec:
  fixes s :: card_store and y :: rat and xOf :: "focus_card \<Rightarrow> rat"
  assumes "distinct (map fc_id cs)" "\<forall>c \<in> set cs. 0 \<le> cb_h (s (fc_id c))" "\<forall>c \<in> set cs. 0 \<le> gap c"
  shows "stacked cs (placeColumn xOf gap y cs s) \<and> (\<forall>c \<in> set cs. cb_x (placeColumn xOf gap y cs s (fc_id c)) = xOf c
    \<and> y \<le> cb_y (placeColumn xOf gap y cs s (fc_id c))
    \<and> cb_y (placeColumn xOf gap y cs s (fc_id c)) + cb_h (s (fc_id c)) + gap c \<le> y + (\<Sum>d\<leftarrow>cs. cb_h (s (fc_id d)) + gap d))"
  using assms
proof (induction cs arbitrary: y s)
  case (Cons c cs)
  define s2 where "s2 = s(fc_id c := (s (fc_id c))\<lparr>cb_x := xOf c, cb_y := y\<rparr>)"
  define y2 where "y2 = y + cb_h (s (fc_id c)) + gap c"
  let ?s' = "placeColumn xOf gap y2 cs s2"
  have step: "placeColumn xOf gap y (c # cs) s = ?s'" by (simp add: s2_def y2_def)
  have h: "cb_h (s2 i) = cb_h (s i)" for i by (simp add: s2_def)
  have own: "?s' (fc_id c) = s2 (fc_id c)" using Cons.prems(1) by (intro placeColumn_other) simp
  have "stacked cs ?s' \<and> (\<forall>d \<in> set cs. cb_x (?s' (fc_id d)) = xOf d \<and> y2 \<le> cb_y (?s' (fc_id d))
      \<and> cb_y (?s' (fc_id d)) + cb_h (s2 (fc_id d)) + gap d \<le> y2 + (\<Sum>d\<leftarrow>cs. cb_h (s2 (fc_id d)) + gap d))"
    by (rule Cons.IH) (use Cons.prems h in simp_all)
  moreover have "0 \<le> (\<Sum>d\<leftarrow>cs. cb_h (s (fc_id d)) + gap d)" using Cons.prems by (intro sum_list_nonneg) auto
  moreover have "0 \<le> cb_h (s (fc_id c))" "0 \<le> gap c" using Cons.prems by auto
  moreover have "cb_x (s2 (fc_id c)) = xOf c" "cb_y (s2 (fc_id c)) = y" by (simp_all add: s2_def)
  ultimately show ?case unfolding step using own h by (force simp: stacked_def y2_def)
qed (simp add: stacked_def)

section \<open>Bands\<close>

lemma bandX_step: "bandX cards s (b + 1) = bandX cards s b + widthOfBand cards s b + BAND_GAP"
proof (cases "0 \<le> b")
  case True
  then have "nat (b + 1) = Suc (nat b)" "int (nat b) = b" by simp_all
  then show ?thesis using True by (simp add: bandX_def)
next
  case False
  then obtain n where n: "b = - int (Suc n)" by (metis int_cases linorder_not_le of_nat_0_le_iff)
  then have "nat (- b) = Suc n" "nat (- (b + 1)) = n" "- int (Suc n) = b" by simp_all
  moreover have "bandX cards s (b + 1) = bandDown cards s (nat (- (b + 1)))"
    using n by (cases n) (simp_all add: bandX_def)
  moreover have "bandX cards s b = bandDown cards s (nat (- b))" using False by (simp add: bandX_def)
  ultimately show ?thesis by simp
qed

lemma band_width:
  "CARD_W \<le> widthOfBand cards s b"
  "c \<in> set (bandCards cards b) \<Longrightarrow> (if b = 0 \<and> fc_kind c \<noteq> Focal then indentOf c else 0) + cb_w (s (fc_id c)) \<le> widthOfBand cards s b"
  unfolding widthOfBand_def
  using fold_max_start [of CARD_W "\<lambda>c. (if b = 0 \<and> fc_kind c \<noteq> Focal then indentOf c else 0) + cb_w (s (fc_id c))" "bandCards cards b"]
    fold_max_ge [of c "bandCards cards b" "\<lambda>c. (if b = 0 \<and> fc_kind c \<noteq> Focal then indentOf c else 0) + cb_w (s (fc_id c))" CARD_W]
  by simp_all

lemma bands_apart:
  assumes "m < n"
  shows "bandX cards s m + widthOfBand cards s m + BAND_GAP \<le> bandX cards s n"
proof -
  obtain k where n: "n = m + 1 + int k" using assms by (metis zless_iff_Suc_zadd of_nat_Suc add.assoc add.commute)
  have "bandX cards s (m + 1) \<le> bandX cards s (m + 1 + int k)" for k
  proof (induction k)
    case (Suc k)
    have "0 \<le> widthOfBand cards s (m + 1 + int k) + BAND_GAP"
      using band_width(1) [of cards s "m + 1 + int k"] by (simp add: card_constants)
    then show ?case using Suc bandX_step [of cards s "m + 1 + int k"] by (simp add: algebra_simps)
  qed simp
  then show ?thesis unfolding n using bandX_step [of cards s m] by simp
qed

definition bandPlaced :: "focus_card list \<Rightarrow> (int \<Rightarrow> rat) \<Rightarrow> int \<Rightarrow> card_store \<Rightarrow> bool" where
  "bandPlaced cards xs b s \<longleftrightarrow> stacked (bandCards cards b) s
     \<and> (\<forall>c \<in> set (bandCards cards b). cb_x (s (fc_id c)) = xs b + (if b = 0 \<and> fc_kind c \<noteq> Focal then indentOf c else 0))"

lemma bandCards_iff: "c \<in> set (bandCards cards b) \<longleftrightarrow> c \<in> set cards \<and> \<not> truthyStr (fc_frameId c) \<and> fc_band c = b"
  by (auto simp: bandCards_def)

lemma placeBand_keeps [simp]:
  "cb_w (placeBand cards xs b s i) = cb_w (s i)" "cb_h (placeBand cards xs b s i) = cb_h (s i)"
  by (simp_all add: placeBand_def Let_def)

lemma placeBand_other: "i \<notin> fc_id ` set (bandCards cards b) \<Longrightarrow> placeBand cards xs b s i = s i"
  unfolding placeBand_def Let_def
  by (cases "b = 0") (simp_all only: if_True if_False placeColumn_other simp_thms not_False_eq_True)

lemma placeBand_placed:
  fixes s :: card_store
  assumes ok: "cardsOk cards" and h: "\<forall>c \<in> set cards. 0 \<le> cb_h (s (fc_id c))"
  shows "bandPlaced cards xs b (placeBand cards xs b s)"
proof -
  have d: "distinct (map fc_id (bandCards cards b))" using ok by (simp add: bandCards_def cardsOk_def distinct_map_filter)
  have h': "\<forall>c \<in> set (bandCards cards b). 0 \<le> cb_h (s (fc_id c))" using h by (simp add: bandCards_iff)
  let ?focal = "find (\<lambda>c. fc_kind c = Focal) (bandCards cards b)"
  have focal: "map_option fc_id ?focal = Some (fc_id c) \<longleftrightarrow> fc_kind c = Focal" if c: "c \<in> set (bandCards cards b)" for c
  proof (cases ?focal)
    case None
    then have "\<forall>x \<in> set (bandCards cards b). fc_kind x \<noteq> Focal" by (auto simp: find_None_iff)
    then show ?thesis using c None by simp
  next
    case (Some f)
    then have "f \<in> set cards" "fc_kind f = Focal" using find_in_set [OF Some] by (auto simp: bandCards_iff)
    then show ?thesis using Some c ok cards_same_id [OF ok, of f c] by (auto simp: bandCards_iff cardsOk_def)
  qed
  have gaps: "0 \<le> CONTAINS_STACK_GAP" "0 \<le> CARD_GAP" by (simp_all add: card_constants)
  show ?thesis
  proof (cases "b = 0")
    case True
    let ?gap = "\<lambda>c. if map_option fc_id ?focal = Some (fc_id c) then CONTAINS_STACK_GAP else CARD_GAP"
    show ?thesis
      using placeColumn_spec [OF d h', of ?gap "\<lambda>c. if map_option fc_id ?focal = Some (fc_id c) then xs b else xs b + indentOf c"
          "- (case ?focal of None \<Rightarrow> FOCAL_H | Some f \<Rightarrow> cb_h (s (fc_id f))) / 2"] True focal gaps
      unfolding bandPlaced_def placeBand_def Let_def by auto
  next
    case False
    show ?thesis
      using placeColumn_spec [OF d h', of "\<lambda>c. CARD_GAP" "\<lambda>c. xs b"
          "- ((\<Sum>c\<leftarrow>bandCards cards b. cb_h (s (fc_id c))) + CARD_GAP * max 0 (of_nat (length (bandCards cards b)) - 1)) / 2"] False gaps
      unfolding bandPlaced_def placeBand_def Let_def by auto
  qed
qed

lemma bandPlaced_cong:
  "(\<And>c. c \<in> set (bandCards cards b) \<Longrightarrow> s (fc_id c) = s' (fc_id c)) \<Longrightarrow> bandPlaced cards xs b s \<longleftrightarrow> bandPlaced cards xs b s'"
  unfolding bandPlaced_def stacked_def by (auto simp: sorted_wrt_iff_nth_less)

lemma bands_placed:
  fixes s :: card_store
  assumes ok: "cardsOk cards" and h: "\<forall>c \<in> set cards. 0 \<le> cb_h (s (fc_id c))" and b: "b \<in> set (bandsPresent cards)"
  shows "bandPlaced cards xs b (fold (placeBand cards xs) (bandsPresent cards) s)"
proof -
  obtain as bs where split: "bandsPresent cards = as @ b # bs" using b by (meson split_list)
  have "distinct (bandsPresent cards)" by (simp add: bandsPresent_def)
  then have other: "b' \<noteq> b" if "b' \<in> set bs" for b' using split that by auto
  show ?thesis
  proof (rule settled_in_fold [OF split, where I = "\<lambda>s. \<forall>c \<in> set cards. 0 \<le> cb_h (s (fc_id c))" and good = "bandPlaced cards xs b"])
    fix b' and s :: card_store
    assume "b' \<in> set bs" "bandPlaced cards xs b s"
    then show "bandPlaced cards xs b (placeBand cards xs b' s)"
      using other [of b'] bandPlaced_cong [of cards b "placeBand cards xs b' s" s xs] cards_same_id [OF ok]
      by (subst bandPlaced_cong [of cards b _ s]) (auto intro!: placeBand_other simp: bandCards_iff)
  qed (use h placeBand_placed [OF ok] in auto)
qed

section \<open>Rows in their frames\<close>

definition kidsPlaced :: "focus_card list \<Rightarrow> focus_card \<Rightarrow> card_store \<Rightarrow> bool" where
  "kidsPlaced cards f s \<longleftrightarrow> stacked (kidsOf cards f) s
     \<and> (\<forall>k \<in> set (kidsOf cards f). cb_x (s (fc_id k)) = cb_x (s (fc_id f)) + FRAME_PAD + gutterOf f
          \<and> cb_y (s (fc_id f)) + headerHeight f \<le> cb_y (s (fc_id k))
          \<and> cb_y (s (fc_id k)) + cb_h (s (fc_id k)) \<le> cb_y (s (fc_id f)) + frameHeight cards s f)"

lemma placeKids_keeps [simp]:
  "cb_w (placeKids cards f s i) = cb_w (s i)" "cb_h (placeKids cards f s i) = cb_h (s i)"
  by (simp_all add: placeKids_def)

lemma placeKids_other: "i \<notin> fc_id ` set (kidsOf cards f) \<Longrightarrow> placeKids cards f s i = s i"
  by (simp add: placeKids_def placeColumn_other)

lemma placeKids_placed:
  fixes s :: card_store
  assumes ok: "cardsOk cards" and f: "f \<in> set cards" "holdsRows f" and h: "\<forall>c \<in> set cards. 0 \<le> cb_h (s (fc_id c))"
  shows "kidsPlaced cards f (placeKids cards f s)"
proof -
  let ?kids = "kidsOf cards f" and ?s = "placeKids cards f s"
  let ?sum = "\<Sum>k\<leftarrow>?kids. cb_h (s (fc_id k))"
  have own: "?s (fc_id f) = s (fc_id f)"
  proof (rule placeKids_other)
    show "fc_id f \<notin> fc_id ` set ?kids" using kid_is_other [OF ok f _ f(1)] by (auto simp: image_iff) metis
  qed
  have gap: "0 \<le> CARD_GAP" by (simp add: card_constants)
  have h': "\<forall>k \<in> set ?kids. 0 \<le> cb_h (s (fc_id k))" using h by (simp add: kidsOf_iff)
  note col = placeColumn_spec [OF kids_distinct [OF ok] h', of "\<lambda>k. CARD_GAP" "\<lambda>k. cb_x (s (fc_id f)) + FRAME_PAD + gutterOf f"
      "cb_y (s (fc_id f)) + headerHeight f", folded placeKids_def]
  have sum: "(\<Sum>k\<leftarrow>?kids. cb_h (s (fc_id k)) + CARD_GAP) = ?sum + CARD_GAP * of_nat (length ?kids)"
    by (simp add: sum_list_addf sum_list_triv algebra_simps)
  have fh: "frameHeight cards ?s f = frameHeight cards s f" by (rule frameHeight_cong) simp
  have room: "headerHeight f + ?sum + CARD_GAP * (of_nat (length ?kids) - 1) \<le> frameHeight cards s f" if "k \<in> set ?kids" for k
    using frameHeight_ge(2) [of cards f s] h' that by (cases ?kids) auto
  have "cb_y (?s (fc_id k)) + cb_h (?s (fc_id k)) \<le> cb_y (s (fc_id f)) + frameHeight cards s f" if k: "k \<in> set ?kids" for k
  proof -
    have "cb_y (?s (fc_id k)) + cb_h (s (fc_id k)) + CARD_GAP
        \<le> cb_y (s (fc_id f)) + headerHeight f + (?sum + CARD_GAP * of_nat (length ?kids))"
      using col gap k unfolding sum by blast
    then show ?thesis using room [OF k] by (simp add: algebra_simps)
  qed
  then show ?thesis using col gap unfolding kidsPlaced_def own fh by auto
qed

lemma kidsPlaced_cong:
  assumes "s (fc_id f) = s' (fc_id f)" "\<And>k. k \<in> set (kidsOf cards f) \<Longrightarrow> s (fc_id k) = s' (fc_id k)"
  shows "kidsPlaced cards f s \<longleftrightarrow> kidsPlaced cards f s'"
proof -
  have "frameHeight cards s f = frameHeight cards s' f" using assms(2) by (intro frameHeight_cong) simp
  moreover have "stacked (kidsOf cards f) s \<longleftrightarrow> stacked (kidsOf cards f) s'"
    using assms(2) unfolding stacked_def by (auto simp: sorted_wrt_iff_nth_less)
  ultimately show ?thesis using assms unfolding kidsPlaced_def by simp
qed

lemma all_kids_placed:
  fixes s :: card_store
  assumes ok: "cardsOk cards" and f: "f \<in> set cards" "holdsRows f" and h: "\<forall>c \<in> set cards. 0 \<le> cb_h (s (fc_id c))"
  shows "kidsPlaced cards f (fold (placeKids cards) (rev (framesDeepFirst cards)) s)"
proof -
  have "f \<in> set (framesDeepFirst cards)" using frames_set [OF ok] f by simp
  then obtain as bs where split: "framesDeepFirst cards = as @ f # bs" by (meson split_list)
  then have rsplit: "rev (framesDeepFirst cards) = rev bs @ f # rev as" by simp
  show ?thesis
  proof (rule settled_in_fold [OF rsplit, where I = "\<lambda>s. \<forall>c \<in> set cards. 0 \<le> cb_h (s (fc_id c))" and good = "kidsPlaced cards f"])
    fix a and s :: card_store
    assume a: "a \<in> set (rev as)" and good: "kidsPlaced cards f s"
    have ac: "a \<in> set cards" "holdsRows a" "a \<noteq> f" "frameNesting cards f \<le> frameNesting cards a"
      using frames_set [OF ok] frames_distinct [OF ok] frames_split(2) [OF split] split a by auto
    have "fc_id f \<notin> fc_id ` set (kidsOf cards a)"
      using kid_is_other [OF ok ac(1,2) _ f(1) ac(4)] by (auto simp: image_iff) metis
    moreover have "fc_id k \<notin> fc_id ` set (kidsOf cards a)" if "k \<in> set (kidsOf cards f)" for k
      using kids_of_others [OF ok f(1) ac(1) ac(3) [symmetric] that] by (auto simp: image_iff)
    ultimately show "kidsPlaced cards f (placeKids cards a s)"
      using good by (subst kidsPlaced_cong [of _ f s]) (simp_all add: placeKids_other)
  qed (use h placeKids_placed [OF ok f] in auto)
qed

section \<open>The board\<close>

definition hosts :: "focus_card list \<Rightarrow> (focus_card \<times> focus_card) set" where
  "hosts cards = {(k, f). f \<in> set cards \<and> holdsRows f \<and> k \<in> set (kidsOf cards f)}"

definition boxInside :: "card_store \<Rightarrow> focus_card \<Rightarrow> focus_card \<Rightarrow> bool" where
  "boxInside s c f \<longleftrightarrow>
     (let a = s (fc_id c); b = s (fc_id f)
      in cb_x b \<le> cb_x a \<and> cb_x a + cb_w a \<le> cb_x b + cb_w b \<and> cb_y b \<le> cb_y a \<and> cb_y a + cb_h a \<le> cb_y b + cb_h b)"

definition boxApart :: "card_store \<Rightarrow> focus_card \<Rightarrow> focus_card \<Rightarrow> bool" where
  "boxApart s c d \<longleftrightarrow>
     (let a = s (fc_id c); b = s (fc_id d)
      in cb_x a + cb_w a \<le> cb_x b \<or> cb_x b + cb_w b \<le> cb_x a \<or> cb_y a + cb_h a \<le> cb_y b \<or> cb_y b + cb_h b \<le> cb_y a)"

lemma boxApart_sym: "boxApart s c d \<longleftrightarrow> boxApart s d c"
  by (auto simp: boxApart_def Let_def)

lemma boxApart_inside: "boxApart s c d \<Longrightarrow> boxInside s c' c \<Longrightarrow> boxApart s c' d"
  by (auto simp: boxApart_def boxInside_def Let_def)

lemma stacked_apart:
  assumes "stacked cs s" "c \<in> set cs" "d \<in> set cs" "c \<noteq> d"
  shows "boxApart s c d"
proof -
  obtain i j where "i < length cs" "j < length cs" "cs ! i = c" "cs ! j = d" "i \<noteq> j"
    using assms(2-4) by (metis in_set_conv_nth)
  then show ?thesis using assms(1) unfolding stacked_def sorted_wrt_iff_nth_less boxApart_def Let_def
    by (metis linorder_neqE_nat)
qed

text \<open>The board as it is laid out: its sizes are those of the sizing, its bands and its rows are placed.\<close>

definition board :: "focus_card list \<Rightarrow> card_store \<Rightarrow> card_store" where
  "board cards s = fst (layoutBands cards s)"

lemma placeKids_all_keep:
  "cb_w (fold (placeKids cards) fs s i) = cb_w (s i)" "cb_h (fold (placeKids cards) fs s i) = cb_h (s i)"
  by (induction fs arbitrary: s) auto

lemma placeBands_all_keep:
  "cb_w (fold (placeBand cards xs) bs s i) = cb_w (s i)" "cb_h (fold (placeBand cards xs) bs s i) = cb_h (s i)"
  by (induction bs arbitrary: s) auto

lemma placeKids_all_other: "\<forall>f. i \<notin> fc_id ` set (kidsOf cards f) \<Longrightarrow> fold (placeKids cards) fs s i = s i"
  by (induction fs arbitrary: s) (auto simp: placeKids_other)

lemma board_sizes:
  "cb_w (board cards s i) = cb_w (sizedCards cards s i)" "cb_h (board cards s i) = cb_h (sizedCards cards s i)"
  by (simp_all add: board_def layoutBands_def Let_def placeKids_all_keep placeBands_all_keep)

lemma board_kids:
  assumes "cardsOk cards" "\<forall>c \<in> set cards. 0 \<le> cb_h (s (fc_id c))" "f \<in> set cards" "holdsRows f"
  shows "kidsPlaced cards f (board cards s)"
  unfolding board_def layoutBands_def Let_def fst_conv
  by (rule all_kids_placed [OF assms(1,3,4)]) (simp add: placeBands_all_keep sizedCards_ok(1) [OF assms(1,2)])

lemma board_bands:
  assumes ok: "cardsOk cards" and h: "\<forall>c \<in> set cards. 0 \<le> cb_h (s (fc_id c))" and c: "c \<in> set (bandCards cards b)"
  shows "bandPlaced cards (bandX cards (sizedCards cards s)) b (board cards s)"
proof -
  let ?xs = "bandX cards (sizedCards cards s)"
  let ?banded = "fold (placeBand cards ?xs) (bandsPresent cards) (sizedCards cards s)"
  have "b \<in> set (bandsPresent cards)" using c by (auto simp: bandsPresent_def bandCards_iff)
  then have "bandPlaced cards ?xs b ?banded"
    using sizedCards_ok(1) [OF ok h] by (intro bands_placed [OF ok]) auto
  moreover have "board cards s (fc_id d) = ?banded (fc_id d)" if "d \<in> set (bandCards cards b)" for d
  proof -
    have "fc_id d \<notin> fc_id ` set (kidsOf cards f)" for f
    proof
      assume "fc_id d \<in> fc_id ` set (kidsOf cards f)"
      then obtain k where "k \<in> set (kidsOf cards f)" "fc_id d = fc_id k" by blast
      then show False using that cards_same_id [OF ok, of d k] by (auto simp: bandCards_iff kidsOf_iff)
    qed
    then show ?thesis unfolding board_def layoutBands_def Let_def fst_conv by (intro placeKids_all_other) simp
  qed
  ultimately show ?thesis using bandPlaced_cong by blast
qed

lemma gutter_nonneg: "0 \<le> gutterOf f"
  by (simp add: gutterOf_def gutterWidth_def MAX_LANES_def LANE_W_def LANE_GAP_def)

lemma row_inside:
  assumes ok: "cardsOk cards" and h: "\<forall>c \<in> set cards. 0 \<le> cb_h (s (fc_id c))" and kf: "(k, f) \<in> hosts cards"
  shows "boxInside (board cards s) k f"
proof -
  have f: "f \<in> set cards" "holdsRows f" and k: "k \<in> set (kidsOf cards f)" using kf by (auto simp: hosts_def)
  let ?s = "sizedCards cards s" and ?b = "board cards s"
  have "frameHeight cards ?b f = frameHeight cards ?s f" by (rule frameHeight_cong) (simp add: board_sizes)
  then have height: "cb_h (?b (fc_id f)) = frameHeight cards ?b f" using sizedCards_ok(2) [OF ok h f] by (simp add: board_sizes)
  have "holdsKids cards f ?b" using sizedCards_ok(3) [OF ok h f] by (simp add: holdsKids_def board_sizes)
  then have width: "cb_w (?b (fc_id k)) + FRAME_PAD * 2 + gutterOf f \<le> cb_w (?b (fc_id f))" using k by (simp add: holdsKids_def)
  show ?thesis
    using board_kids [OF ok h f] k height width header_nonneg [of f] gutter_nonneg [of f]
    unfolding kidsPlaced_def boxInside_def Let_def by (force simp: FRAME_PAD_def)
qed

lemma top_level_apart:
  assumes ok: "cardsOk cards" and h: "\<forall>c \<in> set cards. 0 \<le> cb_h (s (fc_id c))"
    and c: "c \<in> set (bandCards cards m)" and d: "d \<in> set (bandCards cards n)" and ne: "c \<noteq> d"
  shows "boxApart (board cards s) c d"
proof -
  let ?s = "sizedCards cards s" and ?b = "board cards s"
  have left: "cb_x (?b (fc_id d)) + cb_w (?b (fc_id d)) \<le> bandX cards ?s b + widthOfBand cards ?s b \<and> bandX cards ?s b \<le> cb_x (?b (fc_id d))"
    if "d \<in> set (bandCards cards b)" for b d
  proof -
    have "0 \<le> indentOf d" by (simp add: indentOf_def card_constants)
    then show ?thesis
      using board_bands [OF ok h that] that band_width(2) [OF that, of ?s] by (auto simp: bandPlaced_def board_sizes)
  qed
  consider "m = n" | "m < n" | "n < m" by linarith
  then show ?thesis
  proof cases
    case 1
    then show ?thesis using stacked_apart [OF _ c _ ne] board_bands [OF ok h c] d by (simp add: bandPlaced_def)
  next
    case 2
    then show ?thesis using bands_apart [OF 2, of cards ?s] left [OF c] left [OF d]
      unfolding boxApart_def Let_def by (simp add: BAND_GAP_def)
  next
    case 3
    then show ?thesis using bands_apart [OF 3, of cards ?s] left [OF c] left [OF d]
      unfolding boxApart_def Let_def by (simp add: BAND_GAP_def)
  qed
qed

lemma hosts_depth:
  assumes ok: "cardsOk cards" and kf: "(k, f) \<in> (hosts cards)\<^sup>+"
  shows "frameNesting cards f < frameNesting cards k"
proof -
  have step: "frameNesting cards f < frameNesting cards k" if "(k, f) \<in> hosts cards" for k f
    using that kid_depth [OF ok, of f k] by (auto simp: hosts_def)
  show ?thesis using kf by (induction rule: trancl.induct) (auto dest: step intro: order.strict_trans)
qed

lemma host_exists: "cardsOk cards \<Longrightarrow> c \<in> set cards \<Longrightarrow> truthyStr (fc_frameId c) \<Longrightarrow> \<exists>f. (c, f) \<in> hosts cards"
  unfolding cardsOk_def hosts_def kidsOf_iff by blast

lemma apart_or_nested:
  assumes ok: "cardsOk cards" and h: "\<forall>c \<in> set cards. 0 \<le> cb_h (s (fc_id c))"
  shows "c \<in> set cards \<Longrightarrow> d \<in> set cards \<Longrightarrow> c \<noteq> d \<Longrightarrow> (c, d) \<notin> (hosts cards)\<^sup>+ \<Longrightarrow> (d, c) \<notin> (hosts cards)\<^sup>+
    \<Longrightarrow> boxApart (board cards s) c d"
proof (induction "frameNesting cards c + frameNesting cards d" arbitrary: c d rule: less_induct)
  case (less c d)
  have deeper: "boxApart (board cards s) c d"
    if cd: "c \<in> set cards" "d \<in> set cards" "c \<noteq> d" "(c, d) \<notin> (hosts cards)\<^sup>+" "(d, c) \<notin> (hosts cards)\<^sup>+"
      "frameNesting cards d \<le> frameNesting cards c" "frameNesting cards c + frameNesting cards d = n"
      and IH: "\<And>c' d'. frameNesting cards c' + frameNesting cards d' < n \<Longrightarrow> c' \<in> set cards \<Longrightarrow> d' \<in> set cards \<Longrightarrow> c' \<noteq> d'
        \<Longrightarrow> (c', d') \<notin> (hosts cards)\<^sup>+ \<Longrightarrow> (d', c') \<notin> (hosts cards)\<^sup>+ \<Longrightarrow> boxApart (board cards s) c' d'" for c d n
  proof (cases "truthyStr (fc_frameId c)")
    case False
    have "\<not> truthyStr (fc_frameId d)"
    proof
      assume "truthyStr (fc_frameId d)"
      then obtain g where "(d, g) \<in> hosts cards" using host_exists [OF ok cd(2)] by blast
      then have "frameNesting cards g < frameNesting cards d" using hosts_depth [OF ok] by blast
      moreover have "frameNesting cards c = 0" using False by (simp add: frameNesting_def numeral_eq_Suc)
      ultimately show False using cd(6) by simp
    qed
    then show ?thesis using False cd top_level_apart [OF ok h, of c "fc_band c" d "fc_band d"] by (simp add: bandCards_iff)
  next
    case True
    then obtain p where p: "(c, p) \<in> hosts cards" using host_exists [OF ok cd(1)] by blast
    then have pc: "p \<in> set cards" "holdsRows p" "c \<in> set (kidsOf cards p)" "frameNesting cards c = Suc (frameNesting cards p)"
      using kid_depth [OF ok, of p c] by (auto simp: hosts_def)
    have "p \<noteq> d" "(p, d) \<notin> (hosts cards)\<^sup>+" using p cd(4) by (auto intro: trancl_into_trancl2)
    show ?thesis
    proof (cases "(d, p) \<in> (hosts cards)\<^sup>+")
      case True
      then obtain q where q: "(d, q) \<in> hosts cards" "q = p \<or> (q, p) \<in> (hosts cards)\<^sup>+" by (metis converse_tranclE)
      then have "frameNesting cards d = Suc (frameNesting cards q)" using kid_depth [OF ok, of q d] by (auto simp: hosts_def)
      then have "\<not> frameNesting cards p < frameNesting cards q" using cd(6) pc(4) by simp
      then have "q = p" using q(2) hosts_depth [OF ok] by blast
      then have "d \<in> set (kidsOf cards p)" using q(1) by (auto simp: hosts_def)
      then show ?thesis using board_kids [OF ok h pc(1,2)] stacked_apart [OF _ pc(3) _ cd(3)] by (simp add: kidsPlaced_def)
    next
      case False
      have "boxApart (board cards s) p d"
        using IH [of p d] pc cd \<open>p \<noteq> d\<close> \<open>(p, d) \<notin> (hosts cards)\<^sup>+\<close> False by simp
      then show ?thesis using row_inside [OF ok h p] boxApart_inside by blast
    qed
  qed
  show ?case
  proof (cases "frameNesting cards d \<le> frameNesting cards c")
    case True
    then show ?thesis using deeper [OF less.prems] less.hyps by blast
  next
    case False
    then have "boxApart (board cards s) d c"
      using deeper [of d c "frameNesting cards c + frameNesting cards d"] less.prems less.hyps by auto
    then show ?thesis using boxApart_sym by blast
  qed
qed

text \<open>C4. The board is readable: a card is drawn inside the frame that holds it, and two cards of which
  neither is inside the other never overlap, whatever is open and however wide or tall the frames
  have grown.\<close>

theorem cards_never_overlap:
  assumes "cardsOk cards" "\<forall>c \<in> set cards. 0 \<le> cb_h (s (fc_id c))"
  defines "s' \<equiv> fst (layoutBands cards s)"
  shows "(\<forall>(k, f) \<in> hosts cards. boxInside s' k f)
    \<and> (\<forall>c \<in> set cards. \<forall>d \<in> set cards. c \<noteq> d \<longrightarrow> (c, d) \<notin> (hosts cards)\<^sup>+ \<longrightarrow> (d, c) \<notin> (hosts cards)\<^sup>+ \<longrightarrow> boxApart s' c d)"
  using row_inside [OF assms(1,2)] apart_or_nested [OF assms(1,2)] unfolding s'_def board_def by blast

section \<open>An example\<close>

text \<open>The focus, a table opened beside it with two of its columns, one of them opened too.\<close>

definition plain_card :: "string \<Rightarrow> card_kind \<Rightarrow> int \<Rightarrow> string option \<Rightarrow> focus_card" where
  "plain_card i kind band host =
     \<lparr>fc_id = i, fc_kind = kind, fc_band = band, fc_label = i, fc_frameId = host, fc_depth = 0, fc_nameLines = 1, fc_gutterLanes = 0,
      fc_childrenOpen = True, fc_frameShowingAll = False, fc_frameLoaded = 2, fc_frameTotal = -1, fc_frameHasMore = False,
      fc_frameOffset = 0, fc_frameWindowSize = 8\<rparr>"

definition card_example :: "focus_card list" where
  "card_example =
     [plain_card ''f'' Focal 0 None, plain_card ''t'' Frame 1 None, plain_card ''c1'' Frame 1 (Some ''t''),
      plain_card ''c2'' Entity 1 (Some ''t''), plain_card ''leaf'' Entity 1 (Some ''c1''), plain_card ''u'' Entity 1 None]"

definition box_example :: card_store where
  "box_example = (\<lambda>_. \<lparr>cb_x = 0, cb_y = 0, cb_w = 240, cb_h = 64\<rparr>)"

lemma card_example_ok: "cardsOk card_example"
proof -
  have "\<forall>f \<in> set card_example. holdsRows f \<longrightarrow> frameNesting card_example f < 32" by code_simp
  then show ?thesis by (simp add: cardsOk_def) (simp add: card_example_def plain_card_def holdsRows_def)
qed

lemma cards_never_overlap_witness:
  "boxInside (fst (layoutBands card_example box_example)) (card_example ! 4) (card_example ! 2)
   \<and> boxApart (fst (layoutBands card_example box_example)) (card_example ! 0) (card_example ! 5)"
proof -
  have "\<forall>c \<in> set card_example. 0 \<le> cb_h (box_example (fc_id c))" by (simp add: box_example_def)
  note board = cards_never_overlap [OF card_example_ok this]
  have "(card_example ! 4, card_example ! 2) \<in> hosts card_example"
    by (simp add: hosts_def kidsOf_def holdsRows_def) (simp add: card_example_def plain_card_def)
  moreover have "(card_example ! 0, f) \<notin> hosts card_example" "(card_example ! 5, f) \<notin> hosts card_example" for f
    by (simp_all add: hosts_def kidsOf_def) (simp_all add: card_example_def plain_card_def)
  then have "(card_example ! 0, f) \<notin> (hosts card_example)\<^sup>+" "(card_example ! 5, f) \<notin> (hosts card_example)\<^sup>+" for f
    by (auto dest: tranclD)
  moreover have "card_example ! 0 \<noteq> card_example ! 5" "card_example ! 0 \<in> set card_example" "card_example ! 5 \<in> set card_example"
    by (simp_all add: card_example_def plain_card_def)
  ultimately show ?thesis using board by blast
qed

end
