(* ===== verification/Lens_Condensation.thy ===== *)
theory Lens_Condensation
  imports Card_Layout
begin

text \<open>
  The passes over a finished lens board: \<open>condensation.ts\<close>, \<open>invariants.ts\<close>, \<open>query-dimming.ts\<close> and
  \<open>wire-bundles.ts\<close> of \<open>src/frontend/src/components/canvas/context-view/lens\<close>, whole. Condensation
  replaces a run of cards that are only passed through by one connector; the invariant stage checks what it
  gives; dimming marks what a filter misses; a bundle's members are revealed for what the reader is on.
  Of a wire, what only its drawing reads is left out. The maps the code fills in one loop over the
  edges (\<open>outEdge\<close>, \<open>inCount\<close> and the like) are the functions of the edge list they come to. The
  console message of a violation is not modelled, the violation is.
\<close>

section \<open>Data\<close>

datatype run_dir = RunIn | RunOut

record condense_info =
  ci_connectorId :: string
  ci_dir :: run_dir
  ci_steps :: nat

record lens_card = focus_card +
  lc_dimmed :: bool
  lc_condenseRun :: "condense_info option"

record lens_wire =
  wr_id :: string
  wr_source :: string
  wr_target :: string
  wr_count :: int
  wr_edgeTypeNorm :: string
  wr_dimmed :: bool
  wr_inBundle :: "string option"
  wr_condensed :: "(string \<times> nat) option"

record lens_graph =
  lg_cards :: "lens_card list"
  lg_edges :: "lens_wire list"
  lg_bundledWires :: "lens_wire list"
  lg_focusRecovered :: bool

section \<open>Condensation\<close>

definition MIN_CONDENSE_RUN :: nat where "MIN_CONDENSE_RUN = 2"

definition connectorId :: "string \<Rightarrow> string \<Rightarrow> string" where
  "connectorId a b = ''condense:'' @ a @ ''>'' @ b"

definition eligible :: "lens_card \<Rightarrow> bool" where
  "eligible c = (fc_kind c = Entity \<and> \<not> holdsRows c \<and> fc_frameId c = None)"

definition cardById :: "lens_graph \<Rightarrow> string \<Rightarrow> lens_card option" where
  "cardById g i = find (\<lambda>c. fc_id c = i) (rev (lg_cards g))"

definition outEdge :: "lens_graph \<Rightarrow> string \<Rightarrow> lens_wire option" where
  "outEdge g i = find (\<lambda>e. wr_source e = i) (rev (lg_edges g))"

definition inEdge :: "lens_graph \<Rightarrow> string \<Rightarrow> lens_wire option" where
  "inEdge g i = find (\<lambda>e. wr_target e = i) (rev (lg_edges g))"

definition outCount :: "lens_graph \<Rightarrow> string \<Rightarrow> nat" where
  "outCount g i = length (filter (\<lambda>e. wr_source e = i) (lg_edges g))"

definition inCount :: "lens_graph \<Rightarrow> string \<Rightarrow> nat" where
  "inCount g i = length (filter (\<lambda>e. wr_target e = i) (lg_edges g))"

definition isPassThrough :: "lens_graph \<Rightarrow> string \<Rightarrow> bool" where
  "isPassThrough g i =
     (case cardById g i of None \<Rightarrow> False | Some c \<Rightarrow> eligible c \<and> outCount g i = 1 \<and> inCount g i = 1)"

record condense_run =
  ru_boundaryA :: string
  ru_interior :: "string list"
  ru_boundaryB :: string
  ru_edges :: "lens_wire list"

lemma passThrough_card: "isPassThrough g i \<Longrightarrow> i \<in> fc_id ` set (lg_cards g)"
  by (auto simp: isPassThrough_def cardById_def split: option.splits dest!: find_in_set)

text \<open>The loop that follows a run from a card: what is consumed, the interior, the edges, the cursor.\<close>

function walkRun :: "lens_graph \<Rightarrow> string list \<Rightarrow> string list \<Rightarrow> lens_wire list \<Rightarrow> string
    \<Rightarrow> string list \<times> string list \<times> lens_wire list \<times> string" where
  "walkRun g consumed interior edges cursor =
     (if isPassThrough g cursor \<and> cursor \<notin> set consumed
      then let next = the (outEdge g cursor)
           in walkRun g (cursor # consumed) (interior @ [cursor]) (edges @ [next]) (wr_target next)
      else (consumed, interior, edges, cursor))"
  by auto
termination
proof (relation "measure (\<lambda>(g, consumed, interior, edges, cursor). card (fc_id ` set (lg_cards g) - set consumed))", goal_cases)
  case (2 g consumed interior edges cursor x)
  then have "fc_id ` set (lg_cards g) - set (cursor # consumed) \<subset> fc_id ` set (lg_cards g) - set consumed"
    using passThrough_card [of g cursor] by auto
  then show ?case by (simp add: psubset_card_mono)
qed auto

declare walkRun.simps [simp del]

definition runAt :: "lens_graph \<Rightarrow> lens_card \<Rightarrow> string list \<times> condense_run list \<Rightarrow> string list \<times> condense_run list" where
  "runAt g c acc =
     (let (consumed, runs) = acc; head = wr_source (the (inEdge g (fc_id c)))
      in if \<not> isPassThrough g (fc_id c) \<or> fc_id c \<in> set consumed then acc
         else if isPassThrough g head \<and> head \<notin> set consumed then acc
         else let (consumed', interior, edges, cursor) = walkRun g consumed [] [the (inEdge g (fc_id c))] (fc_id c)
              in (consumed', runs @ [\<lparr>ru_boundaryA = head, ru_interior = interior, ru_boundaryB = cursor, ru_edges = edges\<rparr>]))"

definition allRuns :: "lens_graph \<Rightarrow> condense_run list" where
  "allRuns g = snd (fold (runAt g) (lg_cards g) ([], []))"

definition foldable :: "lens_graph \<Rightarrow> condense_run list" where
  "foldable g = filter (\<lambda>r. MIN_CONDENSE_RUN \<le> length (ru_interior r)) (allRuns g)"

definition runConnector :: "condense_run \<Rightarrow> string" where
  "runConnector r = connectorId (ru_boundaryA r) (ru_boundaryB r)"

definition runDir :: "lens_graph \<Rightarrow> condense_run \<Rightarrow> run_dir" where
  "runDir g r =
     (case cardById g (ru_boundaryA r) of
        None \<Rightarrow> RunIn
      | Some a \<Rightarrow> if fc_band a \<le> (case cardById g (ru_boundaryB r) of None \<Rightarrow> 0 | Some b \<Rightarrow> fc_band b) then RunOut else RunIn)"

text \<open>The count of a connector is the sum over its run; its type the one they share.\<close>

definition sharedType :: "lens_wire list \<Rightarrow> string" where
  "sharedType es =
     (case es of [] \<Rightarrow> []
      | e # _ \<Rightarrow> fold (\<lambda>e ty. if wr_edgeTypeNorm e \<noteq> ty then [] else ty) es (wr_edgeTypeNorm e))"

definition connectorWire :: "condense_run \<Rightarrow> lens_wire" where
  "connectorWire r =
     \<lparr>wr_id = runConnector r @ '':edge'', wr_source = ru_boundaryA r, wr_target = ru_boundaryB r,
      wr_count = (\<Sum>e\<leftarrow>ru_edges r. wr_count e), wr_edgeTypeNorm = sharedType (ru_edges r), wr_dimmed = False,
      wr_inBundle = None, wr_condensed = Some (runConnector r, length (ru_interior r))\<rparr>"

definition condensedRuns :: "lens_graph \<Rightarrow> string list \<Rightarrow> condense_run list" where
  "condensedRuns g condensedOpen = filter (\<lambda>r. runConnector r \<notin> set condensedOpen) (foldable g)"

definition unfoldedRuns :: "lens_graph \<Rightarrow> string list \<Rightarrow> condense_run list" where
  "unfoldedRuns g condensedOpen = filter (\<lambda>r. runConnector r \<in> set condensedOpen) (foldable g)"

definition condenseRunByCard :: "lens_graph \<Rightarrow> string list \<Rightarrow> (string \<times> condense_info) list" where
  "condenseRunByCard g condensedOpen =
     setAll (map (\<lambda>r. (ru_boundaryA r, \<lparr>ci_connectorId = runConnector r, ci_dir = runDir g r, ci_steps = length (ru_interior r)\<rparr>))
       (unfoldedRuns g condensedOpen)) []"

definition applyCondensation :: "lens_graph \<Rightarrow> string list \<Rightarrow> lens_graph" where
  "applyCondensation g condensedOpen =
     (if foldable g = [] then g
      else let folded = condensedRuns g condensedOpen;
               hideCardIds = concat (map ru_interior folded);
               hideEdgeIds = map wr_id (concat (map ru_edges folded));
               byCard = condenseRunByCard g condensedOpen
           in g\<lparr>lg_cards :=
                  map (\<lambda>c. case map_of byCard (fc_id c) of None \<Rightarrow> c | Some info \<Rightarrow> c\<lparr>lc_condenseRun := Some info\<rparr>)
                    (filter (\<lambda>c. fc_id c \<notin> set hideCardIds) (lg_cards g)),
                lg_edges := filter (\<lambda>e. wr_id e \<notin> set hideEdgeIds) (lg_edges g) @ map connectorWire folded\<rparr>)"

section \<open>The invariant stage\<close>

datatype violation =
    FocalMissing
  | BoardEmpty
  | DanglingEdge string
  | DanglingFrame string

definition hasFocal :: "lens_graph \<Rightarrow> bool" where
  "hasFocal g = list_ex (\<lambda>c. fc_kind c = Focal) (lg_cards g)"

definition chooseGraph :: "lens_graph \<Rightarrow> lens_graph \<Rightarrow> lens_graph \<times> violation list" where
  "chooseGraph drawn fallback =
     (if \<not> hasFocal drawn \<and> (lg_cards drawn \<noteq> [] \<or> lg_cards fallback \<noteq> [])
      then if hasFocal fallback then (fallback, [FocalMissing])
           else (fallback\<lparr>lg_focusRecovered := True\<rparr>, [BoardEmpty])
      else (drawn, []))"

definition enforceLensInvariants :: "lens_graph \<Rightarrow> lens_graph \<Rightarrow> lens_graph \<times> violation list" where
  "enforceLensInvariants drawn fallback =
     (let (graph, first) = chooseGraph drawn fallback;
          cardIds = map fc_id (lg_cards graph);
          endsDrawn = (\<lambda>e. wr_source e \<in> set cardIds \<and> wr_target e \<in> set cardIds);
          frameDrawn = (\<lambda>c. \<not> truthyStr (fc_frameId c) \<or> the (fc_frameId c) \<in> set cardIds);
          edges = filter endsDrawn (lg_edges graph);
          violations = first
            @ map (\<lambda>e. DanglingEdge (wr_id e)) (filter (\<lambda>e. \<not> endsDrawn e) (lg_edges graph))
            @ map (\<lambda>c. DanglingFrame (fc_id c)) (filter (\<lambda>c. \<not> frameDrawn c) (lg_cards graph));
          cardsChanged = list_ex (\<lambda>c. \<not> frameDrawn c) (lg_cards graph);
          cards = map (\<lambda>c. if frameDrawn c then c else c\<lparr>fc_frameId := None\<rparr>) (lg_cards graph)
      in if length edges = length (lg_edges graph) \<and> \<not> cardsChanged then (graph, violations)
         else (graph\<lparr>lg_cards := cards, lg_edges := edges\<rparr>, violations))"

section \<open>Dimming and bundles\<close>

definition dimCard :: "string \<Rightarrow> lens_card \<Rightarrow> lens_card" where
  "dimCard needle c =
     (let dimmed = (lc_dimmed c \<or> \<not> strIncludes (jsLower (fc_label c)) needle)
      in if dimmed = lc_dimmed c then c else c\<lparr>lc_dimmed := dimmed\<rparr>)"

definition dimmedAt :: "lens_card list \<Rightarrow> string \<Rightarrow> bool" where
  "dimmedAt cards i = (case map_of (rev (map (\<lambda>c. (fc_id c, lc_dimmed c)) cards)) i of None \<Rightarrow> False | Some d \<Rightarrow> d)"

definition dimEdge :: "lens_card list \<Rightarrow> lens_wire \<Rightarrow> lens_wire" where
  "dimEdge cards e =
     (let dimmed = (dimmedAt cards (wr_source e) \<and> dimmedAt cards (wr_target e))
      in if dimmed = wr_dimmed e then e else e\<lparr>wr_dimmed := dimmed\<rparr>)"

definition applyQueryDimming :: "lens_graph \<Rightarrow> string \<Rightarrow> lens_graph" where
  "applyQueryDimming g query =
     (let needle = jsLower (jsTrim query)
      in if needle = [] then g
         else let cards = map (dimCard needle) (lg_cards g)
              in g\<lparr>lg_cards := cards, lg_edges := map (dimEdge cards) (lg_edges g),
                   lg_bundledWires := map (dimEdge cards) (lg_bundledWires g)\<rparr>)"

definition revealedWires :: "lens_wire list \<Rightarrow> string list \<Rightarrow> string list \<Rightarrow> (string \<Rightarrow> string list) \<Rightarrow> lens_wire list" where
  "revealedWires bundledWires cards bundles frameChainOf =
     (if bundledWires = [] then []
      else if cards = [] \<and> bundles = [] then []
      else let touches = (\<lambda>i. i \<in> set cards \<or> list_ex (\<lambda>host. host \<in> set cards) (frameChainOf i))
           in filter (\<lambda>w. (\<exists>b. wr_inBundle w = Some b \<and> b \<in> set bundles) \<or> touches (wr_source w) \<or> touches (wr_target w)) bundledWires)"

section \<open>Runs\<close>

lemma find_single: "filter P xs = [x] \<Longrightarrow> find P xs = Some x"
  by (induction xs) (auto split: if_splits)

lemma find_rev_single: "filter P xs = [x] \<Longrightarrow> find P (rev xs) = Some x"
  by (rule find_single) (metis rev_filter rev_singleton_conv)

lemma one_match:
  assumes "length (filter P xs) = 1"
  shows "\<exists>x. find P (rev xs) = Some x \<and> x \<in> set xs \<and> P x \<and> (\<forall>y \<in> set xs. P y \<longrightarrow> y = x)"
proof -
  obtain x where x: "filter P xs = [x]" using assms by (auto simp: length_Suc_conv)
  then have "set (filter P xs) = {x}" by simp
  then show ?thesis using find_rev_single [OF x] by auto
qed

lemma pass_out:
  assumes "isPassThrough g i"
  shows "the (outEdge g i) \<in> set (lg_edges g)" "wr_source (the (outEdge g i)) = i"
    and "e \<in> set (lg_edges g) \<Longrightarrow> wr_source e = i \<Longrightarrow> e = the (outEdge g i)"
proof -
  have "length (filter (\<lambda>e. wr_source e = i) (lg_edges g)) = 1"
    using assms by (simp add: isPassThrough_def outCount_def split: option.splits)
  from one_match [OF this] show "the (outEdge g i) \<in> set (lg_edges g)" "wr_source (the (outEdge g i)) = i"
      "e \<in> set (lg_edges g) \<Longrightarrow> wr_source e = i \<Longrightarrow> e = the (outEdge g i)"
    by (auto simp: outEdge_def)
qed

lemma pass_in:
  assumes "isPassThrough g i"
  shows "the (inEdge g i) \<in> set (lg_edges g)" "wr_target (the (inEdge g i)) = i"
    and "e \<in> set (lg_edges g) \<Longrightarrow> wr_target e = i \<Longrightarrow> e = the (inEdge g i)"
proof -
  have "length (filter (\<lambda>e. wr_target e = i) (lg_edges g)) = 1"
    using assms by (simp add: isPassThrough_def inCount_def split: option.splits)
  from one_match [OF this] show "the (inEdge g i) \<in> set (lg_edges g)" "wr_target (the (inEdge g i)) = i"
      "e \<in> set (lg_edges g) \<Longrightarrow> wr_target e = i \<Longrightarrow> e = the (inEdge g i)"
    by (auto simp: inEdge_def)
qed

text \<open>A walk from \<open>a\<close> through \<open>mid\<close> to \<open>b\<close> along \<open>es\<close>.\<close>

definition runPath :: "lens_graph \<Rightarrow> string \<Rightarrow> string list \<Rightarrow> lens_wire list \<Rightarrow> string \<Rightarrow> bool" where
  "runPath g a mid es b \<longleftrightarrow>
     set es \<subseteq> set (lg_edges g) \<and> map wr_source es = a # mid \<and> map wr_target es = mid @ [b]"

lemma runPath_step:
  assumes "runPath g a mid es b" "isPassThrough g b"
  shows "runPath g a (mid @ [b]) (es @ [the (outEdge g b)]) (wr_target (the (outEdge g b)))"
  using assms pass_out(1, 2) [OF assms(2)] by (simp add: runPath_def)

text \<open>What a walk that has gone from \<open>a\<close> to \<open>cur\<close> comes to; no card it consumes was consumed before \<open>was\<close>.\<close>

definition walked :: "lens_graph \<Rightarrow> string list \<Rightarrow> string list \<Rightarrow> string \<Rightarrow> string list \<Rightarrow> lens_wire list \<Rightarrow> string \<Rightarrow> bool" where
  "walked g was consumed a mid es b \<longleftrightarrow>
     runPath g a mid es b \<and> distinct mid \<and> (\<forall>i \<in> set mid. isPassThrough g i)
     \<and> set consumed = set was \<union> set mid \<and> set mid \<inter> set was = {}"

lemma walked_step:
  assumes "walked g was consumed a mid es cur" "isPassThrough g cur" "cur \<notin> set consumed"
  shows "walked g was (cur # consumed) a (mid @ [cur]) (es @ [the (outEdge g cur)]) (wr_target (the (outEdge g cur)))"
  using assms runPath_step [of g a mid es cur] by (auto simp: walked_def)

lemma walk_path:
  assumes "walked g was consumed a mid es cur" "walkRun g consumed mid es cur = (consumed', mid', es', b)"
  shows "walked g was consumed' a mid' es' b \<and> prefix mid mid' \<and> (isPassThrough g b \<longrightarrow> b \<in> set consumed')"
  using assms
proof (induction g consumed mid es cur rule: walkRun.induct)
  case (1 g consumed mid es cur)
  show ?case
  proof (cases "isPassThrough g cur \<and> cur \<notin> set consumed")
    case False
    then have "(consumed', mid', es', b) = (consumed, mid, es, cur)"
      using "1.prems"(2) by (simp only: walkRun.simps [of g consumed mid es cur] if_False)
    then show ?thesis using "1.prems"(1) False by simp
  next
    case True
    then have "walkRun g (cur # consumed) (mid @ [cur]) (es @ [the (outEdge g cur)]) (wr_target (the (outEdge g cur)))
        = (consumed', mid', es', b)"
      using "1.prems"(2) by (simp add: walkRun.simps [of g consumed] Let_def)
    from "1.IH" [OF True refl walked_step [OF "1.prems"(1) conjunct1 [OF True] conjunct2 [OF True]] this]
    show ?thesis by (metis append_prefixD)
  qed
qed

lemma walk_starts:
  assumes "isPassThrough g c" "c \<notin> set consumed"
    and "walkRun g consumed [] [the (inEdge g c)] c = (consumed', mid, es, b)"
  shows "walked g consumed consumed' (wr_source (the (inEdge g c))) mid es b \<and> (\<exists>rest. mid = c # rest)
    \<and> (isPassThrough g b \<longrightarrow> b \<in> set consumed')"
proof -
  let ?in = "the (inEdge g c)" and ?out = "the (outEdge g c)"
  have first: "walked g consumed consumed (wr_source ?in) [] [?in] c"
    using pass_in(1, 2) [OF assms(1)] by (simp add: walked_def runPath_def)
  have "walkRun g (c # consumed) [c] [?in, ?out] (wr_target ?out) = (consumed', mid, es, b)"
    using assms by (simp add: walkRun.simps [of g consumed] Let_def)
  with walk_path [OF _ this, of consumed "wr_source ?in"] walked_step [OF first assms(1, 2)]
  show ?thesis by (auto simp: prefix_def)
qed

text \<open>Where a card of the interior is left to, and entered from.\<close>

lemma path_neighbours:
  assumes "runPath g a mid es b" "i \<in> set mid" "isPassThrough g i"
  shows "the (inEdge g i) \<in> set es" "the (outEdge g i) \<in> set es"
    and "wr_source (the (inEdge g i)) \<in> set (a # mid)" "wr_target (the (outEdge g i)) \<in> set (mid @ [b])"
proof -
  have sources: "map wr_source es = a # mid" and targets: "map wr_target es = mid @ [b]" and es: "set es \<subseteq> set (lg_edges g)"
    using assms(1) by (auto simp: runPath_def)
  have "i \<in> wr_target ` set es" "i \<in> wr_source ` set es"
    using assms(2) arg_cong [OF sources, of set] arg_cong [OF targets, of set] by auto
  then show "the (inEdge g i) \<in> set es" "the (outEdge g i) \<in> set es"
    using pass_in(3) [OF assms(3)] pass_out(3) [OF assms(3)] es by fastforce+
  then show "wr_source (the (inEdge g i)) \<in> set (a # mid)" "wr_target (the (outEdge g i)) \<in> set (mid @ [b])"
    using sources [symmetric] targets [symmetric] by (metis imageI set_map)+
qed

lemma path_edge_ends:
  assumes "runPath g a mid es b" "e \<in> set es"
  shows "e \<in> set (lg_edges g)" "wr_source e \<in> set (a # mid)" "wr_target e \<in> set (mid @ [b])"
  using assms unfolding runPath_def by (blast, metis imageI set_map, metis imageI set_map)

text \<open>A run as it should be: its interior is passed through only, its ends are not.\<close>

definition runOk :: "lens_graph \<Rightarrow> condense_run \<Rightarrow> bool" where
  "runOk g r \<longleftrightarrow>
     runPath g (ru_boundaryA r) (ru_interior r) (ru_edges r) (ru_boundaryB r) \<and> distinct (ru_interior r) \<and> ru_interior r \<noteq> []
     \<and> (\<forall>i \<in> set (ru_interior r). isPassThrough g i) \<and> \<not> isPassThrough g (ru_boundaryA r) \<and> \<not> isPassThrough g (ru_boundaryB r)"

definition runsInv :: "lens_graph \<Rightarrow> string list \<times> condense_run list \<Rightarrow> bool" where
  "runsInv g acc \<longleftrightarrow>
     (\<forall>r \<in> set (snd acc). runOk g r) \<and> distinct (concat (map ru_interior (snd acc)))
     \<and> set (fst acc) = set (concat (map ru_interior (snd acc)))"

lemma consumed_closed:
  assumes "runsInv g acc" "i \<in> set (fst acc)"
  shows "isPassThrough g i"
    and "isPassThrough g (wr_source (the (inEdge g i))) \<Longrightarrow> wr_source (the (inEdge g i)) \<in> set (fst acc)"
    and "isPassThrough g (wr_target (the (outEdge g i))) \<Longrightarrow> wr_target (the (outEdge g i)) \<in> set (fst acc)"
proof -
  obtain r where r: "r \<in> set (snd acc)" "i \<in> set (ru_interior r)" using assms by (auto simp: runsInv_def)
  then have ok: "runOk g r" using assms(1) by (simp add: runsInv_def)
  then show pass: "isPassThrough g i" using r by (simp add: runOk_def)
  have inside: "set (ru_interior r) \<subseteq> set (fst acc)" using assms(1) r by (auto simp: runsInv_def)
  show "isPassThrough g (wr_source (the (inEdge g i))) \<Longrightarrow> wr_source (the (inEdge g i)) \<in> set (fst acc)"
    using path_neighbours(3) [OF _ r(2) pass] ok inside by (fastforce simp: runOk_def)
  show "isPassThrough g (wr_target (the (outEdge g i))) \<Longrightarrow> wr_target (the (outEdge g i)) \<in> set (fst acc)"
    using path_neighbours(4) [OF _ r(2) pass] ok inside by (fastforce simp: runOk_def)
qed

lemma path_last:
  assumes "runPath g a mid es b"
  shows "last es \<in> set (lg_edges g)" "wr_source (last es) = last (a # mid)" "wr_target (last es) = b"
proof -
  have "es \<noteq> []" using assms by (cases es) (auto simp: runPath_def)
  moreover have "last (map wr_source es) = last (a # mid)" "last (map wr_target es) = b" "set es \<subseteq> set (lg_edges g)"
    using assms by (simp_all add: runPath_def)
  ultimately show "last es \<in> set (lg_edges g)" "wr_source (last es) = last (a # mid)" "wr_target (last es) = b"
    by (auto simp: last_map)
qed

lemma path_never_returns:
  assumes path: "runPath g a mid es b" and mid: "distinct (a # mid)" and b: "b \<in> set mid" "isPassThrough g b"
  shows False
proof -
  obtain k where k: "k < length mid" "mid ! k = b" using b(1) by (auto simp: in_set_conv_nth)
  have sizes: "length es = Suc (length mid)" using arg_cong [of _ _ length] path by (fastforce simp: runPath_def)
  have "wr_target (es ! k) = (mid @ [b]) ! k" "wr_source (es ! k) = (a # mid) ! k"
    using path k sizes by (metis nth_map runPath_def less_SucI)+
  then have "wr_target (es ! k) = b" "wr_source (es ! k) = (a # mid) ! k" using k by (simp_all add: nth_append)
  moreover have "es ! k \<in> set (lg_edges g)" using path nth_mem [of k es] k sizes unfolding runPath_def by (metis less_SucI subsetD)
  ultimately have "last (a # mid) = (a # mid) ! k" using pass_in(3) [OF b(2)] path_last [OF path] by metis
  moreover have "last (a # mid) = (a # mid) ! length mid" by (simp add: last_conv_nth)
  ultimately show False using mid k nth_eq_iff_index_eq [of "a # mid" k "length mid"] by simp
qed

text \<open>A walk starts only where the card before it is not passed through, and ends where the next one is not.\<close>

lemma run_ends:
  assumes inv: "runsInv g acc" and c: "isPassThrough g c" "c \<notin> set (fst acc)"
    and head: "\<not> (isPassThrough g (wr_source (the (inEdge g c))) \<and> wr_source (the (inEdge g c)) \<notin> set (fst acc))"
    and walk: "walked g (fst acc) consumed' (wr_source (the (inEdge g c))) mid es b" "mid \<noteq> []"
      "isPassThrough g b \<longrightarrow> b \<in> set consumed'"
  shows "\<not> isPassThrough g (wr_source (the (inEdge g c)))" "\<not> isPassThrough g b"
proof -
  let ?a = "wr_source (the (inEdge g c))"
  show a: "\<not> isPassThrough g ?a"
  proof
    assume pass: "isPassThrough g ?a"
    then have "the (inEdge g c) = the (outEdge g ?a)" using pass_in(1) [OF c(1)] pass_out(3) by blast
    moreover have "?a \<in> set (fst acc)" using head pass by blast
    ultimately show False using consumed_closed(3) [OF inv, of ?a] c pass_in(2) [OF c(1)] by metis
  qed
  show "\<not> isPassThrough g b"
  proof
    assume pass: "isPassThrough g b"
    have path: "runPath g ?a mid es b" and mid: "distinct mid" "set mid \<inter> set (fst acc) = {}"
        "\<forall>i \<in> set mid. isPassThrough g i" "b \<in> set (fst acc) \<union> set mid"
      using walk pass by (auto simp: walked_def)
    have "b \<notin> set mid" using path_never_returns [OF path _ _ pass] mid a by auto
    then have before: "b \<in> set (fst acc)" using mid(4) by blast
    have "last mid \<in> set mid" "last (?a # mid) = last mid" using walk(2) by simp_all
    moreover have "the (inEdge g b) = last es" using pass_in(3) [OF pass] path_last [OF path] by metis
    ultimately show False using consumed_closed(2) [OF inv before] path_last(2) [OF path] mid by auto
  qed
qed

lemma runAt_keeps:
  assumes inv: "runsInv g acc"
  shows "runsInv g (runAt g c acc)"
proof (cases "isPassThrough g (fc_id c) \<and> fc_id c \<notin> set (fst acc)
    \<and> \<not> (isPassThrough g (wr_source (the (inEdge g (fc_id c)))) \<and> wr_source (the (inEdge g (fc_id c))) \<notin> set (fst acc))")
  case False
  then show ?thesis using inv by (auto simp: runAt_def Let_def split: prod.splits)
next
  case True
  let ?a = "wr_source (the (inEdge g (fc_id c)))"
  obtain consumed' mid es b where
    w: "walkRun g (fst acc) [] [the (inEdge g (fc_id c))] (fc_id c) = (consumed', mid, es, b)" by (metis prod_cases4)
  have walk: "walked g (fst acc) consumed' ?a mid es b" "mid \<noteq> []" "isPassThrough g b \<longrightarrow> b \<in> set consumed'"
    using walk_starts [OF _ _ w] True by auto
  have "\<not> isPassThrough g ?a" "\<not> isPassThrough g b" using run_ends [OF inv _ _ _ walk] True by blast+
  then show ?thesis using inv walk True w
    by (auto simp: runAt_def Let_def runsInv_def runOk_def walked_def disjoint_iff split: prod.splits)
qed

lemma runs_are_runs:
  shows "r \<in> set (allRuns g) \<Longrightarrow> runOk g r" and "distinct (concat (map ru_interior (allRuns g)))"
proof -
  have "runsInv g acc \<Longrightarrow> runsInv g (fold (runAt g) cs acc)" for cs acc
    by (induction cs arbitrary: acc) (simp_all add: runAt_keeps)
  from this [of "([], [])" "lg_cards g"] show "r \<in> set (allRuns g) \<Longrightarrow> runOk g r" "distinct (concat (map ru_interior (allRuns g)))"
    by (simp_all add: runsInv_def allRuns_def)
qed

section \<open>What folding hides\<close>

lemma distinct_concat_map_filter:
  "distinct (concat (map f xs)) \<Longrightarrow> distinct (concat (map f (filter P xs)))"
  by (induction xs) auto

definition folded :: "lens_graph \<Rightarrow> string list \<Rightarrow> string set" where
  "folded g condensedOpen = set (concat (map ru_interior (condensedRuns g condensedOpen)))"

definition foldedWires :: "lens_graph \<Rightarrow> string list \<Rightarrow> lens_wire list" where
  "foldedWires g condensedOpen = concat (map ru_edges (condensedRuns g condensedOpen))"

lemma condensed_run: "r \<in> set (condensedRuns g condensedOpen) \<Longrightarrow> runOk g r"
  by (simp add: condensedRuns_def foldable_def runs_are_runs)

lemma condensed_interiors_distinct: "distinct (concat (map ru_interior (condensedRuns g condensedOpen)))"
  unfolding condensedRuns_def foldable_def filter_filter by (intro distinct_concat_map_filter runs_are_runs)

lemma folded_passThrough: "i \<in> folded g condensedOpen \<Longrightarrow> isPassThrough g i"
  by (auto simp: folded_def runOk_def dest!: condensed_run)

text \<open>With nothing to fold the graph comes back as it is, which is what folding nothing makes of it.\<close>

lemma applyCondensation_folds:
  "applyCondensation g condensedOpen =
     g\<lparr>lg_cards := map (\<lambda>c. case map_of (condenseRunByCard g condensedOpen) (fc_id c) of None \<Rightarrow> c
           | Some info \<Rightarrow> c\<lparr>lc_condenseRun := Some info\<rparr>) (filter (\<lambda>c. fc_id c \<notin> folded g condensedOpen) (lg_cards g)),
       lg_edges := filter (\<lambda>e. wr_id e \<notin> wr_id ` set (foldedWires g condensedOpen)) (lg_edges g)
         @ map connectorWire (condensedRuns g condensedOpen)\<rparr>"
proof (cases "foldable g = []")
  case True
  then have "condensedRuns g condensedOpen = []" "condenseRunByCard g condensedOpen = []"
    by (simp_all add: condensedRuns_def condenseRunByCard_def unfoldedRuns_def setAll_def)
  then show ?thesis using True by (simp add: applyCondensation_def folded_def foldedWires_def)
next
  case False
  then show ?thesis by (simp add: applyCondensation_def folded_def foldedWires_def Let_def)
qed

lemma marked_card [simp]:
  "fc_id (case m of None \<Rightarrow> c | Some info \<Rightarrow> c\<lparr>lc_condenseRun := Some info\<rparr>) = fc_id c"
  "fc_kind (case m of None \<Rightarrow> c | Some info \<Rightarrow> c\<lparr>lc_condenseRun := Some info\<rparr>) = fc_kind c"
  "fc_frameId (case m of None \<Rightarrow> c | Some info \<Rightarrow> c\<lparr>lc_condenseRun := Some info\<rparr>) = fc_frameId c"
  by (simp_all split: option.splits)

lemma kept_ids: "fc_id ` set (lg_cards (applyCondensation g condensedOpen)) = fc_id ` set (lg_cards g) - folded g condensedOpen"
  by (auto simp: applyCondensation_folds image_image)

lemma path_edge_inside:
  assumes "runPath g a mid es b" "mid \<noteq> []" "e \<in> set es"
  shows "wr_source e \<in> set mid \<or> wr_target e \<in> set mid"
proof -
  obtain e0 rest where es: "es = e0 # rest" "wr_source ` set rest = set mid" "wr_target e0 = hd mid"
    using assms(1, 2) by (cases es; cases mid) (auto simp: runPath_def simp flip: set_map)
  then show ?thesis using assms(2, 3) by auto
qed

lemma wire_folded_iff:
  assumes ids: "distinct (map wr_id (lg_edges g))" and e: "e \<in> set (lg_edges g)"
  shows "wr_id e \<in> wr_id ` set (foldedWires g condensedOpen)
    \<longleftrightarrow> wr_source e \<in> folded g condensedOpen \<or> wr_target e \<in> folded g condensedOpen" (is "?hidden \<longleftrightarrow> ?inside")
proof
  assume ?hidden
  then obtain r e' where r: "r \<in> set (condensedRuns g condensedOpen)" "e' \<in> set (ru_edges r)" "wr_id e' = wr_id e"
    by (auto simp: foldedWires_def)
  then have path: "runPath g (ru_boundaryA r) (ru_interior r) (ru_edges r) (ru_boundaryB r)" "ru_interior r \<noteq> []"
    using condensed_run [OF r(1)] by (simp_all add: runOk_def)
  have "e' = e" using ids e r(3) path_edge_ends(1) [OF path(1) r(2)] by (auto simp: distinct_map dest: inj_onD)
  then show ?inside using path_edge_inside [OF path r(2)] r(1) by (auto simp: folded_def)
next
  assume ?inside
  then obtain r i where r: "r \<in> set (condensedRuns g condensedOpen)" "i \<in> set (ru_interior r)" "wr_source e = i \<or> wr_target e = i"
    by (auto simp: folded_def)
  have run: "runOk g r" by (rule condensed_run [OF r(1)])
  then have "isPassThrough g i" "runPath g (ru_boundaryA r) (ru_interior r) (ru_edges r) (ru_boundaryB r)"
    using r(2) by (simp_all add: runOk_def)
  then have "e \<in> set (ru_edges r)"
    using path_neighbours(1, 2) [OF _ r(2)] pass_in(3) [OF _ e] pass_out(3) [OF _ e] r(3) by metis
  then show ?hidden using r(1) by (auto simp: foldedWires_def)
qed

section \<open>Properties\<close>

text \<open>A board as the layout hands it on: its cards and wires have names of their own, what a wire or a card names
  is drawn, a card that is a frame holds rows, and the focus is on it.\<close>

definition boardOk :: "lens_graph \<Rightarrow> bool" where
  "boardOk g \<longleftrightarrow>
     distinct (map fc_id (lg_cards g)) \<and> distinct (map wr_id (lg_edges g)) \<and> hasFocal g
     \<and> (\<forall>e \<in> set (lg_edges g). wr_source e \<in> fc_id ` set (lg_cards g) \<and> wr_target e \<in> fc_id ` set (lg_cards g))
     \<and> (\<forall>c \<in> set (lg_cards g). truthyStr (fc_frameId c)
          \<longrightarrow> (\<exists>f \<in> set (lg_cards g). fc_id f = the (fc_frameId c) \<and> holdsRows f))"

lemma folded_is_eligible:
  assumes "boardOk g" "c \<in> set (lg_cards g)" "fc_id c \<in> folded g condensedOpen"
  shows "eligible c"
proof -
  have pass: "isPassThrough g (fc_id c)" using assms(3) by (rule folded_passThrough)
  then obtain c' where c': "cardById g (fc_id c) = Some c'" "eligible c'" by (auto simp: isPassThrough_def split: option.splits)
  then have "c' \<in> set (lg_cards g)" "fc_id c' = fc_id c" by (auto simp: cardById_def dest!: find_in_set)
  then have "c' = c" using assms(1, 2) by (auto simp: boardOk_def distinct_map dest: inj_onD)
  then show ?thesis using c' by simp
qed

lemma run_boundaries_kept:
  assumes "boardOk g" "r \<in> set (condensedRuns g condensedOpen)"
  shows "ru_boundaryA r \<in> fc_id ` set (lg_cards g) - folded g condensedOpen"
    and "ru_boundaryB r \<in> fc_id ` set (lg_cards g) - folded g condensedOpen"
proof -
  have run: "runOk g r" by (rule condensed_run [OF assms(2)])
  then have path: "map wr_source (ru_edges r) = ru_boundaryA r # ru_interior r" "map wr_target (ru_edges r) = ru_interior r @ [ru_boundaryB r]"
      "set (ru_edges r) \<subseteq> set (lg_edges g)"
    by (simp_all add: runOk_def runPath_def)
  then have "ru_boundaryA r \<in> wr_source ` set (ru_edges r)" "ru_boundaryB r \<in> wr_target ` set (ru_edges r)"
    by (simp_all flip: set_map)
  then have "ru_boundaryA r \<in> fc_id ` set (lg_cards g)" "ru_boundaryB r \<in> fc_id ` set (lg_cards g)"
    using path(3) assms(1) by (auto simp: boardOk_def)
  then show "ru_boundaryA r \<in> fc_id ` set (lg_cards g) - folded g condensedOpen"
      "ru_boundaryB r \<in> fc_id ` set (lg_cards g) - folded g condensedOpen"
    using run folded_passThrough by (auto simp: runOk_def)
qed

lemma frame_is_kept:
  assumes ok: "boardOk g" and c: "c \<in> set (lg_cards g)" "truthyStr (fc_frameId c)"
  shows "the (fc_frameId c) \<in> fc_id ` set (lg_cards g) - folded g condensedOpen"
proof -
  obtain f where f: "f \<in> set (lg_cards g)" "fc_id f = the (fc_frameId c)" "holdsRows f"
    using ok c by (auto simp: boardOk_def)
  then have "fc_id f \<notin> folded g condensedOpen" using folded_is_eligible [OF ok] by (auto simp: eligible_def)
  then show ?thesis using f by (metis DiffI imageI)
qed

lemma focal_is_kept:
  assumes "boardOk g"
  shows "hasFocal (applyCondensation g condensedOpen)"
proof -
  obtain c where "c \<in> set (lg_cards g)" "fc_kind c = Focal" using assms by (auto simp: boardOk_def hasFocal_def list_ex_iff)
  moreover from this have "fc_id c \<notin> folded g condensedOpen"
    using folded_is_eligible [OF assms] by (auto simp: eligible_def)
  ultimately show ?thesis by (auto simp: hasFocal_def list_ex_iff applyCondensation_folds)
qed

lemma wires_end_on_kept_cards:
  assumes ok: "boardOk g" and e: "e \<in> set (lg_edges (applyCondensation g condensedOpen))"
  shows "wr_source e \<in> fc_id ` set (lg_cards g) - folded g condensedOpen \<and> wr_target e \<in> fc_id ` set (lg_cards g) - folded g condensedOpen"
proof -
  consider "e \<in> set (lg_edges g)" "wr_id e \<notin> wr_id ` set (foldedWires g condensedOpen)"
    | r where "r \<in> set (condensedRuns g condensedOpen)" "e = connectorWire r"
    using e by (auto simp: applyCondensation_folds)
  then show ?thesis
  proof cases
    case 1
    then show ?thesis using ok wire_folded_iff [of g e condensedOpen] by (auto simp: boardOk_def)
  next
    case 2
    then show ?thesis using run_boundaries_kept [OF ok, of r condensedOpen] by (simp add: connectorWire_def)
  qed
qed

text \<open>C14. Condensation keeps what it is licensed to keep: on a board the layout hands on, whatever runs are held open,
  the folded board has the focus, every wire on it joins two cards that are drawn and every card's frame is
  drawn, so that the invariant stage finds nothing and passes the folded board through unchanged.\<close>

theorem condensation_breaks_no_invariant:
  assumes "boardOk g"
  shows "enforceLensInvariants (applyCondensation g condensedOpen) g = (applyCondensation g condensedOpen, [])"
proof -
  let ?h = "applyCondensation g condensedOpen"
  have ends: "\<forall>e \<in> set (lg_edges ?h). wr_source e \<in> fc_id ` set (lg_cards ?h) \<and> wr_target e \<in> fc_id ` set (lg_cards ?h)"
    using wires_end_on_kept_cards [OF assms] by (simp add: kept_ids)
  have "\<forall>c \<in> set (lg_cards ?h). truthyStr (fc_frameId c) \<longrightarrow> the (fc_frameId c) \<in> fc_id ` set (lg_cards ?h)"
    unfolding kept_ids using frame_is_kept [OF assms] by (auto simp: applyCondensation_folds)
  then show ?thesis using ends focal_is_kept [OF assms, of condensedOpen]
    by (auto simp: enforceLensInvariants_def chooseGraph_def Let_def filter_empty_conv list_ex_iff)
qed

definition drawnPairs :: "lens_graph \<Rightarrow> (string \<times> string) set" where
  "drawnPairs g = (\<lambda>e. (wr_source e, wr_target e)) ` set (lg_edges g)"

lemma kept_wire_drawn:
  assumes "boardOk g" "e \<in> set (lg_edges g)" "wr_source e \<notin> folded g condensedOpen" "wr_target e \<notin> folded g condensedOpen"
  shows "(wr_source e, wr_target e) \<in> drawnPairs (applyCondensation g condensedOpen)"
  using assms wire_folded_iff [of g e condensedOpen] by (auto simp: boardOk_def drawnPairs_def applyCondensation_folds)

lemma connector_drawn:
  assumes "r \<in> set (condensedRuns g condensedOpen)"
  shows "(ru_boundaryA r, ru_boundaryB r) \<in> drawnPairs (applyCondensation g condensedOpen)"
proof -
  have "connectorWire r \<in> set (lg_edges (applyCondensation g condensedOpen))" using assms by (simp add: applyCondensation_folds)
  from imageI [OF this, of "\<lambda>e. (wr_source e, wr_target e)"] show ?thesis by (simp add: drawnPairs_def connectorWire_def)
qed

lemma path_walks:
  assumes "set es \<subseteq> set (lg_edges g)" "map wr_source es = a # mid" "map wr_target es = mid @ [b]"
  shows "(a, b) \<in> (drawnPairs g)\<^sup>*"
  using assms
proof (induction mid arbitrary: a es)
  case Nil
  then show ?case by (auto simp: drawnPairs_def)
next
  case (Cons c mid)
  then obtain e rest where es: "es = e # rest" by (cases es) auto
  have "(c, b) \<in> (drawnPairs g)\<^sup>*" by (rule Cons.IH [of rest]) (use Cons.prems es in auto)
  moreover have "(a, c) \<in> drawnPairs g" using Cons.prems es by (auto simp: drawnPairs_def)
  ultimately show ?case by (rule converse_rtrancl_into_rtrancl [rotated])
qed

text \<open>Where a walk of the whole board is on the folded one: at its card, or before the connector the card is folded into.\<close>

definition standsAt :: "lens_graph \<Rightarrow> string list \<Rightarrow> string \<Rightarrow> string \<Rightarrow> bool" where
  "standsAt g condensedOpen z pos \<longleftrightarrow>
     (if z \<in> folded g condensedOpen
      then \<exists>r \<in> set (condensedRuns g condensedOpen). z \<in> set (ru_interior r) \<and> pos = ru_boundaryA r
      else pos = z)"

lemma stand_moves:
  assumes ok: "boardOk g" and e: "e \<in> set (lg_edges g)" and pos: "standsAt g condensedOpen (wr_source e) pos"
  shows "\<exists>pos'. standsAt g condensedOpen (wr_target e) pos' \<and> (pos, pos') \<in> (drawnPairs (applyCondensation g condensedOpen))\<^sup>*"
proof (cases "wr_source e \<in> folded g condensedOpen")
  case True
  then obtain r where r: "r \<in> set (condensedRuns g condensedOpen)" "wr_source e \<in> set (ru_interior r)" "pos = ru_boundaryA r"
    using pos by (auto simp: standsAt_def)
  have run: "runOk g r" by (rule condensed_run [OF r(1)])
  then have pass: "isPassThrough g (wr_source e)" and path: "runPath g (ru_boundaryA r) (ru_interior r) (ru_edges r) (ru_boundaryB r)"
    using r(2) by (simp_all add: runOk_def)
  have "wr_target e \<in> set (ru_interior r @ [ru_boundaryB r])"
    using path_neighbours(4) [OF path r(2) pass] pass_out(3) [OF pass e] by simp
  then consider "wr_target e \<in> set (ru_interior r)" | "wr_target e = ru_boundaryB r" by auto
  then show ?thesis
  proof cases
    case 1
    then have "standsAt g condensedOpen (wr_target e) pos" using r by (auto simp: standsAt_def folded_def)
    then show ?thesis by blast
  next
    case 2
    then have "standsAt g condensedOpen (wr_target e) (ru_boundaryB r)"
      using run_boundaries_kept(2) [OF ok r(1)] by (simp add: standsAt_def)
    then show ?thesis using connector_drawn [OF r(1)] r(3) by blast
  qed
next
  case False
  then have pos: "pos = wr_source e" using pos by (simp add: standsAt_def)
  show ?thesis
  proof (cases "wr_target e \<in> folded g condensedOpen")
    case True
    then obtain r where r: "r \<in> set (condensedRuns g condensedOpen)" "wr_target e \<in> set (ru_interior r)" by (auto simp: folded_def)
    have run: "runOk g r" by (rule condensed_run [OF r(1)])
    then have pass: "isPassThrough g (wr_target e)" and path: "runPath g (ru_boundaryA r) (ru_interior r) (ru_edges r) (ru_boundaryB r)"
      using r(2) by (simp_all add: runOk_def)
    have "wr_source e \<in> set (ru_boundaryA r # ru_interior r)"
      using path_neighbours(3) [OF path r(2) pass] pass_in(3) [OF pass e] by simp
    then have "wr_source e = ru_boundaryA r" using False r(1) by (auto simp: folded_def)
    then have "standsAt g condensedOpen (wr_target e) pos" using True r pos by (auto simp: standsAt_def)
    then show ?thesis by blast
  next
    case kept: False
    then have "standsAt g condensedOpen (wr_target e) (wr_target e)" by (simp add: standsAt_def)
    then show ?thesis using kept_wire_drawn [OF ok e False kept] pos by blast
  qed
qed

lemma stand_follows:
  assumes "boardOk g" "(x, z) \<in> (drawnPairs g)\<^sup>*" "x \<notin> folded g condensedOpen"
  shows "\<exists>pos. standsAt g condensedOpen z pos \<and> (x, pos) \<in> (drawnPairs (applyCondensation g condensedOpen))\<^sup>*"
  using assms(2)
proof (induction rule: rtrancl_induct)
  case base
  then show ?case using assms(3) by (auto simp: standsAt_def)
next
  case (step y z)
  then obtain e pos where "e \<in> set (lg_edges g)" "y = wr_source e" "z = wr_target e" "standsAt g condensedOpen y pos"
      "(x, pos) \<in> (drawnPairs (applyCondensation g condensedOpen))\<^sup>*" by (auto simp: drawnPairs_def)
  then show ?case using stand_moves [OF assms(1)] by (metis rtrancl_trans)
qed

lemma condensed_pair_walks:
  assumes "(x, y) \<in> drawnPairs (applyCondensation g condensedOpen)"
  shows "(x, y) \<in> (drawnPairs g)\<^sup>*"
proof -
  consider "(x, y) \<in> drawnPairs g" | r where "r \<in> set (condensedRuns g condensedOpen)" "x = ru_boundaryA r" "y = ru_boundaryB r"
    using assms by (auto simp: drawnPairs_def applyCondensation_folds connectorWire_def)
  then show ?thesis
  proof cases
    case 2
    then have "runPath g x (ru_interior r) (ru_edges r) y" using condensed_run [of r] by (simp add: runOk_def)
    then show ?thesis unfolding runPath_def by (elim conjE) (rule path_walks)
  qed auto
qed

text \<open>C9. Folding loses no lineage and invents none: between two cards that stay on the board there is a way along
  the drawn wires after condensation just when there was one before it, whatever runs are held open.\<close>

theorem condensation_keeps_connections:
  assumes "boardOk g" "x \<notin> folded g condensedOpen" "y \<notin> folded g condensedOpen"
  shows "(x, y) \<in> (drawnPairs (applyCondensation g condensedOpen))\<^sup>* \<longleftrightarrow> (x, y) \<in> (drawnPairs g)\<^sup>*"
proof
  assume "(x, y) \<in> (drawnPairs (applyCondensation g condensedOpen))\<^sup>*"
  then show "(x, y) \<in> (drawnPairs g)\<^sup>*"
    by (induction rule: rtrancl_induct) (auto dest: condensed_pair_walks)
next
  assume "(x, y) \<in> (drawnPairs g)\<^sup>*"
  from stand_follows [OF assms(1) this assms(2)]
  show "(x, y) \<in> (drawnPairs (applyCondensation g condensedOpen))\<^sup>*" using assms(3) by (auto simp: standsAt_def)
qed

section \<open>What the counts come to\<close>

lemma run_wires_distinct:
  assumes "runOk g r"
  shows "distinct (ru_edges r)"
proof -
  have "distinct (ru_interior r @ [ru_boundaryB r])" using assms by (auto simp: runOk_def)
  then have "distinct (map wr_target (ru_edges r))" using assms by (simp add: runOk_def runPath_def)
  then show ?thesis by (simp add: distinct_map)
qed

lemma runs_share_no_wire:
  assumes r: "runOk g r" "runOk g r'" "set (ru_interior r) \<inter> set (ru_interior r') = {}"
  shows "set (ru_edges r) \<inter> set (ru_edges r') = {}"
proof -
  have False if e: "e \<in> set (ru_edges r)" "e \<in> set (ru_edges r')" for e
  proof -
    have ends: "wr_source e \<in> set (ru_interior q) \<or> wr_target e \<in> set (ru_interior q)"
        "wr_source e \<in> insert (ru_boundaryA q) (set (ru_interior q))" "wr_target e \<in> insert (ru_boundaryB q) (set (ru_interior q))"
      if "runOk g q" "e \<in> set (ru_edges q)" for q
      using that path_edge_inside [of g "ru_boundaryA q" "ru_interior q" "ru_edges q" "ru_boundaryB q" e]
        path_edge_ends(2, 3) [of g "ru_boundaryA q" "ru_interior q" "ru_edges q" "ru_boundaryB q" e]
      by (auto simp: runOk_def)
    show False using ends [OF r(1) e(1)] ends [OF r(2) e(2)] r by (auto simp: runOk_def disjoint_iff)
  qed
  then show ?thesis by blast
qed

lemma run_wires_all_distinct:
  assumes "\<forall>r \<in> set rs. runOk g r" "distinct (concat (map ru_interior rs))"
  shows "distinct (concat (map ru_edges rs))"
  using assms
proof (induction rs)
  case (Cons r rs)
  have "set (ru_edges r) \<inter> set (ru_edges q) = {}" if "q \<in> set rs" for q
    using that Cons.prems by (intro runs_share_no_wire [of g]) auto
  then show ?case using Cons run_wires_distinct [of g r] by auto
qed simp

lemma sum_filter_split: "(\<Sum>x\<leftarrow>filter P xs. f x) + (\<Sum>x\<leftarrow>filter (\<lambda>x. \<not> P x) xs. f x) = (\<Sum>x\<leftarrow>xs. f x :: int)"
  by (induction xs) auto

lemma sum_distinct_same: "distinct xs \<Longrightarrow> distinct ys \<Longrightarrow> set xs = set ys \<Longrightarrow> (\<Sum>x\<leftarrow>xs. f x :: int) = (\<Sum>x\<leftarrow>ys. f x)"
  by (simp add: sum_list_distinct_conv_sum_set)

text \<open>Folding counts every edge once: the counts on the wires of the folded board add up to the counts on the
  wires of the board the layout hands on, whatever runs are held open.\<close>

lemma condensation_keeps_the_count:
  assumes "boardOk g"
  shows "(\<Sum>e\<leftarrow>lg_edges (applyCondensation g condensedOpen). wr_count e) = (\<Sum>e\<leftarrow>lg_edges g. wr_count e)"
proof -
  let ?F = "condensedRuns g condensedOpen" and ?hidden = "\<lambda>e. wr_id e \<in> wr_id ` set (foldedWires g condensedOpen)"
  have ids: "distinct (map wr_id (lg_edges g))" using assms by (simp add: boardOk_def)
  have sub: "set (foldedWires g condensedOpen) \<subseteq> set (lg_edges g)"
    by (auto simp: foldedWires_def runOk_def dest!: condensed_run path_edge_ends(1))
  have "distinct (foldedWires g condensedOpen)" unfolding foldedWires_def
    by (rule run_wires_all_distinct [of _ g]) (auto simp: condensed_run condensed_interiors_distinct [simplified])
  moreover have "set (filter ?hidden (lg_edges g)) = set (foldedWires g condensedOpen)"
    using ids sub by (auto simp: distinct_map dest: inj_onD)
  ultimately have "(\<Sum>e\<leftarrow>filter ?hidden (lg_edges g). wr_count e) = (\<Sum>e\<leftarrow>foldedWires g condensedOpen. wr_count e)"
    using ids by (intro sum_distinct_same) (simp_all add: distinct_map)
  moreover have "(\<Sum>e\<leftarrow>concat (map ru_edges rs). wr_count e) = (\<Sum>e\<leftarrow>map connectorWire rs. wr_count e)" for rs
    by (induction rs) (simp_all add: connectorWire_def)
  from this [of ?F] have "(\<Sum>e\<leftarrow>foldedWires g condensedOpen. wr_count e) = (\<Sum>e\<leftarrow>map connectorWire ?F. wr_count e)"
    by (simp add: foldedWires_def)
  ultimately show ?thesis
    using sum_filter_split [of wr_count "\<lambda>e. \<not> ?hidden e" "lg_edges g"] by (simp add: applyCondensation_folds)
qed

section \<open>Dimming, bundles, and the wires of two runs\<close>

text \<open>Dimming only adds to the cards, and the pass is the same applied twice.\<close>

lemma dimming_only_adds:
  "list_all2 (\<lambda>c c'. fc_id c' = fc_id c \<and> (lc_dimmed c \<longrightarrow> lc_dimmed c')) (lg_cards g) (lg_cards (applyQueryDimming g query))"
  by (simp add: applyQueryDimming_def Let_def dimCard_def list_all2_map2 list.rel_refl_strong)

lemma dimCard_twice: "dimCard needle (dimCard needle c) = dimCard needle c"
  by (cases "lc_dimmed c") (simp_all add: dimCard_def Let_def)

lemma dimEdge_twice: "dimEdge cards (dimEdge cards e) = dimEdge cards e"
  by (simp add: dimEdge_def Let_def)

lemma dimming_twice: "applyQueryDimming (applyQueryDimming g query) query = applyQueryDimming g query"
  by (simp add: applyQueryDimming_def Let_def dimCard_twice dimEdge_twice comp_def)

text \<open>A bundle the reader is on fans out into all of its members.\<close>

lemma bundle_fans_out:
  assumes "w \<in> set bundledWires" "wr_inBundle w = Some b" "b \<in> set bundles"
  shows "w \<in> set (revealedWires bundledWires cards bundles frameChainOf)"
  using assms by (auto simp: revealedWires_def Let_def)

text \<open>Two runs between the same two cards: \<open>f\<close> to \<open>t\<close> through \<open>p\<close>, \<open>q\<close> and through \<open>r\<close>, \<open>s\<close>.\<close>

definition board_card :: "string \<Rightarrow> card_kind \<Rightarrow> lens_card" where
  "board_card i kind =
     \<lparr>fc_id = i, fc_kind = kind, fc_band = 0, fc_label = i, fc_frameId = None, fc_depth = 0, fc_nameLines = 1, fc_gutterLanes = 0,
      fc_childrenOpen = False, fc_frameShowingAll = False, fc_frameLoaded = 0, fc_frameTotal = -1, fc_frameHasMore = False,
      fc_frameOffset = 0, fc_frameWindowSize = 8, lc_dimmed = False, lc_condenseRun = None\<rparr>"

definition board_wire :: "string \<Rightarrow> string \<Rightarrow> int \<Rightarrow> lens_wire" where
  "board_wire a b n =
     \<lparr>wr_id = a @ b, wr_source = a, wr_target = b, wr_count = n, wr_edgeTypeNorm = [], wr_dimmed = False,
      wr_inBundle = None, wr_condensed = None\<rparr>"

definition run_board :: lens_graph where
  "run_board =
     \<lparr>lg_cards = [board_card ''f'' Focal, board_card ''p'' Entity, board_card ''q'' Entity, board_card ''t'' Entity],
      lg_edges = [board_wire ''f'' ''p'' 2, board_wire ''p'' ''q'' 3, board_wire ''q'' ''t'' 4],
      lg_bundledWires = [], lg_focusRecovered = False\<rparr>"

definition two_run_board :: lens_graph where
  "two_run_board = run_board\<lparr>
     lg_cards := lg_cards run_board @ [board_card ''r'' Entity, board_card ''s'' Entity, board_card ''u'' Entity],
     lg_edges := lg_edges run_board
       @ [board_wire ''f'' ''r'' 1, board_wire ''r'' ''s'' 1, board_wire ''s'' ''t'' 1, board_wire ''t'' ''u'' 1]\<rparr>"

lemma run_board_ok: "boardOk run_board"
  by (simp add: boardOk_def run_board_def board_card_def board_wire_def hasFocal_def truthyStr_def)

lemma run_board_folded: "folded run_board [] = {''p'', ''q''}"
proof -
  have "concat (map ru_interior (condensedRuns run_board [])) = [''p'', ''q'']" by code_simp
  then show ?thesis by (simp add: folded_def)
qed

lemma condensation_breaks_no_invariant_witness:
  "boardOk run_board \<and> map fc_id (lg_cards (fst (enforceLensInvariants (applyCondensation run_board []) run_board))) = [''f'', ''t'']
   \<and> snd (enforceLensInvariants (applyCondensation run_board []) run_board) = []"
proof -
  have "map fc_id (lg_cards (applyCondensation run_board [])) = [''f'', ''t'']" by code_simp
  then show ?thesis using run_board_ok by (simp add: condensation_breaks_no_invariant [OF run_board_ok])
qed

lemma condensation_keeps_connections_witness: "(''f'', ''t'') \<in> (drawnPairs (applyCondensation run_board []))\<^sup>*"
proof -
  have "(''f'', ''t'') \<in> (drawnPairs run_board)\<^sup>*"
    by (rule path_walks [of "lg_edges run_board" _ _ "[''p'', ''q'']"]) (simp_all add: run_board_def board_wire_def)
  then show ?thesis using condensation_keeps_connections [OF run_board_ok, of "''f''" "[]" "''t''"] by (simp add: run_board_folded)
qed

lemma run_board_count:
  "boardOk run_board \<and> map wr_count (lg_edges (applyCondensation run_board [])) = [9]
   \<and> (\<Sum>e\<leftarrow>lg_edges (applyCondensation run_board []). wr_count e) = 9"
proof -
  have "map wr_count (lg_edges (applyCondensation run_board [])) = [9]" by code_simp
  moreover have "(\<Sum>e\<leftarrow>lg_edges run_board. wr_count e) = 9" by (simp add: run_board_def board_wire_def)
  ultimately show ?thesis using run_board_ok by (simp add: condensation_keeps_the_count [OF run_board_ok])
qed

text \<open>A connector is named by the two cards it joins alone, so the connectors of two runs between them share a name
  and the wires drawn for them an id; and unfolding the one unfolds the other.\<close>

lemma two_runs_share_a_connector:
  "map wr_id (lg_edges (applyCondensation two_run_board [])) = [''tu'', ''condense:f>t:edge'', ''condense:f>t:edge'']"
  "applyCondensation two_run_board [''condense:f>t''] \<noteq> two_run_board"
  "map wr_id (lg_edges (applyCondensation two_run_board [''condense:f>t''])) = map wr_id (lg_edges two_run_board)"
  by code_simp+

end
