(* ===== verification/Fetch_Timeout.thy ===== *)
theory Fetch_Timeout
  imports Graph_Requests
begin

text \<open>
  \<^verbatim>\<open>services/fetchWithTimeout.ts\<close>: the wrapper every request goes through, which renews a session that
  has expired, repairs a lost CSRF cookie and honours the server's backpressure, each time by sending the request
  once more; and a whole graph request, the loop of \<open>Graph_Requests\<close> over this wrapper.

  Inputs are what the code does not decide: what each exchange with the server gives, the clock,
  \<open>Math.random()\<close>, and the outcome of the calls that renew the session. A response keeps its text beside the
  text's JSON parse, and its \<open>Retry-After\<close> header as \<open>Number\<close> or \<open>Date.parse\<close> reads it.
\<close>

section \<open>Responses\<close>

datatype retry_header = NoRetryAfter | Seconds rat | HttpDate rat

record http_response =
  hr_status :: nat
  hr_statusText :: string
  hr_text :: string
  hr_json :: "json option"
  hr_retryAfter :: retry_header

text \<open>What one \<open>fetch\<close> gives: an answer, the abort of its own timer (or of the caller), or another error.\<close>

datatype exchange = HttpAnswer http_response | FetchAborted | FetchRaised thrown

datatype fetch_result = Response http_response | FetchThrows thrown

definition responseOk :: "http_response \<Rightarrow> bool" where
  "responseOk res \<longleftrightarrow> 200 \<le> hr_status res \<and> hr_status res \<le> 299"

definition jsProp :: "jsval \<Rightarrow> string \<Rightarrow> jsval" where
  "jsProp v k = (case v of JObj kvs \<Rightarrow> objGet kvs k | _ \<Rightarrow> JUndefined)"

definition bodyDetail :: "http_response \<Rightarrow> jsval" where
  "bodyDetail res = (case hr_json res of None \<Rightarrow> JUndefined | Some j \<Rightarrow> jsProp (unjson j) ''detail'')"

definition isForeignSession :: "http_response \<Rightarrow> bool" where
  "isForeignSession res \<longleftrightarrow> jsProp (bodyDetail res) ''error'' = JStr ''session_foreign''"

definition RETRY_AFTER_MAX_MS :: rat where
  "RETRY_AFTER_MAX_MS = 5000"

definition parseRetryAfterMs :: "rat \<Rightarrow> rat \<Rightarrow> retry_header \<Rightarrow> rat option" where
  "parseRetryAfterMs now random header =
     (let ms = (case header of
                  NoRetryAfter \<Rightarrow> None
                | Seconds s \<Rightarrow> if 0 \<le> s then Some (of_int \<lfloor>s * 1000\<rfloor>) else None
                | HttpDate t \<Rightarrow> Some (t - now));
          jitter = 10 + of_int \<lfloor>random * 240\<rfloor>
      in case ms of
           None \<Rightarrow> None
         | Some m \<Rightarrow> if m < 0 then None else Some (min RETRY_AFTER_MAX_MS (m + jitter)))"

text \<open>The error a non-OK response becomes in \<^verbatim>\<open>services/graphRequestFailure.ts\<close>, which reads the header
  without jitter.\<close>

definition retryAfterHint :: "rat \<Rightarrow> retry_header \<Rightarrow> rat option" where
  "retryAfterHint now header = (case header of
     NoRetryAfter \<Rightarrow> None
   | Seconds s \<Rightarrow> if 0 \<le> s then Some (of_int \<lfloor>s * 1000\<rfloor>) else None
   | HttpDate t \<Rightarrow> Some (max 0 (t - now)))"

definition toApiStatusError :: "rat \<Rightarrow> http_response \<Rightarrow> thrown" where
  "toApiStatusError now res =
     Thrown \<lparr>er_class = PlainError,
       er_message = ''API Error '' @ showNat (hr_status res) @ '': '' @
         (if hr_text res = [] then hr_statusText res else hr_text res),
       er_status = Some (of_nat (hr_status res)),
       er_code = (if truthyStr (extractCode (hr_json res)) then extractCode (hr_json res) else None),
       er_retryAfterMs = retryAfterHint now (hr_retryAfter res)\<rparr>"

section \<open>Renewing a session\<close>

datatype refresh_outcome = RefreshOk | Reauth | Expired | Retryable

text \<open>What \<open>attemptSilentReauth\<close> reports.\<close>

datatype reauth_result = Recovered | ReauthFailed | Gone | NotApplicable | ReauthThrew

definition ssoReauthRequired :: "http_response \<Rightarrow> bool" where
  "ssoReauthRequired res \<longleftrightarrow> jsProp (bodyDetail res) ''error'' = JStr ''sso_reauth_required'' \<and>
     (case jsProp (bodyDetail res) ''login_url'' of
        JStr u \<Rightarrow> prefix ''/'' u \<and> \<not> prefix ''//'' u \<and> CHR 92 \<notin> set u
      | _ \<Rightarrow> False)"

definition attemptRefresh :: "rat \<Rightarrow> rat \<Rightarrow> exchange \<Rightarrow> reauth_result \<Rightarrow> refresh_outcome \<times> rat option" where
  "attemptRefresh now random ex silent = (case ex of
     HttpAnswer res \<Rightarrow>
       if responseOk res then (RefreshOk, None)
       else if hr_status res = 401
       then (if ssoReauthRequired res then (if silent = Recovered then RefreshOk else Reauth, None) else (Expired, None))
       else (Retryable, parseRetryAfterMs now random (hr_retryAfter res))
   | _ \<Rightarrow> (Retryable, Some (1000 + of_int \<lfloor>random * 1000\<rfloor>)))"

definition refreshChain :: "refresh_outcome \<times> rat option \<Rightarrow> refresh_outcome \<times> rat option \<Rightarrow> refresh_outcome" where
  "refreshChain first second = (if fst first \<noteq> Retryable then fst first else fst second)"

text \<open>The Web Lock: absent, granted (with the access expiry then published), or rejected.\<close>

datatype refresh_lock = NoLocks | LockGranted "rat option" | LockRejects

definition refreshWithCrossTabLock :: "refresh_lock \<Rightarrow> rat option \<Rightarrow> refresh_outcome \<Rightarrow> refresh_outcome" where
  "refreshWithCrossTabLock lock before chain = (case lock of
     LockGranted after \<Rightarrow> if after \<noteq> None \<and> after \<noteq> before then RefreshOk else chain
   | _ \<Rightarrow> chain)"

text \<open>What the page keeps and announces: the session-lost latch, and the events dispatched, newest last.\<close>

datatype auth_event = SessionLost | SessionRefreshed | AccessDenied string | UserCleared | PasswordChangeRequired

record auth_page =
  ap_sessionLostAt :: "rat option"
  ap_events :: "auth_event list"

definition announce :: "auth_event \<Rightarrow> auth_page \<Rightarrow> auth_page" where
  "announce e st = st\<lparr>ap_events := ap_events st @ [e]\<rparr>"

definition SESSION_LOST_WINDOW_MS :: rat where
  "SESSION_LOST_WINDOW_MS = 10000"

definition notifySessionLost :: "rat \<Rightarrow> auth_page \<Rightarrow> auth_page" where
  "notifySessionLost now st =
     (if (case ap_sessionLostAt st of None \<Rightarrow> False | Some t \<Rightarrow> now - t < SESSION_LOST_WINDOW_MS) then st
      else announce SessionLost (st\<lparr>ap_sessionLostAt := Some now\<rparr>))"

text \<open>\<open>outcome\<close> is what \<open>refreshWithCrossTabLock\<close> gives, here or in the call in flight that is joined.\<close>

definition tryRefresh :: "rat \<Rightarrow> refresh_outcome \<Rightarrow> auth_page \<Rightarrow> refresh_outcome \<times> auth_page" where
  "tryRefresh now outcome st =
     (if ap_sessionLostAt st \<noteq> None then (Expired, st)
      else (outcome,
            if outcome = RefreshOk then announce SessionRefreshed (st\<lparr>ap_sessionLostAt := None\<rparr>)
            else if outcome = Expired then notifySessionLost now st
            else st))"

definition healCsrfToken :: "exchange \<Rightarrow> bool" where
  "healCsrfToken ex = (case ex of HttpAnswer res \<Rightarrow> responseOk res | _ \<Rightarrow> False)"

section \<open>The wrapper\<close>

text \<open>\<open>fc_path\<close> is the pathname of the request's URL.\<close>

record fetch_call =
  fc_path :: string
  fc_method :: string
  fc_timeoutMs :: rat
  fc_silent403 :: bool
  fc_skipAuthRefresh :: bool

record fetch_world =
  fw_now :: rat
  fw_random :: rat
  fw_pathname :: string
  fw_first :: exchange
  fw_second :: exchange
  fw_refresh :: refresh_outcome
  fw_heal :: exchange

definition SAFE_METHODS :: "string list" where
  "SAFE_METHODS = [''GET'', ''HEAD'', ''OPTIONS'']"

definition isRefreshExempt :: "fetch_call \<Rightarrow> bool" where
  "isRefreshExempt c \<longleftrightarrow> fc_path c = ''/api/v1/auth/refresh''"

definition onLoginRoute :: "fetch_world \<Rightarrow> bool" where
  "onLoginRoute w \<longleftrightarrow> fw_pathname w = ''/login'' \<or> fw_pathname w = ''/login/''"

text \<open>The dash of the message is an em dash in the code.\<close>

definition timeoutError :: "rat \<Rightarrow> thrown" where
  "timeoutError timeoutMs =
     Thrown \<lparr>er_class = TypeErr,
       er_message = ''Request timed out after '' @ showNat (nat \<lfloor>timeoutMs / 1000 + 1 / 2\<rfloor>) @
         ''s (client-side limit - backend may be slow or unavailable)'',
       er_status = None, er_code = None, er_retryAfterMs = None\<rparr>"

definition outcomeOf :: "fetch_call \<Rightarrow> exchange \<Rightarrow> fetch_result" where
  "outcomeOf c ex = (case ex of
     HttpAnswer res \<Rightarrow> Response res
   | FetchAborted \<Rightarrow> FetchThrows (timeoutError (fc_timeoutMs c))
   | FetchRaised err \<Rightarrow> FetchThrows err)"

text \<open>The 403 branch: a forced password change, a CSRF failure with its repair and replay, or a denial.\<close>

definition handleForbidden ::
    "fetch_call \<Rightarrow> fetch_world \<Rightarrow> auth_page \<Rightarrow> http_response \<Rightarrow> fetch_result \<times> exchange list \<times> auth_page" where
  "handleForbidden c w st res =
     (let err = jsProp (bodyDetail res) ''error'';
          replay = (\<lambda>st'. (case fw_second w of HttpAnswer r \<Rightarrow> Response r | _ \<Rightarrow> Response res, [fw_first w, fw_second w], st'))
      in if err = JStr ''password_change_required''
         then (Response res, [fw_first w],
               if prefix ''/password-change-required'' (fw_pathname w) then st else announce PasswordChangeRequired st)
         else if err = JStr ''csrf_failed''
         then (if fc_skipAuthRefresh c then (Response res, [fw_first w], st)
               else if healCsrfToken (fw_heal w) then replay st
               else let (outcome, st1) = tryRefresh (fw_now w) (fw_refresh w) st
                    in if outcome = RefreshOk then replay st1 else (Response res, [fw_first w], st1))
         else (Response res, [fw_first w], if fc_silent403 c then st else announce (AccessDenied (fc_path c)) st))"

text \<open>The rest of the wrapper once the session is dealt with: backpressure, then denials.\<close>

definition afterSession ::
    "fetch_call \<Rightarrow> fetch_world \<Rightarrow> auth_page \<Rightarrow> http_response \<Rightarrow> fetch_result \<times> exchange list \<times> auth_page" where
  "afterSession c w st res =
     (if (hr_status res = 429 \<or> hr_status res = 503) \<and> map upperChar (fc_method c) \<in> set SAFE_METHODS \<and>
         parseRetryAfterMs (fw_now w) (fw_random w) (hr_retryAfter res) \<noteq> None
      then (outcomeOf c (fw_second w), [fw_first w, fw_second w], st)
      else if hr_status res = 403 then handleForbidden c w st res
      else (Response res, [fw_first w], st))"

text \<open>The outcome, the exchanges of the request itself in the order they were sent, and the page afterwards.\<close>

definition fetchWithTimeout ::
    "fetch_call \<Rightarrow> fetch_world \<Rightarrow> auth_page \<Rightarrow> fetch_result \<times> exchange list \<times> auth_page" where
  "fetchWithTimeout c w st = (case fw_first w of
     HttpAnswer res \<Rightarrow>
       if hr_status res = 401 \<and> \<not> isRefreshExempt c \<and> \<not> fc_skipAuthRefresh c \<and> \<not> onLoginRoute w
       then (if isForeignSession res
             then (Response res, [fw_first w], notifySessionLost (fw_now w) (announce UserCleared st))
             else let (outcome, st1) = tryRefresh (fw_now w) (fw_refresh w) st
                  in if outcome = RefreshOk \<or> outcome = Reauth
                     then (outcomeOf c (fw_second w), [fw_first w, fw_second w], st1)
                     else afterSession c w (if outcome = Expired then notifySessionLost (fw_now w) st1 else st1) res)
       else afterSession c w st res
   | ex \<Rightarrow> (outcomeOf c ex, [ex], st))"

section \<open>A whole graph request\<close>

text \<open>An attempt's reply, from what the wrapper gives; \<open>body\<close> is the reading of an OK response's body.\<close>

definition attemptReply :: "rat \<Rightarrow> fetch_result \<Rightarrow> (thrown + 'd) \<Rightarrow> 'd reply" where
  "attemptReply now r body = (case r of
     FetchThrows err \<Rightarrow> Rejects err
   | Response res \<Rightarrow> if responseOk res then OkBody body else NotOk (toApiStatusError now res))"

text \<open>The page as attempt \<open>k\<close> finds it.\<close>

primrec pageAt :: "fetch_call \<Rightarrow> (nat \<Rightarrow> fetch_world) \<Rightarrow> auth_page \<Rightarrow> nat \<Rightarrow> auth_page" where
  "pageAt c w st 0 = st"
| "pageAt c w st (Suc k) = snd (snd (fetchWithTimeout c (w k) (pageAt c w st k)))"

definition attemptRun :: "fetch_call \<Rightarrow> (nat \<Rightarrow> fetch_world) \<Rightarrow> auth_page \<Rightarrow> nat \<Rightarrow> fetch_result \<times> exchange list" where
  "attemptRun c w st k = (let (r, sent, st') = fetchWithTimeout c (w k) (pageAt c w st k) in (r, sent))"

text \<open>The outcome, the breaker afterwards, and every exchange of the request, in order.\<close>

definition graphRequest ::
    "fetch_call \<Rightarrow> string \<Rightarrow> (nat \<Rightarrow> fetch_world) \<Rightarrow> (nat \<Rightarrow> 'd attempt) \<Rightarrow> (nat \<Rightarrow> thrown + 'd) \<Rightarrow> auth_page \<Rightarrow> breaker \<Rightarrow>
     (thrown + 'd) \<times> breaker \<times> exchange list" where
  "graphRequest c url w net bodies st cb =
     (let reply = (\<lambda>k. attemptReply (at_settle (net k)) (fst (attemptRun c w st k)) (bodies k));
          (r, cb', n) = doFetch (fc_method c) url (\<lambda>k. net k\<lparr>at_reply := reply k\<rparr>) 0 cb
      in (r, cb', concat (map (\<lambda>k. snd (attemptRun c w st k)) [0..<n])))"

section \<open>Properties\<close>

text \<open>An answer that says the request was not handled: no valid session, or no valid CSRF token.\<close>

definition turnedAway :: "exchange \<Rightarrow> bool" where
  "turnedAway ex = (case ex of
     HttpAnswer res \<Rightarrow> hr_status res = 401 \<or> (hr_status res = 403 \<and> jsProp (bodyDetail res) ''error'' = JStr ''csrf_failed'')
   | _ \<Rightarrow> False)"

text \<open>What the wrapper sends, and when it succeeds.\<close>

lemma fetch_sends:
  assumes "fetchWithTimeout c w st = (r, sent, st')"
  shows "sent = [fw_first w] \<or> (sent = [fw_first w, fw_second w] \<and>
    (turnedAway (fw_first w) \<or> map upperChar (fc_method c) \<in> set SAFE_METHODS))"
  using assms
  by (auto simp: fetchWithTimeout_def afterSession_def handleForbidden_def turnedAway_def Let_def
      split: exchange.splits if_splits prod.splits)

lemma fetch_ok_is_the_last_answer:
  assumes "fetchWithTimeout c w st = (Response res, sent, st')" "responseOk res"
  shows "sent \<noteq> [] \<and> last sent = HttpAnswer res"
  using assms
  by (auto simp: fetchWithTimeout_def afterSession_def handleForbidden_def outcomeOf_def responseOk_def Let_def
      split: exchange.splits if_splits prod.splits)

lemma doFetch_step:
  assumes "canRequest (at_ask (net k)) cb = (b, cb1)" "settleReply meth url (net k) k cb1 = (r, cb2)"
  shows "doFetch meth url net k cb =
    (if \<not> b then (Inl (plainError ''Provider unavailable (circuit open)''), cb1, 0)
     else case r of
       Some x \<Rightarrow> (x, cb2, 1)
     | None \<Rightarrow> (case at_pauseRejects (net k) of
         Some e \<Rightarrow> (Inl e, cb2, 1)
       | None \<Rightarrow> (let (x, cb3, n) = doFetch meth url net (Suc k) cb2 in (x, cb3, Suc n))))"
  using assms by (subst doFetch.simps) (simp add: Let_def split: option.splits)

lemma doFetch_success:
  "doFetch meth url net k cb = (Inr d, cb', n) \<Longrightarrow> 0 < n \<and> at_reply (net (k + n - 1)) = OkBody (Inr d)"
proof (induction meth url net k cb arbitrary: cb' n rule: doFetch.induct)
  case (1 meth url net k cb)
  obtain b cb1 where ask: "canRequest (at_ask (net k)) cb = (b, cb1)" by fastforce
  obtain r cb2 where st: "settleReply meth url (net k) k cb1 = (r, cb2)" by fastforce
  note prems = "1.prems" [unfolded doFetch_step [of net k, OF ask st]]
  have b: b using prems by (auto split: if_splits)
  show ?case
  proof (cases r)
    case None
    then have p: "at_pauseRejects (net k) = None" using prems b by (auto split: option.splits)
    obtain x cb3 m where rest: "doFetch meth url net (Suc k) cb2 = (x, cb3, m)" by (cases "doFetch meth url net (Suc k) cb2")
    then have x: "x = Inr d" "n = Suc m" using prems b None p by auto
    have "0 < m \<and> at_reply (net (Suc k + m - 1)) = OkBody (Inr d)"
      using "1.IH" [OF refl ask [symmetric] refl] b st None p rest x(1) by simp
    then show ?thesis using x(2) by simp
  next
    case (Some x)
    then have "x = Inr d" "n = 1" using prems b by auto
    then show ?thesis using st Some
      by (auto simp: settleReply_def Let_def split: reply.splits sum.splits if_splits)
  qed
qed

lemma attemptRun_sends:
  "snd (attemptRun c w st k) = [fw_first (w k)] \<or> (snd (attemptRun c w st k) = [fw_first (w k), fw_second (w k)] \<and>
    (turnedAway (fw_first (w k)) \<or> map upperChar (fc_method c) \<in> set SAFE_METHODS))"
  using fetch_sends [of c "w k" "pageAt c w st k"] by (auto simp: attemptRun_def split: prod.splits)

lemma attempts_send:
  "length (concat (map (\<lambda>k. snd (attemptRun c w st k)) [0..<n])) \<le> 2 * n"
proof (induction n)
  case (Suc n)
  then show ?case using attemptRun_sends [of c w st n] by auto
qed simp

text \<open>
  C27. What a graph request really puts on the wire, the replays of the fetch wrapper included. An
  idempotent read sends at most six HTTP requests (three attempts, each with at most one replay). A write sends at
  most two, and a second one only after the first was turned away unhandled (a 401, or a 403 for a CSRF token): a
  write whose answer was lost, timed out or shed is never sent again. And a success is always the answer to the last
  request sent.
\<close>

theorem unanswered_writes_are_never_resent:
  assumes "graphRequest c url w net bodies st cb = (r, cb', sent)"
  shows "(isIdempotentGraphRead (fc_method c) url \<longrightarrow> length sent \<le> 6) \<and>
    (\<not> isIdempotentGraphRead (fc_method c) url \<and> map upperChar (fc_method c) \<notin> set SAFE_METHODS \<longrightarrow>
       length sent \<le> 2 \<and> (\<forall>e \<in> set (butlast sent). turnedAway e)) \<and>
    (\<forall>d. r = Inr d \<longrightarrow> (\<exists>res. sent \<noteq> [] \<and> last sent = HttpAnswer res \<and> responseOk res))"
proof -
  define net' where "net' k = net k\<lparr>at_reply := attemptReply (at_settle (net k)) (fst (attemptRun c w st k)) (bodies k)\<rparr>" for k
  obtain n where run: "doFetch (fc_method c) url net' 0 cb = (r, cb', n)"
    and sent: "sent = concat (map (\<lambda>k. snd (attemptRun c w st k)) [0..<n])"
    using assms by (auto simp: graphRequest_def net'_def [abs_def] Let_def split: prod.splits)
  have n: "n \<le> (if isIdempotentGraphRead (fc_method c) url then 3 else 1)"
    using doFetch_sends [of "fc_method c" url net' 0 cb] run by (simp add: MAX_READ_RETRIES_def split: if_splits)
  have "length sent \<le> 2 * n" using attempts_send sent by metis
  then have reads: "isIdempotentGraphRead (fc_method c) url \<longrightarrow> length sent \<le> 6" using n by auto
  have writes: "length sent \<le> 2 \<and> (\<forall>e \<in> set (butlast sent). turnedAway e)"
    if "\<not> isIdempotentGraphRead (fc_method c) url" "map upperChar (fc_method c) \<notin> set SAFE_METHODS"
  proof -
    have "n = 0 \<or> n = 1" using n that(1) by (auto simp: le_Suc_eq)
    then show ?thesis using attemptRun_sends [of c w st 0] that(2) sent by auto
  qed
  have "\<exists>res. sent \<noteq> [] \<and> last sent = HttpAnswer res \<and> responseOk res" if r: "r = Inr d" for d
  proof -
    have "0 < n" "at_reply (net' (n - 1)) = OkBody (Inr d)" using doFetch_success run r by fastforce+
    then obtain m res where m: "n = Suc m" "fst (attemptRun c w st m) = Response res" "responseOk res"
      by (cases n) (auto simp: net'_def attemptReply_def split: fetch_result.splits if_splits)
    then have "snd (attemptRun c w st m) \<noteq> [] \<and> last (snd (attemptRun c w st m)) = HttpAnswer res"
      using fetch_ok_is_the_last_answer [of c "w m" "pageAt c w st m"] by (auto simp: attemptRun_def split: prod.splits)
    then show ?thesis using sent m(1,3) by simp
  qed
  then show ?thesis using reads writes by blast
qed

definition answer :: "nat \<Rightarrow> string option \<Rightarrow> retry_header \<Rightarrow> http_response" where
  "answer status err header = \<lparr>hr_status = status, hr_statusText = [], hr_text = [],
     hr_json = map_option (\<lambda>e. JsonObj [(''detail'', JsonObj [(''error'', JsonStr e)])]) err, hr_retryAfter = header\<rparr>"

definition plainCall :: "string \<Rightarrow> fetch_call" where
  "plainCall meth = \<lparr>fc_path = ''/api/v1/graph/nodes'', fc_method = meth, fc_timeoutMs = 30000, fc_silent403 = False,
     fc_skipAuthRefresh = False\<rparr>"

definition twoAnswers :: "exchange \<Rightarrow> exchange \<Rightarrow> nat \<Rightarrow> fetch_world" where
  "twoAnswers x y k = \<lparr>fw_now = 1000, fw_random = 0, fw_pathname = ''/dashboard'', fw_first = x, fw_second = y,
     fw_refresh = RefreshOk, fw_heal = HttpAnswer (answer 200 None NoRetryAfter)\<rparr>"

definition quietNet :: "nat \<Rightarrow> unit attempt" where
  "quietNet k = \<lparr>at_ask = 1000, at_reply = OkBody (Inr ()), at_aborted = False, at_settle = 1000, at_pauseRejects = None\<rparr>"

definition freshPage :: auth_page where
  "freshPage = \<lparr>ap_sessionLostAt = None, ap_events = []\<rparr>"

text \<open>A write whose CSRF token is repaired is sent twice; a read that meets backpressure every time, six times.\<close>

theorem unanswered_writes_are_never_resent_witness:
  "(let (r, cb, sent) = graphRequest (plainCall ''PUT'') ''/nodes''
        (twoAnswers (HttpAnswer (answer 403 (Some ''csrf_failed'') NoRetryAfter)) (HttpAnswer (answer 200 None NoRetryAfter)))
        quietNet (\<lambda>_. Inr ()) freshPage (newBreaker 3 CIRCUIT_RESET_MS)
    in r = Inr () \<and> length sent = 2 \<and> list_all turnedAway (butlast sent)) \<and>
   (let (r, cb, sent) = graphRequest (plainCall ''GET'') ''/nodes''
        (twoAnswers (HttpAnswer (answer 429 None (Seconds 1))) (HttpAnswer (answer 429 None (Seconds 1))))
        quietNet (\<lambda>_. Inr ()) freshPage (newBreaker 3 CIRCUIT_RESET_MS)
    in length sent = 6)"
proof -
  let ?put = "graphRequest (plainCall ''PUT'') ''/nodes''
      (twoAnswers (HttpAnswer (answer 403 (Some ''csrf_failed'') NoRetryAfter)) (HttpAnswer (answer 200 None NoRetryAfter)))
      quietNet (\<lambda>_. Inr ()) freshPage (newBreaker 3 CIRCUIT_RESET_MS)"
  obtain r cb sent where put: "?put = (r, cb, sent)" by (cases ?put)
  have "\<not> isIdempotentGraphRead ''PUT'' ''/nodes''" "map upperChar ''PUT'' \<notin> set SAFE_METHODS" by code_simp+
  then have "list_all turnedAway (butlast sent)"
    using unanswered_writes_are_never_resent [OF put] by (simp add: plainCall_def list_all_iff)
  moreover have "case ?put of (r, cb, sent) \<Rightarrow> r = Inr () \<and> length sent = 2" by code_simp
  moreover have "let (r, cb, sent) = graphRequest (plainCall ''GET'') ''/nodes''
        (twoAnswers (HttpAnswer (answer 429 None (Seconds 1))) (HttpAnswer (answer 429 None (Seconds 1))))
        quietNet (\<lambda>_. Inr ()) freshPage (newBreaker 3 CIRCUIT_RESET_MS)
      in length sent = 6" by code_simp
  ultimately show ?thesis using put by simp
qed

text \<open>A write replayed after a repair of its CSRF token whose answer is then lost is reported as the first
  refusal, although the server may have carried it out.\<close>

lemma lost_replay_reads_as_refused:
  assumes "fw_first w = HttpAnswer res" "hr_status res = 403" "jsProp (bodyDetail res) ''error'' = JStr ''csrf_failed''"
    "\<not> fc_skipAuthRefresh c" "healCsrfToken (fw_heal w)" "\<forall>r. fw_second w \<noteq> HttpAnswer r"
  shows "fetchWithTimeout c w st = (Response res, [HttpAnswer res, fw_second w], st)"
  using assms by (auto simp: fetchWithTimeout_def afterSession_def handleForbidden_def Let_def split: exchange.splits)

text \<open>A burst of 401s announces a lost session once in ten seconds, and asks the server once.\<close>

lemma lost_session_is_announced_once:
  assumes "ap_sessionLostAt st = Some t" "now - t < SESSION_LOST_WINDOW_MS"
  shows "tryRefresh now outcome st = (Expired, st) \<and> notifySessionLost now st = st"
  using assms by (simp add: tryRefresh_def notifySessionLost_def)

text \<open>Only a definite answer signs anybody out: a refresh that could not be answered leaves the page as it was.\<close>

lemma unanswered_refresh_signs_nobody_out:
  "fst (attemptRefresh now random ex silent) = Expired \<Longrightarrow> \<exists>res. ex = HttpAnswer res \<and> hr_status res = 401"
  by (auto simp: attemptRefresh_def split: exchange.splits if_splits)

end
