(* ===== verification/Spec2Isabelle.thy ===== *)
theory Spec2Isabelle
  imports Layer_Order Logical_Nodes Trace_History Graph_Requests Staged_Discard Staged_Ops Placement_Walk Bounded_Queue
    Duplicate_Plan Draft_Save Wire_Ledger Walk_Model Layer_Fold Type_Chains Retype_Plan Bulk_Links
    Lens_Condensation Fetch_Timeout
begin

text \<open>
  A verification library for the TypeScript front end of the data-lineage workspace (\<^verbatim>\<open>src/frontend/src\<close>; paths
  below are relative to it). The front end shows a graph of data entities in a view made of layers, lets a person
  organise and edit it in a draft, and saves the edits to a server. Modelled here is the code that decides what
  happens to a person's work: where entities are placed, in what order they stand, which edits are pending and what is
  sent for them, and how requests to a failing server are bounded.

  \<^bold>\<open>How the program is put together.\<close> A view stores a reference layout: layers, groups inside them and an assignment of
  entities, each with an order key. The layout is read (\<^verbatim>\<open>utils/referenceLayout.ts\<close>), compiled into a placement
  (\<^verbatim>\<open>lib/placement/placement.ts\<close>, whose rules are tested by \<^verbatim>\<open>lib/placement/semantics.ts\<close>) and edited by pure
  functions (\<^verbatim>\<open>components/canvas/context-view\<close>: \<^verbatim>\<open>layerMutations.ts\<close>, \<^verbatim>\<open>assignmentMutations.ts\<close>) that handlers such
  as \<^verbatim>\<open>hooks/useLogicalNodes.ts\<close> compose. Order keys come from \<^verbatim>\<open>utils/orderKeys.ts\<close>. Edits of the graph itself are
  staged in \<^verbatim>\<open>store/stagedChangesStore.ts\<close> (a duplicated subtree through \<^verbatim>\<open>hooks/planDuplicate.ts\<close>), translated to
  server operations by \<^verbatim>\<open>features/versioning/model/stagedChangesToOps.ts\<close> and sent through
  \<^verbatim>\<open>providers/RemoteGraphProvider.ts\<close>, which classifies failures (\<^verbatim>\<open>services/graphRequestFailure.ts\<close>), stops asking
  a server that is down (\<^verbatim>\<open>services/circuitBreaker.ts\<close>) and sends every request through a wrapper that renews the
  session (\<^verbatim>\<open>services/fetchWithTimeout.ts\<close>). Fan-outs of reads run through \<^verbatim>\<open>lib/concurrency.ts\<close>.
  What a person may draw, nest or turn into another type is decided by \<^verbatim>\<open>services/ontologyPreflightService.ts\<close>, on which
  the bulk links of \<^verbatim>\<open>lib/bulkLinks.ts\<close> rest; which columns of a view stay open, by
  \<^verbatim>\<open>components/canvas/context-view/layerFold.ts\<close>. The pages of a walk of the lineage are accumulated
  (\<^verbatim>\<open>lens/closure-adapter.ts\<close>). What the walk has fetched is nested and projected onto the open cards (\<^verbatim>\<open>lens/lens-subgraph.ts\<close>), and a
  ledger decides which of its statements are drawn as wires (\<^verbatim>\<open>hooks/lib/traceWireLedger.ts\<close>). Its cards are ordered,
  sized and placed (\<^verbatim>\<open>lens/frame-flow.ts\<close>, \<^verbatim>\<open>lens/focus-cards.ts\<close>), and the finished board is condensed, checked and dimmed.

  \<^bold>\<open>Which theory models what\<close>
  \<^item> \<open>Prelude\<close>: strings, arrays, dictionaries and state machines as the program uses them; \<open>Js_Values\<close>: values of type
    \<open>unknown\<close>, \<open>JSON.stringify\<close> and \<open>===\<close>.
  \<^item> \<open>Order_Keys\<close> (\<^verbatim>\<open>utils/orderKeys.ts\<close>, one function each): a key generated between two keys is valid and
    strictly between; n keys are n increasing keys; an insertion never renumbers.
  \<^item> \<open>View_Layout\<close> (\<^verbatim>\<open>types/schema.ts\<close>): the records of a layout. \<open>Layer_Mutations\<close>: the functions of
    \<^verbatim>\<open>layerMutations.ts\<close>. \<open>Layer_Order\<close>: columns stay numbered, as a step relation over the whole-layer operations.
    \<open>Layer_Groups\<close>, \<open>Group_Moves\<close>: the tree editor returns; names of siblings stay distinct, as an invariant of every
    group operation; moving keeps every group.
  \<^item> \<open>Assignment_Mutations\<close> (\<^verbatim>\<open>assignmentMutations.ts\<close>): insertions land in place, seeding keys every sibling, a save
    re-keys assignments. \<open>Logical_Nodes\<close> (\<^verbatim>\<open>hooks/useLogicalNodes.ts\<close>): the handlers keep the layout consistent: no
    assignment points to a group that is gone.
  \<^item> \<open>Reference_Layout\<close>: reading a stored layout is idempotent. \<open>Rule_Semantics\<close>: what a condition of a rule means on
    every stored value, with doubles rounded where the code computes. \<open>Placement\<close>: the compiled view and the placement of
    one entity, tier by tier; the interface \<open>compiled_view\<close> is what the tiers rely on, interpreted on
    \<open>compilePlacementSpec\<close>. \<open>Placement_Order\<close>, \<open>Placement_Cycles\<close>, \<open>Placement_Walk\<close>: placing a whole graph; the
    iterative searches of the code are shown to be a topological order and the strongly connected components, and the
    interface \<open>parent_walk\<close> is what placing relies on.
  \<^item> \<open>Staged_Changes\<close>, \<open>Staged_Discard\<close> (\<^verbatim>\<open>stagedChangesStore.ts\<close>): scopes are isolated, redo undoes undo, a save loses
    no edit, a discard takes what depends on it. \<open>Staged_Ops\<close> (\<^verbatim>\<open>lib/nodeFields.ts\<close>, \<^verbatim>\<open>stagedChangesToOps.ts\<close>): the
    operations sent do what was edited.
  \<^item> \<open>Duplicate_Plan\<close> (\<^verbatim>\<open>hooks/planDuplicate.ts\<close>, \<open>commitDuplicate\<close> of \<^verbatim>\<open>hooks/useDuplicateSubtree.ts\<close>): the plan is the
    subtree, once; staging it recreates the structure.
  \<^item> \<open>Draft_Save\<close> (\<^verbatim>\<open>features/versioning/model/saveStagedChangesToDraft.ts\<close>): saving a draft, on top of the staged store and
    its operations, against any server that keeps its promise about idempotency keys: however edits, undo, redo, saves and lost answers
    interleave, no entity is created twice, as long as no edit brings back a creation that the server has and whose pending save was
    forgotten (a redo can, and the entity is then created twice). \<open>Canvas_Rekey\<close>: the canvas after a save has no temporary id.
  \<^item> \<open>Containment_Chain\<close>: the containers around a node, climbed with a guard against cycles. \<open>Lens_Subgraph\<close>
    (\<^verbatim>\<open>components/canvas/context-view/lens/lens-subgraph.ts\<close>, first half): the nested structure is scoped to the model, the
    hops are shortest distances from the focus side, the rows are the open tree. \<open>Lens_Projection\<close> (second half): the
    projection, memo included, bundles every hop where it lands; the boundary rule. \<open>Wire_Ledger\<close>
    (\<^verbatim>\<open>hooks/lib/traceWireLedger.ts\<close>), on top of both: the restricted index answers as the full one, rollups are accounted
    for from the inside out, each wire is drawn once. Keys made of two URNs are read back only where no URN holds the
    separator, which these theorems assume.
  \<^item> \<open>Walk_Model\<close> (\<^verbatim>\<open>lens/closure-adapter.ts\<close>): merging pages is idempotent and keeps the last of every node, edge and
    containment brought under its key, a page changes what is owed
    only where it speaks; a selection and its focus are a round trip.
  \<^item> \<open>Frame_Flow\<close> (\<^verbatim>\<open>lens/frame-flow.ts\<close>): rows stand below what feeds them, the wires in a lane do not overlap.
    \<open>Card_Layout\<close> (\<open>layoutBands\<close> and the window of a frame in \<^verbatim>\<open>lens/focus-cards.ts\<close>), on top of it: cards are inside their
    frames and never overlap. The frames are sized from the inside and placed from the outside; a card may have up to 31 hosts,
    as many as the code counts. \<open>Lens_Condensation\<close> (\<^verbatim>\<open>lens/condensation.ts\<close>, \<^verbatim>\<open>invariants.ts\<close>, \<^verbatim>\<open>query-dimming.ts\<close>,
    \<^verbatim>\<open>wire-bundles.ts\<close>): folding runs of cards breaks no invariant of the board, keeps who is connected to whom and the counts.
  \<^item> \<open>Ontology_Rules\<close> (\<^verbatim>\<open>services/ontologyPreflightService.ts\<close>): the gates of nesting and drawing, and what they agree on.
    \<open>Type_Chains\<close>: the template chains are the maximal containment paths. \<open>Retype_Plan\<close>: the backtracking resolver of a
    type change finds a legal plan exactly when there is one. \<open>Bulk_Links\<close> (\<^verbatim>\<open>lib/bulkLinks.ts\<close>): the memos and indexes
    count what the gate lets through; the interface \<open>memo_table\<close> is interpreted on both memos.
  \<^item> \<open>Layer_Fold\<close> (\<^verbatim>\<open>layerFold.ts\<close>): the open columns fit, are one window and as many as the spine width promises.
  \<^item> \<open>Trace_History\<close> (\<^verbatim>\<open>hooks/lib/traceHistoryStack.ts\<close>): the back/forward history as a step relation; storing and
    reading it is a round trip.
  \<^item> \<open>Circuit_Breaker\<close>, \<open>Graph_Requests\<close>: the breaker as a state machine; the request loop with its retry budget, on top
    of the breaker. \<open>Fetch_Timeout\<close> (\<^verbatim>\<open>services/fetchWithTimeout.ts\<close>): the wrapper each attempt goes through, with the replays
    it makes itself, and the whole graph request, of which it counts what is really sent. \<open>Bounded_Queue\<close> (\<^verbatim>\<open>lib/concurrency.ts\<close>): the queue as a step relation whose tasks settle at any time.

  \<^bold>\<open>Conventions.\<close> A definition has the name of the function it models; a prefix or suffix is added where HOL has the name.
  A class or store is a record, an operation a function from the record to the record and its result, a thrown error a
  value (\<open>Inl\<close> or None). Objects, maps and sets are lists in insertion order, of which \<open>map_of\<close> reads and
  \<open>AList.update\<close> writes; keys inherited from \<open>Object.prototype\<close> are ignored. Strings have code units 0..255, so
  that case mapping and white space are those of Latin-1. Numbers are rationals where the code only compares or adds
  small integers, and doubles in \<open>Rule_Semantics\<close>. What is outside the program or not determined is an argument: the
  clock, random and generated ids, the spelling of a number as a string, the replies of the server (in \<open>Draft_Save\<close> a function of its state, with its promise as a hypothesis), hooks passed in as
  functions. Locales state the interfaces: \<open>step_invariant\<close> (a machine keeps its invariant), \<open>compiled_view\<close>,
  \<open>parent_walk\<close>, \<open>memo_table\<close>, each interpreted on the definitions that model the code.

  \<^bold>\<open>Loops.\<close> Recursion that descends is a \<open>fun\<close>; a loop whose end needs an argument is a \<open>function\<close> with a
  \<open>termination\<close> proof (the digits of a midpoint, the passes of a discard, the visits of a duplicate, the drain of a
  queue, the containment chains and the searches of the lens, the turns that rank the rows of a frame, the walk along a run of cards); the loops that follow an arbitrary graph (\<open>walk\<close>, the search for components, the parents of a selected
  entity) are \<open>partial_function (option)\<close>, and the theorems about them say that they return. \<open>Retype_Plan\<close> descends into the children a caller supplies and
  counts the levels (\<open>fuel\<close>): its theorems ask for as many as the subtree has, and then it returns.

  \<^bold>\<open>Not modelled.\<close> The server (Python, under \<^verbatim>\<open>backend\<close>), the React components and hooks that render and call the code
  above, the API clients under \<^verbatim>\<open>services\<close> that only build a URL and parse a reply, the search language and its editor
  (\<^verbatim>\<open>components/canvas/search\<close>), what the lineage lens draws of its subgraph (\<^verbatim>\<open>lens/focus-layout.ts\<close>) and its camera, administration screens, generated
  types, fixtures and tests. Of files that are modelled: the wording of the reasons and labels, the canvas card made of a node
  (\<^verbatim>\<open>toCanvasNode\<close>), the timers behind a timeout and an abort (\<^verbatim>\<open>withTimeout\<close>), the headers and cookies of a request, the syntax of a Retry-After header,
  a task of the queue that throws before it returns a promise,
  \<^verbatim>\<open>mapWithConcurrency\<close>, and the snapshot of a draft in the browser's storage.
\<close>

end
